(* ===== verification/Prelude.thy ===== *)
theory Prelude
  imports Main "HOL-Library.Word" "HOL-Library.AList"
begin

text \<open>
  What the component theories share: names for the machine types of the Go
  source, the fixed-width integer layouts of Go's \<open>encoding/binary\<close>, and the
  generic list, option, result and word lemmas the component proofs rest on.
\<close>

unbundle bit_operations_syntax

named_theorems codec_simps \<open>round-trip and length facts of the byte layouts\<close>

subsection \<open>Machine types\<close>

type_synonym byte = "8 word"
type_synonym u16 = "16 word"
type_synonym u32 = "32 word"
type_synonym u64 = "64 word"
type_synonym bytes = "byte list"

text \<open>A Go function returning \<open>(value, error)\<close> is a sum: \<open>Inl\<close> the error.\<close>

type_synonym ('e, 'a) result = "'e + 'a"

definition result_bind :: "('e, 'a) result \<Rightarrow> ('a \<Rightarrow> ('e, 'b) result) \<Rightarrow> ('e, 'b) result" where
  "result_bind r f = (case r of Inl e \<Rightarrow> Inl e | Inr v \<Rightarrow> f v)"

lemma result_bind_simps [simp]:
  "result_bind (Inl e) f = Inl e"
  "result_bind (Inr v) f = f v"
  by (simp_all add: result_bind_def)

lemma result_bind_cong [fundef_cong]:
  "r = s \<Longrightarrow> (\<And>v. s = Inr v \<Longrightarrow> f v = g v) \<Longrightarrow> result_bind r f = result_bind s g"
  by (cases s) (auto simp: result_bind_def)

lemma result_bind_eq_Inr_iff:
  "result_bind r f = Inr v \<longleftrightarrow> (\<exists>u. r = Inr u \<and> f u = Inr v)"
  by (cases r) auto

lemma result_bind_eq_Inl_iff:
  "result_bind r f = Inl e \<longleftrightarrow> r = Inl e \<or> (\<exists>u. r = Inr u \<and> f u = Inl e)"
  by (cases r) auto

subsection \<open>Fixed-width integer layouts\<close>

text \<open>
  \<open>le_bytes n x\<close> is the \<open>n\<close>-byte little-endian layout of \<open>x\<close>, \<open>le_val\<close> reads
  one back; the big-endian forms reverse the bytes.
\<close>

fun le_bytes :: "nat \<Rightarrow> nat \<Rightarrow> bytes" where
  "le_bytes 0 x = []"
| "le_bytes (Suc n) x = of_nat (x mod 256) # le_bytes n (x div 256)"

fun le_val :: "bytes \<Rightarrow> nat" where
  "le_val [] = 0"
| "le_val (b # bs) = unat b + 256 * le_val bs"

definition be_bytes :: "nat \<Rightarrow> nat \<Rightarrow> bytes" where
  "be_bytes n x = rev (le_bytes n x)"

definition be_val :: "bytes \<Rightarrow> nat" where
  "be_val bs = le_val (rev bs)"

lemma length_le_bytes [simp, codec_simps]: "length (le_bytes n x) = n"
  by (induction n arbitrary: x) auto

lemma length_be_bytes [simp, codec_simps]: "length (be_bytes n x) = n"
  by (simp add: be_bytes_def)

lemma unat_of_nat_byte: "unat (of_nat (x mod 256) :: byte) = x mod 256"
  by (simp add: unat_of_nat)

lemma le_val_le_bytes_mod: "le_val (le_bytes n x) = x mod 256 ^ n"
proof (induction n arbitrary: x)
  case 0
  then show ?case by simp
next
  case (Suc n)
  have "le_val (le_bytes (Suc n) x) = x mod 256 + 256 * ((x div 256) mod 256 ^ n)"
    by (simp add: Suc.IH unat_of_nat_byte)
  also have "\<dots> = x mod 256 ^ Suc n"
    by (simp add: mod_mult2_eq)
  finally show ?case .
qed

lemma le_val_le_bytes [simp, codec_simps]: "x < 256 ^ n \<Longrightarrow> le_val (le_bytes n x) = x"
  by (simp add: le_val_le_bytes_mod)

lemma be_val_be_bytes [simp, codec_simps]: "x < 256 ^ n \<Longrightarrow> be_val (be_bytes n x) = x"
  by (simp add: be_val_def be_bytes_def)

lemma le_val_bound: "le_val bs < 256 ^ length bs"
proof (induction bs)
  case Nil
  then show ?case by simp
next
  case (Cons b bs)
  have "unat b < 256" using unsigned_less [of b] by simp
  with Cons show ?case by simp
qed

lemma be_val_bound: "be_val bs < 256 ^ length bs"
  using le_val_bound [of "rev bs"] by (simp add: be_val_def)

lemma le_bytes_le_val: "le_bytes (length bs) (le_val bs) = bs"
proof (induction bs)
  case Nil
  then show ?case by simp
next
  case (Cons b bs)
  have b: "unat b < 256" using unsigned_less [of b] by simp
  then have "(unat b + 256 * le_val bs) mod 256 = unat b"
    and "(unat b + 256 * le_val bs) div 256 = le_val bs"
    by simp_all
  with Cons show ?case by simp
qed

lemma be_bytes_be_val: "be_bytes (length bs) (be_val bs) = bs"
  using le_bytes_le_val [of "rev bs"] by (simp add: be_bytes_def be_val_def)

text \<open>The word-typed forms: \<open>PutUint16\<close>, \<open>Uint32\<close> and the others of both orders.\<close>

definition put_le16 :: "u16 \<Rightarrow> bytes" where "put_le16 w = le_bytes 2 (unat w)"
definition put_le32 :: "u32 \<Rightarrow> bytes" where "put_le32 w = le_bytes 4 (unat w)"
definition put_le64 :: "u64 \<Rightarrow> bytes" where "put_le64 w = le_bytes 8 (unat w)"
definition put_be16 :: "u16 \<Rightarrow> bytes" where "put_be16 w = be_bytes 2 (unat w)"
definition put_be32 :: "u32 \<Rightarrow> bytes" where "put_be32 w = be_bytes 4 (unat w)"
definition put_be64 :: "u64 \<Rightarrow> bytes" where "put_be64 w = be_bytes 8 (unat w)"

definition get_le16 :: "bytes \<Rightarrow> u16" where "get_le16 bs = of_nat (le_val (take 2 bs))"
definition get_le32 :: "bytes \<Rightarrow> u32" where "get_le32 bs = of_nat (le_val (take 4 bs))"
definition get_le64 :: "bytes \<Rightarrow> u64" where "get_le64 bs = of_nat (le_val (take 8 bs))"
definition get_be16 :: "bytes \<Rightarrow> u16" where "get_be16 bs = of_nat (be_val (take 2 bs))"
definition get_be32 :: "bytes \<Rightarrow> u32" where "get_be32 bs = of_nat (be_val (take 4 bs))"
definition get_be64 :: "bytes \<Rightarrow> u64" where "get_be64 bs = of_nat (be_val (take 8 bs))"

lemma length_put [simp, codec_simps]:
  "length (put_le16 a) = 2" "length (put_le32 b) = 4" "length (put_le64 c) = 8"
  "length (put_be16 a) = 2" "length (put_be32 b) = 4" "length (put_be64 c) = 8"
  by (simp_all add: put_le16_def put_le32_def put_le64_def put_be16_def put_be32_def put_be64_def)

lemma unat_u16_bound: "unat (w :: u16) < 256 ^ 2"
  using unsigned_less [of w] by simp

lemma unat_u32_bound: "unat (w :: u32) < 256 ^ 4"
  using unsigned_less [of w] by simp

lemma unat_u64_bound: "unat (w :: u64) < 256 ^ 8"
  using unsigned_less [of w] by simp

lemmas unat_width_bounds = unat_u16_bound unat_u32_bound unat_u64_bound

lemma get_put [simp, codec_simps]:
  "get_le16 (put_le16 a @ xs) = a" "get_le32 (put_le32 b @ xs) = b" "get_le64 (put_le64 c @ xs) = c"
  "get_be16 (put_be16 a @ xs) = a" "get_be32 (put_be32 b @ xs) = b" "get_be64 (put_be64 c @ xs) = c"
  unfolding get_le16_def get_le32_def get_le64_def get_be16_def get_be32_def get_be64_def
    put_le16_def put_le32_def put_le64_def put_be16_def put_be32_def put_be64_def
  using unat_width_bounds
  by simp_all

lemma get_put_exact [simp, codec_simps]:
  "get_le16 (put_le16 a) = a" "get_le32 (put_le32 b) = b" "get_le64 (put_le64 c) = c"
  "get_be16 (put_be16 a) = a" "get_be32 (put_be32 b) = b" "get_be64 (put_be64 c) = c"
  using get_put [where xs = "[]"] by simp_all

text \<open>Conversely, writing back what was read from exactly the right number of bytes.\<close>

lemma put_get:
  "length bs = 2 \<Longrightarrow> put_le16 (get_le16 bs) = bs"
  "length bs = 4 \<Longrightarrow> put_le32 (get_le32 bs) = bs"
  "length bs = 8 \<Longrightarrow> put_le64 (get_le64 bs) = bs"
  using le_val_bound [of bs] le_bytes_le_val [of bs]
  by (simp_all add: put_le16_def get_le16_def put_le32_def get_le32_def put_le64_def get_le64_def
      unat_of_nat)

subsection \<open>Reading with \<open>io.ReadFull\<close>\<close>

text \<open>
  \<open>read_full n bs\<close> splits the first \<open>n\<close> bytes off a known source, or reports how
  many bytes a short source still had (an \<open>io.EOF\<close>-class error).
\<close>

definition read_full :: "nat \<Rightarrow> bytes \<Rightarrow> (bytes, bytes \<times> bytes) result" where
  "read_full n bs = (if length bs < n then Inl bs else Inr (take n bs, drop n bs))"

lemma read_full_append [simp]: "length xs = n \<Longrightarrow> read_full n (xs @ ys) = Inr (xs, ys)"
  by (simp add: read_full_def)

lemma read_full_Inr_iff:
  "read_full n bs = Inr (xs, ys) \<longleftrightarrow> length xs = n \<and> bs = xs @ ys"
  by (auto simp: read_full_def)

lemma read_full_Inl_iff: "read_full n bs = Inl xs \<longleftrightarrow> length bs < n \<and> xs = bs"
  by (auto simp: read_full_def)

end
