(* ===== verification/Crc32c.thy ===== *)
theory Crc32c
  imports Prelude
begin

text \<open>
  CRC32C as the write-ahead log uses it: \<open>crc32.Update\<close> and \<open>crc32.Checksum\<close> of
  Go's \<open>hash/crc32\<close> with the Castagnoli table (\<open>castagnoli\<close> in
  \<open>store/wal/format.go\<close>). The lemmas show that the checksum is incremental and
  that it separates any two inputs that differ in exactly one byte.
\<close>

subsection \<open>Definitions\<close>

definition crc_poly :: u32 where
  "crc_poly = 0x82F63B78"

definition crc_bit :: "u32 \<Rightarrow> u32" where
  "crc_bit c = (if bit c 0 then drop_bit 1 c XOR crc_poly else drop_bit 1 c)"

text \<open>One entry of the Castagnoli table, and the byte step \<open>tab[byte(crc)^v] ^ (crc >> 8)\<close>.\<close>

definition crc_table :: "byte \<Rightarrow> u32" where
  "crc_table b = (crc_bit ^^ 8) (ucast b)"

definition crc_step :: "byte \<Rightarrow> u32 \<Rightarrow> u32" where
  "crc_step v c = crc_table (ucast c XOR v) XOR drop_bit 8 c"

definition crc_update :: "u32 \<Rightarrow> bytes \<Rightarrow> u32" where
  "crc_update crc p = NOT (fold crc_step p (NOT crc))"

definition crc_checksum :: "bytes \<Rightarrow> u32" where
  "crc_checksum p = crc_update 0 p"

subsection \<open>The register step is linear and injective\<close>

lemma word_xor_cancel:
  fixes x y z :: "'a::len word"
  shows "x XOR z = y XOR z \<longleftrightarrow> x = y" and "z XOR x = z XOR y \<longleftrightarrow> x = y"
proof -
  have *: "(w XOR z) XOR z = w" for w by (simp add: xor.assoc)
  from * [of x] * [of y] show "x XOR z = y XOR z \<longleftrightarrow> x = y" by metis
  then show "z XOR x = z XOR y \<longleftrightarrow> x = y" by (simp add: xor.commute)
qed

lemma crc_bit_xor: "crc_bit (c XOR d) = crc_bit c XOR crc_bit d"
  by (rule bit_word_eqI) (auto simp: crc_bit_def bit_simps)

lemma crc_bit_funpow_xor: "(crc_bit ^^ n) (c XOR d) = (crc_bit ^^ n) c XOR (crc_bit ^^ n) d"
  by (induction n) (simp_all add: crc_bit_xor)

lemma crc_bit_low_zero: "(\<forall>i<n. \<not> bit c i) \<Longrightarrow> (crc_bit ^^ n) c = drop_bit n c"
proof (induction n)
  case 0
  then show ?case by simp
next
  case (Suc n)
  then have IH: "(crc_bit ^^ n) c = drop_bit n c" by simp
  from Suc.prems have "\<not> bit (drop_bit n c) 0" by (simp add: bit_drop_bit_eq)
  then show ?case by (simp add: IH) (simp add: crc_bit_def)
qed

lemma bit_crc_bit_top: "bit (crc_bit c) 31 = bit c 0"
proof -
  have "bit crc_poly 31" by (simp add: crc_poly_def)
  moreover have "\<not> bit (drop_bit 1 c) 31" by (auto simp: bit_drop_bit_eq dest: bit_imp_le_length)
  ultimately show ?thesis by (simp add: crc_bit_def bit_xor_iff)
qed

lemma drop_bit_1_bit_0_eq:
  fixes c d :: u32
  assumes "drop_bit 1 c = drop_bit 1 d" and "bit c 0 = bit d 0"
  shows "c = d"
proof (rule bit_word_eqI)
  fix n assume "n < LENGTH(32)"
  show "bit c n = bit d n"
  proof (cases n)
    case 0
    with assms(2) show ?thesis by simp
  next
    case (Suc m)
    have "bit (drop_bit 1 c) m = bit (drop_bit 1 d) m" by (simp only: assms(1))
    with Suc show ?thesis by (simp add: bit_drop_bit_eq)
  qed
qed

lemma crc_bit_eqD: "crc_bit c = crc_bit d \<Longrightarrow> c = d"
proof -
  assume eq: "crc_bit c = crc_bit d"
  then have b: "bit c 0 = bit d 0"
    using bit_crc_bit_top [of c] bit_crc_bit_top [of d] by simp
  from eq b have "drop_bit 1 c = drop_bit 1 d"
    by (cases "bit c 0") (simp_all add: crc_bit_def word_xor_cancel)
  with b show "c = d" by (rule drop_bit_1_bit_0_eq [rotated])
qed

lemma crc_bit_funpow_eqD: "(crc_bit ^^ n) c = (crc_bit ^^ n) d \<Longrightarrow> c = d"
  by (induction n) (auto dest: crc_bit_eqD)

text \<open>The table-driven step is the eight bit steps of the register with the byte folded in.\<close>

lemma crc_step_bits: "crc_step v c = (crc_bit ^^ 8) (c XOR ucast v)"
proof -
  define hi where "hi = push_bit 8 (drop_bit 8 c)"
  have split: "c XOR ucast v = ucast (ucast c XOR v :: byte) XOR hi"
  proof (rule bit_word_eqI)
    fix n assume n: "n < LENGTH(32)"
    then show "bit (c XOR ucast v) n = bit (ucast (ucast c XOR v :: byte) XOR hi) n"
      by (auto simp: hi_def bit_simps not_less dest: bit_imp_le_length)
  qed
  have "\<forall>i<8. \<not> bit hi i" by (simp add: hi_def bit_push_bit_iff)
  then have "(crc_bit ^^ 8) hi = drop_bit 8 hi" by (rule crc_bit_low_zero)
  also have "\<dots> = drop_bit 8 c"
    by (rule bit_word_eqI) (auto simp: hi_def bit_simps dest: bit_imp_le_length)
  finally show ?thesis
    by (simp only: split crc_bit_funpow_xor crc_step_def crc_table_def)
qed

lemma crc_step_state_eqD: "crc_step v c = crc_step v d \<Longrightarrow> c = d"
  by (auto simp: crc_step_bits word_xor_cancel dest!: crc_bit_funpow_eqD)

lemma ucast_byte_eqD: "(ucast (v :: byte) :: u32) = ucast w \<Longrightarrow> v = w"
proof (rule bit_word_eqI)
  fix n assume eq: "(ucast v :: u32) = ucast w" and n: "n < LENGTH(8)"
  have "bit x n = bit (ucast x :: u32) n" for x :: byte
    using n by (simp add: bit_unsigned_iff)
  with eq show "bit v n = bit w n" by metis
qed

lemma crc_step_byte_eqD: "crc_step v c = crc_step w c \<Longrightarrow> v = w"
proof -
  assume "crc_step v c = crc_step w c"
  then have "c XOR ucast v = c XOR ucast w"
    unfolding crc_step_bits by (rule crc_bit_funpow_eqD)
  then have "(ucast v :: u32) = ucast w" by (simp add: word_xor_cancel)
  then show "v = w" by (rule ucast_byte_eqD)
qed

lemma fold_crc_step_eqD: "fold crc_step p c = fold crc_step p d \<Longrightarrow> c = d"
  by (induction p arbitrary: c d) (auto dest: crc_step_state_eqD)

subsection \<open>Incremental update and single-byte separation\<close>

lemma crc_update_append: "crc_update (crc_update c p) q = crc_update c (p @ q)"
  by (simp add: crc_update_def)

lemma crc_update_Nil [simp]: "crc_update c [] = c"
  by (simp add: crc_update_def)

lemma crc_update_state_eqD: "crc_update c p = crc_update d p \<Longrightarrow> c = d"
  by (auto simp: crc_update_def dest: fold_crc_step_eqD)

lemma crc_update_byte_eqD:
  assumes "crc_update c (p @ v # q) = crc_update c (p @ w # q)"
  shows "v = w"
proof -
  define s where "s = fold crc_step p (NOT c)"
  from assms have "fold crc_step q (crc_step v s) = fold crc_step q (crc_step w s)"
    by (simp add: crc_update_def s_def)
  then have "crc_step v s = crc_step w s" by (rule fold_crc_step_eqD)
  then show ?thesis by (rule crc_step_byte_eqD)
qed

lemma crc_update_list_update:
  assumes "i < length p" and "crc_update c (p[i := v]) = crc_update c p"
  shows "v = p ! i"
proof -
  have "p[i := v] = take i p @ v # drop (Suc i) p" and "p = take i p @ p ! i # drop (Suc i) p"
    using assms(1) by (simp_all add: upd_conv_take_nth_drop id_take_nth_drop)
  with assms(2) show ?thesis using crc_update_byte_eqD [of c "take i p" v "drop (Suc i) p" "p ! i"]
    by metis
qed

text \<open>The check value of CRC32C: the checksum of the ASCII digits 1 to 9.\<close>

lemma crc_bit_pow8:
  "(crc_bit ^^ 8) c = crc_bit (crc_bit (crc_bit (crc_bit (crc_bit (crc_bit (crc_bit (crc_bit c)))))))"
  by (simp add: eval_nat_numeral)

lemma crc_check_value:
  "crc_checksum [0x31, 0x32, 0x33, 0x34, 0x35, 0x36, 0x37, 0x38, 0x39] = 0xE3069283"
  by (simp add: crc_checksum_def crc_update_def crc_step_bits crc_bit_pow8 crc_bit_def crc_poly_def)

end
