(* ===== verification/Wal_Format.thy ===== *)
theory Wal_Format
  imports Crc32c
begin

text \<open>
  The write-ahead-log frame format of \<open>store/wal/format.go\<close>: the two frame
  layouts, \<open>Encode\<close>, \<open>Decode\<close> with its torn-versus-corrupt discrimination
  \<open>embedsValidFrame\<close>. An \<open>io.Reader\<close> is the list of bytes it will still deliver
  (so the only reader error is the end of input) and an \<open>io.Writer\<close> the list of
  bytes it received; metrics counters are left out.
\<close>

subsection \<open>Constants, errors and the frame\<close>

datatype wal_error =
    ErrBadMagic | ErrUnsupportedVersion | ErrCRCMismatch | ErrTornFrame
  | ErrTornFrameMasksData | ErrFrameTooLarge
  | ErrMissingControl | ErrControlCorrupt | ErrSegmentHeader | ErrForeignStore
  | ErrSegmentGap | ErrTornSegment | ErrFramePosition | ErrPrevLink
  | ErrLegacyNotSealed | ErrControlRecordCorrupt | ErrIO

definition Magic :: bytes where
  "Magic = [0x47, 0x47, 0x57, 0x41]"

definition CurrentVersion :: u16 where "CurrentVersion = 2"
definition LegacyVersion :: u16 where "LegacyVersion = 1"
definition HeaderSize :: nat where "HeaderSize = 14"
definition HeaderSizeV2 :: nat where "HeaderSizeV2 = 36"
definition maxFrameSize :: nat where "maxFrameSize = 1073741824"

text \<open>The header size of a frame version, 0 for a version this build does not know.\<close>

definition headerSizeFor :: "u16 \<Rightarrow> nat" where
  "headerSizeFor v =
     (if v = LegacyVersion then HeaderSize
      else if v = CurrentVersion then HeaderSizeV2
      else 0)"

record Frame =
  Payload :: bytes
  Pos :: u64
  StoreID :: u64
  PrevLen :: u32
  FVersion :: u16

subsection \<open>Encoding\<close>

definition encodeLegacy :: "bytes \<Rightarrow> bytes" where
  "encodeLegacy payload =
     (let h = Magic @ put_le16 LegacyVersion @ put_le32 (of_nat (length payload));
          crc = crc_update (crc_update 0 h) payload
      in h @ put_le32 crc @ payload)"

text \<open>The header bytes before the CRC, and the full header with the CRC continued over them.\<close>

definition headerV2Body :: "u32 \<Rightarrow> u64 \<Rightarrow> u32 \<Rightarrow> u64 \<Rightarrow> bytes" where
  "headerV2Body plen pos prevLen storeID =
     Magic @ put_le16 CurrentVersion @ put_le16 0 @ put_le32 plen @ put_le64 pos
       @ put_le32 prevLen @ put_le64 storeID"

definition putHeaderV2 :: "u32 \<Rightarrow> u64 \<Rightarrow> u32 \<Rightarrow> u64 \<Rightarrow> u32 \<Rightarrow> bytes" where
  "putHeaderV2 plen pos prevLen storeID payloadCRC =
     (let h = headerV2Body plen pos prevLen storeID
      in h @ put_le32 (crc_update payloadCRC h))"

definition encodeV2 :: "bytes \<Rightarrow> u64 \<Rightarrow> u32 \<Rightarrow> u64 \<Rightarrow> bytes" where
  "encodeV2 payload pos prevLen storeID =
     putHeaderV2 (of_nat (length payload)) pos prevLen storeID (crc_update 0 payload) @ payload"

definition Encode :: "Frame \<Rightarrow> (wal_error, bytes) result" where
  "Encode f =
     (if length (Payload f) > maxFrameSize then Inl ErrFrameTooLarge
      else if FVersion f = 0 \<or> FVersion f = LegacyVersion then Inr (encodeLegacy (Payload f))
      else if FVersion f = CurrentVersion
        then Inr (encodeV2 (Payload f) (Pos f) (PrevLen f) (StoreID f))
      else Inl ErrUnsupportedVersion)"

definition FrameSize :: "Frame \<Rightarrow> nat" where
  "FrameSize f =
     (if FVersion f = CurrentVersion then HeaderSizeV2 + length (Payload f)
      else HeaderSize + length (Payload f))"

subsection \<open>Decoding\<close>

definition frameCRC :: "u16 \<Rightarrow> bytes \<Rightarrow> bytes \<Rightarrow> u32" where
  "frameCRC version header payload =
     (if version = LegacyVersion
      then crc_update (crc_update 0 (take 10 header)) payload
      else crc_update (crc_update 0 payload) (take 32 header))"

text \<open>
  The length and CRC fields a header of the given version carries: both
  \<open>Decode\<close> and \<open>embedsValidFrame\<close> read them at these offsets.
\<close>

definition header_plen :: "u16 \<Rightarrow> bytes \<Rightarrow> nat" where
  "header_plen version head =
     (if version = LegacyVersion then unat (get_le32 (drop 6 head))
      else unat (get_le32 (drop 8 head)))"

definition header_crc :: "u16 \<Rightarrow> bytes \<Rightarrow> u32" where
  "header_crc version head =
     (if version = LegacyVersion then get_le32 (drop 10 head) else get_le32 (drop 32 head))"

text \<open>
  \<open>embedsValidFrame\<close> scans every offset; the argument is the suffix of the buffer
  at the current offset, so \<open>off + n \<le> len(buf)\<close> reads as a bound on its length.
\<close>

fun embeds_from :: "nat \<Rightarrow> nat \<Rightarrow> bytes \<Rightarrow> bool" where
  "embeds_from crcBudget crcSpent [] = False"
| "embeds_from crcBudget crcSpent (b # rest) =
     (let buf = b # rest;
          version = get_le16 (drop 4 buf);
          hsz = headerSizeFor version;
          plen = header_plen version buf
      in if length buf < HeaderSize then False
         else if take 4 buf \<noteq> Magic then embeds_from crcBudget crcSpent rest
         else if hsz = 0 \<or> hsz > length buf then embeds_from crcBudget crcSpent rest
         else if plen > maxFrameSize then embeds_from crcBudget crcSpent rest
         else if hsz + plen > length buf then embeds_from crcBudget crcSpent rest
         else if crcSpent + (hsz + plen) > crcBudget then True
         else if frameCRC version (take hsz buf) (take plen (drop hsz buf)) = header_crc version buf
           then True
         else embeds_from crcBudget (crcSpent + (hsz + plen)) rest)"

definition embedsValidFrame :: "bytes \<Rightarrow> bool" where
  "embedsValidFrame buf = embeds_from (2 * length buf) 0 buf"

definition readFramePayload :: "bytes \<Rightarrow> nat \<Rightarrow> (bytes, bytes \<times> bytes) result" where
  "readFramePayload r plen = (if plen = 0 then Inr ([], r) else read_full plen r)"

definition Decode :: "bytes \<Rightarrow> (wal_error, Frame \<times> bytes) result" where
  "Decode r =
     (case read_full HeaderSize r of
        Inl _ \<Rightarrow> Inl ErrTornFrame
      | Inr (h1, r1) \<Rightarrow>
          if take 4 h1 \<noteq> Magic then Inl ErrBadMagic
          else let version = get_le16 (drop 4 h1); hsz = headerSizeFor version in
          if hsz = 0 then Inl ErrUnsupportedVersion
          else case read_full (hsz - HeaderSize) r1 of
            Inl _ \<Rightarrow> Inl ErrTornFrame
          | Inr (h2, r2) \<Rightarrow>
              let head = h1 @ h2;
                  plen = header_plen version head;
                  legacy = (version = LegacyVersion)
              in if plen > maxFrameSize then Inl ErrFrameTooLarge
              else case readFramePayload r2 plen of
                Inl partial \<Rightarrow>
                  (if embedsValidFrame partial then Inl ErrTornFrameMasksData else Inl ErrTornFrame)
              | Inr (payload, r3) \<Rightarrow>
                  if frameCRC version head payload \<noteq> header_crc version head
                  then Inl ErrCRCMismatch
                  else Inr (\<lparr>Payload = payload,
                             Pos = (if legacy then 0 else get_le64 (drop 12 head)),
                             StoreID = (if legacy then 0 else get_le64 (drop 24 head)),
                             PrevLen = (if legacy then 0 else get_le32 (drop 20 head)),
                             FVersion = version\<rparr>, r3))"

lemmas wal_format_consts =
  Magic_def CurrentVersion_def LegacyVersion_def HeaderSize_def HeaderSizeV2_def maxFrameSize_def

subsection \<open>Layout lemmas\<close>

lemma length_Magic [simp]: "length Magic = 4"
  by (simp add: Magic_def)

lemma version_distinct [simp]: "LegacyVersion \<noteq> CurrentVersion" "CurrentVersion \<noteq> LegacyVersion"
  by (simp_all add: LegacyVersion_def CurrentVersion_def)

lemma headerSizeFor_simps [simp]:
  "headerSizeFor LegacyVersion = HeaderSize" "headerSizeFor CurrentVersion = HeaderSizeV2"
  by (simp_all add: headerSizeFor_def)

lemma length_headerV2Body [simp]: "length (headerV2Body plen pos prevLen storeID) = 32"
  by (simp add: headerV2Body_def)

lemma length_putHeaderV2 [simp]: "length (putHeaderV2 plen pos prevLen storeID c) = HeaderSizeV2"
  by (simp add: putHeaderV2_def HeaderSizeV2_def Let_def)

lemma length_encodeV2 [simp]: "length (encodeV2 p pos prevLen storeID) = HeaderSizeV2 + length p"
  by (simp add: encodeV2_def)

lemma length_encodeLegacy [simp]: "length (encodeLegacy p) = HeaderSize + length p"
  by (simp add: encodeLegacy_def HeaderSize_def Let_def)

lemma unat_length_frame:
  "length (p :: bytes) \<le> maxFrameSize \<Longrightarrow> unat (of_nat (length p) :: u32) = length p"
  by (simp add: unat_of_nat maxFrameSize_def)

lemma Encode_length: "Encode f = Inr bs \<Longrightarrow> length bs = FrameSize f"
  by (auto simp: Encode_def FrameSize_def CurrentVersion_def LegacyVersion_def split: if_splits)

lemma Encode_nonempty: "Encode f = Inr bs \<Longrightarrow> bs \<noteq> []"
  by (drule Encode_length) (auto simp: FrameSize_def HeaderSize_def HeaderSizeV2_def split: if_splits)

subsection \<open>Decoding behind a complete header\<close>

text \<open>
  Once the header is complete and carries the magic and a known version,
  \<open>Decode\<close> depends on it only through its length, CRC and identity fields.
\<close>

definition decode_body :: "u16 \<Rightarrow> bytes \<Rightarrow> bytes \<Rightarrow> (wal_error, Frame \<times> bytes) result" where
  "decode_body version head r =
     (if header_plen version head > maxFrameSize then Inl ErrFrameTooLarge
      else case readFramePayload r (header_plen version head) of
        Inl partial \<Rightarrow>
          (if embedsValidFrame partial then Inl ErrTornFrameMasksData else Inl ErrTornFrame)
      | Inr (payload, r3) \<Rightarrow>
          if frameCRC version head payload \<noteq> header_crc version head then Inl ErrCRCMismatch
          else Inr (\<lparr>Payload = payload,
                     Pos = (if version = LegacyVersion then 0 else get_le64 (drop 12 head)),
                     StoreID = (if version = LegacyVersion then 0 else get_le64 (drop 24 head)),
                     PrevLen = (if version = LegacyVersion then 0 else get_le32 (drop 20 head)),
                     FVersion = version\<rparr>, r3))"

lemma headerSizeFor_cases:
  "headerSizeFor v \<noteq> 0 \<Longrightarrow> v = LegacyVersion \<or> v = CurrentVersion"
  by (auto simp: headerSizeFor_def split: if_splits)

lemma headerSizeFor_ge: "headerSizeFor v \<noteq> 0 \<Longrightarrow> HeaderSize \<le> headerSizeFor v"
  by (auto simp: headerSizeFor_def HeaderSize_def HeaderSizeV2_def split: if_splits)

lemma get_le16_take: "4 + 2 \<le> n \<Longrightarrow> get_le16 (drop 4 (take n xs)) = get_le16 (drop 4 xs)"
  by (simp add: get_le16_def drop_take min_def)

lemma get_le16_append: "4 + 2 \<le> length xs \<Longrightarrow> get_le16 (drop 4 (xs @ ys)) = get_le16 (drop 4 xs)"
  by (simp add: get_le16_def)

lemma Decode_header:
  assumes len: "length head = headerSizeFor version" and known: "headerSizeFor version \<noteq> 0"
    and magic: "take 4 head = Magic" and ver: "get_le16 (drop 4 head) = version"
  shows "Decode (head @ r) = decode_body version head r"
proof -
  have ge: "HeaderSize \<le> length head" using headerSizeFor_ge [OF known] len by simp
  obtain h1 h2 where head: "head = h1 @ h2" and l1: "length h1 = HeaderSize"
    and l2: "length h2 = headerSizeFor version - HeaderSize"
    using ge len that [of "take HeaderSize head" "drop HeaderSize head"] by simp
  have m1: "take 4 h1 = Magic" and v1: "get_le16 (drop 4 h1) = version"
    using magic ver by (simp_all add: head l1 HeaderSize_def get_le16_def)
  show ?thesis
    unfolding Decode_def decode_body_def head append_assoc read_full_append [OF l1]
    using known by (simp add: m1 v1 Let_def l2)
qed

lemma Decode_short_header:
  assumes "length r < HeaderSize \<or>
    (take 4 r = Magic \<and> headerSizeFor (get_le16 (drop 4 r)) \<noteq> 0
       \<and> length r < headerSizeFor (get_le16 (drop 4 r)))"
  shows "Decode r = Inl ErrTornFrame"
proof (cases "length r < HeaderSize")
  case True
  then show ?thesis by (simp add: Decode_def read_full_def)
next
  case False
  with assms have r: "take 4 r = Magic" "headerSizeFor (get_le16 (drop 4 r)) \<noteq> 0"
    "length r < headerSizeFor (get_le16 (drop 4 r))" by auto
  have v: "get_le16 (drop 4 (take HeaderSize r)) = get_le16 (drop 4 r)"
    by (simp add: get_le16_take HeaderSize_def)
  have m: "take 4 (take HeaderSize r) = Magic"
    using r(1) by (simp add: HeaderSize_def)
  have "length (drop HeaderSize r) < headerSizeFor (get_le16 (drop 4 r)) - HeaderSize"
    using r(3) False by simp
  with False r(2) show ?thesis
    unfolding Decode_def
    by (simp add: read_full_def v m Let_def del: take_take)
qed

subsection \<open>The fields of an encoded frame\<close>

lemma take_headerV2_body:
  "take 32 (putHeaderV2 plen pos prevLen storeID c) = headerV2Body plen pos prevLen storeID"
  by (simp add: putHeaderV2_def Let_def)

lemma headerV2Body_fields:
  "take 4 (headerV2Body plen pos prevLen storeID @ t) = Magic"
  "get_le16 (drop 4 (headerV2Body plen pos prevLen storeID @ t)) = CurrentVersion"
  "get_le32 (drop 8 (headerV2Body plen pos prevLen storeID @ t)) = plen"
  "get_le64 (drop 12 (headerV2Body plen pos prevLen storeID @ t)) = pos"
  "get_le32 (drop 20 (headerV2Body plen pos prevLen storeID @ t)) = prevLen"
  "get_le64 (drop 24 (headerV2Body plen pos prevLen storeID @ t)) = storeID"
  by (simp_all add: headerV2Body_def)

lemma headerV2_fields:
  "take 4 (putHeaderV2 plen pos prevLen storeID c) = Magic"
  "get_le16 (drop 4 (putHeaderV2 plen pos prevLen storeID c)) = CurrentVersion"
  "header_plen CurrentVersion (putHeaderV2 plen pos prevLen storeID c) = unat plen"
  "header_crc CurrentVersion (putHeaderV2 plen pos prevLen storeID c) =
     crc_update c (headerV2Body plen pos prevLen storeID)"
  "get_le64 (drop 12 (putHeaderV2 plen pos prevLen storeID c)) = pos"
  "get_le32 (drop 20 (putHeaderV2 plen pos prevLen storeID c)) = prevLen"
  "get_le64 (drop 24 (putHeaderV2 plen pos prevLen storeID c)) = storeID"
  by (simp_all add: putHeaderV2_def Let_def headerV2Body_def header_plen_def header_crc_def)

definition headerLegacyBody :: "u32 \<Rightarrow> bytes" where
  "headerLegacyBody plen = Magic @ put_le16 LegacyVersion @ put_le32 plen"

lemma length_headerLegacyBody [simp]: "length (headerLegacyBody plen) = 10"
  by (simp add: headerLegacyBody_def)

lemma headerLegacy_fields:
  "take 4 (headerLegacyBody plen @ t) = Magic"
  "get_le16 (drop 4 (headerLegacyBody plen @ t)) = LegacyVersion"
  "header_plen LegacyVersion (headerLegacyBody plen @ t) = unat plen"
  "header_crc LegacyVersion (headerLegacyBody plen @ put_le32 c) = c"
  by (simp_all add: headerLegacyBody_def header_plen_def header_crc_def)

lemma encodeLegacy_split:
  "encodeLegacy p =
     (headerLegacyBody (of_nat (length p))
        @ put_le32 (crc_update (crc_update 0 (headerLegacyBody (of_nat (length p)))) p)) @ p"
  by (simp add: encodeLegacy_def headerLegacyBody_def Let_def)

subsection \<open>Round trip\<close>

lemma Decode_encodeV2:
  assumes "length p \<le> maxFrameSize"
  shows "Decode (encodeV2 p pos prevLen storeID @ rest) =
     Inr (\<lparr>Payload = p, Pos = pos, StoreID = storeID, PrevLen = prevLen,
           FVersion = CurrentVersion\<rparr>, rest)"
proof -
  let ?h = "putHeaderV2 (of_nat (length p)) pos prevLen storeID (crc_update 0 p)"
  have "Decode (?h @ (p @ rest)) = decode_body CurrentVersion ?h (p @ rest)"
    by (rule Decode_header) (simp_all add: headerV2_fields HeaderSizeV2_def)
  also have "\<dots> = Inr (\<lparr>Payload = p, Pos = pos, StoreID = storeID, PrevLen = prevLen,
           FVersion = CurrentVersion\<rparr>, rest)"
    using assms
    by (simp add: decode_body_def headerV2_fields unat_length_frame readFramePayload_def
        frameCRC_def take_headerV2_body)
  finally show ?thesis by (simp add: encodeV2_def)
qed

lemma Decode_encodeLegacy:
  assumes "length p \<le> maxFrameSize"
  shows "Decode (encodeLegacy p @ rest) =
     Inr (\<lparr>Payload = p, Pos = 0, StoreID = 0, PrevLen = 0, FVersion = LegacyVersion\<rparr>, rest)"
proof -
  let ?b = "headerLegacyBody (of_nat (length p))"
  let ?h = "?b @ put_le32 (crc_update (crc_update 0 ?b) p)"
  have "Decode (?h @ (p @ rest)) = decode_body LegacyVersion ?h (p @ rest)"
    by (rule Decode_header) (simp_all add: headerLegacy_fields HeaderSize_def del: take_append drop_append)
  also have "\<dots> = Inr (\<lparr>Payload = p, Pos = 0, StoreID = 0, PrevLen = 0,
           FVersion = LegacyVersion\<rparr>, rest)"
    using assms
    by (simp add: decode_body_def headerLegacy_fields unat_length_frame readFramePayload_def
        frameCRC_def)
  finally show ?thesis by (simp add: encodeLegacy_split)
qed

subsection \<open>A swallowed frame is always found\<close>

lemma embeds_from_skip:
  assumes "\<And>spent. embeds_from budget spent buf" and "HeaderSize \<le> length buf"
  shows "embeds_from budget spent (pre @ buf)"
proof (induction pre arbitrary: spent)
  case Nil
  then show ?case by (simp add: assms(1))
next
  case (Cons a pre)
  then show ?case using assms(2) by (simp add: Let_def)
qed

lemma embeds_from_frame:
  assumes len: "length head = headerSizeFor version" and known: "headerSizeFor version \<noteq> 0"
    and magic: "take 4 head = Magic" and ver: "get_le16 (drop 4 head) = version"
    and plen: "header_plen version head = length payload" "length payload \<le> maxFrameSize"
    and crc: "frameCRC version head payload = header_crc version head"
  shows "embeds_from budget spent (head @ payload @ post)"
proof -
  have ge: "HeaderSize \<le> length head" using headerSizeFor_ge [OF known] len by simp
  then obtain b bs where head: "head = b # bs"
    by (cases head) (auto simp: HeaderSize_def)
  let ?buf = "head @ payload @ post"
  have fields: "take 4 ?buf = Magic" "get_le16 (drop 4 ?buf) = version"
    using magic ver ge by (simp_all add: HeaderSize_def get_le16_def)
  have "header_plen version ?buf = header_plen version head"
    "header_crc version ?buf = header_crc version head"
    using len known by (auto simp: header_plen_def header_crc_def get_le32_def HeaderSize_def
        HeaderSizeV2_def headerSizeFor_def split: if_splits)
  moreover have "take (headerSizeFor version) ?buf = head"
    "take (length payload) (drop (headerSizeFor version) ?buf) = payload"
    using len by simp_all
  ultimately have "embeds_from budget spent (b # (bs @ payload @ post))"
    using fields known ge len plen crc
    unfolding embeds_from.simps Let_def
    by (simp add: head [symmetric] append_Cons [symmetric] del: append_Cons)
  then show ?thesis by (simp add: head)
qed

lemma Encode_frame_parts:
  assumes "Encode f = Inr bs"
  obtains head version where
    "bs = head @ Payload f" "length head = headerSizeFor version" "headerSizeFor version \<noteq> 0"
    "take 4 head = Magic" "get_le16 (drop 4 head) = version"
    "header_plen version head = length (Payload f)" "length (Payload f) \<le> maxFrameSize"
    "frameCRC version head (Payload f) = header_crc version head"
proof -
  let ?p = "Payload f"
  from assms have le: "length ?p \<le> maxFrameSize" by (auto simp: Encode_def split: if_splits)
  from assms consider (legacy) "bs = encodeLegacy ?p"
    | (current) "bs = encodeV2 ?p (Pos f) (PrevLen f) (StoreID f)"
    by (auto simp: Encode_def split: if_splits)
  then show thesis
  proof cases
    case legacy
    let ?b = "headerLegacyBody (of_nat (length ?p))"
    let ?h = "?b @ put_le32 (crc_update (crc_update 0 ?b) ?p)"
    show thesis
      by (rule that [of ?h LegacyVersion])
        (use le in \<open>simp_all add: legacy encodeLegacy_split headerLegacy_fields HeaderSize_def
          unat_length_frame frameCRC_def del: take_append drop_append\<close>,
         simp_all add: headerLegacyBody_def)
  next
    case current
    let ?h = "putHeaderV2 (of_nat (length ?p)) (Pos f) (PrevLen f) (StoreID f) (crc_update 0 ?p)"
    show thesis
      by (rule that [of ?h CurrentVersion])
        (use le in \<open>simp_all add: current encodeV2_def headerV2_fields HeaderSizeV2_def
          unat_length_frame frameCRC_def take_headerV2_body\<close>)
  qed
qed

lemma embedsValidFrame_encoded:
  assumes "Encode f = Inr bs"
  shows "embedsValidFrame (pre @ bs @ post)"
proof -
  obtain head version where parts:
    "bs = head @ Payload f" "length head = headerSizeFor version" "headerSizeFor version \<noteq> 0"
    "take 4 head = Magic" "get_le16 (drop 4 head) = version"
    "header_plen version head = length (Payload f)" "length (Payload f) \<le> maxFrameSize"
    "frameCRC version head (Payload f) = header_crc version head"
    using assms by (rule Encode_frame_parts)
  show ?thesis
    unfolding embedsValidFrame_def
  proof (rule embeds_from_skip)
    show "embeds_from b spent (bs @ post)" for b spent
      using embeds_from_frame [OF parts(2-8)] by (simp add: parts(1))
    show "HeaderSize \<le> length (bs @ post)"
      using headerSizeFor_ge [OF parts(3)] by (simp add: parts(1,2))
  qed
qed

subsection \<open>Corruption and truncation\<close>

lemma Decode_crc_mismatch:
  assumes "length head = headerSizeFor version" "headerSizeFor version \<noteq> 0"
    "take 4 head = Magic" "get_le16 (drop 4 head) = version"
    and plen: "header_plen version head = length payload" "length payload \<le> maxFrameSize"
    and crc: "frameCRC version head payload \<noteq> header_crc version head"
  shows "Decode (head @ payload @ rest) = Inl ErrCRCMismatch"
  unfolding Decode_header [OF assms(1-4)]
  using plen crc by (auto simp: decode_body_def readFramePayload_def)

lemma put_le32_inj: "length bs = 4 \<Longrightarrow> get_le32 bs = w \<Longrightarrow> bs = put_le32 w"
  using put_get(2) [of bs] by simp

lemma Decode_truncated:
  assumes enc: "Encode f = Inr bs" and n: "n < length bs"
  shows "Decode (take n bs) =
    Inl (if embedsValidFrame (take (n - (FrameSize f - length (Payload f))) (Payload f))
         then ErrTornFrameMasksData else ErrTornFrame)"
proof -
  obtain head version where parts:
    "bs = head @ Payload f" "length head = headerSizeFor version" "headerSizeFor version \<noteq> 0"
    "take 4 head = Magic" "get_le16 (drop 4 head) = version"
    "header_plen version head = length (Payload f)" "length (Payload f) \<le> maxFrameSize"
    "frameCRC version head (Payload f) = header_crc version head"
    using enc by (rule Encode_frame_parts)
  have hdr: "FrameSize f - length (Payload f) = length head"
    using Encode_length [OF enc] by (simp add: parts(1))
  show ?thesis
  proof (cases "n < length head")
    case True
    then have t: "take n bs = take n head" by (simp add: parts(1))
    have "Decode (take n head) = Inl ErrTornFrame"
    proof (rule Decode_short_header)
      show "length (take n head) < HeaderSize \<or>
        (take 4 (take n head) = Magic \<and> headerSizeFor (get_le16 (drop 4 (take n head))) \<noteq> 0
           \<and> length (take n head) < headerSizeFor (get_le16 (drop 4 (take n head))))"
        using True parts(2-5) by (auto simp: HeaderSize_def get_le16_take min_def)
    qed
    with True show ?thesis by (simp add: t hdr embedsValidFrame_def)
  next
    case False
    then have t: "take n bs = head @ take (n - length head) (Payload f)"
      by (simp add: parts(1))
    have "n - length head < length (Payload f)" using False n by (simp add: parts(1))
    then show ?thesis
      unfolding t Decode_header [OF parts(2-5)] hdr
      using parts(6,7) by (auto simp: decode_body_def readFramePayload_def read_full_def)
  qed
qed

lemma get_le16_list_update: "6 \<le> i \<Longrightarrow> get_le16 (drop 4 (xs[i := v])) = get_le16 (drop 4 xs)"
  by (simp add: get_le16_def drop_update_swap)

lemma header_plen_list_update:
  "6 \<le> i \<and> i < 8 \<or> 12 \<le> i \<Longrightarrow>
     header_plen CurrentVersion (xs[i := v]) = header_plen CurrentVersion xs"
  by (auto simp: header_plen_def get_le32_def drop_update_swap)

lemma Decode_V2_corrupt_header:
  assumes len: "length p \<le> maxFrameSize"
    and i: "6 \<le> i \<and> i < 8 \<or> 12 \<le> i" "i < HeaderSizeV2"
    and v: "v \<noteq> putHeaderV2 (of_nat (length p)) pos prevLen storeID (crc_update 0 p) ! i"
  shows "Decode ((putHeaderV2 (of_nat (length p)) pos prevLen storeID (crc_update 0 p))[i := v]
           @ p @ rest) = Inl ErrCRCMismatch"
proof -
  let ?h = "putHeaderV2 (of_nat (length p)) pos prevLen storeID (crc_update 0 p)"
  let ?b = "headerV2Body (of_nat (length p)) pos prevLen storeID"
  let ?c = "crc_update (crc_update 0 p) ?b"
  have h: "?h = ?b @ put_le32 ?c" by (simp add: putHeaderV2_def Let_def)
  have crc: "frameCRC CurrentVersion (?h[i := v]) p \<noteq> header_crc CurrentVersion (?h[i := v])"
  proof (cases "i < 32")
    case True
    then have u: "?h[i := v] = ?b[i := v] @ put_le32 ?c" by (simp add: h list_update_append1)
    have "v \<noteq> ?b ! i" using v True by (simp add: h nth_append)
    then have "crc_update (crc_update 0 p) (?b[i := v]) \<noteq> ?c"
      using crc_update_list_update [of i ?b] True by auto
    then show ?thesis by (simp add: u frameCRC_def header_crc_def)
  next
    case False
    define j where "j = i - 32"
    have j: "j < 4" "i = 32 + j" using False i(2) by (auto simp: j_def HeaderSizeV2_def)
    then have u: "?h[i := v] = ?b @ (put_le32 ?c)[j := v]" by (simp add: h list_update_append)
    have "v \<noteq> put_le32 ?c ! j" using v j by (simp add: h nth_append)
    then have "(put_le32 ?c)[j := v] \<noteq> put_le32 ?c"
      using j(1) by (metis length_put(2) nth_list_update_eq)
    then have "get_le32 ((put_le32 ?c)[j := v]) \<noteq> ?c"
      using put_le32_inj [of "(put_le32 ?c)[j := v]" ?c] by auto
    then show ?thesis by (simp add: u frameCRC_def header_crc_def)
  qed
  have i6: "6 \<le> i" using i(1) by auto
  show ?thesis
  proof (rule Decode_crc_mismatch [where version = CurrentVersion])
    show "take 4 (?h[i := v]) = Magic"
      using i6 by (simp add: headerV2_fields)
    show "get_le16 (drop 4 (?h[i := v])) = CurrentVersion"
      using i6 by (simp add: get_le16_list_update headerV2_fields)
    show "header_plen CurrentVersion (?h[i := v]) = length p"
      using len by (simp add: header_plen_list_update [OF i(1)] headerV2_fields unat_length_frame)
  qed (use len crc in \<open>simp_all add: HeaderSizeV2_def\<close>)
qed

lemma Decode_V2_corrupt_payload:
  assumes len: "length p \<le> maxFrameSize" and i: "i < length p" and v: "v \<noteq> p ! i"
  shows "Decode (putHeaderV2 (of_nat (length p)) pos prevLen storeID (crc_update 0 p)
           @ p[i := v] @ rest) = Inl ErrCRCMismatch"
proof (rule Decode_crc_mismatch [where version = CurrentVersion])
  let ?h = "putHeaderV2 (of_nat (length p)) pos prevLen storeID (crc_update 0 p)"
  have "crc_update 0 (p[i := v]) \<noteq> crc_update 0 p"
    using crc_update_list_update [of i p 0 v] i v by auto
  then show "frameCRC CurrentVersion ?h (p[i := v]) \<noteq> header_crc CurrentVersion ?h"
    by (auto simp: frameCRC_def headerV2_fields take_headerV2_body dest: crc_update_state_eqD)
qed (use len in \<open>simp_all add: headerV2_fields HeaderSizeV2_def unat_length_frame\<close>)

subsection \<open>Properties\<close>

text \<open>What a frame reads back as: a legacy frame carries no position, link or store id.\<close>

definition stored_frame :: "Frame \<Rightarrow> Frame" where
  "stored_frame f =
     (if FVersion f = CurrentVersion then f
      else \<lparr>Payload = Payload f, Pos = 0, StoreID = 0, PrevLen = 0, FVersion = LegacyVersion\<rparr>)"

lemma Decode_Encode:
  assumes "Encode f = Inr bs"
  shows "Decode (bs @ rest) = Inr (stored_frame f, rest)"
proof -
  have len: "length (Payload f) \<le> maxFrameSize"
    using assms by (auto simp: Encode_def split: if_splits)
  from assms consider
      "bs = encodeLegacy (Payload f)" "FVersion f \<noteq> CurrentVersion"
    | "bs = encodeV2 (Payload f) (Pos f) (PrevLen f) (StoreID f)" "FVersion f = CurrentVersion"
    by (auto simp: Encode_def CurrentVersion_def LegacyVersion_def split: if_splits)
  then show ?thesis
    by cases (simp_all add: Decode_encodeLegacy [OF len] Decode_encodeV2 [OF len] stored_frame_def)
qed

text \<open>
  Property C13. Every frame \<open>Encode\<close> accepts is read back by \<open>Decode\<close> exactly, whatever bytes
  follow it, and those bytes are left unread: with its position, link and store id for a
  \<open>CurrentVersion\<close> frame, with its payload alone for a legacy one.
\<close>

theorem wal_decode_encode:
  assumes "Encode f = Inr bs"
  shows "Decode (bs @ rest) = Inr (stored_frame f, rest)"
  using assms by (rule Decode_Encode)

theorem wal_decode_encode_witness:
  "Decode (encodeV2 [1, 2, 3] 7 5 9 @ [0xAA]) =
     Inr (\<lparr>Payload = [1, 2, 3], Pos = 7, StoreID = 9, PrevLen = 5, FVersion = CurrentVersion\<rparr>, [0xAA])"
  using wal_decode_encode [of "\<lparr>Payload = [1, 2, 3], Pos = 7, StoreID = 9, PrevLen = 5, FVersion = CurrentVersion\<rparr>"
      "encodeV2 [1, 2, 3] 7 5 9" "[0xAA]"]
  by (simp add: Encode_def stored_frame_def maxFrameSize_def CurrentVersion_def LegacyVersion_def)

text \<open>
  Property C14. One corrupted byte of a stored \<open>CurrentVersion\<close> frame, anywhere in its flags,
  position, link, store id, CRC or payload, is refused with \<open>ErrCRCMismatch\<close>; in its magic with
  \<open>ErrBadMagic\<close>. (The remaining bytes are the version and the length, which decide how many
  bytes are read at all.)
\<close>

theorem wal_corrupt_byte_refused:
  assumes "length p \<le> maxFrameSize" and "i < HeaderSizeV2 + length p"
    and "v \<noteq> encodeV2 p pos prevLen storeID ! i"
    and "i < 4 \<or> 6 \<le> i \<and> i < 8 \<or> 12 \<le> i"
  shows "Decode ((encodeV2 p pos prevLen storeID)[i := v] @ rest) =
     Inl (if i < 4 then ErrBadMagic else ErrCRCMismatch)"
proof -
  let ?h = "putHeaderV2 (of_nat (length p)) pos prevLen storeID (crc_update 0 p)"
  consider (magic) "i < 4" | (header) "6 \<le> i \<and> i < 8 \<or> 12 \<le> i" "i < HeaderSizeV2"
    | (payload) j where "i = HeaderSizeV2 + j" "j < length p"
  proof (cases "i < HeaderSizeV2")
    case True
    then show ?thesis using assms(4) magic header by blast
  next
    case False
    then show ?thesis
      using assms(2) payload [of "i - HeaderSizeV2"] by simp
  qed
  then show ?thesis
  proof cases
    case magic
    have "take 4 (encodeV2 p pos prevLen storeID) = Magic"
      by (simp add: encodeV2_def headerV2_fields HeaderSizeV2_def)
    then have enc: "encodeV2 p pos prevLen storeID = Magic @ drop 4 (encodeV2 p pos prevLen storeID)"
      by (metis append_take_drop_id)
    obtain t where t: "drop 4 (encodeV2 p pos prevLen storeID) = t" "32 \<le> length t"
      by (simp add: HeaderSizeV2_def)
    have u: "(encodeV2 p pos prevLen storeID)[i := v] = Magic[i := v] @ t"
      using magic by (subst enc) (simp add: t(1) list_update_append1)
    have "v \<noteq> Magic ! i" using assms(3) magic by (subst (asm) enc) (simp add: nth_append)
    then have "Magic[i := v] \<noteq> Magic"
      using magic by (metis length_Magic nth_list_update_eq)
    then show ?thesis
      using magic t(2) unfolding u by (simp add: Decode_def read_full_def HeaderSize_def)
  next
    case header
    then have "v \<noteq> ?h ! i" using assms(3) by (simp add: encodeV2_def nth_append)
    from Decode_V2_corrupt_header [OF assms(1) header this] header show ?thesis
      by (auto simp: encodeV2_def list_update_append1)
  next
    case (payload j)
    then have "v \<noteq> p ! j" using assms(3) by (simp add: encodeV2_def nth_append)
    from Decode_V2_corrupt_payload [OF assms(1) payload(2) this] payload(1) show ?thesis
      by (simp add: encodeV2_def list_update_append HeaderSizeV2_def)
  qed
qed

theorem wal_corrupt_byte_refused_witness:
  "Decode ((encodeV2 [1, 2, 3] 7 5 9)[37 := 0xFF] @ []) = Inl ErrCRCMismatch"
  using wal_corrupt_byte_refused [of "[1, 2, 3]" 37 "0xFF" 7 5 9 "[]"]
  by (simp add: maxFrameSize_def HeaderSizeV2_def encodeV2_def nth_append)

text \<open>
  Property C10. A length field that over-declares past the end of the log and so swallows a
  later complete frame is never taken for a benign torn tail: wherever the swallowed frame
  starts, \<open>Decode\<close> fails with \<open>ErrTornFrameMasksData\<close>.
\<close>

theorem wal_swallowed_frame_fails_stop:
  assumes "length head = headerSizeFor version" and "headerSizeFor version \<noteq> 0"
    and "take 4 head = Magic" and "get_le16 (drop 4 head) = version"
    and "header_plen version head \<le> maxFrameSize"
    and "length (pre @ bs @ post) < header_plen version head"
    and "Encode f = Inr bs"
  shows "Decode (head @ pre @ bs @ post) = Inl ErrTornFrameMasksData"
proof -
  have "embedsValidFrame (pre @ bs @ post)"
    using assms(7) by (rule embedsValidFrame_encoded)
  then show ?thesis
    unfolding Decode_header [OF assms(1-4)]
    using assms(5,6) by (auto simp: decode_body_def readFramePayload_def read_full_def)
qed

theorem wal_swallowed_frame_fails_stop_witness:
  "Decode (putHeaderV2 1000 0 0 9 0 @ [1] @ encodeV2 [4, 5] 0 0 9 @ []) = Inl ErrTornFrameMasksData"
  by (rule wal_swallowed_frame_fails_stop
      [where version = CurrentVersion
        and f = "\<lparr>Payload = [4, 5], Pos = 0, StoreID = 9, PrevLen = 0, FVersion = CurrentVersion\<rparr>"])
    (simp_all add: headerV2_fields HeaderSizeV2_def maxFrameSize_def Encode_def CurrentVersion_def
      LegacyVersion_def headerSizeFor_def,
     simp_all add: header_plen_def putHeaderV2_def headerV2Body_def Let_def LegacyVersion_def)

end
