(* ===== verification/Wal_Reader.thy ===== *)
theory Wal_Reader
  imports Wal_Format
begin

text \<open>
  The single-file frame reader of \<open>store/wal/reader.go\<close>: \<open>Frames\<close> drives a consumer
  over the decoded frames and records where and why it stopped, \<open>Replay\<close> applies a
  fallible function to each frame. The lemmas show that a log cut anywhere in its last
  frame still yields every complete frame, and that cutting the file at the reported
  tail offset leaves a log that reads cleanly.
\<close>

subsection \<open>What a successful \<open>Decode\<close> consumes\<close>

lemma Decode_consumes:
  assumes "Decode r = Inr (f, r')"
  obtains pre where "r = pre @ r'" "length pre = FrameSize f" "pre \<noteq> []"
    "\<And>x. Decode (pre @ x) = Inr (f, x)"
proof -
  obtain h1 r1 where s1: "read_full HeaderSize r = Inr (h1, r1)"
    using assms by (cases "read_full HeaderSize r") (auto simp: Decode_def)
  define version where "version = get_le16 (drop 4 h1)"
  from assms s1 have magic: "take 4 h1 = Magic" and known: "headerSizeFor version \<noteq> 0"
    by (auto simp: Decode_def version_def Let_def split: if_splits)
  obtain h2 r2 where s2: "read_full (headerSizeFor version - HeaderSize) r1 = Inr (h2, r2)"
    using assms s1 magic known
    by (cases "read_full (headerSizeFor version - HeaderSize) r1")
      (auto simp: Decode_def version_def Let_def)
  from s1 s2 have r: "r = (h1 @ h2) @ r2" and l1: "length h1 = HeaderSize"
    and l2: "length h2 = headerSizeFor version - HeaderSize"
    by (auto simp: read_full_Inr_iff)
  have len: "length (h1 @ h2) = headerSizeFor version"
    using l1 l2 headerSizeFor_ge [OF known] by simp
  have fields: "take 4 (h1 @ h2) = Magic" "get_le16 (drop 4 (h1 @ h2)) = version"
    using magic l1 by (simp_all add: HeaderSize_def version_def get_le16_def)
  have body: "Decode ((h1 @ h2) @ x) = decode_body version (h1 @ h2) x" for x
    using len known fields by (rule Decode_header)
  from assms have db: "decode_body version (h1 @ h2) r2 = Inr (f, r')"
    by (simp only: r body)
  then obtain p where p: "readFramePayload r2 (header_plen version (h1 @ h2)) = Inr (p, r')"
    and f: "Payload f = p" "FVersion f = version"
    by (auto simp: decode_body_def split: if_splits sum.splits prod.splits)
  then have r2: "r2 = p @ r'" and lp: "length p = header_plen version (h1 @ h2)"
    by (auto simp: readFramePayload_def read_full_Inr_iff split: if_splits)
  show thesis
  proof (rule that [of "(h1 @ h2) @ p"])
    show "r = ((h1 @ h2) @ p) @ r'" by (simp add: r r2)
    show "length ((h1 @ h2) @ p) = FrameSize f"
      using len known headerSizeFor_cases [OF known] by (auto simp: FrameSize_def f)
    show "(h1 @ h2) @ p \<noteq> []" using l1 by (auto simp: HeaderSize_def)
    fix x
    have "readFramePayload (p @ x) (header_plen version (h1 @ h2)) = Inr (p, x)"
      by (auto simp: readFramePayload_def lp [symmetric])
    moreover have "Decode (((h1 @ h2) @ p) @ x) = decode_body version (h1 @ h2) (p @ x)"
      by (simp only: append_assoc [of "h1 @ h2" p x] body)
    ultimately show "Decode (((h1 @ h2) @ p) @ x) = Inr (f, x)"
      using db p by (auto simp: decode_body_def split: if_splits)
  qed
qed

lemma Decode_shorter: "Decode r = Inr (f, r') \<Longrightarrow> length r' < length r"
  by (elim Decode_consumes) (auto simp: FrameSize_def HeaderSize_def HeaderSizeV2_def)

subsection \<open>Definitions\<close>

text \<open>
  \<open>reader_run yield s off r\<close> is the loop of \<open>Reader.Frames\<close> from a reader that has
  consumed \<open>off\<close> bytes: it ends with the consumer's state, the tail offset and the
  tail error (\<open>None\<close> at a clean end or when the consumer stopped).
\<close>

function reader_run ::
  "('s \<Rightarrow> Frame \<Rightarrow> 's \<times> bool) \<Rightarrow> 's \<Rightarrow> nat \<Rightarrow> bytes \<Rightarrow> 's \<times> nat \<times> wal_error option" where
  "reader_run yield s off r =
     (if r = [] then (s, off, None)
      else case Decode r of
        Inl e \<Rightarrow> (s, off, Some e)
      | Inr (f, r') \<Rightarrow>
          (case yield s f of (s', go) \<Rightarrow>
             if go then reader_run yield s' (off + FrameSize f) r'
             else (s', off + FrameSize f, None)))"
  by pat_completeness auto
termination
  by (relation "measure (\<lambda>(yield, s, off, r). length r)") (auto simp: Decode_shorter)

declare reader_run.simps [simp del]

definition collect_frame :: "Frame list \<Rightarrow> Frame \<Rightarrow> Frame list \<times> bool" where
  "collect_frame fs f = (fs @ [f], True)"

definition Frames :: "bytes \<Rightarrow> Frame list \<times> nat \<times> wal_error option" where
  "Frames r = reader_run collect_frame [] 0 r"

text \<open>\<open>Replay\<close>: the first apply error, then any tail error but a benign torn frame.\<close>

definition replay_yield ::
  "(Frame \<Rightarrow> 's \<Rightarrow> ('e, 's) result) \<Rightarrow> 's \<times> 'e option \<Rightarrow> Frame \<Rightarrow> ('s \<times> 'e option) \<times> bool" where
  "replay_yield app st f =
     (case app f (fst st) of Inl e \<Rightarrow> ((fst st, Some e), False) | Inr s' \<Rightarrow> ((s', None), True))"

definition Replay ::
  "(Frame \<Rightarrow> 's \<Rightarrow> ('e, 's) result) \<Rightarrow> 's \<Rightarrow> bytes \<Rightarrow> 's \<times> ('e + wal_error) option" where
  "Replay app s r =
     (case reader_run (replay_yield app) (s, None) 0 r of
        ((s', Some e), _, _) \<Rightarrow> (s', Some (Inl e))
      | ((s', None), _, Some t) \<Rightarrow> (s', if t \<noteq> ErrTornFrame then Some (Inr t) else None)
      | ((s', None), _, None) \<Rightarrow> (s', None))"

subsection \<open>Reading past complete frames\<close>

lemma reader_run_step:
  assumes "Decode (pre @ r) = Inr (f, r)" and "pre \<noteq> []"
  shows "reader_run yield s off (pre @ r) =
     (case yield s f of (s', go) \<Rightarrow>
        if go then reader_run yield s' (off + FrameSize f) r
        else (s', off + FrameSize f, None))"
  using assms by (subst reader_run.simps) simp

text \<open>A log is the frames' encodings one after the other; \<open>stored_frame\<close> is what each reads back as.\<close>

fun encode_log :: "Frame list \<Rightarrow> (wal_error, bytes) result" where
  "encode_log [] = Inr []"
| "encode_log (f # fs) =
     result_bind (Encode f) (\<lambda>bs. result_bind (encode_log fs) (\<lambda>rest. Inr (bs @ rest)))"

definition log_size :: "Frame list \<Rightarrow> nat" where
  "log_size fs = sum_list (map FrameSize fs)"

lemma FrameSize_stored [simp]: "FrameSize (stored_frame f) = FrameSize f"
  by (simp add: FrameSize_def stored_frame_def)

lemma reader_run_log:
  assumes "encode_log fs = Inr bs"
  shows "reader_run collect_frame acc off (bs @ r) =
     reader_run collect_frame (acc @ map stored_frame fs) (off + log_size fs) r"
  using assms
proof (induction fs arbitrary: bs acc off)
  case Nil
  then show ?case by (simp add: log_size_def)
next
  case (Cons f fs)
  then obtain b bs' where b: "Encode f = Inr b" and bs': "encode_log fs = Inr bs'"
    and bs: "bs = b @ bs'"
    by (auto simp: result_bind_eq_Inr_iff)
  have "reader_run collect_frame acc off (b @ (bs' @ r)) =
      reader_run collect_frame (acc @ [stored_frame f]) (off + FrameSize f) (bs' @ r)"
    by (simp add: reader_run_step [OF Decode_Encode [OF b] Encode_nonempty [OF b]] collect_frame_def)
  with Cons.IH [OF bs'] show ?case
    by (simp add: bs log_size_def add.assoc)
qed

text \<open>The general consumer: what a run yields is determined by the frames collected.\<close>

lemma reader_run_tail_stable:
  assumes "reader_run collect_frame acc off r = (fs, end, err)"
  shows "off \<le> end \<and> end - off \<le> length r \<and>
    reader_run collect_frame acc off (take (end - off) r) = (fs, end, None)"
  using assms
proof (induction "length r" arbitrary: acc off r rule: less_induct)
  case less
  show ?case
  proof (cases "r = []")
    case True
    with less.prems show ?thesis by (auto simp: reader_run.simps [of _ _ _ "[]"])
  next
    case False
    note nonempty = this
    show ?thesis
    proof (cases "Decode r")
      case (Inl e)
      with less.prems nonempty have "fs = acc" "end = off"
        by (auto simp: reader_run.simps [of _ _ _ r])
      then show ?thesis by (simp add: reader_run.simps [of _ _ _ "[]"])
    next
      case (Inr p)
      then obtain f r' where d: "Decode r = Inr (f, r')" by (cases p) auto
      then obtain pre where pre: "r = pre @ r'" "length pre = FrameSize f" "pre \<noteq> []"
        "\<And>x. Decode (pre @ x) = Inr (f, x)" by (rule Decode_consumes) (rule that)
      from less.prems have "reader_run collect_frame (acc @ [f]) (off + FrameSize f) r' = (fs, end, err)"
        using nonempty d by (simp add: reader_run.simps [of _ _ _ r] collect_frame_def)
      from less.hyps [OF _ this] d have IH: "off + FrameSize f \<le> end"
        "end - (off + FrameSize f) \<le> length r'"
        "reader_run collect_frame (acc @ [f]) (off + FrameSize f) (take (end - (off + FrameSize f)) r')
           = (fs, end, None)"
        by (auto simp: Decode_shorter)
      have "take (end - off) r = pre @ take (end - (off + FrameSize f)) r'"
        using IH(1) by (simp add: pre(1,2))
      then have "reader_run collect_frame acc off (take (end - off) r) = (fs, end, None)"
        using IH(3) by (simp add: reader_run_step [OF pre(4) pre(3)] collect_frame_def)
      with IH(1,2) show ?thesis by (simp add: pre(1,2))
    qed
  qed
qed

lemma reader_run_stop:
  assumes "r \<noteq> []" and "Decode r = Inl e"
  shows "reader_run yield s off r = (s, off, Some e)"
  using assms by (subst reader_run.simps) simp

lemma reader_run_Nil [simp]: "reader_run yield s off [] = (s, off, None)"
  by (subst reader_run.simps) simp

text \<open>\<open>Replay\<close> over a log folds the apply function over the stored frames.\<close>

fun apply_frames :: "(Frame \<Rightarrow> 's \<Rightarrow> ('e, 's) result) \<Rightarrow> 's \<Rightarrow> Frame list \<Rightarrow> 's \<times> 'e option" where
  "apply_frames app s [] = (s, None)"
| "apply_frames app s (f # fs) =
     (case app f s of Inl e \<Rightarrow> (s, Some e) | Inr s' \<Rightarrow> apply_frames app s' fs)"

lemma replay_yield_simps:
  "app f s = Inl e \<Longrightarrow> replay_yield app (s, x) f = ((s, Some e), False)"
  "app f s = Inr s' \<Longrightarrow> replay_yield app (s, x) f = ((s', None), True)"
  by (simp_all add: replay_yield_def)

lemma reader_run_replay_ok:
  assumes "encode_log fs = Inr bs" and "apply_frames app s (map stored_frame fs) = (s', None)"
  shows "reader_run (replay_yield app) (s, None) off (bs @ r) =
    reader_run (replay_yield app) (s', None) (off + log_size fs) r"
  using assms
proof (induction fs arbitrary: bs s off)
  case Nil
  then show ?case by (simp add: log_size_def)
next
  case (Cons f fs)
  then obtain b bs' where b: "Encode f = Inr b" and bs': "encode_log fs = Inr bs'"
    and bs: "bs = b @ bs'"
    by (auto simp: result_bind_eq_Inr_iff)
  from Cons.prems(2) obtain t where "app (stored_frame f) s = Inr t"
    "apply_frames app t (map stored_frame fs) = (s', None)"
    by (auto split: sum.splits)
  with Cons.IH [OF bs'] show ?case
    by (simp add: bs reader_run_step [OF Decode_Encode [OF b] Encode_nonempty [OF b]]
        replay_yield_simps log_size_def add.assoc)
qed

lemma reader_run_replay_err:
  assumes "encode_log fs = Inr bs" and "apply_frames app s (map stored_frame fs) = (s', Some e)"
  shows "\<exists>t. reader_run (replay_yield app) (s, None) off (bs @ r) = ((s', Some e), t, None)"
  using assms
proof (induction fs arbitrary: bs s off)
  case Nil
  then show ?case by simp
next
  case (Cons f fs)
  then obtain b bs' where b: "Encode f = Inr b" and bs': "encode_log fs = Inr bs'"
    and bs: "bs = b @ bs'"
    by (auto simp: result_bind_eq_Inr_iff)
  note step = reader_run_step [OF Decode_Encode [OF b] Encode_nonempty [OF b]]
  show ?case
  proof (cases "app (stored_frame f) s")
    case (Inl e')
    with Cons.prems(2) show ?thesis by (simp add: bs step replay_yield_simps)
  next
    case (Inr t)
    with Cons.prems(2) Cons.IH [OF bs', of t] show ?thesis
      by (simp add: bs step replay_yield_simps)
  qed
qed

lemma encode_log_length: "encode_log fs = Inr bs \<Longrightarrow> length bs = log_size fs"
  by (induction fs arbitrary: bs)
    (auto simp: log_size_def result_bind_eq_Inr_iff dest!: Encode_length)

subsection \<open>Properties\<close>

text \<open>
  Crash safety of the log: when the last append \<open>g\<close> is cut after \<open>n\<close> of its
  bytes, reading the file yields exactly the complete frames before it, the tail offset is the
  end of the last complete frame, and the tail error is the benign \<open>ErrTornFrame\<close> unless the
  cut payload itself holds a complete frame, in which case the reader fails stop.
\<close>

theorem wal_crash_keeps_complete_frames:
  assumes "encode_log fs = Inr bs" and "Encode g = Inr b" and "0 < n" and "n < length b"
  shows "Frames (bs @ take n b) =
    (map stored_frame fs, length bs,
     Some (if embedsValidFrame (take (n - (FrameSize g - length (Payload g))) (Payload g))
           then ErrTornFrameMasksData else ErrTornFrame))"
proof -
  have "take n b \<noteq> []" using assms(3,4) by auto
  from reader_run_stop [OF this Decode_truncated [OF assms(2,4)],
      of collect_frame "map stored_frame fs" "log_size fs"]
  show ?thesis
    unfolding Frames_def reader_run_log [OF assms(1)] encode_log_length [OF assms(1)] by simp
qed

theorem wal_crash_keeps_complete_frames_witness:
  "Frames (encodeV2 [1] 0 0 9 @ take 36 (encodeV2 [2] 37 37 9)) =
    ([\<lparr>Payload = [1], Pos = 0, StoreID = 9, PrevLen = 0, FVersion = CurrentVersion\<rparr>], 37,
     Some ErrTornFrame)"
  using wal_crash_keeps_complete_frames
    [of "[\<lparr>Payload = [1], Pos = 0, StoreID = 9, PrevLen = 0, FVersion = CurrentVersion\<rparr>]"
      "encodeV2 [1] 0 0 9"
      "\<lparr>Payload = [2], Pos = 37, StoreID = 9, PrevLen = 37, FVersion = CurrentVersion\<rparr>"
      "encodeV2 [2] 37 37 9" 36]
  by (simp add: Encode_def maxFrameSize_def CurrentVersion_def LegacyVersion_def HeaderSizeV2_def
      stored_frame_def FrameSize_def embedsValidFrame_def)

text \<open>
  Replaying a log applies every frame's stored form in order and stops at the
  first error of the applied function, which it returns; a torn tail behind the log is
  accepted and any other tail error is returned.
\<close>

theorem wal_replay_applies_log:
  assumes "encode_log fs = Inr bs" and "apply_frames app s (map stored_frame fs) = (s', e)"
    and "r = [] \<or> Decode r = Inl t"
  shows "Replay app s (bs @ r) =
    (s', case e of Some x \<Rightarrow> Some (Inl x)
         | None \<Rightarrow> if r = [] \<or> t = ErrTornFrame then None else Some (Inr t))"
proof (cases e)
  case None
  then have "reader_run (replay_yield app) (s, None) 0 (bs @ r) =
      reader_run (replay_yield app) (s', None) (log_size fs) r"
    using reader_run_replay_ok [OF assms(1), of app s s' 0 r] assms(2) by simp
  with None assms(3) show ?thesis
    by (cases "r = []") (simp_all add: Replay_def reader_run_stop)
next
  case (Some x)
  then obtain k where "reader_run (replay_yield app) (s, None) 0 (bs @ r) = ((s', Some x), k, None)"
    using reader_run_replay_err [OF assms(1), of app s s' x 0 r] assms(2) by auto
  with Some show ?thesis by (simp add: Replay_def)
qed

theorem wal_replay_applies_log_witness:
  "Replay (\<lambda>f n. if Payload f = [] then Inl ''empty'' else Inr (n + length (Payload f))) 0
     (encodeV2 [1, 2] 0 0 9 @ [0x47]) = (2 :: nat, None)"
  using wal_replay_applies_log
    [of "[\<lparr>Payload = [1, 2], Pos = 0, StoreID = 9, PrevLen = 0, FVersion = CurrentVersion\<rparr>]"
      "encodeV2 [1, 2] 0 0 9"
      "\<lambda>f n. if Payload f = [] then Inl ''empty'' else Inr (n + length (Payload f))" 0 2 None
      "[0x47]" ErrTornFrame]
  by (simp add: Encode_def maxFrameSize_def CurrentVersion_def LegacyVersion_def stored_frame_def
      Decode_short_header HeaderSize_def)

text \<open>
  Truncating any file at the tail offset the reader reports is safe: the offset lies
  within the file, and the truncated file reads as the same frames with a clean end.
\<close>

theorem wal_truncate_at_tail_clean:
  assumes "Frames r = (fs, tail, err)"
  shows "tail \<le> length r \<and> Frames (take tail r) = (fs, tail, None)"
  using reader_run_tail_stable [of "[]" 0 r fs tail err] assms by (simp add: Frames_def)

theorem wal_truncate_at_tail_clean_witness:
  "Frames (take 0 [0x47, 0x47]) = ([], 0, None)"
  using wal_truncate_at_tail_clean [of "[0x47, 0x47]" "[]" 0 "Some ErrTornFrame"]
  by (simp add: Frames_def reader_run_stop Decode_short_header HeaderSize_def)

end
