(* ===== verification/Varint.thy ===== *)
theory Varint
  imports Prelude
begin

text \<open>
  The variable-length integers of Go's \<open>encoding/binary\<close> (\<open>AppendUvarint\<close>, \<open>Uvarint\<close>,
  \<open>AppendVarint\<close>, \<open>Varint\<close>), which the log's control records and the identifier codecs use. The
  accumulator is a natural number: the groups it combines occupy disjoint bits and at most 64 of
  them, so adding a group is the \<open>|=\<close> of the source.
\<close>

function uvarint_bytes :: "nat \<Rightarrow> bytes" where
  "uvarint_bytes x =
     (if x \<ge> 128 then of_nat (x mod 128 + 128) # uvarint_bytes (x div 128) else [of_nat x])"
  by pat_completeness auto
termination by (relation "measure id") auto

declare uvarint_bytes.simps [simp del]

definition AppendUvarint :: "bytes \<Rightarrow> u64 \<Rightarrow> bytes" where
  "AppendUvarint buf v = buf @ uvarint_bytes (unat v)"

text \<open>The loop of \<open>Uvarint\<close>: byte index \<open>i\<close>, accumulator \<open>x\<close>; the result length is 0 on a short
  buffer and negative on overflow.\<close>

fun uvarint_loop :: "nat \<Rightarrow> nat \<Rightarrow> bytes \<Rightarrow> nat \<times> int" where
  "uvarint_loop i x [] = (0, 0)"
| "uvarint_loop i x (b # bs) =
     (if i = 10 then (0, - (int i + 1))
      else if unat b < 128
        then if i = 9 \<and> unat b > 1 then (0, - (int i + 1)) else (x + unat b * 128 ^ i, int i + 1)
      else uvarint_loop (i + 1) (x + (unat b mod 128) * 128 ^ i) bs)"

definition Uvarint :: "bytes \<Rightarrow> u64 \<times> int" where
  "Uvarint buf = (case uvarint_loop 0 0 buf of (x, n) \<Rightarrow> (of_nat x, n))"

text \<open>Signed values are folded onto the unsigned ones, the sign in the lowest bit.\<close>

definition zigzag :: "u64 \<Rightarrow> u64" where
  "zigzag v = (let ux = push_bit 1 v in if sint v < 0 then NOT ux else ux)"

definition unzigzag :: "u64 \<Rightarrow> u64" where
  "unzigzag u = (let x = drop_bit 1 u in if u AND 1 \<noteq> 0 then NOT x else x)"

definition AppendVarint :: "bytes \<Rightarrow> u64 \<Rightarrow> bytes" where
  "AppendVarint buf v = AppendUvarint buf (zigzag v)"

definition Varint :: "bytes \<Rightarrow> u64 \<times> int" where
  "Varint buf = (case Uvarint buf of (u, n) \<Rightarrow> (unzigzag u, n))"

subsection \<open>Round trips\<close>

lemma uvarint_bytes_nonempty [simp]: "uvarint_bytes x \<noteq> []"
  by (subst uvarint_bytes.simps) simp

lemma uvarint_loop_bytes:
  "v < 2 ^ (64 - 7 * i) \<Longrightarrow> i \<le> 9 \<Longrightarrow>
     uvarint_loop i x (uvarint_bytes v @ rest) = (x + v * 128 ^ i, int i + int (length (uvarint_bytes v)))"
proof (induction v arbitrary: i x rule: uvarint_bytes.induct)
  case (1 v)
  show ?case
  proof (cases "v \<ge> 128")
    case False
    moreover have "i = 9 \<longrightarrow> v \<le> 1" using 1(2) by auto
    ultimately show ?thesis
      using 1(3) by (auto simp: uvarint_bytes.simps [of v] unat_of_nat)
  next
    case True
    have "i \<noteq> 9" using 1(2) True by auto
    with 1(3) have i: "i + 1 \<le> 9" by simp
    define k where "k = 64 - 7 * (i + 1)"
    have e: "64 - 7 * i = k + 7" using i by (simp add: k_def)
    have "v < 2 ^ k * 128" using 1(2) unfolding e by (simp add: power_add)
    then have "v div 128 < 2 ^ (64 - 7 * (i + 1))"
      unfolding k_def [symmetric] by (simp add: less_mult_imp_div_less)
    note IH = 1(1) [OF True this i]
    have b: "unat (of_nat (v mod 128 + 128) :: byte) = v mod 128 + 128"
    proof -
      have "v mod 128 + 128 < 2 ^ 8" using mod_less_divisor [of 128 v] by simp
      then show ?thesis unfolding unat_of_nat by simp
    qed
    have "uvarint_loop i x (uvarint_bytes v @ rest) =
        uvarint_loop (i + 1) (x + v mod 128 * 128 ^ i) (uvarint_bytes (v div 128) @ rest)"
      using True 1(3) by (subst uvarint_bytes.simps) (simp add: b del: of_nat_add)
    also have "\<dots> = (x + v mod 128 * 128 ^ i + v div 128 * 128 ^ (i + 1),
        int (i + 1) + int (length (uvarint_bytes (v div 128))))"
      by (rule IH)
    also have "x + v mod 128 * 128 ^ i + v div 128 * 128 ^ (i + 1) = x + v * 128 ^ i"
    proof -
      obtain q r where v: "v div 128 = q" "v mod 128 = r" "v = 128 * q + r"
        by (metis mult_div_mod_eq)
      show ?thesis unfolding v(1,2) by (simp add: v(3) algebra_simps)
    qed
    also have "int (i + 1) + int (length (uvarint_bytes (v div 128))) = int i + int (length (uvarint_bytes v))"
      using True by (subst uvarint_bytes.simps [of v]) simp
    finally show ?thesis .
  qed
qed

lemma Uvarint_append:
  "Uvarint (uvarint_bytes (unat v) @ rest) = (v, int (length (uvarint_bytes (unat v))))"
proof -
  have "unat v < 2 ^ (64 - 7 * 0)" using unat_u64_bound [of v] by simp
  from uvarint_loop_bytes [OF this, of 0 rest] show ?thesis
    by (simp add: Uvarint_def)
qed

text \<open>What a successful read consumed lies within the buffer.\<close>

lemma uvarint_loop_consumed:
  "uvarint_loop i x buf = (y, n) \<Longrightarrow> 0 < n \<Longrightarrow> int i < n \<and> n \<le> int i + int (length buf)"
proof (induction i x buf rule: uvarint_loop.induct)
  case (2 i x b bs)
  then show ?case by (force split: if_splits)
qed simp

lemma Uvarint_consumed: "Uvarint buf = (v, n) \<Longrightarrow> 0 < n \<Longrightarrow> n \<le> int (length buf)"
  using uvarint_loop_consumed [of 0 0 buf] by (auto simp: Uvarint_def split: prod.splits)

lemma unzigzag_zigzag [simp]: "unzigzag (zigzag v) = v"
proof -
  have sign: "sint v < 0 \<longleftrightarrow> bit v 63"
    by (simp add: sint_uint signed_take_bit_negative_iff bit_uint_iff)
  have low: "u AND 1 \<noteq> 0 \<longleftrightarrow> bit u 0" for u :: u64
    using bit_iff_and_push_bit_not_eq_0 [of u 0] by simp
  have top: "n = 63 \<or> Suc n < 64 \<or> 64 \<le> n" for n :: nat by auto
  show ?thesis
  proof (cases "bit v 63")
    case True
    then have z: "zigzag v = NOT (push_bit 1 v)" by (simp add: zigzag_def sign)
    have "bit (NOT (drop_bit 1 (NOT (push_bit 1 v)))) n = bit v n" for n
      using top [of n] True unfolding bit_not_iff bit_drop_bit_eq bit_push_bit_iff comp_def
      by (auto dest: bit_imp_le_length)
    moreover have "bit (NOT (push_bit 1 v)) 0"
      unfolding bit_not_iff bit_push_bit_iff by simp
    ultimately show ?thesis unfolding unzigzag_def z low Let_def
      by (auto intro!: bit_word_eqI)
  next
    case False
    then have z: "zigzag v = push_bit 1 v" by (simp add: zigzag_def sign)
    have "bit (drop_bit 1 (push_bit 1 v)) n = bit v n" for n
      using top [of n] False unfolding bit_drop_bit_eq bit_push_bit_iff comp_def
      by (auto dest: bit_imp_le_length)
    moreover have "\<not> bit (push_bit 1 v) 0" unfolding bit_push_bit_iff by simp
    ultimately show ?thesis unfolding unzigzag_def z low Let_def
      by (auto intro!: bit_word_eqI)
  qed
qed

lemma Varint_append:
  "Varint (uvarint_bytes (unat (zigzag v)) @ rest) = (v, int (length (uvarint_bytes (unat (zigzag v)))))"
  by (simp add: Varint_def Uvarint_append)

lemma Varint_consumed: "Varint buf = (v, n) \<Longrightarrow> 0 < n \<Longrightarrow> n \<le> int (length buf)"
  by (auto simp: Varint_def split: prod.splits dest: Uvarint_consumed)

end
