(* ===== verification/Wal_Control.thy ===== *)
theory Wal_Control
  imports Wal_Format Varint
begin

text \<open>
  The control file, segment headers and control records of \<open>store/wal/control.go\<close>: their byte
  layouts, decoders and the checks that refuse damaged ones. Reading and durably publishing the
  file (\<open>readControl\<close>, \<open>writeFileDurably\<close>) and drawing a random store id are not modelled.
\<close>

subsection \<open>The control file\<close>

definition controlSize :: nat where "controlSize = 64"
definition controlVersion :: u16 where "controlVersion = 1"
definition segHeaderSize :: nat where "segHeaderSize = 32"
definition segVersion :: u16 where "segVersion = 2"
definition controlMagic :: bytes where "controlMagic = [0x47, 0x47, 0x43, 0x54]"
definition segmentMagic :: bytes where "segmentMagic = [0x47, 0x47, 0x57, 0x53]"
definition NoFramePos :: u64 where "NoFramePos = NOT 0"
definition ControlPrefixTruncated :: u32 where "ControlPrefixTruncated = 1"
definition ControlLegacyV1Pending :: u32 where "ControlLegacyV1Pending = 2"

record Control =
  ctl_StoreID :: u64
  ctl_OldestRetainedPos :: u64
  ctl_PrevFramePosAtOR :: u64
  ctl_CheckpointRedoPos :: u64
  ctl_CreatedUnixNano :: u64
  ctl_Flags :: u32

definition control_body :: "Control \<Rightarrow> bytes" where
  "control_body c =
     controlMagic @ put_le16 controlVersion @ put_le16 (of_nat controlSize) @ put_le64 (ctl_StoreID c)
       @ put_le32 (ctl_Flags c) @ replicate 4 0 @ put_le64 (ctl_OldestRetainedPos c)
       @ put_le64 (ctl_PrevFramePosAtOR c) @ put_le64 (ctl_CheckpointRedoPos c)
       @ put_le64 (ctl_CreatedUnixNano c)"

definition encodeControl :: "Control \<Rightarrow> bytes" where
  "encodeControl c = control_body c @ put_le32 (crc_checksum (control_body c)) @ replicate 4 0"

definition decodeControl :: "bytes \<Rightarrow> (wal_error, Control) result" where
  "decodeControl b =
     (if length b \<noteq> controlSize \<or> take 4 b \<noteq> controlMagic
         \<or> get_le16 (drop 4 b) \<noteq> controlVersion
         \<or> get_le16 (drop 6 b) \<noteq> of_nat controlSize
         \<or> get_le32 (drop 56 b) \<noteq> crc_checksum (take 56 b)
      then Inl ErrControlCorrupt
      else let c = \<lparr>ctl_StoreID = get_le64 (drop 8 b), ctl_OldestRetainedPos = get_le64 (drop 24 b),
                    ctl_PrevFramePosAtOR = get_le64 (drop 32 b), ctl_CheckpointRedoPos = get_le64 (drop 40 b),
                    ctl_CreatedUnixNano = get_le64 (drop 48 b), ctl_Flags = get_le32 (drop 16 b)\<rparr>
           in if ctl_StoreID c = 0 then Inl ErrControlCorrupt else Inr c)"

subsection \<open>Segment headers\<close>

definition segment_body :: "u64 \<Rightarrow> u64 \<Rightarrow> bytes" where
  "segment_body storeID segNo =
     segmentMagic @ put_le16 segVersion @ put_le16 (of_nat segHeaderSize) @ put_le64 storeID
       @ put_le64 segNo @ replicate 4 0"

definition encodeSegmentHeader :: "u64 \<Rightarrow> u64 \<Rightarrow> bytes" where
  "encodeSegmentHeader storeID segNo =
     segment_body storeID segNo @ put_le32 (crc_checksum (segment_body storeID segNo))"

definition decodeSegmentHeader :: "bytes \<Rightarrow> (wal_error, u64 \<times> u64) result" where
  "decodeSegmentHeader b =
     (if length b \<noteq> segHeaderSize \<or> take 4 b \<noteq> segmentMagic
         \<or> get_le16 (drop 4 b) \<noteq> segVersion
         \<or> get_le16 (drop 6 b) \<noteq> of_nat segHeaderSize
         \<or> get_le32 (drop 28 b) \<noteq> crc_checksum (take 28 b)
      then Inl ErrSegmentHeader
      else Inr (get_le64 (drop 8 b), get_le64 (drop 16 b)))"

subsection \<open>Control records\<close>

definition ControlRecordTag :: byte where "ControlRecordTag = 0xFC"
definition CtlReserveIDs :: byte where "CtlReserveIDs = 1"
definition CtlNextIDsExact :: byte where "CtlNextIDsExact = 2"
definition CtlLegacySeal :: byte where "CtlLegacySeal = 3"
definition ReserveIDsSize :: nat where "ReserveIDsSize = 11"
definition legacySealSize :: nat where "legacySealSize = 18"
definition idShards :: nat where "idShards = 256"

definition AppendReserveIDs :: "bytes \<Rightarrow> byte \<Rightarrow> u64 \<Rightarrow> bytes" where
  "AppendReserveIDs dst shard limit = dst @ [ControlRecordTag, CtlReserveIDs, shard] @ put_le64 limit"

text \<open>The result pairs \<open>ok\<close>, whether the payload is such a record at all, with the decoded value.\<close>

definition DecodeReserveIDs :: "bytes \<Rightarrow> (wal_error, (byte \<times> u64) option) result" where
  "DecodeReserveIDs payload =
     (if length payload < 2 \<or> payload ! 0 \<noteq> ControlRecordTag \<or> payload ! 1 \<noteq> CtlReserveIDs then Inr None
      else if length payload \<noteq> ReserveIDsSize then Inl ErrControlRecordCorrupt
      else Inr (Some (payload ! 2, get_le64 (drop 3 payload))))"

definition AppendNextIDsExact :: "bytes \<Rightarrow> u64 list \<Rightarrow> bytes" where
  "AppendNextIDsExact dst next = fold (\<lambda>v b. AppendUvarint b v) next (dst @ [ControlRecordTag, CtlNextIDsExact])"

fun decode_marks :: "nat \<Rightarrow> bytes \<Rightarrow> (wal_error, u64 list \<times> bytes) result" where
  "decode_marks 0 b = Inr ([], b)"
| "decode_marks (Suc k) b =
     (case Uvarint b of (v, n) \<Rightarrow>
        if n \<le> 0 then Inl ErrControlRecordCorrupt
        else result_bind (decode_marks k (drop (nat n) b)) (\<lambda>(vs, r). Inr (v # vs, r)))"

definition DecodeNextIDsExact :: "bytes \<Rightarrow> (wal_error, u64 list option) result" where
  "DecodeNextIDsExact payload =
     (if length payload < 2 \<or> payload ! 0 \<noteq> ControlRecordTag \<or> payload ! 1 \<noteq> CtlNextIDsExact then Inr None
      else result_bind (decode_marks idShards (drop 2 payload)) (\<lambda>(next, b).
        if b \<noteq> [] then Inl ErrControlRecordCorrupt else Inr (Some next)))"

record LegacySeal =
  seal_StoreID :: u64
  seal_V2StartPos :: u64

definition EncodeLegacySeal :: "LegacySeal \<Rightarrow> bytes" where
  "EncodeLegacySeal s = [ControlRecordTag, CtlLegacySeal] @ put_le64 (seal_StoreID s) @ put_le64 (seal_V2StartPos s)"

definition DecodeLegacySeal :: "bytes \<Rightarrow> LegacySeal option" where
  "DecodeLegacySeal payload =
     (if length payload \<noteq> legacySealSize \<or> payload ! 0 \<noteq> ControlRecordTag \<or> payload ! 1 \<noteq> CtlLegacySeal
      then None
      else Some \<lparr>seal_StoreID = get_le64 (drop 2 payload), seal_V2StartPos = get_le64 (drop 10 payload)\<rparr>)"

definition sealFrameBytes :: "LegacySeal \<Rightarrow> bytes" where
  "sealFrameBytes s = encodeV2 (EncodeLegacySeal s) 0 0 (seal_StoreID s)"

subsection \<open>Segment names\<close>

definition hex_digit :: "nat \<Rightarrow> char" where
  "hex_digit n = ''0123456789abcdef'' ! n"

definition hex_value :: "char \<Rightarrow> nat option" where
  "hex_value c =
     (let n = of_char c :: nat
      in if 48 \<le> n \<and> n \<le> 57 then Some (n - 48)
         else if 97 \<le> n \<and> n \<le> 102 then Some (n - 87)
         else if 65 \<le> n \<and> n \<le> 70 then Some (n - 55)
         else None)"

fun hex_digits :: "nat \<Rightarrow> nat \<Rightarrow> string" where
  "hex_digits 0 x = []"
| "hex_digits (Suc k) x = hex_digits k (x div 16) @ [hex_digit (x mod 16)]"

fun parse_hex :: "nat \<Rightarrow> string \<Rightarrow> nat option" where
  "parse_hex acc [] = Some acc"
| "parse_hex acc (c # cs) = (case hex_value c of None \<Rightarrow> None | Some d \<Rightarrow> parse_hex (16 * acc + d) cs)"

text \<open>\<open>%016x\<close> of a 64-bit number is exactly 16 digits.\<close>

definition segmentName :: "u64 \<Rightarrow> string" where
  "segmentName segNo = hex_digits 16 (unat segNo) @ ''.wal''"

definition parseSegmentName :: "string \<Rightarrow> u64 option" where
  "parseSegmentName name =
     (if length name < 4 \<or> drop (length name - 4) name \<noteq> ''.wal'' then None
      else let base = take (length name - 4) name
           in if length base \<noteq> 16 then None
              else map_option of_nat (parse_hex 0 base))"

subsection \<open>Checksummed blocks\<close>

text \<open>A body followed by its CRC: one changed byte of either makes the stored and the computed CRC differ.\<close>

lemma crc_block_corrupt:
  assumes n: "length body = n" and i: "i < n + 4"
    and v: "v \<noteq> (body @ put_le32 (crc_checksum body) @ tail) ! i"
  defines "b \<equiv> (body @ put_le32 (crc_checksum body) @ tail)[i := v]"
  shows "get_le32 (drop n b) \<noteq> crc_checksum (take n b)"
proof (cases "i < n")
  case True
  then have "b = body[i := v] @ put_le32 (crc_checksum body) @ tail"
    by (simp add: b_def n list_update_append1)
  moreover have "crc_checksum (body[i := v]) \<noteq> crc_checksum body"
    using crc_update_list_update [of i body 0 v] v True n by (auto simp: crc_checksum_def nth_append)
  ultimately show ?thesis using n by simp
next
  case False
  define j where "j = i - n"
  have j: "i = n + j" "j < 4" using False i by (simp_all add: j_def)
  let ?c = "put_le32 (crc_checksum body)"
  have b: "b = body @ ?c[j := v] @ tail"
    using j n by (simp add: b_def list_update_append)
  have "v \<noteq> ?c ! j" using v j n by (simp add: nth_append)
  then have "?c[j := v] \<noteq> ?c" using j(2) by (metis length_put(2) nth_list_update_eq)
  then have "get_le32 (?c[j := v]) \<noteq> crc_checksum body"
    using put_le32_inj [of "?c[j := v]" "crc_checksum body"] by auto
  moreover have "get_le32 (?c[j := v] @ tail) = get_le32 (?c[j := v])"
    by (simp add: get_le32_def)
  ultimately show ?thesis using n by (simp add: b)
qed

lemma control_body_length [simp]: "length (control_body c) = 56"
  by (simp add: control_body_def controlMagic_def)

lemma segment_body_length [simp]: "length (segment_body s n) = 28"
  by (simp add: segment_body_def segmentMagic_def)

lemma put_le64_first: "put_le64 w ! 0 = of_nat (unat w mod 256)"
proof -
  have "le_bytes (Suc 7) x ! 0 = of_nat (x mod 256)" for x by (simp only: le_bytes.simps nth_Cons_0)
  then show ?thesis by (simp add: put_le64_def del: le_bytes.simps)
qed

lemma drop_control_body:
  "take 4 (control_body c) = controlMagic"
  "get_le16 (drop 4 (control_body c @ t)) = controlVersion"
  "get_le16 (drop 6 (control_body c @ t)) = of_nat controlSize"
  "get_le64 (drop 8 (control_body c @ t)) = ctl_StoreID c"
  "get_le32 (drop 16 (control_body c @ t)) = ctl_Flags c"
  "get_le64 (drop 24 (control_body c @ t)) = ctl_OldestRetainedPos c"
  "get_le64 (drop 32 (control_body c @ t)) = ctl_PrevFramePosAtOR c"
  "get_le64 (drop 40 (control_body c @ t)) = ctl_CheckpointRedoPos c"
  "get_le64 (drop 48 (control_body c @ t)) = ctl_CreatedUnixNano c"
  by (simp_all add: control_body_def controlMagic_def)

lemma drop_segment_body:
  "take 4 (segment_body s n) = segmentMagic"
  "get_le16 (drop 4 (segment_body s n @ t)) = segVersion"
  "get_le16 (drop 6 (segment_body s n @ t)) = of_nat segHeaderSize"
  "get_le64 (drop 8 (segment_body s n @ t)) = s"
  "get_le64 (drop 16 (segment_body s n @ t)) = n"
  by (simp_all add: segment_body_def segmentMagic_def)

lemma decode_control_file:
  "decodeControl (encodeControl c) = (if ctl_StoreID c = 0 then Inl ErrControlCorrupt else Inr c)"
proof -
  have "length (encodeControl c) = controlSize" by (simp add: encodeControl_def controlSize_def)
  then show ?thesis
    unfolding decodeControl_def encodeControl_def drop_control_body Let_def
    by (simp add: drop_control_body)
qed

lemma length_segment_header [simp]: "length (encodeSegmentHeader store no) = segHeaderSize"
  by (simp add: encodeSegmentHeader_def segHeaderSize_def)

lemma decode_segment_header: "decodeSegmentHeader (encodeSegmentHeader s n) = Inr (s, n)"
proof -
  have "length (encodeSegmentHeader s n) = segHeaderSize" by simp
  then show ?thesis
    unfolding decodeSegmentHeader_def encodeSegmentHeader_def drop_segment_body
    by (simp add: drop_segment_body)
qed

subsection \<open>Records and names\<close>

lemma fold_AppendUvarint:
  "fold (\<lambda>v b. AppendUvarint b v) vs dst = dst @ concat (map (\<lambda>v. uvarint_bytes (unat v)) vs)"
  by (induction vs arbitrary: dst) (simp_all add: AppendUvarint_def)

lemma decode_marks_encoded:
  "decode_marks (length vs) (concat (map (\<lambda>v. uvarint_bytes (unat v)) vs) @ rest) = Inr (vs, rest)"
  by (induction vs) (simp_all add: Uvarint_append)

lemma hex_value_digit: "d < 16 \<Longrightarrow> hex_value (hex_digit d) = Some d"
proof -
  assume "d < 16"
  then have "d \<in> set [0..<16]" by simp
  moreover have "\<forall>d \<in> set [0..<16]. hex_value (hex_digit d) = Some d"
    by (simp add: hex_value_def hex_digit_def upt_rec)
  ultimately show ?thesis by blast
qed

lemma length_hex_digits [simp]: "length (hex_digits k x) = k"
  by (induction k arbitrary: x) simp_all

lemma parse_hex_append:
  "parse_hex acc (xs @ ys) = (case parse_hex acc xs of None \<Rightarrow> None | Some a \<Rightarrow> parse_hex a ys)"
  by (induction xs arbitrary: acc) (auto split: option.splits)

lemma parse_hex_digits: "parse_hex acc (hex_digits k x) = Some (acc * 16 ^ k + x mod 16 ^ k)"
proof (induction k arbitrary: x)
  case (Suc k)
  have "16 * (acc * 16 ^ k + x div 16 mod 16 ^ k) + x mod 16 = acc * 16 ^ Suc k + x mod 16 ^ Suc k"
    by (simp add: mod_mult2_eq algebra_simps)
  then show ?case by (simp add: Suc.IH parse_hex_append hex_value_digit)
qed simp

lemma parse_segmentName [simp]: "parseSegmentName (segmentName n) = Some n"
  using unat_u64_bound [of n] by (simp add: parseSegmentName_def segmentName_def parse_hex_digits)

lemma segmentName_inject [simp]: "segmentName n = segmentName m \<longleftrightarrow> n = m"
  by (metis option.inject parse_segmentName)

subsection \<open>Properties\<close>

text \<open>
  The control file and the segment headers are read back exactly as written; the only
  control file written and refused is one without a store id.
\<close>

theorem wal_container_round_trip:
  "decodeControl (encodeControl c) = (if ctl_StoreID c = 0 then Inl ErrControlCorrupt else Inr c)
   \<and> decodeSegmentHeader (encodeSegmentHeader s n) = Inr (s, n)"
  by (simp add: decode_control_file decode_segment_header)

text \<open>
  Any one changed byte of a segment header, and any one of the first 60 bytes of the
  control file (all but its zero padding), is refused.
\<close>

theorem wal_container_corruption_refused:
  assumes "v \<noteq> encodeControl c ! i" and "i < 60"
    and "w \<noteq> encodeSegmentHeader s n ! j" and "j < segHeaderSize"
  shows "decodeControl ((encodeControl c)[i := v]) = Inl ErrControlCorrupt
    \<and> decodeSegmentHeader ((encodeSegmentHeader s n)[j := w]) = Inl ErrSegmentHeader"
proof
  have "get_le32 (drop 56 ((encodeControl c)[i := v])) \<noteq> crc_checksum (take 56 ((encodeControl c)[i := v]))"
    using crc_block_corrupt [OF control_body_length, of i v c "replicate 4 0"] assms(1,2)
    by (simp add: encodeControl_def)
  then show "decodeControl ((encodeControl c)[i := v]) = Inl ErrControlCorrupt"
    unfolding decodeControl_def by simp
  have "get_le32 (drop 28 ((encodeSegmentHeader s n)[j := w]))
      \<noteq> crc_checksum (take 28 ((encodeSegmentHeader s n)[j := w]))"
    using crc_block_corrupt [OF segment_body_length, of j w s n "[]"] assms(3,4)
    by (simp add: encodeSegmentHeader_def segHeaderSize_def)
  then show "decodeSegmentHeader ((encodeSegmentHeader s n)[j := w]) = Inl ErrSegmentHeader"
    unfolding decodeSegmentHeader_def by simp
qed

theorem wal_container_corruption_refused_witness:
  "decodeControl ((encodeControl \<lparr>ctl_StoreID = 5, ctl_OldestRetainedPos = 0, ctl_PrevFramePosAtOR = NoFramePos,
       ctl_CheckpointRedoPos = 0, ctl_CreatedUnixNano = 7, ctl_Flags = 0\<rparr>)[8 := 6]) = Inl ErrControlCorrupt
   \<and> decodeSegmentHeader ((encodeSegmentHeader 5 1)[16 := 2]) = Inl ErrSegmentHeader"
proof (rule wal_container_corruption_refused)
  show "6 \<noteq> encodeControl \<lparr>ctl_StoreID = 5, ctl_OldestRetainedPos = 0, ctl_PrevFramePosAtOR = NoFramePos,
       ctl_CheckpointRedoPos = 0, ctl_CreatedUnixNano = 7, ctl_Flags = 0\<rparr> ! 8"
    by (simp add: encodeControl_def control_body_def controlMagic_def nth_append put_le64_first)
  show "2 \<noteq> encodeSegmentHeader 5 1 ! 16"
    by (simp add: encodeSegmentHeader_def segment_body_def segmentMagic_def nth_append put_le64_first)
qed (simp_all add: segHeaderSize_def)

text \<open>
  The control records are read back exactly, each by the decoder of its own kind only:
  the decoders of the other kinds report that the payload is not theirs. The seal frame of the legacy
  log decodes to a frame carrying the seal.
\<close>

theorem wal_control_records:
  assumes "length next = idShards"
  shows "DecodeReserveIDs (AppendReserveIDs [] shard limit) = Inr (Some (shard, limit))
    \<and> DecodeNextIDsExact (AppendReserveIDs [] shard limit) = Inr None
    \<and> DecodeLegacySeal (AppendReserveIDs [] shard limit) = None
    \<and> DecodeNextIDsExact (AppendNextIDsExact [] next) = Inr (Some next)
    \<and> DecodeReserveIDs (AppendNextIDsExact [] next) = Inr None
    \<and> DecodeLegacySeal (AppendNextIDsExact [] next) = None
    \<and> DecodeLegacySeal (EncodeLegacySeal seal) = Some seal
    \<and> DecodeReserveIDs (EncodeLegacySeal seal) = Inr None
    \<and> DecodeNextIDsExact (EncodeLegacySeal seal) = Inr None
    \<and> Decode (sealFrameBytes seal @ rest) =
        Inr (\<lparr>Payload = EncodeLegacySeal seal, Pos = 0, StoreID = seal_StoreID seal, PrevLen = 0,
              FVersion = CurrentVersion\<rparr>, rest)"
proof -
  have marks: "DecodeNextIDsExact (AppendNextIDsExact [] next) = Inr (Some next)"
    using decode_marks_encoded [of "next" "[]"]
    by (simp add: DecodeNextIDsExact_def AppendNextIDsExact_def fold_AppendUvarint assms)
  have "length (EncodeLegacySeal seal) \<le> maxFrameSize"
    by (simp add: EncodeLegacySeal_def maxFrameSize_def)
  then have frame: "Decode (sealFrameBytes seal @ rest) =
      Inr (\<lparr>Payload = EncodeLegacySeal seal, Pos = 0, StoreID = seal_StoreID seal, PrevLen = 0,
            FVersion = CurrentVersion\<rparr>, rest)"
    by (simp add: sealFrameBytes_def Decode_encodeV2)
  show ?thesis
    unfolding marks frame
    by (intro conjI refl)
      (simp_all add: AppendReserveIDs_def DecodeReserveIDs_def DecodeNextIDsExact_def AppendNextIDsExact_def
        EncodeLegacySeal_def DecodeLegacySeal_def fold_AppendUvarint CtlReserveIDs_def CtlNextIDsExact_def
        CtlLegacySeal_def ReserveIDsSize_def legacySealSize_def)
qed

theorem wal_control_records_witness:
  "DecodeNextIDsExact (AppendNextIDsExact [] (replicate 256 300)) = Inr (Some (replicate 256 300))"
proof -
  have "length (replicate 256 (300 :: u64)) = idShards" by (simp add: idShards_def)
  from wal_control_records [OF this] show ?thesis by blast
qed

text \<open>
  A segment's file name is 20 characters and parses back to its number, so distinct
  segments have distinct names; a name of any other length is not a segment.
\<close>

theorem wal_segment_names:
  "length (segmentName n) = 20 \<and> parseSegmentName (segmentName n) = Some n
   \<and> (segmentName n = segmentName m \<longrightarrow> n = m)
   \<and> (length name \<noteq> 20 \<longrightarrow> parseSegmentName name = None)"
proof -
  have "length name \<noteq> 20 \<longrightarrow> parseSegmentName name = None"
    by (auto simp: parseSegmentName_def Let_def)
  then show ?thesis by (simp add: segmentName_def [of n])
    (simp flip: segmentName_def)
qed

theorem wal_segment_names_witness:
  "length ''tmp'' \<noteq> 20 \<and> parseSegmentName ''tmp'' = None \<and> parseSegmentName (segmentName 0xBEEF) = Some 0xBEEF"
  using wal_segment_names [of "0xBEEF" 1 "''tmp''"] by simp

end
