(* ===== verification/Wal_Log.thy ===== *)
theory Wal_Log
  imports Wal_Reader Wal_Control
begin

text \<open>
  The segmented log of \<open>store/wal/log.go\<close>: enumerating and validating the segment files against
  the control file, and streaming their frames under the store id, position and prev-link checks.
  A file is its bytes, so a read fails only by ending; \<open>ErrIO\<close> stands for the filesystem's own
  errors. Positions are Go's \<open>int64\<close>: 64-bit words read with \<open>sint\<close>. Error text, the legacy
  reader's file handle and \<open>Close\<close> are not modelled.
\<close>

subsection \<open>The filesystem and the control file\<close>

datatype fs_error = ErrNotExist | ErrOther

record LogFS =
  fs_Open :: "string \<Rightarrow> (fs_error, bytes) result"
  fs_ReadDir :: "string \<Rightarrow> (fs_error, string list) result"

definition ControlPath :: "string \<Rightarrow> string" where
  "ControlPath walPath = walPath @ ''.control''"

definition SegmentDir :: "string \<Rightarrow> string" where
  "SegmentDir walPath = walPath @ ''.d''"

definition SegmentPath :: "string \<Rightarrow> u64 \<Rightarrow> string" where
  "SegmentPath walPath segNo = SegmentDir walPath @ ''/'' @ segmentName segNo"

definition readControl :: "LogFS \<Rightarrow> string \<Rightarrow> (wal_error, Control option) result" where
  "readControl fsys walPath =
     (case fs_Open fsys (ControlPath walPath) of
        Inl ErrNotExist \<Rightarrow> Inr None
      | Inl ErrOther \<Rightarrow> Inl ErrIO
      | Inr b \<Rightarrow> result_bind (decodeControl b) (\<lambda>c. Inr (Some c)))"

subsection \<open>Enumerating the segments\<close>

record segEntry =
  se_path :: string
  se_no :: u64
  se_firstPos :: u64
  se_firstPrevLen :: u32
  se_partial :: bool

record segListing =
  sl_segs :: "segEntry list"
  sl_unfinished :: "string list"
  sl_leftovers :: "string list"
  sl_start :: nat

definition emptyListing :: segListing where
  "emptyListing = \<lparr>sl_segs = [], sl_unfinished = [], sl_leftovers = [], sl_start = 0\<rparr>"

text \<open>\<open>None\<close> is a header that is not there yet (\<open>hdrOK = false\<close>); \<open>- 1\<close> is a first position not known.\<close>

definition probeSegment :: "LogFS \<Rightarrow> string \<Rightarrow> u64 \<Rightarrow> u64 \<Rightarrow> (wal_error, segEntry option) result" where
  "probeSegment fsys path no storeID =
     (case fs_Open fsys path of
        Inl _ \<Rightarrow> Inl ErrIO
      | Inr content \<Rightarrow>
          let hdr = take segHeaderSize content; br = drop segHeaderSize content
          in case decodeSegmentHeader hdr of
               Inl _ \<Rightarrow>
                 if length hdr < segHeaderSize then Inr None
                 else if br = [] then Inr None
                 else Inl ErrSegmentHeader
             | Inr (hStore, hNo) \<Rightarrow>
                 if hStore \<noteq> storeID then Inl ErrForeignStore
                 else if hNo \<noteq> no then Inl ErrSegmentHeader
                 else let e = \<lparr>se_path = path, se_no = no, se_firstPos = - 1, se_firstPrevLen = 0, se_partial = False\<rparr>
                      in if br = [] then Inr (Some e)
                         else case Decode br of
                             Inr (f, _) \<Rightarrow>
                               if FVersion f \<noteq> CurrentVersion then Inl ErrUnsupportedVersion
                               else if StoreID f \<noteq> storeID then Inl ErrForeignStore
                               else Inr (Some (e\<lparr>se_firstPos := Pos f, se_firstPrevLen := PrevLen f\<rparr>))
                           | Inl ErrTornFrame \<Rightarrow> Inr (Some (e\<lparr>se_partial := True\<rparr>))
                           | Inl _ \<Rightarrow> Inr (Some (e\<lparr>se_partial := True\<rparr>)))"

fun list_loop :: "LogFS \<Rightarrow> string \<Rightarrow> Control \<Rightarrow> u64 list \<Rightarrow> segListing \<Rightarrow> (wal_error, segListing) result" where
  "list_loop fsys walPath c [] out = Inr out"
| "list_loop fsys walPath c (no # nos) out =
     (let path = SegmentPath walPath no
      in case probeSegment fsys path no (ctl_StoreID c) of
           Inl err \<Rightarrow> Inl err
         | Inr None \<Rightarrow> list_loop fsys walPath c nos (out\<lparr>sl_unfinished := sl_unfinished out @ [path]\<rparr>)
         | Inr (Some e) \<Rightarrow>
             if sl_unfinished out \<noteq> [] then Inl ErrSegmentHeader
             else if sl_segs out \<noteq> [] \<and> se_no (last (sl_segs out)) + 1 \<noteq> no
                 \<and> (sint (se_firstPos e) < 0 \<or> sint (se_firstPos e) > sint (ctl_OldestRetainedPos c))
               then Inl ErrSegmentGap
             else list_loop fsys walPath c nos (out\<lparr>sl_segs := sl_segs out @ [e]\<rparr>))"

text \<open>The scan for the start segment: the last index at or below OR, and whether any segment has frames.\<close>

fun find_start :: "u64 \<Rightarrow> nat \<Rightarrow> segEntry list \<Rightarrow> nat option \<Rightarrow> bool \<Rightarrow> nat option \<times> bool" where
  "find_start oldest i [] start framed = (start, framed)"
| "find_start oldest i (s # segs) start framed =
     (if sint (se_firstPos s) < 0 then find_start oldest (i + 1) segs start framed
      else find_start oldest (i + 1) segs (if sint (se_firstPos s) \<le> sint oldest then Some i else start) True)"

definition segment_numbers :: "string list \<Rightarrow> u64 list" where
  "segment_numbers names = sort (List.map_filter parseSegmentName names)"

definition listSegments :: "LogFS \<Rightarrow> string \<Rightarrow> Control \<Rightarrow> (wal_error, segListing) result" where
  "listSegments fsys walPath c =
     (case fs_ReadDir fsys (SegmentDir walPath) of
        Inl ErrNotExist \<Rightarrow> Inr emptyListing
      | Inl ErrOther \<Rightarrow> Inl ErrIO
      | Inr names \<Rightarrow>
          result_bind (list_loop fsys walPath c (segment_numbers names) emptyListing) (\<lambda>out.
            let finish = (\<lambda>start. Inr (out\<lparr>sl_start := start,
                  sl_leftovers := sl_leftovers out @ map se_path (take start (sl_segs out))\<rparr>))
            in case find_start (ctl_OldestRetainedPos c) 0 (sl_segs out) None False of
                 (Some start, _) \<Rightarrow> finish start
               | (None, True) \<Rightarrow> Inl ErrSegmentGap
               | (None, False) \<Rightarrow> finish 0))"

subsection \<open>The log\<close>

record Log =
  lg_fsys :: LogFS
  lg_walPath :: string
  lg_ctl :: Control
  lg_hasCtl :: bool
  lg_list :: segListing
  lg_tailErr :: "wal_error option"
  lg_end :: u64
  lg_lastFramePos :: u64
  lg_tailSegNo :: u64
  lg_tailSegOff :: u64
  lg_frames :: nat
  lg_iterated :: bool

definition zeroControl :: Control where
  "zeroControl = \<lparr>ctl_StoreID = 0, ctl_OldestRetainedPos = 0, ctl_PrevFramePosAtOR = 0,
     ctl_CheckpointRedoPos = 0, ctl_CreatedUnixNano = 0, ctl_Flags = 0\<rparr>"

definition OpenLogFS :: "LogFS \<Rightarrow> string \<Rightarrow> (wal_error, Log) result" where
  "OpenLogFS fsys walPath =
     (let l = \<lparr>lg_fsys = fsys, lg_walPath = walPath, lg_ctl = zeroControl, lg_hasCtl = False,
               lg_list = emptyListing, lg_tailErr = None, lg_end = 0, lg_lastFramePos = - 1,
               lg_tailSegNo = 0, lg_tailSegOff = 0, lg_frames = 0, lg_iterated = False\<rparr>
      in result_bind (readControl fsys walPath) (\<lambda>co. case co of
           None \<Rightarrow>
             (case fs_ReadDir fsys (SegmentDir walPath) of
                Inl ErrOther \<Rightarrow> Inl ErrIO
              | Inl ErrNotExist \<Rightarrow> Inr l
              | Inr names \<Rightarrow>
                  if list_ex (\<lambda>n. parseSegmentName n \<noteq> None) names then Inl ErrMissingControl else Inr l)
         | Some c \<Rightarrow>
             result_bind (listSegments fsys walPath c) (\<lambda>list.
               Inr (l\<lparr>lg_ctl := c, lg_hasCtl := True, lg_list := list, lg_end := ctl_OldestRetainedPos c\<rparr>))))"

definition prevLinkMatches :: "Frame \<Rightarrow> u64 \<Rightarrow> bool" where
  "prevLinkMatches f prev =
     (if prev = NoFramePos then PrevLen f = 0
      else PrevLen f \<noteq> 0 \<and> Pos f - ucast (PrevLen f) = prev)"

text \<open>
  The state one streaming pass threads: the log, the expected next position (\<open>- 1\<close> before the first
  frame), whether the oldest retained position has been passed, and the consumer's own state.
\<close>

record 's stream =
  st_log :: Log
  st_expected :: u64
  st_passedOR :: bool
  st_acc :: 's

definition stream_fail :: "wal_error \<Rightarrow> 's stream \<Rightarrow> 's stream" where
  "stream_fail e st = st\<lparr>st_log := (st_log st)\<lparr>lg_tailErr := Some e\<rparr>\<rparr>"

text \<open>The checks of one decoded frame, in the order of the source.\<close>

definition check_frame :: "u64 \<Rightarrow> 's stream \<Rightarrow> Frame \<Rightarrow> wal_error option" where
  "check_frame oldest st f =
     (let l = st_log st; pos = Pos f; prevOR = ctl_PrevFramePosAtOR (lg_ctl l)
      in if FVersion f \<noteq> CurrentVersion then Some ErrUnsupportedVersion
         else if StoreID f \<noteq> ctl_StoreID (lg_ctl l) then Some ErrForeignStore
         else if sint (st_expected st) \<ge> 0 \<and> pos \<noteq> st_expected st then Some ErrFramePosition
         else if sint (lg_lastFramePos l) \<ge> 0
             \<and> (PrevLen f = 0 \<or> pos - ucast (PrevLen f) \<noteq> lg_lastFramePos l) then Some ErrPrevLink
         else if \<not> sint (lg_lastFramePos l) \<ge> 0 \<and> pos = oldest \<and> \<not> prevLinkMatches f prevOR then Some ErrPrevLink
         else if \<not> st_passedOR st \<and> sint pos \<ge> sint oldest then
           if sint pos > sint oldest then Some ErrFramePosition
           else if sint (lg_lastFramePos l) \<ge> 0 \<and> \<not> prevLinkMatches f prevOR then Some ErrPrevLink
           else None
         else None)"

definition accept_frame :: "u64 \<Rightarrow> segEntry \<Rightarrow> u64 \<Rightarrow> 's stream \<Rightarrow> Frame \<Rightarrow> 's stream" where
  "accept_frame oldest s off' st f =
     (let expected = Pos f + of_nat (FrameSize f)
      in st\<lparr>st_passedOR := (st_passedOR st \<or> sint (Pos f) \<ge> sint oldest), st_expected := expected,
            st_log := (st_log st)\<lparr>lg_end := expected, lg_lastFramePos := Pos f, lg_tailSegNo := se_no s,
                         lg_tailSegOff := off', lg_frames := lg_frames (st_log st) + 1\<rparr>\<rparr>)"

function segment_loop ::
  "('s \<Rightarrow> Frame \<Rightarrow> 's \<times> bool) \<Rightarrow> u64 \<Rightarrow> segEntry \<Rightarrow> bool \<Rightarrow> u64 \<Rightarrow> bytes \<Rightarrow> 's stream \<Rightarrow> 's stream \<times> bool" where
  "segment_loop yield oldest s isLast off br st =
     (if br = [] then (st, True)
      else case Decode br of
        Inl derr \<Rightarrow>
          (stream_fail (if derr = ErrTornFrame \<and> \<not> isLast then ErrTornSegment else derr) st, False)
      | Inr (f, br') \<Rightarrow>
          (case check_frame oldest st f of
             Some err \<Rightarrow> (stream_fail err st, False)
           | None \<Rightarrow>
               let off' = off + of_nat (FrameSize f);
                   st' = accept_frame oldest s off' st f
               in case yield (st_acc st') f of (acc, go) \<Rightarrow>
                    if go then segment_loop yield oldest s isLast off' br' (st'\<lparr>st_acc := acc\<rparr>)
                    else (st'\<lparr>st_acc := acc\<rparr>, False)))"
  by pat_completeness auto
termination
  by (relation "measure (\<lambda>(yield, oldest, s, isLast, off, br, st). length br)") (auto simp: Decode_shorter)

declare segment_loop.simps [simp del]

definition streamSegment ::
  "('s \<Rightarrow> Frame \<Rightarrow> 's \<times> bool) \<Rightarrow> segEntry \<Rightarrow> bool \<Rightarrow> u64 \<Rightarrow> 's stream \<Rightarrow> 's stream \<times> bool" where
  "streamSegment yield s isLast oldest st =
     (case fs_Open (lg_fsys (st_log st)) (se_path s) of
        Inl _ \<Rightarrow> (stream_fail ErrIO st, False)
      | Inr content \<Rightarrow>
          if length content < segHeaderSize then (stream_fail ErrSegmentHeader st, False)
          else segment_loop yield oldest s isLast (of_nat segHeaderSize) (drop segHeaderSize content) st)"

definition framed :: "segEntry \<Rightarrow> bool" where
  "framed s \<longleftrightarrow> sint (se_firstPos s) \<ge> 0 \<or> se_partial s"

fun last_framed :: "nat \<Rightarrow> segEntry list \<Rightarrow> nat option \<Rightarrow> nat option" where
  "last_framed i [] r = r"
| "last_framed i (s # segs) r = last_framed (i + 1) segs (if framed s then Some i else r)"

text \<open>The loop over the segments from index \<open>i\<close>; the flag is false when a segment ended the iteration.\<close>

fun segments_loop ::
  "('s \<Rightarrow> Frame \<Rightarrow> 's \<times> bool) \<Rightarrow> u64 \<Rightarrow> nat option \<Rightarrow> nat \<Rightarrow> segEntry list \<Rightarrow> 's stream \<Rightarrow> 's stream \<times> bool" where
  "segments_loop yield oldest lastF i [] st = (st, True)"
| "segments_loop yield oldest lastF i (s # segs) st =
     (if \<not> framed s then
        if (case lastF of None \<Rightarrow> False | Some k \<Rightarrow> i < k) then (stream_fail ErrSegmentGap st, False)
        else segments_loop yield oldest lastF (i + 1) segs st
      else case streamSegment yield s (lastF = Some i) oldest st of
          (st', False) \<Rightarrow> (st', False)
        | (st', True) \<Rightarrow> segments_loop yield oldest lastF (i + 1) segs st')"

definition streamSegments :: "('s \<Rightarrow> Frame \<Rightarrow> 's \<times> bool) \<Rightarrow> Log \<Rightarrow> 's \<Rightarrow> Log \<times> 's" where
  "streamSegments yield l s0 =
     (let segs = sl_segs (lg_list l); oldest = ctl_OldestRetainedPos (lg_ctl l);
          start = sl_start (lg_list l);
          st0 = \<lparr>st_log = l, st_expected = - 1, st_passedOR = False, st_acc = s0\<rparr>
      in case segments_loop yield oldest (last_framed 0 segs None) start (drop start segs) st0 of
           (st, False) \<Rightarrow> (st_log st, st_acc st)
         | (st, True) \<Rightarrow>
             if sint (st_expected st) < 0 then ((st_log st)\<lparr>lg_end := oldest\<rparr>, st_acc st)
             else if \<not> st_passedOR st \<and> st_expected st \<noteq> oldest \<and> lg_tailErr (st_log st) = None
               then ((st_log st)\<lparr>lg_tailErr := Some ErrFramePosition\<rparr>, st_acc st)
             else (st_log st, st_acc st))"

definition Log_Frames :: "('s \<Rightarrow> Frame \<Rightarrow> 's \<times> bool) \<Rightarrow> Log \<Rightarrow> 's \<Rightarrow> Log \<times> 's" where
  "Log_Frames yield l s0 =
     (if lg_iterated l \<or> \<not> lg_hasCtl l then (l, s0)
      else case streamSegments yield (l\<lparr>lg_iterated := True\<rparr>) s0 of (l', s') \<Rightarrow>
        if sint (lg_lastFramePos l') < 0 \<and> ctl_PrevFramePosAtOR (lg_ctl l') \<noteq> NoFramePos
        then (l'\<lparr>lg_lastFramePos := ctl_PrevFramePosAtOR (lg_ctl l')\<rparr>, s') else (l', s'))"

subsection \<open>The chain of frames a pass yields\<close>

text \<open>
  Whatever the files hold, each yielded frame follows its predecessor. The tests on \<open>expected\<close> and
  \<open>lastFramePos\<close> are signed, so a link is only checked behind a frame whose end is a non-negative
  \<open>int64\<close>.
\<close>

definition in_range :: "Frame \<Rightarrow> bool" where
  "in_range f \<longleftrightarrow> unat (Pos f) + FrameSize f < 2 ^ 63"

definition follows :: "Frame \<Rightarrow> Frame \<Rightarrow> bool" where
  "follows f g \<longleftrightarrow> Pos g = Pos f + of_nat (FrameSize f) \<and> PrevLen g \<noteq> 0 \<and> Pos g - ucast (PrevLen g) = Pos f"

definition chain_inv :: "Control \<Rightarrow> Frame list stream \<Rightarrow> bool" where
  "chain_inv c st \<longleftrightarrow>
     lg_ctl (st_log st) = c
     \<and> (\<forall>f \<in> set (st_acc st). FVersion f = CurrentVersion \<and> StoreID f = ctl_StoreID c)
     \<and> successively (\<lambda>f g. in_range f \<longrightarrow> follows f g) (st_acc st)
     \<and> (st_acc st = [] \<longrightarrow> st_expected st = - 1 \<and> lg_lastFramePos (st_log st) = - 1
          \<and> lg_end (st_log st) = ctl_OldestRetainedPos c)
     \<and> (st_acc st \<noteq> [] \<longrightarrow> st_expected st = Pos (last (st_acc st)) + of_nat (FrameSize (last (st_acc st)))
          \<and> lg_lastFramePos (st_log st) = Pos (last (st_acc st)) \<and> lg_end (st_log st) = st_expected st)
     \<and> (st_passedOR st \<longrightarrow>
          (\<exists>f \<in> set (st_acc st). Pos f = ctl_OldestRetainedPos c \<and> prevLinkMatches f (ctl_PrevFramePosAtOR c)))"

lemma sint_nonneg_u64: "0 \<le> sint (w :: u64) \<longleftrightarrow> unat w < 2 ^ 63"
proof -
  have "0 \<le> sint w \<longleftrightarrow> \<not> bit w 63"
    by (simp add: sint_uint signed_take_bit_nonnegative_iff bit_uint_iff)
  also have "\<dots> \<longleftrightarrow> uint w < 2 ^ 63"
  proof
    assume nb: "\<not> bit w 63"
    have "take_bit 63 w = w"
    proof (rule bit_word_eqI)
      fix n assume "n < LENGTH(64)"
      then have "n = 63 \<or> n < 63" by auto
      then show "bit (take_bit 63 w) n = bit w n"
        using nb by (auto simp: bit_take_bit_iff)
    qed
    then have "uint w = take_bit 63 (uint w)" by (metis unsigned_take_bit_eq)
    then show "uint w < 2 ^ 63" by (metis take_bit_int_less_exp)
  next
    assume "uint w < 2 ^ 63"
    then have "take_bit 63 (uint w) = uint w" by (simp add: take_bit_int_eq_self)
    then have "\<not> bit (uint w) 63" using bit_take_bit_iff [of 63 "uint w" 63] by simp
    then show "\<not> bit w 63" by (simp add: bit_uint_iff)
  qed
  also have "uint w = int (unat w)" by simp
  also have "int (unat w) < 2 ^ 63 \<longleftrightarrow> int (unat w) < int (2 ^ 63)" by simp
  also have "\<dots> \<longleftrightarrow> unat w < 2 ^ 63" by (rule of_nat_less_iff)
  finally show ?thesis .
qed

lemma in_range_sint:
  assumes "in_range f"
  shows "0 \<le> sint (Pos f)" "0 \<le> sint (Pos f + of_nat (FrameSize f))"
    "unat (Pos f + of_nat (FrameSize f)) = unat (Pos f) + FrameSize f"
proof -
  have "unat (Pos f) + FrameSize f < 2 ^ 63" using assms by (simp add: in_range_def)
  then show u: "unat (Pos f + of_nat (FrameSize f)) = unat (Pos f) + FrameSize f"
    by (simp add: unat_word_ariths unat_of_nat)
  show "0 \<le> sint (Pos f)" "0 \<le> sint (Pos f + of_nat (FrameSize f))"
    using assms unfolding sint_nonneg_u64 u by (simp_all add: in_range_def)
qed

lemma follows_nat:
  assumes "in_range f" and "follows f g"
  shows "unat (Pos g) = unat (Pos f) + FrameSize f \<and> unat (PrevLen g) = FrameSize f"
proof -
  have pos: "unat (Pos g) = unat (Pos f) + FrameSize f"
    using in_range_sint(3) [OF assms(1)] assms(2) by (simp add: follows_def)
  have "ucast (PrevLen g) = Pos g - Pos f"
    using assms(2) by (auto simp: follows_def algebra_simps)
  also have "\<dots> = (of_nat (FrameSize f) :: u64)" using assms(2) by (simp add: follows_def)
  finally have "unat (ucast (PrevLen g) :: u64) = unat (of_nat (FrameSize f) :: u64)" by simp
  moreover have "unat (ucast (PrevLen g) :: u64) = unat (PrevLen g)"
    using unat_u32_bound [of "PrevLen g"] by (simp add: unsigned_ucast_eq take_bit_nat_eq_self)
  moreover have "unat (of_nat (FrameSize f) :: u64) = FrameSize f"
    using assms(1) by (simp add: in_range_def unat_of_nat)
  ultimately show ?thesis using pos by simp
qed

lemma check_frame_follows:
  assumes "chain_inv c st" and "check_frame (ctl_OldestRetainedPos c) st f = None" and "st_acc st \<noteq> []"
  shows "in_range (last (st_acc st)) \<longrightarrow> follows (last (st_acc st)) f"
  using assms in_range_sint [of "last (st_acc st)"]
  by (auto simp: chain_inv_def check_frame_def follows_def Let_def split: if_splits)

lemma check_frame_at_oldest:
  assumes "check_frame oldest st f = None" and "\<not> st_passedOR st" and "sint oldest \<le> sint (Pos f)"
  shows "Pos f = oldest \<and> prevLinkMatches f (ctl_PrevFramePosAtOR (lg_ctl (st_log st)))"
proof -
  have "sint (Pos f) = sint oldest" using assms by (auto simp: check_frame_def Let_def split: if_splits)
  then have "Pos f = oldest" by (simp add: signed_word_eqI)
  then show ?thesis using assms by (auto simp: check_frame_def Let_def split: if_splits)
qed

lemma accept_chain_inv:
  assumes inv: "chain_inv c st" and ok: "check_frame (ctl_OldestRetainedPos c) st f = None"
  shows "chain_inv c ((accept_frame (ctl_OldestRetainedPos c) s off st f)\<lparr>st_acc := st_acc st @ [f]\<rparr>)"
proof -
  have f: "FVersion f = CurrentVersion" "StoreID f = ctl_StoreID c"
    using inv ok by (auto simp: chain_inv_def check_frame_def Let_def split: if_splits)
  have link: "st_acc st \<noteq> [] \<longrightarrow> in_range (last (st_acc st)) \<longrightarrow> follows (last (st_acc st)) f"
    using check_frame_follows [OF inv ok] by blast
  have passed: "\<not> st_passedOR st \<Longrightarrow> sint (ctl_OldestRetainedPos c) \<le> sint (Pos f) \<Longrightarrow>
      Pos f = ctl_OldestRetainedPos c \<and> prevLinkMatches f (ctl_PrevFramePosAtOR c)"
    using check_frame_at_oldest [OF ok] inv by (simp add: chain_inv_def)
  show ?thesis
    using inv f link passed
    by (auto simp: chain_inv_def accept_frame_def Let_def successively_append_iff)
qed

lemma stream_fail_chain_inv [simp]: "chain_inv c (stream_fail e st) = chain_inv c st"
  by (simp add: chain_inv_def stream_fail_def)

lemma segment_loop_chain:
  assumes "segment_loop collect_frame (ctl_OldestRetainedPos c) s isLast off br st = (st', go)"
    and "chain_inv c st" and "lg_tailErr (st_log st) = None"
  shows "chain_inv c st' \<and> (go \<longleftrightarrow> lg_tailErr (st_log st') = None)"
  using assms
proof (induction br arbitrary: off st rule: length_induct)
  case (1 br)
  note IH = 1(1) and run = 1(2) and inv = 1(3) and ok = 1(4)
  note step = segment_loop.simps [of collect_frame "ctl_OldestRetainedPos c" s isLast off br st]
  have failed: ?case if "segment_loop collect_frame (ctl_OldestRetainedPos c) s isLast off br st = (stream_fail e st, False)" for e
    using that run inv by (auto simp: stream_fail_def chain_inv_def)
  consider (fin) "br = []" | (bad) e where "br \<noteq> []" "Decode br = Inl e" | (frame) f br' where "br \<noteq> []" "Decode br = Inr (f, br')"
    by (cases "Decode br") auto
  then show ?case
  proof cases
    case fin
    with run inv ok show ?thesis unfolding step by auto
  next
    case (bad e)
    then show ?thesis by (intro failed) (simp add: step)
  next
    case (frame f br')
    show ?thesis
    proof (cases "check_frame (ctl_OldestRetainedPos c) st f")
      case (Some e)
      with frame show ?thesis by (intro failed) (simp add: step)
    next
      case None
      let ?off = "off + of_nat (FrameSize f)"
      let ?st = "(accept_frame (ctl_OldestRetainedPos c) s ?off st f)\<lparr>st_acc := st_acc st @ [f]\<rparr>"
      have acc: "st_acc (accept_frame (ctl_OldestRetainedPos c) s ?off st f) = st_acc st"
        by (simp add: accept_frame_def Let_def)
      have collected: "collect_frame (st_acc st) f = (st_acc st @ [f], True)"
        by (simp add: collect_frame_def)
      have err: "lg_tailErr (st_log ?st) = None"
        using ok by (simp add: accept_frame_def Let_def)
      have "segment_loop collect_frame (ctl_OldestRetainedPos c) s isLast ?off br' ?st = (st', go)"
        using run frame None acc collected unfolding step by (simp add: Let_def)
      from IH [rule_format, OF Decode_shorter [OF frame(2)] this accept_chain_inv [OF inv None] err]
      show ?thesis .
    qed
  qed
qed

lemma streamSegment_chain:
  assumes "streamSegment collect_frame s isLast (ctl_OldestRetainedPos c) st = (st', go)"
    and "chain_inv c st" and "lg_tailErr (st_log st) = None"
  shows "chain_inv c st' \<and> (go \<longleftrightarrow> lg_tailErr (st_log st') = None)"
proof -
  consider (bad) e where "st' = stream_fail e st" "\<not> go"
    | (loop) br where "segment_loop collect_frame (ctl_OldestRetainedPos c) s isLast (of_nat segHeaderSize) br st = (st', go)"
    using assms(1) unfolding streamSegment_def by (auto split: sum.splits if_splits)
  then show ?thesis
  proof cases
    case bad
    with assms(2) show ?thesis by (simp add: stream_fail_def chain_inv_def)
  next
    case loop
    from segment_loop_chain [OF this assms(2,3)] show ?thesis .
  qed
qed

lemma segments_loop_chain:
  assumes "segments_loop collect_frame (ctl_OldestRetainedPos c) lastF i segs st = (st', go)"
    and "chain_inv c st" and "lg_tailErr (st_log st) = None"
  shows "chain_inv c st' \<and> (go \<longleftrightarrow> lg_tailErr (st_log st') = None)"
  using assms
proof (induction segs arbitrary: i st)
  case (Cons s segs)
  show ?case
  proof (cases "framed s")
    case False
    let ?gap = "case lastF of None \<Rightarrow> False | Some k \<Rightarrow> i < k"
    show ?thesis
    proof (cases ?gap)
      case True
      with Cons.prems(1) False have "st' = stream_fail ErrSegmentGap st" "\<not> go" by simp_all
      with Cons.prems(2) show ?thesis by (simp add: stream_fail_def chain_inv_def)
    next
      case no_gap: False
      with Cons.prems(1) False
      have "segments_loop collect_frame (ctl_OldestRetainedPos c) lastF (i + 1) segs st = (st', go)" by simp
      from Cons.IH [OF this Cons.prems(2,3)] show ?thesis .
    qed
  next
    case True
    obtain st1 b where one: "streamSegment collect_frame s (lastF = Some i) (ctl_OldestRetainedPos c) st = (st1, b)"
      by (cases "streamSegment collect_frame s (lastF = Some i) (ctl_OldestRetainedPos c) st")
    note inv1 = streamSegment_chain [OF one Cons.prems(2,3)]
    show ?thesis
    proof (cases b)
      case True
      with Cons.prems(1) \<open>framed s\<close> one
      have "segments_loop collect_frame (ctl_OldestRetainedPos c) lastF (i + 1) segs st1 = (st', go)" by simp
      from Cons.IH [OF this] inv1 True show ?thesis by simp
    next
      case False
      with Cons.prems(1) \<open>framed s\<close> one inv1 show ?thesis by auto
    qed
  qed
qed simp

lemma successively_mono_on:
  "successively P xs \<Longrightarrow> (\<And>x y. x \<in> set xs \<Longrightarrow> P x y \<Longrightarrow> Q x y) \<Longrightarrow> successively Q xs"
  by (induction P xs rule: successively.induct) auto

lemma OpenLogFS_fresh:
  assumes "OpenLogFS fsys p = Inr l"
  shows "lg_tailErr l = None" "lg_end l = ctl_OldestRetainedPos (lg_ctl l)" "lg_lastFramePos l = - 1"
    "\<not> lg_iterated l"
proof -
  let ?l = "\<lparr>lg_fsys = fsys, lg_walPath = p, lg_ctl = zeroControl, lg_hasCtl = False,
               lg_list = emptyListing, lg_tailErr = None, lg_end = 0, lg_lastFramePos = - 1,
               lg_tailSegNo = 0, lg_tailSegOff = 0, lg_frames = 0, lg_iterated = False\<rparr>"
  consider "l = ?l"
    | c list where "l = ?l\<lparr>lg_ctl := c, lg_hasCtl := True, lg_list := list, lg_end := ctl_OldestRetainedPos c\<rparr>"
    using assms unfolding OpenLogFS_def Let_def result_bind_eq_Inr_iff
    by (auto simp: result_bind_eq_Inr_iff split: option.splits sum.splits fs_error.splits if_splits)
  then show "lg_tailErr l = None" "lg_end l = ctl_OldestRetainedPos (lg_ctl l)" "lg_lastFramePos l = - 1"
    "\<not> lg_iterated l"
    by (cases; simp add: zeroControl_def)+
qed

text \<open>What \<open>Log.Frames\<close> promises of a pass over any files at all.\<close>

lemma Log_Frames_chain:
  assumes "OpenLogFS fsys p = Inr l" and "Log_Frames collect_frame l [] = (l', fs)"
  obtains (idle) "fs = []" "lg_end l' = ctl_OldestRetainedPos (lg_ctl l)"
  | (stream) st go where "chain_inv (lg_ctl l) st" "st_acc st = fs" "go \<longleftrightarrow> lg_tailErr (st_log st) = None"
      "fs \<noteq> [] \<longrightarrow> sint (st_expected st) \<ge> 0 \<longrightarrow> lg_end l' = st_expected st
         \<and> (lg_tailErr l' = None \<longrightarrow> st_passedOR st \<or> st_expected st = ctl_OldestRetainedPos (lg_ctl l))
         \<and> (sint (lg_lastFramePos (st_log st)) \<ge> 0 \<longrightarrow> lg_lastFramePos l' = lg_lastFramePos (st_log st))"
      "fs = [] \<longrightarrow> lg_end l' = ctl_OldestRetainedPos (lg_ctl l)"
proof (cases "lg_hasCtl l")
  case False
  then have "l' = l" "fs = []" using assms(2) by (simp_all add: Log_Frames_def)
  then show thesis using idle OpenLogFS_fresh(2) [OF assms(1)] by simp
next
  case True
  let ?c = "lg_ctl l"
  note l = OpenLogFS_fresh [OF assms(1)]
  let ?st0 = "\<lparr>st_log = l\<lparr>lg_iterated := True\<rparr>, st_expected = - 1, st_passedOR = False, st_acc = []\<rparr> :: Frame list stream"
  have inv0: "chain_inv ?c ?st0" "lg_tailErr (st_log ?st0) = None"
    using l by (simp_all add: chain_inv_def)
  obtain st go where run:
    "segments_loop collect_frame (ctl_OldestRetainedPos ?c) (last_framed 0 (sl_segs (lg_list l)) None)
       (sl_start (lg_list l)) (drop (sl_start (lg_list l)) (sl_segs (lg_list l))) ?st0 = (st, go)"
    by fastforce
  note inv = segments_loop_chain [OF run inv0]
  have fs: "fs = st_acc st"
    using assms(2) True l(4) run
    by (auto simp: Log_Frames_def streamSegments_def Let_def split: bool.splits if_splits prod.splits)
  show thesis
  proof (rule stream [of st go])
    show "fs = [] \<longrightarrow> lg_end l' = ctl_OldestRetainedPos ?c"
      using assms(2) True l(4) run inv fs
      by (auto simp: Log_Frames_def streamSegments_def Let_def chain_inv_def split: bool.splits if_splits prod.splits)
    show "fs \<noteq> [] \<longrightarrow> sint (st_expected st) \<ge> 0 \<longrightarrow> lg_end l' = st_expected st
         \<and> (lg_tailErr l' = None \<longrightarrow> st_passedOR st \<or> st_expected st = ctl_OldestRetainedPos ?c)
         \<and> (sint (lg_lastFramePos (st_log st)) \<ge> 0 \<longrightarrow> lg_lastFramePos l' = lg_lastFramePos (st_log st))"
      using assms(2) True l(4) run inv fs
      by (auto simp: Log_Frames_def streamSegments_def Let_def chain_inv_def split: bool.splits if_splits prod.splits)
  qed (use inv fs in auto)
qed

subsection \<open>Reading back a written log\<close>

text \<open>
  \<open>chained store pos prev fs\<close>: the frames a writer lays down from position \<open>pos\<close>, the first
  linking over \<open>prev\<close> bytes, the others over their predecessor.
\<close>

fun chained :: "u64 \<Rightarrow> u64 \<Rightarrow> nat \<Rightarrow> Frame list \<Rightarrow> bool" where
  "chained store pos prev [] \<longleftrightarrow> True"
| "chained store pos prev (f # fs) \<longleftrightarrow>
     FVersion f = CurrentVersion \<and> StoreID f = store \<and> Pos f = pos \<and> unat (PrevLen f) = prev
     \<and> chained store (pos + of_nat (FrameSize f)) (FrameSize f) fs"

lemma chained_append:
  "chained store pos prev (fs @ gs) \<longleftrightarrow> chained store pos prev fs
     \<and> chained store (pos + of_nat (log_size fs)) (if fs = [] then prev else FrameSize (last fs)) gs"
  by (induction fs arbitrary: pos prev) (auto simp: log_size_def add.assoc)

lemma prevLinkMatches_cong:
  "Pos f = Pos g \<Longrightarrow> PrevLen f = PrevLen g \<Longrightarrow> prevLinkMatches f q = prevLinkMatches g q"
  by (simp add: prevLinkMatches_def)

lemma FrameSize_pos: "0 < FrameSize f"
  by (simp add: FrameSize_def HeaderSize_def HeaderSizeV2_def)

text \<open>The stream state between two frames of such a log.\<close>

definition ready :: "Control \<Rightarrow> LogFS \<Rightarrow> u64 \<Rightarrow> nat \<Rightarrow> Frame list \<Rightarrow> Frame list stream \<Rightarrow> bool" where
  "ready c fsys pos prev acc st \<longleftrightarrow>
     lg_ctl (st_log st) = c \<and> lg_fsys (st_log st) = fsys \<and> lg_tailErr (st_log st) = None \<and> st_acc st = acc
     \<and> lg_end (st_log st) = pos \<and> unat pos < 2 ^ 63
     \<and> (acc = [] \<longrightarrow> st_expected st = - 1 \<and> lg_lastFramePos (st_log st) = - 1 \<and> \<not> st_passedOR st
          \<and> pos = ctl_OldestRetainedPos c
          \<and> (\<forall>f. Pos f = pos \<and> unat (PrevLen f) = prev \<longrightarrow> prevLinkMatches f (ctl_PrevFramePosAtOR c)))
     \<and> (acc \<noteq> [] \<longrightarrow> st_expected st = pos \<and> st_passedOR st \<and> prev \<noteq> 0
          \<and> lg_lastFramePos (st_log st) = pos - of_nat prev \<and> 0 \<le> sint (pos - of_nat prev))"

lemma ready_check:
  assumes "ready c fsys pos prev acc st" and "chained (ctl_StoreID c) pos prev [f]"
  shows "check_frame (ctl_OldestRetainedPos c) st f = None"
proof -
  have prev: "ucast (PrevLen f) = (of_nat prev :: u64)" "PrevLen f = 0 \<longleftrightarrow> prev = 0"
    using assms(2) by (auto simp: unsigned_eq_0_iff)
  show ?thesis
  proof (cases "acc = []")
    case True
    then have "prevLinkMatches f (ctl_PrevFramePosAtOR c)" "Pos f = ctl_OldestRetainedPos c"
      using assms by (auto simp: ready_def)
    then show ?thesis using assms True by (simp add: ready_def check_frame_def Let_def)
  next
    case False
    then show ?thesis using assms prev by (simp add: ready_def check_frame_def Let_def)
  qed
qed

lemma ready_accept:
  assumes "ready c fsys pos prev acc st" and "chained (ctl_StoreID c) pos prev [f]"
    and "unat pos + FrameSize f < 2 ^ 63"
  shows "ready c fsys (pos + of_nat (FrameSize f)) (FrameSize f) (acc @ [f])
     ((accept_frame (ctl_OldestRetainedPos c) s off st f)\<lparr>st_acc := st_acc st @ [f]\<rparr>)"
proof -
  have "in_range f" using assms(2,3) by (simp add: in_range_def)
  from in_range_sint [OF this] assms FrameSize_pos [of f] show ?thesis
    by (auto simp: ready_def accept_frame_def Let_def in_range_def)
qed

lemma segment_loop_chained:
  assumes "chained (ctl_StoreID c) pos prev fs" and "encode_log fs = Inr bs"
    and "ready c fsys pos prev acc st" and "unat pos + log_size fs < 2 ^ 63"
  shows "\<exists>st'. segment_loop collect_frame (ctl_OldestRetainedPos c) s isLast off (bs @ rest) st =
           segment_loop collect_frame (ctl_OldestRetainedPos c) s isLast (off + of_nat (log_size fs)) rest st'
       \<and> ready c fsys (pos + of_nat (log_size fs)) (if fs = [] then prev else FrameSize (last fs)) (acc @ fs) st'"
  using assms
proof (induction fs arbitrary: bs pos prev acc st off)
  case Nil
  then show ?case by (auto simp: log_size_def)
next
  case (Cons f fs)
  obtain b bs' where b: "Encode f = Inr b" "encode_log fs = Inr bs'" "bs = b @ bs'"
    using Cons.prems(2) by (auto simp: result_bind_eq_Inr_iff)
  have one: "chained (ctl_StoreID c) pos prev [f]" using Cons.prems(1) by simp
  have size: "log_size (f # fs) = FrameSize f + log_size fs" by (simp add: log_size_def)
  let ?off = "off + of_nat (FrameSize f)"
  let ?st = "(accept_frame (ctl_OldestRetainedPos c) s ?off st f)\<lparr>st_acc := st_acc st @ [f]\<rparr>"
  have "Decode (b @ bs' @ rest) = Inr (f, bs' @ rest)"
    using Decode_Encode [OF b(1)] one by (simp add: stored_frame_def)
  moreover have "st_acc (accept_frame (ctl_OldestRetainedPos c) s ?off st f) = st_acc st"
    by (simp add: accept_frame_def Let_def)
  moreover have "collect_frame (st_acc st) f = (st_acc st @ [f], True)" by (simp add: collect_frame_def)
  ultimately have step: "segment_loop collect_frame (ctl_OldestRetainedPos c) s isLast off (bs @ rest) st =
      segment_loop collect_frame (ctl_OldestRetainedPos c) s isLast ?off (bs' @ rest) ?st"
    using ready_check [OF Cons.prems(3) one] Encode_nonempty [OF b(1)] unfolding b(3)
    by (subst segment_loop.simps) (simp add: Let_def)
  have small: "unat pos + FrameSize f < 2 ^ 63" using Cons.prems(4) size by simp
  then have "unat (pos + of_nat (FrameSize f)) = unat pos + FrameSize f"
    by (simp add: unat_word_ariths unat_of_nat)
  then have "unat (pos + of_nat (FrameSize f)) + log_size fs < 2 ^ 63" using Cons.prems(4) size by simp
  with Cons.IH [OF _ b(2) ready_accept [OF Cons.prems(3) one small], of ?off s] Cons.prems(1)
  show ?case unfolding step size by (auto simp: add.assoc)
qed

text \<open>The segment files of a log: consecutive numbers, a header and frames each, bytes of an
  unfinished write behind the last.\<close>

fun segment_files :: "LogFS \<Rightarrow> string \<Rightarrow> u64 \<Rightarrow> (u64 \<times> Frame list) list \<Rightarrow> bytes \<Rightarrow> bool" where
  "segment_files fsys p store [] torn \<longleftrightarrow> True"
| "segment_files fsys p store ((no, fs) # segs) torn \<longleftrightarrow>
     fs \<noteq> [] \<and> (case segs of [] \<Rightarrow> True | (no', _) # _ \<Rightarrow> no' = no + 1)
     \<and> (case encode_log fs of Inl _ \<Rightarrow> False
        | Inr bs \<Rightarrow> fs_Open fsys (SegmentPath p no) =
            Inr (encodeSegmentHeader store no @ bs @ (if segs = [] then torn else [])))
     \<and> segment_files fsys p store segs torn"

definition entry :: "string \<Rightarrow> u64 \<times> Frame list \<Rightarrow> segEntry" where
  "entry p s = \<lparr>se_path = SegmentPath p (fst s), se_no = fst s, se_firstPos = Pos (hd (snd s)),
     se_firstPrevLen = PrevLen (hd (snd s)), se_partial = False\<rparr>"

lemma probeSegment_written:
  assumes "fs_Open fsys (SegmentPath p no) = Inr (encodeSegmentHeader store no @ bs @ rest)"
    and "encode_log fs = Inr bs" and "fs \<noteq> []" and "chained store pos prev fs"
  shows "probeSegment fsys (SegmentPath p no) no store = Inr (Some (entry p (no, fs)))"
proof -
  obtain f gs where fs: "fs = f # gs" using assms(3) by (cases fs) auto
  obtain b bs' where b: "Encode f = Inr b" "bs = b @ bs'"
    using assms(2) fs by (auto simp: result_bind_eq_Inr_iff)
  have f: "FVersion f = CurrentVersion" "StoreID f = store" using assms(4) fs by auto
  have "Decode (bs @ rest) = Inr (f, bs' @ rest)"
    using Decode_Encode [OF b(1), of "bs' @ rest"] f by (simp add: b(2) stored_frame_def)
  moreover have "bs \<noteq> []" using Encode_nonempty [OF b(1)] b(2) by simp
  ultimately show ?thesis
    using assms(1) f by (simp add: probeSegment_def decode_segment_header Let_def fs entry_def)
qed

lemma list_loop_written:
  assumes "segment_files fsys p (ctl_StoreID c) segs torn"
    and "chained (ctl_StoreID c) pos prev (concat (map snd segs))"
    and "sl_unfinished out = []"
    and "case segs of [] \<Rightarrow> True | (no, _) # _ \<Rightarrow> sl_segs out = [] \<or> no = se_no (last (sl_segs out)) + 1"
  shows "list_loop fsys p c (map fst segs) out = Inr (out\<lparr>sl_segs := sl_segs out @ map (entry p) segs\<rparr>)"
  using assms
proof (induction segs arbitrary: out pos prev)
  case Nil
  then show ?case by simp
next
  case (Cons sg segs)
  obtain no fs where sg: "sg = (no, fs)" by (cases sg)
  obtain bs where bs: "encode_log fs = Inr bs"
    "fs_Open fsys (SegmentPath p no) = Inr (encodeSegmentHeader (ctl_StoreID c) no @ bs @ (if segs = [] then torn else []))"
    using Cons.prems(1) by (auto simp: sg split: sum.splits)
  have parts: "fs \<noteq> []" "chained (ctl_StoreID c) pos prev fs" "segment_files fsys p (ctl_StoreID c) segs torn"
    "case segs of [] \<Rightarrow> True | (no', _) # _ \<Rightarrow> no' = no + 1"
    "chained (ctl_StoreID c) (pos + of_nat (log_size fs)) (FrameSize (last fs)) (concat (map snd segs))"
    using Cons.prems(1,2) by (simp_all add: sg chained_append)
  let ?out = "out\<lparr>sl_segs := sl_segs out @ [entry p sg]\<rparr>"
  have "sl_segs out \<noteq> [] \<Longrightarrow> se_no (last (sl_segs out)) + 1 = no"
    using Cons.prems(4) by (auto simp: sg)
  with probeSegment_written [OF bs(2,1) parts(1,2)] Cons.prems(3)
  have "list_loop fsys p c (map fst (sg # segs)) out = list_loop fsys p c (map fst segs) ?out"
    by (auto simp: sg Let_def)
  also have "\<dots> = Inr (?out\<lparr>sl_segs := sl_segs ?out @ map (entry p) segs\<rparr>)"
  proof (rule Cons.IH [OF parts(3,5)])
    show "sl_unfinished ?out = []" using Cons.prems(3) by simp
    show "case segs of [] \<Rightarrow> True | (no, _) # _ \<Rightarrow> sl_segs ?out = [] \<or> no = se_no (last (sl_segs ?out)) + 1"
      using parts(4) by (auto simp: sg entry_def split: list.splits prod.splits)
  qed
  finally show ?case by simp
qed

text \<open>Only the first segment starts at or below the oldest retained position.\<close>

lemma sint_unat: "unat (w :: u64) < 2 ^ 63 \<Longrightarrow> sint w = int (unat w)"
proof -
  assume "unat w < 2 ^ 63"
  then have "int (unat w) < int (2 ^ 63)" by (rule of_nat_less_iff [THEN iffD2])
  moreover have "- (2 ^ 63) \<le> int (unat w)" by (rule order_trans [OF _ of_nat_0_le_iff]) simp
  ultimately have "signed_take_bit 63 (int (unat w)) = int (unat w)"
    by (intro signed_take_bit_int_eq_self) simp_all
  then show ?thesis by (simp add: sint_uint)
qed

lemma sint_le_unat:
  "unat (a :: u64) < 2 ^ 63 \<Longrightarrow> unat (b :: u64) < 2 ^ 63 \<Longrightarrow> sint a \<le> sint b \<longleftrightarrow> unat a \<le> unat b"
  unfolding sint_unat by (rule of_nat_le_iff)

lemma find_start_above:
  assumes "\<forall>s \<in> set segs. unat oldest < unat (se_firstPos s) \<and> unat (se_firstPos s) < 2 ^ 63"
    and "unat oldest < 2 ^ 63"
  shows "find_start oldest i segs start True = (start, True)"
  using assms(1)
proof (induction segs arbitrary: i)
  case (Cons s segs)
  then have s: "unat oldest < unat (se_firstPos s)" "unat (se_firstPos s) < 2 ^ 63" by auto
  have "0 \<le> sint (se_firstPos s)" using s(2) by (simp only: sint_nonneg_u64)
  moreover have "\<not> sint (se_firstPos s) \<le> sint oldest"
    using s(1) sint_le_unat [OF s(2) assms(2)] by simp
  ultimately show ?case using Cons by (simp add: not_less)
qed simp

lemma chained_pos:
  assumes "chained store pos prev fs" and "unat pos + log_size fs < 2 ^ 63" and "f \<in> set fs"
  shows "unat pos \<le> unat (Pos f) \<and> unat (Pos f) < 2 ^ 63"
  using assms
proof (induction fs arbitrary: pos prev)
  case (Cons g gs)
  have size: "log_size (g # gs) = FrameSize g + log_size gs" by (simp add: log_size_def)
  have u: "unat (pos + of_nat (FrameSize g)) = unat pos + FrameSize g"
    using Cons.prems(2) size by (simp add: unat_word_ariths unat_of_nat)
  show ?case
  proof (cases "f = g")
    case True
    then show ?thesis using Cons.prems by simp
  next
    case False
    then show ?thesis
      using Cons.IH [of "pos + of_nat (FrameSize g)" "FrameSize g"] Cons.prems u size by simp
  qed
qed simp

lemma find_start_written:
  assumes "segment_files fsys p store (s # segs) torn"
    and "chained store oldest prev (concat (map snd (s # segs)))"
    and "unat oldest + log_size (concat (map snd (s # segs))) < 2 ^ 63"
  shows "find_start oldest 0 (map (entry p) (s # segs)) None False = (Some 0, True)"
proof -
  have ne: "snd x \<noteq> []" if "x \<in> set xs" "segment_files fsys p store xs torn" for x xs
    using that by (induction xs) auto
  obtain f fs where f: "snd s = f # fs" using ne [OF _ assms(1), of s] by (cases "snd s") auto
  have size: "log_size (concat (map snd (s # segs))) = FrameSize f + (log_size fs + log_size (concat (map snd segs)))"
    by (simp add: log_size_def f)
  let ?pos = "oldest + of_nat (log_size (snd s))"
  have hd_s: "Pos f = oldest" using assms(2) f by simp
  have total: "unat oldest + (log_size (snd s) + log_size (concat (map snd segs))) < 2 ^ 63"
    using assms(3) by (simp add: log_size_def)
  then have u: "unat ?pos = unat oldest + log_size (snd s)"
    by (simp add: unat_word_ariths unat_of_nat)
  have pos: "0 < log_size (snd s)" using FrameSize_pos [of f] by (simp add: f log_size_def)
  have rest: "chained store ?pos (FrameSize (last (snd s))) (concat (map snd segs))"
    using assms(2) ne [OF _ assms(1), of s] by (simp add: chained_append)
  have "unat oldest < unat (se_firstPos e) \<and> unat (se_firstPos e) < 2 ^ 63" if e: "e \<in> set (map (entry p) segs)" for e
  proof -
    obtain x where x: "x \<in> set segs" "e = entry p x" using e by auto
    have "segment_files fsys p store segs torn" using assms(1) by (cases s) simp
    from ne [OF x(1) this] have "hd (snd x) \<in> set (concat (map snd segs))"
      using x(1) by (auto intro!: bexI [of _ x])
    from chained_pos [OF rest _ this] total u pos show ?thesis by (simp add: x(2) entry_def)
  qed
  then have "find_start oldest 1 (map (entry p) segs) (Some 0) True = (Some 0, True)"
    using total by (intro find_start_above) auto
  moreover have "0 \<le> sint oldest" using total unfolding sint_nonneg_u64 by simp
  ultimately show ?thesis by (simp add: entry_def [of p s] f hd_s)
qed

lemma last_framed_all:
  "\<forall>s \<in> set segs. framed s \<Longrightarrow> segs \<noteq> [] \<Longrightarrow> last_framed i segs r = Some (i + length segs - 1)"
proof (induction segs arbitrary: i r)
  case (Cons s segs)
  then show ?case by (cases segs) auto
qed simp

lemma segments_loop_written:
  assumes "segment_files fsys p (ctl_StoreID c) segs torn" and "segs \<noteq> []"
    and "chained (ctl_StoreID c) pos prev (concat (map snd segs))"
    and "unat pos + log_size (concat (map snd segs)) < 2 ^ 63"
    and "ready c fsys pos prev acc st"
    and "lastF = Some (i + length segs - 1)"
    and torn: "torn = [] \<or> Decode torn = Inl ErrTornFrame"
  shows "\<exists>st' prev'. segments_loop collect_frame (ctl_OldestRetainedPos c) lastF i (map (entry p) segs) st =
             (if torn = [] then st' else stream_fail ErrTornFrame st', torn = [])
       \<and> ready c fsys (pos + of_nat (log_size (concat (map snd segs)))) prev' (acc @ concat (map snd segs)) st'"
  using assms(1-6)
proof (induction segs arbitrary: pos prev acc st i)
  case (Cons sg segs)
  obtain no fs where sg: "sg = (no, fs)" by (cases sg)
  obtain bs where bs: "encode_log fs = Inr bs"
    "fs_Open fsys (SegmentPath p no) = Inr (encodeSegmentHeader (ctl_StoreID c) no @ bs @ (if segs = [] then torn else []))"
    using Cons.prems(1) by (auto simp: sg split: sum.splits)
  have parts: "fs \<noteq> []" "chained (ctl_StoreID c) pos prev fs" "segment_files fsys p (ctl_StoreID c) segs torn"
    "chained (ctl_StoreID c) (pos + of_nat (log_size fs)) (FrameSize (last fs)) (concat (map snd segs))"
    using Cons.prems(1,3) by (simp_all add: sg chained_append)
  have size: "log_size (concat (map snd (sg # segs))) = log_size fs + log_size (concat (map snd segs))"
    by (simp add: sg log_size_def)
  have small: "unat pos + log_size fs < 2 ^ 63" using Cons.prems(4) size by simp
  have "unat (Pos (hd fs)) < 2 ^ 63" using chained_pos [OF parts(2) small] parts(1) by simp
  then have framed: "framed (entry p sg)" unfolding framed_def sint_nonneg_u64 by (simp add: sg entry_def)
  let ?isLast = "lastF = Some i"
  let ?rest = "if segs = [] then torn else []"
  obtain st1 where st1: "segment_loop collect_frame (ctl_OldestRetainedPos c) (entry p sg) ?isLast
        (of_nat segHeaderSize) (bs @ ?rest) st =
      segment_loop collect_frame (ctl_OldestRetainedPos c) (entry p sg) ?isLast
        (of_nat segHeaderSize + of_nat (log_size fs)) ?rest st1"
    and r1: "ready c fsys (pos + of_nat (log_size fs)) (FrameSize (last fs)) (acc @ fs) st1"
    using segment_loop_chained [OF parts(2) bs(1) Cons.prems(5) small, of "entry p sg" ?isLast "of_nat segHeaderSize" ?rest]
      parts(1) by auto
  have "fs_Open (lg_fsys (st_log st)) (se_path (entry p sg)) =
      Inr (encodeSegmentHeader (ctl_StoreID c) no @ bs @ ?rest)"
    using Cons.prems(5) bs(2) by (simp add: ready_def entry_def sg)
  then have one: "streamSegment collect_frame (entry p sg) ?isLast (ctl_OldestRetainedPos c) st =
      segment_loop collect_frame (ctl_OldestRetainedPos c) (entry p sg) ?isLast
        (of_nat segHeaderSize + of_nat (log_size fs)) ?rest st1"
    by (simp add: streamSegment_def st1)
  show ?case
  proof (cases "segs = []")
    case True
    then have "?isLast" using Cons.prems(6) by simp
    with torn True framed one r1 show ?thesis
      by (intro exI [of _ st1] exI [of _ "FrameSize (last fs)"]) (auto simp: segment_loop.simps sg)
  next
    case False
    have "unat (pos + of_nat (log_size fs)) = unat pos + log_size fs"
      using small by (simp add: unat_word_ariths unat_of_nat)
    then have small2: "unat (pos + of_nat (log_size fs)) + log_size (concat (map snd segs)) < 2 ^ 63"
      using Cons.prems(4) size by simp
    have lastF2: "lastF = Some (i + 1 + length segs - 1)" using Cons.prems(6) by simp
    have step: "segments_loop collect_frame (ctl_OldestRetainedPos c) lastF i (map (entry p) (sg # segs)) st =
        segments_loop collect_frame (ctl_OldestRetainedPos c) lastF (i + 1) (map (entry p) segs) st1"
      using framed one False by (simp add: segment_loop.simps)
    have eqs: "pos + of_nat (log_size fs + log_size (concat (map snd segs))) =
        pos + of_nat (log_size fs) + of_nat (log_size (concat (map snd segs)))"
      "acc @ concat (map snd (sg # segs)) = (acc @ fs) @ concat (map snd segs)"
      by (simp_all add: sg)
    show ?thesis unfolding step size eqs by (rule Cons.IH [OF parts(3) False parts(4) small2 r1 lastF2])
  qed
qed simp

text \<open>A directory that holds such a log.\<close>

definition holds_log :: "LogFS \<Rightarrow> string \<Rightarrow> Control \<Rightarrow> string list \<Rightarrow> (u64 \<times> Frame list) list \<Rightarrow> bytes \<Rightarrow> bool" where
  "holds_log fsys p c names segs torn \<longleftrightarrow>
     ctl_StoreID c \<noteq> 0 \<and> fs_Open fsys (ControlPath p) = Inr (encodeControl c)
     \<and> fs_ReadDir fsys (SegmentDir p) = Inr names \<and> segment_numbers names = map fst segs \<and> segs \<noteq> []
     \<and> segment_files fsys p (ctl_StoreID c) segs torn
     \<and> chained (ctl_StoreID c) (ctl_OldestRetainedPos c) (unat (PrevLen (hd (concat (map snd segs))))) (concat (map snd segs))
     \<and> prevLinkMatches (hd (concat (map snd segs))) (ctl_PrevFramePosAtOR c)
     \<and> unat (ctl_OldestRetainedPos c) + log_size (concat (map snd segs)) < 2 ^ 63"

lemma holds_log_segs:
  assumes "holds_log fsys p c names segs torn"
  shows "segs \<noteq> []" "concat (map snd segs) \<noteq> []"
    "segment_files fsys p (ctl_StoreID c) segs torn"
    "chained (ctl_StoreID c) (ctl_OldestRetainedPos c) (unat (PrevLen (hd (concat (map snd segs))))) (concat (map snd segs))"
    "unat (ctl_OldestRetainedPos c) + log_size (concat (map snd segs)) < 2 ^ 63"
proof -
  show files: "segment_files fsys p (ctl_StoreID c) segs torn" and ne: "segs \<noteq> []"
    using assms by (simp_all add: holds_log_def)
  show "concat (map snd segs) \<noteq> []" using files ne by (cases segs) auto
qed (use assms in \<open>simp_all add: holds_log_def\<close>)

lemma listSegments_written:
  assumes "holds_log fsys p c names segs torn"
  shows "listSegments fsys p c =
     Inr \<lparr>sl_segs = map (entry p) segs, sl_unfinished = [], sl_leftovers = [], sl_start = 0\<rparr>"
proof -
  note h = holds_log_segs [OF assms]
  obtain s ss where segs: "segs = s # ss" using h(1) by (cases segs) auto
  have dir: "fs_ReadDir fsys (SegmentDir p) = Inr names" "segment_numbers names = map fst segs"
    using assms by (simp_all add: holds_log_def)
  have "list_loop fsys p c (map fst segs) emptyListing = Inr (emptyListing\<lparr>sl_segs := map (entry p) segs\<rparr>)"
    using list_loop_written [OF h(3,4), of emptyListing]
    by (simp add: emptyListing_def split: list.splits prod.splits)
  moreover have "find_start (ctl_OldestRetainedPos c) 0 (map (entry p) segs) None False = (Some 0, True)"
    using find_start_written h(3,4,5) unfolding segs by blast
  ultimately show ?thesis
    by (simp add: listSegments_def dir Let_def emptyListing_def)
qed

lemma OpenLogFS_written:
  assumes "holds_log fsys p c names segs torn"
  obtains l where "OpenLogFS fsys p = Inr l" "lg_fsys l = fsys" "lg_ctl l = c" "lg_hasCtl l" "\<not> lg_iterated l"
    "lg_list l = \<lparr>sl_segs = map (entry p) segs, sl_unfinished = [], sl_leftovers = [], sl_start = 0\<rparr>"
    "lg_tailErr l = None" "lg_end l = ctl_OldestRetainedPos c" "lg_lastFramePos l = - 1"
proof -
  have "readControl fsys p = Inr (Some c)"
    using assms by (simp add: readControl_def holds_log_def decode_control_file)
  then show thesis
    using that listSegments_written [OF assms] by (simp add: OpenLogFS_def Let_def)
qed

lemma Log_Frames_written:
  assumes "holds_log fsys p c names segs torn" and torn: "torn = [] \<or> Decode torn = Inl ErrTornFrame"
  obtains l l' where "OpenLogFS fsys p = Inr l" "lg_ctl l = c"
    "Log_Frames collect_frame l [] = (l', concat (map snd segs))"
    "lg_tailErr l' = (if torn = [] then None else Some ErrTornFrame)"
    "unat (lg_end l') = unat (ctl_OldestRetainedPos c) + log_size (concat (map snd segs))"
proof -
  note h = holds_log_segs [OF assms(1)]
  let ?fs = "concat (map snd segs)" and ?o = "ctl_OldestRetainedPos c"
  obtain l where l: "OpenLogFS fsys p = Inr l" "lg_fsys l = fsys" "lg_ctl l = c" "lg_hasCtl l" "\<not> lg_iterated l"
    "lg_list l = \<lparr>sl_segs = map (entry p) segs, sl_unfinished = [], sl_leftovers = [], sl_start = 0\<rparr>"
    "lg_tailErr l = None" "lg_end l = ?o" "lg_lastFramePos l = - 1"
    using assms(1) by (rule OpenLogFS_written)
  let ?st = "\<lparr>st_log = l\<lparr>lg_iterated := True\<rparr>, st_expected = - 1, st_passedOR = False, st_acc = []\<rparr> :: Frame list stream"
  have "prevLinkMatches f (ctl_PrevFramePosAtOR c)" if "Pos f = ?o" "unat (PrevLen f) = unat (PrevLen (hd ?fs))" for f
  proof -
    have "Pos (hd ?fs) = ?o" using h(2,4) by (cases ?fs) auto
    moreover have "PrevLen f = PrevLen (hd ?fs)" using that(2) by (simp add: word_unat_eq_iff)
    ultimately have "prevLinkMatches f q = prevLinkMatches (hd ?fs) q" for q
      using that(1) by (intro prevLinkMatches_cong) simp_all
    then show ?thesis using assms(1) by (simp add: holds_log_def)
  qed
  then have ready: "ready c fsys ?o (unat (PrevLen (hd ?fs))) [] ?st"
    using l h(5) by (simp add: ready_def)
  have "framed (entry p s)" if "s \<in> set segs" for s
  proof -
    have "snd s \<noteq> []" using that h(3) by (induction segs) auto
    then have "hd (snd s) \<in> set ?fs" using that by (auto intro!: bexI [of _ s])
    then show ?thesis using chained_pos [OF h(4,5)] unfolding framed_def sint_nonneg_u64 by (simp add: entry_def)
  qed
  then have lastF: "last_framed 0 (map (entry p) segs) None = Some (0 + length segs - 1)"
    using last_framed_all [of "map (entry p) segs"] h(1) by simp
  obtain st' prev' where run:
    "segments_loop collect_frame ?o (last_framed 0 (map (entry p) segs) None) 0 (map (entry p) segs) ?st =
       (if torn = [] then st' else stream_fail ErrTornFrame st', torn = [])"
    and r: "ready c fsys (?o + of_nat (log_size ?fs)) prev' ([] @ ?fs) st'"
    using segments_loop_written [OF h(3,1,4,5) ready lastF torn] by blast
  have u: "unat (?o + of_nat (log_size ?fs)) = unat ?o + log_size ?fs"
    using h(5) by (simp add: unat_word_ariths unat_of_nat)
  have nonneg: "0 \<le> sint (st_expected st')" "0 \<le> sint (lg_lastFramePos (st_log st'))" "st_passedOR st'"
    using r h(2) unfolding sint_nonneg_u64 ready_def by auto
  define l' where "l' = (if torn = [] then st_log st' else st_log (stream_fail ErrTornFrame st'))"
  show thesis
  proof (rule that [OF l(1,3)])
    have "streamSegments collect_frame (l\<lparr>lg_iterated := True\<rparr>) [] = (l', ?fs)"
      using run r nonneg l by (auto simp: streamSegments_def Let_def ready_def l'_def stream_fail_def)
    moreover have "\<not> sint (lg_lastFramePos l') < 0"
      using nonneg(2) by (simp add: l'_def stream_fail_def)
    ultimately show "Log_Frames collect_frame l [] = (l', ?fs)"
      using l(4,5) by (simp add: Log_Frames_def)
    show "lg_tailErr l' = (if torn = [] then None else Some ErrTornFrame)"
      using r by (simp add: l'_def stream_fail_def ready_def)
    show "unat (lg_end l') = unat ?o + log_size ?fs"
      using r u by (simp add: l'_def stream_fail_def ready_def)
  qed
qed

subsection \<open>Properties\<close>

text \<open>
  Property C9. Whatever the segment files hold, the frames \<open>Log.Frames\<close> yields carry the control
  file's store id and form one chain: each starts where its predecessor ends and links back to it.
  The reported tail is the end of the last of them, and a clean end is only reported when the chain
  has a frame at the oldest retained position, linking to the recorded predecessor, or ends exactly
  there. (Frame positions are \<open>int64\<close>s in the source; the hypothesis bounds them.)
\<close>

theorem wal_log_yields_one_chain:
  assumes "OpenLogFS fsys p = Inr l" and "Log_Frames collect_frame l [] = (l', fs)"
    and "\<forall>f \<in> set fs. unat (Pos f) + FrameSize f < 2 ^ 63"
  shows "(\<forall>f \<in> set fs. FVersion f = CurrentVersion \<and> StoreID f = ctl_StoreID (lg_ctl l))
    \<and> successively (\<lambda>f g. unat (Pos g) = unat (Pos f) + FrameSize f \<and> unat (PrevLen g) = FrameSize f) fs
    \<and> (fs \<noteq> [] \<longrightarrow> unat (lg_end l') = unat (Pos (last fs)) + FrameSize (last fs) \<and> lg_lastFramePos l' = Pos (last fs))
    \<and> (fs = [] \<longrightarrow> lg_end l' = ctl_OldestRetainedPos (lg_ctl l))
    \<and> (fs \<noteq> [] \<and> lg_tailErr l' = None \<longrightarrow> lg_end l' = ctl_OldestRetainedPos (lg_ctl l)
        \<or> (\<exists>f \<in> set fs. Pos f = ctl_OldestRetainedPos (lg_ctl l) \<and> prevLinkMatches f (ctl_PrevFramePosAtOR (lg_ctl l))))"
  using assms(1,2)
proof (cases rule: Log_Frames_chain)
  case idle
  then show ?thesis by simp
next
  case (stream st go)
  have ranged: "in_range f" if "f \<in> set fs" for f using assms(3) that by (simp add: in_range_def)
  have "successively (\<lambda>f g. unat (Pos g) = unat (Pos f) + FrameSize f \<and> unat (PrevLen g) = FrameSize f) fs"
    using stream(1,2) ranged follows_nat by (auto simp: chain_inv_def intro: successively_mono_on)
  moreover have tail: "fs \<noteq> [] \<longrightarrow> st_expected st = Pos (last fs) + of_nat (FrameSize (last fs))
      \<and> lg_lastFramePos (st_log st) = Pos (last fs)
      \<and> 0 \<le> sint (st_expected st) \<and> 0 \<le> sint (Pos (last fs))
      \<and> unat (st_expected st) = unat (Pos (last fs)) + FrameSize (last fs)"
    using stream(1,2) in_range_sint [OF ranged, of "last fs"] by (auto simp: chain_inv_def)
  moreover have "\<forall>f \<in> set fs. FVersion f = CurrentVersion \<and> StoreID f = ctl_StoreID (lg_ctl l)"
    using stream(1,2) by (simp add: chain_inv_def)
  moreover have "st_passedOR st \<longrightarrow>
      (\<exists>f \<in> set fs. Pos f = ctl_OldestRetainedPos (lg_ctl l) \<and> prevLinkMatches f (ctl_PrevFramePosAtOR (lg_ctl l)))"
    using stream(1,2) by (simp add: chain_inv_def)
  ultimately show ?thesis using stream(4,5) by auto
qed


text \<open>A directory with two segments, the second ending in an unfinished write.\<close>

definition demo_frame :: "byte \<Rightarrow> u64 \<Rightarrow> u32 \<Rightarrow> Frame" where
  "demo_frame b pos prev = \<lparr>Payload = [b], Pos = pos, StoreID = 5, PrevLen = prev, FVersion = CurrentVersion\<rparr>"

definition demo_control :: Control where
  "demo_control = zeroControl\<lparr>ctl_StoreID := 5, ctl_PrevFramePosAtOR := NoFramePos\<rparr>"

definition demo_fs :: "bytes \<Rightarrow> LogFS" where
  "demo_fs torn = \<lparr>
     fs_Open = (\<lambda>path.
       if path = ControlPath ''w'' then Inr (encodeControl demo_control)
       else if path = SegmentPath ''w'' 1 then Inr (encodeSegmentHeader 5 1 @ encodeV2 [7] 0 0 5)
       else if path = SegmentPath ''w'' 2 then Inr (encodeSegmentHeader 5 2 @ encodeV2 [8] 37 37 5 @ torn)
       else Inl ErrNotExist),
     fs_ReadDir = (\<lambda>dir. Inr [segmentName 2, ''lock'', segmentName 1])\<rparr>"

lemma parse_lock: "parseSegmentName ''lock'' = None"
  by (simp add: parseSegmentName_def)

lemma demo_holds_log:
  "holds_log (demo_fs torn) ''w'' demo_control [segmentName 2, ''lock'', segmentName 1]
     [(1, [demo_frame 7 0 0]), (2, [demo_frame 8 37 37])] torn"
proof -
  have size: "FrameSize (demo_frame b p q) = 37" for b p q
    by (simp add: FrameSize_def demo_frame_def HeaderSizeV2_def)
  have enc: "encode_log [demo_frame b p q] = Inr (encodeV2 [b] p q 5)" for b p q
    by (simp add: demo_frame_def Encode_def maxFrameSize_def CurrentVersion_def LegacyVersion_def)
  have paths: "SegmentPath ''w'' n \<noteq> ControlPath ''w''" "SegmentPath ''w'' n = SegmentPath ''w'' m \<longleftrightarrow> n = m" for n m
    by (simp_all add: SegmentPath_def ControlPath_def SegmentDir_def)
  have files: "segment_files (demo_fs torn) ''w'' 5 [(1, [demo_frame 7 0 0]), (2, [demo_frame 8 37 37])] torn"
    using enc [of 7 0 0] enc [of 8 37 37] by (simp add: demo_fs_def paths del: encode_log.simps)
  have nums: "segment_numbers [segmentName 2, ''lock'', segmentName 1] = [1, 2]"
    by (simp add: segment_numbers_def List.map_filter_simps parse_lock word_le_nat_alt)
  show ?thesis
    unfolding holds_log_def using files nums
    by (simp add: demo_control_def zeroControl_def log_size_def size,
        simp add: demo_fs_def demo_control_def zeroControl_def demo_frame_def prevLinkMatches_def)
qed

theorem wal_log_yields_one_chain_witness:
  "\<exists>l l' fs. OpenLogFS (demo_fs []) ''w'' = Inr l \<and> Log_Frames collect_frame l [] = (l', fs) \<and> length fs = 2
     \<and> successively (\<lambda>f g. unat (Pos g) = unat (Pos f) + FrameSize f \<and> unat (PrevLen g) = FrameSize f) fs"
proof -
  let ?fs = "[demo_frame 7 0 0, demo_frame 8 37 37]"
  obtain l l' where l: "OpenLogFS (demo_fs []) ''w'' = Inr l" "Log_Frames collect_frame l [] = (l', ?fs)"
    using demo_holds_log [of "[]"] by (rule Log_Frames_written) auto
  have "\<forall>f \<in> set ?fs. unat (Pos f) + FrameSize f < 2 ^ 63"
    by (simp add: demo_frame_def FrameSize_def HeaderSizeV2_def)
  from wal_log_yields_one_chain [OF l this] l show ?thesis
    by (intro exI [of _ l] exI [of _ l'] exI [of _ ?fs]) simp
qed

text \<open>
  Property C21. A written log is read back whole: from a directory whose consecutive segments hold one
  chain of frames from the oldest retained position, \<open>OpenLogFS\<close> and \<open>Log.Frames\<close> yield exactly those
  frames in order, end at their end, and report no error; bytes of an unfinished write behind the last
  frame only add the benign \<open>ErrTornFrame\<close>.
\<close>

theorem wal_log_reads_back:
  assumes "holds_log fsys p c names segs torn"
    and "torn = [] \<or> Decode torn = Inl ErrTornFrame"
  shows "\<exists>l l'. OpenLogFS fsys p = Inr l \<and> lg_ctl l = c
    \<and> Log_Frames collect_frame l [] = (l', concat (map snd segs))
    \<and> lg_tailErr l' = (if torn = [] then None else Some ErrTornFrame)
    \<and> unat (lg_end l') = unat (ctl_OldestRetainedPos c) + log_size (concat (map snd segs))"
  using assms by (rule Log_Frames_written) blast

theorem wal_log_reads_back_witness:
  "\<exists>l l'. OpenLogFS (demo_fs [0x47]) ''w'' = Inr l
    \<and> Log_Frames collect_frame l [] = (l', [demo_frame 7 0 0, demo_frame 8 37 37])
    \<and> lg_tailErr l' = Some ErrTornFrame"
proof -
  have "[0x47] = [] \<or> Decode [0x47] = Inl ErrTornFrame"
    by (simp add: Decode_def read_full_def HeaderSize_def)
  from wal_log_reads_back [OF demo_holds_log this] show ?thesis by auto
qed

end
