(* ===== verification/Txn_Codec.thy ===== *)
theory Txn_Codec
  imports Varint
begin

text \<open>
  The node-identifier and edge-weight codecs of \<open>store/txn/codec.go\<close> and \<open>weight_codec.go\<close>. The
  contract of the interfaces \<open>Codec\<close> and \<open>WeightCodec\<close> is the locale \<open>codec\<close>; every built-in
  codec interprets it, and what holds of any sequence of encoded values is proved once in it.
  A Go \<open>string\<close> is its bytes, a signed integer a word read by \<open>sint\<close>, a \<open>float64\<close> its IEEE bits.
\<close>

datatype codec_error = ErrCodecDecode | ErrKeyTooLarge | ErrMarshal

subsection \<open>The codecs\<close>

text \<open>The shared layout of a length-prefixed body.\<close>

definition string_Encode :: "bytes \<Rightarrow> bytes \<Rightarrow> (codec_error, bytes) result" where
  "string_Encode buf v =
     (if length v > 2 ^ 32 - 1 then Inl ErrKeyTooLarge
      else Inr (buf @ put_le32 (of_nat (length v)) @ v))"

definition string_Decode :: "bytes \<Rightarrow> (codec_error, bytes \<times> bytes) result" where
  "string_Decode buf =
     (if length buf < 4 then Inl ErrCodecDecode
      else let n = unat (get_le32 buf); rest = drop 4 buf
           in if length rest < n then Inl ErrCodecDecode else Inr (take n rest, drop n rest))"

definition int_Encode :: "bytes \<Rightarrow> u64 \<Rightarrow> (codec_error, bytes) result" where
  "int_Encode buf v = Inr (AppendVarint buf v)"

text \<open>\<open>int\<close> is 64 bits wide, so the range test of its \<open>Decode\<close> compares with the \<open>int64\<close> bounds.\<close>

definition int_Decode :: "bytes \<Rightarrow> (codec_error, u64 \<times> bytes) result" where
  "int_Decode buf =
     (case Varint buf of (x, n) \<Rightarrow>
        if n \<le> 0 then Inl ErrCodecDecode
        else if sint x > 2 ^ 63 - 1 \<or> sint x < - (2 ^ 63) then Inl ErrCodecDecode
        else Inr (x, drop (nat n) buf))"

definition int32_Encode :: "bytes \<Rightarrow> u32 \<Rightarrow> (codec_error, bytes) result" where
  "int32_Encode buf v = Inr (AppendVarint buf (word_of_int (sint v)))"

definition int32_Decode :: "bytes \<Rightarrow> (codec_error, u32 \<times> bytes) result" where
  "int32_Decode buf =
     (case Varint buf of (x, n) \<Rightarrow>
        if n \<le> 0 then Inl ErrCodecDecode
        else if sint x > 2 ^ 31 - 1 \<or> sint x < - (2 ^ 31) then Inl ErrCodecDecode
        else Inr (word_of_int (sint x), drop (nat n) buf))"

definition int64_Encode :: "bytes \<Rightarrow> u64 \<Rightarrow> (codec_error, bytes) result" where
  "int64_Encode buf v = Inr (AppendVarint buf v)"

definition int64_Decode :: "bytes \<Rightarrow> (codec_error, u64 \<times> bytes) result" where
  "int64_Decode buf =
     (case Varint buf of (x, n) \<Rightarrow>
        if n \<le> 0 then Inl ErrCodecDecode else Inr (x, drop (nat n) buf))"

definition uint64_Encode :: "bytes \<Rightarrow> u64 \<Rightarrow> (codec_error, bytes) result" where
  "uint64_Encode buf v = Inr (AppendUvarint buf v)"

definition uint64_Decode :: "bytes \<Rightarrow> (codec_error, u64 \<times> bytes) result" where
  "uint64_Decode buf =
     (case Uvarint buf of (x, n) \<Rightarrow>
        if n \<le> 0 then Inl ErrCodecDecode else Inr (x, drop (nat n) buf))"

definition uuid_Encode :: "bytes \<Rightarrow> bytes \<Rightarrow> (codec_error, bytes) result" where
  "uuid_Encode buf v = Inr (buf @ v)"

definition uuid_Decode :: "bytes \<Rightarrow> (codec_error, bytes \<times> bytes) result" where
  "uuid_Decode buf =
     (if length buf < 16 then Inl ErrCodecDecode else Inr (take 16 buf, drop 16 buf))"

definition float64_Encode :: "bytes \<Rightarrow> u64 \<Rightarrow> (codec_error, bytes) result" where
  "float64_Encode buf w = Inr (buf @ put_le64 w)"

definition float64_Decode :: "bytes \<Rightarrow> (codec_error, u64 \<times> bytes) result" where
  "float64_Decode buf =
     (if length buf < 8 then Inl ErrCodecDecode else Inr (get_le64 buf, drop 8 buf))"

text \<open>The codecs over a caller's own \<open>MarshalBinary\<close> and \<open>UnmarshalBinary\<close>.\<close>

definition marshaler_Encode ::
  "('v \<Rightarrow> bytes option) \<Rightarrow> bytes \<Rightarrow> 'v \<Rightarrow> (codec_error, bytes) result" where
  "marshaler_Encode marshal buf v =
     (case marshal v of
        None \<Rightarrow> Inl ErrMarshal
      | Some data \<Rightarrow>
          if length data > 2 ^ 32 - 1 then Inl ErrKeyTooLarge
          else Inr (buf @ put_le32 (of_nat (length data)) @ data))"

definition marshaler_Decode ::
  "(bytes \<Rightarrow> 'v option) \<Rightarrow> bytes \<Rightarrow> (codec_error, 'v \<times> bytes) result" where
  "marshaler_Decode unmarshal buf =
     (if length buf < 4 then Inl ErrCodecDecode
      else let n = unat (get_le32 buf); rest = drop 4 buf
           in if length rest < n then Inl ErrCodecDecode
              else case unmarshal (take n rest) of
                None \<Rightarrow> Inl ErrCodecDecode
              | Some v \<Rightarrow> Inr (v, drop n rest))"

subsection \<open>The contract of a codec\<close>

text \<open>Appending several values and reading them back, as the op records do.\<close>

fun encode_all :: "(bytes \<Rightarrow> 'v \<Rightarrow> (codec_error, bytes) result) \<Rightarrow> bytes \<Rightarrow> 'v list \<Rightarrow> (codec_error, bytes) result" where
  "encode_all enc buf [] = Inr buf"
| "encode_all enc buf (v # vs) = result_bind (enc buf v) (\<lambda>buf1. encode_all enc buf1 vs)"

fun decode_n :: "(bytes \<Rightarrow> (codec_error, 'v \<times> bytes) result) \<Rightarrow> nat \<Rightarrow> bytes \<Rightarrow> (codec_error, 'v list \<times> bytes) result" where
  "decode_n dec 0 buf = Inr ([], buf)"
| "decode_n dec (Suc n) buf =
     result_bind (dec buf) (\<lambda>(v, rest). result_bind (decode_n dec n rest) (\<lambda>(vs, rest'). Inr (v # vs, rest')))"

locale codec =
  fixes enc :: "bytes \<Rightarrow> 'v \<Rightarrow> (codec_error, bytes) result"
    and dec :: "bytes \<Rightarrow> (codec_error, 'v \<times> bytes) result"
    and valid :: "'v \<Rightarrow> bool"
  assumes enc_appends: "enc buf v = Inr out \<Longrightarrow> \<exists>bs. out = buf @ bs \<and> (\<forall>b. enc b v = Inr (b @ bs))"
    and dec_enc: "valid v \<Longrightarrow> enc [] v = Inr bs \<Longrightarrow> dec (bs @ rest) = Inr (v, rest)"
    and dec_suffix: "dec buf = Inr (v, rest) \<Longrightarrow> \<exists>pre. buf = pre @ rest"
begin

lemma prefix_free:
  assumes "valid v" "valid w" "enc [] v = Inr bs" "enc [] w = Inr cs" "bs @ r = cs @ s"
  shows "v = w \<and> r = s"
  using dec_enc [OF assms(1,3), of r] dec_enc [OF assms(2,4), of s] assms(5) by simp

lemma decode_encode_all:
  assumes "\<forall>v\<in>set vs. valid v" and "encode_all enc buf vs = Inr out"
  shows "\<exists>bs. out = buf @ bs \<and> decode_n dec (length vs) (bs @ rest) = Inr (vs, rest)"
  using assms
proof (induction vs arbitrary: buf)
  case Nil
  then show ?case by simp
next
  case (Cons v vs)
  then obtain b1 where b1: "enc buf v = Inr b1" "encode_all enc b1 vs = Inr out"
    by (auto simp: result_bind_eq_Inr_iff)
  obtain c where c: "b1 = buf @ c" "enc [] v = Inr c"
    using enc_appends [OF b1(1)] by auto
  obtain d where d: "out = b1 @ d" "decode_n dec (length vs) (d @ rest) = Inr (vs, rest)"
    using Cons.IH [OF _ b1(2)] Cons.prems(1) by auto
  have "dec (c @ d @ rest) = Inr (v, d @ rest)"
    using dec_enc [OF _ c(2)] Cons.prems(1) by simp
  with c(1) d show ?case by (intro exI [of _ "c @ d"]) simp
qed

lemma decode_n_suffix: "decode_n dec n buf = Inr (vs, rest) \<Longrightarrow> length vs = n \<and> (\<exists>pre. buf = pre @ rest)"
proof (induction n arbitrary: buf vs rest)
  case (Suc n)
  then obtain v r1 vs' where d: "dec buf = Inr (v, r1)" "decode_n dec n r1 = Inr (vs', rest)" "vs = v # vs'"
    by (auto simp: result_bind_eq_Inr_iff)
  from dec_suffix [OF d(1)] Suc.IH [OF d(2)] d(3) show ?case by (metis append.assoc length_Cons)
qed simp

end

subsection \<open>The built-in codecs satisfy it\<close>

lemma unat_len32: "length v \<le> 2 ^ 32 - 1 \<Longrightarrow> unat (of_nat (length v) :: u32) = length v"
  by (simp add: unat_of_nat)

interpretation string_codec: codec string_Encode string_Decode "\<lambda>_. True"
proof unfold_locales
  fix v bs rest
  assume "string_Encode [] v = Inr bs"
  then have "bs = put_le32 (of_nat (length v)) @ v" "length v \<le> 2 ^ 32 - 1"
    by (auto simp: string_Encode_def split: if_splits)
  then show "string_Decode (bs @ rest) = Inr (v, rest)"
    using unat_len32 [of v] by (simp add: string_Decode_def Let_def)
next
  fix buf v rest
  assume "string_Decode buf = Inr (v, rest)"
  then have "rest = drop (4 + unat (get_le32 buf)) buf"
    by (auto simp: string_Decode_def Let_def add.commute split: if_splits)
  then show "\<exists>pre. buf = pre @ rest" by (metis append_take_drop_id)
qed (auto simp: string_Encode_def split: if_splits)

lemma drop_suffix: "\<exists>pre. buf = pre @ drop n buf"
  by (metis append_take_drop_id)

lemma varint_codec_simps:
  "Varint (uvarint_bytes (unat (zigzag v)) @ rest) = (v, int (length (uvarint_bytes (unat (zigzag v)))))"
  "Uvarint (uvarint_bytes (unat v) @ rest) = (v, int (length (uvarint_bytes (unat v))))"
  by (simp_all add: Varint_append Uvarint_append)

lemma sint64_range [simp]:
  "\<not> 9223372036854775807 < sint (x :: u64)" "\<not> sint x < - 9223372036854775808"
  using sint_lt [of x] sint_ge [of x] by simp_all

lemma sint32_range: "- 2147483648 \<le> sint (x :: u32)" "sint x \<le> 2147483647"
  using sint_lt [of x] sint_ge [of x] by simp_all

interpretation int_codec: codec int_Encode int_Decode "\<lambda>_. True"
  by unfold_locales
    (auto simp: int_Encode_def int_Decode_def AppendVarint_def AppendUvarint_def varint_codec_simps
      drop_suffix split: prod.splits if_splits)

interpretation int64_codec: codec int64_Encode int64_Decode "\<lambda>_. True"
  by unfold_locales
    (auto simp: int64_Encode_def int64_Decode_def AppendVarint_def AppendUvarint_def varint_codec_simps
      drop_suffix split: prod.splits if_splits)

interpretation uint64_codec: codec uint64_Encode uint64_Decode "\<lambda>_. True"
  by unfold_locales
    (auto simp: uint64_Encode_def uint64_Decode_def AppendUvarint_def varint_codec_simps
      drop_suffix split: prod.splits if_splits)

interpretation uuid_codec: codec uuid_Encode uuid_Decode "\<lambda>v. length v = 16"
  by unfold_locales
    (auto simp: uuid_Encode_def uuid_Decode_def drop_suffix split: if_splits)

interpretation float64_codec: codec float64_Encode float64_Decode "\<lambda>_. True"
  by unfold_locales
    (auto simp: float64_Encode_def float64_Decode_def drop_suffix split: if_splits)

lemma sint_scast32: "sint (scast (v :: u32) :: u64) = sint v"
proof -
  have "sint (word_of_int (sint v) :: u64) = signed_take_bit 63 (sint v)"
    by (subst signed_of_int) simp
  also have "\<dots> = sint v"
    using sint32_range [of v] by (intro signed_take_bit_int_eq_self) simp_all
  finally show ?thesis by simp
qed

lemma scast_scast32: "(scast (scast (v :: u32) :: u64) :: u32) = v"
proof -
  have "(scast (scast v :: u64) :: u32) = word_of_int (sint (scast v :: u64))" by simp
  then show ?thesis unfolding sint_scast32 by simp
qed

interpretation int32_codec: codec int32_Encode int32_Decode "\<lambda>_. True"
proof unfold_locales
  fix v bs rest
  assume "int32_Encode [] v = Inr bs"
  then have "bs = uvarint_bytes (unat (zigzag (word_of_int (sint v))))"
    by (simp add: int32_Encode_def AppendVarint_def AppendUvarint_def)
  then show "int32_Decode (bs @ rest) = Inr (v, rest)"
    using sint32_range [of v] by (simp add: int32_Decode_def varint_codec_simps sint_scast32 scast_scast32)
qed (auto simp: int32_Encode_def int32_Decode_def AppendVarint_def AppendUvarint_def drop_suffix
    split: prod.splits if_splits)

subsection \<open>Properties\<close>

text \<open>
  Every built-in codec reads back any sequence of values it wrote after what was
  already in the buffer, leaving exactly the bytes behind them, so op records that concatenate
  encoded identifiers and weights are parsed unambiguously.
\<close>

theorem txn_codecs_round_trip:
  "(\<forall>vs out. encode_all string_Encode buf vs = Inr out \<longrightarrow>
      decode_n string_Decode (length vs) (drop (length buf) out @ rest) = Inr (vs, rest)) \<and>
   (\<forall>vs out. encode_all int_Encode buf vs = Inr out \<longrightarrow>
      decode_n int_Decode (length vs) (drop (length buf) out @ rest) = Inr (vs, rest)) \<and>
   (\<forall>vs out. encode_all int32_Encode buf vs = Inr out \<longrightarrow>
      decode_n int32_Decode (length vs) (drop (length buf) out @ rest) = Inr (vs, rest)) \<and>
   (\<forall>vs out. encode_all int64_Encode buf vs = Inr out \<longrightarrow>
      decode_n int64_Decode (length vs) (drop (length buf) out @ rest) = Inr (vs, rest)) \<and>
   (\<forall>vs out. encode_all uint64_Encode buf vs = Inr out \<longrightarrow>
      decode_n uint64_Decode (length vs) (drop (length buf) out @ rest) = Inr (vs, rest)) \<and>
   (\<forall>vs out. (\<forall>v\<in>set vs. length v = 16) \<and> encode_all uuid_Encode buf vs = Inr out \<longrightarrow>
      decode_n uuid_Decode (length vs) (drop (length buf) out @ rest) = Inr (vs, rest)) \<and>
   (\<forall>vs out. encode_all float64_Encode buf vs = Inr out \<longrightarrow>
      decode_n float64_Decode (length vs) (drop (length buf) out @ rest) = Inr (vs, rest))"
  by (intro conjI allI impI)
    (auto dest!: string_codec.decode_encode_all [rotated] int_codec.decode_encode_all [rotated]
      int32_codec.decode_encode_all [rotated] int64_codec.decode_encode_all [rotated]
      uint64_codec.decode_encode_all [rotated] uuid_codec.decode_encode_all [rotated]
      float64_codec.decode_encode_all [rotated])

theorem txn_codecs_round_trip_witness:
  "decode_n string_Decode 2 (put_le32 1 @ [7] @ put_le32 2 @ [8, 9] @ [0xAA]) = Inr ([[7], [8, 9]], [0xAA])"
proof -
  have enc: "encode_all string_Encode [] [[7], [8, 9]] = Inr (put_le32 1 @ [7] @ put_le32 2 @ [8, 9])"
    by (simp add: string_Encode_def)
  from conjunct1 [OF txn_codecs_round_trip [of "[]" "[0xAA]"], rule_format, OF enc]
  show ?thesis by (simp add: numeral_2_eq_2 del: decode_n.simps)
qed

text \<open>
  A caller's own key type whose \<open>UnmarshalBinary\<close> inverts its \<open>MarshalBinary\<close> is read
  back exactly, and every strict prefix of its encoding is refused rather than read as
  another value.
\<close>

theorem txn_marshaler_codec:
  assumes unmarshal_inverts: "\<And>d. marshal v = Some d \<Longrightarrow> unmarshal d = Some v"
    and "marshaler_Encode marshal [] v = Inr bs"
  shows "marshaler_Decode unmarshal (bs @ rest) = Inr (v, rest) \<and>
    (\<forall>n<length bs. marshaler_Decode unmarshal (take n bs) = Inl ErrCodecDecode)"
proof -
  obtain d where d: "marshal v = Some d" "length d \<le> 2 ^ 32 - 1" "bs = put_le32 (of_nat (length d)) @ d"
    using assms(2) by (auto simp: marshaler_Encode_def split: option.splits if_splits)
  have len: "unat (of_nat (length d) :: u32) = length d" using d(2) by (rule unat_len32)
  have "marshaler_Decode unmarshal (take n bs) = Inl ErrCodecDecode" if n: "n < length bs" for n
  proof (cases "n < 4")
    case True
    then show ?thesis using n by (simp add: marshaler_Decode_def d(3))
  next
    case False
    then have t: "take n bs = put_le32 (of_nat (length d)) @ take (n - 4) d" by (simp add: d(3))
    have "n - 4 < length d" using n False by (simp add: d(3))
    then show ?thesis unfolding t using len by (simp add: marshaler_Decode_def Let_def)
  qed
  moreover have "marshaler_Decode unmarshal (bs @ rest) = Inr (v, rest)"
    using unmarshal_inverts [OF d(1)] len by (simp add: marshaler_Decode_def Let_def d(3))
  ultimately show ?thesis by blast
qed

theorem txn_marshaler_codec_witness:
  "marshaler_Decode (\<lambda>d. if d = [1] then Some True else if d = [0] then Some False else None)
     (put_le32 1 @ [1] @ [9]) = Inr (True, [9])"
  using conjunct1 [OF txn_marshaler_codec [of "\<lambda>b. Some (if b then [1] else [0])" True
      "\<lambda>d. if d = [1] then Some True else if d = [0] then Some False else None" "put_le32 1 @ [1]" "[9]"]]
  by (simp add: marshaler_Encode_def)

end
