(* ===== verification/Txn_Values.thy ===== *)
theory Txn_Values
  imports Txn_Codec
begin

text \<open>
  Property values in op records: the tagged union of \<open>graph/lpg/property.go\<close>, the encoder of
  \<open>store/txn/txn.go\<close> with the refusals that keep a value writable by both durable formats, and the
  decoder recovery runs (\<open>store/recovery/recovery.go\<close>). A Go \<open>string\<close> is its bytes, an \<open>int64\<close> a
  word read by \<open>sint\<close>, a \<open>float64\<close> its IEEE bits, and a \<open>time.Time\<close> its instant as seconds and
  nanoseconds; the location of a time, which no format stores, is left out.
\<close>

datatype txn_error =
    ErrTxFinished | ErrNoWeightCodec | ErrValidator
  | ErrTokenTooLong | ErrValueTooLong | ErrNestedPropertyList | ErrCodec codec_error
  | ErrTxnFrameTooLarge

subsection \<open>Values\<close>

text \<open>Seconds since the Unix epoch and nanoseconds within the second, below \<open>10 ^ 9\<close>.\<close>

record go_time =
  unixSec :: int
  nsec :: nat

definition UnixNano :: "go_time \<Rightarrow> u64" where
  "UnixNano t = word_of_int (unixSec t * 10 ^ 9 + int (nsec t))"

text \<open>\<open>time.Unix(0, ns)\<close>, which carries the nanoseconds into the seconds rounding down.\<close>

definition time_Unix :: "u64 \<Rightarrow> go_time" where
  "time_Unix ns = \<lparr> unixSec = sint ns div 10 ^ 9, nsec = nat (sint ns mod 10 ^ 9) \<rparr>"

text \<open>\<open>PropInvalid\<close> is the zero \<open>PropertyValue{}\<close>, whose kind is 0.\<close>

datatype PropertyValue =
    PropInvalid
  | PropString bytes
  | PropInt64 u64
  | PropFloat64 u64
  | PropBool bool
  | PropTime go_time
  | PropBytes bytes
  | PropList "PropertyValue list"

fun prop_Kind :: "PropertyValue \<Rightarrow> byte" where
  "prop_Kind PropInvalid = 0"
| "prop_Kind (PropString s) = 1"
| "prop_Kind (PropInt64 i) = 2"
| "prop_Kind (PropFloat64 f) = 3"
| "prop_Kind (PropBool b) = 4"
| "prop_Kind (PropTime t) = 5"
| "prop_Kind (PropBytes bs) = 6"
| "prop_Kind (PropList es) = 7"

subsection \<open>Refusals\<close>

definition maxWALSchemaStringLen :: nat where "maxWALSchemaStringLen = 65535"
definition maxWALValueLen :: nat where "maxWALValueLen = 4294967295"
definition maxSnapshotValueLen :: int where "maxSnapshotValueLen = 1073741824"

definition checkWALSchemaString :: "bytes \<Rightarrow> (txn_error, unit) result" where
  "checkWALSchemaString s = (if length s > maxWALSchemaStringLen then Inl ErrTokenTooLong else Inr ())"

definition checkWALValueLen :: "nat \<Rightarrow> (txn_error, unit) result" where
  "checkWALValueLen n = (if n > maxWALValueLen then Inl ErrValueTooLong else Inr ())"

fun snapshotEncodedScalarLen :: "PropertyValue \<Rightarrow> int" where
  "snapshotEncodedScalarLen (PropString s) = int (length s)"
| "snapshotEncodedScalarLen (PropBytes bs) = int (length bs)"
| "snapshotEncodedScalarLen (PropInt64 i) = 8"
| "snapshotEncodedScalarLen (PropFloat64 f) = 8"
| "snapshotEncodedScalarLen (PropTime t) = 16"
| "snapshotEncodedScalarLen (PropBool b) = 1"
| "snapshotEncodedScalarLen v = 0"

fun snapshotEncodedValueLen :: "PropertyValue \<Rightarrow> int" where
  "snapshotEncodedValueLen (PropList es) = foldl (\<lambda>n e. n + (5 + snapshotEncodedScalarLen e)) 4 es"
| "snapshotEncodedValueLen v = snapshotEncodedScalarLen v"

definition checkSnapshotFoldableLen :: "int \<Rightarrow> (txn_error, unit) result" where
  "checkSnapshotFoldableLen n = (if n > maxSnapshotValueLen then Inl ErrValueTooLong else Inr ())"

fun checkFlatPropertyList :: "PropertyValue \<Rightarrow> (txn_error, unit) result" where
  "checkFlatPropertyList (PropList es) =
     (if list_ex (\<lambda>e. prop_Kind e = 7) es then Inl ErrNestedPropertyList else Inr ())"
| "checkFlatPropertyList v = Inr ()"

subsection \<open>Encoding\<close>

text \<open>The payload of a list element, without its kind and its length; a kind without an arm of the
  switch has none.\<close>

fun elem_payload :: "PropertyValue \<Rightarrow> bytes" where
  "elem_payload (PropString s) = s"
| "elem_payload (PropInt64 i) = AppendVarint [] i"
| "elem_payload (PropFloat64 f) = put_le64 f"
| "elem_payload (PropBool b) = (if b then [1] else [0])"
| "elem_payload (PropTime t) = AppendVarint [] (UnixNano t)"
| "elem_payload (PropBytes bs) = bs"
| "elem_payload v = []"

fun append_elems :: "bytes \<Rightarrow> PropertyValue list \<Rightarrow> (txn_error, bytes) result" where
  "append_elems buf [] = Inr buf"
| "append_elems buf (e # es) =
     (let payload = elem_payload e in
      result_bind (checkWALValueLen (length payload)) (\<lambda>_.
      append_elems (buf @ [prop_Kind e] @ put_le32 (of_nat (length payload)) @ payload) es))"

definition encodeTxnListProp :: "bytes \<Rightarrow> PropertyValue list \<Rightarrow> (txn_error, bytes) result" where
  "encodeTxnListProp buf es =
     result_bind (checkWALValueLen (length es)) (\<lambda>_.
     append_elems (buf @ put_le32 (of_nat (length es))) es)"

text \<open>The refusals that precede the first byte.\<close>

fun check_value :: "PropertyValue \<Rightarrow> (txn_error, unit) result" where
  "check_value (PropInt64 i) = Inr ()"
| "check_value (PropFloat64 f) = Inr ()"
| "check_value (PropBool b) = Inr ()"
| "check_value (PropTime t) = Inr ()"
| "check_value (PropList es) =
     result_bind (checkFlatPropertyList (PropList es)) (\<lambda>_.
     checkSnapshotFoldableLen (snapshotEncodedValueLen (PropList es)))"
| "check_value v = checkSnapshotFoldableLen (snapshotEncodedValueLen v)"

fun append_value :: "bytes \<Rightarrow> PropertyValue \<Rightarrow> (txn_error, bytes) result" where
  "append_value buf (PropString s) =
     result_bind (checkWALValueLen (length s)) (\<lambda>_. Inr (buf @ put_le32 (of_nat (length s)) @ s))"
| "append_value buf (PropInt64 i) = Inr (AppendVarint buf i)"
| "append_value buf (PropFloat64 f) = Inr (buf @ put_le64 f)"
| "append_value buf (PropBool b) = Inr (buf @ (if b then [1] else [0]))"
| "append_value buf (PropTime t) = Inr (AppendVarint buf (UnixNano t))"
| "append_value buf (PropBytes bs) =
     result_bind (checkWALValueLen (length bs)) (\<lambda>_. Inr (buf @ put_le32 (of_nat (length bs)) @ bs))"
| "append_value buf (PropList es) = encodeTxnListProp buf es"
| "append_value buf PropInvalid = Inr buf"

definition encodePropertyValue :: "bytes \<Rightarrow> PropertyValue \<Rightarrow> (txn_error, bytes) result" where
  "encodePropertyValue buf v =
     result_bind (check_value v) (\<lambda>_. append_value (buf @ [prop_Kind v]) v)"

subsection \<open>Decoding\<close>

datatype prop_error =
    MissingKind | UnknownKind | ShortElementCount | TruncatedElementHeader | TruncatedElementBody
  | ShortLength | ShortBody | ShortInt64 | ShortFloat64 | ShortBool | ShortTime

definition decodeRecoveryLengthPrefixed :: "bytes \<Rightarrow> (prop_error, bytes \<times> bytes) result" where
  "decodeRecoveryLengthPrefixed buf =
     (if length buf < 4 then Inl ShortLength
      else let n = unat (get_le32 buf); rest = drop 4 buf
           in if length rest < n then Inl ShortBody else Inr (take n rest, drop n rest))"

definition decodeRecoveryStringProp :: "bytes \<Rightarrow> (prop_error, PropertyValue \<times> bytes) result" where
  "decodeRecoveryStringProp buf =
     result_bind (decodeRecoveryLengthPrefixed buf) (\<lambda>(body, rest). Inr (PropString body, rest))"

definition decodeRecoveryBytesProp :: "bytes \<Rightarrow> (prop_error, PropertyValue \<times> bytes) result" where
  "decodeRecoveryBytesProp buf =
     result_bind (decodeRecoveryLengthPrefixed buf) (\<lambda>(body, rest). Inr (PropBytes body, rest))"

definition decodeRecoveryInt64Prop :: "bytes \<Rightarrow> (prop_error, PropertyValue \<times> bytes) result" where
  "decodeRecoveryInt64Prop buf =
     (case Varint buf of (x, n) \<Rightarrow>
        if n \<le> 0 then Inl ShortInt64 else Inr (PropInt64 x, drop (nat n) buf))"

definition decodeRecoveryFloat64Prop :: "bytes \<Rightarrow> (prop_error, PropertyValue \<times> bytes) result" where
  "decodeRecoveryFloat64Prop buf =
     (if length buf < 8 then Inl ShortFloat64 else Inr (PropFloat64 (get_le64 (take 8 buf)), drop 8 buf))"

definition decodeRecoveryBoolProp :: "bytes \<Rightarrow> (prop_error, PropertyValue \<times> bytes) result" where
  "decodeRecoveryBoolProp buf =
     (if length buf < 1 then Inl ShortBool else Inr (PropBool (buf ! 0 \<noteq> 0), drop 1 buf))"

definition decodeRecoveryTimeProp :: "bytes \<Rightarrow> (prop_error, PropertyValue \<times> bytes) result" where
  "decodeRecoveryTimeProp buf =
     (case Varint buf of (x, n) \<Rightarrow>
        if n \<le> 0 then Inl ShortTime else Inr (PropTime (time_Unix x), drop (nat n) buf))"

definition decodeRecoveryListElement :: "byte \<Rightarrow> bytes \<Rightarrow> (prop_error, PropertyValue) result" where
  "decodeRecoveryListElement kind payload =
     (if kind = 1 then Inr (PropString payload)
      else if kind = 2 then (case Varint payload of (i, n) \<Rightarrow> if n \<le> 0 then Inl ShortInt64 else Inr (PropInt64 i))
      else if kind = 3 then (if length payload < 8 then Inl ShortFloat64 else Inr (PropFloat64 (get_le64 payload)))
      else if kind = 4 then (if length payload < 1 then Inl ShortBool else Inr (PropBool (payload ! 0 \<noteq> 0)))
      else if kind = 5 then (case Varint payload of (i, n) \<Rightarrow> if n \<le> 0 then Inl ShortTime else Inr (PropTime (time_Unix i)))
      else if kind = 6 then Inr (PropBytes payload)
      else Inl UnknownKind)"

fun decode_elems :: "nat \<Rightarrow> bytes \<Rightarrow> (prop_error, PropertyValue list \<times> bytes) result" where
  "decode_elems 0 buf = Inr ([], buf)"
| "decode_elems (Suc n) buf =
     (if length buf < 5 then Inl TruncatedElementHeader
      else let payloadLen = unat (get_le32 (drop 1 buf)); rest = drop 5 buf in
        if length rest < payloadLen then Inl TruncatedElementBody
        else result_bind (decodeRecoveryListElement (buf ! 0) (take payloadLen rest)) (\<lambda>e.
             result_bind (decode_elems n (drop payloadLen rest)) (\<lambda>(es, r). Inr (e # es, r))))"

definition decodeRecoveryListProp :: "bytes \<Rightarrow> (prop_error, PropertyValue \<times> bytes) result" where
  "decodeRecoveryListProp buf =
     (if length buf < 4 then Inl ShortElementCount
      else result_bind (decode_elems (unat (get_le32 buf)) (drop 4 buf)) (\<lambda>(es, r). Inr (PropList es, r)))"

definition decodeRecoveryPropertyValue :: "bytes \<Rightarrow> (prop_error, PropertyValue \<times> bytes) result" where
  "decodeRecoveryPropertyValue b =
     (if length b < 1 then Inl MissingKind
      else let kind = b ! 0; buf = drop 1 b in
        if kind = 1 then decodeRecoveryStringProp buf
        else if kind = 2 then decodeRecoveryInt64Prop buf
        else if kind = 3 then decodeRecoveryFloat64Prop buf
        else if kind = 4 then decodeRecoveryBoolProp buf
        else if kind = 5 then decodeRecoveryTimeProp buf
        else if kind = 6 then decodeRecoveryBytesProp buf
        else if kind = 7 then decodeRecoveryListProp buf
        else Inl UnknownKind)"

text \<open>The capacity the list decoder reserves up front for an untrusted element count.\<close>

definition recoveryListCapHint :: "u32 \<Rightarrow> nat \<Rightarrow> nat" where
  "recoveryListCapHint count remaining =
     (let maxElems = remaining div 5;
          maxElems = (if unat count < maxElems then unat count else maxElems)
      in if maxElems > 4096 then 4096 else maxElems)"

subsection \<open>What the log can carry\<close>

text \<open>A time whose nanosecond count fits an \<open>int64\<close>, roughly the years 1678 to 2262.\<close>

definition nano_time :: "go_time \<Rightarrow> bool" where
  "nano_time t \<longleftrightarrow> nsec t < 10 ^ 9 \<and>
     - (2 ^ 63) \<le> unixSec t * 10 ^ 9 + int (nsec t) \<and> unixSec t * 10 ^ 9 + int (nsec t) < 2 ^ 63"

fun scalar_value :: "PropertyValue \<Rightarrow> bool" where
  "scalar_value PropInvalid = False"
| "scalar_value (PropTime t) = nano_time t"
| "scalar_value (PropList es) = False"
| "scalar_value v = True"

fun log_value :: "PropertyValue \<Rightarrow> bool" where
  "log_value (PropList es) = list_all scalar_value es"
| "log_value v = scalar_value v"

lemma time_Unix_UnixNano: "nano_time t \<Longrightarrow> time_Unix (UnixNano t) = t"
proof -
  assume t: "nano_time t"
  have s: "sint (word_of_int k :: u64) = k" if "- (2 ^ 63) \<le> k" "k < 2 ^ 63" for k
    using that by (subst signed_of_int) (simp add: signed_take_bit_int_eq_self)
  have "sint (UnixNano t) = unixSec t * 10 ^ 9 + int (nsec t)"
    using t unfolding UnixNano_def nano_time_def by (intro s) auto
  then show ?thesis using t by (simp add: time_Unix_def nano_time_def)
qed

lemma elem_round_trip:
  "scalar_value e \<Longrightarrow> decodeRecoveryListElement (prop_Kind e) (elem_payload e) = Inr e"
  using varint_codec_simps(1) [of _ "[]"]
  by (cases e) (auto simp: decodeRecoveryListElement_def AppendVarint_def AppendUvarint_def time_Unix_UnixNano)

lemma append_elems_round_trip:
  "append_elems buf es = Inr out \<Longrightarrow> list_all scalar_value es \<Longrightarrow>
     \<exists>bs. out = buf @ bs \<and> (\<forall>rest. decode_elems (length es) (bs @ rest) = Inr (es, rest))"
proof (induction es arbitrary: buf)
  case (Cons e es)
  let ?p = "elem_payload e"
  let ?h = "[prop_Kind e] @ put_le32 (of_nat (length ?p)) @ ?p"
  have p: "length ?p \<le> 2 ^ 32 - 1" "append_elems (buf @ ?h) es = Inr out"
    using Cons.prems(1)
    by (auto simp: checkWALValueLen_def maxWALValueLen_def Let_def split: if_splits)
  obtain bs where bs: "out = (buf @ ?h) @ bs" "\<And>rest. decode_elems (length es) (bs @ rest) = Inr (es, rest)"
    using Cons.IH [OF p(2)] Cons.prems(2) by auto
  have "decode_elems (length (e # es)) ((?h @ bs) @ rest) = Inr (e # es, rest)" for rest
    using unat_len32 [OF p(1)] elem_round_trip [of e] Cons.prems(2) bs(2) [of rest] by simp
  then show ?case using bs(1) by (intro exI [of _ "?h @ bs"]) simp
qed simp

lemma checkWALValueLen_ok: "checkWALValueLen n = Inr u \<longleftrightarrow> n \<le> 2 ^ 32 - 1"
  by (auto simp: checkWALValueLen_def maxWALValueLen_def)

lemma length_prefixed_round_trip:
  "length s \<le> 2 ^ 32 - 1 \<Longrightarrow>
     decodeRecoveryLengthPrefixed (put_le32 (of_nat (length s)) @ s @ rest) = Inr (s, rest)"
  using unat_len32 [of s] by (simp add: decodeRecoveryLengthPrefixed_def Let_def)

text \<open>The encoders only append: what they add does not depend on what the buffer holds.\<close>

lemma append_elems_appends: "append_elems buf es = result_bind (append_elems [] es) (\<lambda>b. Inr (buf @ b))"
proof (induction es arbitrary: buf)
  case (Cons e es)
  show ?case
    using Cons.IH [of "buf @ [prop_Kind e] @ put_le32 (of_nat (length (elem_payload e))) @ elem_payload e"]
      Cons.IH [of "[prop_Kind e] @ put_le32 (of_nat (length (elem_payload e))) @ elem_payload e"]
    by (cases "append_elems [] es") (auto simp: Let_def checkWALValueLen_def)
qed simp

lemma append_value_appends: "append_value buf v = result_bind (append_value [] v) (\<lambda>b. Inr (buf @ b))"
proof (cases v)
  case (PropList es)
  show ?thesis
    unfolding PropList append_value.simps encodeTxnListProp_def
    by (subst (1 2) append_elems_appends) (cases "append_elems [] es"; auto simp: checkWALValueLen_def)
qed (auto simp: checkWALValueLen_def AppendVarint_def AppendUvarint_def)

lemma encodePropertyValue_appends:
  "encodePropertyValue buf v = result_bind (encodePropertyValue [] v) (\<lambda>b. Inr (buf @ b))"
  unfolding encodePropertyValue_def
  by (subst (1 2) append_value_appends) (cases "check_value v"; cases "append_value [] v"; auto)

lemma append_value_round_trip:
  assumes "append_value [] v = Inr bs" "log_value v"
  shows "decodeRecoveryPropertyValue ((prop_Kind v # bs) @ rest) = Inr (v, rest)"
proof (cases v)
  case (PropList es)
  then have len: "length es \<le> 2 ^ 32 - 1" and app: "append_elems (put_le32 (of_nat (length es))) es = Inr bs"
    using assms(1) by (auto simp: encodeTxnListProp_def result_bind_eq_Inr_iff checkWALValueLen_ok)
  obtain cs where cs: "bs = put_le32 (of_nat (length es)) @ cs"
      "\<And>rest. decode_elems (length es) (cs @ rest) = Inr (es, rest)"
    using append_elems_round_trip [OF app] assms(2) PropList by auto
  show ?thesis
    unfolding cs(1) using cs(2) [of rest] unat_len32 [OF len]
    by (simp add: PropList decodeRecoveryPropertyValue_def decodeRecoveryListProp_def)
qed (use assms in \<open>auto simp: decodeRecoveryPropertyValue_def decodeRecoveryStringProp_def
    decodeRecoveryBytesProp_def decodeRecoveryInt64Prop_def decodeRecoveryFloat64Prop_def
    decodeRecoveryBoolProp_def decodeRecoveryTimeProp_def result_bind_eq_Inr_iff checkWALValueLen_ok
    length_prefixed_round_trip AppendVarint_def AppendUvarint_def varint_codec_simps time_Unix_UnixNano\<close>)

lemma encodePropertyValue_round_trip:
  assumes "encodePropertyValue [] v = Inr bs" "log_value v"
  shows "decodeRecoveryPropertyValue (bs @ rest) = Inr (v, rest)"
proof -
  obtain cs where "append_value [] v = Inr cs" "bs = prop_Kind v # cs"
    using assms(1) append_value_appends [of "[prop_Kind v]" v]
    by (auto simp: encodePropertyValue_def result_bind_eq_Inr_iff)
  then show ?thesis using append_value_round_trip [OF _ assms(2)] by simp
qed

lemma decode_elems_size:
  "decode_elems n buf = Inr (es, r) \<Longrightarrow> length es = n \<and> length r + 5 * n \<le> length buf"
  by (induction n buf arbitrary: es r rule: decode_elems.induct)
    (fastforce simp: Let_def result_bind_eq_Inr_iff split: if_splits)+

text \<open>Conversely the decoder answers only values of that domain, whatever bytes it reads: no zero
  value, no list within a list, and no time outside the range of an \<open>int64\<close> of nanoseconds.\<close>

lemma nano_time_time_Unix: "nano_time (time_Unix w)"
proof -
  have "- (2 ^ 63) \<le> sint w" "sint w < 2 ^ 63"
    using sint_greater_eq [of w] sint_less [of w] by simp_all
  then show ?thesis by (simp add: nano_time_def time_Unix_def nat_less_iff)
qed

lemma decodeRecoveryListElement_scalar:
  "decodeRecoveryListElement kind payload = Inr e \<Longrightarrow> scalar_value e"
  by (auto simp: decodeRecoveryListElement_def nano_time_time_Unix split: if_splits prod.splits)

lemma decode_elems_scalar: "decode_elems n buf = Inr (es, r) \<Longrightarrow> list_all scalar_value es"
  by (induction n buf arbitrary: es r rule: decode_elems.induct)
    (fastforce simp: Let_def result_bind_eq_Inr_iff decodeRecoveryListElement_scalar split: if_splits)+

lemma decodeRecoveryPropertyValue_log_value:
  assumes "decodeRecoveryPropertyValue b = Inr (v, r)"
  shows "log_value v"
  using assms
  by (auto simp: decodeRecoveryPropertyValue_def Let_def decodeRecoveryStringProp_def
      decodeRecoveryBytesProp_def decodeRecoveryInt64Prop_def decodeRecoveryFloat64Prop_def
      decodeRecoveryBoolProp_def decodeRecoveryTimeProp_def decodeRecoveryListProp_def
      result_bind_eq_Inr_iff nano_time_time_Unix decode_elems_scalar split: if_splits prod.splits)

subsection \<open>Properties\<close>

text \<open>
  Property C39. Which of the property values the encoder accepts come back from the log. A value the
  encoder accepts is decoded by recovery to itself, leaving exactly the bytes behind it, if and only
  if it is not the zero \<open>PropertyValue\<close>, holds none as a list element, and its times are within
  the range of \<open>UnixNano\<close> (\<open>log_value\<close>); so the round trip is not claimed of every accepted
  value, and those outside this domain, which are written all the same, are exactly the ones lost.
  Recovery never answers a value outside the domain. The encoder refuses every list with a list
  element and every value whose snapshot form would exceed the checkpoint's bound.
\<close>

theorem property_value_round_trip:
  "(\<forall>v out. encodePropertyValue buf v = Inr out \<longrightarrow>
      (decodeRecoveryPropertyValue (drop (length buf) out @ rest) = Inr (v, rest) \<longleftrightarrow> log_value v)) \<and>
   (\<forall>b w r. decodeRecoveryPropertyValue b = Inr (w, r) \<longrightarrow> log_value w) \<and>
   (\<forall>es. PropList fs \<in> set es \<longrightarrow> encodePropertyValue buf (PropList es) = Inl ErrNestedPropertyList) \<and>
   (\<forall>v out. encodePropertyValue buf v = Inr out \<longrightarrow> snapshotEncodedValueLen v \<le> maxSnapshotValueLen)"
proof (intro conjI allI impI)
  fix v out
  assume "encodePropertyValue buf v = Inr out"
  then obtain bs where "encodePropertyValue [] v = Inr bs" "out = buf @ bs"
    using encodePropertyValue_appends [of buf v] by (auto simp: result_bind_eq_Inr_iff)
  then show "decodeRecoveryPropertyValue (drop (length buf) out @ rest) = Inr (v, rest) \<longleftrightarrow> log_value v"
    using encodePropertyValue_round_trip decodeRecoveryPropertyValue_log_value by (auto simp del: log_value.simps)
next
  fix b w r
  assume "decodeRecoveryPropertyValue b = Inr (w, r)"
  then show "log_value w" by (rule decodeRecoveryPropertyValue_log_value)
next
  fix es
  assume "PropList fs \<in> set es"
  then have "list_ex (\<lambda>e. prop_Kind e = 7) es" by (force simp: list_ex_iff)
  then show "encodePropertyValue buf (PropList es) = Inl ErrNestedPropertyList"
    by (simp add: encodePropertyValue_def)
next
  fix v out
  assume "encodePropertyValue buf v = Inr out"
  then show "snapshotEncodedValueLen v \<le> maxSnapshotValueLen"
    by (cases v) (auto simp: encodePropertyValue_def result_bind_eq_Inr_iff checkSnapshotFoldableLen_def
        maxSnapshotValueLen_def split: if_splits)
qed

theorem property_value_round_trip_witness:
  "decodeRecoveryPropertyValue ([7] @ put_le32 2 @ [1] @ put_le32 1 @ [65] @ [4] @ put_le32 1 @ [1] @ [9])
     = Inr (PropList [PropString [65], PropBool True], [9])"
proof -
  have e: "encodePropertyValue [] (PropList [PropString [65], PropBool True])
      = Inr ([7] @ put_le32 2 @ [1] @ put_le32 1 @ [65] @ [4] @ put_le32 1 @ [1])"
    by (simp add: encodePropertyValue_def encodeTxnListProp_def checkWALValueLen_def maxWALValueLen_def
        checkSnapshotFoldableLen_def maxSnapshotValueLen_def Let_def)
  have l: "log_value (PropList [PropString [65], PropBool True])" by simp
  from conjunct1 [OF property_value_round_trip [of "[]" "[9]" "[]"], rule_format, OF e] l
  show ?thesis by simp
qed

text \<open>
  Property C40. The zero \<open>PropertyValue\<close>, alone or as a list element, and a time outside the range
  of \<open>UnixNano\<close> pass every check of the encoder, but the log does not bring them back: the zero
  value is written and then refused by recovery, and the time is read back as another instant.
\<close>

theorem property_value_lost_in_log:
  "encodePropertyValue buf PropInvalid = Inr (buf @ [0]) \<and>
   decodeRecoveryPropertyValue ([0] @ rest) = Inl UnknownKind \<and>
   encodePropertyValue buf (PropList [PropInvalid]) = Inr (buf @ [7] @ put_le32 1 @ [0] @ put_le32 0) \<and>
   decodeRecoveryPropertyValue (([7] @ put_le32 1 @ [0] @ put_le32 0) @ rest) = Inl UnknownKind \<and>
   (\<exists>bs. encodePropertyValue buf (PropTime \<lparr> unixSec = 9223372037, nsec = 0 \<rparr>) = Inr (buf @ bs) \<and>
     decodeRecoveryPropertyValue (bs @ rest) = Inr (PropTime \<lparr> unixSec = - 9223372037, nsec = 290448384 \<rparr>, rest))"
proof -
  let ?t = "\<lparr> unixSec = 9223372037, nsec = 0 \<rparr>"
  let ?bs = "5 # uvarint_bytes (unat (zigzag (UnixNano ?t)))"
  have "sint (UnixNano ?t) = - 9223372036709551616"
    unfolding UnixNano_def by (subst signed_of_int) (simp add: signed_take_bit_eq_take_bit_shift take_bit_eq_mod)
  then have "time_Unix (UnixNano ?t) = \<lparr> unixSec = - 9223372037, nsec = 290448384 \<rparr>"
    by (simp add: time_Unix_def)
  then have "encodePropertyValue buf (PropTime ?t) = Inr (buf @ ?bs)"
    "decodeRecoveryPropertyValue (?bs @ rest) = Inr (PropTime \<lparr> unixSec = - 9223372037, nsec = 290448384 \<rparr>, rest)"
    by (simp_all add: encodePropertyValue_def AppendVarint_def AppendUvarint_def decodeRecoveryPropertyValue_def
        decodeRecoveryTimeProp_def varint_codec_simps)
  then show ?thesis
    by (auto simp: encodePropertyValue_def encodeTxnListProp_def checkSnapshotFoldableLen_def maxSnapshotValueLen_def
        checkWALValueLen_def maxWALValueLen_def Let_def decodeRecoveryPropertyValue_def
        decodeRecoveryListProp_def decodeRecoveryListElement_def)
qed

text \<open>
  The eager reservation of the list decoder is bounded by a constant and by what the remaining input
  can hold, whatever the count claims, and a decoded list used at least five bytes per element.
\<close>

theorem recovery_list_bounds:
  "recoveryListCapHint count remaining \<le> 4096 \<and> recoveryListCapHint count remaining \<le> unat count \<and>
   5 * recoveryListCapHint count remaining \<le> remaining \<and>
   (\<forall>buf es r. decodeRecoveryListProp buf = Inr (PropList es, r) \<longrightarrow> 5 * length es \<le> length buf)"
proof -
  have "5 * length es \<le> length buf" if d: "decodeRecoveryListProp buf = Inr (PropList es, r)" for buf es r
  proof -
    obtain r' where "decode_elems (unat (get_le32 buf)) (drop 4 buf) = Inr (es, r')"
      using d by (auto simp: decodeRecoveryListProp_def result_bind_eq_Inr_iff split: if_splits)
    from decode_elems_size [OF this] show ?thesis by (simp, linarith)
  qed
  moreover have "5 * recoveryListCapHint count remaining \<le> remaining"
    unfolding recoveryListCapHint_def Let_def by (simp split: if_split) linarith
  ultimately show ?thesis by (simp add: recoveryListCapHint_def Let_def)
qed

end
