(* ===== verification/Txn_Ops.thy ===== *)
theory Txn_Ops
  imports Txn_Values Wal_Format
begin

text \<open>
  The buffered operations of a transaction (\<open>store/txn/txn.go\<close>): the op kinds, the mutators that
  buffer them, and the v2 and v3 records the commit writes for them. The node and weight codecs are
  records of functions; a store without a weight codec passes \<open>None\<close>. \<open>zeroN\<close> and \<open>zeroW\<close> are the
  zero values of the type parameters. The handle an edge insertion draws from the graph's counter
  and the verdict of the installed validator are arguments.
\<close>

subsection \<open>Op kinds and ops\<close>

abbreviation OpAddEdge :: byte where "OpAddEdge \<equiv> 1"
abbreviation OpSetNodeLabel :: byte where "OpSetNodeLabel \<equiv> 2"
abbreviation OpSetEdgeLabel :: byte where "OpSetEdgeLabel \<equiv> 3"
abbreviation OpAddEdgeWeighted :: byte where "OpAddEdgeWeighted \<equiv> 4"
abbreviation OpAddNode :: byte where "OpAddNode \<equiv> 5"
abbreviation OpRemoveNode :: byte where "OpRemoveNode \<equiv> 6"
abbreviation OpRemoveNodeLabel :: byte where "OpRemoveNodeLabel \<equiv> 7"
abbreviation OpSetNodeProperty :: byte where "OpSetNodeProperty \<equiv> 8"
abbreviation OpDelNodeProperty :: byte where "OpDelNodeProperty \<equiv> 9"
abbreviation OpRemoveEdge :: byte where "OpRemoveEdge \<equiv> 10"
abbreviation OpSetEdgeProperty :: byte where "OpSetEdgeProperty \<equiv> 11"
abbreviation OpDelEdgeProperty :: byte where "OpDelEdgeProperty \<equiv> 12"
abbreviation OpCommit :: byte where "OpCommit \<equiv> 13"
abbreviation OpAddEdgeH :: byte where "OpAddEdgeH \<equiv> 14"
abbreviation OpSetEdgeLabelByHandle :: byte where "OpSetEdgeLabelByHandle \<equiv> 15"
abbreviation OpSetEdgePropertyByHandle :: byte where "OpSetEdgePropertyByHandle \<equiv> 16"
abbreviation OpRemoveEdgeInstanceByHandle :: byte where "OpRemoveEdgeInstanceByHandle \<equiv> 17"
abbreviation OpCreateConstraint :: byte where "OpCreateConstraint \<equiv> 18"
abbreviation OpDropConstraint :: byte where "OpDropConstraint \<equiv> 19"
abbreviation OpCreateIndex :: byte where "OpCreateIndex \<equiv> 20"
abbreviation OpDropIndex :: byte where "OpDropIndex \<equiv> 21"
abbreviation OpDelEdgePropertyByHandle :: byte where "OpDelEdgePropertyByHandle \<equiv> 22"
abbreviation OpRemoveEdgeByHandle :: byte where "OpRemoveEdgeByHandle \<equiv> 23"

abbreviation OpRecordV2 :: byte where "OpRecordV2 \<equiv> 0xFE"
abbreviation OpRecordV3 :: byte where "OpRecordV3 \<equiv> 0xFD"

record ('n, 'w) Op =
  op_Value :: PropertyValue
  op_Src :: 'n
  op_Dst :: 'n
  op_Weight :: 'w
  op_Label :: bytes
  op_Key :: bytes
  op_ConstraintName :: bytes
  op_Handle :: u64
  op_Kind :: byte
  op_ConstraintKind :: byte
  op_IndexKind :: byte

record 'v Codec =
  cd_Encode :: "bytes \<Rightarrow> 'v \<Rightarrow> (codec_error, bytes) result"
  cd_Decode :: "bytes \<Rightarrow> (codec_error, 'v \<times> bytes) result"

text \<open>The op literal \<open>Op[N, W]{Kind: k}\<close>, every other field the zero value.\<close>

definition zero_op :: "'n \<Rightarrow> 'w \<Rightarrow> byte \<Rightarrow> ('n, 'w) Op" where
  "zero_op zeroN zeroW k = \<lparr> op_Value = PropInvalid, op_Src = zeroN, op_Dst = zeroN, op_Weight = zeroW,
     op_Label = [], op_Key = [], op_ConstraintName = [], op_Handle = 0, op_Kind = k,
     op_ConstraintKind = 0, op_IndexKind = 0 \<rparr>"

subsection \<open>The mutators\<close>

record ('n, 'w) Tx =
  tx_finished :: bool
  tx_ops :: "('n, 'w) Op list"
  tx_wcodec :: "'w Codec option"
  tx_validator :: "bytes \<Rightarrow> PropertyValue \<Rightarrow> bool"
  tx_zeroN :: 'n
  tx_zeroW :: 'w

definition buffer_op :: "('n, 'w) Op \<Rightarrow> ('n, 'w) Tx \<Rightarrow> (txn_error, ('n, 'w) Tx) result" where
  "buffer_op op t = Inr (t\<lparr> tx_ops := tx_ops t @ [op] \<rparr>)"

definition new_op :: "('n, 'w) Tx \<Rightarrow> byte \<Rightarrow> ('n, 'w) Op" where
  "new_op t k = zero_op (tx_zeroN t) (tx_zeroW t) k"

definition validateProperty :: "('n, 'w) Tx \<Rightarrow> bytes \<Rightarrow> PropertyValue \<Rightarrow> (txn_error, unit) result" where
  "validateProperty t propKey value = (if tx_validator t propKey value then Inr () else Inl ErrValidator)"

text \<open>\<open>handle\<close> is what \<open>NextEdgeHandle\<close> returns.\<close>

definition tx_AddEdge :: "u64 \<Rightarrow> 'n \<Rightarrow> 'n \<Rightarrow> 'w \<Rightarrow> ('n, 'w) Tx \<Rightarrow> (txn_error, ('n, 'w) Tx) result" where
  "tx_AddEdge handle src dst w t =
     (if tx_finished t then Inl ErrTxFinished
      else if tx_wcodec t = None then
        if w \<noteq> tx_zeroW t then Inl ErrNoWeightCodec
        else buffer_op ((new_op t OpAddEdgeH)\<lparr> op_Src := src, op_Dst := dst, op_Handle := handle \<rparr>) t
      else buffer_op ((new_op t OpAddEdgeH)\<lparr> op_Src := src, op_Dst := dst, op_Weight := w, op_Handle := handle \<rparr>) t)"

definition tx_AddEdgeWithHandle :: "'n \<Rightarrow> 'n \<Rightarrow> 'w \<Rightarrow> u64 \<Rightarrow> ('n, 'w) Tx \<Rightarrow> (txn_error, ('n, 'w) Tx) result" where
  "tx_AddEdgeWithHandle src dst w handle t =
     (if tx_finished t then Inl ErrTxFinished
      else if tx_wcodec t = None then Inl ErrNoWeightCodec
      else buffer_op ((new_op t OpAddEdgeH)\<lparr> op_Src := src, op_Dst := dst, op_Weight := w, op_Handle := handle \<rparr>) t)"

definition tx_SetNodeLabel :: "'n \<Rightarrow> bytes \<Rightarrow> ('n, 'w) Tx \<Rightarrow> (txn_error, ('n, 'w) Tx) result" where
  "tx_SetNodeLabel node label t =
     (if tx_finished t then Inl ErrTxFinished
      else result_bind (checkWALSchemaString label) (\<lambda>_.
           buffer_op ((new_op t OpSetNodeLabel)\<lparr> op_Src := node, op_Label := label \<rparr>) t))"

definition tx_SetEdgeLabel :: "'n \<Rightarrow> 'n \<Rightarrow> bytes \<Rightarrow> ('n, 'w) Tx \<Rightarrow> (txn_error, ('n, 'w) Tx) result" where
  "tx_SetEdgeLabel src dst label t =
     (if tx_finished t then Inl ErrTxFinished
      else result_bind (checkWALSchemaString label) (\<lambda>_.
           buffer_op ((new_op t OpSetEdgeLabel)\<lparr> op_Src := src, op_Dst := dst, op_Label := label \<rparr>) t))"

definition tx_AddNode :: "'n \<Rightarrow> ('n, 'w) Tx \<Rightarrow> (txn_error, ('n, 'w) Tx) result" where
  "tx_AddNode key t =
     (if tx_finished t then Inl ErrTxFinished else buffer_op ((new_op t OpAddNode)\<lparr> op_Src := key \<rparr>) t)"

definition tx_RemoveNode :: "'n \<Rightarrow> ('n, 'w) Tx \<Rightarrow> (txn_error, ('n, 'w) Tx) result" where
  "tx_RemoveNode key t =
     (if tx_finished t then Inl ErrTxFinished else buffer_op ((new_op t OpRemoveNode)\<lparr> op_Src := key \<rparr>) t)"

definition tx_RemoveNodeLabel :: "'n \<Rightarrow> bytes \<Rightarrow> ('n, 'w) Tx \<Rightarrow> (txn_error, ('n, 'w) Tx) result" where
  "tx_RemoveNodeLabel node label t =
     (if tx_finished t then Inl ErrTxFinished
      else result_bind (checkWALSchemaString label) (\<lambda>_.
           buffer_op ((new_op t OpRemoveNodeLabel)\<lparr> op_Src := node, op_Label := label \<rparr>) t))"

definition tx_SetNodeProperty :: "'n \<Rightarrow> bytes \<Rightarrow> PropertyValue \<Rightarrow> ('n, 'w) Tx \<Rightarrow> (txn_error, ('n, 'w) Tx) result" where
  "tx_SetNodeProperty node propKey value t =
     (if tx_finished t then Inl ErrTxFinished
      else result_bind (checkWALSchemaString propKey) (\<lambda>_.
           result_bind (validateProperty t propKey value) (\<lambda>_.
           buffer_op ((new_op t OpSetNodeProperty)\<lparr> op_Src := node, op_Key := propKey, op_Value := value \<rparr>) t)))"

definition tx_SetNodePropertyPreValidated ::
  "'n \<Rightarrow> bytes \<Rightarrow> PropertyValue \<Rightarrow> ('n, 'w) Tx \<Rightarrow> (txn_error, ('n, 'w) Tx) result" where
  "tx_SetNodePropertyPreValidated node propKey value t =
     (if tx_finished t then Inl ErrTxFinished
      else result_bind (checkWALSchemaString propKey) (\<lambda>_.
           buffer_op ((new_op t OpSetNodeProperty)\<lparr> op_Src := node, op_Key := propKey, op_Value := value \<rparr>) t))"

definition tx_DelNodeProperty :: "'n \<Rightarrow> bytes \<Rightarrow> ('n, 'w) Tx \<Rightarrow> (txn_error, ('n, 'w) Tx) result" where
  "tx_DelNodeProperty node propKey t =
     (if tx_finished t then Inl ErrTxFinished
      else result_bind (checkWALSchemaString propKey) (\<lambda>_.
           buffer_op ((new_op t OpDelNodeProperty)\<lparr> op_Src := node, op_Key := propKey \<rparr>) t))"

definition tx_RemoveEdge :: "'n \<Rightarrow> 'n \<Rightarrow> ('n, 'w) Tx \<Rightarrow> (txn_error, ('n, 'w) Tx) result" where
  "tx_RemoveEdge src dst t =
     (if tx_finished t then Inl ErrTxFinished
      else buffer_op ((new_op t OpRemoveEdge)\<lparr> op_Src := src, op_Dst := dst \<rparr>) t)"

definition tx_SetEdgeProperty ::
  "'n \<Rightarrow> 'n \<Rightarrow> bytes \<Rightarrow> PropertyValue \<Rightarrow> ('n, 'w) Tx \<Rightarrow> (txn_error, ('n, 'w) Tx) result" where
  "tx_SetEdgeProperty src dst propKey value t =
     (if tx_finished t then Inl ErrTxFinished
      else result_bind (checkWALSchemaString propKey) (\<lambda>_.
           result_bind (validateProperty t propKey value) (\<lambda>_.
           buffer_op ((new_op t OpSetEdgeProperty)
             \<lparr> op_Src := src, op_Dst := dst, op_Key := propKey, op_Value := value \<rparr>) t)))"

definition tx_SetEdgePropertyPreValidated ::
  "'n \<Rightarrow> 'n \<Rightarrow> bytes \<Rightarrow> PropertyValue \<Rightarrow> ('n, 'w) Tx \<Rightarrow> (txn_error, ('n, 'w) Tx) result" where
  "tx_SetEdgePropertyPreValidated src dst propKey value t =
     (if tx_finished t then Inl ErrTxFinished
      else result_bind (checkWALSchemaString propKey) (\<lambda>_.
           buffer_op ((new_op t OpSetEdgeProperty)
             \<lparr> op_Src := src, op_Dst := dst, op_Key := propKey, op_Value := value \<rparr>) t))"

definition tx_DelEdgeProperty :: "'n \<Rightarrow> 'n \<Rightarrow> bytes \<Rightarrow> ('n, 'w) Tx \<Rightarrow> (txn_error, ('n, 'w) Tx) result" where
  "tx_DelEdgeProperty src dst propKey t =
     (if tx_finished t then Inl ErrTxFinished
      else result_bind (checkWALSchemaString propKey) (\<lambda>_.
           buffer_op ((new_op t OpDelEdgeProperty)\<lparr> op_Src := src, op_Dst := dst, op_Key := propKey \<rparr>) t))"

definition tx_SetEdgeLabelByHandle ::
  "'n \<Rightarrow> 'n \<Rightarrow> u64 \<Rightarrow> bytes \<Rightarrow> ('n, 'w) Tx \<Rightarrow> (txn_error, ('n, 'w) Tx) result" where
  "tx_SetEdgeLabelByHandle src dst handle label t =
     (if tx_finished t then Inl ErrTxFinished
      else result_bind (checkWALSchemaString label) (\<lambda>_.
           buffer_op ((new_op t OpSetEdgeLabelByHandle)
             \<lparr> op_Src := src, op_Dst := dst, op_Handle := handle, op_Label := label \<rparr>) t))"

definition tx_SetEdgePropertyByHandle ::
  "'n \<Rightarrow> 'n \<Rightarrow> u64 \<Rightarrow> bytes \<Rightarrow> PropertyValue \<Rightarrow> ('n, 'w) Tx \<Rightarrow> (txn_error, ('n, 'w) Tx) result" where
  "tx_SetEdgePropertyByHandle src dst handle propKey value t =
     (if tx_finished t then Inl ErrTxFinished
      else result_bind (checkWALSchemaString propKey) (\<lambda>_.
           result_bind (validateProperty t propKey value) (\<lambda>_.
           buffer_op ((new_op t OpSetEdgePropertyByHandle)
             \<lparr> op_Src := src, op_Dst := dst, op_Handle := handle, op_Key := propKey, op_Value := value \<rparr>) t)))"

definition tx_SetEdgePropertyByHandlePreValidated ::
  "'n \<Rightarrow> 'n \<Rightarrow> u64 \<Rightarrow> bytes \<Rightarrow> PropertyValue \<Rightarrow> ('n, 'w) Tx \<Rightarrow> (txn_error, ('n, 'w) Tx) result" where
  "tx_SetEdgePropertyByHandlePreValidated src dst handle propKey value t =
     (if tx_finished t then Inl ErrTxFinished
      else result_bind (checkWALSchemaString propKey) (\<lambda>_.
           buffer_op ((new_op t OpSetEdgePropertyByHandle)
             \<lparr> op_Src := src, op_Dst := dst, op_Handle := handle, op_Key := propKey, op_Value := value \<rparr>) t))"

definition tx_DelEdgePropertyByHandle ::
  "'n \<Rightarrow> 'n \<Rightarrow> u64 \<Rightarrow> bytes \<Rightarrow> ('n, 'w) Tx \<Rightarrow> (txn_error, ('n, 'w) Tx) result" where
  "tx_DelEdgePropertyByHandle src dst handle propKey t =
     (if tx_finished t then Inl ErrTxFinished
      else result_bind (checkWALSchemaString propKey) (\<lambda>_.
           buffer_op ((new_op t OpDelEdgePropertyByHandle)
             \<lparr> op_Src := src, op_Dst := dst, op_Handle := handle, op_Key := propKey \<rparr>) t))"

definition tx_RemoveEdgeInstanceByHandle ::
  "'n \<Rightarrow> 'n \<Rightarrow> u64 \<Rightarrow> ('n, 'w) Tx \<Rightarrow> (txn_error, ('n, 'w) Tx) result" where
  "tx_RemoveEdgeInstanceByHandle src dst handle t =
     (if tx_finished t then Inl ErrTxFinished
      else buffer_op ((new_op t OpRemoveEdgeInstanceByHandle)
             \<lparr> op_Src := src, op_Dst := dst, op_Handle := handle \<rparr>) t)"

definition tx_RemoveEdgeByHandle :: "'n \<Rightarrow> 'n \<Rightarrow> u64 \<Rightarrow> ('n, 'w) Tx \<Rightarrow> (txn_error, ('n, 'w) Tx) result" where
  "tx_RemoveEdgeByHandle src dst handle t =
     (if tx_finished t then Inl ErrTxFinished
      else buffer_op ((new_op t OpRemoveEdgeByHandle)\<lparr> op_Src := src, op_Dst := dst, op_Handle := handle \<rparr>) t)"

definition tx_CreateConstraint ::
  "byte \<Rightarrow> bytes \<Rightarrow> bytes \<Rightarrow> bytes \<Rightarrow> ('n, 'w) Tx \<Rightarrow> (txn_error, ('n, 'w) Tx) result" where
  "tx_CreateConstraint kind label property name t =
     (if tx_finished t then Inl ErrTxFinished
      else buffer_op ((new_op t OpCreateConstraint)
             \<lparr> op_ConstraintKind := kind, op_Label := label, op_Key := property, op_ConstraintName := name \<rparr>) t)"

definition tx_DropConstraint ::
  "byte \<Rightarrow> bytes \<Rightarrow> bytes \<Rightarrow> bytes \<Rightarrow> ('n, 'w) Tx \<Rightarrow> (txn_error, ('n, 'w) Tx) result" where
  "tx_DropConstraint kind label property name t =
     (if tx_finished t then Inl ErrTxFinished
      else buffer_op ((new_op t OpDropConstraint)
             \<lparr> op_ConstraintKind := kind, op_Label := label, op_Key := property, op_ConstraintName := name \<rparr>) t)"

definition tx_CreateIndex ::
  "byte \<Rightarrow> bytes \<Rightarrow> bytes \<Rightarrow> bytes \<Rightarrow> ('n, 'w) Tx \<Rightarrow> (txn_error, ('n, 'w) Tx) result" where
  "tx_CreateIndex kind label property name t =
     (if tx_finished t then Inl ErrTxFinished
      else buffer_op ((new_op t OpCreateIndex)
             \<lparr> op_IndexKind := kind, op_Label := label, op_Key := property, op_ConstraintName := name \<rparr>) t)"

definition tx_DropIndex :: "bytes \<Rightarrow> ('n, 'w) Tx \<Rightarrow> (txn_error, ('n, 'w) Tx) result" where
  "tx_DropIndex name t =
     (if tx_finished t then Inl ErrTxFinished
      else buffer_op ((new_op t OpDropIndex)\<lparr> op_ConstraintName := name \<rparr>) t)"

subsection \<open>Op records\<close>

definition enc_key :: "'v Codec \<Rightarrow> bytes \<Rightarrow> 'v \<Rightarrow> (txn_error, bytes) result" where
  "enc_key c buf k = (case cd_Encode c buf k of Inl e \<Rightarrow> Inl (ErrCodec e) | Inr b \<Rightarrow> Inr b)"

text \<open>A string behind its \<open>uint16\<close> length.\<close>

definition append_u16 :: "bytes \<Rightarrow> bytes \<Rightarrow> bytes" where
  "append_u16 buf s = buf @ put_le16 (of_nat (length s)) @ s"

definition encodeOpNodeOnly :: "'n \<Rightarrow> 'n Codec \<Rightarrow> bytes \<Rightarrow> ('n, 'w) Op \<Rightarrow> (txn_error, bytes) result" where
  "encodeOpNodeOnly zeroN c buf op =
     result_bind (checkWALSchemaString (op_Label op)) (\<lambda>_.
     result_bind (enc_key c buf (op_Src op)) (\<lambda>buf.
     result_bind (enc_key c buf zeroN) (\<lambda>buf.
     Inr (append_u16 buf (op_Label op)))))"

definition encodeOpNodeProperty :: "'n \<Rightarrow> 'n Codec \<Rightarrow> bytes \<Rightarrow> ('n, 'w) Op \<Rightarrow> (txn_error, bytes) result" where
  "encodeOpNodeProperty zeroN c buf op =
     result_bind (checkWALSchemaString (op_Key op)) (\<lambda>_.
     result_bind (enc_key c buf (op_Src op)) (\<lambda>buf.
     result_bind (enc_key c buf zeroN) (\<lambda>buf.
     let buf = append_u16 buf (op_Key op) in
     if op_Kind op = OpSetNodeProperty then encodePropertyValue buf (op_Value op) else Inr buf)))"

definition encodeOpEdgeNoTail :: "'n Codec \<Rightarrow> bytes \<Rightarrow> ('n, 'w) Op \<Rightarrow> (txn_error, bytes) result" where
  "encodeOpEdgeNoTail c buf op =
     result_bind (enc_key c buf (op_Src op)) (\<lambda>buf.
     result_bind (enc_key c buf (op_Dst op)) (\<lambda>buf.
     Inr (buf @ put_le16 0)))"

definition encodeOpEdgeProperty :: "'n Codec \<Rightarrow> bytes \<Rightarrow> ('n, 'w) Op \<Rightarrow> (txn_error, bytes) result" where
  "encodeOpEdgeProperty c buf op =
     result_bind (checkWALSchemaString (op_Key op)) (\<lambda>_.
     result_bind (enc_key c buf (op_Src op)) (\<lambda>buf.
     result_bind (enc_key c buf (op_Dst op)) (\<lambda>buf.
     let buf = append_u16 buf (op_Key op) in
     if op_Kind op = OpSetEdgeProperty \<or> op_Kind op = OpSetEdgePropertyByHandle
     then encodePropertyValue buf (op_Value op) else Inr buf)))"

definition encodeOpEdgeWeighted ::
  "'n Codec \<Rightarrow> 'w Codec option \<Rightarrow> bytes \<Rightarrow> ('n, 'w) Op \<Rightarrow> (txn_error, bytes) result" where
  "encodeOpEdgeWeighted c wc buf op =
     result_bind (checkWALSchemaString (op_Label op)) (\<lambda>_.
     result_bind (enc_key c buf (op_Src op)) (\<lambda>buf.
     result_bind (enc_key c buf (op_Dst op)) (\<lambda>buf.
     result_bind (case wc of None \<Rightarrow> Inr buf | Some w \<Rightarrow> enc_key w buf (op_Weight op)) (\<lambda>buf.
     Inr (append_u16 buf (op_Label op))))))"

definition encodeOpEdgeWithLabel :: "'n Codec \<Rightarrow> bytes \<Rightarrow> ('n, 'w) Op \<Rightarrow> (txn_error, bytes) result" where
  "encodeOpEdgeWithLabel c buf op =
     result_bind (checkWALSchemaString (op_Label op)) (\<lambda>_.
     result_bind (enc_key c buf (op_Src op)) (\<lambda>buf.
     result_bind (enc_key c buf (op_Dst op)) (\<lambda>buf.
     Inr (append_u16 buf (op_Label op)))))"

definition appendOpConstraintBody :: "bytes \<Rightarrow> ('n, 'w) Op \<Rightarrow> (txn_error, bytes) result" where
  "appendOpConstraintBody buf op =
     result_bind (checkWALSchemaString (op_Label op)) (\<lambda>_.
     result_bind (checkWALSchemaString (op_Key op)) (\<lambda>_.
     result_bind (checkWALSchemaString (op_ConstraintName op)) (\<lambda>_.
     Inr (append_u16 (append_u16 (append_u16 (buf @ [op_ConstraintKind op]) (op_Label op)) (op_Key op))
            (op_ConstraintName op)))))"

definition appendOpIndexBody :: "bytes \<Rightarrow> ('n, 'w) Op \<Rightarrow> (txn_error, bytes) result" where
  "appendOpIndexBody buf op =
     result_bind (checkWALSchemaString (op_ConstraintName op)) (\<lambda>_.
     result_bind (checkWALSchemaString (op_Label op)) (\<lambda>_.
     result_bind (checkWALSchemaString (op_Key op)) (\<lambda>_.
     Inr (append_u16 (append_u16 (append_u16 (buf @ [op_IndexKind op]) (op_ConstraintName op)) (op_Label op))
            (op_Key op)))))"

definition with_handle :: "('n, 'w) Op \<Rightarrow> (txn_error, bytes) result \<Rightarrow> (txn_error, bytes) result" where
  "with_handle op r = result_bind r (\<lambda>buf. Inr (buf @ put_le64 (op_Handle op)))"

definition appendOpBodyTyped ::
  "'n \<Rightarrow> 'n Codec \<Rightarrow> 'w Codec option \<Rightarrow> bytes \<Rightarrow> ('n, 'w) Op \<Rightarrow> (txn_error, bytes) result" where
  "appendOpBodyTyped zeroN c wc buf op =
     (let k = op_Kind op in
      if k = OpAddNode \<or> k = OpRemoveNode \<or> k = OpRemoveNodeLabel then encodeOpNodeOnly zeroN c buf op
      else if k = OpSetNodeProperty \<or> k = OpDelNodeProperty then encodeOpNodeProperty zeroN c buf op
      else if k = OpRemoveEdge then encodeOpEdgeNoTail c buf op
      else if k = OpSetEdgeProperty \<or> k = OpDelEdgeProperty then encodeOpEdgeProperty c buf op
      else if k = OpAddEdgeWeighted then encodeOpEdgeWeighted c wc buf op
      else if k = OpAddEdgeH then with_handle op (encodeOpEdgeWeighted c wc buf op)
      else if k = OpSetEdgeLabelByHandle then with_handle op (encodeOpEdgeWithLabel c buf op)
      else if k = OpSetEdgePropertyByHandle \<or> k = OpDelEdgePropertyByHandle
        then with_handle op (encodeOpEdgeProperty c buf op)
      else if k = OpRemoveEdgeInstanceByHandle \<or> k = OpRemoveEdgeByHandle
        then with_handle op (encodeOpEdgeNoTail c buf op)
      else if k = OpCreateConstraint \<or> k = OpDropConstraint then appendOpConstraintBody buf op
      else if k = OpCreateIndex \<or> k = OpDropIndex then appendOpIndexBody buf op
      else encodeOpEdgeWithLabel c buf op)"

definition encodeOpTyped ::
  "'n \<Rightarrow> 'n Codec \<Rightarrow> 'w Codec option \<Rightarrow> ('n, 'w) Op \<Rightarrow> (txn_error, bytes) result" where
  "encodeOpTyped zeroN c wc op = appendOpBodyTyped zeroN c wc [OpRecordV2, op_Kind op] op"

definition encodeOpTypedV3Into ::
  "'n \<Rightarrow> 'n Codec \<Rightarrow> 'w Codec option \<Rightarrow> u64 \<Rightarrow> bytes \<Rightarrow> ('n, 'w) Op \<Rightarrow> (txn_error, bytes) result" where
  "encodeOpTypedV3Into zeroN c wc seq buf op =
     appendOpBodyTyped zeroN c wc (buf @ [OpRecordV3, op_Kind op] @ put_le64 seq) op"

definition encodeCommitV3Into :: "u64 \<Rightarrow> u64 \<Rightarrow> bytes \<Rightarrow> bytes" where
  "encodeCommitV3Into seq commitTS buf = buf @ [OpRecordV3, OpCommit] @ put_le64 seq @ put_le64 commitTS"

subsection \<open>The run of frames a commit appends\<close>

text \<open>The payloads handed to the log before the first refusal, and the refusal. The writer refuses a
  payload over its frame bound and keeps the frames it already took.\<close>

definition emit :: "bytes \<Rightarrow> (txn_error, bytes) result" where
  "emit payload = (if length payload > maxFrameSize then Inl ErrTxnFrameTooLarge else Inr payload)"

fun emit_ops ::
  "'n \<Rightarrow> 'n Codec \<Rightarrow> 'w Codec option \<Rightarrow> u64 \<Rightarrow> ('n, 'w) Op list \<Rightarrow> bytes list \<times> txn_error option" where
  "emit_ops zeroN c wc seq [] = ([], None)"
| "emit_ops zeroN c wc seq (op # ops) =
     (case result_bind (encodeOpTypedV3Into zeroN c wc seq [] op) emit of
        Inl e \<Rightarrow> ([], Some e)
      | Inr payload \<Rightarrow> (case emit_ops zeroN c wc seq ops of (ps, e) \<Rightarrow> (payload # ps, e)))"

definition appendChecked ::
  "'n \<Rightarrow> 'n Codec \<Rightarrow> 'w Codec option \<Rightarrow> u64 \<Rightarrow> u64 \<Rightarrow> bytes \<Rightarrow> ('n, 'w) Op list \<Rightarrow> bytes list \<times> txn_error option" where
  "appendChecked zeroN c wc seq commitTS annex ops =
     (case emit_ops zeroN c wc seq ops of
        (ps, Some e) \<Rightarrow> (ps, Some e)
      | (ps, None) \<Rightarrow>
          (case emit (encodeCommitV3Into seq commitTS [] @ annex) of
             Inl e \<Rightarrow> (ps, Some e)
           | Inr marker \<Rightarrow> (ps @ [marker], None)))"

subsection \<open>What the encoders write\<close>

text \<open>The contract both codecs fulfil, over their records.\<close>

abbreviation codec_ok :: "'v Codec \<Rightarrow> ('v \<Rightarrow> bool) \<Rightarrow> bool" where
  "codec_ok c valid \<equiv> codec (cd_Encode c) (cd_Decode c) valid"

lemma enc_key_appends:
  assumes "codec_ok c valid" "enc_key c buf k = Inr out"
  shows "\<exists>kb. out = buf @ kb \<and> cd_Encode c [] k = Inr kb"
proof -
  have "cd_Encode c buf k = Inr out" using assms(2) by (simp add: enc_key_def split: sum.splits)
  from codec.enc_appends [OF assms(1) this] show ?thesis by auto
qed

definition key_bytes :: "'v Codec \<Rightarrow> 'v \<Rightarrow> bytes \<Rightarrow> bool" where
  "key_bytes c k bs \<longleftrightarrow> cd_Encode c [] k = Inr bs"

lemma key_bytes_decode: "codec_ok c valid \<Longrightarrow> key_bytes c k bs \<Longrightarrow> valid k \<Longrightarrow> cd_Decode c (bs @ rest) = Inr (k, rest)"
  by (simp add: key_bytes_def codec.dec_enc)

end
