(* ===== verification/Recovery_Apply.thy ===== *)
theory Recovery_Apply
  imports Txn_Ops Wal_Control
begin

text \<open>
  Recovery's reading of one op record (\<open>store/recovery/recovery.go\<close>): \<open>Decode\<close> of a log payload,
  the accumulation of schema definitions, and the application of a graph op. The recovered graph is
  reached only through the methods recovery calls, collected in the record \<open>Graph\<close>: a mutating
  method returns whether it succeeded and the new graph. The older undirected and simple-graph
  semantics of a legacy store are not applied (\<open>legacy\<close> is nil). Counters and log lines are left out.
\<close>

subsection \<open>Decoding a record\<close>

datatype rec_error =
    ShortPayload | ErrUnsupportedRecordVersion | ErrIDRecordCorrupt | ErrTransactionTooLarge
  | ErrCommittedTxnCorruptOp | ErrV2FrameUndecodable | ErrRedoPointNotFrameBoundary
  | ErrRedoPointMidTransaction | ErrUnboundNodeKey | ErrCommitAnnexCorrupt | ErrNodeIDMismatch
  | ErrIDBeyondReservation | ErrMissingSnapshot | ErrForeignSnapshot | ErrSnapshotTooOld
  | ErrSnapshotAheadOfWAL
  | ErrWal wal_error

record rec_Op =
  ro_Version :: byte
  ro_Kind :: byte
  ro_TxnSeq :: u64
  ro_Body :: bytes

definition decodeV3 :: "bytes \<Rightarrow> (rec_error, rec_Op) result" where
  "decodeV3 payload =
     (if length payload < 10 then Inl ShortPayload
      else Inr \<lparr> ro_Version = OpRecordV3, ro_Kind = payload ! 1, ro_TxnSeq = get_le64 (take 8 (drop 2 payload)),
                 ro_Body = drop 10 payload \<rparr>)"

definition decodeV2 :: "bytes \<Rightarrow> (rec_error, rec_Op) result" where
  "decodeV2 payload =
     (if length payload < 2 then Inl ShortPayload
      else Inr \<lparr> ro_Version = OpRecordV2, ro_Kind = payload ! 1, ro_TxnSeq = 0, ro_Body = drop 2 payload \<rparr>)"

definition control_op :: "byte \<Rightarrow> bytes \<Rightarrow> rec_Op" where
  "control_op kind body = \<lparr> ro_Version = ControlRecordTag, ro_Kind = kind, ro_TxnSeq = 0, ro_Body = body \<rparr>"

definition decode_control :: "bytes \<Rightarrow> (rec_error, rec_Op) result" where
  "decode_control payload =
     (if DecodeLegacySeal payload \<noteq> None then Inr (control_op CtlLegacySeal [])
      else case DecodeReserveIDs payload of
        Inl e \<Rightarrow> Inl ErrIDRecordCorrupt
      | Inr (Some _) \<Rightarrow> Inr (control_op CtlReserveIDs payload)
      | Inr None \<Rightarrow>
          (case DecodeNextIDsExact payload of
             Inl e \<Rightarrow> Inl ErrIDRecordCorrupt
           | Inr (Some _) \<Rightarrow> Inr (control_op CtlNextIDsExact payload)
           | Inr None \<Rightarrow> Inl ErrUnsupportedRecordVersion))"

definition rec_Decode :: "bytes \<Rightarrow> (rec_error, rec_Op) result" where
  "rec_Decode payload =
     (if length payload < 1 then Inl ShortPayload
      else if payload ! 0 = OpRecordV3 then decodeV3 payload
      else if payload ! 0 = OpRecordV2 then decodeV2 payload
      else if payload ! 0 = ControlRecordTag then decode_control payload
      else Inl ErrUnsupportedRecordVersion)"

definition CommitTS :: "rec_Op \<Rightarrow> u64 option" where
  "CommitTS o1 =
     (if ro_Kind o1 \<noteq> OpCommit \<or> length (ro_Body o1) < 8 then None
      else Some (get_le64 (take 8 (ro_Body o1))))"

subsection \<open>Schema definitions\<close>

record ConstraintRecord =
  cr_Label :: bytes
  cr_Property :: bytes
  cr_Name :: bytes
  cr_Kind :: byte

record IndexRecord =
  ir_Name :: bytes
  ir_Label :: bytes
  ir_Property :: bytes
  ir_Kind :: byte

definition readU16String :: "bytes \<Rightarrow> (bytes \<times> bytes) option" where
  "readU16String buf =
     (if length buf < 2 then None
      else let n = unat (get_le16 buf); rest = drop 2 buf
           in if length rest < n then None else Some (take n rest, drop n rest))"

definition decodeConstraintBody :: "bytes \<Rightarrow> ConstraintRecord option" where
  "decodeConstraintBody body =
     (if length body < 1 then None
      else case readU16String (drop 1 body) of None \<Rightarrow> None
      | Some (label, rest) \<Rightarrow> (case readU16String rest of None \<Rightarrow> None
      | Some (prop, rest) \<Rightarrow> (case readU16String rest of None \<Rightarrow> None
      | Some (name, _) \<Rightarrow>
          Some \<lparr> cr_Label = label, cr_Property = prop, cr_Name = name, cr_Kind = body ! 0 \<rparr>)))"

definition decodeIndexBody :: "bytes \<Rightarrow> IndexRecord option" where
  "decodeIndexBody body =
     (if length body < 1 then None
      else case readU16String (drop 1 body) of None \<Rightarrow> None
      | Some (name, rest) \<Rightarrow> (case readU16String rest of None \<Rightarrow> None
      | Some (label, rest) \<Rightarrow> (case readU16String rest of None \<Rightarrow> None
      | Some (prop, _) \<Rightarrow>
          Some \<lparr> ir_Name = name, ir_Label = label, ir_Property = prop, ir_Kind = body ! 0 \<rparr>)))"

type_synonym constraintSet = "bytes \<times> bytes \<times> byte \<rightharpoonup> ConstraintRecord"
type_synonym indexSet = "bytes \<rightharpoonup> IndexRecord"

definition constraintSetKey :: "ConstraintRecord \<Rightarrow> bytes \<times> bytes \<times> byte" where
  "constraintSetKey r = (cr_Label r, cr_Property r, cr_Kind r)"

definition constraint_applyCreate :: "ConstraintRecord \<Rightarrow> constraintSet \<Rightarrow> constraintSet" where
  "constraint_applyCreate r s = s(constraintSetKey r \<mapsto> r)"

definition constraint_applyDrop :: "ConstraintRecord \<Rightarrow> constraintSet \<Rightarrow> constraintSet" where
  "constraint_applyDrop r s = s(constraintSetKey r := None)"

definition index_applyCreate :: "IndexRecord \<Rightarrow> indexSet \<Rightarrow> indexSet" where
  "index_applyCreate r s = s(ir_Name r \<mapsto> r)"

definition index_applyDrop :: "bytes \<Rightarrow> indexSet \<Rightarrow> indexSet" where
  "index_applyDrop name s = s(name := None)"

text \<open>The result is \<open>None\<close> when the op is not of the schema kind, and otherwise whether its body
  decoded, with the set.\<close>

definition accumulateConstraintOp :: "rec_Op \<Rightarrow> constraintSet \<Rightarrow> (bool \<times> constraintSet) option" where
  "accumulateConstraintOp op cs =
     (if ro_Kind op = OpCreateConstraint then
        Some (case decodeConstraintBody (ro_Body op) of
                None \<Rightarrow> (False, cs) | Some r \<Rightarrow> (True, constraint_applyCreate r cs))
      else if ro_Kind op = OpDropConstraint then
        Some (case decodeConstraintBody (ro_Body op) of
                None \<Rightarrow> (False, cs) | Some r \<Rightarrow> (True, constraint_applyDrop r cs))
      else None)"

definition accumulateIndexOp :: "rec_Op \<Rightarrow> indexSet \<Rightarrow> (bool \<times> indexSet) option" where
  "accumulateIndexOp op is =
     (if ro_Kind op = OpCreateIndex then
        Some (case decodeIndexBody (ro_Body op) of
                None \<Rightarrow> (False, is) | Some r \<Rightarrow> (True, index_applyCreate r is))
      else if ro_Kind op = OpDropIndex then
        Some (case decodeIndexBody (ro_Body op) of
                None \<Rightarrow> (False, is) | Some r \<Rightarrow> (True, index_applyDrop (ir_Name r) is))
      else None)"

subsection \<open>The graph and the replay state\<close>

record ('g, 'n, 'w) Graph =
  g_AddNode :: "'n \<Rightarrow> 'g \<Rightarrow> bool \<times> 'g"
  g_RemoveNode :: "'n \<Rightarrow> 'g \<Rightarrow> bool \<times> 'g"
  g_NodeLabels :: "'g \<Rightarrow> 'n \<Rightarrow> bytes list"
  g_NodeProperties :: "'g \<Rightarrow> 'n \<Rightarrow> bytes list"
  g_SetNodeLabel :: "'n \<Rightarrow> bytes \<Rightarrow> 'g \<Rightarrow> bool \<times> 'g"
  g_RemoveNodeLabel :: "'n \<Rightarrow> bytes \<Rightarrow> 'g \<Rightarrow> bool \<times> 'g"
  g_SetNodeProperty :: "'n \<Rightarrow> bytes \<Rightarrow> PropertyValue \<Rightarrow> 'g \<Rightarrow> bool \<times> 'g"
  g_DelNodeProperty :: "'n \<Rightarrow> bytes \<Rightarrow> 'g \<Rightarrow> bool \<times> 'g"
  g_AddEdge :: "'n \<Rightarrow> 'n \<Rightarrow> 'w \<Rightarrow> 'g \<Rightarrow> bool \<times> 'g"
  g_AddEdgeHIfAbsent :: "'n \<Rightarrow> 'n \<Rightarrow> 'w \<Rightarrow> u64 \<Rightarrow> 'g \<Rightarrow> bool \<times> 'g"
  g_RemoveEdge :: "'n \<Rightarrow> 'n \<Rightarrow> 'g \<Rightarrow> bool \<times> 'g"
  g_RemoveEdgeByHandle :: "'n \<Rightarrow> 'n \<Rightarrow> u64 \<Rightarrow> 'g \<Rightarrow> bool \<times> 'g"
  g_RemoveEdgeInstanceByHandle :: "'n \<Rightarrow> 'n \<Rightarrow> u64 \<Rightarrow> 'g \<Rightarrow> bool \<times> 'g"
  g_SetEdgeLabel :: "'n \<Rightarrow> 'n \<Rightarrow> bytes \<Rightarrow> 'g \<Rightarrow> bool \<times> 'g"
  g_SetEdgeLabelByHandle :: "'n \<Rightarrow> 'n \<Rightarrow> u64 \<Rightarrow> bytes \<Rightarrow> 'g \<Rightarrow> bool \<times> 'g"
  g_SetEdgeProperty :: "'n \<Rightarrow> 'n \<Rightarrow> bytes \<Rightarrow> PropertyValue \<Rightarrow> 'g \<Rightarrow> bool \<times> 'g"
  g_DelEdgeProperty :: "'n \<Rightarrow> 'n \<Rightarrow> bytes \<Rightarrow> 'g \<Rightarrow> bool \<times> 'g"
  g_SetEdgePropertyByHandle :: "'n \<Rightarrow> 'n \<Rightarrow> u64 \<Rightarrow> bytes \<Rightarrow> PropertyValue \<Rightarrow> 'g \<Rightarrow> bool \<times> 'g"
  g_DelEdgePropertyByHandle :: "'n \<Rightarrow> 'n \<Rightarrow> u64 \<Rightarrow> bytes \<Rightarrow> 'g \<Rightarrow> bool \<times> 'g"
  g_SeedEdgeHandle :: "u64 \<Rightarrow> 'g \<Rightarrow> 'g"
  g_PlaceNodeID :: "'n \<Rightarrow> u64 \<Rightarrow> 'g \<Rightarrow> (bool \<times> 'g) option"
  g_UnplaceNodeID :: "'n \<Rightarrow> u64 \<Rightarrow> 'g \<Rightarrow> 'g"
  g_SettleNeverBorn :: "u64 \<Rightarrow> 'g \<Rightarrow> 'g"
  g_Lookup :: "'g \<Rightarrow> 'n \<Rightarrow> u64 option"
  g_Watermark :: "'g \<Rightarrow> u64 list"
  g_RestoreNext :: "nat \<Rightarrow> u64 \<Rightarrow> 'g \<Rightarrow> 'g"
  g_RestoreMVCCClock :: "u64 \<Rightarrow> 'g \<Rightarrow> 'g"

text \<open>The graph, the touched node labels and property keys, and the two schema accumulators.\<close>

record 'g rstate =
  rs_g :: 'g
  rs_labels :: "bytes set"
  rs_keys :: "bytes set"
  rs_cs :: constraintSet
  rs_is :: indexSet

type_synonym 'g action = "'g rstate \<Rightarrow> bool \<times> 'g rstate"

definition on_graph :: "('g \<Rightarrow> bool \<times> 'g) \<Rightarrow> 'g action" where
  "on_graph f s = (case f (rs_g s) of (b, g) \<Rightarrow> (b, s\<lparr> rs_g := g \<rparr>))"

definition and_then :: "'g action \<Rightarrow> 'g action \<Rightarrow> 'g action" where
  "and_then a b s = (case a s of (False, s1) \<Rightarrow> (False, s1) | (True, s1) \<Rightarrow> b s1)"

definition addLabel :: "bytes \<Rightarrow> 'g rstate \<Rightarrow> 'g rstate" where
  "addLabel label s = s\<lparr> rs_labels := insert label (rs_labels s) \<rparr>"

definition addKey :: "bytes \<Rightarrow> 'g rstate \<Rightarrow> 'g rstate" where
  "addKey key s = s\<lparr> rs_keys := insert key (rs_keys s) \<rparr>"

definition refuse :: "'g action" where "refuse s = (False, s)"

definition seed :: "('g, 'n, 'w) Graph \<Rightarrow> u64 \<Rightarrow> 'g action" where
  "seed G handle = on_graph (\<lambda>g. (True, g_SeedEdgeHandle G (handle + 1) g))"

subsection \<open>Applying an op\<close>

fun strip_labels :: "('g, 'n, 'w) Graph \<Rightarrow> 'n \<Rightarrow> bytes list \<Rightarrow> 'g action" where
  "strip_labels G src [] s = (True, s)"
| "strip_labels G src (l # ls) s =
     and_then (on_graph (g_RemoveNodeLabel G src l)) (strip_labels G src ls) (addLabel l s)"

fun strip_properties :: "('g, 'n, 'w) Graph \<Rightarrow> 'n \<Rightarrow> bytes list \<Rightarrow> 'g action" where
  "strip_properties G src [] s = (True, s)"
| "strip_properties G src (k # ks) s =
     and_then (on_graph (g_DelNodeProperty G src k)) (strip_properties G src ks) (addKey k s)"

definition replay_RemoveNode :: "('g, 'n, 'w) Graph \<Rightarrow> 'n \<Rightarrow> 'g action" where
  "replay_RemoveNode G src s =
     and_then (strip_labels G src (g_NodeLabels G (rs_g s) src))
       (\<lambda>s. and_then (strip_properties G src (g_NodeProperties G (rs_g s) src))
         (on_graph (g_RemoveNode G src)) s) s"

definition replayRemoveEdge :: "('g, 'n, 'w) Graph \<Rightarrow> 'n \<Rightarrow> 'n \<Rightarrow> 'g action" where
  "replayRemoveEdge G src dst = on_graph (g_RemoveEdge G src dst)"

definition trailingHandle :: "bytes \<Rightarrow> u64 option" where
  "trailingHandle rest = (if length rest < 8 then None else Some (get_le64 (take 8 rest)))"

definition edgeHTail :: "bytes \<Rightarrow> u64 option" where
  "edgeHTail rest =
     (if length rest < 2 then None
      else let n = unat (get_le16 rest); r = drop 2 rest
           in if length r \<noteq> n + 8 then None else trailingHandle (drop n r))"

definition insertEdgeH :: "('g, 'n, 'w) Graph \<Rightarrow> 'n \<Rightarrow> 'n \<Rightarrow> 'w \<Rightarrow> u64 \<Rightarrow> 'g action" where
  "insertEdgeH G src dst w handle =
     and_then (on_graph (g_AddEdgeHIfAbsent G src dst w handle)) (seed G handle)"

definition applyAddEdgeH ::
  "('g, 'n, 'w) Graph \<Rightarrow> 'w \<Rightarrow> 'w Codec option \<Rightarrow> 'n \<Rightarrow> 'n \<Rightarrow> bytes \<Rightarrow> 'g action" where
  "applyAddEdgeH G zeroW wc src dst rest =
     (let weightless = (case edgeHTail rest of None \<Rightarrow> refuse | Some handle \<Rightarrow> insertEdgeH G src dst zeroW handle)
      in case wc of None \<Rightarrow> weightless
         | Some w \<Rightarrow>
             (case cd_Decode w rest of Inl e \<Rightarrow> weightless
              | Inr (weight, tail) \<Rightarrow>
                  (case edgeHTail tail of None \<Rightarrow> weightless
                   | Some handle \<Rightarrow> insertEdgeH G src dst weight handle)))"

definition applySetEdgeLabelByHandle :: "('g, 'n, 'w) Graph \<Rightarrow> 'n \<Rightarrow> 'n \<Rightarrow> bytes \<Rightarrow> 'g action" where
  "applySetEdgeLabelByHandle G src dst rest =
     (case readU16String rest of None \<Rightarrow> refuse
      | Some (label, rest) \<Rightarrow> (case trailingHandle rest of None \<Rightarrow> refuse
      | Some handle \<Rightarrow> and_then (on_graph (g_SetEdgeLabelByHandle G src dst handle label)) (seed G handle)))"

definition applySetEdgePropertyByHandle :: "('g, 'n, 'w) Graph \<Rightarrow> 'n \<Rightarrow> 'n \<Rightarrow> bytes \<Rightarrow> 'g action" where
  "applySetEdgePropertyByHandle G src dst rest =
     (case readU16String rest of None \<Rightarrow> refuse
      | Some (key, rest) \<Rightarrow> (case decodeRecoveryPropertyValue rest of Inl e \<Rightarrow> refuse
      | Inr (val, rest) \<Rightarrow> (case trailingHandle rest of None \<Rightarrow> refuse
      | Some handle \<Rightarrow> and_then (on_graph (g_SetEdgePropertyByHandle G src dst handle key val)) (seed G handle))))"

definition applyDelEdgePropertyByHandle :: "('g, 'n, 'w) Graph \<Rightarrow> 'n \<Rightarrow> 'n \<Rightarrow> bytes \<Rightarrow> 'g action" where
  "applyDelEdgePropertyByHandle G src dst rest =
     (case readU16String rest of None \<Rightarrow> refuse
      | Some (key, rest) \<Rightarrow> (case trailingHandle rest of None \<Rightarrow> refuse
      | Some handle \<Rightarrow> and_then (on_graph (g_DelEdgePropertyByHandle G src dst handle key)) (seed G handle)))"

definition applyRemoveEdgeInstanceByHandle :: "('g, 'n, 'w) Graph \<Rightarrow> 'n \<Rightarrow> 'n \<Rightarrow> bytes \<Rightarrow> 'g action" where
  "applyRemoveEdgeInstanceByHandle G src dst rest =
     (case readU16String rest of None \<Rightarrow> refuse
      | Some (_, rest) \<Rightarrow> (case trailingHandle rest of None \<Rightarrow> refuse
      | Some handle \<Rightarrow> and_then (on_graph (g_RemoveEdgeInstanceByHandle G src dst handle)) (seed G handle)))"

definition applyRemoveEdgeByHandle :: "('g, 'n, 'w) Graph \<Rightarrow> 'n \<Rightarrow> 'n \<Rightarrow> bytes \<Rightarrow> 'g action" where
  "applyRemoveEdgeByHandle G src dst rest =
     (case readU16String rest of None \<Rightarrow> refuse
      | Some (_, rest) \<Rightarrow> (case trailingHandle rest of None \<Rightarrow> refuse
      | Some handle \<Rightarrow> and_then (on_graph (g_RemoveEdgeByHandle G src dst handle)) (seed G handle)))"

definition apply_labelled :: "('g, 'n, 'w) Graph \<Rightarrow> byte \<Rightarrow> 'n \<Rightarrow> 'n \<Rightarrow> bytes \<Rightarrow> 'g action" where
  "apply_labelled G k src dst rest =
     (case readU16String rest of None \<Rightarrow> refuse
      | Some (label, _) \<Rightarrow>
          if k = OpAddNode then on_graph (g_AddNode G src)
          else if k = OpRemoveNode then replay_RemoveNode G src
          else if k = OpRemoveNodeLabel then (\<lambda>s. on_graph (g_RemoveNodeLabel G src label) (addLabel label s))
          else if k = OpSetNodeLabel then (\<lambda>s. on_graph (g_SetNodeLabel G src label) (addLabel label s))
          else if k = OpSetEdgeLabel then on_graph (g_SetEdgeLabel G src dst label)
          else replayRemoveEdge G src dst)"

definition apply_property :: "('g, 'n, 'w) Graph \<Rightarrow> byte \<Rightarrow> 'n \<Rightarrow> 'n \<Rightarrow> bytes \<Rightarrow> 'g action" where
  "apply_property G k src dst rest =
     (case readU16String rest of None \<Rightarrow> refuse
      | Some (key, rest) \<Rightarrow>
          if k = OpSetNodeProperty then
            (case decodeRecoveryPropertyValue rest of Inl e \<Rightarrow> refuse
             | Inr (val, _) \<Rightarrow> (\<lambda>s. on_graph (g_SetNodeProperty G src key val) (addKey key s)))
          else if k = OpDelNodeProperty then (\<lambda>s. on_graph (g_DelNodeProperty G src key) (addKey key s))
          else if k = OpSetEdgeProperty then
            (case decodeRecoveryPropertyValue rest of Inl e \<Rightarrow> refuse
             | Inr (val, _) \<Rightarrow> on_graph (g_SetEdgeProperty G src dst key val))
          else on_graph (g_DelEdgeProperty G src dst key))"

definition applyDecodedOp ::
  "('g, 'n, 'w) Graph \<Rightarrow> 'w \<Rightarrow> 'w Codec option \<Rightarrow> byte \<Rightarrow> 'n \<Rightarrow> 'n \<Rightarrow> bytes \<Rightarrow> 'g action" where
  "applyDecodedOp G zeroW wc k src dst rest =
     (if k = OpAddEdgeWeighted then
        (case wc of None \<Rightarrow> refuse
         | Some w \<Rightarrow> (case cd_Decode w rest of Inl e \<Rightarrow> refuse
         | Inr (weight, rest) \<Rightarrow> if length rest < 2 then refuse else on_graph (g_AddEdge G src dst weight)))
      else if k = OpAddEdge then
        (case readU16String rest of None \<Rightarrow> refuse | Some _ \<Rightarrow> on_graph (g_AddEdge G src dst zeroW))
      else if k = OpSetNodeLabel \<or> k = OpRemoveNodeLabel \<or> k = OpSetEdgeLabel \<or> k = OpAddNode
          \<or> k = OpRemoveNode \<or> k = OpRemoveEdge then apply_labelled G k src dst rest
      else if k = OpAddEdgeH then applyAddEdgeH G zeroW wc src dst rest
      else if k = OpSetEdgeLabelByHandle then applySetEdgeLabelByHandle G src dst rest
      else if k = OpSetEdgePropertyByHandle then applySetEdgePropertyByHandle G src dst rest
      else if k = OpDelEdgePropertyByHandle then applyDelEdgePropertyByHandle G src dst rest
      else if k = OpRemoveEdgeInstanceByHandle then applyRemoveEdgeInstanceByHandle G src dst rest
      else if k = OpRemoveEdgeByHandle then applyRemoveEdgeByHandle G src dst rest
      else if k = OpSetNodeProperty \<or> k = OpDelNodeProperty \<or> k = OpSetEdgeProperty \<or> k = OpDelEdgeProperty
        then apply_property G k src dst rest
      else (\<lambda>s. (True, s)))"

definition decodeEndpoints :: "'n Codec \<Rightarrow> bytes \<Rightarrow> (codec_error, 'n \<times> 'n \<times> bytes) result" where
  "decodeEndpoints c body =
     result_bind (cd_Decode c body) (\<lambda>(src, rest).
     result_bind (cd_Decode c rest) (\<lambda>(dst, rest). Inr (src, dst, rest)))"

definition applyOpCodec ::
  "('g, 'n, 'w) Graph \<Rightarrow> 'w \<Rightarrow> 'n Codec \<Rightarrow> 'w Codec option \<Rightarrow> rec_Op \<Rightarrow> 'g action" where
  "applyOpCodec G zeroW c wc op =
     (if ro_Version op \<noteq> OpRecordV2 \<and> ro_Version op \<noteq> OpRecordV3 then refuse
      else case decodeEndpoints c (ro_Body op) of
        Inl e \<Rightarrow> refuse
      | Inr (src, dst, rest) \<Rightarrow> applyDecodedOp G zeroW wc (ro_Kind op) src dst rest)"

definition applyOrAccumulate ::
  "('g, 'n, 'w) Graph \<Rightarrow> 'w \<Rightarrow> 'n Codec \<Rightarrow> 'w Codec option \<Rightarrow> rec_Op \<Rightarrow> 'g action" where
  "applyOrAccumulate G zeroW c wc op s =
     (case accumulateConstraintOp op (rs_cs s) of
        Some (ok, cs) \<Rightarrow> (ok, s\<lparr> rs_cs := cs \<rparr>)
      | None \<Rightarrow>
          (case accumulateIndexOp op (rs_is s) of
             Some (ok, is) \<Rightarrow> (ok, s\<lparr> rs_is := is \<rparr>)
           | None \<Rightarrow> applyOpCodec G zeroW c wc op s))"

subsection \<open>What a logged op means\<close>

text \<open>
  The reference meaning of an op of a transaction, on its typed fields: the one method of the graph it
  names, with the labels and keys it touches and the handle it keeps from being drawn again, or the
  schema definition it adds or removes.
\<close>

definition op_weight :: "'w \<Rightarrow> 'w Codec option \<Rightarrow> ('n, 'w) Op \<Rightarrow> 'w" where
  "op_weight zeroW wc op = (if wc = None then zeroW else op_Weight op)"

definition op_constraint :: "('n, 'w) Op \<Rightarrow> ConstraintRecord" where
  "op_constraint op = \<lparr> cr_Label = op_Label op, cr_Property = op_Key op, cr_Name = op_ConstraintName op,
     cr_Kind = op_ConstraintKind op \<rparr>"

definition op_index :: "('n, 'w) Op \<Rightarrow> IndexRecord" where
  "op_index op = \<lparr> ir_Name = op_ConstraintName op, ir_Label = op_Label op, ir_Property = op_Key op,
     ir_Kind = op_IndexKind op \<rparr>"

definition by_handle :: "('g, 'n, 'w) Graph \<Rightarrow> ('n, 'w) Op \<Rightarrow> ('g \<Rightarrow> bool \<times> 'g) \<Rightarrow> 'g action" where
  "by_handle G op f = and_then (on_graph f) (seed G (op_Handle op))"

definition op_effect :: "('g, 'n, 'w) Graph \<Rightarrow> 'w \<Rightarrow> 'w Codec option \<Rightarrow> ('n, 'w) Op \<Rightarrow> 'g action" where
  "op_effect G zeroW wc op s =
     (let k = op_Kind op; src = op_Src op; dst = op_Dst op; h = op_Handle op in
      if k = OpAddNode then on_graph (g_AddNode G src) s
      else if k = OpRemoveNode then replay_RemoveNode G src s
      else if k = OpSetNodeLabel then on_graph (g_SetNodeLabel G src (op_Label op)) (addLabel (op_Label op) s)
      else if k = OpRemoveNodeLabel then on_graph (g_RemoveNodeLabel G src (op_Label op)) (addLabel (op_Label op) s)
      else if k = OpSetNodeProperty then
        on_graph (g_SetNodeProperty G src (op_Key op) (op_Value op)) (addKey (op_Key op) s)
      else if k = OpDelNodeProperty then on_graph (g_DelNodeProperty G src (op_Key op)) (addKey (op_Key op) s)
      else if k = OpAddEdgeH then by_handle G op (g_AddEdgeHIfAbsent G src dst (op_weight zeroW wc op) h) s
      else if k = OpRemoveEdge then on_graph (g_RemoveEdge G src dst) s
      else if k = OpSetEdgeLabel then on_graph (g_SetEdgeLabel G src dst (op_Label op)) s
      else if k = OpSetEdgeProperty then on_graph (g_SetEdgeProperty G src dst (op_Key op) (op_Value op)) s
      else if k = OpDelEdgeProperty then on_graph (g_DelEdgeProperty G src dst (op_Key op)) s
      else if k = OpSetEdgeLabelByHandle then by_handle G op (g_SetEdgeLabelByHandle G src dst h (op_Label op)) s
      else if k = OpSetEdgePropertyByHandle then
        by_handle G op (g_SetEdgePropertyByHandle G src dst h (op_Key op) (op_Value op)) s
      else if k = OpDelEdgePropertyByHandle then by_handle G op (g_DelEdgePropertyByHandle G src dst h (op_Key op)) s
      else if k = OpRemoveEdgeInstanceByHandle then by_handle G op (g_RemoveEdgeInstanceByHandle G src dst h) s
      else if k = OpRemoveEdgeByHandle then by_handle G op (g_RemoveEdgeByHandle G src dst h) s
      else if k = OpCreateConstraint then (True, s\<lparr> rs_cs := constraint_applyCreate (op_constraint op) (rs_cs s) \<rparr>)
      else if k = OpDropConstraint then (True, s\<lparr> rs_cs := constraint_applyDrop (op_constraint op) (rs_cs s) \<rparr>)
      else if k = OpCreateIndex then (True, s\<lparr> rs_is := index_applyCreate (op_index op) (rs_is s) \<rparr>)
      else (True, s\<lparr> rs_is := index_applyDrop (op_ConstraintName op) (rs_is s) \<rparr>))"

text \<open>The kinds the mutators buffer.\<close>

definition tx_kinds :: "byte list" where
  "tx_kinds = [OpAddNode, OpRemoveNode, OpSetNodeLabel, OpRemoveNodeLabel, OpSetNodeProperty, OpDelNodeProperty,
     OpAddEdgeH, OpRemoveEdge, OpSetEdgeLabel, OpSetEdgeProperty, OpDelEdgeProperty, OpSetEdgeLabelByHandle,
     OpSetEdgePropertyByHandle, OpDelEdgePropertyByHandle, OpRemoveEdgeInstanceByHandle, OpRemoveEdgeByHandle,
     OpCreateConstraint, OpDropConstraint, OpCreateIndex, OpDropIndex]"

text \<open>The values an op stores can be logged, and its keys and weight are ones the codecs support.\<close>

definition op_storable :: "('n \<Rightarrow> bool) \<Rightarrow> ('w \<Rightarrow> bool) \<Rightarrow> ('n, 'w) Op \<Rightarrow> bool" where
  "op_storable vn vw op \<longleftrightarrow> op_Kind op \<in> set tx_kinds \<and> vn (op_Src op) \<and> vn (op_Dst op) \<and> vw (op_Weight op) \<and>
     (op_Kind op \<in> {OpSetNodeProperty, OpSetEdgeProperty, OpSetEdgePropertyByHandle} \<longrightarrow> log_value (op_Value op))"

lemma checkWALSchemaString_ok: "checkWALSchemaString s = Inr u \<longleftrightarrow> length s \<le> 65535"
  by (auto simp: checkWALSchemaString_def maxWALSchemaStringLen_def)

lemma readU16String_append_u16 [simp]:
  "length s \<le> 65535 \<Longrightarrow> readU16String (put_le16 (of_nat (length s)) @ s @ rest) = Some (s, rest)"
  by (simp add: readU16String_def Let_def unat_of_nat)

lemma readU16String_empty [simp]: "readU16String (put_le16 0 @ rest) = Some ([], rest)"
  by (simp add: readU16String_def Let_def)

lemma trailingHandle_put [simp]:
  "trailingHandle (put_le64 h) = Some h" "trailingHandle (put_le64 h @ rest) = Some h"
  by (simp_all add: trailingHandle_def)

lemma edgeHTail_put [simp]:
  "length s \<le> 65535 \<Longrightarrow> edgeHTail (put_le16 (of_nat (length s)) @ s @ put_le64 h) = Some h"
  by (simp add: edgeHTail_def Let_def unat_of_nat)

lemma enc_keys_appends:
  assumes "codec_ok c vn"
    and "result_bind (enc_key c buf a) (\<lambda>buf. result_bind (enc_key c buf b) f) = Inr out"
  obtains ab bb where "key_bytes c a ab" "key_bytes c b bb" "f (buf @ ab @ bb) = Inr out"
proof -
  obtain b1 b2 where e: "enc_key c buf a = Inr b1" "enc_key c b1 b = Inr b2" "f b2 = Inr out"
    using assms(2) by (auto simp: result_bind_eq_Inr_iff)
  obtain ab where ab: "b1 = buf @ ab" "key_bytes c a ab"
    using enc_key_appends [OF assms(1) e(1)] by (auto simp: key_bytes_def)
  obtain bb where bb: "b2 = b1 @ bb" "key_bytes c b bb"
    using enc_key_appends [OF assms(1) e(2)] by (auto simp: key_bytes_def)
  show thesis using that ab bb e(3) by simp
qed

lemma decodeEndpoints_keys:
  "codec_ok c vn \<Longrightarrow> key_bytes c a ab \<Longrightarrow> key_bytes c b bb \<Longrightarrow> vn a \<Longrightarrow> vn b \<Longrightarrow>
     decodeEndpoints c (ab @ bb @ rest) = Inr (a, b, rest)"
  by (simp add: decodeEndpoints_def key_bytes_decode)

text \<open>Each body encoder writes the two keys and its own tail.\<close>

abbreviation u16_string :: "bytes \<Rightarrow> bytes" where
  "u16_string s \<equiv> put_le16 (of_nat (length s)) @ s"

definition keyed :: "'n Codec \<Rightarrow> 'n \<Rightarrow> 'n \<Rightarrow> bytes \<Rightarrow> bytes \<Rightarrow> bytes \<Rightarrow> bool" where
  "keyed c a b buf tail out \<longleftrightarrow> (\<exists>ab bb. key_bytes c a ab \<and> key_bytes c b bb \<and> out = buf @ ab @ bb @ tail)"

lemma body_shapes:
  assumes c: "codec_ok c vn"
  shows "encodeOpNodeOnly zeroN c buf op = Inr out \<Longrightarrow>
      length (op_Label op) \<le> 65535 \<and> keyed c (op_Src op) zeroN buf (u16_string (op_Label op)) out"
    and "encodeOpEdgeWithLabel c buf op = Inr out \<Longrightarrow>
      length (op_Label op) \<le> 65535 \<and> keyed c (op_Src op) (op_Dst op) buf (u16_string (op_Label op)) out"
    and "encodeOpEdgeNoTail c buf op = Inr out \<Longrightarrow> keyed c (op_Src op) (op_Dst op) buf (put_le16 0) out"
  unfolding encodeOpNodeOnly_def encodeOpEdgeWithLabel_def encodeOpEdgeNoTail_def append_u16_def
    result_bind_eq_Inr_iff [of "checkWALSchemaString _"] checkWALSchemaString_ok
  by (fastforce simp: keyed_def elim: enc_keys_appends [OF c])+

lemma value_tail:
  assumes "(if st then encodePropertyValue (append_u16 buf key) v else Inr (append_u16 buf key)) = Inr out"
  shows "\<exists>vb. out = buf @ u16_string key @ vb \<and> (if st then encodePropertyValue [] v = Inr vb else vb = [])"
  using assms encodePropertyValue_appends [of "append_u16 buf key" v]
  by (auto simp: append_u16_def result_bind_eq_Inr_iff split: if_splits)

lemma property_shapes:
  assumes c: "codec_ok c vn"
  shows "encodeOpNodeProperty zeroN c buf op = Inr out \<Longrightarrow> length (op_Key op) \<le> 65535 \<and>
      (\<exists>vb. keyed c (op_Src op) zeroN buf (u16_string (op_Key op) @ vb) out \<and>
        (if op_Kind op = OpSetNodeProperty then encodePropertyValue [] (op_Value op) = Inr vb else vb = []))"
    and "encodeOpEdgeProperty c buf op = Inr out \<Longrightarrow> length (op_Key op) \<le> 65535 \<and>
      (\<exists>vb. keyed c (op_Src op) (op_Dst op) buf (u16_string (op_Key op) @ vb) out \<and>
        (if op_Kind op = OpSetEdgeProperty \<or> op_Kind op = OpSetEdgePropertyByHandle
         then encodePropertyValue [] (op_Value op) = Inr vb else vb = []))"
  unfolding encodeOpNodeProperty_def encodeOpEdgeProperty_def
    result_bind_eq_Inr_iff [of "checkWALSchemaString _"] checkWALSchemaString_ok Let_def
  by (fastforce simp: keyed_def elim: enc_keys_appends [OF c] dest: value_tail)+

lemma weighted_shape:
  assumes c: "codec_ok c vn" and w: "\<And>w. wc = Some w \<Longrightarrow> codec_ok w vw"
    and e: "encodeOpEdgeWeighted c wc buf op = Inr out"
  shows "length (op_Label op) \<le> 65535 \<and>
    (\<exists>wb. keyed c (op_Src op) (op_Dst op) buf (wb @ u16_string (op_Label op)) out \<and>
      (case wc of None \<Rightarrow> wb = [] | Some w \<Rightarrow> key_bytes w (op_Weight op) wb))"
proof -
  have l: "length (op_Label op) \<le> 65535"
    and "result_bind (enc_key c buf (op_Src op)) (\<lambda>buf. result_bind (enc_key c buf (op_Dst op)) (\<lambda>buf.
      result_bind (case wc of None \<Rightarrow> Inr buf | Some w \<Rightarrow> enc_key w buf (op_Weight op)) (\<lambda>buf.
      Inr (append_u16 buf (op_Label op))))) = Inr out"
    using e by (auto simp: encodeOpEdgeWeighted_def result_bind_eq_Inr_iff [of "checkWALSchemaString _"]
        checkWALSchemaString_ok)
  from enc_keys_appends [OF c this(2)] obtain ab bb where k: "key_bytes c (op_Src op) ab" "key_bytes c (op_Dst op) bb"
    and r: "result_bind (case wc of None \<Rightarrow> Inr (buf @ ab @ bb) | Some w \<Rightarrow> enc_key w (buf @ ab @ bb) (op_Weight op))
      (\<lambda>buf. Inr (append_u16 buf (op_Label op))) = Inr out" by blast
  show ?thesis
  proof (cases wc)
    case None
    then have "out = buf @ ab @ bb @ [] @ u16_string (op_Label op)" using r by (simp add: append_u16_def)
    then have "keyed c (op_Src op) (op_Dst op) buf ([] @ u16_string (op_Label op)) out"
      using k unfolding keyed_def by auto
    then show ?thesis using l None by auto
  next
    case (Some w')
    then obtain b where b: "enc_key w' (buf @ ab @ bb) (op_Weight op) = Inr b" "out = append_u16 b (op_Label op)"
      using r by (auto simp: result_bind_eq_Inr_iff)
    obtain wb where "b = (buf @ ab @ bb) @ wb" "cd_Encode w' [] (op_Weight op) = Inr wb"
      using enc_key_appends [OF w [OF Some] b(1)] by auto
    then show ?thesis using l k b(2) Some by (auto simp: keyed_def key_bytes_def append_u16_def)
  qed
qed

definition recorded :: "byte \<Rightarrow> byte \<Rightarrow> u64 \<Rightarrow> bytes \<Rightarrow> rec_Op" where
  "recorded ver k seq body = \<lparr> ro_Version = ver, ro_Kind = k, ro_TxnSeq = seq, ro_Body = body \<rparr>"

definition replays :: "('g, 'n, 'w) Graph \<Rightarrow> 'w \<Rightarrow> 'n Codec \<Rightarrow> 'w Codec option \<Rightarrow> byte \<Rightarrow> bytes \<Rightarrow> 'g action \<Rightarrow> bool" where
  "replays G zeroW c wc k body a \<longleftrightarrow> (\<forall>ver seq s. ver = OpRecordV2 \<or> ver = OpRecordV3 \<longrightarrow>
     applyOrAccumulate G zeroW c wc (recorded ver k seq body) s = a s)"

lemma keyed_replays:
  assumes "keyed c a b buf tail out" "codec_ok c vn" "vn a" "vn b"
    and "k \<notin> {OpCreateConstraint, OpDropConstraint, OpCreateIndex, OpDropIndex}"
  shows "\<exists>body. out = buf @ body \<and> replays G zeroW c wc k body (applyDecodedOp G zeroW wc k a b tail)"
proof -
  obtain ab bb where kb: "key_bytes c a ab" "key_bytes c b bb" "out = buf @ ab @ bb @ tail"
    using assms(1) by (auto simp: keyed_def)
  have "decodeEndpoints c (ab @ bb @ tail) = Inr (a, b, tail)"
    using decodeEndpoints_keys [OF assms(2) kb(1,2) assms(3,4)] .
  then show ?thesis using kb(3) assms(5)
    by (auto simp: replays_def recorded_def applyOrAccumulate_def accumulateConstraintOp_def accumulateIndexOp_def
        applyOpCodec_def)
qed

lemmas op_effect_defs = applyDecodedOp_def apply_labelled_def apply_property_def op_effect_def Let_def fun_eq_iff
  applySetEdgeLabelByHandle_def applySetEdgePropertyByHandle_def applyDelEdgePropertyByHandle_def
  applyRemoveEdgeInstanceByHandle_def applyRemoveEdgeByHandle_def by_handle_def replayRemoveEdge_def

lemma schema_replays:
  assumes "k = OpCreateConstraint \<or> k = OpDropConstraint" "op_Kind op = k" "appendOpConstraintBody buf op = Inr out"
  shows "\<exists>body. out = buf @ body \<and> replays G zeroW c wc k body (op_effect G zeroW wc op)"
proof -
  let ?body = "op_ConstraintKind op # u16_string (op_Label op) @ u16_string (op_Key op) @ u16_string (op_ConstraintName op)"
  have l: "length (op_Label op) \<le> 65535" "length (op_Key op) \<le> 65535" "length (op_ConstraintName op) \<le> 65535"
    and o: "out = buf @ ?body"
    using assms(3) by (auto simp: appendOpConstraintBody_def result_bind_eq_Inr_iff checkWALSchemaString_ok append_u16_def)
  have "decodeConstraintBody ?body = Some (op_constraint op)"
    using l readU16String_append_u16 [OF l(3), of "[]"] by (simp add: decodeConstraintBody_def op_constraint_def)
  then have "replays G zeroW c wc k ?body (op_effect G zeroW wc op)" using assms(1,2)
    by (auto simp: replays_def recorded_def applyOrAccumulate_def accumulateConstraintOp_def op_effect_def)
  then show ?thesis using o by blast
qed

lemma index_replays:
  assumes "k = OpCreateIndex \<or> k = OpDropIndex" "op_Kind op = k" "appendOpIndexBody buf op = Inr out"
  shows "\<exists>body. out = buf @ body \<and> replays G zeroW c wc k body (op_effect G zeroW wc op)"
proof -
  let ?body = "op_IndexKind op # u16_string (op_ConstraintName op) @ u16_string (op_Label op) @ u16_string (op_Key op)"
  have l: "length (op_Label op) \<le> 65535" "length (op_Key op) \<le> 65535" "length (op_ConstraintName op) \<le> 65535"
    and o: "out = buf @ ?body"
    using assms(3) by (auto simp: appendOpIndexBody_def result_bind_eq_Inr_iff checkWALSchemaString_ok append_u16_def)
  have "decodeIndexBody ?body = Some (op_index op)"
    using l readU16String_append_u16 [OF l(2), of "[]"] by (simp add: decodeIndexBody_def op_index_def)
  then have "replays G zeroW c wc k ?body (op_effect G zeroW wc op)" using assms(1,2)
    by (auto simp: replays_def recorded_def applyOrAccumulate_def accumulateConstraintOp_def accumulateIndexOp_def
        op_effect_def op_index_def)
  then show ?thesis using o by blast
qed

lemma with_handle_eq: "with_handle op r = Inr out \<longleftrightarrow> (\<exists>b. r = Inr b \<and> out = b @ put_le64 (op_Handle op))"
  by (auto simp: with_handle_def result_bind_eq_Inr_iff)

lemma keyed_append: "keyed c x y buf tail b \<Longrightarrow> keyed c x y buf (tail @ t) (b @ t)"
  by (auto simp: keyed_def)

lemma labelled_replays:
  assumes c: "codec_ok c vn" and v: "vn zeroN" "op_storable vn vw op"
    and k: "op_Kind op \<in> {OpAddNode, OpRemoveNode, OpRemoveNodeLabel, OpRemoveEdge, OpSetNodeLabel, OpSetEdgeLabel}"
    and e: "appendOpBodyTyped zeroN c wc buf op = Inr out"
  shows "\<exists>body. out = buf @ body \<and> replays G zeroW c wc (op_Kind op) body (op_effect G zeroW wc op)"
proof -
  have vn: "vn (op_Src op)" "vn (op_Dst op)" using v by (simp_all add: op_storable_def)
  obtain b tail label where t: "keyed c (op_Src op) b buf tail out" "vn b" "readU16String tail = Some (label, [])"
    "op_Kind op \<in> {OpSetEdgeLabel, OpRemoveEdge} \<Longrightarrow> b = op_Dst op" "op_Kind op \<noteq> OpRemoveEdge \<Longrightarrow> label = op_Label op"
  proof (cases "op_Kind op \<in> {OpAddNode, OpRemoveNode, OpRemoveNodeLabel}")
    case True
    then have "encodeOpNodeOnly zeroN c buf op = Inr out" using e by (auto simp: appendOpBodyTyped_def)
    from body_shapes(1) [OF c this] True v(1) that show thesis
      using readU16String_append_u16 [of "op_Label op" "[]"] by force
  next
    case node: False
    show thesis
    proof (cases "op_Kind op = OpRemoveEdge")
      case True
      then have "encodeOpEdgeNoTail c buf op = Inr out" using e by (simp add: appendOpBodyTyped_def)
      from body_shapes(3) [OF c this] True vn(2) that show thesis using readU16String_empty [of "[]"] by force
    next
      case False
      then have "encodeOpEdgeWithLabel c buf op = Inr out" using e k node by (auto simp: appendOpBodyTyped_def)
      from body_shapes(2) [OF c this] False vn(2) that show thesis
        using readU16String_append_u16 [of "op_Label op" "[]"] by force
    qed
  qed
  obtain body where body: "out = buf @ body"
      "replays G zeroW c wc (op_Kind op) body (applyDecodedOp G zeroW wc (op_Kind op) (op_Src op) b tail)"
    using keyed_replays [OF t(1) c vn(1) t(2), of "op_Kind op" G zeroW wc] k by fastforce
  moreover have "applyDecodedOp G zeroW wc (op_Kind op) (op_Src op) b tail = op_effect G zeroW wc op"
    using k t(3-5) by (auto simp: op_effect_defs)
  ultimately show ?thesis by auto
qed

lemma property_replays:
  assumes c: "codec_ok c vn" and v: "vn zeroN" "op_storable vn vw op"
    and k: "op_Kind op \<in> {OpSetNodeProperty, OpDelNodeProperty, OpSetEdgeProperty, OpDelEdgeProperty}"
    and e: "appendOpBodyTyped zeroN c wc buf op = Inr out"
  shows "\<exists>body. out = buf @ body \<and> replays G zeroW c wc (op_Kind op) body (op_effect G zeroW wc op)"
proof -
  have vn: "vn (op_Src op)" "vn (op_Dst op)" using v by (simp_all add: op_storable_def)
  have set_value: "decodeRecoveryPropertyValue vb = Inr (op_Value op, [])"
    if "op_Kind op \<in> {OpSetNodeProperty, OpSetEdgeProperty}" "encodePropertyValue [] (op_Value op) = Inr vb" for vb
    using encodePropertyValue_round_trip [OF that(2), of "[]"] that(1) v(2) by (auto simp: op_storable_def)
  obtain b vb where t: "keyed c (op_Src op) b buf (u16_string (op_Key op) @ vb) out" "vn b" "length (op_Key op) \<le> 65535"
    "op_Kind op \<in> {OpSetEdgeProperty, OpDelEdgeProperty} \<Longrightarrow> b = op_Dst op"
    "op_Kind op \<in> {OpSetNodeProperty, OpSetEdgeProperty} \<Longrightarrow> decodeRecoveryPropertyValue vb = Inr (op_Value op, [])"
  proof (cases "op_Kind op \<in> {OpSetNodeProperty, OpDelNodeProperty}")
    case True
    then have "encodeOpNodeProperty zeroN c buf op = Inr out" using e by (auto simp: appendOpBodyTyped_def)
    from property_shapes(1) [OF c this] obtain vb where "length (op_Key op) \<le> 65535"
      "keyed c (op_Src op) zeroN buf (u16_string (op_Key op) @ vb) out"
      "op_Kind op = OpSetNodeProperty \<Longrightarrow> encodePropertyValue [] (op_Value op) = Inr vb" by auto
    with True v(1) set_value show thesis by (intro that [of zeroN vb]) auto
  next
    case False
    then have "encodeOpEdgeProperty c buf op = Inr out" using e k by (auto simp: appendOpBodyTyped_def)
    from property_shapes(2) [OF c this] obtain vb where "length (op_Key op) \<le> 65535"
      "keyed c (op_Src op) (op_Dst op) buf (u16_string (op_Key op) @ vb) out"
      "op_Kind op = OpSetEdgeProperty \<Longrightarrow> encodePropertyValue [] (op_Value op) = Inr vb" by auto
    with False vn(2) set_value show thesis by (intro that [of "op_Dst op" vb]) auto
  qed
  obtain body where body: "out = buf @ body"
      "replays G zeroW c wc (op_Kind op) body
         (applyDecodedOp G zeroW wc (op_Kind op) (op_Src op) b (u16_string (op_Key op) @ vb))"
    using keyed_replays [OF t(1) c vn(1) t(2), of "op_Kind op" G zeroW wc] k by fastforce
  moreover have "applyDecodedOp G zeroW wc (op_Kind op) (op_Src op) b (u16_string (op_Key op) @ vb) = op_effect G zeroW wc op"
    using k t(3-5) by (auto simp: op_effect_defs)
  ultimately show ?thesis by auto
qed

lemma handle_replays:
  assumes c: "codec_ok c vn" and v: "op_storable vn vw op"
    and k: "op_Kind op \<in> {OpSetEdgeLabelByHandle, OpSetEdgePropertyByHandle, OpDelEdgePropertyByHandle,
      OpRemoveEdgeInstanceByHandle, OpRemoveEdgeByHandle}"
    and e: "appendOpBodyTyped zeroN c wc buf op = Inr out"
  shows "\<exists>body. out = buf @ body \<and> replays G zeroW c wc (op_Kind op) body (op_effect G zeroW wc op)"
proof -
  have vn: "vn (op_Src op)" "vn (op_Dst op)" using v by (simp_all add: op_storable_def)
  let ?h = "put_le64 (op_Handle op)"
  have "\<exists>tail. keyed c (op_Src op) (op_Dst op) buf tail out \<and>
      applyDecodedOp G zeroW wc (op_Kind op) (op_Src op) (op_Dst op) tail = op_effect G zeroW wc op"
  proof -
    consider (label) "op_Kind op = OpSetEdgeLabelByHandle" | (property) "op_Kind op \<in> {OpSetEdgePropertyByHandle, OpDelEdgePropertyByHandle}"
      | (removal) "op_Kind op \<in> {OpRemoveEdgeInstanceByHandle, OpRemoveEdgeByHandle}" using k by auto
    then show ?thesis
    proof cases
      case label
      then have "with_handle op (encodeOpEdgeWithLabel c buf op) = Inr out" using e by (simp add: appendOpBodyTyped_def)
      then obtain b where b: "encodeOpEdgeWithLabel c buf op = Inr b" "out = b @ ?h"
        unfolding with_handle_eq by blast
      note sh = body_shapes(2) [OF c b(1)]
      have "applyDecodedOp G zeroW wc (op_Kind op) (op_Src op) (op_Dst op) (u16_string (op_Label op) @ ?h) = op_effect G zeroW wc op"
        using sh label by (simp add: op_effect_defs)
      then show ?thesis using keyed_append [OF conjunct2 [OF sh], of ?h] b(2) by blast
    next
      case property
      then have "with_handle op (encodeOpEdgeProperty c buf op) = Inr out" using e by (auto simp: appendOpBodyTyped_def)
      then obtain b where b: "encodeOpEdgeProperty c buf op = Inr b" "out = b @ ?h"
        unfolding with_handle_eq by blast
      obtain vb where sh: "length (op_Key op) \<le> 65535" "keyed c (op_Src op) (op_Dst op) buf (u16_string (op_Key op) @ vb) b"
        "op_Kind op = OpSetEdgePropertyByHandle \<Longrightarrow> encodePropertyValue [] (op_Value op) = Inr vb"
        "op_Kind op = OpDelEdgePropertyByHandle \<Longrightarrow> vb = []"
        using property_shapes(2) [OF c b(1)] by (auto split: if_splits)
      have "applyDecodedOp G zeroW wc (op_Kind op) (op_Src op) (op_Dst op) ((u16_string (op_Key op) @ vb) @ ?h) = op_effect G zeroW wc op"
        using sh(1) property v encodePropertyValue_round_trip [OF sh(3), of ?h] sh(4)
        by (auto simp: op_effect_defs op_storable_def)
      then show ?thesis using keyed_append [OF sh(2), of ?h] b(2) by blast
    next
      case removal
      then have "with_handle op (encodeOpEdgeNoTail c buf op) = Inr out" using e by (auto simp: appendOpBodyTyped_def)
      then obtain b where b: "encodeOpEdgeNoTail c buf op = Inr b" "out = b @ ?h"
        unfolding with_handle_eq by blast
      have "applyDecodedOp G zeroW wc (op_Kind op) (op_Src op) (op_Dst op) (put_le16 0 @ ?h) = op_effect G zeroW wc op"
        using removal by (auto simp: op_effect_defs)
      then show ?thesis using keyed_append [OF body_shapes(3) [OF c b(1)], of ?h] b(2) by blast
    qed
  qed
  then obtain tail where t: "keyed c (op_Src op) (op_Dst op) buf tail out"
    "applyDecodedOp G zeroW wc (op_Kind op) (op_Src op) (op_Dst op) tail = op_effect G zeroW wc op" by blast
  show ?thesis using keyed_replays [OF t(1) c vn, of "op_Kind op" G zeroW wc] k t(2) by fastforce
qed

lemma add_edge_replays:
  assumes c: "codec_ok c vn" and w: "\<And>w. wc = Some w \<Longrightarrow> codec_ok w vw" and v: "op_storable vn vw op"
    and k: "op_Kind op = OpAddEdgeH" and e: "appendOpBodyTyped zeroN c wc buf op = Inr out"
  shows "\<exists>body. out = buf @ body \<and> replays G zeroW c wc (op_Kind op) body (op_effect G zeroW wc op)"
proof -
  have vn: "vn (op_Src op)" "vn (op_Dst op)" "vw (op_Weight op)" using v by (simp_all add: op_storable_def)
  let ?h = "put_le64 (op_Handle op)"
  have "with_handle op (encodeOpEdgeWeighted c wc buf op) = Inr out" using e k by (simp add: appendOpBodyTyped_def)
  then obtain b where b: "encodeOpEdgeWeighted c wc buf op = Inr b" "out = b @ ?h" unfolding with_handle_eq by blast
  obtain wb where sh: "length (op_Label op) \<le> 65535" "keyed c (op_Src op) (op_Dst op) buf (wb @ u16_string (op_Label op)) b"
    "case wc of None \<Rightarrow> wb = [] | Some w \<Rightarrow> key_bytes w (op_Weight op) wb"
    using weighted_shape [OF c w b(1)] by blast
  have "applyDecodedOp G zeroW wc (op_Kind op) (op_Src op) (op_Dst op) ((wb @ u16_string (op_Label op)) @ ?h) = op_effect G zeroW wc op"
    using sh(1,3) k vn(3) key_bytes_decode [OF w]
    by (cases wc) (auto simp: op_effect_defs applyAddEdgeH_def insertEdgeH_def op_weight_def)
  then show ?thesis
    using keyed_replays [OF keyed_append [OF sh(2), of ?h] c vn(1,2), of "op_Kind op" G zeroW wc] k b(2) by fastforce
qed

lemma logged_op_replays:
  assumes c: "codec_ok c vn" and w: "\<And>w. wc = Some w \<Longrightarrow> codec_ok w vw"
    and v: "vn zeroN" "op_storable vn vw op" and e: "appendOpBodyTyped zeroN c wc buf op = Inr out"
  shows "\<exists>body. out = buf @ body \<and> replays G zeroW c wc (op_Kind op) body (op_effect G zeroW wc op)"
proof -
  have "op_Kind op \<in> set tx_kinds" using v(2) by (simp add: op_storable_def)
  then consider "op_Kind op \<in> {OpAddNode, OpRemoveNode, OpRemoveNodeLabel, OpRemoveEdge, OpSetNodeLabel, OpSetEdgeLabel}"
    | "op_Kind op \<in> {OpSetNodeProperty, OpDelNodeProperty, OpSetEdgeProperty, OpDelEdgeProperty}"
    | "op_Kind op \<in> {OpSetEdgeLabelByHandle, OpSetEdgePropertyByHandle, OpDelEdgePropertyByHandle,
        OpRemoveEdgeInstanceByHandle, OpRemoveEdgeByHandle}"
    | "op_Kind op = OpAddEdgeH" | (schema) "op_Kind op = OpCreateConstraint \<or> op_Kind op = OpDropConstraint"
    | (index) "op_Kind op = OpCreateIndex \<or> op_Kind op = OpDropIndex" unfolding tx_kinds_def by auto
  then show ?thesis
  proof cases
    case schema
    then have "appendOpConstraintBody buf op = Inr out" using e by (auto simp: appendOpBodyTyped_def)
    then show ?thesis using schema_replays [OF schema refl] by blast
  next
    case index
    then have "appendOpIndexBody buf op = Inr out" using e by (auto simp: appendOpBodyTyped_def)
    then show ?thesis using index_replays [OF index refl] by blast
  qed (rule labelled_replays [OF c v _ e] property_replays [OF c v _ e] handle_replays [OF c v(2) _ e]
      add_edge_replays [OF c w v(2) _ e]; assumption)+
qed

subsection \<open>Properties\<close>

text \<open>
  An op a transaction logs is what recovery replays: for every kind the mutators buffer,
  codecs that fulfil their contract and a value the log can carry, the v3 record written for the op
  decodes to a record of its transaction and kind, and applying that record performs exactly the
  graph method, the touched labels and keys, the handle reservation or the schema change the op
  stands for; so does the v2 record.
\<close>

theorem logged_op_round_trip:
  assumes codecs: "codec_ok c vn" "\<And>w. wc = Some w \<Longrightarrow> codec_ok w vw"
    and op: "vn zeroN" "op_storable vn vw op"
  shows "(\<forall>out. encodeOpTypedV3Into zeroN c wc seq [] op = Inr out \<longrightarrow>
      (\<exists>r. rec_Decode out = Inr r \<and> ro_Version r = OpRecordV3 \<and> ro_TxnSeq r = seq \<and> ro_Kind r = op_Kind op \<and>
        applyOrAccumulate G zeroW c wc r = op_effect G zeroW wc op)) \<and>
    (\<forall>out. encodeOpTyped zeroN c wc op = Inr out \<longrightarrow>
      (\<exists>r. rec_Decode out = Inr r \<and> ro_Version r = OpRecordV2 \<and> ro_Kind r = op_Kind op \<and>
        applyOrAccumulate G zeroW c wc r = op_effect G zeroW wc op))"
proof (intro conjI allI impI)
  fix out
  assume "encodeOpTypedV3Into zeroN c wc seq [] op = Inr out"
  then obtain body where b: "out = ([] @ [OpRecordV3, op_Kind op] @ put_le64 seq) @ body"
      "replays G zeroW c wc (op_Kind op) body (op_effect G zeroW wc op)"
    using logged_op_replays [OF codecs op] unfolding encodeOpTypedV3Into_def by blast
  have "rec_Decode out = Inr (recorded OpRecordV3 (op_Kind op) seq body)"
    unfolding b(1) by (simp add: rec_Decode_def decodeV3_def recorded_def)
  then show "\<exists>r. rec_Decode out = Inr r \<and> ro_Version r = OpRecordV3 \<and> ro_TxnSeq r = seq \<and> ro_Kind r = op_Kind op \<and>
      applyOrAccumulate G zeroW c wc r = op_effect G zeroW wc op"
    using b(2) by (auto simp: replays_def recorded_def fun_eq_iff)
next
  fix out
  assume "encodeOpTyped zeroN c wc op = Inr out"
  then obtain body where b: "out = [OpRecordV2, op_Kind op] @ body"
      "replays G zeroW c wc (op_Kind op) body (op_effect G zeroW wc op)"
    using logged_op_replays [OF codecs op] unfolding encodeOpTyped_def by blast
  have "rec_Decode out = Inr (recorded OpRecordV2 (op_Kind op) 0 body)"
    unfolding b(1) by (simp add: rec_Decode_def decodeV2_def recorded_def)
  then show "\<exists>r. rec_Decode out = Inr r \<and> ro_Version r = OpRecordV2 \<and> ro_Kind r = op_Kind op \<and>
      applyOrAccumulate G zeroW c wc r = op_effect G zeroW wc op"
    using b(2) by (auto simp: replays_def recorded_def fun_eq_iff)
qed

text \<open>The codec of string keys, and one instance: a logged \<open>AddNode\<close> of any graph.\<close>

definition string_Codec :: "bytes Codec" where
  "string_Codec = \<lparr> cd_Encode = string_Encode, cd_Decode = string_Decode \<rparr>"

lemma string_Codec_ok: "codec_ok string_Codec (\<lambda>_. True)"
  using string_codec.codec_axioms by (simp add: string_Codec_def)

theorem logged_op_round_trip_witness:
  "\<forall>G :: ('g, bytes, u64) Graph. \<exists>r.
     rec_Decode ([0xFD, 5] @ put_le64 7 @ put_le32 1 @ [65] @ put_le32 0 @ put_le16 0) = Inr r \<and>
     ro_TxnSeq r = 7 \<and> applyOrAccumulate G 0 string_Codec None r = on_graph (g_AddNode G [65])"
proof
  fix G :: "('g, bytes, u64) Graph"
  let ?op = "(zero_op [] (0 :: u64) OpAddNode)\<lparr> op_Src := [65 :: byte] \<rparr>"
  have e: "encodeOpTypedV3Into [] string_Codec None 7 [] ?op =
      Inr ([0xFD, 5] @ put_le64 7 @ put_le32 1 @ [65] @ put_le32 0 @ put_le16 0)"
    by (simp add: encodeOpTypedV3Into_def appendOpBodyTyped_def encodeOpNodeOnly_def zero_op_def append_u16_def
        checkWALSchemaString_def enc_key_def string_Codec_def string_Encode_def)
  have s: "op_storable (\<lambda>_. True) (\<lambda>_. True) ?op" by (simp add: op_storable_def tx_kinds_def zero_op_def)
  have f: "op_effect G 0 None ?op = on_graph (g_AddNode G [65])"
    by (simp add: op_effect_def zero_op_def fun_eq_iff)
  show "\<exists>r. rec_Decode ([0xFD, 5] @ put_le64 7 @ put_le32 1 @ [65] @ put_le32 0 @ put_le16 0) = Inr r \<and>
     ro_TxnSeq r = 7 \<and> applyOrAccumulate G 0 string_Codec None r = on_graph (g_AddNode G [65])"
    using conjunct1 [OF logged_op_round_trip [OF string_Codec_ok, where wc = None and vw = "\<lambda>_. True"
          and zeroN = "[]" and op = ?op and G = G and zeroW = 0 and seq = 7], rule_format, OF _ _ s e] f
    by auto
qed

text \<open>
  An edge insertion logged by a store without a weight codec, replayed by a caller that
  supplies one, is not mistaken for a weighted record: if decoding a weight always consumes input,
  the edge is inserted with the zero weight and the handle the record names, and that handle is kept
  from being drawn again.
\<close>

theorem weightless_edge_not_confused:
  assumes consumes: "\<And>buf v rest. cd_Decode w buf = Inr (v, rest) \<Longrightarrow> length rest < length buf"
  shows "applyAddEdgeH G zeroW (Some w) src dst (put_le16 0 @ put_le64 handle) =
    and_then (on_graph (g_AddEdgeHIfAbsent G src dst zeroW handle)) (seed G handle)"
proof -
  let ?rest = "put_le16 0 @ put_le64 handle"
  have t: "edgeHTail ?rest = Some handle" by (simp add: edgeHTail_def)
  have "edgeHTail tail = None" if d: "cd_Decode w ?rest = Inr (v, tail)" for v tail
    using consumes [OF d] by (auto simp: edgeHTail_def Let_def trailingHandle_def)
  then show ?thesis using t
    by (auto simp: applyAddEdgeH_def insertEdgeH_def Let_def split: sum.splits)
qed

theorem weightless_edge_not_confused_witness:
  "\<forall>G :: ('g, bytes, u64) Graph. applyAddEdgeH G 0 (Some \<lparr> cd_Encode = float64_Encode, cd_Decode = float64_Decode \<rparr>)
     [1] [2] (put_le16 0 @ put_le64 9) = and_then (on_graph (g_AddEdgeHIfAbsent G [1] [2] 0 9)) (seed G 9)"
proof
  fix G :: "('g, bytes, u64) Graph"
  show "applyAddEdgeH G 0 (Some \<lparr> cd_Encode = float64_Encode, cd_Decode = float64_Decode \<rparr>)
     [1] [2] (put_le16 0 @ put_le64 9) = and_then (on_graph (g_AddEdgeHIfAbsent G [1] [2] 0 9)) (seed G 9)"
    by (rule weightless_edge_not_confused) (auto simp: float64_Decode_def split: if_splits)
qed

end
