(* ===== verification/Commit_Annex.thy ===== *)
theory Commit_Annex
  imports Recovery_Apply
begin

text \<open>
  The id annex of a commit marker: the exact node ids the transaction assigned, written by
  \<open>store/txn/annex.go\<close> and bound again by \<open>store/recovery/annex.go\<close> before the ops replay. An entry
  names its key by reference to a key slot of an op of the same transaction, or carries it inline.
\<close>

subsection \<open>Building the annex\<close>

definition NodeKeySlots :: "byte \<Rightarrow> bool \<times> bool" where
  "NodeKeySlots k =
     (if k = OpAddNode \<or> k = OpSetNodeLabel \<or> k = OpSetNodeProperty then (True, False)
      else if k = OpAddEdge \<or> k = OpAddEdgeWeighted \<or> k = OpAddEdgeH then (True, True)
      else (False, False))"

record 'n annexEntry =
  ae_key :: 'n
  ae_ref :: u64
  ae_id :: u64

text \<open>The refs of the two slots of the op at an index.\<close>

definition src_ref :: "nat \<Rightarrow> u64" where "src_ref i = 1 + 2 * of_nat i"
definition dst_ref :: "nat \<Rightarrow> u64" where "dst_ref i = 2 + 2 * of_nat i"

fun firstRef_from :: "nat \<Rightarrow> ('n, 'w) Op list \<Rightarrow> 'n \<Rightarrow> u64" where
  "firstRef_from i [] k = 0"
| "firstRef_from i (op # ops) k =
     (case NodeKeySlots (op_Kind op) of (src, dst) \<Rightarrow>
        if src \<and> op_Src op = k then src_ref i
        else if dst \<and> op_Dst op = k then dst_ref i
        else firstRef_from (Suc i) ops k)"

definition firstRef :: "('n, 'w) Op list \<Rightarrow> 'n \<Rightarrow> u64" where
  "firstRef ops k = firstRef_from 0 ops k"

text \<open>The table of first references the large case builds.\<close>

definition first_add :: "'n \<Rightarrow> u64 \<Rightarrow> ('n \<rightharpoonup> u64) \<Rightarrow> ('n \<rightharpoonup> u64)" where
  "first_add k r m = (if m k = None then m(k \<mapsto> r) else m)"

fun first_table :: "nat \<Rightarrow> ('n, 'w) Op list \<Rightarrow> ('n \<rightharpoonup> u64) \<Rightarrow> ('n \<rightharpoonup> u64)" where
  "first_table i [] m = m"
| "first_table i (op # ops) m =
     (case NodeKeySlots (op_Kind op) of (src, dst) \<Rightarrow>
        let m = (if src then first_add (op_Src op) (src_ref i) m else m);
            m = (if dst then first_add (op_Dst op) (dst_ref i) m else m)
        in first_table (Suc i) ops m)"

definition setRefs :: "('n, 'w) Op list \<Rightarrow> 'n annexEntry list \<Rightarrow> 'n annexEntry list" where
  "setRefs ops entries =
     (if entries = [] then []
      else if length entries * length ops > 4096 then
        let first = first_table 0 ops Map.empty
        in map (\<lambda>e. e\<lparr> ae_ref := (case first (ae_key e) of None \<Rightarrow> 0 | Some r \<Rightarrow> r) \<rparr>) entries
      else map (\<lambda>e. e\<lparr> ae_ref := firstRef ops (ae_key e) \<rparr>) entries)"

text \<open>The keys of the intern-capable slots, each once, with the id \<open>ReserveNodeID\<close> holds or assigns.\<close>

definition fallback_add ::
  "('n \<Rightarrow> 'g \<Rightarrow> u64 \<times> 'g) \<Rightarrow> 'n \<Rightarrow> u64 \<Rightarrow> 'n annexEntry list \<times> 'g \<Rightarrow> 'n annexEntry list \<times> 'g" where
  "fallback_add reserve k ref st =
     (case st of (entries, g) \<Rightarrow>
        if k \<in> ae_key ` set entries then (entries, g)
        else case reserve k g of (nid, g) \<Rightarrow> (entries @ [\<lparr> ae_key = k, ae_ref = ref, ae_id = nid \<rparr>], g))"

fun fallback_loop ::
  "('n \<Rightarrow> 'g \<Rightarrow> u64 \<times> 'g) \<Rightarrow> nat \<Rightarrow> ('n, 'w) Op list \<Rightarrow> 'n annexEntry list \<times> 'g \<Rightarrow> 'n annexEntry list \<times> 'g" where
  "fallback_loop reserve i [] st = st"
| "fallback_loop reserve i (op # ops) st =
     (case NodeKeySlots (op_Kind op) of (src, dst) \<Rightarrow>
        let st = (if src then fallback_add reserve (op_Src op) (src_ref i) st else st);
            st = (if dst then fallback_add reserve (op_Dst op) (dst_ref i) st else st)
        in fallback_loop reserve (Suc i) ops st)"

definition fallbackAnnex :: "('n \<Rightarrow> 'g \<Rightarrow> u64 \<times> 'g) \<Rightarrow> ('n, 'w) Op list \<Rightarrow> 'g \<Rightarrow> 'n annexEntry list \<times> 'g" where
  "fallbackAnnex reserve ops g = fallback_loop reserve 0 ops ([], g)"

text \<open>The entries of an attached write transaction: its created ids, sorted and without duplicates;
  \<open>None\<close> is the refusal of an id that resolves to no key.\<close>

fun resolve_ids :: "(u64 \<Rightarrow> 'n option) \<Rightarrow> u64 list \<Rightarrow> 'n annexEntry list option" where
  "resolve_ids resolve [] = Some []"
| "resolve_ids resolve (nid # ids) =
     (case resolve nid of None \<Rightarrow> None
      | Some k \<Rightarrow> map_option (Cons \<lparr> ae_key = k, ae_ref = 0, ae_id = nid \<rparr>) (resolve_ids resolve ids))"

definition createdAnnex :: "(u64 \<Rightarrow> 'n option) \<Rightarrow> ('n, 'w) Op list \<Rightarrow> u64 list \<Rightarrow> 'n annexEntry list option" where
  "createdAnnex resolve ops created =
     map_option (setRefs ops) (resolve_ids resolve (remdups_adj (sort created)))"

fun encode_entries :: "'n Codec \<Rightarrow> bytes \<Rightarrow> 'n annexEntry list \<Rightarrow> (txn_error, bytes) result" where
  "encode_entries c buf [] = Inr buf"
| "encode_entries c buf (e # es) =
     result_bind (if ae_ref e = 0 then enc_key c (AppendUvarint buf (ae_ref e)) (ae_key e)
                  else Inr (AppendUvarint buf (ae_ref e))) (\<lambda>buf.
     encode_entries c (AppendUvarint buf (ae_id e)) es)"

definition encodeAnnex :: "'n Codec \<Rightarrow> 'n annexEntry list \<Rightarrow> (txn_error, bytes) result" where
  "encodeAnnex c entries = encode_entries c (AppendUvarint [] (of_nat (length entries))) entries"

subsection \<open>Placing the annex\<close>

definition commitAnnex :: "bytes \<Rightarrow> bytes option" where
  "commitAnnex body = (if length body \<le> 8 then None else Some (drop 8 body))"

definition opKey :: "'n Codec \<Rightarrow> rec_Op \<Rightarrow> nat \<Rightarrow> (codec_error, 'n) result" where
  "opKey c op endpoint =
     result_bind (cd_Decode c (ro_Body op)) (\<lambda>(k, rest).
     if endpoint = 0 then Inr k else result_bind (cd_Decode c rest) (\<lambda>(k, _). Inr k))"

text \<open>The decoded entries, or \<open>None\<close> when a referenced op is itself undecodable and the annex is
  skipped.\<close>

fun parse_entries ::
  "'n Codec \<Rightarrow> rec_Op list \<Rightarrow> nat \<Rightarrow> bytes \<Rightarrow> (rec_error, (('n \<times> u64) list \<times> bytes) option) result" where
  "parse_entries c committed 0 annex = Inr (Some ([], annex))"
| "parse_entries c committed (Suc n) annex =
     (case Uvarint annex of (ref, r) \<Rightarrow>
        if r \<le> 0 then Inl ErrCommitAnnexCorrupt
        else let annex = drop (nat r) annex in
          result_bind
            (if ref = 0 then
               (case cd_Decode c annex of Inl e \<Rightarrow> Inl ErrCommitAnnexCorrupt | Inr (k, rest) \<Rightarrow> Inr (Some (k, rest)))
             else let opIdx = unat (ref - 1) div 2; endpoint = unat (ref - 1) mod 2 in
               if opIdx \<ge> length committed then Inl ErrCommitAnnexCorrupt
               else case NodeKeySlots (ro_Kind (committed ! opIdx)) of (src, dst) \<Rightarrow>
                 if (endpoint = 0 \<and> \<not> src) \<or> (endpoint = 1 \<and> \<not> dst) then Inl ErrCommitAnnexCorrupt
                 else case opKey c (committed ! opIdx) endpoint of
                   Inl e \<Rightarrow> Inr None | Inr k \<Rightarrow> Inr (Some (k, annex)))
            (\<lambda>found. case found of None \<Rightarrow> Inr None
             | Some (key, annex) \<Rightarrow>
                 (case Uvarint annex of (raw, r2) \<Rightarrow>
                    if r2 \<le> 0 then Inl ErrCommitAnnexCorrupt
                    else result_bind (parse_entries c committed n (drop (nat r2) annex)) (\<lambda>more.
                         Inr (map_option (\<lambda>(es, rest). ((key, raw) # es, rest)) more)))))"

definition parseAnnex ::
  "'n Codec \<Rightarrow> rec_Op list \<Rightarrow> bytes \<Rightarrow> (rec_error, ('n \<times> u64) list option) result" where
  "parseAnnex c committed annex =
     (case Uvarint annex of (n, read) \<Rightarrow>
        if read \<le> 0 \<or> unat n > length annex then Inl ErrCommitAnnexCorrupt
        else result_bind (parse_entries c committed (unat n) (drop (nat read) annex)) (\<lambda>parsed.
             case parsed of None \<Rightarrow> Inr None
             | Some (entries, rest) \<Rightarrow> if rest \<noteq> [] then Inl ErrCommitAnnexCorrupt else Inr (Some entries)))"

text \<open>Binding the entries in order: the newly placed ones, or the refusal of the graph.\<close>

fun place_entries ::
  "('g, 'n, 'w) Graph \<Rightarrow> ('n \<times> u64) list \<Rightarrow> 'g \<Rightarrow> (rec_error, ('n \<times> u64) list) result \<times> 'g" where
  "place_entries G [] g = (Inr [], g)"
| "place_entries G ((k, nid) # es) g =
     (case g_PlaceNodeID G k nid g of
        None \<Rightarrow> (Inl ErrNodeIDMismatch, g)
      | Some (isNew, g) \<Rightarrow>
          (case place_entries G es g of
             (Inl e, g) \<Rightarrow> (Inl e, g)
           | (Inr placed, g) \<Rightarrow> (Inr (if isNew then (k, nid) # placed else placed), g)))"

text \<open>The keys the intern-capable slots of the ops name, an undecodable body skipped.\<close>

definition slot_keys :: "'n Codec \<Rightarrow> rec_Op \<Rightarrow> 'n list" where
  "slot_keys c op =
     (case NodeKeySlots (ro_Kind op) of (src, dst) \<Rightarrow>
        (if src then (case opKey c op 0 of Inl _ \<Rightarrow> [] | Inr k \<Rightarrow> [k]) else []) @
        (if dst then (case opKey c op 1 of Inl _ \<Rightarrow> [] | Inr k \<Rightarrow> [k]) else []))"

definition named_keys :: "'n Codec \<Rightarrow> rec_Op list \<Rightarrow> 'n list" where
  "named_keys c ops = concat (map (slot_keys c) ops)"

record 'n annexPlacements =
  ap_placed :: "('n \<times> u64) list"
  ap_unnamed :: "u64 list"

definition placeAnnex ::
  "('g, 'n, 'w) Graph \<Rightarrow> 'n Codec \<Rightarrow> (u64 \<Rightarrow> bool) \<Rightarrow> rec_Op list \<Rightarrow> bytes \<Rightarrow> 'g
     \<Rightarrow> (rec_error, 'n annexPlacements option) result \<times> 'g" where
  "placeAnnex G c check committed annex g =
     (case parseAnnex c committed annex of
        Inl e \<Rightarrow> (Inl e, g)
      | Inr None \<Rightarrow> (Inr None, g)
      | Inr (Some entries) \<Rightarrow>
          if \<not> list_all (\<lambda>(k, nid). check nid) entries then (Inl ErrIDBeyondReservation, g)
          else case place_entries G entries g of
            (Inl e, g) \<Rightarrow> (Inl e, g)
          | (Inr placed, g) \<Rightarrow>
              if list_ex (\<lambda>k. g_Lookup G g k = None) (named_keys c committed) then (Inl ErrUnboundNodeKey, g)
              else (Inr (Some \<lparr> ap_placed = placed,
                ap_unnamed = map snd (filter (\<lambda>(k, nid). k \<notin> set (named_keys c committed)) placed) \<rparr>), g))"

definition replayCommitAnnex ::
  "('g, 'n, 'w) Graph \<Rightarrow> 'n Codec \<Rightarrow> (u64 \<Rightarrow> bool) \<Rightarrow> rec_Op list \<Rightarrow> bytes \<Rightarrow> 'g
     \<Rightarrow> (rec_error, 'n annexPlacements option) result \<times> 'g" where
  "replayCommitAnnex G c check committed body g =
     (case commitAnnex body of None \<Rightarrow> (Inr None, g) | Some annex \<Rightarrow> placeAnnex G c check committed annex g)"

definition settle_annex :: "('g, 'n, 'w) Graph \<Rightarrow> 'n annexPlacements option \<Rightarrow> 'g \<Rightarrow> 'g" where
  "settle_annex G a g = (case a of None \<Rightarrow> g | Some p \<Rightarrow> fold (g_SettleNeverBorn G) (ap_unnamed p) g)"

definition withdrawAnnex :: "('g, 'n, 'w) Graph \<Rightarrow> 'n Codec \<Rightarrow> 'n annexPlacements option \<Rightarrow> rec_Op list \<Rightarrow> 'g \<Rightarrow> 'g" where
  "withdrawAnnex G c a applied g =
     (case a of None \<Rightarrow> g
      | Some p \<Rightarrow>
          fold (\<lambda>(k, nid). g_UnplaceNodeID G k nid)
            (filter (\<lambda>(k, nid). k \<notin> set (named_keys c applied)) (ap_placed p)) g)"

subsection \<open>References\<close>

definition src_slot :: "('n, 'w) Op \<Rightarrow> bool" where "src_slot op = fst (NodeKeySlots (op_Kind op))"
definition dst_slot :: "('n, 'w) Op \<Rightarrow> bool" where "dst_slot op = snd (NodeKeySlots (op_Kind op))"

definition names_key :: "'n \<Rightarrow> ('n, 'w) Op \<Rightarrow> bool" where
  "names_key k op \<longleftrightarrow> src_slot op \<and> op_Src op = k \<or> dst_slot op \<and> op_Dst op = k"

lemma first_table_lookup:
  "first_table i ops m k =
     (case m k of Some r \<Rightarrow> Some r
      | None \<Rightarrow> if list_ex (names_key k) ops then Some (firstRef_from i ops k) else None)"
proof (induction ops arbitrary: i m)
  case Nil
  then show ?case by (simp split: option.splits)
next
  case (Cons op ops)
  show ?case
    by (cases "NodeKeySlots (op_Kind op)")
      (auto simp: Cons.IH Let_def first_add_def names_key_def [of k op] src_slot_def dst_slot_def split: option.splits)
qed

lemma firstRef_absent: "\<not> list_ex (names_key k) ops \<Longrightarrow> firstRef_from i ops k = 0"
  by (induction ops arbitrary: i) (auto simp: names_key_def src_slot_def dst_slot_def split: prod.splits)

lemma setRefs_firstRef: "setRefs ops entries = map (\<lambda>e. e\<lparr> ae_ref := firstRef ops (ae_key e) \<rparr>) entries"
  using firstRef_absent [of _ ops 0]
  by (auto simp: setRefs_def Let_def first_table_lookup firstRef_def)

text \<open>A reference names the slot it stands for.\<close>

definition slot_ref :: "('n, 'w) Op list \<Rightarrow> 'n \<Rightarrow> u64 \<Rightarrow> bool" where
  "slot_ref ops k ref \<longleftrightarrow> (\<exists>i<length ops.
     ref = src_ref i \<and> src_slot (ops ! i) \<and> op_Src (ops ! i) = k \<or>
     ref = dst_ref i \<and> dst_slot (ops ! i) \<and> op_Dst (ops ! i) = k)"

lemma firstRef_from_slot:
  "firstRef_from i ops k = 0 \<or> (\<exists>j<length ops.
     firstRef_from i ops k = src_ref (i + j) \<and> src_slot (ops ! j) \<and> op_Src (ops ! j) = k \<or>
     firstRef_from i ops k = dst_ref (i + j) \<and> dst_slot (ops ! j) \<and> op_Dst (ops ! j) = k)"
proof (induction ops arbitrary: i)
  case (Cons op ops)
  obtain s d where sd: "NodeKeySlots (op_Kind op) = (s, d)" by fastforce
  show ?case
  proof (cases "names_key k op")
    case True
    then show ?thesis by (intro disjI2 exI [of _ 0])
        (auto simp: sd names_key_def src_slot_def dst_slot_def)
  next
    case False
    then have e: "firstRef_from i (op # ops) k = firstRef_from (Suc i) ops k"
      by (auto simp: sd names_key_def src_slot_def dst_slot_def)
    show ?thesis using Cons.IH [of "Suc i"] unfolding e by (metis Suc_less_eq add_Suc_shift length_Cons nth_Cons_Suc)
  qed
qed simp

lemma firstRef_slot: "firstRef ops k = 0 \<or> slot_ref ops k (firstRef ops k)"
  using firstRef_from_slot [of 0 ops k] by (auto simp: firstRef_def slot_ref_def)

lemma ref_slot:
  assumes "i < 2 ^ 62"
  shows "src_ref i \<noteq> 0" "dst_ref i \<noteq> 0"
    "unat (src_ref i - 1) div 2 = i" "unat (src_ref i - 1) mod 2 = 0"
    "unat (dst_ref i - 1) div 2 = i" "unat (dst_ref i - 1) mod 2 = 1"
proof -
  have n: "unat (of_nat m :: u64) = m" if "m < 2 ^ 64" for m using that by (simp add: unat_of_nat)
  have s: "src_ref i = of_nat (1 + 2 * i)" "src_ref i - 1 = of_nat (2 * i)" by (simp_all add: src_ref_def)
  have d: "dst_ref i = of_nat (2 + 2 * i)" "dst_ref i - 1 = of_nat (1 + 2 * i)" by (simp_all add: dst_ref_def)
  show "unat (src_ref i - 1) div 2 = i" "unat (src_ref i - 1) mod 2 = 0"
    unfolding s(2) using n [of "2 * i"] assms by simp_all
  show "unat (dst_ref i - 1) div 2 = i" "unat (dst_ref i - 1) mod 2 = 1"
    unfolding d(2) using n [of "1 + 2 * i"] assms by simp_all
  show "src_ref i \<noteq> 0" using n [of "1 + 2 * i"] assms unfolding s(1) by force
  show "dst_ref i \<noteq> 0" using n [of "2 + 2 * i"] assms unfolding d(1) by force
qed

subsection \<open>The round trip\<close>

text \<open>The decoded records the ops of a transaction leave, as far as the annex reads them.\<close>

definition slots_decode :: "'n Codec \<Rightarrow> ('n, 'w) Op list \<Rightarrow> rec_Op list \<Rightarrow> bool" where
  "slots_decode c ops committed \<longleftrightarrow> length committed = length ops \<and> (\<forall>i<length ops.
     ro_Kind (committed ! i) = op_Kind (ops ! i) \<and>
     (src_slot (ops ! i) \<longrightarrow> opKey c (committed ! i) 0 = Inr (op_Src (ops ! i))) \<and>
     (dst_slot (ops ! i) \<longrightarrow> opKey c (committed ! i) 1 = Inr (op_Dst (ops ! i))))"

definition entry_ok :: "('n \<Rightarrow> bool) \<Rightarrow> ('n, 'w) Op list \<Rightarrow> 'n annexEntry \<Rightarrow> bool" where
  "entry_ok vn ops e \<longleftrightarrow> ae_ref e = 0 \<and> vn (ae_key e) \<or> slot_ref ops (ae_key e) (ae_ref e)"

lemma Uvarint_put: "Uvarint (uvarint_bytes (unat v) @ rest) = (v, int (length (uvarint_bytes (unat v))))"
  by (rule Uvarint_append)

lemma uvarint_pos: "1 \<le> length (uvarint_bytes x)"
  by (simp add: Suc_le_eq)

lemma parse_slot:
  assumes "slots_decode c ops committed" "slot_ref ops k ref" "length ops < 2 ^ 62"
  shows "ref \<noteq> 0 \<and> unat (ref - 1) div 2 < length committed \<and>
    (case NodeKeySlots (ro_Kind (committed ! (unat (ref - 1) div 2))) of (src, dst) \<Rightarrow>
       \<not> (unat (ref - 1) mod 2 = 0 \<and> \<not> src \<or> unat (ref - 1) mod 2 = 1 \<and> \<not> dst)) \<and>
    opKey c (committed ! (unat (ref - 1) div 2)) (unat (ref - 1) mod 2) = Inr k"
proof -
  obtain i where i: "i < length ops"
    "ref = src_ref i \<and> src_slot (ops ! i) \<and> op_Src (ops ! i) = k \<or> ref = dst_ref i \<and> dst_slot (ops ! i) \<and> op_Dst (ops ! i) = k"
    using assms(2) by (auto simp: slot_ref_def)
  then have "i < 2 ^ 62" using assms(3) by linarith
  note r = ref_slot [OF this]
  from i(2) show ?thesis
  proof
    assume "ref = src_ref i \<and> src_slot (ops ! i) \<and> op_Src (ops ! i) = k"
    then show ?thesis using r(1,3,4) assms(1) i(1) by (auto simp: slots_decode_def src_slot_def)
  next
    assume "ref = dst_ref i \<and> dst_slot (ops ! i) \<and> op_Dst (ops ! i) = k"
    then show ?thesis using r(2,5,6) assms(1) i(1) by (auto simp: slots_decode_def dst_slot_def)
  qed
qed

lemma parse_encode_entries:
  assumes c: "codec_ok c vn" and s: "slots_decode c ops committed" "length ops < 2 ^ 62"
  shows "encode_entries c buf es = Inr out \<Longrightarrow> list_all (entry_ok vn ops) es \<Longrightarrow>
    \<exists>bs. out = buf @ bs \<and> length es \<le> length bs \<and>
      (\<forall>rest. parse_entries c committed (length es) (bs @ rest) = Inr (Some (map (\<lambda>e. (ae_key e, ae_id e)) es, rest)))"
proof (induction es arbitrary: buf)
  case (Cons e es)
  let ?r = "uvarint_bytes (unat (ae_ref e))" and ?i = "uvarint_bytes (unat (ae_id e))"
  obtain b1 where b1: "(if ae_ref e = 0 then enc_key c (buf @ ?r) (ae_key e) else Inr (buf @ ?r)) = Inr b1"
      "encode_entries c (b1 @ ?i) es = Inr out"
    using Cons.prems(1) by (auto simp: result_bind_eq_Inr_iff AppendUvarint_def split: if_splits)
  obtain kb where kb: "b1 = buf @ ?r @ kb" "if ae_ref e = 0 then key_bytes c (ae_key e) kb else kb = []"
    using b1(1) enc_key_appends [OF c, of "buf @ ?r" "ae_key e" b1] by (auto simp: key_bytes_def split: if_splits)
  obtain bs where bs: "out = (b1 @ ?i) @ bs" "length es \<le> length bs" and
      p: "\<And>rest. parse_entries c committed (length es) (bs @ rest) = Inr (Some (map (\<lambda>e. (ae_key e, ae_id e)) es, rest))"
    using Cons.IH [OF b1(2)] Cons.prems(2) by auto
  have ok: "entry_ok vn ops e" using Cons.prems(2) by simp
  have "parse_entries c committed (length (e # es)) ((?r @ kb @ ?i @ bs) @ rest)
      = Inr (Some (map (\<lambda>e. (ae_key e, ae_id e)) (e # es), rest))" for rest
  proof (cases "ae_ref e = 0")
    case True
    then have v: "vn (ae_key e)" using ok parse_slot [OF s(1) _ s(2), of _ 0] by (auto simp: entry_ok_def)
    have "cd_Decode c (kb @ ?i @ bs @ rest) = Inr (ae_key e, ?i @ bs @ rest)"
      using key_bytes_decode [OF c _ v] kb(2) True by simp
    then show ?thesis using True p [of rest] Uvarint_put [of 0] by (simp add: Uvarint_put Let_def)
  next
    case False
    then have "slot_ref ops (ae_key e) (ae_ref e)" using ok by (simp add: entry_ok_def)
    from parse_slot [OF s(1) this s(2)] False kb(2) p [of rest] show ?thesis
      by (auto simp: Uvarint_put Let_def split: prod.splits)
  qed
  moreover have "length (e # es) \<le> length (?r @ kb @ ?i @ bs)"
    using bs(2) uvarint_pos [of "unat (ae_ref e)"] unfolding length_append length_Cons by linarith
  ultimately show ?case using kb(1) bs(1) by (intro exI [of _ "?r @ kb @ ?i @ bs"]) simp
qed simp

lemma parseAnnex_encodeAnnex:
  assumes c: "codec_ok c vn" and s: "slots_decode c ops committed" "length ops < 2 ^ 62"
    and e: "encodeAnnex c es = Inr annex" "list_all (entry_ok vn ops) es" "length es < 2 ^ 64"
  shows "parseAnnex c committed annex = Inr (Some (map (\<lambda>e. (ae_key e, ae_id e)) es))"
proof -
  let ?n = "uvarint_bytes (unat (of_nat (length es) :: u64))"
  obtain bs where bs: "annex = ?n @ bs" "length es \<le> length bs"
      "\<And>rest. parse_entries c committed (length es) (bs @ rest) = Inr (Some (map (\<lambda>e. (ae_key e, ae_id e)) es, rest))"
    using parse_encode_entries [OF c s e(1) [unfolded encodeAnnex_def] e(2)] by (auto simp: AppendUvarint_def)
  have n: "unat (of_nat (length es) :: u64) = length es" using e(3) by (simp add: unat_of_nat)
  have "Uvarint annex = (of_nat (length es), int (length ?n))" unfolding bs(1) by (rule Uvarint_put)
  then show ?thesis using bs(2) bs(3) [of "[]"] n uvarint_pos [of "length es"]
    by (auto simp: parseAnnex_def bs(1))
qed

text \<open>The records of a transaction's ops hold the keys their slots name.\<close>

lemma keyed_opKey:
  assumes "keyed c a b buf tail (buf @ body)" "codec_ok c vn" "vn a" "vn b"
  shows "opKey c (recorded ver k seq body) 0 = Inr a" "opKey c (recorded ver k seq body) 1 = Inr b"
proof -
  obtain ab bb where kb: "key_bytes c a ab" "key_bytes c b bb" "body = ab @ bb @ tail"
    using assms(1) by (auto simp: keyed_def)
  show "opKey c (recorded ver k seq body) 0 = Inr a" "opKey c (recorded ver k seq body) 1 = Inr b"
    using key_bytes_decode [OF assms(2) kb(1) assms(3)] key_bytes_decode [OF assms(2) kb(2) assms(4)]
    by (simp_all add: opKey_def recorded_def kb(3))
qed

lemma slot_keyed:
  assumes c: "codec_ok c vn" and w: "\<And>w. wc = Some w \<Longrightarrow> codec_ok w vw"
    and v: "vn zeroN" "op_storable vn vw op" and k: "src_slot op \<or> dst_slot op"
    and e: "appendOpBodyTyped zeroN c wc buf op = Inr out"
  shows "\<exists>b tail. keyed c (op_Src op) b buf tail out \<and> vn b \<and> (dst_slot op \<longrightarrow> b = op_Dst op)"
proof -
  have vn: "vn (op_Dst op)" using v by (simp add: op_storable_def)
  have "op_Kind op \<in> {OpAddNode, OpSetNodeLabel, OpSetNodeProperty, OpAddEdgeH}"
    using k v(2) by (auto simp: src_slot_def dst_slot_def NodeKeySlots_def op_storable_def tx_kinds_def split: if_splits)
  then consider (node) "op_Kind op = OpAddNode" | (label) "op_Kind op = OpSetNodeLabel"
    | (property) "op_Kind op = OpSetNodeProperty" | (edge) "op_Kind op = OpAddEdgeH" by auto
  then show ?thesis
  proof cases
    case node
    then have "encodeOpNodeOnly zeroN c buf op = Inr out" using e by (simp add: appendOpBodyTyped_def)
    from body_shapes(1) [OF c this] v(1) node show ?thesis by (auto simp: dst_slot_def NodeKeySlots_def)
  next
    case label
    then have "encodeOpEdgeWithLabel c buf op = Inr out" using e by (simp add: appendOpBodyTyped_def)
    from body_shapes(2) [OF c this] vn show ?thesis by auto
  next
    case property
    then have "encodeOpNodeProperty zeroN c buf op = Inr out" using e by (simp add: appendOpBodyTyped_def)
    from property_shapes(1) [OF c this] v(1) property show ?thesis by (auto simp: dst_slot_def NodeKeySlots_def)
  next
    case edge
    then have "with_handle op (encodeOpEdgeWeighted c wc buf op) = Inr out" using e by (simp add: appendOpBodyTyped_def)
    then obtain b where b: "encodeOpEdgeWeighted c wc buf op = Inr b" "out = b @ put_le64 (op_Handle op)"
      unfolding with_handle_eq by blast
    obtain wb where "keyed c (op_Src op) (op_Dst op) buf (wb @ u16_string (op_Label op)) b"
      using weighted_shape [OF c w b(1)] by blast
    from keyed_append [OF this, of "put_le64 (op_Handle op)"] b(2) vn show ?thesis by blast
  qed
qed

text \<open>\<open>logged\<close> relates an op to the decoded record of its v3 frame.\<close>

definition logged :: "'n \<Rightarrow> 'n Codec \<Rightarrow> 'w Codec option \<Rightarrow> u64 \<Rightarrow> ('n, 'w) Op \<Rightarrow> rec_Op \<Rightarrow> bool" where
  "logged zeroN c wc seq op r \<longleftrightarrow>
     (\<exists>p. encodeOpTypedV3Into zeroN c wc seq [] op = Inr p \<and> rec_Decode p = Inr r)"

lemma logged_recorded:
  assumes "codec_ok c vn" "\<And>w. wc = Some w \<Longrightarrow> codec_ok w vw" "vn zeroN" "op_storable vn vw op" "logged zeroN c wc seq op r"
  obtains body where "r = recorded OpRecordV3 (op_Kind op) seq body"
    "appendOpBodyTyped zeroN c wc ([OpRecordV3, op_Kind op] @ put_le64 seq) op = Inr (([OpRecordV3, op_Kind op] @ put_le64 seq) @ body)"
proof -
  obtain p where p: "appendOpBodyTyped zeroN c wc ([OpRecordV3, op_Kind op] @ put_le64 seq) op = Inr p" "rec_Decode p = Inr r"
    using assms(5) by (auto simp: logged_def encodeOpTypedV3Into_def)
  obtain body where b: "p = ([OpRecordV3, op_Kind op] @ put_le64 seq) @ body"
    using logged_op_replays [OF assms(1-4) p(1)] by blast
  have "r = recorded OpRecordV3 (op_Kind op) seq body"
    using p(2) unfolding b by (simp add: rec_Decode_def decodeV3_def recorded_def)
  then show thesis using that p(1) b by blast
qed

lemma logged_slots_decode:
  assumes c: "codec_ok c vn" and w: "\<And>w. wc = Some w \<Longrightarrow> codec_ok w vw" and v: "vn zeroN"
    and ops: "list_all (op_storable vn vw) ops" "list_all2 (logged zeroN c wc seq) ops committed"
  shows "slots_decode c ops committed"
  unfolding slots_decode_def
proof (intro conjI allI impI)
  show "length committed = length ops" using list_all2_lengthD [OF ops(2)] by simp
next
  fix i
  assume i: "i < length ops"
  have st: "op_storable vn vw (ops ! i)" using ops(1) i by (simp add: list_all_length)
  have "logged zeroN c wc seq (ops ! i) (committed ! i)" using ops(2) i by (rule list_all2_nthD)
  then obtain body where r: "committed ! i = recorded OpRecordV3 (op_Kind (ops ! i)) seq body"
    and a: "appendOpBodyTyped zeroN c wc ([OpRecordV3, op_Kind (ops ! i)] @ put_le64 seq) (ops ! i)
      = Inr (([OpRecordV3, op_Kind (ops ! i)] @ put_le64 seq) @ body)"
    using logged_recorded [OF c w v st] by blast
  show "ro_Kind (committed ! i) = op_Kind (ops ! i)" by (simp add: r recorded_def)
  have src: "vn (op_Src (ops ! i))" using st by (simp add: op_storable_def)
  show "opKey c (committed ! i) 0 = Inr (op_Src (ops ! i))" if k: "src_slot (ops ! i)"
    using slot_keyed [OF c w v st disjI1 [OF k] a] keyed_opKey(1) [OF _ c src] unfolding r by blast
  show "opKey c (committed ! i) 1 = Inr (op_Dst (ops ! i))" if k: "dst_slot (ops ! i)"
    using slot_keyed [OF c w v st disjI2 [OF k] a] keyed_opKey(2) [OF _ c src] k unfolding r by blast
qed

subsection \<open>The entries a commit writes\<close>

lemma resolve_ids_refs:
  "resolve_ids resolve ids = Some es \<Longrightarrow> map ae_id es = ids \<and> list_all (\<lambda>e. resolve (ae_id e) = Some (ae_key e)) es"
  by (induction ids arbitrary: es) (auto split: option.splits)

lemma setRefs_entry_ok:
  "list_all (\<lambda>e. vn (ae_key e)) es \<Longrightarrow> list_all (entry_ok vn ops) (setRefs ops es)"
  using firstRef_slot [of ops] by (auto simp: setRefs_firstRef list_all_iff entry_ok_def)

lemma fallback_add_ok:
  assumes "list_all P (fst st)" "\<And>i. P \<lparr> ae_key = k, ae_ref = ref, ae_id = i \<rparr>"
  shows "list_all P (fst (fallback_add reserve k ref st))"
  using assms by (cases st) (auto simp: fallback_add_def split: prod.splits)

lemma fallback_loop_ok:
  assumes "list_all (entry_ok vn (done' @ ops)) (fst st)"
  shows "list_all (entry_ok vn (done' @ ops)) (fst (fallback_loop reserve (length done') ops st))"
  using assms
proof (induction ops arbitrary: done' st)
  case (Cons op ops)
  let ?P = "entry_ok vn (done' @ op # ops)"
  have src: "?P \<lparr> ae_key = op_Src op, ae_ref = src_ref (length done'), ae_id = i \<rparr>" if "src_slot op" for i
    using that by (auto simp: entry_ok_def slot_ref_def intro!: exI [of _ "length done'"])
  have dst: "?P \<lparr> ae_key = op_Dst op, ae_ref = dst_ref (length done'), ae_id = i \<rparr>" if "dst_slot op" for i
    using that by (auto simp: entry_ok_def slot_ref_def intro!: exI [of _ "length done'"])
  obtain s d where sd: "NodeKeySlots (op_Kind op) = (s, d)" by fastforce
  then have slots: "src_slot op = s" "dst_slot op = d" by (simp_all add: src_slot_def dst_slot_def)
  define st1 where "st1 = (if s then fallback_add reserve (op_Src op) (src_ref (length done')) st else st)"
  define st2 where "st2 = (if d then fallback_add reserve (op_Dst op) (dst_ref (length done')) st1 else st1)"
  have "list_all ?P (fst st1)" using Cons.prems src slots by (auto simp: st1_def intro: fallback_add_ok)
  then have "list_all ?P (fst st2)" using dst slots by (auto simp: st2_def intro: fallback_add_ok)
  then show ?case
    using Cons.IH [of "done' @ [op]" st2] by (simp add: sd st1_def [symmetric] st2_def [symmetric])
qed simp

lemma fallbackAnnex_entry_ok: "list_all (entry_ok vn ops) (fst (fallbackAnnex reserve ops g))"
  using fallback_loop_ok [of vn "[]" ops "([], g)"] by (simp add: fallbackAnnex_def)

subsection \<open>Properties\<close>

text \<open>
  Property C34. The table the large case of \<open>setRefs\<close> builds gives every entry the reference the
  scan of the small case finds: the first intern-capable slot that holds its key, or none.
\<close>

theorem annex_refs_table_is_scan:
  "setRefs ops entries = map (\<lambda>e. e\<lparr> ae_ref := firstRef ops (ae_key e) \<rparr>) entries \<and>
   (firstRef ops k = 0 \<or> slot_ref ops k (firstRef ops k))"
  using firstRef_slot [of ops k] by (simp add: setRefs_firstRef)

text \<open>
  Property C5. Recovery reads from the records of a transaction and the annex of its marker exactly
  the keys and ids the commit put there, whether the entries come from the created nodes of an
  attached write transaction, withdrawn creations carried inline included, or from the keys the
  ops name.
\<close>

theorem commit_annex_round_trip:
  assumes codecs: "codec_ok c vn" "\<And>w. wc = Some w \<Longrightarrow> codec_ok w vw"
    and ops: "vn zeroN" "list_all (op_storable vn vw) ops" "length ops < 2 ^ 62"
      "list_all2 (logged zeroN c wc seq) ops committed"
    and entries: "createdAnnex resolve ops created = Some es \<and> list_all (\<lambda>e. vn (ae_key e)) es \<or>
      es = fst (fallbackAnnex reserve ops g)"
    and annex: "encodeAnnex c es = Inr annex" "length es < 2 ^ 64"
  shows "parseAnnex c committed annex = Inr (Some (map (\<lambda>e. (ae_key e, ae_id e)) es))"
proof -
  have "list_all (entry_ok vn ops) es"
    using entries
  proof
    assume a: "createdAnnex resolve ops created = Some es \<and> list_all (\<lambda>e. vn (ae_key e)) es"
    then obtain es0 where "es = setRefs ops es0" by (auto simp: createdAnnex_def)
    then show ?thesis using a setRefs_entry_ok [of vn es0 ops]
      by (simp add: setRefs_firstRef list_all_iff)
  qed (simp add: fallbackAnnex_entry_ok)
  then show ?thesis
    using parseAnnex_encodeAnnex [OF codecs(1) logged_slots_decode [OF codecs ops(1,2,4)] ops(3) annex(1) _ annex(2)]
    by blast
qed

theorem commit_annex_round_trip_witness:
  "parseAnnex string_Codec [recorded OpRecordV3 OpAddNode 7 (put_le32 1 @ [65] @ put_le32 0 @ put_le16 0)] [1, 1, 0x80, 2]
     = Inr (Some [([65], 256)])"
proof -
  let ?op = "(zero_op [] (0 :: u64) OpAddNode)\<lparr> op_Src := [65 :: byte] \<rparr>"
  let ?r = "recorded OpRecordV3 OpAddNode 7 (put_le32 1 @ [65] @ put_le32 0 @ put_le16 0)"
  let ?e = "\<lparr> ae_key = [65], ae_ref = 1, ae_id = 256 \<rparr>"
  have enc: "encodeOpTypedV3Into [] string_Codec None 7 [] ?op =
      Inr ([0xFD, 5] @ put_le64 7 @ put_le32 1 @ [65] @ put_le32 0 @ put_le16 0)"
    by (simp add: encodeOpTypedV3Into_def appendOpBodyTyped_def encodeOpNodeOnly_def zero_op_def append_u16_def
        checkWALSchemaString_def enc_key_def string_Codec_def string_Encode_def)
  then have l: "list_all2 (logged [] string_Codec None 7) [?op] [?r]"
    by (simp add: logged_def rec_Decode_def decodeV3_def recorded_def)
  have s: "list_all (op_storable (\<lambda>_. True) (\<lambda>_. True)) [?op]" by (simp add: op_storable_def tx_kinds_def zero_op_def)
  have f: "[?e] = fst (fallbackAnnex (\<lambda>k g. (256, g)) [?op] ())"
    by (simp add: fallbackAnnex_def fallback_add_def NodeKeySlots_def zero_op_def src_ref_def)
  have a: "encodeAnnex string_Codec [?e] = Inr [1, 1, 0x80, 2]"
    by (simp add: encodeAnnex_def AppendUvarint_def uvarint_bytes.simps)
  show ?thesis
    using commit_annex_round_trip [OF string_Codec_ok _ TrueI s _ l disjI2 [OF f] a] by simp
qed

end
