(* ===== verification/Recovery_Replay.thy ===== *)
theory Recovery_Replay
  imports Commit_Annex Wal_Reader
begin

text \<open>
  The replay of a write-ahead log (\<open>replayWALInto\<close> and \<open>ReplayWAL\<close> of \<open>store/recovery/recovery.go\<close>,
  \<open>idreplay.go\<close>): a state machine over the frames that buffers the ops of a transaction until its
  commit marker, discards what no marker follows, skips what the snapshot already holds, and derives
  the node id marks, the transaction sequence and the commit clock the next process resumes from.
  A frame source is what its iterator does with the loop body: it hands frames to the body while the
  body asks for more, and ends with the body's state, the tail offset and the tail error.
\<close>

subsection \<open>Node id marks\<close>

record idReplay =
  id_cur :: "u64 list"
  id_bound :: "u64 list"
  id_seen :: "bool list"

definition newIDReplay :: "('g, 'n, 'w) Graph \<Rightarrow> 'g \<Rightarrow> u64 list option \<Rightarrow> idReplay" where
  "newIDReplay G g base =
     (let cur = (case base of None \<Rightarrow> g_Watermark G g | Some b \<Rightarrow> map2 max (g_Watermark G g) b)
      in \<lparr> id_cur = cur, id_bound = cur, id_seen = replicate 256 False \<rparr>)"

definition id_reserve :: "nat \<Rightarrow> u64 \<Rightarrow> idReplay \<Rightarrow> idReplay" where
  "id_reserve shard limit r =
     r\<lparr> id_seen := (id_seen r)[shard := True],
        id_cur := (id_cur r)[shard := max (id_cur r ! shard) limit],
        id_bound := (id_bound r)[shard := max (id_bound r ! shard) limit] \<rparr>"

definition id_exact :: "u64 list \<Rightarrow> bool \<Rightarrow> idReplay \<Rightarrow> idReplay" where
  "id_exact next crossed r =
     r\<lparr> id_seen := map (\<lambda>_. True) next,
        id_bound := map2 max (id_bound r) next,
        id_cur := (if crossed then next else map2 max (id_cur r) next) \<rparr>"

definition id_check :: "idReplay \<Rightarrow> u64 \<Rightarrow> bool" where
  "id_check r nid =
     (let shard = unat (nid AND 0xFF); idx = drop_bit 8 nid
      in \<not> (id_seen r ! shard \<and> idx \<ge> id_bound r ! shard))"

definition id_apply :: "('g, 'n, 'w) Graph \<Rightarrow> idReplay \<Rightarrow> 'g \<Rightarrow> 'g" where
  "id_apply G r = fold (\<lambda>(i, v). g_RestoreNext G i v) (enumerate 0 (id_cur r))"

subsection \<open>The replay state\<close>

record ('g, 'n, 'w) replay_cfg =
  rc_G :: "('g, 'n, 'w) Graph"
  rc_zeroW :: 'w
  rc_codec :: "'n Codec"
  rc_wcodec :: "'w Codec option"
  rc_maxTxnOps :: int
  rc_redo :: int
  rc_schemaBelowRedo :: bool

record 'g replay_st =
  rp_s :: "'g rstate"
  rp_ids :: idReplay
  rp_crossed :: bool
  rp_belowPending :: nat
  rp_pending :: "rec_Op list"
  rp_WALOps :: nat
  rp_MaxTxnSeq :: u64
  rp_MaxCommitTS :: u64
  rp_TailErr :: "rec_error option"
  rp_frameIdx :: nat
  rp_cancelled :: bool

text \<open>A frame either lets the loop go on or breaks it.\<close>

type_synonym 'g frame_result = "bool \<times> 'g replay_st"

definition keep_going :: "'g replay_st \<Rightarrow> 'g frame_result" where "keep_going st = (True, st)"

definition stop_with :: "rec_error \<Rightarrow> 'g replay_st \<Rightarrow> 'g frame_result" where
  "stop_with e st = (False, st\<lparr> rp_TailErr := Some e \<rparr>)"

fun accumulateSchemaOnly :: "rec_Op list \<Rightarrow> 'g action" where
  "accumulateSchemaOnly [] s = (True, s)"
| "accumulateSchemaOnly (op # ops) s =
     (case accumulateConstraintOp op (rs_cs s) of
        Some (ok, cs) \<Rightarrow>
          if ok then accumulateSchemaOnly ops (s\<lparr> rs_cs := cs \<rparr>) else (False, s\<lparr> rs_cs := cs \<rparr>)
      | None \<Rightarrow>
          (case accumulateIndexOp op (rs_is s) of
             Some (ok, is) \<Rightarrow>
               if ok then accumulateSchemaOnly ops (s\<lparr> rs_is := is \<rparr>) else (False, s\<lparr> rs_is := is \<rparr>)
           | None \<Rightarrow> accumulateSchemaOnly ops s))"

text \<open>The ops of a committed transaction in order: how many were applied, and the state.\<close>

fun apply_committed :: "('g, 'n, 'w) replay_cfg \<Rightarrow> rec_Op list \<Rightarrow> 'g rstate \<Rightarrow> nat \<times> 'g rstate" where
  "apply_committed cfg [] s = (0, s)"
| "apply_committed cfg (op # ops) s =
     (case applyOrAccumulate (rc_G cfg) (rc_zeroW cfg) (rc_codec cfg) (rc_wcodec cfg) op s of
        (False, s) \<Rightarrow> (0, s)
      | (True, s) \<Rightarrow> (case apply_committed cfg ops s of (n, s) \<Rightarrow> (Suc n, s)))"

definition commit_above :: "('g, 'n, 'w) replay_cfg \<Rightarrow> rec_Op \<Rightarrow> rec_Op list \<Rightarrow> 'g replay_st \<Rightarrow> 'g frame_result" where
  "commit_above cfg op committed st =
     (case replayCommitAnnex (rc_G cfg) (rc_codec cfg) (id_check (rp_ids st)) committed (ro_Body op) (rs_g (rp_s st)) of
        (Inl e, g) \<Rightarrow> stop_with e (st\<lparr> rp_s := (rp_s st)\<lparr> rs_g := g \<rparr>, rp_pending := [] \<rparr>)
      | (Inr annexed, g) \<Rightarrow>
          (case apply_committed cfg committed ((rp_s st)\<lparr> rs_g := g \<rparr>) of (n, s) \<Rightarrow>
             let st = st\<lparr> rp_WALOps := rp_WALOps st + n, rp_pending := [] \<rparr> in
             if n = length committed
             then keep_going (st\<lparr> rp_s := s\<lparr> rs_g := settle_annex (rc_G cfg) annexed (rs_g s) \<rparr> \<rparr>)
             else stop_with ErrCommittedTxnCorruptOp (st\<lparr> rp_s := s\<lparr> rs_g :=
               withdrawAnnex (rc_G cfg) (rc_codec cfg) annexed (take n committed) (rs_g s) \<rparr> \<rparr>)))"

definition replay_marker :: "('g, 'n, 'w) replay_cfg \<Rightarrow> rec_Op \<Rightarrow> 'g replay_st \<Rightarrow> 'g frame_result" where
  "replay_marker cfg op st =
     (let start = length (takeWhile (\<lambda>p. ro_TxnSeq p \<noteq> ro_TxnSeq op) (rp_pending st));
          committed = drop start (rp_pending st)
      in if \<not> rp_crossed st then
           (if rc_schemaBelowRedo cfg then
              (case accumulateSchemaOnly committed (rp_s st) of
                 (False, s) \<Rightarrow> stop_with ErrCommittedTxnCorruptOp (st\<lparr> rp_s := s, rp_pending := [] \<rparr>)
               | (True, s) \<Rightarrow> keep_going (st\<lparr> rp_s := s, rp_pending := [] \<rparr>))
            else keep_going (st\<lparr> rp_pending := [] \<rparr>))
         else if start < rp_belowPending st then stop_with ErrRedoPointMidTransaction (st\<lparr> rp_pending := [] \<rparr>)
         else commit_above cfg op committed (st\<lparr> rp_belowPending := 0 \<rparr>))"

text \<open>The highest sequence and commit timestamp read, whether or not the transaction is applied.\<close>

definition track_max :: "rec_Op \<Rightarrow> 'g replay_st \<Rightarrow> 'g replay_st" where
  "track_max op st =
     (let st = (if ro_TxnSeq op > rp_MaxTxnSeq st then st\<lparr> rp_MaxTxnSeq := ro_TxnSeq op \<rparr> else st)
      in case CommitTS op of None \<Rightarrow> st
         | Some ts \<Rightarrow> if ts > rp_MaxCommitTS st then st\<lparr> rp_MaxCommitTS := ts \<rparr> else st)"

definition replay_v3 :: "('g, 'n, 'w) replay_cfg \<Rightarrow> rec_Op \<Rightarrow> 'g replay_st \<Rightarrow> 'g frame_result" where
  "replay_v3 cfg op st =
     (let st = track_max op st in
      if ro_Kind op \<noteq> OpCommit then
        (if rc_maxTxnOps cfg > 0 \<and> int (length (rp_pending st)) \<ge> rc_maxTxnOps cfg
         then stop_with ErrTransactionTooLarge st
         else keep_going (st\<lparr> rp_pending := rp_pending st @ [op] \<rparr>))
      else replay_marker cfg op st)"

definition replay_control :: "rec_Op \<Rightarrow> 'g replay_st \<Rightarrow> 'g frame_result" where
  "replay_control op st =
     (if ro_Kind op = CtlReserveIDs then
        (case DecodeReserveIDs (ro_Body op) of
           Inr (Some (shard, limit)) \<Rightarrow> keep_going (st\<lparr> rp_ids := id_reserve (unat shard) limit (rp_ids st) \<rparr>)
         | _ \<Rightarrow> keep_going st)
      else if ro_Kind op = CtlNextIDsExact then
        (case DecodeNextIDsExact (ro_Body op) of
           Inr (Some next) \<Rightarrow> keep_going (st\<lparr> rp_ids := id_exact next (rp_crossed st) (rp_ids st) \<rparr>)
         | _ \<Rightarrow> keep_going st)
      else keep_going (st\<lparr> rp_pending := [], rp_belowPending := 0 \<rparr>))"

definition replay_v2 :: "('g, 'n, 'w) replay_cfg \<Rightarrow> rec_Op \<Rightarrow> 'g replay_st \<Rightarrow> 'g frame_result" where
  "replay_v2 cfg op st =
     (if \<not> rp_crossed st then
        (if rc_schemaBelowRedo cfg then
           (case accumulateSchemaOnly [op] (rp_s st) of
              (False, s) \<Rightarrow> stop_with ErrV2FrameUndecodable (st\<lparr> rp_s := s \<rparr>)
            | (True, s) \<Rightarrow> keep_going (st\<lparr> rp_s := s \<rparr>))
         else keep_going st)
      else
        (case applyOrAccumulate (rc_G cfg) (rc_zeroW cfg) (rc_codec cfg) (rc_wcodec cfg) op (rp_s st) of
           (False, s) \<Rightarrow> stop_with ErrV2FrameUndecodable (st\<lparr> rp_s := s \<rparr>)
         | (True, s) \<Rightarrow> keep_going (st\<lparr> rp_s := s, rp_WALOps := rp_WALOps st + 1 \<rparr>)))"

definition replay_payload :: "('g, 'n, 'w) replay_cfg \<Rightarrow> bytes \<Rightarrow> 'g replay_st \<Rightarrow> 'g frame_result" where
  "replay_payload cfg payload st =
     (case rec_Decode payload of
        Inl e \<Rightarrow> stop_with e st
      | Inr op \<Rightarrow>
          if ro_Version op = ControlRecordTag then replay_control op st
          else if ro_Version op = OpRecordV3 then replay_v3 cfg op st
          else replay_v2 cfg op st)"

definition replay_frame :: "('g, 'n, 'w) replay_cfg \<Rightarrow> Frame \<Rightarrow> 'g replay_st \<Rightarrow> 'g frame_result" where
  "replay_frame cfg f st =
     (if \<not> rp_crossed st \<and> FVersion f = CurrentVersion \<and> sint (Pos f) \<ge> rc_redo cfg then
        (if sint (Pos f) > rc_redo cfg then stop_with ErrRedoPointNotFrameBoundary st
         else replay_payload cfg (Payload f) (st\<lparr> rp_crossed := True, rp_belowPending := length (rp_pending st) \<rparr>))
      else replay_payload cfg (Payload f) st)"

text \<open>The body of the loop: \<open>cancelled\<close> tells whether the context is found cancelled at a frame, and is
  asked only at multiples of 4096 applied ops.\<close>

definition replay_step ::
  "(nat \<Rightarrow> bool) \<Rightarrow> ('g, 'n, 'w) replay_cfg \<Rightarrow> 'g replay_st \<Rightarrow> Frame \<Rightarrow> 'g replay_st \<times> bool" where
  "replay_step cancelled cfg st f =
     (let st = st\<lparr> rp_frameIdx := rp_frameIdx st + 1 \<rparr> in
      if rp_WALOps st mod 4096 = 0 \<and> cancelled (rp_frameIdx st) then (st\<lparr> rp_cancelled := True \<rparr>, False)
      else case replay_frame cfg f st of (go, st) \<Rightarrow> (st, go))"

abbreviation uncancelled :: "nat \<Rightarrow> bool" where "uncancelled \<equiv> \<lambda>_. False"

type_synonym 's frame_source = "('s \<Rightarrow> Frame \<Rightarrow> 's \<times> bool) \<Rightarrow> 's \<Rightarrow> 's \<times> nat \<times> wal_error option"

text \<open>The reader of a single log file.\<close>

definition reader_source :: "bytes \<Rightarrow> 's frame_source" where
  "reader_source file yield s = reader_run yield s 0 file"

definition replay_start :: "('g, 'n, 'w) replay_cfg \<Rightarrow> u64 list option \<Rightarrow> 'g rstate \<Rightarrow> 'g replay_st" where
  "replay_start cfg idBase s =
     \<lparr> rp_s = s, rp_ids = newIDReplay (rc_G cfg) (rs_g s) idBase, rp_crossed = (rc_redo cfg < 0),
       rp_belowPending = 0, rp_pending = [], rp_WALOps = 0, rp_MaxTxnSeq = 0, rp_MaxCommitTS = 0,
       rp_TailErr = None, rp_frameIdx = 0, rp_cancelled = False \<rparr>"

text \<open>The state the loop leaves, with the id marks restored, and the tail offset; a cancelled replay
  returns before it looks at the tail.\<close>

definition replayWALInto ::
  "(nat \<Rightarrow> bool) \<Rightarrow> ('g, 'n, 'w) replay_cfg \<Rightarrow> 'g replay_st frame_source \<Rightarrow> u64 list option \<Rightarrow> 'g rstate
     \<Rightarrow> 'g replay_st \<times> nat" where
  "replayWALInto cancelled cfg r idBase s =
     (case r (replay_step cancelled cfg) (replay_start cfg idBase s) of (st, off, tErr) \<Rightarrow>
        let st = st\<lparr> rp_s := (rp_s st)\<lparr> rs_g := id_apply (rc_G cfg) (rp_ids st) (rs_g (rp_s st)) \<rparr> \<rparr>
        in if rp_cancelled st then (st, 0)
           else ((case tErr of None \<Rightarrow> st | Some e \<Rightarrow> st\<lparr> rp_TailErr := Some (ErrWal e) \<rparr>), off))"

definition empty_rstate :: "'g \<Rightarrow> 'g rstate" where
  "empty_rstate g = \<lparr> rs_g = g, rs_labels = {}, rs_keys = {}, rs_cs = Map.empty, rs_is = Map.empty \<rparr>"

definition ReplayWAL ::
  "(nat \<Rightarrow> bool) \<Rightarrow> ('g, 'n, 'w) Graph \<Rightarrow> 'w \<Rightarrow> 'n Codec \<Rightarrow> 'w Codec option \<Rightarrow> int
     \<Rightarrow> 'g replay_st frame_source \<Rightarrow> 'g \<Rightarrow> 'g replay_st \<times> nat" where
  "ReplayWAL cancelled G zeroW c wc maxTxnOps r g =
     (case replayWALInto cancelled
        \<lparr> rc_G = G, rc_zeroW = zeroW, rc_codec = c, rc_wcodec = wc, rc_maxTxnOps = maxTxnOps,
          rc_redo = -1, rc_schemaBelowRedo = False \<rparr> r None (empty_rstate g) of (st, off) \<Rightarrow>
        ((if rp_MaxCommitTS st > 0
          then st\<lparr> rp_s := (rp_s st)\<lparr> rs_g := g_RestoreMVCCClock G (rp_MaxCommitTS st + 1) (rs_g (rp_s st)) \<rparr> \<rparr>
          else st), off))"

subsection \<open>Transaction size caps\<close>

definition DefaultMaxTxnOps :: int where "DefaultMaxTxnOps = 16000000"
definition MaxTxnOpsUnlimited :: int where "MaxTxnOpsUnlimited = -1"

definition resolveRecoveryMaxTxnOps :: "int \<Rightarrow> int" where
  "resolveRecoveryMaxTxnOps n =
     (if n = 0 then DefaultMaxTxnOps else if n = MaxTxnOpsUnlimited then 0 else n)"

definition recoveryCapOption :: "int \<Rightarrow> int" where
  "recoveryCapOption resolved = (if resolved = 0 then MaxTxnOpsUnlimited else resolved)"

definition clampProducerCapToReplay :: "int \<Rightarrow> int \<Rightarrow> int" where
  "clampProducerCapToReplay producer replay =
     (if replay = 0 then producer
      else let replayResolved = resolveRecoveryMaxTxnOps replay in
        if replayResolved = 0 then producer
        else let producerResolved = resolveRecoveryMaxTxnOps producer in
          if producerResolved = 0 \<or> producerResolved > replayResolved then replayResolved else producer)"

subsection \<open>What a tail error means\<close>

text \<open>The errors of the segmented log's container and of a snapshot that does not reach it.\<close>

fun isWALV2Corruption :: "rec_error \<Rightarrow> bool" where
  "isWALV2Corruption (ErrWal e) =
     (e \<in> {ErrMissingControl, ErrControlCorrupt, ErrSegmentHeader, ErrForeignStore, ErrSegmentGap,
            ErrTornSegment, ErrFramePosition, ErrPrevLink, ErrLegacyNotSealed})"
| "isWALV2Corruption e =
     (e \<in> {ErrForeignSnapshot, ErrSnapshotTooOld, ErrSnapshotAheadOfWAL, ErrRedoPointNotFrameBoundary, ErrRedoPointMidTransaction})"

definition tailErrIsCorruption :: "rec_error option \<Rightarrow> bool" where
  "tailErrIsCorruption err =
     (case err of None \<Rightarrow> False
      | Some e \<Rightarrow>
          if e = ErrWal ErrTornFrameMasksData then True
          else if e = ErrWal ErrTornFrame then False
          else e \<in> {ErrWal ErrCRCMismatch, ErrWal ErrBadMagic, ErrWal ErrUnsupportedVersion, ErrWal ErrFrameTooLarge,
                 ErrUnsupportedRecordVersion, ErrTransactionTooLarge, ErrMissingSnapshot, ErrUnboundNodeKey,
                 ErrCommitAnnexCorrupt, ErrNodeIDMismatch, ErrIDBeyondReservation, ErrIDRecordCorrupt,
                 ErrCommittedTxnCorruptOp} \<or> isWALV2Corruption e)"

definition tailErrIsOpenFatal :: "rec_error option \<Rightarrow> bool" where
  "tailErrIsOpenFatal err \<longleftrightarrow> tailErrIsCorruption err \<and> err \<noteq> Some ErrCommittedTxnCorruptOp"

definition replay_IsClean :: "'g replay_st \<Rightarrow> bool" where
  "replay_IsClean st = (\<not> tailErrIsCorruption (rp_TailErr st))"

subsection \<open>Feeding frames to the loop\<close>

fun feed :: "('s \<Rightarrow> Frame \<Rightarrow> 's \<times> bool) \<Rightarrow> 's \<Rightarrow> Frame list \<Rightarrow> 's \<times> bool" where
  "feed yield s [] = (s, True)"
| "feed yield s (f # fs) = (case yield s f of (s, True) \<Rightarrow> feed yield s fs | (s, False) \<Rightarrow> (s, False))"

lemma feed_append: "feed yield s (fs @ gs) = (case feed yield s fs of (s, True) \<Rightarrow> feed yield s gs | (s, False) \<Rightarrow> (s, False))"
  by (induction fs arbitrary: s) (auto split: prod.splits bool.splits)

lemma feed_invariant:
  "P s \<Longrightarrow> (\<And>s f s' go. P s \<Longrightarrow> yield s f = (s', go) \<Longrightarrow> P s') \<Longrightarrow> feed yield s fs = (s', go) \<Longrightarrow> P s'"
  by (induction fs arbitrary: s) (auto split: prod.splits bool.splits, blast+)

lemma reader_run_feed:
  assumes "encode_log fs = Inr bs" "feed yield s (map stored_frame fs) = (s', True)"
  shows "reader_run yield s off (bs @ r) = reader_run yield s' (off + log_size fs) r"
  using assms
proof (induction fs arbitrary: bs s off)
  case Nil
  then show ?case by (simp add: log_size_def)
next
  case (Cons f fs)
  then obtain b bs' where b: "Encode f = Inr b" and bs': "encode_log fs = Inr bs'" and bs: "bs = b @ bs'"
    by (auto simp: result_bind_eq_Inr_iff)
  from Cons.prems(2) obtain t where "yield s (stored_frame f) = (t, True)" "feed yield t (map stored_frame fs) = (s', True)"
    by (auto split: prod.splits bool.splits)
  with Cons.IH [OF bs'] show ?case
    by (simp add: bs reader_run_step [OF Decode_Encode [OF b] Encode_nonempty [OF b]] log_size_def add.assoc)
qed

subsection \<open>What every frame keeps\<close>

lemma stop_with_simps [simp]:
  "fst (stop_with e st) = False" "rp_pending (snd (stop_with e st)) = rp_pending st"
  "rp_MaxTxnSeq (snd (stop_with e st)) = rp_MaxTxnSeq st" "rp_MaxCommitTS (snd (stop_with e st)) = rp_MaxCommitTS st"
  "rp_crossed (snd (stop_with e st)) = rp_crossed st" "rp_s (snd (stop_with e st)) = rp_s st"
  "rp_WALOps (snd (stop_with e st)) = rp_WALOps st" "rp_TailErr (snd (stop_with e st)) = Some e"
  "rp_cancelled (snd (stop_with e st)) = rp_cancelled st"
  by (simp_all add: stop_with_def)

lemma keep_going_simps [simp]: "fst (keep_going st) = True" "snd (keep_going st) = st"
  by (simp_all add: keep_going_def)

lemma commit_above_keeps [simp]:
  "rp_pending (snd (commit_above cfg op committed st)) = []"
  "rp_MaxTxnSeq (snd (commit_above cfg op committed st)) = rp_MaxTxnSeq st"
  "rp_MaxCommitTS (snd (commit_above cfg op committed st)) = rp_MaxCommitTS st"
  "rp_crossed (snd (commit_above cfg op committed st)) = rp_crossed st"
  by (auto simp: commit_above_def Let_def split: prod.splits sum.splits)

lemma replay_marker_keeps [simp]:
  "rp_pending (snd (replay_marker cfg op st)) = []"
  "rp_MaxTxnSeq (snd (replay_marker cfg op st)) = rp_MaxTxnSeq st"
  "rp_MaxCommitTS (snd (replay_marker cfg op st)) = rp_MaxCommitTS st"
  "rp_crossed (snd (replay_marker cfg op st)) = rp_crossed st"
  by (auto simp: replay_marker_def Let_def split: prod.splits bool.splits)

lemma track_max_keeps [simp]:
  "rp_pending (track_max op st) = rp_pending st" "rp_crossed (track_max op st) = rp_crossed st"
  "rp_s (track_max op st) = rp_s st" "rp_WALOps (track_max op st) = rp_WALOps st"
  "rp_cancelled (track_max op st) = rp_cancelled st"
  "rp_MaxTxnSeq (track_max op st) = max (rp_MaxTxnSeq st) (ro_TxnSeq op)"
  "rp_MaxCommitTS (track_max op st) =
     (case CommitTS op of None \<Rightarrow> rp_MaxCommitTS st | Some ts \<Rightarrow> max (rp_MaxCommitTS st) ts)"
  by (auto simp: track_max_def Let_def max_def split: option.splits)

lemma replay_control_keeps [simp]:
  "rp_MaxTxnSeq (snd (replay_control op st)) = rp_MaxTxnSeq st"
  "rp_MaxCommitTS (snd (replay_control op st)) = rp_MaxCommitTS st"
  "rp_crossed (snd (replay_control op st)) = rp_crossed st" "rp_s (snd (replay_control op st)) = rp_s st"
  "rp_WALOps (snd (replay_control op st)) = rp_WALOps st"
  "rp_pending (snd (replay_control op st)) \<in> {rp_pending st, []}" "fst (replay_control op st)"
  by (auto simp: replay_control_def split: sum.splits option.splits prod.splits)

lemma replay_v2_keeps [simp]:
  "rp_pending (snd (replay_v2 cfg op st)) = rp_pending st"
  "rp_MaxTxnSeq (snd (replay_v2 cfg op st)) = rp_MaxTxnSeq st"
  "rp_MaxCommitTS (snd (replay_v2 cfg op st)) = rp_MaxCommitTS st"
  "rp_crossed (snd (replay_v2 cfg op st)) = rp_crossed st"
  by (auto simp: replay_v2_def split: prod.splits bool.splits)

definition within_cap :: "('g, 'n, 'w) replay_cfg \<Rightarrow> 'g replay_st \<Rightarrow> bool" where
  "within_cap cfg st \<longleftrightarrow> (rc_maxTxnOps cfg > 0 \<longrightarrow> int (length (rp_pending st)) \<le> rc_maxTxnOps cfg)"

lemma replay_payload_cases:
  obtains (undecodable) e where "rec_Decode p = Inl e" "replay_payload cfg p st = stop_with e st"
  | (control) op where "rec_Decode p = Inr op" "ro_Version op = ControlRecordTag" "replay_payload cfg p st = replay_control op st"
  | (v3) op where "rec_Decode p = Inr op" "ro_Version op = OpRecordV3" "replay_payload cfg p st = replay_v3 cfg op st"
  | (v2) op where "rec_Decode p = Inr op" "ro_Version op \<noteq> OpRecordV3" "ro_Version op \<noteq> ControlRecordTag"
      "replay_payload cfg p st = replay_v2 cfg op st"
  by (cases "rec_Decode p") (auto simp: replay_payload_def ControlRecordTag_def split: if_splits)

text \<open>The state a frame's payload meets: one frame on, and across the redo position when the frame
  stands at it.\<close>

definition met :: "('g, 'n, 'w) replay_cfg \<Rightarrow> Frame \<Rightarrow> 'g replay_st \<Rightarrow> 'g replay_st" where
  "met cfg f st =
     (let st = st\<lparr> rp_frameIdx := rp_frameIdx st + 1 \<rparr> in
      if \<not> rp_crossed st \<and> FVersion f = CurrentVersion \<and> sint (Pos f) = rc_redo cfg
      then st\<lparr> rp_crossed := True, rp_belowPending := length (rp_pending st) \<rparr> else st)"

lemma met_keeps [simp]:
  "rp_pending (met cfg f st) = rp_pending st" "rp_s (met cfg f st) = rp_s st" "rp_WALOps (met cfg f st) = rp_WALOps st"
  "rp_MaxTxnSeq (met cfg f st) = rp_MaxTxnSeq st" "rp_MaxCommitTS (met cfg f st) = rp_MaxCommitTS st"
  "rp_TailErr (met cfg f st) = rp_TailErr st" "rp_cancelled (met cfg f st) = rp_cancelled st"
  by (simp_all add: met_def Let_def)

lemma replay_step_cases:
  assumes "replay_step cancelled cfg st f = (st', go)"
  obtains (cancel) "go = False" "st' = st\<lparr> rp_frameIdx := rp_frameIdx st + 1, rp_cancelled := True \<rparr>"
  | (boundary) "\<not> rp_crossed st" "go = False"
      "st' = st\<lparr> rp_frameIdx := rp_frameIdx st + 1, rp_TailErr := Some ErrRedoPointNotFrameBoundary \<rparr>"
  | (frame) "go = fst (replay_payload cfg (Payload f) (met cfg f st))"
      "st' = snd (replay_payload cfg (Payload f) (met cfg f st))"
      "rp_crossed st \<or> FVersion f \<noteq> CurrentVersion \<or> sint (Pos f) \<le> rc_redo cfg"
proof -
  let ?st = "st\<lparr> rp_frameIdx := rp_frameIdx st + 1 \<rparr>"
  consider "rp_WALOps ?st mod 4096 = 0 \<and> cancelled (rp_frameIdx ?st)"
    | "\<not> (rp_WALOps ?st mod 4096 = 0 \<and> cancelled (rp_frameIdx ?st))"
      "\<not> rp_crossed st \<and> FVersion f = CurrentVersion \<and> sint (Pos f) > rc_redo cfg"
    | "\<not> (rp_WALOps ?st mod 4096 = 0 \<and> cancelled (rp_frameIdx ?st))"
      "rp_crossed st \<or> FVersion f \<noteq> CurrentVersion \<or> sint (Pos f) \<le> rc_redo cfg"
    by linarith
  then show ?thesis
  proof cases
    case 1
    then show ?thesis using assms cancel by (simp add: replay_step_def Let_def)
  next
    case 2
    then have "replay_step cancelled cfg st f = (?st\<lparr> rp_TailErr := Some ErrRedoPointNotFrameBoundary \<rparr>, False)"
      by (simp only: replay_step_def Let_def if_False) (simp add: replay_frame_def stop_with_def)
    then show ?thesis using assms boundary 2(2) by simp
  next
    case 3
    have "replay_frame cfg f ?st = replay_payload cfg (Payload f) (met cfg f st)"
      using 3(2) by (auto simp: replay_frame_def met_def Let_def)
    then have "replay_step cancelled cfg st f = prod.swap (replay_payload cfg (Payload f) (met cfg f st))"
      using 3(1) by (simp only: replay_step_def Let_def if_False prod.swap_def) (simp add: case_prod_beta)
    then show ?thesis using assms frame 3(2) by (simp add: prod.swap_def)
  qed
qed

lemma replay_payload_cap: "within_cap cfg st \<Longrightarrow> within_cap cfg (snd (replay_payload cfg p st))"
proof (cases rule: replay_payload_cases [of p cfg st])
  case (control op)
  then show "within_cap cfg st \<Longrightarrow> within_cap cfg (snd (replay_payload cfg p st))"
    using replay_control_keeps(6) [of op st] by (auto simp: within_cap_def)
qed (auto simp: replay_v3_def within_cap_def Let_def)

lemma replay_step_cap:
  assumes "within_cap cfg st" "replay_step cancelled cfg st f = (st', go)"
  shows "within_cap cfg st'"
  using assms(2)
proof (cases rule: replay_step_cases)
  case frame
  have "within_cap cfg (met cfg f st)" using assms(1) by (simp add: within_cap_def)
  then show ?thesis unfolding frame(2) by (rule replay_payload_cap)
qed (use assms(1) in \<open>auto simp: within_cap_def\<close>)

text \<open>The sequence and the commit timestamp a frame carries, if any.\<close>

definition frame_seqs :: "Frame \<Rightarrow> u64 list" where
  "frame_seqs f =
     (case rec_Decode (Payload f) of Inl _ \<Rightarrow> []
      | Inr op \<Rightarrow> if ro_Version op = OpRecordV3 then [ro_TxnSeq op] else [])"

definition frame_timestamps :: "Frame \<Rightarrow> u64 list" where
  "frame_timestamps f =
     (case rec_Decode (Payload f) of Inl _ \<Rightarrow> []
      | Inr op \<Rightarrow> if ro_Version op = OpRecordV3 then (case CommitTS op of None \<Rightarrow> [] | Some ts \<Rightarrow> [ts]) else [])"

lemma replay_payload_maxima:
  "fst (replay_payload cfg (Payload f) st) \<Longrightarrow>
     rp_MaxTxnSeq (snd (replay_payload cfg (Payload f) st)) = fold max (frame_seqs f) (rp_MaxTxnSeq st) \<and>
     rp_MaxCommitTS (snd (replay_payload cfg (Payload f) st)) = fold max (frame_timestamps f) (rp_MaxCommitTS st)"
  by (auto simp: replay_payload_def replay_v3_def Let_def frame_seqs_def frame_timestamps_def max.commute
      ControlRecordTag_def split: sum.splits option.splits)

lemma replay_step_maxima:
  assumes "replay_step cancelled cfg st f = (st', True)"
  shows "rp_MaxTxnSeq st' = fold max (frame_seqs f) (rp_MaxTxnSeq st)"
    and "rp_MaxCommitTS st' = fold max (frame_timestamps f) (rp_MaxCommitTS st)"
  using assms by (cases rule: replay_step_cases; use replay_payload_maxima [of cfg f "met cfg f st"] in simp)+

lemma feed_maxima:
  "feed (replay_step cancelled cfg) st fs = (st', True) \<Longrightarrow>
     rp_MaxTxnSeq st' = fold max (concat (map frame_seqs fs)) (rp_MaxTxnSeq st) \<and>
     rp_MaxCommitTS st' = fold max (concat (map frame_timestamps fs)) (rp_MaxCommitTS st)"
proof (induction fs arbitrary: st)
  case (Cons f fs)
  then obtain t where t: "replay_step cancelled cfg st f = (t, True)" "feed (replay_step cancelled cfg) t fs = (st', True)"
    by (auto split: prod.splits bool.splits)
  show ?case using Cons.IH [OF t(2)] replay_step_maxima [OF t(1)] by simp
qed simp

lemma fold_max_Max: "fold max xs (0 :: u64) = Max (set (0 # xs))"
  by (subst Max.set_eq_fold) simp

subsection \<open>Why the loop stops\<close>

lemma rec_Decode_errors:
  "rec_Decode p = Inl e \<Longrightarrow> e \<in> {ShortPayload, ErrUnsupportedRecordVersion, ErrIDRecordCorrupt}"
  by (auto simp: rec_Decode_def decodeV3_def decodeV2_def decode_control_def split: if_splits sum.splits option.splits)

lemma parse_entries_errors: "parse_entries c committed n annex = Inl e \<Longrightarrow> e = ErrCommitAnnexCorrupt"
  by (induction c committed n annex rule: parse_entries.induct)
    (auto simp: Let_def result_bind_eq_Inl_iff split: prod.splits if_splits sum.splits option.splits)

lemma place_entries_errors: "place_entries G es g = (Inl e, g') \<Longrightarrow> e = ErrNodeIDMismatch"
  by (induction G es g arbitrary: g' rule: place_entries.induct) (auto split: option.splits prod.splits sum.splits)

lemma replayCommitAnnex_errors:
  "replayCommitAnnex G c check committed body g = (Inl e, g') \<Longrightarrow>
     e \<in> {ErrCommitAnnexCorrupt, ErrIDBeyondReservation, ErrNodeIDMismatch, ErrUnboundNodeKey}"
  by (auto simp: replayCommitAnnex_def placeAnnex_def parseAnnex_def result_bind_eq_Inl_iff
      split: option.splits sum.splits prod.splits if_splits dest!: parse_entries_errors place_entries_errors)

definition benign_stop :: "rec_error \<Rightarrow> bool" where
  "benign_stop e \<longleftrightarrow> e \<in> {ShortPayload, ErrV2FrameUndecodable}"

definition stopped_for :: "'g replay_st \<Rightarrow> bool" where
  "stopped_for st \<longleftrightarrow> (\<exists>e. rp_TailErr st = Some e \<and> tailErrIsCorruption (Some e) \<noteq> benign_stop e)"

lemma stop_with_for: "tailErrIsCorruption (Some e) \<noteq> benign_stop e \<Longrightarrow> stopped_for (snd (stop_with e st))"
  by (simp add: stopped_for_def)

lemmas stop_reasons = tailErrIsCorruption_def benign_stop_def

lemma commit_above_stop: "\<not> fst (commit_above cfg op committed st) \<Longrightarrow> stopped_for (snd (commit_above cfg op committed st))"
  by (auto simp: commit_above_def Let_def stop_reasons split: prod.splits sum.splits if_splits intro!: stop_with_for
      dest!: replayCommitAnnex_errors)

lemma replay_marker_stop: "\<not> fst (replay_marker cfg op st) \<Longrightarrow> stopped_for (snd (replay_marker cfg op st))"
  by (auto simp: replay_marker_def Let_def stop_reasons split: prod.splits bool.splits if_splits
      intro!: stop_with_for intro: commit_above_stop)

lemma replay_payload_stop: "\<not> fst (replay_payload cfg p st) \<Longrightarrow> stopped_for (snd (replay_payload cfg p st))"
proof (cases rule: replay_payload_cases [of p cfg st])
  case (undecodable e)
  then show ?thesis using rec_Decode_errors [OF undecodable(1)] by (auto simp: stop_reasons intro!: stop_with_for)
qed (auto simp: replay_v3_def replay_v2_def Let_def stop_reasons split: prod.splits bool.splits if_splits
    intro!: stop_with_for intro: replay_marker_stop)

lemma feed_stop:
  "feed (replay_step cancelled cfg) st fs = (st', False) \<Longrightarrow> rp_cancelled st' \<or> stopped_for st'"
proof (induction fs arbitrary: st)
  case (Cons f fs)
  obtain t go where t: "replay_step cancelled cfg st f = (t, go)" by fastforce
  show ?case
  proof (cases go)
    case True
    then show ?thesis using Cons t by simp
  next
    case False
    then have st': "st' = t" using Cons.prems t by simp
    from t show ?thesis
    proof (cases rule: replay_step_cases)
      case frame
      then show ?thesis using replay_payload_stop [of cfg "Payload f" "met cfg f st"] False st' by simp
    qed (simp_all add: st' stopped_for_def stop_reasons)
  qed
qed simp

subsection \<open>Below the redo position\<close>

text \<open>What stays of a state while the loop is below the redo position.\<close>

definition below :: "'g replay_st \<Rightarrow> 'g \<times> bytes set \<times> bytes set \<times> nat \<times> bool" where
  "below st = (rs_g (rp_s st), rs_labels (rp_s st), rs_keys (rp_s st), rp_WALOps st, rp_crossed st)"

lemma accumulateSchemaOnly_keeps:
  "accumulateSchemaOnly ops s = (b, s') \<Longrightarrow> rs_g s' = rs_g s \<and> rs_labels s' = rs_labels s \<and> rs_keys s' = rs_keys s"
  by (induction ops arbitrary: s) (auto split: option.splits if_splits)

lemma replay_payload_below:
  "\<not> rp_crossed st \<Longrightarrow> below (snd (replay_payload cfg p st)) = below st \<and>
     (\<not> rc_schemaBelowRedo cfg \<longrightarrow> rp_s (snd (replay_payload cfg p st)) = rp_s st)"
  by (cases rule: replay_payload_cases [of p cfg st])
    (auto simp: below_def replay_v3_def replay_v2_def replay_marker_def Let_def
      simp del: accumulateSchemaOnly.simps split: prod.splits bool.splits dest!: accumulateSchemaOnly_keeps)

lemma replay_step_below:
  assumes "\<not> rp_crossed st" "FVersion f \<noteq> CurrentVersion \<or> sint (Pos f) < rc_redo cfg"
    and "replay_step cancelled cfg st f = (st', go)"
  shows "below st' = below st \<and> (\<not> rc_schemaBelowRedo cfg \<longrightarrow> rp_s st' = rp_s st)"
  using assms(3)
proof (cases rule: replay_step_cases)
  case frame
  have "met cfg f st = st\<lparr> rp_frameIdx := rp_frameIdx st + 1 \<rparr>" using assms(2) by (auto simp: met_def Let_def)
  then show ?thesis unfolding frame(2)
    using replay_payload_below [of "met cfg f st" cfg "Payload f"] assms(1) by (simp add: below_def)
qed (simp_all add: below_def)

lemma feed_below:
  "\<not> rp_crossed st \<Longrightarrow> list_all (\<lambda>f. FVersion f \<noteq> CurrentVersion \<or> sint (Pos f) < rc_redo cfg) fs \<Longrightarrow>
   feed (replay_step cancelled cfg) st fs = (st', go) \<Longrightarrow>
   below st' = below st \<and> (\<not> rc_schemaBelowRedo cfg \<longrightarrow> rp_s st' = rp_s st)"
proof (induction fs arbitrary: st)
  case (Cons f fs)
  obtain t g where t: "replay_step cancelled cfg st f = (t, g)" by fastforce
  have b: "below t = below st \<and> (\<not> rc_schemaBelowRedo cfg \<longrightarrow> rp_s t = rp_s st)"
    using replay_step_below [OF Cons.prems(1) _ t] Cons.prems(2) by simp
  then have "\<not> rp_crossed t" using Cons.prems(1) by (simp add: below_def)
  with b Cons.IH [of t] Cons.prems(2,3) t show ?case by (cases g) auto
qed simp

subsection \<open>Properties\<close>

lemma resolve_clamp:
  assumes "resolveRecoveryMaxTxnOps replay > 0" "producer \<ge> MaxTxnOpsUnlimited"
  defines "cap \<equiv> clampProducerCapToReplay producer (recoveryCapOption (resolveRecoveryMaxTxnOps replay))"
  shows "0 < resolveRecoveryMaxTxnOps cap" "resolveRecoveryMaxTxnOps cap \<le> resolveRecoveryMaxTxnOps replay"
  using assms
  by (auto simp: clampProducerCapToReplay_def resolveRecoveryMaxTxnOps_def recoveryCapOption_def MaxTxnOpsUnlimited_def
      DefaultMaxTxnOps_def Let_def split: if_splits)

text \<open>Property C35. Bounded buffering: whatever the frames of a log hold, a replay under the bound
  \<open>Options.MaxTxnOps\<close> selects never buffers more ops than that bound, and the store reopened from its
  result admits no transaction with more ops than it, whatever cap the caller asks for (0 and -1 are
  the default and no cap).\<close>

theorem replay_buffer_bounded:
  assumes "feed (replay_step cancelled cfg) (replay_start cfg idBase s) fs = (st, go)"
    and "rc_maxTxnOps cfg = resolveRecoveryMaxTxnOps replay" "resolveRecoveryMaxTxnOps replay > 0"
    and "producer \<ge> MaxTxnOpsUnlimited"
  shows "int (length (rp_pending st)) \<le> resolveRecoveryMaxTxnOps replay \<and>
    0 < resolveRecoveryMaxTxnOps (clampProducerCapToReplay producer (recoveryCapOption (resolveRecoveryMaxTxnOps replay))) \<and>
    resolveRecoveryMaxTxnOps (clampProducerCapToReplay producer (recoveryCapOption (resolveRecoveryMaxTxnOps replay)))
      \<le> resolveRecoveryMaxTxnOps replay"
proof -
  have "within_cap cfg (replay_start cfg idBase s)" by (simp add: within_cap_def replay_start_def)
  then have "within_cap cfg st"
    by (rule feed_invariant [where yield = "replay_step cancelled cfg"]) (use replay_step_cap assms(1) in blast)+
  then show ?thesis using resolve_clamp [OF assms(3,4)] assms(2,3) by (simp add: within_cap_def)
qed

text \<open>A graph of nodes with their ids, which the witnesses replay into.\<close>

definition node_Graph :: "((bytes \<times> u64) list, bytes, u64) Graph" where
  "node_Graph =
     \<lparr> g_AddNode = (\<lambda>k g. (True, if k \<in> fst ` set g then g else g @ [(k, of_nat (length g))])),
       g_RemoveNode = (\<lambda>k g. (True, filter (\<lambda>(k', _). k' \<noteq> k) g)),
       g_NodeLabels = (\<lambda>g k. []), g_NodeProperties = (\<lambda>g k. []),
       g_SetNodeLabel = (\<lambda>k l g. (True, g)), g_RemoveNodeLabel = (\<lambda>k l g. (True, g)),
       g_SetNodeProperty = (\<lambda>k p v g. (True, g)), g_DelNodeProperty = (\<lambda>k p g. (True, g)),
       g_AddEdge = (\<lambda>a b w g. (True, g)), g_AddEdgeHIfAbsent = (\<lambda>a b w h g. (True, g)),
       g_RemoveEdge = (\<lambda>a b g. (True, g)), g_RemoveEdgeByHandle = (\<lambda>a b h g. (True, g)),
       g_RemoveEdgeInstanceByHandle = (\<lambda>a b h g. (True, g)), g_SetEdgeLabel = (\<lambda>a b l g. (True, g)),
       g_SetEdgeLabelByHandle = (\<lambda>a b h l g. (True, g)), g_SetEdgeProperty = (\<lambda>a b p v g. (True, g)),
       g_DelEdgeProperty = (\<lambda>a b p g. (True, g)), g_SetEdgePropertyByHandle = (\<lambda>a b h p v g. (True, g)),
       g_DelEdgePropertyByHandle = (\<lambda>a b h p g. (True, g)), g_SeedEdgeHandle = (\<lambda>h g. g),
       g_PlaceNodeID = (\<lambda>k nid g. case map_of g k of
          Some i \<Rightarrow> if i = nid then Some (False, g) else None | None \<Rightarrow> Some (True, g @ [(k, nid)])),
       g_UnplaceNodeID = (\<lambda>k nid g. filter (\<lambda>e. e \<noteq> (k, nid)) g), g_SettleNeverBorn = (\<lambda>nid g. g),
       g_Lookup = (\<lambda>g k. map_of g k), g_Watermark = (\<lambda>g. replicate 256 0),
       g_RestoreNext = (\<lambda>i v g. g), g_RestoreMVCCClock = (\<lambda>ts g. g) \<rparr>"

text \<open>A configuration over it, with a cap and a redo position, and a frame with a payload at a position.\<close>

definition node_cfg :: "int \<Rightarrow> int \<Rightarrow> ((bytes \<times> u64) list, bytes, u64) replay_cfg" where
  "node_cfg cap redo = \<lparr> rc_G = node_Graph, rc_zeroW = 0, rc_codec = string_Codec, rc_wcodec = None,
     rc_maxTxnOps = cap, rc_redo = redo, rc_schemaBelowRedo = True \<rparr>"

definition frame_at :: "u64 \<Rightarrow> bytes \<Rightarrow> Frame" where
  "frame_at pos p = \<lparr> Payload = p, Pos = pos, StoreID = 1, PrevLen = 0, FVersion = CurrentVersion \<rparr>"

definition add_node_payload :: "u64 \<Rightarrow> bytes" where
  "add_node_payload seq = [0xFD, 5] @ put_le64 seq @ put_le32 1 @ [65] @ put_le32 0 @ put_le16 0"

lemma decode_add_node:
  "rec_Decode (add_node_payload seq) = Inr \<lparr> ro_Version = OpRecordV3, ro_Kind = OpAddNode, ro_TxnSeq = seq,
     ro_Body = put_le32 1 @ [65] @ put_le32 0 @ put_le16 0 \<rparr>"
  by (simp add: add_node_payload_def rec_Decode_def decodeV3_def)

lemma decode_marker:
  "rec_Decode (encodeCommitV3Into seq ts []) = Inr \<lparr> ro_Version = OpRecordV3, ro_Kind = OpCommit, ro_TxnSeq = seq,
     ro_Body = put_le64 ts \<rparr>"
  by (simp add: encodeCommitV3Into_def rec_Decode_def decodeV3_def)

theorem replay_buffer_bounded_witness:
  "int (length (rp_pending (fst (feed (replay_step uncancelled (node_cfg 1 (-1)))
      (replay_start (node_cfg 1 (-1)) None (empty_rstate []))
      [frame_at 0 (add_node_payload 7), frame_at 80 (add_node_payload 8)])))) \<le> 1 \<and>
   resolveRecoveryMaxTxnOps (clampProducerCapToReplay 16 1) \<le> 1"
  using replay_buffer_bounded [OF surjective_pairing, of "node_cfg 1 (-1)" 1 16 uncancelled None "empty_rstate []"
      "[frame_at 0 (add_node_payload 7), frame_at 80 (add_node_payload 8)]"]
  by (simp add: node_cfg_def resolveRecoveryMaxTxnOps_def recoveryCapOption_def MaxTxnOpsUnlimited_def)

text \<open>Property C36. A replay that takes every frame hands the next process the highest transaction
  sequence and the highest commit timestamp of the log, those of transactions it discarded or skipped
  included: neither is ever handed out twice.\<close>

theorem replay_maxima:
  assumes "feed (replay_step cancelled cfg) (replay_start cfg idBase s) fs = (st, True)"
  shows "rp_MaxTxnSeq st = Max (set (0 # concat (map frame_seqs fs))) \<and>
    rp_MaxCommitTS st = Max (set (0 # concat (map frame_timestamps fs)))"
  using feed_maxima [OF assms] unfolding fold_max_Max [symmetric] by (simp add: replay_start_def)

lemmas replay_eval = replay_step_def replay_frame_def replay_payload_def replay_v3_def replay_marker_def track_max_def
  keep_going_def stop_with_def replay_start_def frame_at_def decode_add_node decode_marker CommitTS_def

theorem replay_maxima_witness:
  "\<exists>st. feed (replay_step uncancelled (node_cfg 5 (-1))) (replay_start (node_cfg 5 (-1)) None (empty_rstate []))
      [frame_at 0 (encodeCommitV3Into 9 5 []), frame_at 58 (add_node_payload 10)] = (st, True) \<and>
     rp_MaxTxnSeq st = 10 \<and> rp_MaxCommitTS st = 5"
proof -
  let ?fs = "[frame_at 0 (encodeCommitV3Into 9 5 []), frame_at 58 (add_node_payload 10)]"
  obtain st where st: "feed (replay_step uncancelled (node_cfg 5 (-1)))
      (replay_start (node_cfg 5 (-1)) None (empty_rstate [])) ?fs = (st, True)"
    by (simp add: replay_eval node_cfg_def ControlRecordTag_def commit_above_def replayCommitAnnex_def commitAnnex_def settle_annex_def)
  have "concat (map frame_seqs ?fs) = [9, 10]" "concat (map frame_timestamps ?fs) = [5]"
    by (simp_all add: frame_seqs_def frame_timestamps_def replay_eval)
  then have "rp_MaxTxnSeq st = 10" "rp_MaxCommitTS st = 5"
    using replay_maxima [OF st] by (simp_all only: list.set) simp_all
  with st show ?thesis by blast
qed

text \<open>Property C8. Below the redo position of the snapshot nothing reaches the graph: over frames that
  stand before it the replay applies no op and leaves the graph, the labels and the property keys as
  the snapshot gave them, also when a frame stops it; and a frame beyond the position, when none stood
  at it, stops the replay with \<open>ErrRedoPointNotFrameBoundary\<close>.\<close>

theorem redo_position_respected:
  assumes "rc_redo cfg \<ge> 0"
    and "list_all (\<lambda>f. FVersion f \<noteq> CurrentVersion \<or> sint (Pos f) < rc_redo cfg) fs"
    and "feed (replay_step uncancelled cfg) (replay_start cfg idBase s) fs = (st, go)"
    and "FVersion f = CurrentVersion" "sint (Pos f) > rc_redo cfg"
  shows "rs_g (rp_s st) = rs_g s \<and> rs_labels (rp_s st) = rs_labels s \<and> rs_keys (rp_s st) = rs_keys s \<and>
    rp_WALOps st = 0 \<and> (rc_schemaBelowRedo cfg \<or> rp_s st = s) \<and>
    feed (replay_step uncancelled cfg) (replay_start cfg idBase s) (fs @ [f]) =
      (if go then (st\<lparr> rp_frameIdx := rp_frameIdx st + 1, rp_TailErr := Some ErrRedoPointNotFrameBoundary \<rparr>, False)
       else (st, False))"
proof -
  have "\<not> rp_crossed (replay_start cfg idBase s)" using assms(1) by (simp add: replay_start_def)
  from feed_below [OF this assms(2,3)] show ?thesis
    using assms(3-5) \<open>\<not> rp_crossed (replay_start cfg idBase s)\<close>
    by (auto simp: below_def feed_append replay_step_def replay_frame_def stop_with_def replay_start_def)
qed

theorem redo_position_respected_witness:
  "\<exists>st. feed (replay_step uncancelled (node_cfg 5 100)) (replay_start (node_cfg 5 100) None (empty_rstate [([66], 0)]))
      ([frame_at 0 (add_node_payload 7)] @ [frame_at 120 (add_node_payload 8)]) = (st, False) \<and>
     rp_TailErr st = Some ErrRedoPointNotFrameBoundary"
proof -
  obtain st where st: "feed (replay_step uncancelled (node_cfg 5 100))
      (replay_start (node_cfg 5 100) None (empty_rstate [([66], 0)])) [frame_at 0 (add_node_payload 7)] = (st, True)"
    by (simp add: replay_eval node_cfg_def ControlRecordTag_def)
  show ?thesis
    using redo_position_respected [OF _ _ st, of "frame_at 120 (add_node_payload 8)"]
    by (simp add: node_cfg_def frame_at_def)
qed

text \<open>Property C37. A replay that stops before the last frame reports why: unless it was cancelled, its
  tail error is one that marks the log corrupt, or is the error of an undecodable frame, and those are
  the two errors after which it still counts as clean.\<close>

theorem replay_stop_reported:
  assumes "feed (replay_step cancelled cfg) (replay_start cfg idBase s) fs = (st, False)"
  shows "rp_cancelled st \<or> \<not> replay_IsClean st \<or> rp_TailErr st \<in> {Some ShortPayload, Some ErrV2FrameUndecodable}"
  using feed_stop [OF assms] by (auto simp: stopped_for_def replay_IsClean_def benign_stop_def)

theorem replay_stop_reported_witness:
  "\<exists>st. feed (replay_step uncancelled (node_cfg 1 (-1))) (replay_start (node_cfg 1 (-1)) None (empty_rstate []))
      [frame_at 0 (add_node_payload 7), frame_at 58 (add_node_payload 7)] = (st, False) \<and> \<not> replay_IsClean st"
proof -
  obtain st where st: "feed (replay_step uncancelled (node_cfg 1 (-1))) (replay_start (node_cfg 1 (-1)) None (empty_rstate []))
      [frame_at 0 (add_node_payload 7), frame_at 58 (add_node_payload 7)] = (st, False)"
      "\<not> rp_cancelled st" "rp_TailErr st = Some ErrTransactionTooLarge"
    by (simp add: replay_eval node_cfg_def ControlRecordTag_def)
  with replay_stop_reported [OF st(1)] show ?thesis by auto
qed

text \<open>A frame whose checksum is right but whose payload is a lone record tag stops the
  replay wherever it stands in the log: whatever frames follow it, committed transactions included,
  are never read, the graph stays as it was before it, and the replay still counts as clean.\<close>

theorem short_frame_hides_the_rest:
  assumes "feed (replay_step uncancelled cfg) (replay_start cfg idBase s) fs = (st, True)" "rp_crossed st"
    and "Payload f = [OpRecordV3]"
  shows "\<exists>st'. feed (replay_step uncancelled cfg) (replay_start cfg idBase s) (fs @ f # gs) = (st', False) \<and>
    rp_s st' = rp_s st \<and> rp_TailErr st' = Some ShortPayload \<and> replay_IsClean st'"
  using assms by (simp add: feed_append replay_step_def replay_frame_def replay_payload_def rec_Decode_def decodeV3_def
      stop_with_def replay_IsClean_def stop_reasons)

theorem short_frame_hides_the_rest_witness:
  "\<exists>st. feed (replay_step uncancelled (node_cfg 5 (-1))) (replay_start (node_cfg 5 (-1)) None (empty_rstate []))
      ([] @ frame_at 0 [0xFD] # [frame_at 37 (add_node_payload 7), frame_at 100 (encodeCommitV3Into 7 5 [])]) = (st, False) \<and>
     rs_g (rp_s st) = [] \<and> replay_IsClean st"
  using short_frame_hides_the_rest [where fs = "[]" and cfg = "node_cfg 5 (-1)" and s = "empty_rstate []" and idBase = None
      and f = "frame_at 0 [0xFD]" and gs = "[frame_at 37 (add_node_payload 7), frame_at 100 (encodeCommitV3Into 7 5 [])]"]
  by (auto simp: replay_start_def node_cfg_def frame_at_def empty_rstate_def)

end
