(* ===== verification/Recovery_Log.thy ===== *)
theory Recovery_Log
  imports Recovery_Replay
begin

text \<open>
  What recovery makes of the log a store wrote: the frames of committed and abandoned transactions,
  id reservations and clean closes, cut at any byte. The reference \<open>recovered\<close> applies the committed
  transactions in order through the typed meaning of their ops; the replay of the log file is shown
  to compute it.
\<close>

subsection \<open>What a log holds\<close>

text \<open>
  The runs a writer appends: the frames of a transaction that committed, the first frames of one that
  did not (its encoding was refused, or the process died), a reservation of node ids and the exact id
  marks of a clean close.
\<close>

datatype ('n, 'w) run =
    Committed u64 u64 "'n annexEntry list" "('n, 'w) Op list"
  | Abandoned u64 "('n, 'w) Op list" nat
  | Reserve byte u64
  | CleanClose "u64 list"

fun run_payloads :: "'n \<Rightarrow> 'n Codec \<Rightarrow> 'w Codec option \<Rightarrow> ('n, 'w) run \<Rightarrow> bytes list" where
  "run_payloads zeroN c wc (Committed seq ts es ops) =
     (case encodeAnnex c es of Inl _ \<Rightarrow> [] | Inr annex \<Rightarrow> fst (appendChecked zeroN c wc seq ts annex ops))"
| "run_payloads zeroN c wc (Abandoned seq ops n) = take n (fst (emit_ops zeroN c wc seq ops))"
| "run_payloads zeroN c wc (Reserve shard limit) = [AppendReserveIDs [] shard limit]"
| "run_payloads zeroN c wc (CleanClose next) = [AppendNextIDsExact [] next]"

fun run_ok :: "'n \<Rightarrow> 'n Codec \<Rightarrow> 'w Codec option \<Rightarrow> ('n \<Rightarrow> bool) \<Rightarrow> ('w \<Rightarrow> bool) \<Rightarrow> ('n, 'w) run \<Rightarrow> bool" where
  "run_ok zeroN c wc vn vw (Committed seq ts es ops) \<longleftrightarrow>
     (\<exists>annex. encodeAnnex c es = Inr annex \<and> snd (appendChecked zeroN c wc seq ts annex ops) = None) \<and>
     list_all (op_storable vn vw) ops \<and> list_all (entry_ok vn ops) es \<and> length es < 2 ^ 64 \<and> length ops < 2 ^ 62"
| "run_ok zeroN c wc vn vw (Abandoned seq ops n) \<longleftrightarrow> list_all (op_storable vn vw) ops"
| "run_ok zeroN c wc vn vw (Reserve shard limit) \<longleftrightarrow> True"
| "run_ok zeroN c wc vn vw (CleanClose next) \<longleftrightarrow> length next = 256"

fun run_seqs :: "('n, 'w) run \<Rightarrow> u64 list" where
  "run_seqs (Committed seq ts es ops) = [seq]"
| "run_seqs (Abandoned seq ops n) = [seq]"
| "run_seqs _ = []"

text \<open>\<open>fits cap q runs\<close>: with \<open>q\<close> ops of abandoned transactions buffered, no run takes the buffer over
  the cap; a positive cap is meant.\<close>

fun fits :: "'n \<Rightarrow> 'n Codec \<Rightarrow> 'w Codec option \<Rightarrow> int \<Rightarrow> nat \<Rightarrow> ('n, 'w) run list \<Rightarrow> bool" where
  "fits zeroN c wc cap q [] = True"
| "fits zeroN c wc cap q (Committed seq ts es ops # runs) \<longleftrightarrow>
     int (q + length ops) \<le> cap \<and> fits zeroN c wc cap 0 runs"
| "fits zeroN c wc cap q (Abandoned seq ops n # runs) \<longleftrightarrow>
     int (q + length (run_payloads zeroN c wc (Abandoned seq ops n))) \<le> cap \<and>
     fits zeroN c wc cap (q + length (run_payloads zeroN c wc (Abandoned seq ops n))) runs"
| "fits zeroN c wc cap q (run # runs) = fits zeroN c wc cap q runs"

subsection \<open>What recovery promises\<close>

text \<open>The effect of a committed transaction: its nodes get their ids, its ops are applied in order, and
  the ids no op names are settled as never born. \<open>None\<close> when the graph refuses any of it.\<close>

definition op_slot_keys :: "('n, 'w) Op \<Rightarrow> 'n list" where
  "op_slot_keys op = (if src_slot op then [op_Src op] else []) @ (if dst_slot op then [op_Dst op] else [])"

fun apply_ops :: "('g, 'n, 'w) replay_cfg \<Rightarrow> ('n, 'w) Op list \<Rightarrow> 'g rstate \<Rightarrow> 'g rstate option" where
  "apply_ops cfg [] s = Some s"
| "apply_ops cfg (op # ops) s =
     (case op_effect (rc_G cfg) (rc_zeroW cfg) (rc_wcodec cfg) op s of
        (False, s) \<Rightarrow> None | (True, s) \<Rightarrow> apply_ops cfg ops s)"

definition txn_effect ::
  "('g, 'n, 'w) replay_cfg \<Rightarrow> idReplay \<Rightarrow> 'n annexEntry list \<Rightarrow> ('n, 'w) Op list \<Rightarrow> 'g rstate \<Rightarrow> 'g rstate option" where
  "txn_effect cfg ids es ops s =
     (let named = concat (map op_slot_keys ops) in
      if \<not> list_all (\<lambda>e. id_check ids (ae_id e)) es then None
      else case place_entries (rc_G cfg) (map (\<lambda>e. (ae_key e, ae_id e)) es) (rs_g s) of
        (Inl e, g) \<Rightarrow> None
      | (Inr placed, g) \<Rightarrow>
          if list_ex (\<lambda>k. g_Lookup (rc_G cfg) g k = None) named then None
          else map_option
            (\<lambda>s. s\<lparr> rs_g := fold (g_SettleNeverBorn (rc_G cfg))
                       (map snd (filter (\<lambda>(k, nid). k \<notin> set named) placed)) (rs_g s) \<rparr>)
            (apply_ops cfg ops (s\<lparr> rs_g := g \<rparr>)))"

fun recovered ::
  "('g, 'n, 'w) replay_cfg \<Rightarrow> ('n, 'w) run list \<Rightarrow> 'g rstate \<times> idReplay \<times> nat \<Rightarrow> ('g rstate \<times> idReplay \<times> nat) option" where
  "recovered cfg [] x = Some x"
| "recovered cfg (Committed seq ts es ops # runs) (s, ids, n) =
     (case txn_effect cfg ids es ops s of
        None \<Rightarrow> None | Some s \<Rightarrow> recovered cfg runs (s, ids, n + length ops))"
| "recovered cfg (Abandoned seq ops k # runs) x = recovered cfg runs x"
| "recovered cfg (Reserve shard limit # runs) (s, ids, n) = recovered cfg runs (s, id_reserve (unat shard) limit ids, n)"
| "recovered cfg (CleanClose next # runs) (s, ids, n) = recovered cfg runs (s, id_exact next True ids, n)"

subsection \<open>The replay of one run\<close>

text \<open>Everything of a state but the buffer, the maxima and the frame count.\<close>

definition settled :: "'g replay_st \<Rightarrow> 'g rstate \<times> idReplay \<times> nat \<times> bool \<times> nat \<times> rec_error option \<times> bool" where
  "settled st = (rp_s st, rp_ids st, rp_WALOps st, rp_crossed st, rp_belowPending st, rp_TailErr st, rp_cancelled st)"

lemma replay_step_crossed:
  "rp_crossed st \<Longrightarrow> replay_step uncancelled cfg st f =
     (case replay_payload cfg (Payload f) (st\<lparr> rp_frameIdx := rp_frameIdx st + 1 \<rparr>) of (go, st) \<Rightarrow> (st, go))"
  by (simp add: replay_step_def replay_frame_def)

definition op_record :: "u64 \<Rightarrow> rec_Op \<Rightarrow> bool" where
  "op_record seq r \<longleftrightarrow> ro_Version r = OpRecordV3 \<and> ro_TxnSeq r = seq \<and> ro_Kind r \<noteq> OpCommit"

lemma ControlRecordTag_v3 [simp]: "(0xFD :: byte) \<noteq> ControlRecordTag" "(0xFE :: byte) \<noteq> ControlRecordTag"
  by (simp_all add: ControlRecordTag_def)

lemma track_max_settled [simp]: "settled (track_max op st) = settled st" "rp_pending (track_max op st) = rp_pending st"
  by (auto simp: track_max_def settled_def Let_def split: option.splits)

lemma settled_pending [simp]: "settled (st\<lparr> rp_pending := q \<rparr>) = settled st"
  by (simp add: settled_def)

lemma replay_payload_op:
  assumes "rec_Decode p = Inr r" "op_record seq r"
    and "rc_maxTxnOps cfg > 0 \<Longrightarrow> int (length (rp_pending st)) < rc_maxTxnOps cfg"
  shows "\<exists>st'. replay_payload cfg p st = (True, st') \<and> settled st' = settled st \<and> rp_pending st' = rp_pending st @ [r]"
  using assms
  by (auto simp: replay_payload_def op_record_def replay_v3_def Let_def keep_going_def)

lemma feed_ops:
  assumes "list_all2 (\<lambda>p r. rec_Decode p = Inr r \<and> op_record seq r) (map Payload fs) rs" "rp_crossed st"
    and "rc_maxTxnOps cfg > 0 \<Longrightarrow> int (length (rp_pending st) + length fs) \<le> rc_maxTxnOps cfg"
  shows "\<exists>st'. feed (replay_step uncancelled cfg) st fs = (st', True) \<and> settled st' = settled st \<and>
    rp_pending st' = rp_pending st @ rs"
  using assms
proof (induction fs arbitrary: st rs)
  case (Cons f fs)
  then obtain r rs' where r: "rs = r # rs'" "rec_Decode (Payload f) = Inr r" "op_record seq r"
      "list_all2 (\<lambda>p r. rec_Decode p = Inr r \<and> op_record seq r) (map Payload fs) rs'"
    by (auto simp: list_all2_Cons1)
  let ?st = "st\<lparr> rp_frameIdx := rp_frameIdx st + 1 \<rparr>"
  have "int (length (rp_pending ?st)) < rc_maxTxnOps cfg" if "rc_maxTxnOps cfg > 0" using Cons.prems(3) [OF that] by simp
  then obtain st1 where st1: "replay_payload cfg (Payload f) ?st = (True, st1)" "settled st1 = settled ?st"
      "rp_pending st1 = rp_pending st @ [r]"
    using replay_payload_op [OF r(2,3), of cfg ?st] by auto
  have c: "rp_crossed st1" "settled st1 = settled st" using st1(2) Cons.prems(2) by (simp_all add: settled_def)
  obtain st' where "feed (replay_step uncancelled cfg) st1 fs = (st', True)" "settled st' = settled st1"
      "rp_pending st' = rp_pending st1 @ rs'"
    using Cons.IH [OF r(4) c(1)] Cons.prems(3) st1(3) by auto
  then show ?case using st1(1,3) c(2) r(1) Cons.prems(2) by (simp add: replay_step_crossed)
qed simp

text \<open>The frames of a transaction's ops, up to the first the writer refused.\<close>

lemma emit_ops_length: "length (fst (emit_ops zeroN c wc seq ops)) \<le> length ops"
  by (induction ops) (auto split: sum.splits prod.splits)

lemma encoded_record:
  assumes "codec_ok c vn" "\<And>w. wc = Some w \<Longrightarrow> codec_ok w vw" "vn zeroN" "op_storable vn vw op"
    and "encodeOpTypedV3Into zeroN c wc seq [] op = Inr p"
  shows "\<exists>body. rec_Decode p = Inr (recorded OpRecordV3 (op_Kind op) seq body)"
proof -
  obtain body where "p = ([OpRecordV3, op_Kind op] @ put_le64 seq) @ body"
    using logged_op_replays [OF assms(1-4) assms(5) [unfolded encodeOpTypedV3Into_def append_Nil]] by blast
  then show ?thesis by (simp add: rec_Decode_def decodeV3_def recorded_def)
qed

lemma emit_ops_logged:
  assumes "codec_ok c vn" "\<And>w. wc = Some w \<Longrightarrow> codec_ok w vw" "vn zeroN"
  shows "list_all (op_storable vn vw) ops \<Longrightarrow> emit_ops zeroN c wc seq ops = (ps, e) \<Longrightarrow>
    \<exists>rs. list_all2 (\<lambda>p r. rec_Decode p = Inr r \<and> op_record seq r) ps rs \<and>
      (e = None \<longrightarrow> list_all2 (logged zeroN c wc seq) ops rs)"
proof (induction ops arbitrary: ps)
  case (Cons op ops)
  show ?case
  proof (cases "result_bind (encodeOpTypedV3Into zeroN c wc seq [] op) emit")
    case (Inl x)
    then show ?thesis using Cons.prems(2) by auto
  next
    case (Inr p)
    then have p: "encodeOpTypedV3Into zeroN c wc seq [] op = Inr p"
      by (auto simp: result_bind_eq_Inr_iff emit_def split: if_splits)
    obtain ps' where ps': "emit_ops zeroN c wc seq ops = (ps', e)" "ps = p # ps'"
      using Cons.prems(2) Inr by (auto split: prod.splits)
    obtain rs where rs: "list_all2 (\<lambda>p r. rec_Decode p = Inr r \<and> op_record seq r) ps' rs"
        "e = None \<longrightarrow> list_all2 (logged zeroN c wc seq) ops rs"
      using Cons.IH [OF _ ps'(1)] Cons.prems(1) by auto
    have st: "op_storable vn vw op" using Cons.prems(1) by simp
    then have "op_Kind op \<noteq> OpCommit" by (auto simp: op_storable_def tx_kinds_def)
    then obtain r where r: "rec_Decode p = Inr r" "op_record seq r"
      using encoded_record [OF assms st p] by (auto simp: recorded_def op_record_def)
    then have "logged zeroN c wc seq op r" using p by (auto simp: logged_def)
    with r rs ps'(2) show ?thesis by (intro exI [of _ "r # rs"]) simp
  qed
qed simp

text \<open>The marker of a transaction, read with its ops at the end of the buffer.\<close>

lemma named_keys_slots:
  assumes "slots_decode c ops rs"
  shows "named_keys c rs = concat (map op_slot_keys ops)"
proof -
  have len: "length rs = length ops" using assms by (simp add: slots_decode_def)
  have "slot_keys c (rs ! i) = op_slot_keys (ops ! i)" if "i < length ops" for i
    using assms that
    by (cases "NodeKeySlots (op_Kind (ops ! i))")
      (auto simp: slots_decode_def slot_keys_def op_slot_keys_def src_slot_def dst_slot_def)
  then have "map (slot_keys c) rs = map op_slot_keys ops" using len by (simp add: list_eq_iff_nth_eq)
  then show ?thesis by (simp add: named_keys_def)
qed

lemma logged_applies:
  assumes "codec_ok c vn" "\<And>w. wc = Some w \<Longrightarrow> codec_ok w vw" "vn zeroN" "op_storable vn vw op" "logged zeroN c wc seq op r"
  shows "applyOrAccumulate G zeroW c wc r s = op_effect G zeroW wc op s"
proof -
  obtain body where b: "r = recorded OpRecordV3 (op_Kind op) seq body"
    "appendOpBodyTyped zeroN c wc ([OpRecordV3, op_Kind op] @ put_le64 seq) op
       = Inr (([OpRecordV3, op_Kind op] @ put_le64 seq) @ body)"
    using logged_recorded [OF assms] by blast
  then show ?thesis using logged_op_replays [OF assms(1-4) b(2), of G zeroW] by (auto simp: replays_def)
qed

lemma apply_committed_ops:
  assumes "codec_ok (rc_codec cfg) vn" "\<And>w. rc_wcodec cfg = Some w \<Longrightarrow> codec_ok w vw" "vn zeroN"
  shows "list_all (op_storable vn vw) ops \<Longrightarrow> list_all2 (logged zeroN (rc_codec cfg) (rc_wcodec cfg) seq) ops rs \<Longrightarrow>
    apply_ops cfg ops s = Some s' \<Longrightarrow> apply_committed cfg rs s = (length rs, s')"
proof (induction ops arbitrary: rs s)
  case (Cons op ops)
  then obtain r rs' where r: "rs = r # rs'" "logged zeroN (rc_codec cfg) (rc_wcodec cfg) seq op r"
      "list_all2 (logged zeroN (rc_codec cfg) (rc_wcodec cfg) seq) ops rs'"
    by (auto simp: list_all2_Cons1)
  have st: "op_storable vn vw op" using Cons.prems(1) by simp
  have "applyOrAccumulate (rc_G cfg) (rc_zeroW cfg) (rc_codec cfg) (rc_wcodec cfg) r s
      = op_effect (rc_G cfg) (rc_zeroW cfg) (rc_wcodec cfg) op s"
    using logged_applies [OF assms st r(2)] .
  then show ?case
    using Cons.IH [OF _ r(3)] Cons.prems(1,3) r(1) by (auto split: prod.splits bool.splits)
qed simp

lemma commit_above_effect:
  assumes c: "codec_ok (rc_codec cfg) vn" "\<And>w. rc_wcodec cfg = Some w \<Longrightarrow> codec_ok w vw" "vn zeroN"
    and ops: "list_all (op_storable vn vw) ops" "length ops < 2 ^ 62"
      "list_all2 (logged zeroN (rc_codec cfg) (rc_wcodec cfg) seq) ops rs"
    and es: "encodeAnnex (rc_codec cfg) es = Inr annex" "list_all (entry_ok vn ops) es" "length es < 2 ^ 64"
    and eff: "txn_effect cfg (rp_ids st) es ops (rp_s st) = Some s'"
    and body: "ro_Body op = put_le64 ts @ annex"
  shows "commit_above cfg op rs st =
    (True, st\<lparr> rp_s := s', rp_WALOps := rp_WALOps st + length ops, rp_pending := [] \<rparr>)"
proof -
  let ?G = "rc_G cfg" and ?es = "map (\<lambda>e. (ae_key e, ae_id e)) es" and ?named = "concat (map op_slot_keys ops)"
  have sl: "slots_decode (rc_codec cfg) ops rs" using logged_slots_decode [OF c ops(1,3)] .
  have parse: "parseAnnex (rc_codec cfg) rs annex = Inr (Some ?es)"
    using parseAnnex_encodeAnnex [OF c(1) sl ops(2) es] .
  have named: "named_keys (rc_codec cfg) rs = ?named" using named_keys_slots [OF sl] .
  obtain placed g where pl: "place_entries ?G ?es (rs_g (rp_s st)) = (Inr placed, g)"
    and chk: "list_all (\<lambda>e. id_check (rp_ids st) (ae_id e)) es" "\<not> list_ex (\<lambda>k. g_Lookup ?G g k = None) ?named"
    and app: "\<exists>s1. apply_ops cfg ops ((rp_s st)\<lparr> rs_g := g \<rparr>) = Some s1 \<and> s' = s1\<lparr> rs_g :=
      fold (g_SettleNeverBorn ?G) (map snd (filter (\<lambda>(k, nid). k \<notin> set ?named) placed)) (rs_g s1) \<rparr>"
    using eff by (auto simp: txn_effect_def Let_def split: if_splits prod.splits sum.splits)
  obtain s1 where s1: "apply_ops cfg ops ((rp_s st)\<lparr> rs_g := g \<rparr>) = Some s1" "s' = s1\<lparr> rs_g :=
      fold (g_SettleNeverBorn ?G) (map snd (filter (\<lambda>(k, nid). k \<notin> set ?named) placed)) (rs_g s1) \<rparr>"
    using app by blast
  have len: "length rs = length ops" using list_all2_lengthD [OF ops(3)] by simp
  have ac: "apply_committed cfg rs ((rp_s st)\<lparr> rs_g := g \<rparr>) = (length rs, s1)"
    using apply_committed_ops [OF c ops(1,3) s1(1)] .
  have "annex \<noteq> []"
    using es(1) parse by (auto simp: parseAnnex_def Uvarint_def)
  then have "commitAnnex (ro_Body op) = Some annex" by (simp add: commitAnnex_def body)
  moreover have "list_all (\<lambda>(k, nid). id_check (rp_ids st) nid) ?es"
    using chk(1) by (simp add: list_all_iff)
  ultimately have "replayCommitAnnex ?G (rc_codec cfg) (id_check (rp_ids st)) rs (ro_Body op) (rs_g (rp_s st)) =
      (Inr (Some \<lparr> ap_placed = placed, ap_unnamed = map snd (filter (\<lambda>(k, nid). k \<notin> set ?named) placed) \<rparr>), g)"
    using chk(2) by (simp add: replayCommitAnnex_def placeAnnex_def parse pl named)
  then show ?thesis
    using ac len s1(2) by (simp add: commit_above_def Let_def keep_going_def settle_annex_def)
qed

lemma takeWhile_suffix:
  "list_all (\<lambda>p. ro_TxnSeq p \<noteq> seq) q \<Longrightarrow> list_all (\<lambda>p. ro_TxnSeq p = seq) rs \<Longrightarrow>
     takeWhile (\<lambda>p. ro_TxnSeq p \<noteq> seq) (q @ rs) = q"
  by (induction q) (cases rs; auto)+

lemma replay_payload_marker:
  "\<exists>st1. settled st1 = settled st \<and> rp_pending st1 = rp_pending st \<and>
    replay_payload cfg (encodeCommitV3Into seq ts [] @ annex) st =
      replay_marker cfg (recorded OpRecordV3 OpCommit seq (put_le64 ts @ annex)) st1"
  by (intro exI [of _ "track_max (recorded OpRecordV3 OpCommit seq (put_le64 ts @ annex)) st"])
    (simp add: replay_payload_def rec_Decode_def decodeV3_def encodeCommitV3Into_def replay_v3_def recorded_def Let_def)

lemma feed_single:
  assumes "rp_crossed st" "replay_payload cfg (Payload f) (st\<lparr> rp_frameIdx := rp_frameIdx st + 1 \<rparr>) = (True, st')"
  shows "feed (replay_step uncancelled cfg) st [f] = (st', True)"
  using assms by (simp add: replay_step_crossed)

text \<open>The frames of a committed transaction: one per op, and the marker with its annex.\<close>

lemma committed_frames:
  assumes c: "codec_ok c vn" "\<And>w. wc = Some w \<Longrightarrow> codec_ok w vw" "vn zeroN"
    and ok: "run_ok zeroN c wc vn vw (Committed seq ts es ops)"
    and fs: "map Payload fs = run_payloads zeroN c wc (Committed seq ts es ops)"
  shows "\<exists>gs m rs annex. fs = gs @ [m] \<and> length gs = length ops \<and> encodeAnnex c es = Inr annex \<and>
    Payload m = encodeCommitV3Into seq ts [] @ annex \<and> list_all2 (logged zeroN c wc seq) ops rs \<and>
    list_all2 (\<lambda>p r. rec_Decode p = Inr r \<and> op_record seq r) (map Payload gs) rs"
proof -
  obtain annex where an: "encodeAnnex c es = Inr annex" "snd (appendChecked zeroN c wc seq ts annex ops) = None"
    using ok by auto
  obtain ps where ps: "emit_ops zeroN c wc seq ops = (ps, None)"
      "fst (appendChecked zeroN c wc seq ts annex ops) = ps @ [encodeCommitV3Into seq ts [] @ annex]"
    using an(2) by (auto simp: appendChecked_def emit_def split: prod.splits option.splits sum.splits if_splits)
  obtain rs where rs: "list_all2 (\<lambda>p r. rec_Decode p = Inr r \<and> op_record seq r) ps rs"
      "list_all2 (logged zeroN c wc seq) ops rs"
    using emit_ops_logged [OF c _ ps(1)] ok by auto
  obtain gs m where "fs = gs @ [m]" "map Payload gs = ps" "Payload m = encodeCommitV3Into seq ts [] @ annex"
    using fs an(1) ps(2) by (auto simp: map_eq_append_conv)
  then show ?thesis using rs an(1) list_all2_lengthD [OF rs(1)] list_all2_lengthD [OF rs(2)] by auto
qed

text \<open>A log position between runs: nothing is below the redo position, nothing stopped the loop, and
  the buffer holds only ops of abandoned transactions.\<close>

definition between :: "u64 set \<Rightarrow> 'g rstate \<times> idReplay \<times> nat \<Rightarrow> 'g replay_st \<Rightarrow> bool" where
  "between seqs x st \<longleftrightarrow>
     settled st = (fst x, fst (snd x), snd (snd x), True, 0, None, False) \<and>
     list_all (\<lambda>p. ro_TxnSeq p \<in> seqs) (rp_pending st)"

lemma feed_committed:
  assumes c: "codec_ok (rc_codec cfg) vn" "\<And>w. rc_wcodec cfg = Some w \<Longrightarrow> codec_ok w vw" "vn zeroN"
    and ok: "run_ok zeroN (rc_codec cfg) (rc_wcodec cfg) vn vw (Committed seq ts es ops)"
    and fs: "map Payload fs = run_payloads zeroN (rc_codec cfg) (rc_wcodec cfg) (Committed seq ts es ops)"
    and st: "between seqs (s, ids, n) st" "seq \<notin> seqs"
    and eff: "txn_effect cfg ids es ops s = Some s'"
    and cap: "rc_maxTxnOps cfg > 0 \<Longrightarrow> int (length (rp_pending st) + length ops) \<le> rc_maxTxnOps cfg"
  shows "\<exists>st'. feed (replay_step uncancelled cfg) st fs = (st', True) \<and> rp_pending st' = [] \<and>
    between {} (s', ids, n + length ops) st'"
proof -
  let ?c = "rc_codec cfg" and ?wc = "rc_wcodec cfg"
  obtain gs m rs annex where gs: "fs = gs @ [m]" "length gs = length ops" and an: "encodeAnnex ?c es = Inr annex"
    and m: "Payload m = encodeCommitV3Into seq ts [] @ annex" and lg: "list_all2 (logged zeroN ?c ?wc seq) ops rs"
    and rs: "list_all2 (\<lambda>p r. rec_Decode p = Inr r \<and> op_record seq r) (map Payload gs) rs"
    using committed_frames [OF c ok fs] by blast
  have cr: "rp_crossed st" using st(1) by (simp add: between_def settled_def)
  obtain st1 where st1: "feed (replay_step uncancelled cfg) st gs = (st1, True)" "settled st1 = settled st"
      "rp_pending st1 = rp_pending st @ rs"
    using feed_ops [OF rs cr] cap gs(2) by auto
  let ?st1 = "st1\<lparr> rp_frameIdx := rp_frameIdx st1 + 1 \<rparr>" and ?m = "recorded OpRecordV3 OpCommit seq (put_le64 ts @ annex)"
  have b1: "rp_crossed ?st1" "rp_belowPending ?st1 = 0" "rp_crossed st1"
    using st1(2) st(1) by (auto simp: between_def settled_def)
  obtain st2 where st2: "settled st2 = settled ?st1" "rp_pending st2 = rp_pending ?st1"
      "replay_payload cfg (encodeCommitV3Into seq ts [] @ annex) ?st1 = replay_marker cfg ?m st2"
    using replay_payload_marker [of ?st1 cfg seq ts annex] by blast
  have set2: "settled st2 = (s, ids, n, True, 0, None, False)"
    using st2(1) st1(2) st(1) by (simp add: between_def settled_def)
  have "list_all (\<lambda>p. ro_TxnSeq p = seq) rs"
    using rs by (auto simp: list_all_length list_all2_conv_all_nth op_record_def)
  moreover have "list_all (\<lambda>p. ro_TxnSeq p \<noteq> seq) (rp_pending st)"
    using st by (auto simp: between_def list_all_iff)
  ultimately have "takeWhile (\<lambda>p. ro_TxnSeq p \<noteq> seq) (rp_pending st @ rs) = rp_pending st" by (simp add: takeWhile_suffix)
  then have "replay_marker cfg ?m st2 = commit_above cfg ?m rs (st2\<lparr> rp_belowPending := 0 \<rparr>)"
    using set2 st2(2) st1(3) by (simp add: replay_marker_def settled_def recorded_def)
  also have "\<dots> = (True, (st2\<lparr> rp_belowPending := 0 \<rparr>)
      \<lparr> rp_s := s', rp_WALOps := rp_WALOps st2 + length ops, rp_pending := [] \<rparr>)"
    using commit_above_effect [OF c _ _ lg an, of "st2\<lparr> rp_belowPending := 0 \<rparr>" s' ?m ts] ok eff set2
    by (simp add: settled_def recorded_def)
  finally have "feed (replay_step uncancelled cfg) st1 [m] = ((st2\<lparr> rp_belowPending := 0 \<rparr>)
      \<lparr> rp_s := s', rp_WALOps := rp_WALOps st2 + length ops, rp_pending := [] \<rparr>, True)"
    using feed_single [OF b1(3), of cfg m] st2(3) m by simp
  then show ?thesis using st1(1) set2 by (simp add: gs(1) feed_append between_def settled_def)
qed

lemma feed_abandoned:
  assumes c: "codec_ok (rc_codec cfg) vn" "\<And>w. rc_wcodec cfg = Some w \<Longrightarrow> codec_ok w vw" "vn zeroN"
    and ok: "list_all (op_storable vn vw) ops"
    and fs: "map Payload fs = run_payloads zeroN (rc_codec cfg) (rc_wcodec cfg) (Abandoned seq ops k)"
    and st: "between seqs x st"
    and cap: "rc_maxTxnOps cfg > 0 \<Longrightarrow> int (length (rp_pending st) + length fs) \<le> rc_maxTxnOps cfg"
  shows "\<exists>st'. feed (replay_step uncancelled cfg) st fs = (st', True) \<and>
    length (rp_pending st') = length (rp_pending st) + length fs \<and> between (insert seq seqs) x st'"
proof -
  obtain ps e where ps: "emit_ops zeroN (rc_codec cfg) (rc_wcodec cfg) seq ops = (ps, e)" by fastforce
  obtain rs where "list_all2 (\<lambda>p r. rec_Decode p = Inr r \<and> op_record seq r) ps rs"
    using emit_ops_logged [OF c ok ps] by blast
  then have rs: "list_all2 (\<lambda>p r. rec_Decode p = Inr r \<and> op_record seq r) (map Payload fs) (take k rs)"
    using fs ps by (simp add: list_all2_takeI)
  have cr: "rp_crossed st" using st by (simp add: between_def settled_def)
  obtain st' where st': "feed (replay_step uncancelled cfg) st fs = (st', True)" "settled st' = settled st"
      "rp_pending st' = rp_pending st @ take k rs"
    using feed_ops [OF rs cr cap] by blast
  have "list_all (\<lambda>p. ro_TxnSeq p = seq) (take k rs)"
    using rs by (auto simp: list_all_length list_all2_conv_all_nth op_record_def)
  then have "between (insert seq seqs) x st'"
    using st st'(2,3) by (auto simp: between_def list_all_iff)
  moreover have "length (take k rs) = length fs" using list_all2_lengthD [OF rs] by simp
  ultimately show ?thesis using st'(1,3) by simp
qed

lemma rec_Decode_control: "hd p = ControlRecordTag \<Longrightarrow> p \<noteq> [] \<Longrightarrow> rec_Decode p = decode_control p"
  by (cases p) (auto simp: rec_Decode_def ControlRecordTag_def)

lemma control_payloads:
  shows "rec_Decode (AppendReserveIDs [] shard limit) = Inr (control_op CtlReserveIDs (AppendReserveIDs [] shard limit))"
    and "length next = 256 \<Longrightarrow>
      rec_Decode (AppendNextIDsExact [] next) = Inr (control_op CtlNextIDsExact (AppendNextIDsExact [] next))"
  using wal_control_records [of "replicate 256 0" shard limit] wal_control_records [of "next"]
  by (subst rec_Decode_control; simp add: decode_control_def idShards_def AppendReserveIDs_def AppendNextIDsExact_def
      fold_AppendUvarint)+

lemma feed_control:
  assumes f: "map Payload fs = run_payloads zeroN c wc run" "run_ok zeroN c wc vn vw run"
    and run: "run = Reserve shard limit \<and> ids' = id_reserve (unat shard) limit ids \<or>
      run = CleanClose next \<and> ids' = id_exact next True ids"
    and st: "between seqs (s, ids, n) st"
  shows "\<exists>st'. feed (replay_step uncancelled cfg) st fs = (st', True) \<and>
    rp_pending st' = rp_pending st \<and> between seqs (s, ids', n) st'"
proof -
  have set: "settled st = (s, ids, n, True, 0, None, False)" using st by (simp add: between_def)
  obtain f where f1: "fs = [f]" "Payload f = hd (run_payloads zeroN c wc run)" using f(1) run by (cases fs) auto
  let ?st = "st\<lparr> rp_frameIdx := rp_frameIdx st + 1 \<rparr>"
  have "replay_payload cfg (Payload f) ?st = (True, ?st\<lparr> rp_ids := ids' \<rparr>)"
    using run
  proof
    assume r: "run = Reserve shard limit \<and> ids' = id_reserve (unat shard) limit ids"
    then have "Payload f = AppendReserveIDs [] shard limit" using f1(2) by simp
    then show ?thesis using r set wal_control_records [of "replicate 256 0" shard limit]
      by (simp add: replay_payload_def control_payloads(1) control_op_def replay_control_def keep_going_def
          settled_def idShards_def)
  next
    assume r: "run = CleanClose next \<and> ids' = id_exact next True ids"
    then have "Payload f = AppendNextIDsExact [] next" "length next = 256" using f1(2) f(2) by auto
    then show ?thesis using r set wal_control_records [of "next"]
      by (simp add: replay_payload_def control_payloads(2) control_op_def replay_control_def keep_going_def
          settled_def idShards_def CtlNextIDsExact_def CtlReserveIDs_def)
  qed
  then show ?thesis
    using set st feed_single [of st cfg f] f1(1) by (simp add: between_def settled_def)
qed

subsection \<open>The replay of a log\<close>

lemma feed_runs:
  assumes c: "codec_ok (rc_codec cfg) vn" "\<And>w. rc_wcodec cfg = Some w \<Longrightarrow> codec_ok w vw" "vn zeroN"
  shows "list_all (run_ok zeroN (rc_codec cfg) (rc_wcodec cfg) vn vw) runs \<Longrightarrow>
    map Payload fs = concat (map (run_payloads zeroN (rc_codec cfg) (rc_wcodec cfg)) runs) \<Longrightarrow>
    between seqs x st \<Longrightarrow> distinct (concat (map run_seqs runs)) \<Longrightarrow> seqs \<inter> set (concat (map run_seqs runs)) = {} \<Longrightarrow>
    recovered cfg runs x = Some y \<Longrightarrow>
    (rc_maxTxnOps cfg > 0 \<Longrightarrow> fits zeroN (rc_codec cfg) (rc_wcodec cfg) (rc_maxTxnOps cfg) (length (rp_pending st)) runs) \<Longrightarrow>
    \<exists>st' seqs'. feed (replay_step uncancelled cfg) st fs = (st', True) \<and> between seqs' y st'"
proof (induction runs arbitrary: fs seqs x st)
  case Nil
  then show ?case by auto
next
  case (Cons run runs)
  let ?c = "rc_codec cfg" and ?wc = "rc_wcodec cfg"
  obtain s ids n where x: "x = (s, ids, n)" by (cases x)
  obtain gs hs where fs: "fs = gs @ hs" "map Payload gs = run_payloads zeroN ?c ?wc run"
      "map Payload hs = concat (map (run_payloads zeroN ?c ?wc) runs)"
    using Cons.prems(2) by (auto simp: map_eq_append_conv)
  have ok: "run_ok zeroN ?c ?wc vn vw run" "list_all (run_ok zeroN ?c ?wc vn vw) runs" using Cons.prems(1) by simp_all
  have dist: "distinct (concat (map run_seqs runs))" "set (run_seqs run) \<inter> set (concat (map run_seqs runs)) = {}"
    "seqs \<inter> set (concat (map run_seqs runs)) = {}" "seqs \<inter> set (run_seqs run) = {}"
    using Cons.prems(4,5) by auto
  have rest: "\<exists>st' seqs'. feed (replay_step uncancelled cfg) st fs = (st', True) \<and> between seqs' y st'"
    if "feed (replay_step uncancelled cfg) st gs = (st1, True)" "between S z st1"
      "S \<subseteq> seqs \<union> set (run_seqs run)" "recovered cfg runs z = Some y"
      "rc_maxTxnOps cfg > 0 \<Longrightarrow> fits zeroN ?c ?wc (rc_maxTxnOps cfg) (length (rp_pending st1)) runs" for st1 S z
  proof -
    have "S \<inter> set (concat (map run_seqs runs)) = {}" using dist that(3) by blast
    from Cons.IH [OF ok(2) fs(3) that(2) dist(1) this that(4,5)] that(1) show ?thesis
      by (auto simp: fs(1) feed_append)
  qed
  show ?case
  proof (cases run)
    case (Committed seq ts es ops)
    obtain s' where s': "txn_effect cfg ids es ops s = Some s'" "recovered cfg runs (s', ids, n + length ops) = Some y"
      using Cons.prems(6) by (auto simp: Committed x split: option.splits)
    have cap: "int (length (rp_pending st) + length ops) \<le> rc_maxTxnOps cfg"
      "fits zeroN ?c ?wc (rc_maxTxnOps cfg) 0 runs" if "rc_maxTxnOps cfg > 0"
      using Cons.prems(7) [OF that] by (simp_all add: Committed)
    obtain st1 where "feed (replay_step uncancelled cfg) st gs = (st1, True)" "rp_pending st1 = []"
        "between {} (s', ids, n + length ops) st1"
      using feed_committed [OF c ok(1) [unfolded Committed] fs(2) [unfolded Committed] Cons.prems(3) [unfolded x] _ s'(1) cap(1)]
        dist(4) Committed by auto
    with s'(2) cap(2) show ?thesis by (intro rest [of st1 "{}"]) auto
  next
    case (Abandoned seq ops k)
    have len: "length gs = length (run_payloads zeroN ?c ?wc run)" using fs(2) by (metis length_map)
    have cap: "int (length (rp_pending st) + length gs) \<le> rc_maxTxnOps cfg"
      "fits zeroN ?c ?wc (rc_maxTxnOps cfg) (length (rp_pending st) + length gs) runs" if "rc_maxTxnOps cfg > 0"
      using Cons.prems(7) [OF that] len by (simp_all add: Abandoned)
    obtain st1 where "feed (replay_step uncancelled cfg) st gs = (st1, True)"
        "length (rp_pending st1) = length (rp_pending st) + length gs" "between (insert seq seqs) x st1"
      using feed_abandoned [OF c _ fs(2) [unfolded Abandoned] Cons.prems(3) cap(1)] ok(1) Abandoned by auto
    with Cons.prems(6) cap(2) show ?thesis by (intro rest [of st1 "insert seq seqs" x]) (auto simp: Abandoned)
  next
    case (Reserve shard limit)
    obtain st1 where "feed (replay_step uncancelled cfg) st gs = (st1, True)" "rp_pending st1 = rp_pending st"
        "between seqs (s, id_reserve (unat shard) limit ids, n) st1"
      using feed_control [OF fs(2) ok(1) _ Cons.prems(3) [unfolded x]] Reserve by blast
    with Cons.prems(6,7) show ?thesis
      by (intro rest [of st1 seqs "(s, id_reserve (unat shard) limit ids, n)"]) (auto simp: Reserve x)
  next
    case (CleanClose marks)
    obtain st1 where "feed (replay_step uncancelled cfg) st gs = (st1, True)" "rp_pending st1 = rp_pending st"
        "between seqs (s, id_exact marks True ids, n) st1"
      using feed_control [OF fs(2) ok(1) _ Cons.prems(3) [unfolded x]] CleanClose by blast
    with Cons.prems(6,7) show ?thesis
      by (intro rest [of st1 seqs "(s, id_exact marks True ids, n)"]) (auto simp: CleanClose x)
  qed
qed

subsection \<open>Cutting a log\<close>

text \<open>A prefix of a log file is complete frames and part of one more.\<close>

lemma encode_log_cut:
  "encode_log fs = Inr bs \<Longrightarrow> k \<le> length bs \<Longrightarrow>
   \<exists>j bs' t. j \<le> length fs \<and> encode_log (take j fs) = Inr bs' \<and> take k bs = bs' @ t \<and> log_size (take j fs) \<le> k \<and>
     (j < length fs \<longrightarrow> k < log_size (take (Suc j) fs)) \<and>
     (t = [] \<or> Decode t = Inl ErrTornFrame \<or> Decode t = Inl ErrTornFrameMasksData)"
proof (induction fs arbitrary: bs k)
  case Nil
  then show ?case by (auto simp: log_size_def)
next
  case (Cons f fs)
  then obtain b bs1 where b: "Encode f = Inr b" "encode_log fs = Inr bs1" "bs = b @ bs1"
    by (auto simp: result_bind_eq_Inr_iff)
  have len: "length b = FrameSize f" using Encode_length [OF b(1)] .
  show ?case
  proof (cases "k < length b")
    case True
    have "take k b = [] \<or> Decode (take k b) = Inl ErrTornFrame \<or> Decode (take k b) = Inl ErrTornFrameMasksData"
      using Decode_truncated [OF b(1) True] by auto
    then show ?thesis using True len b(3)
      by (intro exI [of _ 0] exI [of _ "[]"] exI [of _ "take k b"]) (auto simp: log_size_def)
  next
    case False
    then have "k - length b \<le> length bs1" using Cons.prems(2) b(3) by simp
    from Cons.IH [OF b(2) this] obtain j bs' t where j: "j \<le> length fs" "encode_log (take j fs) = Inr bs'"
      "take (k - length b) bs1 = bs' @ t" "log_size (take j fs) \<le> k - length b"
      "j < length fs \<longrightarrow> k - length b < log_size (take (Suc j) fs)"
      "t = [] \<or> Decode t = Inl ErrTornFrame \<or> Decode t = Inl ErrTornFrameMasksData" by blast
    have "take k bs = (b @ bs') @ t" using False j(3) b(3) by simp
    moreover have "encode_log (take (Suc j) (f # fs)) = Inr (b @ bs')" using b(1) j(2) by simp
    ultimately show ?thesis using j False len
      by (intro exI [of _ "Suc j"] exI [of _ "b @ bs'"] exI [of _ t]) (auto simp: log_size_def)
  qed
qed

text \<open>A prefix of the payloads of a log is complete runs and at most one cut run, which is then a
  transaction without its marker.\<close>

lemma run_payloads_cut:
  assumes "run_ok zeroN c wc vn vw run" "j < length (run_payloads zeroN c wc run)"
  shows "j = 0 \<or> (\<exists>seq ops. run_seqs run = [seq] \<and> list_all (op_storable vn vw) ops \<and>
    take j (run_payloads zeroN c wc run) = run_payloads zeroN c wc (Abandoned seq ops j) \<and>
    (\<forall>ts es ops'. run = Committed seq ts es ops' \<longrightarrow> j \<le> length ops'))"
proof (cases run)
  case (Committed seq ts es ops)
  then obtain annex where an: "encodeAnnex c es = Inr annex" "snd (appendChecked zeroN c wc seq ts annex ops) = None"
    "list_all (op_storable vn vw) ops" using assms(1) by auto
  then obtain ps where ps: "emit_ops zeroN c wc seq ops = (ps, None)" "run_payloads zeroN c wc run = ps @ [encodeCommitV3Into seq ts [] @ annex]"
    by (auto simp: Committed appendChecked_def emit_def split: prod.splits option.splits sum.splits if_splits)
  have "length ps \<le> length ops" using emit_ops_length [of zeroN c wc seq ops] ps(1) by simp
  then show ?thesis using assms(2) ps an(3) Committed by (intro disjI2 exI [of _ seq] exI [of _ ops]) auto
next
  case (Abandoned seq ops n)
  then have "min j n = j" using assms(2) by simp
  then show ?thesis using assms(1) Abandoned by (intro disjI2 exI [of _ seq] exI [of _ ops]) simp
qed (use assms in auto)

abbreviation log_payloads :: "'n \<Rightarrow> 'n Codec \<Rightarrow> 'w Codec option \<Rightarrow> ('n, 'w) run list \<Rightarrow> bytes list" where
  "log_payloads zeroN c wc runs \<equiv> concat (map (run_payloads zeroN c wc) runs)"

lemma runs_cut:
  "list_all (run_ok zeroN c wc vn vw) runs \<Longrightarrow> j \<le> length (log_payloads zeroN c wc runs) \<Longrightarrow>
   \<exists>i part. i \<le> length runs \<and> take j (log_payloads zeroN c wc runs) = log_payloads zeroN c wc (take i runs @ part) \<and>
     length (log_payloads zeroN c wc (take i runs)) \<le> j \<and>
     (i < length runs \<longrightarrow> j < length (log_payloads zeroN c wc (take (Suc i) runs))) \<and>
     (\<forall>q. fits zeroN c wc cap q runs \<longrightarrow> fits zeroN c wc cap q (take i runs @ part)) \<and>
     (part = [] \<or> (\<exists>seq ops m. part = [Abandoned seq ops m] \<and> list_all (op_storable vn vw) ops \<and> i < length runs \<and>
       run_seqs (runs ! i) = [seq]))"
proof (induction runs arbitrary: j)
  case (Cons run runs)
  let ?ps = "run_payloads zeroN c wc run"
  show ?case
  proof (cases "j < length ?ps")
    case True
    have ok: "run_ok zeroN c wc vn vw run" using Cons.prems(1) by simp
    from run_payloads_cut [OF ok True] show ?thesis
    proof
      assume "j = 0"
      then show ?thesis using True by (intro exI [of _ 0] exI [of _ "[]"]) simp
    next
      assume "\<exists>seq ops. run_seqs run = [seq] \<and> list_all (op_storable vn vw) ops \<and>
        take j ?ps = run_payloads zeroN c wc (Abandoned seq ops j) \<and> (\<forall>ts es ops'. run = Committed seq ts es ops' \<longrightarrow> j \<le> length ops')"
      then obtain seq ops where ab: "run_seqs run = [seq]" "list_all (op_storable vn vw) ops"
        "take j ?ps = run_payloads zeroN c wc (Abandoned seq ops j)"
        "\<And>ts es ops'. run = Committed seq ts es ops' \<Longrightarrow> j \<le> length ops'" by blast
      have len: "length (run_payloads zeroN c wc (Abandoned seq ops j)) = j"
        using arg_cong [OF ab(3), of length] True by simp
      have "fits zeroN c wc cap q [Abandoned seq ops j]" if f: "fits zeroN c wc cap q (run # runs)" for q
        using f ab(1,4) len True by (cases run) (auto simp del: run_payloads.simps)
      then show ?thesis using True ab(1-3)
        by (intro exI [of _ 0] exI [of _ "[Abandoned seq ops j]"]) (auto simp del: run_payloads.simps)
    qed
  next
    case False
    then have "j - length ?ps \<le> length (log_payloads zeroN c wc runs)" using Cons.prems(2) by simp
    moreover have "list_all (run_ok zeroN c wc vn vw) runs" using Cons.prems(1) by simp
    ultimately obtain i part where i: "i \<le> length runs"
      "take (j - length ?ps) (log_payloads zeroN c wc runs) = log_payloads zeroN c wc (take i runs @ part)"
      "length (log_payloads zeroN c wc (take i runs)) \<le> j - length ?ps"
      "i < length runs \<longrightarrow> j - length ?ps < length (log_payloads zeroN c wc (take (Suc i) runs))"
      "\<And>q. fits zeroN c wc cap q runs \<longrightarrow> fits zeroN c wc cap q (take i runs @ part)"
      "part = [] \<or> (\<exists>seq ops m. part = [Abandoned seq ops m] \<and> list_all (op_storable vn vw) ops \<and> i < length runs \<and>
         run_seqs (runs ! i) = [seq])" using Cons.IH by blast
    have "fits zeroN c wc cap q (take (Suc i) (run # runs) @ part)" if f: "fits zeroN c wc cap q (run # runs)" for q
      using f i(5) by (cases run) (auto simp del: run_payloads.simps)
    then show ?thesis using i(1-4,6) False
      by (intro exI [of _ "Suc i"] exI [of _ part]) (auto simp del: run_payloads.simps)
  qed
qed (auto intro!: exI [of _ 0])

lemma recovered_append:
  "recovered cfg (runs @ runs') x = (case recovered cfg runs x of None \<Rightarrow> None | Some y \<Rightarrow> recovered cfg runs' y)"
  by (induction cfg runs x rule: recovered.induct) (auto split: option.splits)

lemma recovered_prefix:
  "recovered cfg runs x = Some y \<Longrightarrow> \<exists>z. recovered cfg (take i runs) x = Some z"
  using recovered_append [of cfg "take i runs" "drop i runs" x] by (auto split: option.splits)

lemma stored_payloads: "map Payload (map stored_frame fs) = map Payload fs"
  by (simp add: stored_frame_def)

lemma reader_tail:
  "t = [] \<or> Decode t = Inl ErrTornFrame \<or> Decode t = Inl ErrTornFrameMasksData \<Longrightarrow>
   \<exists>e. reader_run yield s off t = (s, off, e) \<and> e \<in> {None, Some ErrTornFrame, Some ErrTornFrameMasksData}"
  by (cases "t = []") (auto simp: reader_run_stop)

lemma log_size_take_mono: "a \<le> b \<Longrightarrow> log_size (take a fs) \<le> log_size (take b fs)"
  by (auto simp: log_size_def le_iff_add take_add)

lemma cut_distinct:
  assumes "distinct (concat (map run_seqs runs))"
    and "part = [] \<or> (\<exists>seq ops m. part = [Abandoned seq ops m] \<and> list_all (op_storable vn vw) ops \<and> i < length runs \<and>
      run_seqs (runs ! i) = [seq])"
  shows "distinct (concat (map run_seqs (take i runs @ part)))"
proof -
  have "distinct (concat (map run_seqs (take i runs @ drop i runs)))" using assms(1) by simp
  then have d: "distinct (concat (map run_seqs (take i runs)) @ concat (map run_seqs (drop i runs)))"
    unfolding map_append concat_append .
  from assms(2) show ?thesis
  proof
    assume "\<exists>seq ops m. part = [Abandoned seq ops m] \<and> list_all (op_storable vn vw) ops \<and> i < length runs \<and> run_seqs (runs ! i) = [seq]"
    then obtain seq ops m where ct: "part = [Abandoned seq ops m]" "i < length runs" "run_seqs (runs ! i) = [seq]" by blast
    then have "drop i runs = runs ! i # drop (Suc i) runs" by (simp add: Cons_nth_drop_Suc)
    then show ?thesis using d ct by auto
  qed (use d in simp)
qed

lemma replay_cut_log:
  assumes c: "codec_ok (rc_codec cfg) vn" "\<And>w. rc_wcodec cfg = Some w \<Longrightarrow> codec_ok w vw" "vn zeroN"
    and cfg: "rc_redo cfg < 0"
    and runs: "list_all (run_ok zeroN (rc_codec cfg) (rc_wcodec cfg) vn vw) runs" "distinct (concat (map run_seqs runs))"
    and cap: "rc_maxTxnOps cfg > 0 \<Longrightarrow> fits zeroN (rc_codec cfg) (rc_wcodec cfg) (rc_maxTxnOps cfg) 0 runs"
    and log: "encode_log fs = Inr file" "map Payload fs = log_payloads zeroN (rc_codec cfg) (rc_wcodec cfg) runs"
    and rec: "recovered cfg runs (s0, newIDReplay (rc_G cfg) (rs_g s0) None, 0) = Some z" and k: "k \<le> length file"
  shows "\<exists>i st s ids n. i \<le> length runs \<and>
    log_size (take (length (log_payloads zeroN (rc_codec cfg) (rc_wcodec cfg) (take i runs))) fs) \<le> k \<and>
    (i < length runs \<longrightarrow>
      k < log_size (take (length (log_payloads zeroN (rc_codec cfg) (rc_wcodec cfg) (take (Suc i) runs))) fs)) \<and>
    recovered cfg (take i runs) (s0, newIDReplay (rc_G cfg) (rs_g s0) None, 0) = Some (s, ids, n) \<and>
    fst (replayWALInto uncancelled cfg (reader_source (take k file)) None s0) = st \<and>
    rp_s st = s\<lparr> rs_g := id_apply (rc_G cfg) ids (rs_g s) \<rparr> \<and> rp_WALOps st = n \<and> \<not> rp_cancelled st \<and>
    rp_TailErr st \<in> {None, Some (ErrWal ErrTornFrame), Some (ErrWal ErrTornFrameMasksData)}"
proof -
  let ?P = "log_payloads zeroN (rc_codec cfg) (rc_wcodec cfg)"
  let ?x = "(s0, newIDReplay (rc_G cfg) (rs_g s0) None, 0)"
  let ?st0 = "replay_start cfg None s0" and ?step = "replay_step uncancelled cfg"
  obtain j bs t where j: "j \<le> length fs" "encode_log (take j fs) = Inr bs" "take k file = bs @ t"
      "log_size (take j fs) \<le> k" "j < length fs \<longrightarrow> k < log_size (take (Suc j) fs)"
      "t = [] \<or> Decode t = Inl ErrTornFrame \<or> Decode t = Inl ErrTornFrameMasksData"
    using encode_log_cut [OF log(1) k] by blast
  have lens: "length fs = length (?P runs)" using log(2) by (metis length_map)
  obtain i part where i: "i \<le> length runs" "take j (?P runs) = ?P (take i runs @ part)"
      "length (?P (take i runs)) \<le> j" "i < length runs \<longrightarrow> j < length (?P (take (Suc i) runs))"
      "\<And>q. fits zeroN (rc_codec cfg) (rc_wcodec cfg) (rc_maxTxnOps cfg) q runs \<longrightarrow>
        fits zeroN (rc_codec cfg) (rc_wcodec cfg) (rc_maxTxnOps cfg) q (take i runs @ part)"
      "part = [] \<or> (\<exists>seq ops m. part = [Abandoned seq ops m] \<and> list_all (op_storable vn vw) ops \<and> i < length runs \<and>
         run_seqs (runs ! i) = [seq])"
    using runs_cut [OF runs(1), where cap = "rc_maxTxnOps cfg"] j(1) unfolding lens by blast
  obtain s ids n where y: "recovered cfg (take i runs) ?x = Some (s, ids, n)"
    using recovered_prefix [OF rec] by (metis prod.exhaust)
  have r1: "recovered cfg (take i runs @ part) ?x = Some (s, ids, n)"
    using y i(6) by (auto simp: recovered_append)
  have r2: "list_all (run_ok zeroN (rc_codec cfg) (rc_wcodec cfg) vn vw) (take i runs @ part)"
    using runs(1) i(6) by (auto simp: list_all_iff dest: in_set_takeD)
  have r3: "distinct (concat (map run_seqs (take i runs @ part)))"
    using cut_distinct [OF runs(2)] i(6) by blast
  have fs': "map Payload (map stored_frame (take j fs)) = ?P (take i runs @ part)"
    using log(2) i(2) unfolding stored_payloads by (simp add: take_map [symmetric])
  have b0: "between {} ?x ?st0" "rp_pending ?st0 = []" using cfg by (simp_all add: between_def settled_def replay_start_def)
  obtain st1 seqs where st1: "feed ?step ?st0 (map stored_frame (take j fs)) = (st1, True)" "between seqs (s, ids, n) st1"
    using feed_runs [OF c r2 fs' b0(1) r3 _ r1] cap i(5) b0(2) by auto
  obtain e where e: "reader_run ?step st1 (0 + log_size (take j fs)) t = (st1, 0 + log_size (take j fs), e)"
      "e \<in> {None, Some ErrTornFrame, Some ErrTornFrameMasksData}"
    using reader_tail [OF j(6), where yield = ?step and s = st1 and off = "0 + log_size (take j fs)"] by blast
  have run: "reader_source (take k file) ?step ?st0 = (st1, log_size (take j fs), e)"
    unfolding reader_source_def j(3) reader_run_feed [OF j(2) st1(1)] using e(1) by simp
  note mono = log_size_take_mono [of _ _ fs]
  have lo: "log_size (take (length (?P (take i runs))) fs) \<le> k" using mono [OF i(3)] j(4) by linarith
  have hi: "k < log_size (take (length (?P (take (Suc i) runs))) fs)" if il: "i < length runs"
  proof -
    have "length (?P (take (Suc i) runs)) \<le> length (?P runs)"
      by (metis append_take_drop_id concat_append length_append le_add1 map_append)
    then have "j < length fs" using i(4) il lens by linarith
    then show ?thesis using j(5) mono [of "Suc j" "length (?P (take (Suc i) runs))"] i(4) il by auto
  qed
  have fin: "rp_s (fst (replayWALInto uncancelled cfg (reader_source (take k file)) None s0)) = s\<lparr> rs_g := id_apply (rc_G cfg) ids (rs_g s) \<rparr> \<and>
    rp_WALOps (fst (replayWALInto uncancelled cfg (reader_source (take k file)) None s0)) = n \<and>
    \<not> rp_cancelled (fst (replayWALInto uncancelled cfg (reader_source (take k file)) None s0)) \<and>
    rp_TailErr (fst (replayWALInto uncancelled cfg (reader_source (take k file)) None s0))
      \<in> {None, Some (ErrWal ErrTornFrame), Some (ErrWal ErrTornFrameMasksData)}"
    using st1(2) e(2) unfolding replayWALInto_def run
    by (auto simp: between_def settled_def Let_def split: option.splits)
  show ?thesis using i(1) lo hi y fin by blast
qed

text \<open>Where the first runs of a log end in its file.\<close>

definition runs_end :: "'n \<Rightarrow> ('g, 'n, 'w) replay_cfg \<Rightarrow> Frame list \<Rightarrow> ('n, 'w) run list \<Rightarrow> nat" where
  "runs_end zeroN cfg fs runs = log_size (take (length (log_payloads zeroN (rc_codec cfg) (rc_wcodec cfg) runs)) fs)"


subsection \<open>Abandoned ops and the replay bound\<close>

lemma reader_run_feed_stop:
  assumes "encode_log fs = Inr bs" "feed yield s (map stored_frame fs) = (s', False)"
  shows "\<exists>off'. reader_run yield s off (bs @ r) = (s', off', None)"
  using assms
proof (induction fs arbitrary: bs s off)
  case (Cons f fs)
  then obtain b bs' where b: "Encode f = Inr b" and bs': "encode_log fs = Inr bs'" and bs: "bs = b @ bs'"
    by (auto simp: result_bind_eq_Inr_iff)
  obtain t go where t: "yield s (stored_frame f) = (t, go)" by fastforce
  have step: "reader_run yield s off (bs @ r) =
      (if go then reader_run yield t (off + FrameSize (stored_frame f)) (bs' @ r) else (t, off + FrameSize (stored_frame f), None))"
    by (simp add: bs t reader_run_step [OF Decode_Encode [OF b] Encode_nonempty [OF b]])
  show ?case
  proof (cases go)
    case True
    then show ?thesis using Cons.IH [OF bs'] Cons.prems(2) t step by simp
  next
    case False
    then show ?thesis using Cons.prems(2) t step by simp
  qed
qed simp

lemma replay_payload_over_cap:
  assumes "rec_Decode p = Inr r" "op_record seq r" "rc_maxTxnOps cfg > 0" "int (length (rp_pending st)) = rc_maxTxnOps cfg"
  shows "\<exists>st'. replay_payload cfg p st = (False, st') \<and> rp_s st' = rp_s st \<and> rp_cancelled st' = rp_cancelled st \<and>
    rp_TailErr st' = Some ErrTransactionTooLarge"
  using assms by (auto simp: replay_payload_def op_record_def replay_v3_def Let_def stop_with_def)

lemma feed_over_cap:
  assumes "list_all2 (\<lambda>p r. rec_Decode p = Inr r \<and> op_record seq r) (map Payload fs) rs" "rp_crossed st"
    and "rc_maxTxnOps cfg > 0" "int (length (rp_pending st)) \<le> rc_maxTxnOps cfg"
      "int (length (rp_pending st) + length fs) > rc_maxTxnOps cfg"
  shows "\<exists>st'. feed (replay_step uncancelled cfg) st (fs @ gs) = (st', False) \<and> rp_s st' = rp_s st \<and>
    rp_cancelled st' = rp_cancelled st \<and> rp_TailErr st' = Some ErrTransactionTooLarge"
proof -
  define n where "n = nat (rc_maxTxnOps cfg) - length (rp_pending st)"
  have n: "n < length fs" "int (length (rp_pending st) + n) = rc_maxTxnOps cfg"
    using assms(3-5) unfolding n_def by linarith+
  have lr: "length rs = length fs" using list_all2_lengthD [OF assms(1)] by simp
  have pre: "list_all2 (\<lambda>p r. rec_Decode p = Inr r \<and> op_record seq r) (map Payload (take n fs)) (take n rs)"
    using list_all2_takeI [OF assms(1), of n] by (simp add: take_map)
  obtain st1 where st1: "feed (replay_step uncancelled cfg) st (take n fs) = (st1, True)" "settled st1 = settled st"
      "rp_pending st1 = rp_pending st @ take n rs"
    using feed_ops [OF pre assms(2)] n by auto
  let ?st1 = "st1\<lparr> rp_frameIdx := rp_frameIdx st1 + 1 \<rparr>"
  have "rec_Decode (Payload (fs ! n)) = Inr (rs ! n)" "op_record seq (rs ! n)"
    using list_all2_nthD [OF assms(1), of n] n(1) by simp_all
  moreover have "int (length (rp_pending ?st1)) = rc_maxTxnOps cfg" using st1(3) n lr by simp
  ultimately obtain st2 where st2: "replay_payload cfg (Payload (fs ! n)) ?st1 = (False, st2)" "rp_s st2 = rp_s ?st1"
      "rp_cancelled st2 = rp_cancelled ?st1" "rp_TailErr st2 = Some ErrTransactionTooLarge"
    using replay_payload_over_cap assms(3) by blast
  have k: "rp_crossed st1" "rp_s st1 = rp_s st" "rp_cancelled st1 = rp_cancelled st"
    using st1(2) assms(2) by (simp_all add: settled_def)
  have "fs @ gs = take n fs @ fs ! n # (drop (Suc n) fs @ gs)"
    using n(1) by (metis append.assoc append_Cons id_take_nth_drop)
  moreover have "feed (replay_step uncancelled cfg) st (take n fs @ fs ! n # (drop (Suc n) fs @ gs)) = (st2, False)"
    unfolding feed_append st1(1) using st2(1) k(1) by (simp add: replay_step_crossed)
  ultimately have "feed (replay_step uncancelled cfg) st (fs @ gs) = (st2, False)" by (simp only:)
  then show ?thesis using st2(2-4) k(2,3) by simp
qed

text \<open>
  Property C38. The ops of an abandoned transaction count against the replay bound of the next one: a
  log that holds the frames of a transaction that never committed and then a committed transaction,
  each of them within the bound the writer admits, but together over it, is not replayed. Replay
  stops inside the committed transaction with \<open>ErrTransactionTooLarge\<close>, which makes opening the store
  fail, and recovers nothing of it.
\<close>

theorem abandoned_ops_exhaust_bound:
  assumes c: "codec_ok (rc_codec cfg) vn" "\<And>w. rc_wcodec cfg = Some w \<Longrightarrow> codec_ok w vw" "vn zeroN"
    and cfg: "rc_redo cfg < 0" "rc_maxTxnOps cfg > 0"
    and ok: "list_all (run_ok zeroN (rc_codec cfg) (rc_wcodec cfg) vn vw) [Abandoned seq ops m, Committed seq' ts es ops']"
    and cap: "int (length ops) \<le> rc_maxTxnOps cfg" "int (length ops') \<le> rc_maxTxnOps cfg"
      "int (length (run_payloads zeroN (rc_codec cfg) (rc_wcodec cfg) (Abandoned seq ops m)) + length ops') > rc_maxTxnOps cfg"
    and log: "encode_log fs = Inr file" "map Payload fs =
      log_payloads zeroN (rc_codec cfg) (rc_wcodec cfg) [Abandoned seq ops m, Committed seq' ts es ops']"
  shows "\<exists>st off. replayWALInto uncancelled cfg (reader_source file) None s = (st, off) \<and>
    rp_TailErr st = Some ErrTransactionTooLarge \<and> tailErrIsOpenFatal (rp_TailErr st) \<and>
    (\<exists>ids. rp_s st = s\<lparr> rs_g := id_apply (rc_G cfg) ids (rs_g s) \<rparr>)"
proof -
  let ?c = "rc_codec cfg" and ?wc = "rc_wcodec cfg" and ?st0 = "replay_start cfg None s"
  let ?A = "Abandoned seq ops m" and ?C = "Committed seq' ts es ops'"
  have "map Payload (map stored_frame fs) = run_payloads zeroN ?c ?wc ?A @ run_payloads zeroN ?c ?wc ?C"
    unfolding stored_payloads log(2) by simp
  from iffD1 [OF map_eq_append_conv this]
  obtain as cs where fs: "map stored_frame fs = as @ cs" "map Payload as = run_payloads zeroN ?c ?wc ?A"
      "map Payload cs = run_payloads zeroN ?c ?wc ?C"
    by metis
  have q: "length as = length (run_payloads zeroN ?c ?wc ?A)" using fs(2) by (metis length_map)
  have "length as \<le> length ops" using q emit_ops_length [of zeroN ?c ?wc seq ops] by simp
  have b0: "between {} (s, newIDReplay (rc_G cfg) (rs_g s) None, 0) ?st0" "rp_pending ?st0 = []"
    using cfg(1) by (simp_all add: between_def settled_def replay_start_def)
  obtain st1 where st1: "feed (replay_step uncancelled cfg) ?st0 as = (st1, True)" "length (rp_pending st1) = length as"
      "between {seq} (s, newIDReplay (rc_G cfg) (rs_g s) None, 0) st1"
    using feed_abandoned [OF c _ fs(2) b0(1)] ok \<open>length as \<le> length ops\<close> cap(1) b0(2) by auto
  have okC: "run_ok zeroN ?c ?wc vn vw ?C" using ok by simp
  obtain gs mk rs where gs: "cs = gs @ [mk]" "length gs = length ops'"
      "list_all2 (\<lambda>p r. rec_Decode p = Inr r \<and> op_record seq' r) (map Payload gs) rs"
    using committed_frames [OF c okC fs(3)] by blast
  have s1: "rp_crossed st1" "rp_s st1 = s" "\<not> rp_cancelled st1" using st1(3) by (simp_all add: between_def settled_def)
  obtain st2 where st2: "feed (replay_step uncancelled cfg) st1 cs = (st2, False)" "rp_s st2 = s" "\<not> rp_cancelled st2"
      "rp_TailErr st2 = Some ErrTransactionTooLarge"
    using feed_over_cap [OF gs(3) s1(1) cfg(2), of "[mk]"] st1(2) cap gs(1,2) q s1(2,3) \<open>length as \<le> length ops\<close> by auto
  have "feed (replay_step uncancelled cfg) ?st0 (map stored_frame fs) = (st2, False)"
    using st1(1) st2(1) by (simp add: fs(1) feed_append)
  from reader_run_feed_stop [OF log(1) this]
  obtain off where "reader_run (replay_step uncancelled cfg) ?st0 0 (file @ []) = (st2, off, None)" by blast
  then show ?thesis using st2(2-4)
    by (auto simp: replayWALInto_def reader_source_def Let_def tailErrIsOpenFatal_def stop_reasons)
qed

text \<open>A log of one transaction that adds a node, and its frames.\<close>

definition add_node_op :: "(bytes, u64) Op" where "add_node_op = (zero_op [] 0 OpAddNode)\<lparr> op_Src := [65] \<rparr>"

definition add_node_run :: "u64 \<Rightarrow> (bytes, u64) run" where
  "add_node_run seq = Committed seq 5 [\<lparr> ae_key = [65], ae_ref = 1, ae_id = 256 \<rparr>] [add_node_op]"

definition add_node_frames :: "u64 \<Rightarrow> Frame list" where
  "add_node_frames seq = [frame_at 0 (add_node_payload seq), frame_at 57 (encodeCommitV3Into seq 5 [] @ [1, 1, 0x80, 2])]"

lemma add_node_encoded: "encodeOpTypedV3Into [] string_Codec None seq [] add_node_op = Inr (add_node_payload seq)"
  by (simp add: encodeOpTypedV3Into_def appendOpBodyTyped_def encodeOpNodeOnly_def zero_op_def append_u16_def
      checkWALSchemaString_def enc_key_def string_Codec_def string_Encode_def add_node_op_def add_node_payload_def)

lemma add_node_annex: "encodeAnnex string_Codec [\<lparr> ae_key = [65], ae_ref = 1, ae_id = 256 \<rparr>] = Inr [1, 1, 0x80, 2]"
  by (simp add: encodeAnnex_def AppendUvarint_def uvarint_bytes.simps)

lemma add_node_storable: "op_storable (\<lambda>_. True) (\<lambda>_. True) add_node_op" "slot_ref [add_node_op] [65] 1"
  by (simp_all add: add_node_op_def op_storable_def tx_kinds_def zero_op_def slot_ref_def src_slot_def NodeKeySlots_def
      src_ref_def)

lemma add_node_emitted: "emit_ops [] string_Codec None seq [add_node_op] = ([add_node_payload seq], None)"
  by (simp add: add_node_encoded emit_def maxFrameSize_def) (simp add: add_node_payload_def)

lemma add_node_appended:
  "appendChecked [] string_Codec None seq 5 [1, 1, 0x80, 2] [add_node_op] = (map Payload (add_node_frames seq), None)"
  by (simp add: appendChecked_def add_node_emitted add_node_frames_def frame_at_def del: emit_ops.simps)
    (simp add: emit_def maxFrameSize_def encodeCommitV3Into_def)

lemma add_node_run_payloads:
  "run_payloads [] string_Codec None (add_node_run seq) = map Payload (add_node_frames seq)"
  "run_payloads [] string_Codec None (Abandoned seq [add_node_op] 1) = [add_node_payload seq]"
  "run_ok [] string_Codec None (\<lambda>_. True) (\<lambda>_. True) (add_node_run seq)"
  by (simp_all add: add_node_run_def add_node_annex add_node_appended add_node_emitted add_node_storable entry_ok_def
      del: emit_ops.simps)

lemma encode_log_v2:
  "list_all (\<lambda>f. FVersion f = CurrentVersion \<and> length (Payload f) \<le> maxFrameSize) fs \<Longrightarrow> \<exists>file. encode_log fs = Inr file"
  by (induction fs) (auto simp: Encode_def CurrentVersion_def LegacyVersion_def)

lemma add_node_file: "\<exists>file. encode_log (add_node_frames seq) = Inr file"
  by (rule encode_log_v2) (simp add: add_node_frames_def frame_at_def add_node_payload_def encodeCommitV3Into_def maxFrameSize_def)

lemma add_node_effect:
  "recovered (node_cfg 5 (-1)) [add_node_run 7] (empty_rstate [], newIDReplay node_Graph [] None, 0) =
     Some (empty_rstate [([65], 256)], newIDReplay node_Graph [] None, 1)"
  by (simp add: add_node_run_def txn_effect_def node_cfg_def node_Graph_def newIDReplay_def id_check_def add_node_op_def
      zero_op_def op_slot_keys_def src_slot_def dst_slot_def NodeKeySlots_def op_effect_def on_graph_def empty_rstate_def Let_def)

lemma id_apply_node_Graph: "id_apply node_Graph ids g = g"
proof -
  have "fold (\<lambda>p g. g) xs g = g" for xs :: "(nat \<times> u64) list" by (induction xs) simp_all
  then show ?thesis by (simp add: id_apply_def node_Graph_def case_prod_unfold)
qed


text \<open>The two transactions of the bound's witness, one op each, under a bound of one.\<close>

theorem abandoned_ops_exhaust_bound_witness:
  "\<exists>file st off. encode_log (frame_at 0 (add_node_payload 6) # add_node_frames 7) = Inr file \<and>
     replayWALInto uncancelled (node_cfg 1 (-1)) (reader_source file) None (empty_rstate []) = (st, off) \<and>
     tailErrIsOpenFatal (rp_TailErr st) \<and> rs_g (rp_s st) = []"
proof -
  let ?fs = "frame_at 0 (add_node_payload 6) # add_node_frames 7" and ?cfg = "node_cfg 1 (-1)"
  let ?A = "Abandoned 6 [add_node_op] 1" and ?e = "\<lparr> ae_key = [65], ae_ref = 1, ae_id = 256 \<rparr>"
  obtain bs where enc: "encode_log ?fs = Inr bs"
    using encode_log_v2 [of ?fs] add_node_file [of 7]
    by (auto simp: add_node_frames_def frame_at_def add_node_payload_def encodeCommitV3Into_def maxFrameSize_def
        simp del: encode_log.simps)
  have cfg: "codec_ok (rc_codec ?cfg) (\<lambda>_. True)" "rc_redo ?cfg < 0" "rc_maxTxnOps ?cfg > 0" "rc_wcodec ?cfg = None"
      "rc_codec ?cfg = string_Codec" "rc_maxTxnOps ?cfg = 1" "rc_G ?cfg = node_Graph" "rs_g (empty_rstate g) = g"
    for g :: "(bytes \<times> u64) list"
    by (simp_all add: node_cfg_def string_Codec_ok empty_rstate_def)
  have run: "list_all (run_ok [] string_Codec None (\<lambda>_. True) (\<lambda>_. True)) [?A, Committed 7 5 [?e] [add_node_op]]"
      "map Payload ?fs = log_payloads [] string_Codec None [?A, Committed 7 5 [?e] [add_node_op]]"
    using add_node_run_payloads [of 7, unfolded add_node_run_def] add_node_run_payloads(2) [of 6] add_node_storable(1)
    by (simp_all add: frame_at_def del: run_payloads.simps)
  obtain st off ids where st: "replayWALInto uncancelled ?cfg (reader_source bs) None (empty_rstate []) = (st, off)"
      "tailErrIsOpenFatal (rp_TailErr st)" "rp_s st = (empty_rstate [])\<lparr> rs_g := id_apply node_Graph ids [] \<rparr>"
    using abandoned_ops_exhaust_bound [OF cfg(1) _ TrueI cfg(2,3) _ _ _ _ enc, of "\<lambda>_. True" "[]" 6 "[add_node_op]" 1 7 5 "[?e]"
        "[add_node_op]" "empty_rstate []"] run add_node_run_payloads(2) [of 6]
    unfolding cfg by (auto simp del: run_payloads.simps)
  then show ?thesis using enc by (auto simp: id_apply_node_Graph)
qed

end
