(* ===== verification/Txn_Mutators.thy ===== *)
theory Txn_Mutators
  imports Recovery_Log
begin

text \<open>
  What a transaction can hold when it commits: the transitions its mutators make
  (\<open>store/txn/txn.go\<close>, the methods of \<open>Tx\<close>) and the invariant of the ops they buffer. With the round
  trip of op records it closes the way from a mutator call to the replay of its effect.
\<close>

subsection \<open>Mutator calls\<close>

text \<open>A call that was not refused. Nothing is asked of its arguments: keys, weights, names, property
  keys and property values are arbitrary.\<close>

inductive tx_step :: "('n, 'w) Tx \<Rightarrow> ('n, 'w) Tx \<Rightarrow> bool" where
  AddEdge: "tx_AddEdge h a b w t = Inr t' \<Longrightarrow> tx_step t t'"
| AddEdgeWithHandle: "tx_AddEdgeWithHandle a b w h t = Inr t' \<Longrightarrow> tx_step t t'"
| SetNodeLabel: "tx_SetNodeLabel a l t = Inr t' \<Longrightarrow> tx_step t t'"
| SetEdgeLabel: "tx_SetEdgeLabel a b l t = Inr t' \<Longrightarrow> tx_step t t'"
| AddNode: "tx_AddNode a t = Inr t' \<Longrightarrow> tx_step t t'"
| RemoveNode: "tx_RemoveNode a t = Inr t' \<Longrightarrow> tx_step t t'"
| RemoveNodeLabel: "tx_RemoveNodeLabel a l t = Inr t' \<Longrightarrow> tx_step t t'"
| SetNodeProperty: "tx_SetNodeProperty a k v t = Inr t' \<Longrightarrow> tx_step t t'"
| SetNodePropertyPreValidated: "tx_SetNodePropertyPreValidated a k v t = Inr t' \<Longrightarrow> tx_step t t'"
| DelNodeProperty: "tx_DelNodeProperty a k t = Inr t' \<Longrightarrow> tx_step t t'"
| RemoveEdge: "tx_RemoveEdge a b t = Inr t' \<Longrightarrow> tx_step t t'"
| SetEdgeProperty: "tx_SetEdgeProperty a b k v t = Inr t' \<Longrightarrow> tx_step t t'"
| SetEdgePropertyPreValidated: "tx_SetEdgePropertyPreValidated a b k v t = Inr t' \<Longrightarrow> tx_step t t'"
| DelEdgeProperty: "tx_DelEdgeProperty a b k t = Inr t' \<Longrightarrow> tx_step t t'"
| SetEdgeLabelByHandle: "tx_SetEdgeLabelByHandle a b h l t = Inr t' \<Longrightarrow> tx_step t t'"
| SetEdgePropertyByHandle: "tx_SetEdgePropertyByHandle a b h k v t = Inr t' \<Longrightarrow> tx_step t t'"
| SetEdgePropertyByHandlePreValidated: "tx_SetEdgePropertyByHandlePreValidated a b h k v t = Inr t' \<Longrightarrow> tx_step t t'"
| DelEdgePropertyByHandle: "tx_DelEdgePropertyByHandle a b h k t = Inr t' \<Longrightarrow> tx_step t t'"
| RemoveEdgeInstanceByHandle: "tx_RemoveEdgeInstanceByHandle a b h t = Inr t' \<Longrightarrow> tx_step t t'"
| RemoveEdgeByHandle: "tx_RemoveEdgeByHandle a b h t = Inr t' \<Longrightarrow> tx_step t t'"
| CreateConstraint: "tx_CreateConstraint ck l k name t = Inr t' \<Longrightarrow> tx_step t t'"
| DropConstraint: "tx_DropConstraint ck l k name t = Inr t' \<Longrightarrow> tx_step t t'"
| CreateIndex: "tx_CreateIndex ik l k name t = Inr t' \<Longrightarrow> tx_step t t'"
| DropIndex: "tx_DropIndex name t = Inr t' \<Longrightarrow> tx_step t t'"

lemmas tx_mutators =
  tx_AddEdge_def tx_AddEdgeWithHandle_def tx_SetNodeLabel_def tx_SetEdgeLabel_def tx_AddNode_def tx_RemoveNode_def
  tx_RemoveNodeLabel_def tx_SetNodeProperty_def tx_SetNodePropertyPreValidated_def tx_DelNodeProperty_def
  tx_RemoveEdge_def tx_SetEdgeProperty_def tx_SetEdgePropertyPreValidated_def tx_DelEdgeProperty_def
  tx_SetEdgeLabelByHandle_def tx_SetEdgePropertyByHandle_def tx_SetEdgePropertyByHandlePreValidated_def
  tx_DelEdgePropertyByHandle_def tx_RemoveEdgeInstanceByHandle_def tx_RemoveEdgeByHandle_def
  tx_CreateConstraint_def tx_DropConstraint_def tx_CreateIndex_def tx_DropIndex_def

definition is_schema_op :: "('n, 'w) Op \<Rightarrow> bool" where
  "is_schema_op op \<longleftrightarrow> op_Kind op \<in> {OpCreateConstraint, OpDropConstraint, OpCreateIndex, OpDropIndex}"

text \<open>What the mutators check of an op: its kind is one they buffer, and unless it is a schema op its
  label and key fit their length prefixes.\<close>

definition op_buffered :: "('n, 'w) Op \<Rightarrow> bool" where
  "op_buffered op \<longleftrightarrow> op_Kind op \<in> set tx_kinds \<and>
     (is_schema_op op \<or> length (op_Label op) \<le> 65535 \<and> length (op_Key op) \<le> 65535 \<and> op_ConstraintName op = [])"

lemma tx_step_buffers:
  assumes "tx_step t t'"
  shows "\<not> tx_finished t \<and> (\<exists>op. t' = t\<lparr> tx_ops := tx_ops t @ [op] \<rparr> \<and> op_buffered op)"
  using assms
  by (cases; simp add: tx_mutators buffer_op_def new_op_def zero_op_def op_buffered_def is_schema_op_def
      tx_kinds_def result_bind_eq_Inr_iff checkWALSchemaString_ok split: if_splits; auto)

lemma tx_steps_buffered:
  assumes "tx_step\<^sup>*\<^sup>* t t'" "list_all op_buffered (tx_ops t)"
  shows "list_all op_buffered (tx_ops t')"
  using assms
proof induction
  case (step u u')
  then obtain op where "u' = u\<lparr> tx_ops := tx_ops u @ [op] \<rparr>" "op_buffered op"
    using tx_step_buffers [of u u'] by auto
  then show ?case using step.IH step.prems by simp
qed simp

subsection \<open>What a commit accepts\<close>

abbreviation sets_property :: "('n, 'w) Op \<Rightarrow> bool" where
  "sets_property op \<equiv> op_Kind op \<in> {OpSetNodeProperty, OpSetEdgeProperty, OpSetEdgePropertyByHandle}"

text \<open>What encoding an op checks besides its keys: every name fits its length prefix, those of schema
  ops included, and the value of an op that sets a property is one the value encoder writes, hence
  no list within a list and nothing beyond the checkpoint's bound.\<close>

definition op_written :: "('n, 'w) Op \<Rightarrow> bool" where
  "op_written op \<longleftrightarrow> length (op_Label op) \<le> 65535 \<and> length (op_Key op) \<le> 65535 \<and>
     length (op_ConstraintName op) \<le> 65535 \<and>
     (sets_property op \<longrightarrow> (\<exists>out. encodePropertyValue [] (op_Value op) = Inr out))"

text \<open>What no check sees: the keys and the weight are those the codecs bring back, and the value of an
  op that sets a property is one the log brings back.\<close>

definition op_carried :: "('n \<Rightarrow> bool) \<Rightarrow> ('w \<Rightarrow> bool) \<Rightarrow> ('n, 'w) Op \<Rightarrow> bool" where
  "op_carried vn vw op \<longleftrightarrow> vn (op_Src op) \<and> vn (op_Dst op) \<and> vw (op_Weight op) \<and>
     (sets_property op \<longrightarrow> log_value (op_Value op))"

lemma buffered_carried_storable: "op_buffered op \<Longrightarrow> op_carried vn vw op \<Longrightarrow> op_storable vn vw op"
  by (simp add: op_buffered_def op_carried_def op_storable_def)

lemma encodePropertyValue_accepts:
  "encodePropertyValue buf v = Inr out \<Longrightarrow> \<exists>bs. encodePropertyValue [] v = Inr bs"
  by (subst (asm) encodePropertyValue_appends) (auto simp: result_bind_eq_Inr_iff)

lemma body_written:
  assumes "op_buffered op" "appendOpBodyTyped zeroN c wc buf op = Inr out"
  shows "op_written op"
  using assms
  by (auto simp: appendOpBodyTyped_def op_buffered_def op_written_def is_schema_op_def Let_def with_handle_def
      encodeOpNodeProperty_def encodeOpEdgeProperty_def appendOpConstraintBody_def appendOpIndexBody_def
      result_bind_eq_Inr_iff checkWALSchemaString_ok dest: encodePropertyValue_accepts split: if_splits)

lemma emit_ops_written:
  "list_all op_buffered ops \<Longrightarrow> emit_ops zeroN c wc seq ops = (ps, None) \<Longrightarrow> list_all op_written ops"
proof (induction ops arbitrary: ps)
  case (Cons op ops)
  then show ?case
    by (auto simp: result_bind_eq_Inr_iff encodeOpTypedV3Into_def intro: body_written split: sum.splits prod.splits)
qed simp

lemma appendChecked_ops:
  "appendChecked zeroN c wc seq ts annex ops = (ps, None) \<Longrightarrow> emit_ops zeroN c wc seq ops = (butlast ps, None)"
  by (auto simp: appendChecked_def split: prod.splits option.splits sum.splits)

lemma storable_ops_replay:
  assumes c: "codec_ok c vn" "\<And>w. wc = Some w \<Longrightarrow> codec_ok w vw" "vn zeroN"
    and ops: "list_all (op_storable vn vw) ops" "emit_ops zeroN c wc seq ops = (qs, None)"
  shows "\<exists>rs. list_all2 (\<lambda>p r. rec_Decode p = Inr r \<and> ro_TxnSeq r = seq) qs rs \<and>
    list_all2 (\<lambda>op r. applyOrAccumulate G zeroW c wc r = op_effect G zeroW wc op) ops rs"
proof -
  obtain rs where rs: "list_all2 (\<lambda>p r. rec_Decode p = Inr r \<and> op_record seq r) qs rs"
      "list_all2 (logged zeroN c wc seq) ops rs"
    using emit_ops_logged [OF c ops] by auto
  have "list_all2 (\<lambda>p r. rec_Decode p = Inr r \<and> ro_TxnSeq r = seq) qs rs"
    using rs(1) by (rule list_all2_mono) (auto simp: op_record_def)
  moreover have "list_all2 (\<lambda>op r. applyOrAccumulate G zeroW c wc r = op_effect G zeroW wc op) ops rs"
    using rs(2) ops(1) logged_applies [OF c] by (fastforce simp: list_all2_conv_all_nth list_all_length)
  ultimately show ?thesis by blast
qed

subsection \<open>From a mutator call to its replay\<close>

text \<open>
  Property C2. What is known of the ops a transaction holds, after any sequence of accepted mutator
  calls with any arguments, and when. On buffering, the kind of every op is one of the mutators', and
  the label and the key of every op but a schema op fit their length prefixes; a schema op may hold
  names that do not, and an op that sets a property may hold a value the log cannot write. On commit,
  if the whole run is appended, then every op was one the log can write: the names of all ops, schema
  ops included, fit their prefixes, and every property value set is one the value encoder accepts; so
  a commit with any other op is refused. On recovery, provided that the codecs round-trip the keys
  and weights of the ops, and that the property values set are ones the log brings back
  (\<open>log_value\<close>: neither the zero value nor a list holding one, times within the range of
  \<open>UnixNano\<close>), which the checks above do not ensure, the frames hold one record per op, in
  order, with the sequence number of the commit, and recovery applies each as the very effect of the
  op that was buffered.
\<close>

theorem accepted_calls_replay:
  assumes t: "tx_ops t0 = []" "tx_step\<^sup>*\<^sup>* t0 t"
  shows "list_all op_buffered (tx_ops t) \<and>
    (\<forall>zeroN c wc seq ts annex ps. appendChecked zeroN c wc seq ts annex (tx_ops t) = (ps, None) \<longrightarrow>
       list_all op_written (tx_ops t) \<and>
       (\<forall>vn vw G zeroW. codec_ok c vn \<and> (\<forall>w. wc = Some w \<longrightarrow> codec_ok w vw) \<and> vn zeroN \<and>
          list_all (op_carried vn vw) (tx_ops t) \<longrightarrow>
          (\<exists>rs. list_all2 (\<lambda>p r. rec_Decode p = Inr r \<and> ro_TxnSeq r = seq) (butlast ps) rs \<and>
             list_all2 (\<lambda>op r. applyOrAccumulate G zeroW c wc r = op_effect G zeroW wc op) (tx_ops t) rs)))"
proof -
  have buf: "list_all op_buffered (tx_ops t)" using tx_steps_buffered [OF t(2)] t(1) by simp
  have st: "list_all (op_storable vn vw) (tx_ops t)" if "list_all (op_carried vn vw) (tx_ops t)" for vn vw
    using buf that by (auto simp: list_all_iff intro: buffered_carried_storable)
  show ?thesis
  proof (intro conjI allI impI buf, goal_cases)
    case (1 zeroN c wc seq ts annex ps)
    show ?case by (rule emit_ops_written [OF buf appendChecked_ops [OF 1]])
  next
    case (2 zeroN c wc seq ts annex ps vn vw G zeroW)
    then show ?case using storable_ops_replay [OF _ _ _ st appendChecked_ops [OF 2(1)]] by blast
  qed
qed

definition fresh_tx :: "(bytes, u64) Tx" where
  "fresh_tx = \<lparr> tx_finished = False, tx_ops = [], tx_wcodec = None, tx_validator = (\<lambda>_ _. True), tx_zeroN = [], tx_zeroW = 0 \<rparr>"

theorem accepted_calls_replay_witness:
  "tx_AddNode [65] fresh_tx = Inr (fresh_tx\<lparr> tx_ops := [add_node_op] \<rparr>) \<and>
   (\<exists>r. rec_Decode (add_node_payload 7) = Inr r \<and>
     applyOrAccumulate node_Graph 0 string_Codec None r = on_graph (g_AddNode node_Graph [65]))"
proof -
  have t: "tx_AddNode [65] fresh_tx = Inr (fresh_tx\<lparr> tx_ops := [add_node_op] \<rparr>)"
    by (simp add: fresh_tx_def tx_AddNode_def buffer_op_def new_op_def add_node_op_def)
  have r: "tx_step\<^sup>*\<^sup>* fresh_tx (fresh_tx\<lparr> tx_ops := [add_node_op] \<rparr>)"
    by (rule r_into_rtranclp, rule tx_step.AddNode [OF t])
  have v: "list_all (op_carried (\<lambda>_. True) (\<lambda>_. True)) [add_node_op]"
    by (simp add: op_carried_def add_node_op_def zero_op_def)
  have "\<exists>rs. list_all2 (\<lambda>p r. rec_Decode p = Inr r \<and> ro_TxnSeq r = 7) (butlast (map Payload (add_node_frames 7))) rs \<and>
      list_all2 (\<lambda>op r. applyOrAccumulate node_Graph 0 string_Codec None r = op_effect node_Graph 0 None op) [add_node_op] rs"
    using conjunct2 [OF accepted_calls_replay [OF _ r], rule_format, of "[]" string_Codec None 7 5 "[1, 1, 0x80, 2]"
        "map Payload (add_node_frames 7)"] add_node_appended [of 7] string_Codec_ok v
    by (fastforce simp: fresh_tx_def)
  then obtain rs where
      "list_all2 (\<lambda>p r. rec_Decode p = Inr r \<and> ro_TxnSeq r = 7) (butlast (map Payload (add_node_frames 7))) rs"
      "list_all2 (\<lambda>op r. applyOrAccumulate node_Graph 0 string_Codec None r = op_effect node_Graph 0 None op) [add_node_op] rs"
    by blast
  moreover have "op_effect node_Graph 0 None add_node_op = on_graph (g_AddNode node_Graph [65])"
    by (simp add: op_effect_def add_node_op_def zero_op_def fun_eq_iff)
  ultimately show ?thesis using t by (auto simp: list_all2_Cons1 add_node_frames_def frame_at_def)
qed

end
