(* ===== verification/Packstream.thy ===== *)
theory Packstream
  imports Prelude
begin

text \<open>
  PackStream, the value format of the Bolt protocol (\<open>bolt/packstream\<close>): the value type, the
  encoder, and the decoder with its three budgets: the bytes left of the message, the decoded size
  of collections, and the server-wide pool of \<open>InboundBudget\<close>. Integers and floats are their 64-bit
  patterns, strings their bytes; a Go map is an association list in iteration order. The
  \<open>io.Writer\<close> is the list of bytes written and never fails.
\<close>

subsection \<open>Values\<close>

datatype pvalue =
    PNull
  | PBool bool
  | PInt u64
  | PFloat u64
  | PBytes bytes
  | PString bytes
  | PList "pvalue list"
  | PMap "(bytes \<times> pvalue) list"
  | PStruct byte "pvalue list"

text \<open>The errors of the codec; the last three are of the messages built on it.\<close>

datatype pk_error =
    ErrReadEOF | ErrMarker | ErrNestingTooDeep | ErrLengthExceedsInput | ErrDecodedMemoryExceeded
  | ErrInboundBudgetExceeded | ErrPayloadTooLarge | ErrFieldCount
  | ErrMessageFields | ErrMessageTag | ErrMessageType

definition maxValueDepth :: nat where "maxValueDepth = 128"

subsection \<open>The encoder\<close>

definition checkUint32Length :: "nat \<Rightarrow> bool" where
  "checkUint32Length n \<longleftrightarrow> n \<le> 2 ^ 32 - 1"

text \<open>The 8-, 16- and 32-bit length prefixes, behind the marker of each width.\<close>

definition sized_prefix :: "byte \<Rightarrow> byte \<Rightarrow> byte \<Rightarrow> nat \<Rightarrow> (pk_error, bytes) result" where
  "sized_prefix m8 m16 m32 n =
     (if n \<le> 255 then Inr [m8, of_nat n]
      else if n \<le> 65535 then Inr (m16 # put_be16 (of_nat n))
      else if \<not> checkUint32Length n then Inl ErrPayloadTooLarge
      else Inr (m32 # put_be32 (of_nat n)))"

text \<open>A count up to 15 fits into the marker itself.\<close>

definition count_prefix :: "byte \<Rightarrow> byte \<Rightarrow> byte \<Rightarrow> byte \<Rightarrow> nat \<Rightarrow> (pk_error, bytes) result" where
  "count_prefix tiny m8 m16 m32 n =
     (if n \<le> 15 then Inr [tiny OR of_nat n] else sized_prefix m8 m16 m32 n)"

definition WriteNull :: bytes where "WriteNull = [0xC0]"

definition WriteBool :: "bool \<Rightarrow> bytes" where
  "WriteBool v = (if v then [0xC3] else [0xC2])"

definition WriteInt :: "u64 \<Rightarrow> bytes" where
  "WriteInt v =
     (if - 16 \<le> sint v \<and> sint v \<le> 127 then [ucast v]
      else if - (2 ^ 7) \<le> sint v \<and> sint v \<le> 2 ^ 7 - 1 then [0xC8, ucast v]
      else if - (2 ^ 15) \<le> sint v \<and> sint v \<le> 2 ^ 15 - 1 then 0xC9 # put_be16 (ucast v)
      else if - (2 ^ 31) \<le> sint v \<and> sint v \<le> 2 ^ 31 - 1 then 0xCA # put_be32 (ucast v)
      else 0xCB # put_be64 v)"

definition WriteFloat :: "u64 \<Rightarrow> bytes" where
  "WriteFloat v = 0xC1 # put_be64 v"

definition WriteBytes :: "bytes \<Rightarrow> (pk_error, bytes) result" where
  "WriteBytes v = result_bind (sized_prefix 0xCC 0xCD 0xCE (length v)) (\<lambda>h. Inr (h @ v))"

definition WriteString :: "bytes \<Rightarrow> (pk_error, bytes) result" where
  "WriteString v = result_bind (count_prefix 0x80 0xD0 0xD1 0xD2 (length v)) (\<lambda>h. Inr (h @ v))"

definition WriteListHeader :: "nat \<Rightarrow> (pk_error, bytes) result" where
  "WriteListHeader n = count_prefix 0x90 0xD4 0xD5 0xD6 n"

definition WriteMapHeader :: "nat \<Rightarrow> (pk_error, bytes) result" where
  "WriteMapHeader n = count_prefix 0xA0 0xD8 0xD9 0xDA n"

definition WriteStructHeader :: "byte \<Rightarrow> nat \<Rightarrow> (pk_error, bytes) result" where
  "WriteStructHeader tag n = (if n > 15 then Inl ErrFieldCount else Inr [0xB0 OR of_nat n, tag])"

fun writeValue :: "nat \<Rightarrow> pvalue \<Rightarrow> (pk_error, bytes) result"
  and write_items :: "nat \<Rightarrow> pvalue list \<Rightarrow> (pk_error, bytes) result"
  and write_entries :: "nat \<Rightarrow> (bytes \<times> pvalue) list \<Rightarrow> (pk_error, bytes) result" where
  "writeValue depth v =
     (if depth > maxValueDepth then Inl ErrNestingTooDeep
      else case v of
        PNull \<Rightarrow> Inr WriteNull
      | PBool b \<Rightarrow> Inr (WriteBool b)
      | PInt i \<Rightarrow> Inr (WriteInt i)
      | PFloat f \<Rightarrow> Inr (WriteFloat f)
      | PBytes b \<Rightarrow> WriteBytes b
      | PString s \<Rightarrow> WriteString s
      | PList vs \<Rightarrow> result_bind (WriteListHeader (length vs)) (\<lambda>h.
                     result_bind (write_items (depth + 1) vs) (\<lambda>b. Inr (h @ b)))
      | PMap kvs \<Rightarrow> result_bind (WriteMapHeader (length kvs)) (\<lambda>h.
                     result_bind (write_entries (depth + 1) kvs) (\<lambda>b. Inr (h @ b)))
      | PStruct tag vs \<Rightarrow> result_bind (WriteStructHeader tag (length vs)) (\<lambda>h.
                     result_bind (write_items (depth + 1) vs) (\<lambda>b. Inr (h @ b))))"
| "write_items depth [] = Inr []"
| "write_items depth (v # vs) =
     result_bind (writeValue depth v) (\<lambda>b. result_bind (write_items depth vs) (\<lambda>bs. Inr (b @ bs)))"
| "write_entries depth [] = Inr []"
| "write_entries depth ((k, v) # kvs) =
     result_bind (WriteString k) (\<lambda>kb. result_bind (writeValue depth v) (\<lambda>b.
       result_bind (write_entries depth kvs) (\<lambda>bs. Inr (kb @ b @ bs))))"

declare writeValue.simps [simp del]

definition WriteValue :: "pvalue \<Rightarrow> (pk_error, bytes) result" where
  "WriteValue v = writeValue 0 v"

subsection \<open>The shared pool of inbound memory\<close>

text \<open>An enabled \<open>InboundBudget\<close> is the number of bytes still in its pool.\<close>

definition tryReserve :: "int \<Rightarrow> int \<Rightarrow> bool \<times> int" where
  "tryReserve n remaining =
     (if n \<le> 0 then (True, remaining) else if remaining < n then (False, remaining) else (True, remaining - n))"

definition release :: "int \<Rightarrow> int \<Rightarrow> int" where
  "release n remaining = (if n \<le> 0 then remaining else remaining + n)"

text \<open>A ceiling that is not positive disables the budget.\<close>

definition NewInboundBudget :: "int \<Rightarrow> int option" where
  "NewInboundBudget limit = (if limit > 0 then Some limit else None)"

definition inboundReserveChunk :: int where "inboundReserveChunk = 2 ^ 20"

subsection \<open>The decoder\<close>

definition maxDecodedCollectionBytes :: int where "maxDecodedCollectionBytes = 128 * 2 ^ 20"
definition defaultMaxMessageBytes :: int where "defaultMaxMessageBytes = 16 * 2 ^ 20"
definition listElemCost :: int where "listElemCost = 48"
definition collectionCost :: int where "collectionCost = 32"
definition mapEntryCost :: int where "mapEntryCost = 112"
definition mapCollectionCost :: int where "mapCollectionCost = 512"
definition unknownRemaining :: int where "unknownRemaining = - 1"
definition wire32MaxLen :: nat where "wire32MaxLen = 2 ^ 31 - 1"

record decoder =
  d_src :: bytes
  d_remaining :: int
  d_maxMessageBytes :: int
  d_decodedRemaining :: int
  d_shared :: "int option"
  d_poolHeld :: int
  d_poolAvail :: int

text \<open>A decoder over an in-memory message, whose length is known.\<close>

definition NewDecoder :: "bytes \<Rightarrow> decoder" where
  "NewDecoder src = \<lparr>d_src = src, d_remaining = int (length src), d_maxMessageBytes = defaultMaxMessageBytes,
     d_decodedRemaining = maxDecodedCollectionBytes, d_shared = None, d_poolHeld = 0, d_poolAvail = 0\<rparr>"

definition SetInboundBudget :: "int option \<Rightarrow> decoder \<Rightarrow> decoder" where
  "SetInboundBudget b d = d\<lparr>d_shared := b, d_poolHeld := 0, d_poolAvail := 0\<rparr>"

text \<open>The pool after the release, the decoder detached from it.\<close>

definition ReleaseInboundBudget :: "decoder \<Rightarrow> int option \<times> decoder" where
  "ReleaseInboundBudget d =
     (map_option (release (d_poolHeld d)) (d_shared d), d\<lparr>d_shared := None, d_poolHeld := 0, d_poolAvail := 0\<rparr>)"

text \<open>A decoder method returns its result and the decoder it leaves, on errors too.\<close>

type_synonym 'a dec = "decoder \<Rightarrow> (pk_error, 'a) result \<times> decoder"

definition dreturn :: "'a \<Rightarrow> 'a dec" where "dreturn x d = (Inr x, d)"
definition dfail :: "pk_error \<Rightarrow> 'a dec" where "dfail e d = (Inl e, d)"

definition dbind :: "'a dec \<Rightarrow> ('a \<Rightarrow> 'b dec) \<Rightarrow> 'b dec" where
  "dbind m f d = (case m d of (Inl e, d') \<Rightarrow> (Inl e, d') | (Inr x, d') \<Rightarrow> f x d')"

lemma dbind_cong [fundef_cong]:
  assumes "m d = m' d'" and "\<And>x e. m' d' = (Inr x, e) \<Longrightarrow> f x e = g x e"
  shows "dbind m f d = dbind m' g d'"
  using assms by (auto simp: dbind_def split: prod.splits sum.splits)

definition budget :: "decoder \<Rightarrow> int" where
  "budget d = (if d_remaining d = unknownRemaining then d_maxMessageBytes d else d_remaining d)"

definition consume :: "nat \<Rightarrow> decoder \<Rightarrow> decoder" where
  "consume n d =
     d\<lparr>d_src := drop n (d_src d),
       d_remaining := (if d_remaining d \<noteq> unknownRemaining then d_remaining d - int n else d_remaining d)\<rparr>"

definition readByte :: "byte dec" where
  "readByte d = (case d_src d of [] \<Rightarrow> (Inl ErrReadEOF, d) | b # _ \<Rightarrow> (Inr b, consume 1 d))"

definition readFull :: "nat \<Rightarrow> bytes dec" where
  "readFull n d =
     (if length (d_src d) < n then (Inl ErrReadEOF, consume (length (d_src d)) d)
      else (Inr (take n (d_src d)), consume n d))"

definition reserveShared :: "int \<Rightarrow> unit dec" where
  "reserveShared cost d =
     (case d_shared d of
        None \<Rightarrow> (Inr (), d)
      | Some pool \<Rightarrow>
          if cost \<le> 0 then (Inr (), d)
          else if d_poolAvail d \<ge> cost then (Inr (), d\<lparr>d_poolAvail := d_poolAvail d - cost\<rparr>)
          else
            let need = cost - d_poolAvail d;
                chunk = (if need < inboundReserveChunk then inboundReserveChunk else need);
                take = (\<lambda>c pool'. (Inr (), d\<lparr>d_shared := Some pool', d_poolHeld := d_poolHeld d + c,
                          d_poolAvail := d_poolAvail d + c - cost\<rparr>))
            in case tryReserve chunk pool of
                 (True, pool') \<Rightarrow> take chunk pool'
               | (False, _) \<Rightarrow>
                   (case tryReserve need pool of
                      (True, pool') \<Rightarrow> take need pool'
                    | (False, _) \<Rightarrow> (Inl ErrInboundBudgetExceeded, d)))"

definition chargeDecoded :: "nat \<Rightarrow> int \<Rightarrow> int \<Rightarrow> unit dec" where
  "chargeDecoded n perElem baseCost d =
     (let rem = d_decodedRemaining d - baseCost
      in if rem < 0 \<or> int n > rem div perElem then (Inl ErrDecodedMemoryExceeded, d)
         else dbind (reserveShared (baseCost + int n * perElem))
                (\<lambda>_ d'. (Inr (), d'\<lparr>d_decodedRemaining := rem - int n * perElem\<rparr>)) d)"

definition readLen32 :: "nat dec" where
  "readLen32 = dbind (readFull 4) (\<lambda>b.
     let v = unat (get_be32 b) in if v > wire32MaxLen then dfail ErrLengthExceedsInput else dreturn v)"

text \<open>The length behind a marker of one of the three widths.\<close>

definition read_sized :: "byte \<Rightarrow> byte \<Rightarrow> byte \<Rightarrow> byte \<Rightarrow> nat dec" where
  "read_sized m8 m16 m32 b =
     (if b = m8 then dbind readByte (\<lambda>raw. dreturn (unat raw))
      else if b = m16 then dbind (readFull 2) (\<lambda>raw. dreturn (unat (get_be16 raw)))
      else if b = m32 then readLen32
      else dfail ErrMarker)"

definition read_count :: "byte \<Rightarrow> byte \<Rightarrow> byte \<Rightarrow> byte \<Rightarrow> byte \<Rightarrow> nat dec" where
  "read_count tiny m8 m16 m32 b =
     (if tiny \<le> b \<and> b \<le> tiny + 15 then dreturn (unat (b AND 0x0F)) else read_sized m8 m16 m32 b)"

datatype ptype = TypeNull | TypeBool | TypeInt | TypeFloat | TypeBytes | TypeString | TypeList | TypeMap | TypeStruct

text \<open>An unassigned marker reads as \<open>TypeNull\<close>, the zero value of the table.\<close>

definition markerToType :: "byte \<Rightarrow> ptype" where
  "markerToType b =
     (if b \<le> 0x7F \<or> 0xF0 \<le> b then TypeInt
      else if b \<in> {0xC2, 0xC3} then TypeBool
      else if b = 0xC1 then TypeFloat
      else if b \<in> {0xC8, 0xC9, 0xCA, 0xCB} then TypeInt
      else if b \<in> {0xCC, 0xCD, 0xCE} then TypeBytes
      else if b \<in> {0xD0, 0xD1, 0xD2} \<or> 0x80 \<le> b \<and> b \<le> 0x8F then TypeString
      else if b \<in> {0xD4, 0xD5, 0xD6} \<or> 0x90 \<le> b \<and> b \<le> 0x9F then TypeList
      else if b \<in> {0xD8, 0xD9, 0xDA} \<or> 0xA0 \<le> b \<and> b \<le> 0xAF then TypeMap
      else if 0xB0 \<le> b \<and> b \<le> 0xBF then TypeStruct
      else TypeNull)"

definition PeekType :: "ptype dec" where
  "PeekType d = (case d_src d of [] \<Rightarrow> (Inl ErrReadEOF, d) | b # _ \<Rightarrow> (Inr (markerToType b), d))"

definition ReadNull :: "unit dec" where
  "ReadNull = dbind readByte (\<lambda>b. if b \<noteq> 0xC0 then dfail ErrMarker else dreturn ())"

definition ReadBool :: "bool dec" where
  "ReadBool = dbind readByte (\<lambda>b. if b = 0xC3 then dreturn True else if b = 0xC2 then dreturn False else dfail ErrMarker)"

definition ReadInt :: "u64 dec" where
  "ReadInt = dbind readByte (\<lambda>b.
     if b = 0xC8 then dbind readByte (\<lambda>raw. dreturn (scast raw))
     else if b = 0xC9 then dbind (readFull 2) (\<lambda>raw. dreturn (scast (get_be16 raw)))
     else if b = 0xCA then dbind (readFull 4) (\<lambda>raw. dreturn (scast (get_be32 raw)))
     else if b = 0xCB then dbind (readFull 8) (\<lambda>raw. dreturn (get_be64 raw))
     else if b \<le> 0x7F \<or> 0xF0 \<le> b then dreturn (scast b)
     else dfail ErrMarker)"

definition ReadFloat :: "u64 dec" where
  "ReadFloat = dbind readByte (\<lambda>b. if b \<noteq> 0xC1 then dfail ErrMarker
     else dbind (readFull 8) (\<lambda>raw. dreturn (get_be64 raw)))"

text \<open>The payload of a byte or text string, its length checked against both budgets first.\<close>

definition read_payload :: "nat \<Rightarrow> bytes dec" where
  "read_payload n d =
     (if int n > budget d then (Inl ErrLengthExceedsInput, d)
      else dbind (reserveShared (int n)) (\<lambda>_. readFull n) d)"

definition ReadBytes :: "bytes dec" where
  "ReadBytes = dbind readByte (\<lambda>b. dbind (read_sized 0xCC 0xCD 0xCE b) read_payload)"

definition ReadString :: "bytes dec" where
  "ReadString = dbind readByte (\<lambda>b.
     dbind (read_count 0x80 0xD0 0xD1 0xD2 b)
       (\<lambda>n. if n = 0 then dreturn [] else read_payload n))"

definition ReadListHeader :: "nat dec" where
  "ReadListHeader = dbind readByte (\<lambda>b.
     dbind (read_count 0x90 0xD4 0xD5 0xD6 b)
       (\<lambda>n d. if int n > budget d then (Inl ErrLengthExceedsInput, d)
               else dbind (chargeDecoded n listElemCost collectionCost) (\<lambda>_. dreturn n) d))"

definition ReadMapHeader :: "nat dec" where
  "ReadMapHeader = dbind readByte (\<lambda>b.
     dbind (read_count 0xA0 0xD8 0xD9 0xDA b)
       (\<lambda>n d. if int n > budget d div 2 then (Inl ErrLengthExceedsInput, d)
               else dbind (chargeDecoded n mapEntryCost mapCollectionCost) (\<lambda>_. dreturn n) d))"

definition ReadStructHeader :: "(byte \<times> nat) dec" where
  "ReadStructHeader = dbind readByte (\<lambda>b.
     if \<not> (0xB0 \<le> b \<and> b \<le> 0xBF) then dfail ErrMarker
     else dbind readByte (\<lambda>tag d.
       let n = unat (b AND 0x0F)
       in if int n > budget d then (Inl ErrLengthExceedsInput, d)
          else dbind (chargeDecoded n listElemCost collectionCost) (\<lambda>_. dreturn (tag, n)) d))"

text \<open>\<open>m[k] = val\<close> on a Go map.\<close>

definition map_set :: "bytes \<Rightarrow> pvalue \<Rightarrow> (bytes \<times> pvalue) list \<Rightarrow> (bytes \<times> pvalue) list" where
  "map_set k v m = AList.update k v m"

function readValue :: "nat \<Rightarrow> pvalue dec"
  and read_items :: "nat \<Rightarrow> nat \<Rightarrow> pvalue list dec"
  and read_entries :: "nat \<Rightarrow> nat \<Rightarrow> (bytes \<times> pvalue) list \<Rightarrow> (bytes \<times> pvalue) list dec" where
  "readValue depth d =
     (if depth > maxValueDepth then (Inl ErrNestingTooDeep, d)
      else dbind PeekType (\<lambda>t. case t of
          TypeNull \<Rightarrow> dbind ReadNull (\<lambda>_. dreturn PNull)
        | TypeBool \<Rightarrow> dbind ReadBool (\<lambda>b. dreturn (PBool b))
        | TypeInt \<Rightarrow> dbind ReadInt (\<lambda>i. dreturn (PInt i))
        | TypeFloat \<Rightarrow> dbind ReadFloat (\<lambda>f. dreturn (PFloat f))
        | TypeBytes \<Rightarrow> dbind ReadBytes (\<lambda>b. dreturn (PBytes b))
        | TypeString \<Rightarrow> dbind ReadString (\<lambda>s. dreturn (PString s))
        | TypeList \<Rightarrow> dbind ReadListHeader (\<lambda>n. dbind (read_items (depth + 1) n) (\<lambda>vs. dreturn (PList vs)))
        | TypeMap \<Rightarrow> dbind ReadMapHeader (\<lambda>n. dbind (read_entries (depth + 1) n []) (\<lambda>m. dreturn (PMap m)))
        | TypeStruct \<Rightarrow> dbind ReadStructHeader (\<lambda>(tag, n).
            dbind (read_items (depth + 1) n) (\<lambda>vs. dreturn (PStruct tag vs)))) d)"
| "read_items depth 0 d = (Inr [], d)"
| "read_items depth (Suc n) d =
     dbind (readValue depth) (\<lambda>v. dbind (read_items depth n) (\<lambda>vs. dreturn (v # vs))) d"
| "read_entries depth 0 m d = (Inr m, d)"
| "read_entries depth (Suc n) m d =
     dbind ReadString (\<lambda>k. dbind (readValue depth) (\<lambda>v. read_entries depth n (map_set k v m))) d"
  by pat_completeness auto
termination
  by (relation "inv_image (less_than <*lex*> less_than) (\<lambda>x. case x of
        Inl (depth, _) \<Rightarrow> (2 * (maxValueDepth + 1 - depth), 0)
      | Inr (Inl (depth, n, _)) \<Rightarrow> (2 * (maxValueDepth + 1 - depth) + 1, n)
      | Inr (Inr (depth, n, _, _)) \<Rightarrow> (2 * (maxValueDepth + 1 - depth) + 1, n))")
    (auto simp: maxValueDepth_def)

declare readValue.simps [simp del]

definition ReadValue :: "pvalue dec" where
  "ReadValue = readValue 0"

subsection \<open>Reading from a message of known length\<close>

definition at :: "decoder \<Rightarrow> bytes \<Rightarrow> decoder" where
  "at d src = d\<lparr>d_src := src, d_remaining := int (length src)\<rparr>"

definition charge :: "int \<Rightarrow> decoder \<Rightarrow> decoder" where
  "charge k d = d\<lparr>d_decodedRemaining := d_decodedRemaining d - k\<rparr>"

lemma at_fields [simp]:
  "d_src (at d src) = src" "d_decodedRemaining (at d src) = d_decodedRemaining d"
  "d_shared (at d src) = d_shared d" "budget (at d src) = int (length src)"
  "d_src (charge k d) = d_src d" "d_decodedRemaining (charge k d) = d_decodedRemaining d - k"
  "d_shared (charge k d) = d_shared d"
  by (simp_all add: at_def charge_def budget_def unknownRemaining_def)

lemma at_charge [simp]:
  "charge k (at d src) = at (charge k d) src" "charge k (charge l d) = charge (l + k) d" "charge 0 d = d"
  by (simp_all add: at_def charge_def diff_diff_eq)

lemma dbind_simps [simp]:
  "dbind (dreturn x) f = f x" "dbind (dfail e) f = dfail e" "dreturn x d = (Inr x, d)" "dfail e d = (Inl e, d)"
  by (simp_all add: dbind_def dreturn_def dfail_def fun_eq_iff)

lemma dbind_eq_Inr:
  "dbind m f d = (Inr y, d'') \<longleftrightarrow> (\<exists>x d'. m d = (Inr x, d') \<and> f x d' = (Inr y, d''))"
  by (auto simp: dbind_def split: prod.splits sum.splits)

lemma dbind_Inr [simp]: "m d = (Inr x, d') \<Longrightarrow> dbind m f d = f x d'"
  by (simp add: dbind_def)

lemma dbind_Inl [simp]: "m d = (Inl e, d') \<Longrightarrow> dbind m f d = (Inl e, d')"
  by (simp add: dbind_def)

lemma consume_at: "n \<le> length src \<Longrightarrow> consume n (at d src) = at d (drop n src)"
  by (simp add: consume_def at_def unknownRemaining_def)

lemma readByte_at [simp]: "readByte (at d (b # r)) = (Inr b, at d r)"
  by (simp add: readByte_def consume_at)

lemma readFull_at [simp]: "length xs = n \<Longrightarrow> readFull n (at d (xs @ r)) = (Inr xs, at d r)"
  by (simp add: readFull_def consume_at)

lemma reserveShared_none [simp]: "d_shared d = None \<Longrightarrow> reserveShared k d = (Inr (), d)"
  by (simp add: reserveShared_def)

lemma chargeDecoded_at:
  assumes "d_shared d = None" and "baseCost + int n * perElem \<le> d_decodedRemaining d" and "0 < perElem"
    and "0 \<le> baseCost"
  shows "chargeDecoded n perElem baseCost (at d src) = (Inr (), at (charge (baseCost + int n * perElem) d) src)"
proof -
  let ?rem = "d_decodedRemaining d - baseCost"
  have le: "int n * perElem \<le> ?rem" using assms(2) by simp
  then have "int n \<le> ?rem div perElem" using assms(3) by (simp add: zdiv_mono1 nonzero_mult_div_cancel_right
      order.trans [OF eq_refl [OF nonzero_mult_div_cancel_right [symmetric]] zdiv_mono1 [OF le assms(3)]])
  moreover have "0 \<le> ?rem" using le assms(3) by (meson mult_nonneg_nonneg of_nat_0_le_iff less_imp_le order_trans)
  ultimately show ?thesis
    using assms(1) by (simp add: chargeDecoded_def Let_def) (simp add: at_def charge_def)
qed

subsection \<open>Integers\<close>

lemma ucast_sint: "LENGTH('a::len) \<le> 64 \<Longrightarrow> (ucast (v :: u64) :: 'a word) = word_of_int (sint v)"
proof -
  assume le: "LENGTH('a) \<le> 64"
  have "(ucast v :: 'a word) = scast v"
  proof (rule bit_word_eqI)
    fix n assume "n < LENGTH('a)"
    with le have "n = 63 \<or> n < 63" by linarith
    with \<open>n < LENGTH('a)\<close> show "bit (ucast v :: 'a word) n = bit (scast v :: 'a word) n"
      by (auto simp: bit_simps min_def)
  qed
  then show ?thesis by simp
qed

lemma scast_ucast_range:
  assumes "LENGTH('a::len) \<le> 64" and "- (2 ^ (LENGTH('a) - 1)) \<le> sint (v :: u64)" and "sint v < 2 ^ (LENGTH('a) - 1)"
  shows "(scast (ucast v :: 'a word) :: u64) = v"
proof -
  have "sint (ucast v :: 'a word) = signed_take_bit (LENGTH('a) - 1) (sint v)"
    unfolding ucast_sint [OF assms(1)] signed_of_int by simp
  also have "\<dots> = sint v" using assms(2,3) by (intro signed_take_bit_int_eq_self)
  finally have "(word_of_int (sint (ucast v :: 'a word)) :: u64) = word_of_int (sint v)" by simp
  then show ?thesis by simp
qed

lemma tiny_int_byte:
  assumes "- 16 \<le> sint v" and "sint v \<le> 127"
  shows "(ucast (v :: u64) :: byte) \<le> 0x7F \<or> (0xF0 :: byte) \<le> ucast v"
proof -
  have u: "uint (ucast v :: byte) = sint v mod 256"
  proof -
    have "(ucast v :: byte) = word_of_int (sint v)" by (rule ucast_sint) simp
    then show ?thesis by (simp only: uint_word_of_int) simp
  qed
  show ?thesis
  proof (cases "0 \<le> sint v")
    case True
    then have "uint (ucast v :: byte) \<le> 127" using u assms(2) by simp
    then show ?thesis by (simp add: word_le_def)
  next
    case False
    have "sint v mod 256 = (sint v + 256) mod 256" by simp
    also have "\<dots> = sint v + 256" using False assms(1) by (intro mod_pos_pos_trivial) simp_all
    finally have "sint v mod 256 = sint v + 256" .
    then have "240 \<le> uint (ucast v :: byte)" using u assms(1) by simp
    then show ?thesis by (simp add: word_le_def)
  qed
qed

lemma ReadInt_at: "ReadInt (at d (WriteInt v @ r)) = (Inr v, at d r)"
proof -
  consider (tiny) "- 16 \<le> sint v" "sint v \<le> 127"
    | (i8) "\<not> (- 16 \<le> sint v \<and> sint v \<le> 127)" "- (2 ^ 7) \<le> sint v" "sint v \<le> 2 ^ 7 - 1"
    | (i16) "\<not> (- (2 ^ 7) \<le> sint v \<and> sint v \<le> 2 ^ 7 - 1)" "- (2 ^ 15) \<le> sint v" "sint v \<le> 2 ^ 15 - 1"
    | (i32) "\<not> (- (2 ^ 15) \<le> sint v \<and> sint v \<le> 2 ^ 15 - 1)" "- (2 ^ 31) \<le> sint v" "sint v \<le> 2 ^ 31 - 1"
    | (i64) "\<not> (- (2 ^ 31) \<le> sint v \<and> sint v \<le> 2 ^ 31 - 1)"
    by linarith
  then show ?thesis
  proof cases
    case tiny
    have b: "(ucast v :: byte) \<le> 0x7F \<or> (0xF0 :: byte) \<le> ucast v" using tiny by (rule tiny_int_byte)
    then have ne: "(ucast v :: byte) \<noteq> 0xC8" "(ucast v :: byte) \<noteq> 0xC9" "(ucast v :: byte) \<noteq> 0xCA" "(ucast v :: byte) \<noteq> 0xCB"
      by auto
    have "(scast (ucast v :: byte) :: u64) = v" using tiny by (intro scast_ucast_range) simp_all
    with ne b show ?thesis using tiny by (simp add: WriteInt_def ReadInt_def)
  next
    case i8
    moreover have "(scast (ucast v :: byte) :: u64) = v" using i8 by (intro scast_ucast_range) simp_all
    ultimately show ?thesis by (auto simp add: WriteInt_def ReadInt_def)
  next
    case i16
    moreover have "(scast (ucast v :: u16) :: u64) = v" using i16 by (intro scast_ucast_range) simp_all
    ultimately show ?thesis by (auto simp add: WriteInt_def ReadInt_def)
  next
    case i32
    moreover have "(scast (ucast v :: u32) :: u64) = v" using i32 by (intro scast_ucast_range) simp_all
    ultimately show ?thesis by (auto simp add: WriteInt_def ReadInt_def)
  next
    case i64
    then show ?thesis by (auto simp add: WriteInt_def ReadInt_def)
  qed
qed

subsection \<open>Markers and headers\<close>

lemma nibble_markers:
  assumes "n \<le> 15" and "tiny \<in> set [0x80, 0x90, 0xA0, 0xB0]"
  shows "tiny \<le> (tiny OR of_nat n :: byte) \<and> (tiny OR of_nat n :: byte) \<le> tiny + 15
      \<and> unat ((tiny OR of_nat n :: byte) AND 0x0F) = n \<and> markerToType (tiny OR of_nat n) = markerToType tiny"
proof -
  have "\<forall>t \<in> set [0x80, 0x90, 0xA0, 0xB0]. \<forall>n \<in> set [0..<16]. t \<le> (t OR of_nat n :: byte) \<and> (t OR of_nat n :: byte) \<le> t + 15
      \<and> unat ((t OR of_nat n :: byte) AND 0x0F) = n \<and> markerToType (t OR of_nat n) = markerToType t"
    by code_simp
  moreover have "n \<in> set [0..<16]" using assms(1) by simp
  ultimately show ?thesis using assms(2) by blast
qed

lemma sized_prefix_read:
  assumes "sized_prefix m8 m16 m32 n = Inr h" and "n \<le> wire32MaxLen"
    and "m8 \<noteq> m16" "m8 \<noteq> m32" "m16 \<noteq> m32"
  obtains b t where "h = b # t" "b \<in> {m8, m16, m32}" "\<And>d r. read_sized m8 m16 m32 b (at d (t @ r)) = (Inr n, at d r)"
proof -
  consider (w8) "n \<le> 255" "h = [m8, of_nat n]"
    | (w16) "\<not> n \<le> 255" "n \<le> 65535" "h = m16 # put_be16 (of_nat n)"
    | (w32) "h = m32 # put_be32 (of_nat n)"
    using assms(1) by (auto simp: sized_prefix_def split: if_splits)
  then show thesis
  proof cases
    case w8
    then show thesis using that [of m8 "[of_nat n]"] by (simp add: read_sized_def unat_of_nat)
  next
    case w16
    then show thesis
      using that [of m16 "put_be16 (of_nat n)"] assms(3,4,5) by (simp add: read_sized_def unat_of_nat)
  next
    case w32
    then show thesis
      using that [of m32 "put_be32 (of_nat n)"] assms(2-5)
      by (simp add: read_sized_def readLen32_def unat_of_nat wire32MaxLen_def)
  qed
qed

lemma marker_types:
  "\<forall>b \<in> set [0xCC, 0xCD, 0xCE]. markerToType b = TypeBytes"
  "\<forall>b \<in> set [0xD0, 0xD1, 0xD2, 0x80]. markerToType b = TypeString"
  "\<forall>b \<in> set [0xD4, 0xD5, 0xD6, 0x90]. markerToType b = TypeList"
  "\<forall>b \<in> set [0xD8, 0xD9, 0xDA, 0xA0]. markerToType b = TypeMap"
  "markerToType 0xB0 = TypeStruct"
  by code_simp+

lemma count_prefix_read:
  assumes "count_prefix tiny m8 m16 m32 n = Inr h" and "n \<le> wire32MaxLen"
    and "(tiny, m8, m16, m32) \<in> {(0x80, 0xD0, 0xD1, 0xD2), (0x90, 0xD4, 0xD5, 0xD6), (0xA0, 0xD8, 0xD9, 0xDA)}"
  obtains b t where "h = b # t" "markerToType b = markerToType tiny"
    "\<And>d r. read_count tiny m8 m16 m32 b (at d (t @ r)) = (Inr n, at d r)"
proof (cases "n \<le> 15")
  case True
  have "tiny \<in> set [0x80, 0x90, 0xA0, 0xB0]" using assms(3) by auto
  note m = nibble_markers [OF True this]
  from True assms(1) have "h = (tiny OR of_nat n) # []" by (simp add: count_prefix_def)
  then show thesis using that [of "tiny OR of_nat n" "[]"] m by (simp add: read_count_def)
next
  case False
  then have "sized_prefix m8 m16 m32 n = Inr h" using assms(1) by (simp add: count_prefix_def)
  then obtain b t where b: "h = b # t" "b \<in> {m8, m16, m32}"
    "\<And>d r. read_sized m8 m16 m32 b (at d (t @ r)) = (Inr n, at d r)"
    using assms(2,3) by (elim sized_prefix_read) auto
  have type: "markerToType b = markerToType tiny" using marker_types assms(3) b(2) by auto
  have "(tiny \<le> b \<and> b \<le> tiny + 15) = False" using assms(3) b(2) by auto
  then have "read_count tiny m8 m16 m32 b = read_sized m8 m16 m32 b" unfolding read_count_def by (simp only: if_False)
  with b that type show thesis by auto
qed

text \<open>Each string and header is read back as written, behind a marker of its type.\<close>

lemma read_payload_at:
  "d_shared d = None \<Longrightarrow> length xs = n \<Longrightarrow> read_payload n (at d (xs @ r)) = (Inr xs, at d r)"
  by (simp add: read_payload_def)

lemma ReadBytes_at:
  assumes "WriteBytes v = Inr bs" and "length v \<le> wire32MaxLen" and "d_shared d = None"
  shows "ReadBytes (at d (bs @ r)) = (Inr v, at d r) \<and> (\<exists>b t. bs = b # t \<and> markerToType b = TypeBytes)"
proof -
  obtain h where h: "sized_prefix 0xCC 0xCD 0xCE (length v) = Inr h" "bs = h @ v"
    using assms(1) by (auto simp: WriteBytes_def result_bind_eq_Inr_iff)
  obtain b t where b: "h = b # t" "b \<in> {0xCC, 0xCD, 0xCE}"
    "\<And>d r. read_sized 0xCC 0xCD 0xCE b (at d (t @ r)) = (Inr (length v), at d r)"
    using h(1) assms(2) by (rule sized_prefix_read) auto
  have "markerToType b = TypeBytes" using b(2) marker_types(1) by auto
  then show ?thesis using b h(2) assms(3) by (simp add: ReadBytes_def read_payload_at)
qed

lemma ReadString_at:
  assumes "WriteString v = Inr bs" and "length v \<le> wire32MaxLen" and "d_shared d = None"
  shows "ReadString (at d (bs @ r)) = (Inr v, at d r) \<and> (\<exists>b t. bs = b # t \<and> markerToType b = TypeString)"
proof -
  obtain h where h: "count_prefix 0x80 0xD0 0xD1 0xD2 (length v) = Inr h" "bs = h @ v"
    using assms(1) by (auto simp: WriteString_def result_bind_eq_Inr_iff)
  obtain b t where b: "h = b # t" "markerToType b = markerToType 0x80"
    "\<And>d r. read_count 0x80 0xD0 0xD1 0xD2 b (at d (t @ r)) = (Inr (length v), at d r)"
    using h(1) assms(2) by (rule count_prefix_read) simp_all
  have "markerToType b = TypeString" using b(2) marker_types(2) by simp
  then show ?thesis using b h(2) assms(3)
    by (cases "v = []") (simp_all add: ReadString_def read_payload_at)
qed

lemma ReadListHeader_at:
  assumes "WriteListHeader n = Inr h" and "n \<le> wire32MaxLen" and "d_shared d = None"
    and "n \<le> length src" and "collectionCost + int n * listElemCost \<le> d_decodedRemaining d"
  shows "ReadListHeader (at d (h @ src)) = (Inr n, at (charge (collectionCost + int n * listElemCost) d) src)
     \<and> (\<exists>b t. h = b # t \<and> markerToType b = TypeList)"
proof -
  obtain b t where b: "h = b # t" "markerToType b = markerToType 0x90"
    "\<And>d r. read_count 0x90 0xD4 0xD5 0xD6 b (at d (t @ r)) = (Inr n, at d r)"
    using assms(1) unfolding WriteListHeader_def by (rule count_prefix_read) (use assms(2) in simp_all)
  have "markerToType b = TypeList" using b(2) marker_types(3) by simp
  moreover note chargeDecoded_at [OF assms(3,5), of src]
  ultimately show ?thesis using b assms(4)
    by (simp add: ReadListHeader_def collectionCost_def listElemCost_def)
qed

lemma ReadMapHeader_at:
  assumes "WriteMapHeader n = Inr h" and "n \<le> wire32MaxLen" and "d_shared d = None"
    and "2 * n \<le> length src" and "mapCollectionCost + int n * mapEntryCost \<le> d_decodedRemaining d"
  shows "ReadMapHeader (at d (h @ src)) = (Inr n, at (charge (mapCollectionCost + int n * mapEntryCost) d) src)
     \<and> (\<exists>b t. h = b # t \<and> markerToType b = TypeMap)"
proof -
  obtain b t where b: "h = b # t" "markerToType b = markerToType 0xA0"
    "\<And>d r. read_count 0xA0 0xD8 0xD9 0xDA b (at d (t @ r)) = (Inr n, at d r)"
    using assms(1) unfolding WriteMapHeader_def by (rule count_prefix_read) (use assms(2) in simp_all)
  have "markerToType b = TypeMap" using b(2) marker_types(4) by simp
  moreover have "int n \<le> int (length src) div 2" using assms(4) by linarith
  moreover note chargeDecoded_at [OF assms(3,5), of src]
  ultimately show ?thesis using b
    by (simp add: ReadMapHeader_def mapCollectionCost_def mapEntryCost_def not_less)
qed

lemma ReadStructHeader_at:
  assumes "WriteStructHeader tag n = Inr h" and "d_shared d = None"
    and "n \<le> length src" and "collectionCost + int n * listElemCost \<le> d_decodedRemaining d"
  shows "ReadStructHeader (at d (h @ src)) =
       (Inr (tag, n), at (charge (collectionCost + int n * listElemCost) d) src)
     \<and> (\<exists>b t. h = b # t \<and> markerToType b = TypeStruct)"
proof -
  have n: "n \<le> 15" and h: "h = [0xB0 OR of_nat n, tag]"
    using assms(1) by (auto simp: WriteStructHeader_def split: if_splits)
  have m: "0xB0 \<le> (0xB0 OR of_nat n :: byte) \<and> (0xB0 OR of_nat n :: byte) \<le> 0xBF
      \<and> unat ((0xB0 OR of_nat n :: byte) AND 0x0F) = n \<and> markerToType (0xB0 OR of_nat n) = TypeStruct"
    using nibble_markers [OF n, of "0xB0"] marker_types(5) by simp
  moreover note chargeDecoded_at [OF assms(2,4), of src]
  ultimately show ?thesis using assms(3) unfolding h
    by (simp add: ReadStructHeader_def collectionCost_def listElemCost_def)
qed

subsection \<open>Reading back a written value\<close>

text \<open>What a value's collections are charged when it is decoded; a Go map has distinct keys.\<close>

fun decoded_cost :: "pvalue \<Rightarrow> int" where
  "decoded_cost (PList vs) = collectionCost + int (length vs) * listElemCost + sum_list (map decoded_cost vs)"
| "decoded_cost (PMap kvs) = mapCollectionCost + int (length kvs) * mapEntryCost + sum_list (map (\<lambda>(k, v). decoded_cost v) kvs)"
| "decoded_cost (PStruct tag vs) = collectionCost + int (length vs) * listElemCost + sum_list (map decoded_cost vs)"
| "decoded_cost _ = 0"

fun wf_value :: "pvalue \<Rightarrow> bool" where
  "wf_value (PList vs) \<longleftrightarrow> list_all wf_value vs"
| "wf_value (PMap kvs) \<longleftrightarrow> distinct (map fst kvs) \<and> list_all (\<lambda>(k, v). wf_value v) kvs"
| "wf_value (PStruct tag vs) \<longleftrightarrow> list_all wf_value vs"
| "wf_value _ \<longleftrightarrow> True"

lemma decoded_cost_nonneg: "0 \<le> decoded_cost v"
  by (induction v rule: decoded_cost.induct)
    (auto simp: collectionCost_def listElemCost_def mapCollectionCost_def mapEntryCost_def
      intro!: add_nonneg_nonneg sum_list_nonneg)

lemma count_prefix_nonempty: "count_prefix tiny m8 m16 m32 n = Inr h \<Longrightarrow> h \<noteq> []"
  by (auto simp: count_prefix_def sized_prefix_def split: if_splits)

lemma WriteString_length: "WriteString v = Inr bs \<Longrightarrow> length v < length bs"
  using count_prefix_nonempty by (fastforce simp: WriteString_def result_bind_eq_Inr_iff)

lemma WriteInt_nonempty: "WriteInt v \<noteq> []"
  by (simp add: WriteInt_def)

text \<open>Every value takes a byte at least, so the counts stay within the message.\<close>

lemma writeValue_nonempty: "writeValue depth v = Inr bs \<Longrightarrow> bs \<noteq> []"
  using count_prefix_nonempty WriteString_length WriteInt_nonempty
  by (fastforce simp: writeValue.simps [of depth v] WriteNull_def WriteBool_def WriteFloat_def WriteBytes_def
      sized_prefix_def WriteListHeader_def WriteMapHeader_def WriteStructHeader_def result_bind_eq_Inr_iff
      split: if_splits pvalue.splits)

lemma write_items_length: "write_items depth vs = Inr bs \<Longrightarrow> length vs \<le> length bs"
proof (induction vs arbitrary: bs)
  case (Cons v vs)
  then obtain b bs' where "writeValue depth v = Inr b" "write_items depth vs = Inr bs'" "bs = b @ bs'"
    by (auto simp: result_bind_eq_Inr_iff)
  moreover from this(1) have "b \<noteq> []" by (rule writeValue_nonempty)
  ultimately show ?case using Cons.IH [of bs'] by (cases b) auto
qed simp

lemma write_entries_length: "write_entries depth kvs = Inr bs \<Longrightarrow> 2 * length kvs \<le> length bs"
proof (induction kvs arbitrary: bs)
  case (Cons kv kvs)
  obtain k v where kv: "kv = (k, v)" by (cases kv)
  with Cons.prems obtain kb b bs' where "WriteString k = Inr kb" "writeValue depth v = Inr b"
    "write_entries depth kvs = Inr bs'" "bs = kb @ b @ bs'"
    by (auto simp: result_bind_eq_Inr_iff)
  moreover from this have "length k < length kb" "b \<noteq> []"
    using WriteString_length writeValue_nonempty by auto
  ultimately show ?case using Cons.IH [of bs'] by (cases b) auto
qed simp

lemma map_set_new: "k \<notin> fst ` set m \<Longrightarrow> map_set k v m = m @ [(k, v)]"
  unfolding map_set_def by (induction m) auto

text \<open>The switch of \<open>readValue\<close> on the type it peeked.\<close>

definition value_switch :: "nat \<Rightarrow> ptype \<Rightarrow> pvalue dec" where
  "value_switch depth t = (case t of
          TypeNull \<Rightarrow> dbind ReadNull (\<lambda>_. dreturn PNull)
        | TypeBool \<Rightarrow> dbind ReadBool (\<lambda>b. dreturn (PBool b))
        | TypeInt \<Rightarrow> dbind ReadInt (\<lambda>i. dreturn (PInt i))
        | TypeFloat \<Rightarrow> dbind ReadFloat (\<lambda>f. dreturn (PFloat f))
        | TypeBytes \<Rightarrow> dbind ReadBytes (\<lambda>b. dreturn (PBytes b))
        | TypeString \<Rightarrow> dbind ReadString (\<lambda>s. dreturn (PString s))
        | TypeList \<Rightarrow> dbind ReadListHeader (\<lambda>n. dbind (read_items (depth + 1) n) (\<lambda>vs. dreturn (PList vs)))
        | TypeMap \<Rightarrow> dbind ReadMapHeader (\<lambda>n. dbind (read_entries (depth + 1) n []) (\<lambda>m. dreturn (PMap m)))
        | TypeStruct \<Rightarrow> dbind ReadStructHeader (\<lambda>(tag, n).
            dbind (read_items (depth + 1) n) (\<lambda>vs. dreturn (PStruct tag vs))))"

lemma readValue_switch:
  "depth \<le> maxValueDepth \<Longrightarrow> readValue depth d = dbind PeekType (value_switch depth) d"
  by (simp add: readValue.simps value_switch_def [abs_def])

lemma readValue_at:
  assumes "depth \<le> maxValueDepth" and "markerToType b = t"
  shows "readValue depth (at d (b # src)) = value_switch depth t (at d (b # src))"
proof -
  have "PeekType (at d (b # src)) = (Inr t, at d (b # src))" using assms(2) by (simp add: PeekType_def)
  then show ?thesis using assms(1) by (simp add: readValue_switch)
qed

lemma WriteInt_marker: "\<exists>b t. WriteInt v = b # t \<and> markerToType b = TypeInt"
proof (cases "- 16 \<le> sint v \<and> sint v \<le> 127")
  case True
  then show ?thesis using tiny_int_byte [of v] by (auto simp: WriteInt_def markerToType_def)
next
  case False
  have "\<forall>b \<in> set [0xC8, 0xC9, 0xCA, 0xCB]. markerToType b = TypeInt" by code_simp
  with False show ?thesis by (auto simp: WriteInt_def)
qed

lemma simple_markers: "markerToType 0xC0 = TypeNull" "markerToType 0xC1 = TypeFloat"
  "markerToType 0xC2 = TypeBool" "markerToType 0xC3 = TypeBool"
  by code_simp+

text \<open>The shared part of the three statements of the round trip.\<close>

definition room :: "bytes \<Rightarrow> int \<Rightarrow> decoder \<Rightarrow> bool" where
  "room bs cost d \<longleftrightarrow> length bs \<le> wire32MaxLen \<and> d_shared d = None \<and> cost \<le> d_decodedRemaining d"

lemma read_list_written:
  assumes hdr: "WriteListHeader (length vs) = Inr h" and items: "write_items (depth + 1) vs = Inr b"
    and depth: "depth \<le> maxValueDepth"
    and room: "room (h @ b) (decoded_cost (PList vs)) d" and wf: "list_all wf_value vs"
    and IH: "\<And>d rest. room b (sum_list (map decoded_cost vs)) d \<Longrightarrow>
      read_items (depth + 1) (length vs) (at d (b @ rest)) = (Inr vs, at (charge (sum_list (map decoded_cost vs)) d) rest)"
  shows "readValue depth (at d ((h @ b) @ rest)) = (Inr (PList vs), at (charge (decoded_cost (PList vs)) d) rest)"
proof -
  let ?c = "collectionCost + int (length vs) * listElemCost" and ?s = "sum_list (map decoded_cost vs)"
  have s: "0 \<le> ?s" by (auto intro!: sum_list_nonneg decoded_cost_nonneg)
  have len: "length vs \<le> length b" using items by (rule write_items_length)
  have r: "length vs \<le> wire32MaxLen" "d_shared d = None" "?c \<le> d_decodedRemaining d" "?c + ?s \<le> d_decodedRemaining d"
    "length b \<le> wire32MaxLen"
    using room s len by (auto simp: room_def)
  note H = ReadListHeader_at [OF hdr r(1,2) _ r(3), of "b @ rest"]
  have H1: "ReadListHeader (at d (h @ b @ rest)) = (Inr (length vs), at (charge ?c d) (b @ rest))"
    using H len by simp
  obtain m t where m: "h = m # t" "markerToType m = TypeList" using H len by auto
  have "read_items (depth + 1) (length vs) (at (charge ?c d) (b @ rest)) = (Inr vs, at (charge ?s (charge ?c d)) rest)"
    using r by (intro IH) (simp add: room_def)
  with H1 show ?thesis using readValue_at [OF depth m(2)] by (simp add: m(1) value_switch_def)
qed

lemma read_struct_written:
  assumes hdr: "WriteStructHeader tag (length vs) = Inr h" and items: "write_items (depth + 1) vs = Inr b"
    and depth: "depth \<le> maxValueDepth"
    and room: "room (h @ b) (decoded_cost (PStruct tag vs)) d"
    and IH: "\<And>d rest. room b (sum_list (map decoded_cost vs)) d \<Longrightarrow>
      read_items (depth + 1) (length vs) (at d (b @ rest)) = (Inr vs, at (charge (sum_list (map decoded_cost vs)) d) rest)"
  shows "readValue depth (at d ((h @ b) @ rest)) = (Inr (PStruct tag vs), at (charge (decoded_cost (PStruct tag vs)) d) rest)"
proof -
  let ?c = "collectionCost + int (length vs) * listElemCost" and ?s = "sum_list (map decoded_cost vs)"
  have s: "0 \<le> ?s" by (auto intro!: sum_list_nonneg decoded_cost_nonneg)
  have len: "length vs \<le> length b" using items by (rule write_items_length)
  have r: "d_shared d = None" "?c \<le> d_decodedRemaining d" "?c + ?s \<le> d_decodedRemaining d"
    "length b \<le> wire32MaxLen"
    using room s by (auto simp: room_def)
  note H = ReadStructHeader_at [OF hdr r(1) _ r(2), of "b @ rest"]
  have H1: "ReadStructHeader (at d (h @ b @ rest)) = (Inr (tag, length vs), at (charge ?c d) (b @ rest))"
    using H len by simp
  obtain m t where m: "h = m # t" "markerToType m = TypeStruct" using H len by auto
  have "read_items (depth + 1) (length vs) (at (charge ?c d) (b @ rest)) = (Inr vs, at (charge ?s (charge ?c d)) rest)"
    using r by (intro IH) (simp add: room_def)
  with H1 show ?thesis using readValue_at [OF depth m(2)] by (simp add: m(1) value_switch_def)
qed

lemma read_map_written:
  assumes hdr: "WriteMapHeader (length kvs) = Inr h" and entries: "write_entries (depth + 1) kvs = Inr b"
    and depth: "depth \<le> maxValueDepth"
    and room: "room (h @ b) (decoded_cost (PMap kvs)) d"
    and IH: "\<And>d rest. room b (sum_list (map (\<lambda>(k, v). decoded_cost v) kvs)) d \<Longrightarrow>
      read_entries (depth + 1) (length kvs) [] (at d (b @ rest)) =
        (Inr kvs, at (charge (sum_list (map (\<lambda>(k, v). decoded_cost v) kvs)) d) rest)"
  shows "readValue depth (at d ((h @ b) @ rest)) = (Inr (PMap kvs), at (charge (decoded_cost (PMap kvs)) d) rest)"
proof -
  let ?c = "mapCollectionCost + int (length kvs) * mapEntryCost" and ?s = "sum_list (map (\<lambda>(k, v). decoded_cost v) kvs)"
  have s: "0 \<le> ?s" by (auto intro!: sum_list_nonneg decoded_cost_nonneg)
  have len: "2 * length kvs \<le> length b" using entries by (rule write_entries_length)
  have r: "length kvs \<le> wire32MaxLen" "d_shared d = None" "?c \<le> d_decodedRemaining d" "?c + ?s \<le> d_decodedRemaining d"
    "length b \<le> wire32MaxLen"
    using room s len by (auto simp: room_def)
  note H = ReadMapHeader_at [OF hdr r(1,2) _ r(3), of "b @ rest"]
  have H1: "ReadMapHeader (at d (h @ b @ rest)) = (Inr (length kvs), at (charge ?c d) (b @ rest))"
    using H len by simp
  obtain m t where m: "h = m # t" "markerToType m = TypeMap" using H len by auto
  have "read_entries (depth + 1) (length kvs) [] (at (charge ?c d) (b @ rest)) = (Inr kvs, at (charge ?s (charge ?c d)) rest)"
    using r by (intro IH) (simp add: room_def)
  with H1 show ?thesis using readValue_at [OF depth m(2)] by (simp add: m(1) value_switch_def)
qed

lemma writeValue_eqs:
  assumes "depth \<le> maxValueDepth"
  shows "writeValue depth PNull = Inr WriteNull" "writeValue depth (PBool b) = Inr (WriteBool b)"
    "writeValue depth (PInt i) = Inr (WriteInt i)" "writeValue depth (PFloat i) = Inr (WriteFloat i)"
    "writeValue depth (PBytes s) = WriteBytes s" "writeValue depth (PString s) = WriteString s"
    "writeValue depth (PList vs) = result_bind (WriteListHeader (length vs)) (\<lambda>h.
       result_bind (write_items (depth + 1) vs) (\<lambda>b. Inr (h @ b)))"
    "writeValue depth (PMap kvs) = result_bind (WriteMapHeader (length kvs)) (\<lambda>h.
       result_bind (write_entries (depth + 1) kvs) (\<lambda>b. Inr (h @ b)))"
    "writeValue depth (PStruct tag vs) = result_bind (WriteStructHeader tag (length vs)) (\<lambda>h.
       result_bind (write_items (depth + 1) vs) (\<lambda>b. Inr (h @ b)))"
  using assms by (simp_all add: writeValue.simps)

lemma read_simple_written:
  assumes "writeValue depth v = Inr bs" and "room bs (decoded_cost v) d"
    and "case v of PList _ \<Rightarrow> False | PMap _ \<Rightarrow> False | PStruct _ _ \<Rightarrow> False | _ \<Rightarrow> True"
  shows "readValue depth (at d (bs @ rest)) = (Inr v, at (charge (decoded_cost v) d) rest)"
proof -
  have depth: "depth \<le> maxValueDepth" using assms(1) by (auto simp: writeValue.simps [of depth v] split: if_splits)
  have shared: "d_shared d = None" and len: "length bs \<le> wire32MaxLen" using assms(2) by (simp_all add: room_def)
  show ?thesis
  proof (cases v)
    case PNull
    then have "bs = [0xC0]" using assms(1) depth by (simp add: writeValue_eqs WriteNull_def)
    then show ?thesis using readValue_at [OF depth simple_markers(1)] by (simp add: value_switch_def PNull ReadNull_def)
  next
    case (PBool b)
    then have "bs = (if b then [0xC3] else [0xC2])"
      using assms(1) depth by (simp add: writeValue_eqs WriteBool_def)
    then show ?thesis
      using readValue_at [OF depth simple_markers(3)] readValue_at [OF depth simple_markers(4)]
      by (simp add: value_switch_def PBool ReadBool_def)
  next
    case (PInt i)
    then have bs: "bs = WriteInt i" using assms(1) depth by (simp add: writeValue_eqs)
    obtain b t where b: "WriteInt i = b # t" "markerToType b = TypeInt" using WriteInt_marker by blast
    from ReadInt_at [of d i rest] show ?thesis
      using readValue_at [OF depth b(2)] by (simp add: value_switch_def PInt bs b(1))
  next
    case (PFloat f)
    then have "bs = 0xC1 # put_be64 f" using assms(1) depth by (simp add: writeValue_eqs WriteFloat_def)
    then show ?thesis using readValue_at [OF depth simple_markers(2)] by (simp add: value_switch_def PFloat ReadFloat_def)
  next
    case (PBytes b)
    then have w: "WriteBytes b = Inr bs" using assms(1) depth by (simp add: writeValue_eqs)
    then have "length b \<le> wire32MaxLen" using len by (auto simp: WriteBytes_def result_bind_eq_Inr_iff)
    note R = ReadBytes_at [OF w this shared, of rest]
    then obtain m t where "bs = m # t" "markerToType m = TypeBytes" by blast
    with R show ?thesis using readValue_at [OF depth, of m] by (simp add: value_switch_def PBytes)
  next
    case (PString s)
    then have w: "WriteString s = Inr bs" using assms(1) depth by (simp add: writeValue_eqs)
    then have "length s \<le> wire32MaxLen" using len WriteString_length [OF w] by simp
    note R = ReadString_at [OF w this shared, of rest]
    then obtain m t where "bs = m # t" "markerToType m = TypeString" by blast
    with R show ?thesis using readValue_at [OF depth, of m] by (simp add: value_switch_def PString)
  qed (use assms(3) in simp_all)
qed

lemma room_append:
  "room (a @ b) (i + j) d \<Longrightarrow> 0 \<le> i \<Longrightarrow> 0 \<le> j \<Longrightarrow> room a i d \<and> room b j (charge i d)"
  by (auto simp: room_def)

lemma read_written:
  "writeValue depth v = Inr bs \<Longrightarrow> wf_value v \<Longrightarrow> room bs (decoded_cost v) d \<Longrightarrow>
     readValue depth (at d (bs @ rest)) = (Inr v, at (charge (decoded_cost v) d) rest)"
  "write_items depth vs = Inr bs \<Longrightarrow> list_all wf_value vs \<Longrightarrow> room bs (sum_list (map decoded_cost vs)) d \<Longrightarrow>
     read_items depth (length vs) (at d (bs @ rest)) = (Inr vs, at (charge (sum_list (map decoded_cost vs)) d) rest)"
  "write_entries depth kvs = Inr bs \<Longrightarrow> list_all (\<lambda>(k, v). wf_value v) kvs \<Longrightarrow> distinct (map fst (m @ kvs)) \<Longrightarrow>
     room bs (sum_list (map (\<lambda>(k, v). decoded_cost v) kvs)) d \<Longrightarrow>
     read_entries depth (length kvs) m (at d (bs @ rest)) =
       (Inr (m @ kvs), at (charge (sum_list (map (\<lambda>(k, v). decoded_cost v) kvs)) d) rest)"
proof (induction depth v and depth vs and depth kvs arbitrary: bs d rest and bs d rest and bs d rest m
    rule: writeValue_write_items_write_entries.induct)
  case (1 depth v)
  have depth: "depth \<le> maxValueDepth" using 1(4) by (auto simp: writeValue.simps [of depth v] split: if_splits)
  then have nd: "\<not> depth > maxValueDepth" by simp
  show ?case
  proof (cases v)
    case (PList vs)
    with 1(4) depth obtain h b where p: "WriteListHeader (length vs) = Inr h" "write_items (depth + 1) vs = Inr b" "bs = h @ b"
      by (auto simp: writeValue_eqs result_bind_eq_Inr_iff)
    show ?thesis unfolding PList p(3)
    proof (rule read_list_written [OF p(1,2) depth])
      show "room (h @ b) (decoded_cost (PList vs)) d" using 1(6) PList p(3) by simp
      show wf: "list_all wf_value vs" using 1(5) PList by simp
      show "read_items (depth + 1) (length vs) (at d (b @ rest)) = (Inr vs, at (charge (sum_list (map decoded_cost vs)) d) rest)"
        if "room b (sum_list (map decoded_cost vs)) d" for d rest
        by (rule 1(1) [OF nd PList p(1) p(2) wf that])
    qed
  next
    case (PMap kvs)
    with 1(4) depth obtain h b where p: "WriteMapHeader (length kvs) = Inr h" "write_entries (depth + 1) kvs = Inr b" "bs = h @ b"
      by (auto simp: writeValue_eqs result_bind_eq_Inr_iff)
    have wf: "list_all (\<lambda>(k, v). wf_value v) kvs" "distinct (map fst ([] @ kvs))" using 1(5) PMap by simp_all
    show ?thesis unfolding PMap p(3)
    proof (rule read_map_written [OF p(1,2) depth])
      show "room (h @ b) (decoded_cost (PMap kvs)) d" using 1(6) PMap p(3) by simp
      show "read_entries (depth + 1) (length kvs) [] (at d (b @ rest)) =
          (Inr kvs, at (charge (sum_list (map (\<lambda>(k, v). decoded_cost v) kvs)) d) rest)"
        if "room b (sum_list (map (\<lambda>(k, v). decoded_cost v) kvs)) d" for d rest
        using 1(2) [OF nd PMap p(1) p(2) wf that] by simp
    qed
  next
    case (PStruct tag vs)
    with 1(4) depth obtain h b where p: "WriteStructHeader tag (length vs) = Inr h" "write_items (depth + 1) vs = Inr b" "bs = h @ b"
      by (auto simp: writeValue_eqs result_bind_eq_Inr_iff)
    have wf: "list_all wf_value vs" using 1(5) PStruct by simp
    show ?thesis unfolding PStruct p(3)
    proof (rule read_struct_written [OF p(1,2) depth])
      show "room (h @ b) (decoded_cost (PStruct tag vs)) d" using 1(6) PStruct p(3) by simp
      show "read_items (depth + 1) (length vs) (at d (b @ rest)) = (Inr vs, at (charge (sum_list (map decoded_cost vs)) d) rest)"
        if "room b (sum_list (map decoded_cost vs)) d" for d rest
        by (rule 1(3) [OF nd PStruct p(1) p(2) wf that])
    qed
  qed (use read_simple_written [OF 1(4,6)] in simp_all)
next
  case (3 depth v vs)
  then obtain b bs' where p: "writeValue depth v = Inr b" "write_items depth vs = Inr bs'" "bs = b @ bs'"
    by (auto simp: result_bind_eq_Inr_iff)
  have nonneg: "0 \<le> sum_list (map decoded_cost vs)" by (auto intro!: sum_list_nonneg decoded_cost_nonneg)
  have r: "room b (decoded_cost v) d" "room bs' (sum_list (map decoded_cost vs)) (charge (decoded_cost v) d)"
    using room_append [of b bs' "decoded_cost v" _ d] 3(5) nonneg decoded_cost_nonneg [of v] by (simp_all add: p(3))
  have wf: "wf_value v" "list_all wf_value vs" using 3(4) by simp_all
  from 3(1) [OF p(1) wf(1) r(1), of "bs' @ rest"] 3(2) [OF p(1,2) wf(2) r(2), of rest]
  show ?case by (simp add: p(3))
next
  case (5 depth k v kvs)
  then obtain kb b bs' where p: "WriteString k = Inr kb" "writeValue depth v = Inr b"
    "write_entries depth kvs = Inr bs'" "bs = kb @ b @ bs'"
    by (auto simp: result_bind_eq_Inr_iff)
  let ?s = "sum_list (map (\<lambda>(k, v). decoded_cost v) kvs)"
  have nonneg: "0 \<le> ?s" by (auto intro!: sum_list_nonneg decoded_cost_nonneg)
  have "room (b @ bs') (decoded_cost v + ?s) d" using 5(6) by (auto simp: room_def p(4))
  then have r: "room b (decoded_cost v) d" "room bs' ?s (charge (decoded_cost v) d)"
    using room_append nonneg decoded_cost_nonneg [of v] by blast+
  have k: "length k \<le> wire32MaxLen" "d_shared d = None"
    using 5(6) WriteString_length [OF p(1)] by (auto simp: room_def p(4))
  have K: "ReadString (at d (kb @ b @ bs' @ rest)) = (Inr k, at d (b @ bs' @ rest))"
    using ReadString_at [OF p(1) k] by blast
  have wf: "wf_value v" "list_all (\<lambda>(k, v). wf_value v) kvs" using 5(4) by simp_all
  have new: "map_set k v m = m @ [(k, v)]" using 5(5) by (intro map_set_new) auto
  have dist: "distinct (map fst ((m @ [(k, v)]) @ kvs))" using 5(5) by simp
  from K 5(1) [OF p(1,2) wf(1) r(1), of "bs' @ rest"] 5(2) [OF p(1,2,3) wf(2) dist r(2), of rest]
  show ?case by (simp add: p(4) new)
qed simp_all

subsection \<open>What any decode keeps\<close>

definition pool_total :: "decoder \<Rightarrow> int option" where
  "pool_total d = map_option (\<lambda>p. p + d_poolHeld d) (d_shared d)"

definition pool_ok :: "decoder \<Rightarrow> bool" where
  "pool_ok d \<longleftrightarrow> 0 \<le> d_poolAvail d \<and> d_poolAvail d \<le> d_poolHeld d
     \<and> (case d_shared d of None \<Rightarrow> True | Some p \<Rightarrow> 0 \<le> p)"

definition frame :: "decoder \<Rightarrow> decoder \<Rightarrow> bool" where
  "frame d d' \<longleftrightarrow>
     (\<exists>n \<le> length (d_src d). d_src d' = drop n (d_src d))
     \<and> (d_remaining d = int (length (d_src d)) \<longrightarrow> d_remaining d' = int (length (d_src d')))
     \<and> d_decodedRemaining d' \<le> d_decodedRemaining d \<and> (0 \<le> d_decodedRemaining d \<longrightarrow> 0 \<le> d_decodedRemaining d')
     \<and> pool_total d' = pool_total d \<and> (pool_ok d \<longrightarrow> pool_ok d')"

definition keeps :: "'a dec \<Rightarrow> bool" where
  "keeps m \<longleftrightarrow> (\<forall>d. frame d (snd (m d)))"

lemma frame_refl [simp]: "frame d d"
  by (auto simp: frame_def)

lemma frame_trans:
  assumes de: "frame d e" and ef: "frame e f"
  shows "frame d f"
proof -
  obtain n where n: "n \<le> length (d_src d)" "d_src e = drop n (d_src d)" using de unfolding frame_def by blast
  obtain k where k: "k \<le> length (d_src e)" "d_src f = drop k (d_src e)" using ef unfolding frame_def by blast
  have "k + n \<le> length (d_src d)" "d_src f = drop (k + n) (d_src d)" using n k by simp_all
  then have "\<exists>j \<le> length (d_src d). d_src f = drop j (d_src d)" by blast
  then show ?thesis using de ef unfolding frame_def by simp
qed

lemma keepsD: "keeps m \<Longrightarrow> m d = (r, d') \<Longrightarrow> frame d d'"
  by (metis keeps_def snd_conv)

lemma keeps_dbind [intro]: "keeps m \<Longrightarrow> (\<And>x. keeps (f x)) \<Longrightarrow> keeps (dbind m f)"
  unfolding keeps_def
proof
  fix d assume m: "\<forall>d. frame d (snd (m d))" and f: "\<And>x. \<forall>d. frame d (snd (f x d))"
  obtain r d' where r: "m d = (r, d')" by (cases "m d")
  from m r have "frame d d'" by (metis snd_conv)
  with f r show "frame d (snd (dbind m f d))" by (cases r) (auto simp: dbind_def intro: frame_trans)
qed

lemma keeps_simple [intro, simp]: "keeps (dreturn x)" "keeps (dfail e)"
  by (simp_all add: keeps_def)

lemma keeps_if [intro]: "keeps a \<Longrightarrow> keeps b \<Longrightarrow> keeps (if c then a else b)"
  by simp

lemma frame_consume: "n \<le> length (d_src d) \<Longrightarrow> frame d (consume n d)"
  by (auto simp: frame_def consume_def pool_total_def pool_ok_def unknownRemaining_def)

lemma keeps_reads [intro, simp]: "keeps readByte" "keeps (readFull n)"
  by (auto simp: keeps_def readByte_def readFull_def intro!: frame_consume split: list.splits)

lemma frame_reserveShared: "frame d (snd (reserveShared k d))"
proof (cases "d_shared d")
  case None
  then show ?thesis by (simp add: reserveShared_def)
next
  case (Some p)
  have take: "frame d (d\<lparr>d_shared := Some (p - c), d_poolHeld := d_poolHeld d + c, d_poolAvail := d_poolAvail d + c - k\<rparr>)"
    if "k - d_poolAvail d \<le> c" "c \<le> p" "0 < k" "0 < c" for c
    using that Some by (auto simp: frame_def pool_total_def pool_ok_def)
  have "frame d (d\<lparr>d_poolAvail := d_poolAvail d - k\<rparr>)" if "k \<le> d_poolAvail d" "0 < k"
    using that Some by (auto simp: frame_def pool_total_def pool_ok_def)
  with take take [of "k - d_poolAvail d"] Some show ?thesis
    by (auto simp: reserveShared_def tryReserve_def Let_def inboundReserveChunk_def not_le not_less)
qed

lemma keeps_reserveShared [intro, simp]: "keeps (reserveShared k)"
  by (simp add: keeps_def frame_reserveShared)

lemma reserveShared_decoded: "d_decodedRemaining (snd (reserveShared k d)) = d_decodedRemaining d \<and> d_src (snd (reserveShared k d)) = d_src d"
  by (auto simp: reserveShared_def tryReserve_def Let_def split: option.splits)

lemma frame_charge:
  assumes "0 \<le> r - int n * e" and "0 \<le> int n * e" and "0 \<le> k" and "r = d_decodedRemaining d - k"
  shows "frame d (d\<lparr>d_decodedRemaining := r - int n * e\<rparr>)"
  using assms by (auto simp: frame_def pool_total_def pool_ok_def)

lemma chargeDecoded_frame:
  assumes "0 < perElem" and "0 \<le> baseCost"
  shows "frame d (snd (chargeDecoded n perElem baseCost d))"
    and "chargeDecoded n perElem baseCost d = (Inr (), d') \<Longrightarrow>
      d_src d' = d_src d \<and> d_decodedRemaining d' = d_decodedRemaining d - baseCost - int n * perElem"
proof -
  let ?rem = "d_decodedRemaining d - baseCost"
  obtain r e where re: "reserveShared (baseCost + int n * perElem) d = (r, e)"
    by (cases "reserveShared (baseCost + int n * perElem) d")
  have e: "frame d e" "d_decodedRemaining e = d_decodedRemaining d" "d_src e = d_src d"
    using frame_reserveShared [of d "baseCost + int n * perElem"]
      reserveShared_decoded [of "baseCost + int n * perElem" d] re by simp_all
  have fit: "0 \<le> ?rem - int n * perElem" if "\<not> (?rem < 0 \<or> int n > ?rem div perElem)"
  proof -
    have "int n * perElem \<le> ?rem div perElem * perElem" using that assms(1) by (intro mult_right_mono) auto
    also have "\<dots> \<le> ?rem" using assms(1) by (simp add: minus_mod_eq_div_mult [symmetric])
    finally show ?thesis by simp
  qed
  show "frame d (snd (chargeDecoded n perElem baseCost d))"
  proof (cases "?rem < 0 \<or> int n > ?rem div perElem")
    case True
    then show ?thesis by (simp add: chargeDecoded_def Let_def)
  next
    case False
    have "frame e (e\<lparr>d_decodedRemaining := ?rem - int n * perElem\<rparr>)"
      using fit [OF False] assms e(2) by (intro frame_charge) auto
    then have "frame d (e\<lparr>d_decodedRemaining := ?rem - int n * perElem\<rparr>)" using e(1) frame_trans by blast
    with False re e(1) show ?thesis by (cases r) (auto simp: chargeDecoded_def Let_def dbind_def)
  qed
  assume "chargeDecoded n perElem baseCost d = (Inr (), d')"
  then show "d_src d' = d_src d \<and> d_decodedRemaining d' = d_decodedRemaining d - baseCost - int n * perElem"
    using re e by (cases r) (auto simp: chargeDecoded_def Let_def dbind_def split: if_splits)
qed

lemma keeps_chargeDecoded [intro]: "0 < perElem \<Longrightarrow> 0 \<le> baseCost \<Longrightarrow> keeps (chargeDecoded n perElem baseCost)"
  by (simp add: keeps_def chargeDecoded_frame(1))

lemma cost_signs [simp]: "0 < listElemCost" "0 \<le> collectionCost" "0 < mapEntryCost" "0 \<le> mapCollectionCost"
  by (simp_all add: listElemCost_def collectionCost_def mapEntryCost_def mapCollectionCost_def)

lemma keeps_guard [intro]: "keeps m \<Longrightarrow> keeps (\<lambda>d. if P d then (Inl e, d) else m d)"
  by (auto simp: keeps_def)

lemma keeps_lengths [intro, simp]: "keeps readLen32" "keeps (read_sized a b c x)" "keeps (read_count t a b c x)"
proof -
  show r: "keeps readLen32" unfolding readLen32_def Let_def by (intro keeps_dbind keeps_if keeps_reads keeps_simple)
  then show s: "keeps (read_sized a b c x)"
    unfolding read_sized_def by (intro keeps_if keeps_dbind keeps_reads keeps_simple)
  then show "keeps (read_count t a b c x)" unfolding read_count_def by (intro keeps_if keeps_simple)
qed

lemma keeps_payload [intro, simp]: "keeps (read_payload n)"
  unfolding read_payload_def by (intro keeps_guard keeps_dbind) simp_all

lemma keeps_primitives [intro, simp]:
  "keeps PeekType" "keeps ReadNull" "keeps ReadBool" "keeps ReadInt" "keeps ReadFloat" "keeps ReadBytes"
  "keeps ReadString" "keeps ReadListHeader" "keeps ReadMapHeader" "keeps ReadStructHeader"
  unfolding ReadNull_def ReadBool_def ReadInt_def ReadFloat_def ReadBytes_def ReadString_def
    ReadListHeader_def ReadMapHeader_def ReadStructHeader_def Let_def
           apply (auto simp: keeps_def PeekType_def split: list.splits) [1]
  by (intro keeps_dbind keeps_if keeps_guard keeps_reads keeps_simple keeps_lengths keeps_payload keeps_chargeDecoded
      cost_signs)+

lemma primitive_frames [simp]:
  "frame d (snd (ReadNull d))" "frame d (snd (ReadBool d))" "frame d (snd (ReadInt d))" "frame d (snd (ReadFloat d))"
  "frame d (snd (ReadBytes d))" "frame d (snd (ReadString d))"
  using keeps_primitives by (simp_all add: keeps_def)

lemma keeps_read_values:
  "frame d (snd (readValue depth d))" "frame d (snd (read_items depth n d))" "frame d (snd (read_entries depth n m d))"
proof (induction depth d and depth n d and depth n m d rule: readValue_read_items_read_entries.induct)
  case (1 depth d)
  show ?case
  proof (cases "depth > maxValueDepth")
    case True
    then show ?thesis by (simp add: readValue.simps)
  next
    case False
    obtain r d0 where peek: "PeekType d = (r, d0)" by (cases "PeekType d")
    have step: "frame e (snd (dbind m f e))"
      if "keeps m" "\<And>x e'. m e = (Inr x, e') \<Longrightarrow> frame e' (snd (f x e'))" for m :: "'x dec" and f :: "'x \<Rightarrow> pvalue dec" and e
    proof -
      obtain q e' where q: "m e = (q, e')" by (cases "m e")
      have "frame e e'" using keepsD [OF that(1) q] .
      with that(2) q show ?thesis by (cases q) (auto simp: dbind_def intro: frame_trans)
    qed
    have peeked: "frame d d0" using keepsD [OF keeps_primitives(1) peek] .
    have simple: "frame e (snd (dbind m (\<lambda>x. dreturn (g x)) e))" if "keeps m" for m :: "'x dec" and g :: "'x \<Rightarrow> pvalue" and e
      using that by (intro step) simp_all
    have tail: "frame e (snd (dbind m (\<lambda>x. dreturn (g x)) e))" if "frame e (snd (m e))" for m :: "'x dec" and g :: "'x \<Rightarrow> pvalue" and e
      using that by (cases "m e" rule: prod.exhaust; cases "fst (m e)") (auto simp: dbind_def)
    show ?thesis
    proof (cases r)
      case (Inl e)
      then show ?thesis using False peek peeked by (simp add: readValue_switch)
    next
      case (Inr t)
      note IH = 1 [OF False]
      have "frame d0 (snd (value_switch depth t d0))"
        unfolding value_switch_def using IH peek Inr
        by (cases t) (auto intro!: simple step tail split: prod.splits)
      then show ?thesis using False peek peeked Inr by (auto simp: readValue_switch intro: frame_trans)
    qed
  qed
next
  case (3 depth n d)
  obtain r e where r: "readValue depth d = (r, e)" by (cases "readValue depth d")
  have "frame d e" using 3(1) r by simp
  moreover have "frame e (snd (dbind (read_items depth n) (\<lambda>vs. dreturn (v # vs)) e))" if "r = Inr v" for v
    using 3(2) r that by (cases "read_items depth n e" rule: prod.exhaust; cases "fst (read_items depth n e)") (auto simp: dbind_def)
  ultimately show ?case using r by (cases r) (auto intro: frame_trans)
next
  case (5 depth n m d)
  obtain kr e where k: "ReadString d = (kr, e)" by (cases "ReadString d")
  have e: "frame d e" using keepsD [OF keeps_primitives(7) k] .
  show ?case
  proof (cases kr)
    case (Inl x)
    then show ?thesis using k e by simp
  next
    case (Inr key)
    obtain r e2 where r: "readValue depth e = (r, e2)" by (cases "readValue depth e")
    have "frame e e2" using 5(1) k Inr r by fastforce
    moreover have "frame e2 (snd (read_entries depth n (map_set key v m) e2))" if "r = Inr v" for v
      using 5(2) k Inr r that by blast
    ultimately show ?thesis using k e Inr r by (cases r) (auto intro: frame_trans)
  qed
qed simp_all

subsection \<open>What a decoded value can hold\<close>

text \<open>The bytes of the strings in a value, and its levels of nesting (a scalar is one level).\<close>

fun payload_bytes :: "pvalue \<Rightarrow> nat" where
  "payload_bytes (PBytes b) = length b"
| "payload_bytes (PString s) = length s"
| "payload_bytes (PList vs) = sum_list (map payload_bytes vs)"
| "payload_bytes (PMap kvs) = sum_list (map (\<lambda>(k, v). length k + payload_bytes v) kvs)"
| "payload_bytes (PStruct tag vs) = sum_list (map payload_bytes vs)"
| "payload_bytes _ = 0"

fun levels :: "pvalue \<Rightarrow> nat" where
  "levels (PList vs) = Suc (foldr max (map levels vs) 0)"
| "levels (PMap kvs) = Suc (foldr max (map (\<lambda>(k, v). levels v) kvs) 0)"
| "levels (PStruct tag vs) = Suc (foldr max (map levels vs) 0)"
| "levels _ = 1"

definition spends :: "decoder \<Rightarrow> decoder \<Rightarrow> int \<Rightarrow> nat \<Rightarrow> bool" where
  "spends d d' cost bytes \<longleftrightarrow>
     cost + d_decodedRemaining d' \<le> d_decodedRemaining d \<and> bytes + length (d_src d') \<le> length (d_src d)"

lemma spends_trans: "spends d e a m \<Longrightarrow> spends e f b n \<Longrightarrow> spends d f (a + b) (m + n)"
  by (simp add: spends_def)

lemma frame_spends: "frame d d' \<Longrightarrow> spends d d' 0 0"
  by (auto simp: frame_def spends_def)

lemma keeps_spends: "keeps m \<Longrightarrow> m d = (r, d') \<Longrightarrow> spends d d' 0 0"
  by (rule frame_spends) (rule keepsD)

lemma read_payload_spends:
  assumes "read_payload n d = (Inr bs, d')"
  shows "spends d d' 0 (length bs)"
proof -
  from assms have "dbind (reserveShared (int n)) (\<lambda>_. readFull n) d = (Inr bs, d')"
    by (simp add: read_payload_def split: if_splits)
  then obtain e where e: "reserveShared (int n) d = (Inr (), e)" "readFull n e = (Inr bs, d')"
    by (auto simp: dbind_eq_Inr)
  have "spends d e 0 0" using keeps_spends [OF keeps_reserveShared e(1)] .
  moreover have "spends e d' 0 (length bs)"
    using e(2) by (auto simp: readFull_def spends_def consume_def split: if_splits)
  ultimately show ?thesis using spends_trans by fastforce
qed

lemma ReadString_spends:
  assumes "ReadString d = (Inr s, d')"
  shows "spends d d' 0 (length s)"
proof -
  from assms obtain b d1 n d2 where b: "readByte d = (Inr b, d1)" and n: "read_count 0x80 0xD0 0xD1 0xD2 b d1 = (Inr n, d2)"
    and s: "(if n = 0 then dreturn [] else read_payload n) d2 = (Inr s, d')"
    unfolding ReadString_def dbind_eq_Inr by blast
  have "spends d2 d' 0 (length s)"
    using s read_payload_spends by (auto simp: spends_def split: if_splits)
  then show ?thesis
    using spends_trans [OF spends_trans [OF keeps_spends [OF keeps_reads(1) b] keeps_spends [OF keeps_lengths(3) n]]]
    by fastforce
qed

lemma ReadBytes_spends:
  assumes "ReadBytes d = (Inr s, d')"
  shows "spends d d' 0 (length s)"
proof -
  from assms obtain b d1 n d2 where b: "readByte d = (Inr b, d1)" and n: "read_sized 0xCC 0xCD 0xCE b d1 = (Inr n, d2)"
    and s: "read_payload n d2 = (Inr s, d')"
    unfolding ReadBytes_def dbind_eq_Inr by blast
  from spends_trans [OF spends_trans [OF keeps_spends [OF keeps_reads(1) b] keeps_spends [OF keeps_lengths(2) n]]
      read_payload_spends [OF s]]
  show ?thesis by simp
qed

text \<open>A header that is accepted charges its collection in full.\<close>

lemma charged_header:
  assumes "(if c then (Inl e, d) else dbind (chargeDecoded n perElem baseCost) (\<lambda>_. dreturn y) d) = (Inr x, d')"
    and "0 < perElem" and "0 \<le> baseCost"
  shows "x = y \<and> spends d d' (baseCost + int n * perElem) 0"
proof -
  from assms(1) have "dbind (chargeDecoded n perElem baseCost) (\<lambda>_. dreturn y) d = (Inr x, d')"
    by (simp split: if_splits)
  then have "chargeDecoded n perElem baseCost d = (Inr (), d')" "x = y" by (auto simp: dbind_eq_Inr)
  with chargeDecoded_frame(2) [OF assms(2,3) this(1)] show ?thesis by (simp add: spends_def)
qed

lemma ReadListHeader_spends:
  assumes "ReadListHeader d = (Inr n, d')"
  shows "spends d d' (collectionCost + int n * listElemCost) 0"
proof -
  from assms obtain b d1 k d2 where b: "readByte d = (Inr b, d1)" and k: "read_count 0x90 0xD4 0xD5 0xD6 b d1 = (Inr k, d2)"
    and c: "(if int k > budget d2 then (Inl ErrLengthExceedsInput, d2)
             else dbind (chargeDecoded k listElemCost collectionCost) (\<lambda>_. dreturn k) d2) = (Inr n, d')"
    unfolding ReadListHeader_def dbind_eq_Inr by blast
  from charged_header [OF c] have "n = k \<and> spends d2 d' (collectionCost + int k * listElemCost) 0" by simp
  with spends_trans [OF spends_trans [OF keeps_spends [OF keeps_reads(1) b] keeps_spends [OF keeps_lengths(3) k]]]
  show ?thesis by fastforce
qed

lemma ReadMapHeader_spends:
  assumes "ReadMapHeader d = (Inr n, d')"
  shows "spends d d' (mapCollectionCost + int n * mapEntryCost) 0"
proof -
  from assms obtain b d1 k d2 where b: "readByte d = (Inr b, d1)" and k: "read_count 0xA0 0xD8 0xD9 0xDA b d1 = (Inr k, d2)"
    and c: "(if int k > budget d2 div 2 then (Inl ErrLengthExceedsInput, d2)
             else dbind (chargeDecoded k mapEntryCost mapCollectionCost) (\<lambda>_. dreturn k) d2) = (Inr n, d')"
    unfolding ReadMapHeader_def dbind_eq_Inr by blast
  from charged_header [OF c] have "n = k \<and> spends d2 d' (mapCollectionCost + int k * mapEntryCost) 0" by simp
  with spends_trans [OF spends_trans [OF keeps_spends [OF keeps_reads(1) b] keeps_spends [OF keeps_lengths(3) k]]]
  show ?thesis by fastforce
qed

lemma ReadStructHeader_spends:
  assumes "ReadStructHeader d = (Inr (tag, n), d')"
  shows "spends d d' (collectionCost + int n * listElemCost) 0"
proof -
  from assms obtain b d1 where b: "readByte d = (Inr b, d1)"
    and r: "(if \<not> (0xB0 \<le> b \<and> b \<le> 0xBF) then dfail ErrMarker
      else dbind readByte (\<lambda>tag d. let n = unat (b AND 0x0F)
       in if int n > budget d then (Inl ErrLengthExceedsInput, d)
          else dbind (chargeDecoded n listElemCost collectionCost) (\<lambda>_. dreturn (tag, n)) d)) d1 = (Inr (tag, n), d')"
    unfolding ReadStructHeader_def dbind_eq_Inr by blast
  let ?k = "unat (b AND 0x0F)"
  from r have "dbind readByte (\<lambda>tag d. let n = unat (b AND 0x0F)
       in if int n > budget d then (Inl ErrLengthExceedsInput, d)
          else dbind (chargeDecoded n listElemCost collectionCost) (\<lambda>_. dreturn (tag, n)) d) d1 = (Inr (tag, n), d')"
    by (simp split: if_splits)
  then obtain t d2 where t: "readByte d1 = (Inr t, d2)"
    and c: "(if int ?k > budget d2 then (Inl ErrLengthExceedsInput, d2)
             else dbind (chargeDecoded ?k listElemCost collectionCost) (\<lambda>_. dreturn (t, ?k)) d2) = (Inr (tag, n), d')"
    unfolding dbind_eq_Inr Let_def by blast
  from charged_header [OF c] have "n = ?k \<and> spends d2 d' (collectionCost + int ?k * listElemCost) 0" by simp
  with spends_trans [OF spends_trans [OF keeps_spends [OF keeps_reads(1) b] keeps_spends [OF keeps_reads(1) t]]]
  show ?thesis by fastforce
qed

text \<open>A decoded value has spent its cost, its bytes are in the input, and its nesting is bounded.\<close>

lemma foldr_max_le: "foldr max xs 0 \<le> (n::nat) \<longleftrightarrow> (\<forall>x \<in> set xs. x \<le> n)"
  by (induction xs) auto

lemma map_set_bounds:
  fixes c :: "pvalue \<Rightarrow> int" and h :: "pvalue \<Rightarrow> nat"
  assumes "\<And>v. 0 \<le> c v"
  shows "length (map_set k v m) \<le> Suc (length m)"
    and "sum_list (map (\<lambda>(k, v). c v) (map_set k v m)) \<le> sum_list (map (\<lambda>(k, v). c v) m) + c v"
    and "sum_list (map (\<lambda>(k, v). length k + h v) (map_set k v m)) \<le> sum_list (map (\<lambda>(k, v). length k + h v) m) + length k + h v"
    and "(\<forall>(k, v) \<in> set m. Q v) \<Longrightarrow> Q v \<Longrightarrow> \<forall>(k, v) \<in> set (map_set k v m). Q v"
  using assms unfolding map_set_def by (induction m) (auto simp: add.commute add.left_commute add_increasing2 intro: order_trans)

definition value_in :: "nat \<Rightarrow> decoder \<Rightarrow> decoder \<Rightarrow> pvalue \<Rightarrow> bool" where
  "value_in depth d d' v \<longleftrightarrow> spends d d' (decoded_cost v) (payload_bytes v) \<and> levels v + depth \<le> maxValueDepth + 1"

lemma scalar_in:
  assumes "keeps m" and "dbind m (\<lambda>x. dreturn (g x)) d = (Inr v, d')" and "depth \<le> maxValueDepth"
    and "\<And>x. decoded_cost (g x) = 0 \<and> payload_bytes (g x) = 0 \<and> levels (g x) = 1"
  shows "value_in depth d d' v"
  using assms keeps_spends [OF assms(1)] by (auto simp: dbind_eq_Inr value_in_def)

lemma string_in:
  assumes "\<And>s d'. m d = (Inr s, d') \<Longrightarrow> spends d d' 0 (length s)"
    and "dbind m (\<lambda>x. dreturn (g x)) d = (Inr v, d')" and "depth \<le> maxValueDepth"
    and "\<And>x. decoded_cost (g x) = 0 \<and> payload_bytes (g x) = length x \<and> levels (g x) = 1"
  shows "value_in depth d d' v"
  using assms by (auto simp: dbind_eq_Inr value_in_def)

definition items_in :: "nat \<Rightarrow> decoder \<Rightarrow> decoder \<Rightarrow> nat \<Rightarrow> pvalue list \<Rightarrow> bool" where
  "items_in depth d d' n vs \<longleftrightarrow> length vs = n
     \<and> spends d d' (sum_list (map decoded_cost vs)) (sum_list (map payload_bytes vs))
     \<and> (\<forall>v \<in> set vs. levels v + depth \<le> maxValueDepth + 1)"

definition entries_in :: "nat \<Rightarrow> decoder \<Rightarrow> decoder \<Rightarrow> nat \<Rightarrow> (bytes \<times> pvalue) list \<Rightarrow> (bytes \<times> pvalue) list \<Rightarrow> bool" where
  "entries_in depth d d' n m0 m \<longleftrightarrow> length m \<le> length m0 + n
     \<and> spends d d' (sum_list (map (\<lambda>(k, v). decoded_cost v) m) - sum_list (map (\<lambda>(k, v). decoded_cost v) m0)) 0
     \<and> sum_list (map (\<lambda>(k, v). length k + payload_bytes v) m) + length (d_src d')
         \<le> sum_list (map (\<lambda>(k, v). length k + payload_bytes v) m0) + length (d_src d)
     \<and> ((\<forall>(k, v) \<in> set m0. levels v + depth \<le> maxValueDepth + 1) \<longrightarrow>
         (\<forall>(k, v) \<in> set m. levels v + depth \<le> maxValueDepth + 1))"

lemma levels_children:
  assumes "depth \<le> maxValueDepth"
  shows "levels (PList vs) + depth \<le> maxValueDepth + 1 \<longleftrightarrow> (\<forall>v \<in> set vs. levels v + (depth + 1) \<le> maxValueDepth + 1)"
    and "levels (PStruct tag vs) + depth \<le> maxValueDepth + 1 \<longleftrightarrow> (\<forall>v \<in> set vs. levels v + (depth + 1) \<le> maxValueDepth + 1)"
    and "levels (PMap m) + depth \<le> maxValueDepth + 1 \<longleftrightarrow> (\<forall>(k, v) \<in> set m. levels v + (depth + 1) \<le> maxValueDepth + 1)"
  using assms foldr_max_le [of "map levels vs" "maxValueDepth - depth"]
    foldr_max_le [of "map (\<lambda>(k, v). levels v) m" "maxValueDepth - depth"]
  by (auto simp: le_diff_conv2)

lemma list_in:
  assumes "spends d e (collectionCost + int n * listElemCost) 0" and "items_in (depth + 1) e d' n vs"
    and "depth \<le> maxValueDepth"
  shows "value_in depth d d' (PList vs)" "value_in depth d d' (PStruct tag vs)"
  using spends_trans [OF assms(1)] assms(2) levels_children [OF assms(3)]
  unfolding value_in_def items_in_def by fastforce+

lemma map_in:
  assumes h: "spends d e (mapCollectionCost + int n * mapEntryCost) 0" and m: "entries_in (depth + 1) e d' n [] m"
    and depth: "depth \<le> maxValueDepth"
  shows "value_in depth d d' (PMap m)"
proof -
  have "int (length m) * mapEntryCost \<le> int n * mapEntryCost"
    using m by (intro mult_right_mono) (auto simp: entries_in_def mapEntryCost_def)
  then have "spends d d' (decoded_cost (PMap m)) (payload_bytes (PMap m))"
    using h m unfolding spends_def entries_in_def decoded_cost.simps payload_bytes.simps list.map sum_list.Nil by linarith
  then show ?thesis using m levels_children(3) [OF depth] by (auto simp: value_in_def entries_in_def)
qed

lemma entries_step:
  assumes k: "spends d e 0 (length k)" and v: "value_in depth e f v"
    and es: "entries_in depth f d' n (map_set k v m0) m"
  shows "entries_in depth d d' (Suc n) m0 m"
proof -
  note b = map_set_bounds [where c = decoded_cost, OF decoded_cost_nonneg]
  have "length m \<le> length m0 + Suc n" using es b(1) [of k v m0] by (simp add: entries_in_def)
  moreover have "\<forall>(k, v) \<in> set m0. levels v + depth \<le> maxValueDepth + 1 \<Longrightarrow>
      \<forall>(k, v) \<in> set m. levels v + depth \<le> maxValueDepth + 1"
    using es v b(4) [of m0 "\<lambda>v. levels v + depth \<le> maxValueDepth + 1" v k] by (simp add: entries_in_def value_in_def)
  ultimately show ?thesis
    using k v es b(2) [of k v m0] b(3) [of payload_bytes k v m0]
    unfolding entries_in_def spends_def value_in_def by linarith
qed

lemma read_values_in:
  "\<And>v d'. readValue depth d = (Inr v, d') \<Longrightarrow> value_in depth d d' v"
  "\<And>vs d'. read_items depth n d = (Inr vs, d') \<Longrightarrow> items_in depth d d' n vs"
  "\<And>m d'. read_entries depth n m0 d = (Inr m, d') \<Longrightarrow> entries_in depth d d' n m0 m"
proof (induction depth d and depth n d and depth n m0 d rule: readValue_read_items_read_entries.induct)
  case (1 depth d)
  have False: "\<not> depth > maxValueDepth" using 1(4) by (auto simp: readValue.simps)
  then have le: "depth \<le> maxValueDepth" by simp
  from 1(4) obtain t d0 where t: "PeekType d = (Inr t, d0)" and sw: "value_switch depth t d0 = (Inr v, d')"
    unfolding readValue_switch [OF le] dbind_eq_Inr by blast
  have d0: "d0 = d" using t by (auto simp: PeekType_def split: list.splits)
  note IH = 1(1-3) [OF False t]
  show ?case
  proof (cases t)
    case TypeNull
    then show ?thesis using sw le by (intro scalar_in [OF keeps_primitives(2)]) (auto simp: value_switch_def d0)
  next
    case TypeBool
    then show ?thesis using sw le by (intro scalar_in [OF keeps_primitives(3)]) (auto simp: value_switch_def d0)
  next
    case TypeInt
    then show ?thesis using sw le by (intro scalar_in [OF keeps_primitives(4)]) (auto simp: value_switch_def d0)
  next
    case TypeFloat
    then show ?thesis using sw le by (intro scalar_in [OF keeps_primitives(5)]) (auto simp: value_switch_def d0)
  next
    case TypeBytes
    then show ?thesis using sw le by (intro string_in [OF ReadBytes_spends]) (auto simp: value_switch_def d0)
  next
    case TypeString
    then show ?thesis using sw le by (intro string_in [OF ReadString_spends]) (auto simp: value_switch_def d0)
  next
    case TypeList
    with sw obtain n e vs where h: "ReadListHeader d0 = (Inr n, e)" and i: "read_items (depth + 1) n e = (Inr vs, d')"
      and v: "v = PList vs" by (auto simp: value_switch_def dbind_eq_Inr)
    have "items_in (depth + 1) e d' n vs" using IH(1) [OF TypeList i] .
    then show ?thesis using list_in(1) [OF ReadListHeader_spends [OF h] _ le] v d0 by simp
  next
    case TypeMap
    with sw obtain n e m where h: "ReadMapHeader d0 = (Inr n, e)" and i: "read_entries (depth + 1) n [] e = (Inr m, d')"
      and v: "v = PMap m" by (auto simp: value_switch_def dbind_eq_Inr)
    have "entries_in (depth + 1) e d' n [] m" using IH(2) [OF TypeMap i] .
    then show ?thesis using map_in [OF ReadMapHeader_spends [OF h] _ le] v d0 by simp
  next
    case TypeStruct
    with sw obtain tag n e vs where h: "ReadStructHeader d0 = (Inr (tag, n), e)"
      and i: "read_items (depth + 1) n e = (Inr vs, d')"
      and v: "v = PStruct tag vs" by (auto simp: value_switch_def dbind_eq_Inr)
    have "items_in (depth + 1) e d' n vs" using IH(3) [OF TypeStruct i] .
    then show ?thesis using list_in(2) [OF ReadStructHeader_spends [OF h] _ le] v d0 by simp
  qed
next
  case (3 depth n d)
  from 3(3) obtain v e ws where v: "readValue depth d = (Inr v, e)" and ws: "read_items depth n e = (Inr ws, d')"
    and vs: "vs = v # ws" by (auto simp: dbind_eq_Inr)
  have "value_in depth d e v" using 3(1) [OF v] .
  moreover have "items_in depth e d' n ws" using 3(2) [OF v ws] .
  ultimately show ?case using spends_trans by (fastforce simp: vs items_in_def value_in_def)
next
  case (5 depth n m0 d)
  from 5(3) obtain k e v f where k: "ReadString d = (Inr k, e)" and v: "readValue depth e = (Inr v, f)"
    and m: "read_entries depth n (map_set k v m0) f = (Inr m, d')" by (auto simp: dbind_eq_Inr)
  show ?case
    using ReadString_spends [OF k] 5(1) [OF k v] 5(2) [OF k v m] by (rule entries_step)
qed (auto simp: items_in_def entries_in_def spends_def)

subsection \<open>Which values have an encoding\<close>

fun encodable :: "pvalue \<Rightarrow> bool" where
  "encodable (PBytes b) \<longleftrightarrow> length b < 2 ^ 32"
| "encodable (PString s) \<longleftrightarrow> length s < 2 ^ 32"
| "encodable (PList vs) \<longleftrightarrow> length vs < 2 ^ 32 \<and> list_all encodable vs"
| "encodable (PMap kvs) \<longleftrightarrow> length kvs < 2 ^ 32 \<and> list_all (\<lambda>(k, v). length k < 2 ^ 32 \<and> encodable v) kvs"
| "encodable (PStruct tag vs) \<longleftrightarrow> length vs \<le> 15 \<and> list_all encodable vs"
| "encodable _ \<longleftrightarrow> True"

definition succeeds :: "(pk_error, 'a) result \<Rightarrow> bool" where
  "succeeds r \<longleftrightarrow> (case r of Inl _ \<Rightarrow> False | Inr _ \<Rightarrow> True)"

lemma succeeds_simps [simp]: "\<not> succeeds (Inl e)" "succeeds (Inr x)"
  by (simp_all add: succeeds_def)

lemma succeeds_bind:
  "succeeds (result_bind r f) \<longleftrightarrow> (\<exists>x. r = Inr x \<and> succeeds (f x))"
  by (cases r) auto

lemma succeeds_iff: "succeeds r \<longleftrightarrow> (\<exists>x. r = Inr x)"
  by (cases r) auto

lemma headers_succeed:
  "succeeds (sized_prefix a b c n) \<longleftrightarrow> n < 2 ^ 32" "succeeds (count_prefix t a b c n) \<longleftrightarrow> n < 2 ^ 32"
  "succeeds (WriteBytes bs) \<longleftrightarrow> length bs < 2 ^ 32" "succeeds (WriteString bs) \<longleftrightarrow> length bs < 2 ^ 32"
  "succeeds (WriteListHeader n) \<longleftrightarrow> n < 2 ^ 32" "succeeds (WriteMapHeader n) \<longleftrightarrow> n < 2 ^ 32"
  "succeeds (WriteStructHeader tag n) \<longleftrightarrow> n \<le> 15"
proof -
  show s: "succeeds (sized_prefix a b c n) \<longleftrightarrow> n < 2 ^ 32" for a b c n
    by (simp add: sized_prefix_def checkUint32Length_def)
  then show c: "succeeds (count_prefix t a b c n) \<longleftrightarrow> n < 2 ^ 32" for t a b c n
    by (simp add: count_prefix_def)
  from s show "succeeds (WriteBytes bs) \<longleftrightarrow> length bs < 2 ^ 32"
    by (simp add: WriteBytes_def succeeds_bind flip: succeeds_iff)
  from c show "succeeds (WriteString bs) \<longleftrightarrow> length bs < 2 ^ 32"
    by (simp add: WriteString_def succeeds_bind flip: succeeds_iff)
  from c show "succeeds (WriteListHeader n) \<longleftrightarrow> n < 2 ^ 32" "succeeds (WriteMapHeader n) \<longleftrightarrow> n < 2 ^ 32"
    by (simp_all add: WriteListHeader_def WriteMapHeader_def)
  show "succeeds (WriteStructHeader tag n) \<longleftrightarrow> n \<le> 15" by (simp add: WriteStructHeader_def)
qed

lemma succeeds_seq:
  "succeeds (result_bind r (\<lambda>x. result_bind (s :: (pk_error, 'b) result) (\<lambda>y. Inr (f x y)))) \<longleftrightarrow> succeeds r \<and> succeeds s"
  by (cases r; cases s) simp_all

lemma write_succeeds:
  "succeeds (writeValue depth v) \<longleftrightarrow> levels v + depth \<le> maxValueDepth + 1 \<and> encodable v"
  "succeeds (write_items depth vs) \<longleftrightarrow> (\<forall>v \<in> set vs. levels v + depth \<le> maxValueDepth + 1 \<and> encodable v)"
  "succeeds (write_entries depth kvs) \<longleftrightarrow>
     (\<forall>(k, v) \<in> set kvs. length k < 2 ^ 32 \<and> levels v + depth \<le> maxValueDepth + 1 \<and> encodable v)"
proof (induction depth v and depth vs and depth kvs rule: writeValue_write_items_write_entries.induct)
  case (1 depth v)
  have pos: "0 < levels v" by (cases v) simp_all
  show ?case
  proof (cases "depth > maxValueDepth")
    case True
    then show ?thesis using pos by (simp add: writeValue.simps)
  next
    case False
    then have le: "depth \<le> maxValueDepth" by simp
    note IH = 1 [OF False]
    show ?thesis
    proof (cases v)
      case (PList vs)
      have eq: "succeeds (writeValue depth v) \<longleftrightarrow> length vs < 2 ^ 32 \<and> succeeds (write_items (depth + 1) vs)"
        using False by (simp add: PList writeValue.simps [of depth] succeeds_seq headers_succeed)
      have "succeeds (write_items (depth + 1) vs) \<longleftrightarrow> (\<forall>v \<in> set vs. levels v + (depth + 1) \<le> maxValueDepth + 1 \<and> encodable v)" if "length vs < 2 ^ 32"
        using that IH(1) [OF PList] headers_succeed(5) [of "length vs"] by (auto simp: succeeds_iff)
      then show ?thesis
        unfolding eq unfolding PList levels_children(1) [OF le] by (auto simp: list_all_iff)
    next
      case (PMap kvs)
      have eq: "succeeds (writeValue depth v) \<longleftrightarrow> length kvs < 2 ^ 32 \<and> succeeds (write_entries (depth + 1) kvs)"
        using False by (simp add: PMap writeValue.simps [of depth] succeeds_seq headers_succeed)
      have "succeeds (write_entries (depth + 1) kvs) \<longleftrightarrow> (\<forall>(k, v) \<in> set kvs. length k < 2 ^ 32 \<and> levels v + (depth + 1) \<le> maxValueDepth + 1 \<and> encodable v)" if "length kvs < 2 ^ 32"
        using that IH(2) [OF PMap] headers_succeed(6) [of "length kvs"] by (auto simp: succeeds_iff)
      then show ?thesis
        unfolding eq unfolding PMap levels_children(3) [OF le] by (auto simp: list_all_iff)
    next
      case (PStruct tag vs)
      have eq: "succeeds (writeValue depth v) \<longleftrightarrow> length vs \<le> 15 \<and> succeeds (write_items (depth + 1) vs)"
        using False by (simp add: PStruct writeValue.simps [of depth] succeeds_seq headers_succeed)
      have "succeeds (write_items (depth + 1) vs) \<longleftrightarrow> (\<forall>v \<in> set vs. levels v + (depth + 1) \<le> maxValueDepth + 1 \<and> encodable v)" if "length vs \<le> 15"
        using that IH(3) [OF PStruct] headers_succeed(7) [of tag "length vs"] by (auto simp: succeeds_iff)
      then show ?thesis
        unfolding eq unfolding PStruct levels_children(2) [OF le] by (auto simp: list_all_iff)
    qed (use le in \<open>auto simp: writeValue.simps [of depth] headers_succeed\<close>)
  qed
next
  case (5 depth k v kvs)
  have "succeeds (write_entries depth ((k, v) # kvs)) \<longleftrightarrow>
      succeeds (WriteString k) \<and> succeeds (writeValue depth v) \<and> succeeds (write_entries depth kvs)"
    by (cases "WriteString k"; cases "writeValue depth v"; cases "write_entries depth kvs") simp_all
  with 5 headers_succeed(4) [of k] show ?case
    by (cases "WriteString k"; cases "writeValue depth v") auto
next
  case (3 depth v vs)
  have "succeeds (write_items depth (v # vs)) \<longleftrightarrow> succeeds (writeValue depth v) \<and> succeeds (write_items depth vs)"
    by (simp add: succeeds_seq)
  with 3 show ?case by (cases "writeValue depth v") auto
qed (auto simp: succeeds_seq)

subsection \<open>Properties\<close>

lemma NewDecoder_at: "NewDecoder src = at (NewDecoder src) src"
  by (simp add: NewDecoder_def at_def)

text \<open>
  Property C22. Round trip of PackStream: a value with distinct map keys that \<open>WriteValue\<close> encodes,
  whose encoding fits the 32-bit length limit and whose collections fit the decoded-size budget, is
  read back by \<open>ReadValue\<close> exactly, whatever bytes follow it, and reading stops right behind it.
\<close>
theorem packstream_round_trip:
  assumes "WriteValue v = Inr bs" and "wf_value v" and "length bs \<le> wire32MaxLen"
    and "decoded_cost v \<le> maxDecodedCollectionBytes"
  shows "fst (ReadValue (NewDecoder (bs @ rest))) = Inr v \<and> d_src (snd (ReadValue (NewDecoder (bs @ rest)))) = rest"
proof -
  have "room bs (decoded_cost v) (NewDecoder (bs @ rest))" using assms(3,4) by (simp add: room_def NewDecoder_def)
  from read_written(1) [OF assms(1) [unfolded WriteValue_def] assms(2) this, of rest] show ?thesis
    by (simp add: ReadValue_def flip: NewDecoder_at)
qed

theorem packstream_round_trip_witness:
  "fst (ReadValue (NewDecoder ([0xA1, 0x81, 0x6B, 0x92, 0xC9, 0xFF, 0x38, 0xC0] @ [7]))) =
     Inr (PMap [([0x6B], PList [PInt (- 200), PNull])])"
proof -
  let ?v = "PMap [([0x6B], PList [PInt (- 200), PNull])]" and ?bs = "[0xA1, 0x81, 0x6B, 0x92, 0xC9, 0xFF, 0x38, 0xC0] :: bytes"
  have be: "be_bytes 2 65336 = [255, 56]" unfolding be_bytes_def numeral_2_eq_2 by simp
  have w: "WriteValue ?v = Inr ?bs"
    by (simp add: WriteValue_def writeValue.simps maxValueDepth_def WriteMapHeader_def WriteListHeader_def WriteString_def
        count_prefix_def WriteInt_def WriteNull_def put_be16_def be)
  have l: "length ?bs \<le> wire32MaxLen" by (simp add: wire32MaxLen_def)
  have c: "decoded_cost ?v \<le> maxDecodedCollectionBytes"
    by (simp add: collectionCost_def listElemCost_def mapCollectionCost_def mapEntryCost_def maxDecodedCollectionBytes_def)
  have "wf_value ?v" by simp
  from packstream_round_trip [OF w this l c, of "[7]"] show ?thesis by (rule conjunct1)
qed

text \<open>
  Property C23. Bounds on what a message can make the server build: whatever the bytes, a value that
  \<open>ReadValue\<close> returns has collections of at most 128 MiB by the decoder's own accounting, holds no
  more string bytes than the message had, and is nested at most 129 levels deep.
\<close>
theorem packstream_decode_bounds:
  assumes "ReadValue (NewDecoder src) = (Inr v, d')"
  shows "decoded_cost v \<le> maxDecodedCollectionBytes \<and> payload_bytes v + length (d_src d') \<le> length src
     \<and> levels v \<le> maxValueDepth + 1"
proof -
  have "value_in 0 (NewDecoder src) d' v" using assms unfolding ReadValue_def by (rule read_values_in(1))
  moreover have "frame (NewDecoder src) d'" using keeps_read_values(1) [of "NewDecoder src" 0] assms by (simp add: ReadValue_def)
  ultimately show ?thesis
    by (auto simp: value_in_def spends_def frame_def NewDecoder_def maxDecodedCollectionBytes_def)
qed

theorem packstream_decode_bounds_witness:
  "\<exists>d'. ReadValue (NewDecoder [0x92, 0x81, 0x61, 0x01]) = (Inr (PList [PString [0x61], PInt 1]), d')
     \<and> payload_bytes (PList [PString [0x61], PInt 1]) + length (d_src d') \<le> 4"
proof -
  let ?d = "NewDecoder [0x92, 0x81, 0x61, 0x01]" and ?v = "PList [PString [0x61], PInt 1]"
  have "fst (ReadValue ?d) = Inr ?v" by code_simp
  then have "ReadValue ?d = (Inr ?v, snd (ReadValue ?d))" by (simp add: prod_eq_iff)
  with packstream_decode_bounds [OF this] show ?thesis by auto
qed

text \<open>
  Property C24. The shared pool is conserved: whatever a decode of whatever bytes ends in, success or
  any error, it never overdraws the server-wide pool of inbound memory, and
  \<open>ReleaseInboundBudget\<close> gives back exactly what the decoder drew.
\<close>
theorem packstream_pool_conserved:
  assumes "0 \<le> pool" and "ReadValue (SetInboundBudget (Some pool) (NewDecoder src)) = (r, d')"
  shows "(\<exists>left. d_shared d' = Some left \<and> 0 \<le> left \<and> left \<le> pool) \<and> fst (ReleaseInboundBudget d') = Some pool"
proof -
  let ?d = "SetInboundBudget (Some pool) (NewDecoder src)"
  have "frame ?d d'" using keeps_read_values(1) [of ?d 0] assms(2) by (simp add: ReadValue_def)
  moreover have "pool_ok ?d" "pool_total ?d = Some pool" using assms(1) by (simp_all add: pool_ok_def pool_total_def SetInboundBudget_def)
  ultimately have "pool_ok d'" "pool_total d' = Some pool" by (simp_all add: frame_def)
  then show ?thesis by (auto simp: pool_ok_def pool_total_def ReleaseInboundBudget_def release_def)
qed

theorem packstream_pool_conserved_witness:
  "\<exists>d'. ReadValue (SetInboundBudget (Some 100) (NewDecoder [0x92, 0x91, 0x01, 0x91, 0x01])) = (Inl ErrInboundBudgetExceeded, d')
     \<and> fst (ReleaseInboundBudget d') = Some 100"
proof -
  let ?d = "SetInboundBudget (Some 100) (NewDecoder [0x92, 0x91, 0x01, 0x91, 0x01])"
  have "fst (ReadValue ?d) = Inl ErrInboundBudgetExceeded" by code_simp
  then have "ReadValue ?d = (Inl ErrInboundBudgetExceeded, snd (ReadValue ?d))" by (simp add: prod_eq_iff)
  with packstream_pool_conserved [OF _ this] show ?thesis by auto
qed

text \<open>
  The encoder refuses exactly the values the format cannot carry: \<open>WriteValue\<close> succeeds
  if and only if the value is nested at most 129 levels, every string and collection is shorter than
  $2^{32}$ and every structure has at most 15 fields.
\<close>
theorem packstream_encodable:
  "(\<exists>bs. WriteValue v = Inr bs) \<longleftrightarrow> levels v \<le> maxValueDepth + 1 \<and> encodable v"
  using write_succeeds(1) [of 0 v] by (simp add: WriteValue_def succeeds_iff)

end
