(* ===== verification/Bolt_Framing.thy ===== *)
theory Bolt_Framing
  imports Packstream
begin

text \<open>
  The transport of the Bolt protocol (\<open>bolt/proto\<close>): the version handshake and the chunked framing of
  messages. A connection is the list of bytes still to be read and the list of bytes written; the only
  read error is the end of the input, and a write never fails. A message is a list of bytes: the
  reader's \<open>msg == nil\<close> is the empty list, since every chunk it appends is non-empty.
\<close>

subsection \<open>Reading chunks\<close>

definition maxChunkSize :: nat where "maxChunkSize = 65535"
definition DefaultMaxMessageBytes :: int where "DefaultMaxMessageBytes = 16 * 2 ^ 20"

text \<open>The flag says whether the payload of the offending chunk could be drained.\<close>

datatype frame_error =
    FrameEOF | ErrFrameLength | ErrFramePayload | ErrChunkTooLong
  | ErrMessageTooLarge bool | ErrFrameBudget bool

record chunked_reader =
  cr_src :: bytes
  cr_budget :: "int option"
  cr_maxMessageBytes :: int

definition NewChunkedReaderWithLimit :: "bytes \<Rightarrow> int \<Rightarrow> chunked_reader" where
  "NewChunkedReaderWithLimit src m =
     \<lparr>cr_src = src, cr_budget = None, cr_maxMessageBytes = (if m \<le> 0 then DefaultMaxMessageBytes else m)\<rparr>"

definition NewChunkedReader :: "bytes \<Rightarrow> chunked_reader" where
  "NewChunkedReader src = NewChunkedReaderWithLimit src DefaultMaxMessageBytes"

definition cr_SetInboundBudget :: "int option \<Rightarrow> chunked_reader \<Rightarrow> chunked_reader" where
  "cr_SetInboundBudget b cr = cr\<lparr>cr_budget := b\<rparr>"

text \<open>\<open>io.CopyN(io.Discard, r, n)\<close>: whether all \<open>n\<close> bytes were there.\<close>

definition discard_n :: "nat \<Rightarrow> chunked_reader \<Rightarrow> bool \<times> chunked_reader" where
  "discard_n n cr = (n \<le> length (cr_src cr), cr\<lparr>cr_src := drop n (cr_src cr)\<rparr>)"

text \<open>The charge of one chunk against the pool: the new pool, or a refusal.\<close>

definition charge_chunk :: "nat \<Rightarrow> chunked_reader \<Rightarrow> (chunked_reader \<times> int) option" where
  "charge_chunk n cr =
     (case cr_budget cr of
        None \<Rightarrow> Some (cr, 0)
      | Some pool \<Rightarrow> (case tryReserve (int n) pool of
          (True, pool') \<Rightarrow> Some (cr\<lparr>cr_budget := Some pool'\<rparr>, int n)
        | (False, _) \<Rightarrow> None))"

text \<open>The loop of \<open>ReadMessage\<close>: its result, the reader, and what was charged.\<close>

function read_chunks :: "bytes \<Rightarrow> int \<Rightarrow> chunked_reader \<Rightarrow> (frame_error, bytes) result \<times> chunked_reader \<times> int" where
  "read_chunks msg charged cr =
     (case read_full 2 (cr_src cr) of
        Inl got \<Rightarrow> ((if msg = [] then Inl FrameEOF else Inl ErrFrameLength), cr\<lparr>cr_src := []\<rparr>, charged)
      | Inr (hdr, src) \<Rightarrow>
          let cr1 = cr\<lparr>cr_src := src\<rparr>; chunkLen = unat (get_be16 hdr)
          in if chunkLen = 0 then (if msg = [] then read_chunks msg charged cr1 else (Inr msg, cr1, charged))
             else if chunkLen > maxChunkSize then (Inl ErrChunkTooLong, cr1, charged)
             else if int (length msg + chunkLen) > cr_maxMessageBytes cr1 then
               (case discard_n chunkLen cr1 of (b, cr2) \<Rightarrow> (Inl (ErrMessageTooLarge b), cr2, charged))
             else case charge_chunk chunkLen cr1 of
               None \<Rightarrow> (case discard_n chunkLen cr1 of (b, cr2) \<Rightarrow> (Inl (ErrFrameBudget b), cr2, charged))
             | Some (cr2, c) \<Rightarrow>
                 (case read_full chunkLen (cr_src cr2) of
                    Inl got \<Rightarrow> (Inl ErrFramePayload, cr2\<lparr>cr_src := []\<rparr>, charged + c)
                  | Inr (payload, src') \<Rightarrow> read_chunks (msg @ payload) (charged + c) (cr2\<lparr>cr_src := src'\<rparr>)))"
  by pat_completeness auto
termination
  by (relation "measure (\<lambda>(msg, charged, cr). length (cr_src cr))")
    (auto simp: read_full_Inr_iff charge_chunk_def split: option.splits prod.splits if_splits bool.splits)

declare read_chunks.simps [simp del]

text \<open>The deferred release gives back what the call charged.\<close>

definition ReadMessage :: "chunked_reader \<Rightarrow> (frame_error, bytes) result \<times> chunked_reader" where
  "ReadMessage cr =
     (case read_chunks [] 0 cr of
        (r, cr', charged) \<Rightarrow>
          (r, if charged > 0 then cr'\<lparr>cr_budget := map_option (release charged) (cr_budget cr')\<rparr> else cr'))"

subsection \<open>Writing chunks\<close>

text \<open>The bytes \<open>WriteMessage\<close> puts on the wire.\<close>

function write_chunks :: "bytes \<Rightarrow> bytes" where
  "write_chunks remaining =
     (if remaining = [] then []
      else let chunk = take maxChunkSize remaining
           in put_be16 (of_nat (length chunk)) @ chunk @ write_chunks (drop (length chunk) remaining))"
  by pat_completeness auto
termination
  by (relation "measure length") (auto simp: maxChunkSize_def)

declare write_chunks.simps [simp del]

definition WriteMessage :: "bytes \<Rightarrow> bytes" where
  "WriteMessage msg = write_chunks msg @ put_be16 0"

subsection \<open>The handshake\<close>

definition Magic :: u32 where "Magic = 0x6060B017"

record Version =
  v_Major :: byte
  v_Minor :: byte

definition SupportedVersions :: "Version list" where
  "SupportedVersions = map (\<lambda>(a, b). \<lparr>v_Major = a, v_Minor = b\<rparr>)
     [(5, 6), (5, 5), (5, 4), (5, 3), (5, 2), (5, 1), (5, 0), (4, 4)]"

record versionOffer =
  o_major :: byte
  o_minor :: byte
  o_minorRange :: byte

datatype handshake_error = ErrHandshakeEOF | ErrBadMagic | ErrNoCommonVersion

definition parse_slot :: "bytes \<Rightarrow> versionOffer option" where
  "parse_slot slot =
     (let major = slot ! 3; minor = slot ! 2; minorRange = slot ! 1
      in if major = 0 \<and> minor = 0 then None
         else Some \<lparr>o_major = major, o_minor = minor, o_minorRange = minorRange\<rparr>)"

definition parse_offers :: "bytes \<Rightarrow> versionOffer list" where
  "parse_offers buf = List.map_filter (\<lambda>i. parse_slot (take 4 (drop (4 + i * 4) buf))) [0..<4]"

definition offer_matches :: "versionOffer \<Rightarrow> Version \<Rightarrow> bool" where
  "offer_matches offer sv \<longleftrightarrow>
     o_major offer = v_Major sv \<and>
     (let minMinor = (if o_minorRange offer \<le> o_minor offer then o_minor offer - o_minorRange offer else 0)
      in minMinor \<le> v_Minor sv \<and> v_Minor sv \<le> o_minor offer)"

text \<open>The agreed version and the four bytes answered; nothing is answered to a bad preamble.\<close>

definition Negotiate :: "bytes \<Rightarrow> (handshake_error, Version) result \<times> bytes" where
  "Negotiate conn =
     (case read_full 20 conn of
        Inl _ \<Rightarrow> (Inl ErrHandshakeEOF, [])
      | Inr (buf, _) \<Rightarrow>
          if get_be32 (take 4 buf) \<noteq> Magic then (Inl ErrBadMagic, [])
          else case find (\<lambda>sv. \<exists>offer \<in> set (parse_offers buf). offer_matches offer sv) SupportedVersions of
                 Some sv \<Rightarrow> (Inr sv, [0, 0, v_Minor sv, v_Major sv])
               | None \<Rightarrow> (Inl ErrNoCommonVersion, [0, 0, 0, 0]))"

subsection \<open>A stream of chunks is reassembled\<close>

definition load :: "chunked_reader \<Rightarrow> bytes \<Rightarrow> chunked_reader" where
  "load cr src = cr\<lparr>cr_src := src\<rparr>"

definition draw :: "int \<Rightarrow> chunked_reader \<Rightarrow> chunked_reader" where
  "draw n cr = cr\<lparr>cr_budget := map_option (\<lambda>p. p - n) (cr_budget cr)\<rparr>"

definition cost :: "chunked_reader \<Rightarrow> nat \<Rightarrow> int" where
  "cost cr n = (if cr_budget cr = None then 0 else int n)"

definition fits :: "chunked_reader \<Rightarrow> nat \<Rightarrow> bool" where
  "fits cr n \<longleftrightarrow> int n \<le> cr_maxMessageBytes cr \<and> (case cr_budget cr of None \<Rightarrow> True | Some p \<Rightarrow> int n \<le> p)"

lemma load_fields [simp]:
  "cr_src (load cr s) = s" "cr_budget (load cr s) = cr_budget cr" "cr_maxMessageBytes (load cr s) = cr_maxMessageBytes cr"
  "load (load cr s) t = load cr t" "load cr s\<lparr>cr_src := t\<rparr> = load cr t" "load cr (cr_src cr) = cr" "fits (load cr s) n = fits cr n"
  by (simp_all add: load_def fits_def)

lemma draw_fields [simp]:
  "cr_src (draw n cr) = cr_src cr" "cr_budget (draw n cr) = map_option (\<lambda>p. p - n) (cr_budget cr)"
  "cr_maxMessageBytes (draw n cr) = cr_maxMessageBytes cr" "draw n (load cr s) = load (draw n cr) s"
  "draw a (draw b cr) = draw (b + a) cr" "cost (draw n cr) k = cost cr k" "cost (load cr s) k = cost cr k"
  by (simp_all add: draw_def load_def cost_def option.map_comp comp_def diff_diff_eq)

lemma draw_zero [simp]: "draw 0 cr = cr"
  by (simp add: draw_def option.map_ident)

definition valid_chunk :: "bytes \<Rightarrow> bool" where
  "valid_chunk c \<longleftrightarrow> c \<noteq> [] \<and> length c \<le> maxChunkSize"

definition chunk_bytes :: "bytes \<Rightarrow> bytes" where
  "chunk_bytes c = put_be16 (of_nat (length c)) @ c"

lemma chunk_header: "valid_chunk c \<Longrightarrow> unat (of_nat (length c) :: u16) = length c"
  by (simp add: valid_chunk_def maxChunkSize_def unat_of_nat)

lemma charge_chunk_fits:
  "fits cr n \<Longrightarrow> charge_chunk n cr = Some (draw (int n) cr, cost cr n)"
  by (cases "cr_budget cr") (auto simp: charge_chunk_def fits_def tryReserve_def draw_def cost_def split: prod.splits)

lemma read_chunks_chunk:
  assumes c: "valid_chunk c" and fit: "fits cr (length c)" and m: "int (length msg + length c) \<le> cr_maxMessageBytes cr"
  shows "read_chunks msg charged (load cr (chunk_bytes c @ rest)) =
    read_chunks (msg @ c) (charged + cost cr (length c)) (load (draw (int (length c)) cr) rest)"
proof -
  have ch: "charge_chunk (length c) (load cr (c @ rest)) = Some (load (draw (int (length c)) cr) (c @ rest), cost cr (length c))"
    using charge_chunk_fits [of "load cr (c @ rest)" "length c"] fit by simp
  have "c \<noteq> []" "length c \<le> maxChunkSize" using c by (auto simp: valid_chunk_def)
  with m ch chunk_header [OF c] show ?thesis
    by (subst read_chunks.simps) (simp add: chunk_bytes_def Let_def)
qed

lemma read_chunks_sentinel:
  "read_chunks msg charged (load cr (put_be16 0 @ rest)) =
     (if msg = [] then read_chunks [] charged (load cr rest) else (Inr msg, load cr rest, charged))"
  by (subst read_chunks.simps) (simp add: Let_def)

lemma read_chunks_noops:
  "read_chunks [] charged (load cr (concat (replicate k (put_be16 0)) @ rest)) = read_chunks [] charged (load cr rest)"
  by (induction k) (simp_all add: read_chunks_sentinel)

lemma read_chunks_all:
  assumes "list_all valid_chunk cs" and "fits cr (length (concat cs))"
    and "int (length msg + length (concat cs)) \<le> cr_maxMessageBytes cr" and "msg \<noteq> [] \<or> cs \<noteq> []"
  shows "read_chunks msg charged (load cr (concat (map chunk_bytes cs) @ put_be16 0 @ rest)) =
    (Inr (msg @ concat cs), load (draw (int (length (concat cs))) cr) rest, charged + cost cr (length (concat cs)))"
  using assms
proof (induction cs arbitrary: msg charged cr)
  case Nil
  then show ?case by (simp add: read_chunks_sentinel cost_def)
next
  case (Cons c cs)
  let ?cr = "draw (int (length c)) cr"
  have c: "valid_chunk c" and ne: "c \<noteq> []" using Cons.prems(1) by (auto simp: valid_chunk_def)
  have f: "fits cr (length c)" "fits ?cr (length (concat cs))"
    using Cons.prems(2) by (auto simp: fits_def split: option.splits)
  have "read_chunks (msg @ c) (charged + cost cr (length c)) (load ?cr (concat (map chunk_bytes cs) @ put_be16 0 @ rest)) =
    (Inr ((msg @ c) @ concat cs), load (draw (int (length (concat cs))) ?cr) rest,
      charged + cost cr (length c) + cost ?cr (length (concat cs)))"
    using Cons.prems f ne by (intro Cons.IH) auto
  then show ?case using read_chunks_chunk [OF c f(1)] Cons.prems(3) by (simp add: cost_def add.commute)
qed

lemma draw_release: "charged = cost cr n \<Longrightarrow>
  (if charged > 0 then (draw (int n) cr)\<lparr>cr_budget := map_option (release charged) (cr_budget (draw (int n) cr))\<rparr> else draw (int n) cr) = cr"
  by (cases "cr_budget cr") (auto simp: cost_def draw_def release_def)

lemma ReadMessage_chunks:
  assumes "list_all valid_chunk cs" and "cs \<noteq> []" and "fits cr (length (concat cs))"
  shows "ReadMessage (load cr (concat (replicate k (put_be16 0)) @ concat (map chunk_bytes cs) @ put_be16 0 @ rest)) =
    (Inr (concat cs), load cr rest)"
proof -
  let ?n = "length (concat cs)"
  have "read_chunks [] 0 (load cr (concat (map chunk_bytes cs) @ put_be16 0 @ rest)) =
    (Inr (concat cs), load (draw (int ?n) cr) rest, cost cr ?n)"
    using read_chunks_all [OF assms(1,3), of "[]" 0 rest] assms(2,3) by (simp add: fits_def)
  then show ?thesis
    using draw_release [of "cost cr ?n" "load cr rest" ?n] unfolding ReadMessage_def read_chunks_noops
    by (simp only: prod.case draw_fields)
qed

text \<open>What \<open>WriteMessage\<close> writes is such a stream.\<close>

lemma write_chunks_stream:
  "\<exists>cs. list_all valid_chunk cs \<and> concat cs = msg \<and> write_chunks msg = concat (map chunk_bytes cs)"
proof (induction msg rule: length_induct)
  case (1 msg)
  show ?case
  proof (cases "msg = []")
    case True
    then show ?thesis by (intro exI [of _ "[]"]) (simp add: write_chunks.simps)
  next
    case False
    let ?c = "take maxChunkSize msg" and ?r = "drop (length (take maxChunkSize msg)) msg"
    have "length ?r < length msg" using False by (simp add: maxChunkSize_def)
    with 1 obtain cs where cs: "list_all valid_chunk cs" "concat cs = ?r" "write_chunks ?r = concat (map chunk_bytes cs)"
      by blast
    have "valid_chunk ?c" using False by (simp add: valid_chunk_def maxChunkSize_def)
    moreover have "?c @ ?r = msg" by (cases "length msg \<le> maxChunkSize") simp_all
    moreover have "write_chunks msg = chunk_bytes ?c @ write_chunks ?r"
      using False by (subst write_chunks.simps) (simp only: Let_def if_False chunk_bytes_def append_assoc)
    ultimately show ?thesis using cs by (intro exI [of _ "?c # cs"]) (simp del: length_take)
  qed
qed

lemma ReadMessage_written:
  assumes "msg \<noteq> []" and "fits cr (length msg)"
  shows "ReadMessage (load cr (concat (replicate k (put_be16 0)) @ WriteMessage msg @ rest)) = (Inr msg, load cr rest)"
proof -
  obtain cs where cs: "list_all valid_chunk cs" "concat cs = msg" "write_chunks msg = concat (map chunk_bytes cs)"
    using write_chunks_stream by blast
  then have "cs \<noteq> []" using assms(1) by auto
  from ReadMessage_chunks [OF cs(1) this, of cr k rest] show ?thesis using assms(2) cs by (simp add: WriteMessage_def)
qed

subsection \<open>A transport of messages\<close>

text \<open>
  What the code above the framing relies on: a message the receiver accepts is received as it was
  sent, and receiving it leaves the receiver as it was, behind the message.
\<close>

fun receive :: "('r \<Rightarrow> ('e, 'a) result \<times> 'r) \<Rightarrow> nat \<Rightarrow> 'r \<Rightarrow> ('e, 'a list) result \<times> 'r" where
  "receive get 0 r = (Inr [], r)"
| "receive get (Suc n) r =
     (case get r of
        (Inl e, r') \<Rightarrow> (Inl e, r')
      | (Inr m, r') \<Rightarrow> (case receive get n r' of (Inl e, r'') \<Rightarrow> (Inl e, r'') | (Inr ms, r'') \<Rightarrow> (Inr (m # ms), r'')))"

locale message_transport =
  fixes put :: "'a \<Rightarrow> bytes" and get :: "'r \<Rightarrow> ('e, 'a) result \<times> 'r"
    and source :: "'r \<Rightarrow> bytes \<Rightarrow> 'r" and accepts :: "'r \<Rightarrow> 'a \<Rightarrow> bool"
  assumes get_put: "accepts r m \<Longrightarrow> get (source r (put m @ rest)) = (Inr m, source r rest)"
begin

lemma receive_all:
  "\<forall>m \<in> set ms. accepts r m \<Longrightarrow>
     receive get (length ms) (source r (concat (map put ms) @ rest)) = (Inr ms, source r rest)"
  by (induction ms) (simp_all add: get_put)

end

definition accepts_frame :: "chunked_reader \<Rightarrow> bytes \<Rightarrow> bool" where
  "accepts_frame cr msg \<longleftrightarrow> msg \<noteq> [] \<and> fits cr (length msg)"

interpretation framing: message_transport WriteMessage ReadMessage load accepts_frame
  using ReadMessage_written [where k = 0] by unfold_locales (simp add: accepts_frame_def)

subsection \<open>Any input\<close>

text \<open>What holds of the reader whatever bytes come in.\<close>

definition reads_on :: "chunked_reader \<Rightarrow> chunked_reader \<Rightarrow> int \<Rightarrow> bool" where
  "reads_on cr cr' spent \<longleftrightarrow>
     (\<exists>n \<le> length (cr_src cr). cr_src cr' = drop n (cr_src cr)) \<and> cr_maxMessageBytes cr' = cr_maxMessageBytes cr \<and>
     0 \<le> spent \<and> (cr_budget cr = None \<longrightarrow> spent = 0) \<and> cr_budget cr' = map_option (\<lambda>p. p - spent) (cr_budget cr) \<and>
     (\<forall>p. cr_budget cr = Some p \<longrightarrow> 0 \<le> p \<longrightarrow> spent \<le> p)"

lemma reads_on_src: "reads_on cr (cr\<lparr>cr_src := drop n (cr_src cr)\<rparr>) 0"
proof -
  have "drop n (cr_src cr) = drop (min n (length (cr_src cr))) (cr_src cr)"
    by (cases "n \<le> length (cr_src cr)") simp_all
  then have "\<exists>k \<le> length (cr_src cr). drop n (cr_src cr) = drop k (cr_src cr)" using min.cobounded2 by blast
  then show ?thesis by (simp add: reads_on_def option.map_ident)
qed

lemma reads_on_empty: "reads_on cr (cr\<lparr>cr_src := []\<rparr>) 0"
  using reads_on_src [of cr "length (cr_src cr)"] by simp

lemma reads_on_trans:
  assumes a: "reads_on cr c1 a" and b: "reads_on c1 c2 b"
  shows "reads_on cr c2 (a + b)"
proof -
  obtain n where n: "n \<le> length (cr_src cr)" "cr_src c1 = drop n (cr_src cr)" using a unfolding reads_on_def by blast
  obtain k where k: "k \<le> length (cr_src c1)" "cr_src c2 = drop k (cr_src c1)" using b unfolding reads_on_def by blast
  have "k + n \<le> length (cr_src cr)" "cr_src c2 = drop (k + n) (cr_src cr)" using n k by simp_all
  then have "\<exists>j \<le> length (cr_src cr). cr_src c2 = drop j (cr_src cr)" by blast
  then show ?thesis using a b unfolding reads_on_def by (cases "cr_budget cr") auto
qed

lemma charge_chunk_reads_on:
  "charge_chunk n cr = Some (cr', c) \<Longrightarrow> reads_on cr cr' c \<and> cr_src cr' = cr_src cr"
  by (auto simp: charge_chunk_def reads_on_def tryReserve_def option.map_ident split: option.splits prod.splits bool.splits if_splits)

lemma read_chunks_reads_on:
  assumes "read_chunks msg charged cr = (r, cr', charged')" and "int (length msg) \<le> cr_maxMessageBytes cr"
  shows "reads_on cr cr' (charged' - charged)
    \<and> (\<forall>m. r = Inr m \<longrightarrow> m \<noteq> [] \<and> int (length m) \<le> cr_maxMessageBytes cr)"
  using assms
proof (induction "length (cr_src cr)" arbitrary: msg charged cr rule: less_induct)
  case less
  note step = less.prems(1) [unfolded read_chunks.simps [of msg charged cr]]
  show ?case
  proof (cases "read_full 2 (cr_src cr)")
    case (Inl got)
    then show ?thesis using step reads_on_empty [of cr] by (auto split: if_splits)
  next
    case (Inr p)
    obtain hdr src where p: "p = (hdr, src)" by (cases p)
    have src: "src = drop 2 (cr_src cr)" "length src < length (cr_src cr)"
      using Inr p by (auto simp: read_full_Inr_iff)
    let ?cr1 = "cr\<lparr>cr_src := src\<rparr>" and ?n = "unat (get_be16 hdr)"
    have on1: "reads_on cr ?cr1 0" using reads_on_src [of cr 2] src by simp
    have drained: "reads_on cr (snd (discard_n k ?cr1)) 0" for k
      using reads_on_trans [OF on1 reads_on_src [of ?cr1 k]] by (simp add: discard_n_def)
    consider (zero) "?n = 0" | (long) "?n \<noteq> 0" "?n > maxChunkSize"
      | (large) "?n \<noteq> 0" "\<not> ?n > maxChunkSize" "int (length msg + ?n) > cr_maxMessageBytes ?cr1"
      | (charge) "?n \<noteq> 0" "\<not> ?n > maxChunkSize" "\<not> int (length msg + ?n) > cr_maxMessageBytes ?cr1"
      by blast
    then show ?thesis
    proof cases
      case zero
      show ?thesis
      proof (cases "msg = []")
        case True
        then have "read_chunks msg charged ?cr1 = (r, cr', charged')" using step Inr p zero by (simp add: Let_def)
        then show ?thesis using less.hyps [of ?cr1 msg charged] src less.prems(2) reads_on_trans [OF on1] by fastforce
      next
        case False
        then show ?thesis using step Inr p zero on1 less.prems(2) by (auto simp: Let_def)
      qed
    next
      case long
      then show ?thesis using step Inr p on1 by (auto simp: Let_def)
    next
      case large
      then show ?thesis using step Inr p drained [of ?n] by (auto simp: Let_def split: prod.splits)
    next
      case charge
      show ?thesis
      proof (cases "charge_chunk ?n ?cr1")
        case None
        then show ?thesis using step Inr p charge drained [of ?n] by (auto simp: Let_def split: prod.splits)
      next
        case (Some q)
        obtain cr2 c where q: "q = (cr2, c)" by (cases q)
        have on2: "reads_on cr cr2 c" and src2: "cr_src cr2 = src"
          using reads_on_trans [OF on1] charge_chunk_reads_on [of ?n ?cr1 cr2 c] Some q by fastforce+
        show ?thesis
        proof (cases "read_full ?n (cr_src cr2)")
          case (Inl got)
          then show ?thesis using step Inr p charge Some q reads_on_trans [OF on2 reads_on_empty] by (auto simp: Let_def)
        next
          case Inr2: (Inr w)
          obtain payload src' where w: "w = (payload, src')" by (cases w)
          let ?cr3 = "cr2\<lparr>cr_src := src'\<rparr>"
          have pl: "length payload = ?n" "src = payload @ src'" "src' = drop ?n (cr_src cr2)"
            using Inr2 w src2 by (auto simp: read_full_Inr_iff)
          have on3: "reads_on cr ?cr3 c" using reads_on_trans [OF on2 reads_on_src [of cr2 ?n]] pl by simp
          then have max3: "cr_maxMessageBytes ?cr3 = cr_maxMessageBytes cr" by (simp add: reads_on_def)
          have "read_chunks (msg @ payload) (charged + c) ?cr3 = (r, cr', charged')"
            using step Inr p charge Some q Inr2 w by (simp add: Let_def)
          moreover have "int (length (msg @ payload)) \<le> cr_maxMessageBytes ?cr3" using charge pl max3 by simp
          moreover have "length src' \<le> length src" using pl(2) by simp
          then have "length (cr_src ?cr3) < length (cr_src cr)" using src(2) by simp
          ultimately show ?thesis using less.hyps [of ?cr3 "msg @ payload" "charged + c"] reads_on_trans [OF on3] max3
            by fastforce
        qed
      qed
    qed
  qed
qed

lemma ReadMessage_reads_on:
  assumes "ReadMessage cr = (r, cr')" and "0 \<le> cr_maxMessageBytes cr"
  shows "reads_on cr cr' 0 \<and> (\<forall>m. r = Inr m \<longrightarrow> m \<noteq> [] \<and> int (length m) \<le> cr_maxMessageBytes cr)"
proof -
  obtain r0 cr0 c where q: "read_chunks [] 0 cr = (r0, cr0, c)" by (cases "read_chunks [] 0 cr")
  have "reads_on cr cr0 c" and m: "\<forall>m. r0 = Inr m \<longrightarrow> m \<noteq> [] \<and> int (length m) \<le> cr_maxMessageBytes cr"
    using read_chunks_reads_on [OF q] assms(2) by simp_all
  then have "reads_on cr (if c > 0 then cr0\<lparr>cr_budget := map_option (release c) (cr_budget cr0)\<rparr> else cr0) 0"
    unfolding reads_on_def by (cases "cr_budget cr") (auto simp: release_def option.map_ident)
  then show ?thesis using assms(1) q m unfolding ReadMessage_def by (auto split: if_splits)
qed

subsection \<open>The version agreed\<close>

text \<open>An offer in words of the protocol: slot \<open>i\<close> of the preamble covers the version.\<close>

definition offered :: "bytes \<Rightarrow> Version \<Rightarrow> bool" where
  "offered conn w \<longleftrightarrow> (\<exists>i < 4.
     let major = conn ! (4 * i + 7); minor = conn ! (4 * i + 6); range = conn ! (4 * i + 5)
     in (major \<noteq> 0 \<or> minor \<noteq> 0) \<and> major = v_Major w \<and>
        unat minor - unat range \<le> unat (v_Minor w) \<and> unat (v_Minor w) \<le> unat minor)"

definition version_rank :: "Version \<Rightarrow> nat" where
  "version_rank v = 256 * unat (v_Major v) + unat (v_Minor v)"

lemma find_highest:
  assumes "sorted_wrt (\<lambda>a b. version_rank b \<le> version_rank a) vs"
  shows "find P vs = Some v \<Longrightarrow> v \<in> set vs \<and> P v \<and> (\<forall>w \<in> set vs. P w \<longrightarrow> version_rank w \<le> version_rank v)"
  using assms by (induction vs) (auto split: if_splits)

lemma supported_sorted: "sorted_wrt (\<lambda>a b. version_rank b \<le> version_rank a) SupportedVersions"
  by (simp add: SupportedVersions_def version_rank_def)

lemma min_minor: "minMinor = (if r \<le> m then m - r else 0) \<Longrightarrow> unat (minMinor :: byte) = unat m - unat r"
  by (auto simp: word_le_nat_alt unat_sub)

lemma offer_matches_iff:
  "offer_matches offer w \<longleftrightarrow> o_major offer = v_Major w \<and>
     unat (o_minor offer) - unat (o_minorRange offer) \<le> unat (v_Minor w) \<and> unat (v_Minor w) \<le> unat (o_minor offer)"
  using min_minor [OF refl, of "o_minorRange offer" "o_minor offer"]
  by (simp add: offer_matches_def Let_def word_le_nat_alt)

lemma parse_offers_iff:
  assumes "20 \<le> length conn"
  shows "(\<exists>offer \<in> set (parse_offers (take 20 conn)). offer_matches offer w) \<longleftrightarrow> offered conn w"
proof -
  have slot: "take 4 (drop (4 + i * 4) (take 20 conn)) ! k = conn ! (4 * i + 4 + k)" if "i < 4" "k < 4" for i k
    using that assms by (simp add: min_def algebra_simps)
  have parse: "parse_slot (take 4 (drop (4 + i * 4) (take 20 conn))) =
      (if conn ! (4 * i + 7) = 0 \<and> conn ! (4 * i + 6) = 0 then None
       else Some \<lparr>o_major = conn ! (4 * i + 7), o_minor = conn ! (4 * i + 6), o_minorRange = conn ! (4 * i + 5)\<rparr>)"
    if "i < 4" for i
    using slot [OF that, of 1] slot [OF that, of 2] slot [OF that, of 3] by (simp add: parse_slot_def Let_def add.commute)
  have "(\<exists>offer \<in> set (parse_offers (take 20 conn)). offer_matches offer w) \<longleftrightarrow>
      (\<exists>i < 4. \<exists>offer. parse_slot (take 4 (drop (4 + i * 4) (take 20 conn))) = Some offer \<and> offer_matches offer w)"
    unfolding parse_offers_def map_filter_def by force
  also have "\<dots> \<longleftrightarrow> offered conn w"
    unfolding offered_def Let_def using parse by (intro ex_cong1 conj_cong) (auto simp: offer_matches_iff)
  finally show ?thesis .
qed

lemma Negotiate_highest:
  assumes "20 \<le> length conn" and "get_be32 (take 4 conn) = Magic"
  shows "case Negotiate conn of
      (Inr v, answer) \<Rightarrow> v \<in> set SupportedVersions \<and> offered conn v
        \<and> (\<forall>w \<in> set SupportedVersions. offered conn w \<longrightarrow> version_rank w \<le> version_rank v)
        \<and> answer = [0, 0, v_Minor v, v_Major v]
    | (Inl e, answer) \<Rightarrow> e = ErrNoCommonVersion \<and> (\<forall>w \<in> set SupportedVersions. \<not> offered conn w) \<and> answer = [0, 0, 0, 0]"
proof -
  let ?buf = "take 20 conn" and ?f = "find (\<lambda>sv. offered conn sv) SupportedVersions"
  have rf: "read_full 20 conn = Inr (?buf, drop 20 conn)" using assms(1) by (simp add: read_full_def)
  have "get_be32 (take 4 ?buf) = Magic" using assms(2) by (simp add: min_def)
  then have N: "Negotiate conn = (case ?f of Some sv \<Rightarrow> (Inr sv, [0, 0, v_Minor sv, v_Major sv])
      | None \<Rightarrow> (Inl ErrNoCommonVersion, [0, 0, 0, 0]))"
    by (simp add: Negotiate_def rf parse_offers_iff [OF assms(1)])
  show ?thesis
  proof (cases ?f)
    case None
    then have "Negotiate conn = (Inl ErrNoCommonVersion, [0, 0, 0, 0])" using N by simp
    then show ?thesis using None by (simp add: find_None_iff)
  next
    case (Some v)
    then show ?thesis using N find_highest [OF supported_sorted Some] by simp
  qed
qed

subsection \<open>Properties\<close>

text \<open>
  Property C25. Framing round trip: whatever chunks of 1 to 65535 bytes a message is cut into, with
  any number of NOOP keep-alives before it, \<open>ReadMessage\<close> reassembles it, stops right behind its
  sentinel and returns every byte it charged to the shared pool; \<open>WriteMessage\<close> writes such chunks.
\<close>
theorem bolt_framing_round_trip:
  assumes "list_all valid_chunk cs" and "cs \<noteq> []" and "fits cr (length (concat cs))"
  shows "ReadMessage (load cr (concat (replicate k (put_be16 0)) @ concat (map chunk_bytes cs) @ put_be16 0 @ rest)) =
      (Inr (concat cs), load cr rest)
    \<and> (\<exists>ds. list_all valid_chunk ds \<and> concat ds = concat cs \<and>
          WriteMessage (concat cs) = concat (map chunk_bytes ds) @ put_be16 0)"
  using ReadMessage_chunks [OF assms] write_chunks_stream [of "concat cs"] by (auto simp: WriteMessage_def)

theorem bolt_framing_round_trip_witness:
  "ReadMessage (load (NewChunkedReader []) (put_be16 0 @ [0, 1, 0xB0, 0, 2, 0x0F, 0x0F] @ put_be16 0 @ [9])) =
     (Inr [0xB0, 0x0F, 0x0F], load (NewChunkedReader []) [9])"
proof -
  have v: "list_all valid_chunk [[0xB0], [0x0F, 0x0F]]" by (simp add: valid_chunk_def maxChunkSize_def)
  have f: "fits (NewChunkedReader []) (length (concat [[0xB0], [0x0F, 0x0F :: byte]]))"
    by (simp add: fits_def NewChunkedReader_def NewChunkedReaderWithLimit_def DefaultMaxMessageBytes_def)
  have "chunk_bytes [0xB0] = [0, 1, 0xB0]" "chunk_bytes [0x0F, 0x0F] = [0, 2, 0x0F, 0x0F]" by code_simp+
  with bolt_framing_round_trip [OF v _ f, of 1 "[9]"] show ?thesis by simp
qed

text \<open>
  Bounds of reassembly: whatever bytes a peer sends, a message \<open>ReadMessage\<close> returns is
  not empty and within the configured cap, and on every outcome, errors included, the shared pool is
  back at what it was.
\<close>
theorem bolt_framing_bounds:
  assumes "ReadMessage (cr_SetInboundBudget pool (NewChunkedReaderWithLimit src limit)) = (r, cr')"
  shows "cr_budget cr' = pool
    \<and> (\<forall>m. r = Inr m \<longrightarrow> m \<noteq> [] \<and> int (length m) \<le> (if limit \<le> 0 then DefaultMaxMessageBytes else limit))"
proof -
  let ?cr = "cr_SetInboundBudget pool (NewChunkedReaderWithLimit src limit)"
  have f: "cr_maxMessageBytes ?cr = (if limit \<le> 0 then DefaultMaxMessageBytes else limit)" "cr_budget ?cr = pool"
    by (simp_all add: cr_SetInboundBudget_def NewChunkedReaderWithLimit_def)
  then have "0 \<le> cr_maxMessageBytes ?cr" by (simp add: DefaultMaxMessageBytes_def)
  from ReadMessage_reads_on [OF assms this] show ?thesis using f by (simp add: reads_on_def option.map_ident)
qed

theorem bolt_framing_bounds_witness:
  "\<exists>cr'. ReadMessage (cr_SetInboundBudget (Some 3) (NewChunkedReaderWithLimit [0, 2, 1, 1, 0, 2, 1, 1, 0, 0] 10)) =
     (Inl (ErrFrameBudget True), cr') \<and> cr_budget cr' = Some 3"
proof -
  let ?cr = "cr_SetInboundBudget (Some 3) (NewChunkedReaderWithLimit [0, 2, 1, 1, 0, 2, 1, 1, 0, 0] 10)"
  have "fst (ReadMessage ?cr) = Inl (ErrFrameBudget True)"
    by (simp add: ReadMessage_def read_chunks.simps read_full_def get_be16_def be_val_def maxChunkSize_def Let_def
        cr_SetInboundBudget_def NewChunkedReaderWithLimit_def charge_chunk_def tryReserve_def discard_n_def)
  then have "ReadMessage ?cr = (Inl (ErrFrameBudget True), snd (ReadMessage ?cr))" by (simp add: prod_eq_iff)
  with bolt_framing_bounds [OF this] show ?thesis by auto
qed

text \<open>
  The handshake agrees on the best version: after a correct preamble \<open>Negotiate\<close> answers
  the highest supported version that some slot's range covers (an underflowing range reaches down to
  minor version 0), and answers four zero bytes exactly when there is none.
\<close>
theorem bolt_negotiate_highest:
  assumes "20 \<le> length conn" and "get_be32 (take 4 conn) = Magic"
  shows "case Negotiate conn of
      (Inr v, answer) \<Rightarrow> v \<in> set SupportedVersions \<and> offered conn v
        \<and> (\<forall>w \<in> set SupportedVersions. offered conn w \<longrightarrow> version_rank w \<le> version_rank v)
        \<and> answer = [0, 0, v_Minor v, v_Major v]
    | (Inl e, answer) \<Rightarrow> e = ErrNoCommonVersion \<and> (\<forall>w \<in> set SupportedVersions. \<not> offered conn w) \<and> answer = [0, 0, 0, 0]"
  using assms by (rule Negotiate_highest)

theorem bolt_negotiate_highest_witness:
  "snd (Negotiate [0x60, 0x60, 0xB0, 0x17, 0, 0, 1, 3, 0, 4, 2, 5, 0, 0, 4, 4, 0, 0, 0, 0]) = [0, 0, 2, 5]
   \<and> offered [0x60, 0x60, 0xB0, 0x17, 0, 0, 1, 3, 0, 4, 2, 5, 0, 0, 4, 4, 0, 0, 0, 0] \<lparr>v_Major = 5, v_Minor = 2\<rparr>"
proof -
  let ?c = "[0x60, 0x60, 0xB0, 0x17, 0, 0, 1, 3, 0, 4, 2, 5, 0, 0, 4, 4, 0, 0, 0, 0] :: bytes"
  have M: "get_be32 (take 4 ?c) = Magic" "get_be32 [0x60, 0x60, 0xB0, 0x17] = Magic"
    by (simp_all add: get_be32_def be_val_def Magic_def)
  moreover have "parse_offers ?c = map (\<lambda>(a, b, r). \<lparr>o_major = a, o_minor = b, o_minorRange = r\<rparr>) [(3, 1, 0), (5, 2, 4), (4, 4, 0)]"
    by code_simp
  then have N: "Negotiate ?c = (Inr \<lparr>v_Major = 5, v_Minor = 2\<rparr>, [0, 0, 2, 5])"
    using M(2) by (simp add: Negotiate_def read_full_def SupportedVersions_def offer_matches_def)
  ultimately show ?thesis using bolt_negotiate_highest [of ?c] by (simp only: N) simp
qed

end
