(* ===== verification/Bolt_Messages.thy ===== *)
theory Bolt_Messages
  imports Bolt_Framing
begin

text \<open>
  The messages of the Bolt protocol (\<open>bolt/proto/messages.go\<close>): requests and responses, their encoding
  as PackStream structures and their decoding. A Go map or slice that is nil and one that is empty
  are both the empty list: the encoder writes the same bytes for them and the readers only look
  entries up. The two entries of a PULL or DISCARD, and of a FAILURE, are written in a fixed order.
\<close>

type_synonym pmap = "(bytes \<times> pvalue) list"

definition str :: "string \<Rightarrow> bytes" where
  "str s = map of_char s"

datatype request =
    Hello pmap
  | Logon pmap
  | Logoff
  | Goodbye
  | Reset
  | Run bytes pmap pmap
  | Pull u64 u64
  | Discard u64 u64
  | Begin pmap
  | Commit
  | Rollback
  | Route pmap "pvalue list" pvalue

datatype response =
    Success pmap
  | Failure bytes bytes
  | Ignored
  | Record "pvalue list"

subsection \<open>Encoding\<close>

definition TagHello :: byte where "TagHello = 0x01"
definition TagLogon :: byte where "TagLogon = 0x6A"
definition TagLogoff :: byte where "TagLogoff = 0x6B"
definition TagGoodbye :: byte where "TagGoodbye = 0x02"
definition TagReset :: byte where "TagReset = 0x0F"
definition TagRun :: byte where "TagRun = 0x10"
definition TagPull :: byte where "TagPull = 0x3F"
definition TagDiscard :: byte where "TagDiscard = 0x2F"
definition TagBegin :: byte where "TagBegin = 0x11"
definition TagCommit :: byte where "TagCommit = 0x12"
definition TagRollback :: byte where "TagRollback = 0x13"
definition TagRoute :: byte where "TagRoute = 0x66"
definition TagSuccess :: byte where "TagSuccess = 0x70"
definition TagFailure :: byte where "TagFailure = 0x7F"
definition TagIgnored :: byte where "TagIgnored = 0x7E"
definition TagRecord :: byte where "TagRecord = 0x71"

lemmas tag_defs = TagHello_def TagLogon_def TagLogoff_def TagGoodbye_def TagReset_def TagRun_def TagPull_def TagDiscard_def
  TagBegin_def TagCommit_def TagRollback_def TagRoute_def TagSuccess_def TagFailure_def TagIgnored_def TagRecord_def

text \<open>One write after the other into the same encoder.\<close>

definition wseq :: "(pk_error, bytes) result \<Rightarrow> (pk_error, bytes) result \<Rightarrow> (pk_error, bytes) result" where
  "wseq a b = result_bind a (\<lambda>x. result_bind b (\<lambda>y. Inr (x @ y)))"

definition encodeEmpty :: "byte \<Rightarrow> (pk_error, bytes) result" where
  "encodeEmpty tag = WriteStructHeader tag 0"

definition encodeHello :: "pmap \<Rightarrow> (pk_error, bytes) result" where
  "encodeHello extra = wseq (WriteStructHeader TagHello 1) (WriteValue (PMap extra))"

definition encodeLogon :: "pmap \<Rightarrow> (pk_error, bytes) result" where
  "encodeLogon auth = wseq (WriteStructHeader TagLogon 1) (WriteValue (PMap auth))"

definition encodeRun :: "bytes \<Rightarrow> pmap \<Rightarrow> pmap \<Rightarrow> (pk_error, bytes) result" where
  "encodeRun query params extra =
     wseq (WriteStructHeader TagRun 3) (wseq (WriteString query) (wseq (WriteValue (PMap params)) (WriteValue (PMap extra))))"

definition encodePullDiscard :: "byte \<Rightarrow> u64 \<Rightarrow> u64 \<Rightarrow> (pk_error, bytes) result" where
  "encodePullDiscard tag n qid =
     wseq (WriteStructHeader tag 1) (WriteValue (PMap [(str ''n'', PInt n), (str ''qid'', PInt qid)]))"

definition encodeBegin :: "pmap \<Rightarrow> (pk_error, bytes) result" where
  "encodeBegin extra = wseq (WriteStructHeader TagBegin 1) (WriteValue (PMap extra))"

definition encodeRoute :: "pmap \<Rightarrow> pvalue list \<Rightarrow> pvalue \<Rightarrow> (pk_error, bytes) result" where
  "encodeRoute routing bookmarks db =
     wseq (WriteStructHeader TagRoute 3) (wseq (WriteValue (PMap routing)) (wseq (WriteValue (PList bookmarks)) (WriteValue db)))"

definition encodeSuccess :: "pmap \<Rightarrow> (pk_error, bytes) result" where
  "encodeSuccess meta = wseq (WriteStructHeader TagSuccess 1) (WriteValue (PMap meta))"

definition encodeFailure :: "bytes \<Rightarrow> bytes \<Rightarrow> (pk_error, bytes) result" where
  "encodeFailure code message =
     wseq (WriteStructHeader TagFailure 1) (WriteValue (PMap [(str ''code'', PString code), (str ''message'', PString message)]))"

definition encodeRecord :: "pvalue list \<Rightarrow> (pk_error, bytes) result" where
  "encodeRecord data = wseq (WriteStructHeader TagRecord 1) (WriteValue (PList data))"

fun EncodeRequest :: "request \<Rightarrow> (pk_error, bytes) result" where
  "EncodeRequest (Hello extra) = encodeHello extra"
| "EncodeRequest (Logon auth) = encodeLogon auth"
| "EncodeRequest Logoff = encodeEmpty TagLogoff"
| "EncodeRequest Goodbye = encodeEmpty TagGoodbye"
| "EncodeRequest Reset = encodeEmpty TagReset"
| "EncodeRequest (Run q ps extra) = encodeRun q ps extra"
| "EncodeRequest (Pull n qid) = encodePullDiscard TagPull n qid"
| "EncodeRequest (Discard n qid) = encodePullDiscard TagDiscard n qid"
| "EncodeRequest (Begin extra) = encodeBegin extra"
| "EncodeRequest Commit = encodeEmpty TagCommit"
| "EncodeRequest Rollback = encodeEmpty TagRollback"
| "EncodeRequest (Route routing bookmarks db) = encodeRoute routing bookmarks db"

fun EncodeResponse :: "response \<Rightarrow> (pk_error, bytes) result" where
  "EncodeResponse (Success meta) = encodeSuccess meta"
| "EncodeResponse (Failure code message) = encodeFailure code message"
| "EncodeResponse Ignored = encodeEmpty TagIgnored"
| "EncodeResponse (Record data) = encodeRecord data"

subsection \<open>Decoding\<close>

definition readMap :: "pmap dec" where
  "readMap = dbind ReadValue (\<lambda>v. case v of PNull \<Rightarrow> dreturn [] | PMap m \<Rightarrow> dreturn m | _ \<Rightarrow> dfail ErrMessageType)"

text \<open>A nil or a list value, as a slice.\<close>

definition readList :: "pvalue list dec" where
  "readList = dbind ReadValue (\<lambda>v. case v of PNull \<Rightarrow> dreturn [] | PList vs \<Rightarrow> dreturn vs | _ \<Rightarrow> dfail ErrMessageType)"

fun skipFields :: "nat \<Rightarrow> unit dec" where
  "skipFields 0 = dreturn ()"
| "skipFields (Suc n) = dbind ReadValue (\<lambda>_. skipFields n)"

text \<open>The guard of every decoder on the number of fields of the structure.\<close>

definition expect_fields :: "nat \<Rightarrow> nat \<Rightarrow> 'a dec \<Rightarrow> 'a dec" where
  "expect_fields k n m = (if n \<noteq> k then dfail ErrMessageFields else m)"

definition decodeHello :: "nat \<Rightarrow> request dec" where
  "decodeHello n = expect_fields 1 n (dbind readMap (\<lambda>extra. dreturn (Hello extra)))"

definition decodeLogon :: "nat \<Rightarrow> request dec" where
  "decodeLogon n = expect_fields 1 n (dbind readMap (\<lambda>auth. dreturn (Logon auth)))"

definition decodeRun :: "nat \<Rightarrow> request dec" where
  "decodeRun n = expect_fields 3 n (dbind ReadString (\<lambda>q. dbind readMap (\<lambda>params. dbind readMap (\<lambda>extra.
     dreturn (Run q params extra)))))"

fun pull_entries :: "nat \<Rightarrow> u64 \<times> u64 \<Rightarrow> (u64 \<times> u64) dec" where
  "pull_entries 0 acc = dreturn acc"
| "pull_entries (Suc count) (nVal, qidVal) = dbind ReadString (\<lambda>key. dbind ReadValue (\<lambda>val.
     pull_entries count
       (if key = str ''n'' then (case val of PInt i \<Rightarrow> (i, qidVal) | _ \<Rightarrow> (nVal, qidVal))
        else if key = str ''qid'' then (case val of PInt i \<Rightarrow> (nVal, i) | _ \<Rightarrow> (nVal, qidVal))
        else (nVal, qidVal))))"

definition decodePullDiscard :: "(u64 \<Rightarrow> u64 \<Rightarrow> request) \<Rightarrow> nat \<Rightarrow> request dec" where
  "decodePullDiscard mk n = expect_fields 1 n (dbind PeekType (\<lambda>t. case t of
       TypeNull \<Rightarrow> dbind ReadValue (\<lambda>_. dreturn (mk (- 1) (- 1)))
     | TypeMap \<Rightarrow> dbind ReadMapHeader (\<lambda>count. dbind (pull_entries count (- 1, - 1)) (\<lambda>(a, b). dreturn (mk a b)))
     | _ \<Rightarrow> dfail ErrMessageType))"

definition decodeBegin :: "nat \<Rightarrow> request dec" where
  "decodeBegin n = expect_fields 1 n (dbind readMap (\<lambda>extra. dreturn (Begin extra)))"

definition decodeRoute :: "nat \<Rightarrow> request dec" where
  "decodeRoute n = expect_fields 3 n (dbind readMap (\<lambda>routing. dbind readList (\<lambda>bookmarks. dbind ReadValue (\<lambda>db.
     dreturn (Route routing bookmarks db)))))"

definition DecodeRequest :: "request dec" where
  "DecodeRequest = dbind ReadStructHeader (\<lambda>(tag, n).
     if tag = TagHello then decodeHello n
     else if tag = TagLogon then decodeLogon n
     else if tag = TagLogoff then dbind (skipFields n) (\<lambda>_. dreturn Logoff)
     else if tag = TagGoodbye then dbind (skipFields n) (\<lambda>_. dreturn Goodbye)
     else if tag = TagReset then dbind (skipFields n) (\<lambda>_. dreturn Reset)
     else if tag = TagRun then decodeRun n
     else if tag = TagPull then decodePullDiscard Pull n
     else if tag = TagDiscard then decodePullDiscard Discard n
     else if tag = TagBegin then decodeBegin n
     else if tag = TagCommit then dbind (skipFields n) (\<lambda>_. dreturn Commit)
     else if tag = TagRollback then dbind (skipFields n) (\<lambda>_. dreturn Rollback)
     else if tag = TagRoute then decodeRoute n
     else dfail ErrMessageTag)"

definition decodeSuccess :: "nat \<Rightarrow> response dec" where
  "decodeSuccess n = expect_fields 1 n (dbind readMap (\<lambda>meta. dreturn (Success meta)))"

text \<open>\<open>s, _ = m[k].(string)\<close>: the empty string without such an entry.\<close>

definition string_at :: "bytes \<Rightarrow> pmap \<Rightarrow> bytes" where
  "string_at k m = (case map_of m k of Some (PString s) \<Rightarrow> s | _ \<Rightarrow> [])"

definition decodeFailure :: "nat \<Rightarrow> response dec" where
  "decodeFailure n = expect_fields 1 n (dbind readMap (\<lambda>meta.
     dreturn (Failure (string_at (str ''code'') meta) (string_at (str ''message'') meta))))"

definition decodeRecord :: "nat \<Rightarrow> response dec" where
  "decodeRecord n = expect_fields 1 n (dbind readList (\<lambda>data. dreturn (Record data)))"

definition DecodeResponse :: "response dec" where
  "DecodeResponse = dbind ReadStructHeader (\<lambda>(tag, n).
     if tag = TagSuccess then decodeSuccess n
     else if tag = TagFailure then decodeFailure n
     else if tag = TagIgnored then dbind (skipFields n) (\<lambda>_. dreturn Ignored)
     else if tag = TagRecord then decodeRecord n
     else dfail ErrMessageTag)"

subsection \<open>Every message is one structure\<close>

fun request_parts :: "request \<Rightarrow> byte \<times> pvalue list" where
  "request_parts (Hello extra) = (TagHello, [PMap extra])"
| "request_parts (Logon auth) = (TagLogon, [PMap auth])"
| "request_parts Logoff = (TagLogoff, [])"
| "request_parts Goodbye = (TagGoodbye, [])"
| "request_parts Reset = (TagReset, [])"
| "request_parts (Run q ps extra) = (TagRun, [PString q, PMap ps, PMap extra])"
| "request_parts (Pull n qid) = (TagPull, [PMap [(str ''n'', PInt n), (str ''qid'', PInt qid)]])"
| "request_parts (Discard n qid) = (TagDiscard, [PMap [(str ''n'', PInt n), (str ''qid'', PInt qid)]])"
| "request_parts (Begin extra) = (TagBegin, [PMap extra])"
| "request_parts Commit = (TagCommit, [])"
| "request_parts Rollback = (TagRollback, [])"
| "request_parts (Route routing bookmarks db) = (TagRoute, [PMap routing, PList bookmarks, db])"

fun response_parts :: "response \<Rightarrow> byte \<times> pvalue list" where
  "response_parts (Success meta) = (TagSuccess, [PMap meta])"
| "response_parts (Failure code message) =
     (TagFailure, [PMap [(str ''code'', PString code), (str ''message'', PString message)]])"
| "response_parts Ignored = (TagIgnored, [])"
| "response_parts (Record data) = (TagRecord, [PList data])"

definition encode_parts :: "byte \<times> pvalue list \<Rightarrow> (pk_error, bytes) result" where
  "encode_parts p = wseq (WriteStructHeader (fst p) (length (snd p))) (write_items 0 (snd p))"

lemma wseq_simps [simp]:
  "wseq a (Inr []) = a" "wseq (Inl e) b = Inl e" "wseq (Inr x) (Inl e) = Inl e" "wseq (Inr x) (Inr y) = Inr (x @ y)"
  by (cases a; simp add: wseq_def)+

lemma write_items_wseq: "write_items depth (v # vs) = wseq (writeValue depth v) (write_items depth vs)"
  by (simp add: wseq_def)

lemma Encode_parts:
  "EncodeRequest m = encode_parts (request_parts m)" "EncodeResponse r = encode_parts (response_parts r)"
proof -
  have str0: "writeValue 0 (PString q) = WriteString q" for q by (simp add: writeValue_eqs)
  note defs = encode_parts_def write_items_wseq WriteValue_def str0 encodeEmpty_def encodeHello_def encodeLogon_def
    encodeRun_def encodePullDiscard_def encodeBegin_def encodeRoute_def encodeSuccess_def encodeFailure_def encodeRecord_def
  show "EncodeRequest m = encode_parts (request_parts m)" by (cases m) (simp_all add: defs numeral_3_eq_3 del: write_items.simps(2))
  show "EncodeResponse r = encode_parts (response_parts r)" by (cases r) (simp_all add: defs del: write_items.simps(2))
qed

text \<open>What a decoder is charged for the structure of a message, and when a message is well formed.\<close>

definition parts_cost :: "byte \<times> pvalue list \<Rightarrow> int" where
  "parts_cost p = collectionCost + int (length (snd p)) * listElemCost + sum_list (map decoded_cost (snd p))"

definition parts_ok :: "byte \<times> pvalue list \<Rightarrow> bool" where
  "parts_ok p \<longleftrightarrow> list_all wf_value (snd p) \<and> parts_cost p \<le> maxDecodedCollectionBytes"

lemma parts_header_at:
  assumes "encode_parts p = Inr bs" and "room bs (parts_cost p) d"
  shows "\<exists>h b d'. bs = h @ b \<and> write_items 0 (snd p) = Inr b \<and> room b (sum_list (map decoded_cost (snd p))) d'
    \<and> (\<forall>rest. ReadStructHeader (at d (bs @ rest)) = (Inr (fst p, length (snd p)), at d' (b @ rest)))"
proof -
  let ?c = "collectionCost + int (length (snd p)) * listElemCost"
  obtain h b where p: "WriteStructHeader (fst p) (length (snd p)) = Inr h" "write_items 0 (snd p) = Inr b" "bs = h @ b"
    using assms(1) by (auto simp: encode_parts_def wseq_def result_bind_eq_Inr_iff)
  have s: "0 \<le> sum_list (map decoded_cost (snd p))" by (auto intro!: sum_list_nonneg decoded_cost_nonneg)
  have r: "d_shared d = None" "?c \<le> d_decodedRemaining d" and r2: "room b (sum_list (map decoded_cost (snd p))) (charge ?c d)"
    using assms(2) s unfolding parts_cost_def room_def p(3) by auto
  have len: "length (snd p) \<le> length (b @ rest)" for rest
    using write_items_length [OF p(2)] by simp
  have "ReadStructHeader (at d (bs @ rest)) = (Inr (fst p, length (snd p)), at (charge ?c d) (b @ rest))" for rest
    using ReadStructHeader_at [OF p(1) r(1) len r(2), of rest] p(3) by simp
  then show ?thesis using p(2,3) r2 by blast
qed

lemma items_split:
  assumes "write_items 0 (v # vs) = Inr b" and "list_all wf_value (v # vs)" and "room b (sum_list (map decoded_cost (v # vs))) d"
  shows "\<exists>a c. b = a @ c \<and> write_items 0 vs = Inr c \<and> writeValue 0 v = Inr a
    \<and> room a (decoded_cost v) d \<and> room c (sum_list (map decoded_cost vs)) (charge (decoded_cost v) d)
    \<and> (\<forall>rest. ReadValue (at d (a @ rest)) = (Inr v, at (charge (decoded_cost v) d) rest))"
proof -
  obtain a c where p: "writeValue 0 v = Inr a" "write_items 0 vs = Inr c" "b = a @ c"
    using assms(1) by (auto simp: result_bind_eq_Inr_iff)
  have "0 \<le> sum_list (map decoded_cost vs)" by (auto intro!: sum_list_nonneg decoded_cost_nonneg)
  then have "room a (decoded_cost v) d" "room c (sum_list (map decoded_cost vs)) (charge (decoded_cost v) d)"
    using room_append [of a c "decoded_cost v" "sum_list (map decoded_cost vs)" d] assms(3) p(3) decoded_cost_nonneg by simp_all
  moreover from this(1) have "ReadValue (at d (a @ rest)) = (Inr v, at (charge (decoded_cost v) d) rest)" for rest
    using read_written(1) [OF p(1)] assms(2) by (simp add: ReadValue_def)
  ultimately show ?thesis using p by blast
qed

text \<open>A decoder reads back the fields of its message, whatever follows them.\<close>

definition reads_fields :: "(nat \<Rightarrow> 'a dec) \<Rightarrow> pvalue list \<Rightarrow> 'a \<Rightarrow> bool" where
  "reads_fields m fs x \<longleftrightarrow> (\<forall>b d rest. write_items 0 fs = Inr b \<longrightarrow> list_all wf_value fs \<longrightarrow>
     room b (sum_list (map decoded_cost fs)) d \<longrightarrow> (\<exists>d'. m (length fs) (at d (b @ rest)) = (Inr x, at d' rest)))"

lemma skip_reads: "reads_fields (\<lambda>n. dbind (skipFields n) (\<lambda>_. dreturn x)) [] x"
  by (auto simp: reads_fields_def)

lemma one_map_reads: "reads_fields (\<lambda>n. expect_fields 1 n (dbind readMap (\<lambda>m. dreturn (f m)))) [PMap m] (f m)"
proof -
  have "\<exists>d'. dbind readMap (\<lambda>m. dreturn (f m)) (at d (b @ rest)) = (Inr (f m), at d' rest)"
    if w: "write_items 0 [PMap m] = Inr b" and wf: "list_all wf_value [PMap m]" and r: "room b (sum_list (map decoded_cost [PMap m])) d"
    for b d rest
  proof -
    obtain a where a: "b = a" "\<forall>rest. ReadValue (at d (a @ rest)) = (Inr (PMap m), at (charge (decoded_cost (PMap m)) d) rest)"
      using items_split [OF w wf r] by auto
    have "readMap (at d (b @ rest)) = (Inr m, at (charge (decoded_cost (PMap m)) d) rest)"
      unfolding readMap_def using a by (simp del: decoded_cost.simps)
    then show ?thesis by auto
  qed
  then show ?thesis by (simp add: reads_fields_def expect_fields_def del: write_items.simps decoded_cost.simps)
qed

lemma one_list_reads: "reads_fields (\<lambda>n. expect_fields 1 n (dbind readList (\<lambda>m. dreturn (f m)))) [PList vs] (f vs)"
proof -
  have "\<exists>d'. dbind readList (\<lambda>m. dreturn (f m)) (at d (b @ rest)) = (Inr (f vs), at d' rest)"
    if w: "write_items 0 [PList vs] = Inr b" and wf: "list_all wf_value [PList vs]" and r: "room b (sum_list (map decoded_cost [PList vs])) d"
    for b d rest
  proof -
    obtain a where a: "b = a" "\<forall>rest. ReadValue (at d (a @ rest)) = (Inr (PList vs), at (charge (decoded_cost (PList vs)) d) rest)"
      using items_split [OF w wf r] by auto
    have "readList (at d (b @ rest)) = (Inr vs, at (charge (decoded_cost (PList vs)) d) rest)"
      unfolding readList_def using a by (simp del: decoded_cost.simps)
    then show ?thesis by auto
  qed
  then show ?thesis by (simp add: reads_fields_def expect_fields_def del: write_items.simps decoded_cost.simps)
qed

lemma readMap_at: "(\<forall>rest. ReadValue (at d (a @ rest)) = (Inr (PMap m), at d' rest)) \<Longrightarrow> readMap (at d (a @ rest)) = (Inr m, at d' rest)"
  by (simp add: readMap_def)

lemma readList_at: "(\<forall>rest. ReadValue (at d (a @ rest)) = (Inr (PList m), at d' rest)) \<Longrightarrow> readList (at d (a @ rest)) = (Inr m, at d' rest)"
  by (simp add: readList_def)

lemma written_string_at:
  assumes "writeValue 0 (PString q) = Inr a" and "room a (decoded_cost (PString q)) d"
  shows "ReadString (at d (a @ rest)) = (Inr q, at d rest)"
proof -
  have w: "WriteString q = Inr a" using assms(1) by (simp add: writeValue_eqs)
  moreover have "length q \<le> wire32MaxLen" "d_shared d = None"
    using WriteString_length [OF w] assms(2) by (auto simp: room_def)
  ultimately show ?thesis using ReadString_at by blast
qed

lemma run_reads: "reads_fields decodeRun [PString q, PMap ps, PMap extra] (Run q ps extra)"
proof -
  let ?fs = "[PString q, PMap ps, PMap extra]"
  have "\<exists>d'. decodeRun 3 (at d (b @ rest)) = (Inr (Run q ps extra), at d' rest)"
    if w: "write_items 0 ?fs = Inr b" and wf: "list_all wf_value ?fs" and r: "room b (sum_list (map decoded_cost ?fs)) d"
    for b d rest
  proof -
    obtain a1 c1 where 1: "b = a1 @ c1" "write_items 0 [PMap ps, PMap extra] = Inr c1" "writeValue 0 (PString q) = Inr a1"
      "room a1 (decoded_cost (PString q)) d" "room c1 (sum_list (map decoded_cost [PMap ps, PMap extra])) (charge (decoded_cost (PString q)) d)"
      using items_split [OF w wf r] by blast
    have wf1: "list_all wf_value [PMap ps, PMap extra]" "list_all wf_value [PMap extra]" using wf by simp_all
    obtain a2 c2 d2 where 2: "c1 = a2 @ c2" "write_items 0 [PMap extra] = Inr c2"
      "room c2 (sum_list (map decoded_cost [PMap extra])) d2"
      "\<forall>rest. ReadValue (at (charge (decoded_cost (PString q)) d) (a2 @ rest)) = (Inr (PMap ps), at d2 rest)"
      using items_split [OF 1(2) wf1(1) 1(5)] by blast
    obtain a3 c3 d3 where 3: "c2 = a3 @ c3" "write_items 0 [] = Inr c3" "\<forall>rest. ReadValue (at d2 (a3 @ rest)) = (Inr (PMap extra), at d3 rest)"
      using items_split [OF 2(2) wf1(2) 2(3)] by blast
    show ?thesis
      using written_string_at [OF 1(3,4)] readMap_at [OF 2(4)] readMap_at [OF 3(3)] 1(1) 2(1) 3(1,2)
      by (auto simp: decodeRun_def expect_fields_def)
  qed
  then show ?thesis by (simp add: reads_fields_def numeral_3_eq_3 del: write_items.simps decoded_cost.simps)
qed

lemma route_reads: "reads_fields decodeRoute [PMap routing, PList bookmarks, db] (Route routing bookmarks db)"
proof -
  let ?fs = "[PMap routing, PList bookmarks, db]"
  have "\<exists>d'. decodeRoute 3 (at d (b @ rest)) = (Inr (Route routing bookmarks db), at d' rest)"
    if w: "write_items 0 ?fs = Inr b" and wf: "list_all wf_value ?fs" and r: "room b (sum_list (map decoded_cost ?fs)) d"
    for b d rest
  proof -
    have wf1: "list_all wf_value [PList bookmarks, db]" "list_all wf_value [db]" using wf by simp_all
    obtain a1 c1 d1 where 1: "b = a1 @ c1" "write_items 0 [PList bookmarks, db] = Inr c1"
      "room c1 (sum_list (map decoded_cost [PList bookmarks, db])) d1"
      "\<forall>rest. ReadValue (at d (a1 @ rest)) = (Inr (PMap routing), at d1 rest)"
      using items_split [OF w wf r] by blast
    obtain a2 c2 d2 where 2: "c1 = a2 @ c2" "write_items 0 [db] = Inr c2" "room c2 (sum_list (map decoded_cost [db])) d2"
      "\<forall>rest. ReadValue (at d1 (a2 @ rest)) = (Inr (PList bookmarks), at d2 rest)"
      using items_split [OF 1(2) wf1(1) 1(3)] by blast
    obtain a3 c3 d3 where 3: "c2 = a3 @ c3" "write_items 0 [] = Inr c3" "\<forall>rest. ReadValue (at d2 (a3 @ rest)) = (Inr db, at d3 rest)"
      using items_split [OF 2(2) wf1(2) 2(3)] by blast
    show ?thesis
      using readMap_at [OF 1(4)] readList_at [OF 2(4)] 3(3) 1(1) 2(1) 3(1,2)
      by (auto simp: decodeRoute_def expect_fields_def)
  qed
  then show ?thesis by (simp add: reads_fields_def numeral_3_eq_3 del: write_items.simps decoded_cost.simps)
qed

lemma keys_distinct: "str ''n'' \<noteq> str ''qid''" "str ''code'' \<noteq> str ''message''"
  by (simp_all add: str_def)

lemma pull_entry_at:
  assumes "WriteString k = Inr kb" and "room kb 0 d"
  shows "pull_entries (Suc count) acc (at d (kb @ WriteInt i @ rest)) =
    pull_entries count (if k = str ''n'' then (i, snd acc) else if k = str ''qid'' then (fst acc, i) else acc) (at d rest)"
proof -
  have K: "ReadString (at d (kb @ s)) = (Inr k, at d s)" for s
    using written_string_at [of k kb d s] assms by (simp add: writeValue_eqs)
  obtain m t where m: "WriteInt i = m # t" "markerToType m = TypeInt" using WriteInt_marker by blast
  have V: "ReadValue (at d (WriteInt i @ rest)) = (Inr (PInt i), at d rest)"
    using readValue_at [OF _ m(2), of 0 d "t @ rest"] ReadInt_at [of d i rest] m(1) by (simp add: ReadValue_def value_switch_def)
  show ?thesis using K V by (cases acc) simp
qed

lemma pull_reads:
  "reads_fields (decodePullDiscard mk) [PMap [(str ''n'', PInt n), (str ''qid'', PInt qid)]] (mk n qid)"
proof -
  let ?kvs = "[(str ''n'', PInt n), (str ''qid'', PInt qid)]"
  have "\<exists>d'. decodePullDiscard mk 1 (at d (b @ rest)) = (Inr (mk n qid), at d' rest)"
    if w: "write_items 0 [PMap ?kvs] = Inr b" and r: "room b (decoded_cost (PMap ?kvs)) d" for b d rest
  proof -
    obtain h es where h: "WriteMapHeader (length ?kvs) = Inr h" "write_entries 1 ?kvs = Inr es" "b = h @ es"
      using w by (auto simp: writeValue_eqs result_bind_eq_Inr_iff simp del: write_entries.simps)
    obtain nb qb where k: "WriteString (str ''n'') = Inr nb" "WriteString (str ''qid'') = Inr qb"
      "es = nb @ WriteInt n @ qb @ WriteInt qid"
      using h(2) by (auto simp: writeValue_eqs maxValueDepth_def result_bind_eq_Inr_iff)
    let ?c = "mapCollectionCost + int (length ?kvs) * mapEntryCost"
    have d: "d_shared d = None" "?c \<le> d_decodedRemaining d" "room nb 0 (charge ?c d)" "room qb 0 (charge ?c d)"
      using r k(3) h(3) by (auto simp: room_def)
    note H = ReadMapHeader_at [OF h(1) _ d(1) _ d(2), of "es @ rest"]
    have H1: "ReadMapHeader (at d (h @ es @ rest)) = (Inr (length ?kvs), at (charge ?c d) (es @ rest))"
      and H2: "\<exists>m t. h = m # t \<and> markerToType m = TypeMap"
      using H write_entries_length [OF h(2)] by (auto simp: wire32MaxLen_def)
    obtain m t where m: "h = m # t" "markerToType m = TypeMap" using H2 by blast
    have P: "PeekType (at d (b @ rest)) = (Inr TypeMap, at d (b @ rest))" using m h(3) by (simp add: PeekType_def)
    have "pull_entries (Suc (Suc 0)) (- 1, - 1) (at (charge ?c d) (es @ rest)) = (Inr (n, qid), at (charge ?c d) rest)"
      using pull_entry_at [OF k(1) d(3)] pull_entry_at [OF k(2) d(4)] keys_distinct(1) unfolding k(3) append_assoc
      by (simp del: pull_entries.simps(2))
    then show ?thesis using P H1 h(3) by (auto simp: decodePullDiscard_def expect_fields_def)
  qed
  then show ?thesis by (simp add: reads_fields_def del: write_items.simps decoded_cost.simps)
qed

subsection \<open>Messages are read back\<close>

lemma decode_parts:
  assumes e: "encode_parts p = Inr bs" and ok: "parts_ok p" and len: "length bs \<le> wire32MaxLen"
    and f: "reads_fields f (snd p) x"
    and m: "m = dbind ReadStructHeader g" and g: "g (fst p, length (snd p)) = f (length (snd p))"
  shows "\<exists>d'. m (NewDecoder (bs @ rest)) = (Inr x, at d' rest)"
proof -
  have "room bs (parts_cost p) (NewDecoder (bs @ rest))" using ok len by (simp add: room_def parts_ok_def NewDecoder_def)
  from parts_header_at [OF e this] obtain b d' where b: "write_items 0 (snd p) = Inr b"
    "room b (sum_list (map decoded_cost (snd p))) d'"
    "ReadStructHeader (at (NewDecoder (bs @ rest)) (bs @ rest)) = (Inr (fst p, length (snd p)), at d' (b @ rest))"
    by blast
  obtain d'' where "f (length (snd p)) (at d' (b @ rest)) = (Inr x, at d'' rest)"
    using f b(1,2) ok unfolding reads_fields_def parts_ok_def by blast
  then show ?thesis using b(3) g by (auto simp: m simp flip: NewDecoder_at)
qed

lemma DecodeRequest_written:
  assumes "EncodeRequest m = Inr bs" and "parts_ok (request_parts m)" and "length bs \<le> wire32MaxLen"
  shows "\<exists>d'. DecodeRequest (NewDecoder (bs @ rest)) = (Inr m, at d' rest)"
proof -
  note D = decode_parts [OF assms(1) [unfolded Encode_parts(1)] assms(2,3) _ DecodeRequest_def]
  show ?thesis
  proof (cases m)
    case (Hello e)
    show ?thesis by (rule D [of decodeHello]) (use one_map_reads [of Hello e] in \<open>simp_all add: Hello decodeHello_def [abs_def] tag_defs\<close>)
  next
    case (Logon e)
    show ?thesis by (rule D [of decodeLogon]) (use one_map_reads [of Logon e] in \<open>simp_all add: Logon decodeLogon_def [abs_def] tag_defs\<close>)
  next
    case (Begin e)
    show ?thesis by (rule D [of decodeBegin]) (use one_map_reads [of Begin e] in \<open>simp_all add: Begin decodeBegin_def [abs_def] tag_defs\<close>)
  next
    case (Run q ps e)
    show ?thesis by (rule D [of decodeRun]) (use run_reads [of q ps e] in \<open>simp_all add: Run tag_defs\<close>)
  next
    case (Route r b db)
    show ?thesis by (rule D [of decodeRoute]) (use route_reads [of r b db] in \<open>simp_all add: Route tag_defs\<close>)
  next
    case (Pull n q)
    show ?thesis by (rule D [of "decodePullDiscard Pull"]) (use pull_reads [of Pull n q] in \<open>simp_all add: Pull tag_defs\<close>)
  next
    case (Discard n q)
    show ?thesis by (rule D [of "decodePullDiscard Discard"]) (use pull_reads [of Discard n q] in \<open>simp_all add: Discard tag_defs\<close>)
  qed (rule D [of "\<lambda>n. dbind (skipFields n) (\<lambda>_. dreturn m)"], use skip_reads [of m] in \<open>simp_all add: tag_defs\<close>)+
qed

lemma DecodeResponse_written:
  assumes "EncodeResponse m = Inr bs" and "parts_ok (response_parts m)" and "length bs \<le> wire32MaxLen"
  shows "\<exists>d'. DecodeResponse (NewDecoder (bs @ rest)) = (Inr m, at d' rest)"
proof -
  note D = decode_parts [OF assms(1) [unfolded Encode_parts(2)] assms(2,3) _ DecodeResponse_def]
  show ?thesis
  proof (cases m)
    case (Success e)
    show ?thesis by (rule D [of decodeSuccess]) (use one_map_reads [of Success e] in \<open>simp_all add: Success decodeSuccess_def [abs_def] tag_defs\<close>)
  next
    case (Record e)
    show ?thesis by (rule D [of decodeRecord]) (use one_list_reads [of Record e] in \<open>simp_all add: Record decodeRecord_def [abs_def] tag_defs\<close>)
  next
    case (Failure c e)
    let ?f = "\<lambda>meta. Failure (string_at (str ''code'') meta) (string_at (str ''message'') meta)"
      and ?m = "[(str ''code'', PString c), (str ''message'', PString e)]"
    have "?f ?m = m" using keys_distinct(2) Failure by (auto simp: string_at_def)
    with one_map_reads [of ?f ?m] have "reads_fields decodeFailure (snd (response_parts m)) m"
      by (simp add: decodeFailure_def [abs_def] Failure)
    then show ?thesis by (rule D) (simp add: Failure tag_defs)
  next
    case Ignored
    show ?thesis by (rule D [of "\<lambda>n. dbind (skipFields n) (\<lambda>_. dreturn m)"]) (use skip_reads [of m] in \<open>simp_all add: Ignored tag_defs\<close>)
  qed
qed

subsection \<open>Decoding a request keeps the budgets\<close>

lemma keeps_ReadValue [intro, simp]: "keeps ReadValue"
  by (simp add: keeps_def ReadValue_def keeps_read_values)

lemma keeps_readMap [intro, simp]: "keeps readMap" "keeps readList"
  unfolding readMap_def readList_def
  by (intro keeps_dbind keeps_ReadValue; split pvalue.split; intro conjI allI impI keeps_simple)+

lemma keeps_skipFields [intro, simp]: "keeps (skipFields n)"
proof (induction n)
  case 0
  show ?case unfolding skipFields.simps by (rule keeps_simple)
next
  case (Suc n)
  then show ?case unfolding skipFields.simps by (intro keeps_dbind keeps_ReadValue)
qed

lemma keeps_pull_entries [intro, simp]: "keeps (pull_entries n acc)"
proof (induction n arbitrary: acc)
  case 0
  show ?case unfolding pull_entries.simps by (rule keeps_simple)
next
  case (Suc n)
  obtain a b where acc: "acc = (a, b)" by (cases acc)
  show ?case unfolding acc pull_entries.simps by (intro keeps_dbind keeps_ReadValue keeps_primitives Suc.IH)
qed

lemma keeps_expect [intro]: "keeps m \<Longrightarrow> keeps (expect_fields k n m)"
  unfolding expect_fields_def by (intro keeps_if keeps_simple)

lemma keeps_decoders [intro, simp]:
  "keeps (decodeHello n)" "keeps (decodeLogon n)" "keeps (decodeRun n)" "keeps (decodePullDiscard mk n)"
  "keeps (decodeBegin n)" "keeps (decodeRoute n)"
proof -
  note parts = keeps_expect keeps_dbind keeps_readMap keeps_ReadValue keeps_primitives keeps_simple keeps_pull_entries
  show "keeps (decodeHello n)" "keeps (decodeLogon n)" "keeps (decodeRun n)" "keeps (decodeBegin n)" "keeps (decodeRoute n)"
    unfolding decodeHello_def decodeLogon_def decodeRun_def decodeBegin_def decodeRoute_def by (intro parts)+
  show "keeps (decodePullDiscard mk n)"
    unfolding decodePullDiscard_def case_prod_beta
    by (intro keeps_expect keeps_dbind keeps_primitives; split ptype.split; intro conjI impI parts)
qed

lemma keeps_DecodeRequest: "keeps DecodeRequest"
  unfolding DecodeRequest_def case_prod_beta
  by (intro keeps_dbind keeps_if keeps_primitives keeps_decoders keeps_skipFields keeps_simple)

subsection \<open>One connection\<close>

text \<open>
  How the server reads a request: a message is reassembled and decoded under the same pool. The
  peer reads a response the same way, without a pool.
\<close>

definition decodeRequestBudgeted :: "bytes \<Rightarrow> int option \<Rightarrow> (pk_error, request) result \<times> int option" where
  "decodeRequestBudgeted raw pool =
     (case DecodeRequest (SetInboundBudget pool (NewDecoder raw)) of
        (r, dec) \<Rightarrow> (r, fst (ReleaseInboundBudget dec)))"

definition get_request :: "chunked_reader \<Rightarrow> (frame_error + pk_error, request) result \<times> chunked_reader" where
  "get_request cr =
     (case ReadMessage cr of
        (Inl e, cr') \<Rightarrow> (Inl (Inl e), cr')
      | (Inr raw, cr') \<Rightarrow>
          (case decodeRequestBudgeted raw (cr_budget cr') of
             (Inl e, pool) \<Rightarrow> (Inl (Inr e), cr'\<lparr>cr_budget := pool\<rparr>)
           | (Inr m, pool) \<Rightarrow> (Inr m, cr'\<lparr>cr_budget := pool\<rparr>)))"

definition get_response :: "chunked_reader \<Rightarrow> (frame_error + pk_error, response) result \<times> chunked_reader" where
  "get_response cr =
     (case ReadMessage cr of
        (Inl e, cr') \<Rightarrow> (Inl (Inl e), cr')
      | (Inr raw, cr') \<Rightarrow> (case fst (DecodeResponse (NewDecoder raw)) of
             Inl e \<Rightarrow> (Inl (Inr e), cr') | Inr m \<Rightarrow> (Inr m, cr')))"

definition sent :: "(pk_error, bytes) result \<Rightarrow> bytes" where
  "sent r = (case r of Inl _ \<Rightarrow> [] | Inr bs \<Rightarrow> WriteMessage bs)"

text \<open>What a reader without a pool accepts: a message with an encoding within its caps.\<close>

definition accepts_parts :: "chunked_reader \<Rightarrow> byte \<times> pvalue list \<Rightarrow> bool" where
  "accepts_parts cr p \<longleftrightarrow> cr_budget cr = None \<and> parts_ok p \<and>
     (case encode_parts p of Inl _ \<Rightarrow> False
      | Inr bs \<Rightarrow> int (length bs) \<le> cr_maxMessageBytes cr \<and> length bs \<le> wire32MaxLen)"

lemma accepts_partsE:
  assumes "accepts_parts cr p"
  obtains bs where "encode_parts p = Inr bs" "parts_ok p" "length bs \<le> wire32MaxLen"
    "ReadMessage (load cr (WriteMessage bs @ rest)) = (Inr bs, load cr rest)" "cr_budget cr = None"
proof -
  obtain bs where bs: "encode_parts p = Inr bs" "parts_ok p" "length bs \<le> wire32MaxLen" "accepts_frame cr bs" "cr_budget cr = None"
  proof -
    obtain bs where bs: "encode_parts p = Inr bs" "parts_ok p" "int (length bs) \<le> cr_maxMessageBytes cr"
      "length bs \<le> wire32MaxLen" "cr_budget cr = None"
      using assms by (auto simp: accepts_parts_def split: sum.splits)
    have "bs \<noteq> []"
      using bs(1) by (auto simp: encode_parts_def wseq_def WriteStructHeader_def result_bind_eq_Inr_iff split: if_splits)
    then have "accepts_frame cr bs" using bs(3,5) by (simp add: accepts_frame_def fits_def)
    with bs show thesis by (intro that)
  qed
  with framing.get_put [OF bs(4), of rest] show thesis by (intro that)
qed

interpretation requests: message_transport "\<lambda>m. sent (EncodeRequest m)" get_request load "\<lambda>cr m. accepts_parts cr (request_parts m)"
proof
  fix cr m rest assume "accepts_parts cr (request_parts m)"
  then obtain bs where bs: "encode_parts (request_parts m) = Inr bs" "parts_ok (request_parts m)" "length bs \<le> wire32MaxLen"
    "ReadMessage (load cr (WriteMessage bs @ rest)) = (Inr bs, load cr rest)" "cr_budget cr = None"
    by (rule accepts_partsE)
  have e: "EncodeRequest m = Inr bs" using bs(1) Encode_parts(1) by simp
  have n: "SetInboundBudget None (NewDecoder bs) = NewDecoder bs" by (simp add: SetInboundBudget_def NewDecoder_def)
  obtain d' where D: "DecodeRequest (NewDecoder bs) = (Inr m, d')"
    using DecodeRequest_written [OF e bs(2,3), of "[]"] by auto
  then have "frame (NewDecoder bs) d'" using keepsD [OF keeps_DecodeRequest] by blast
  then have "fst (ReleaseInboundBudget d') = None" by (simp add: frame_def pool_total_def NewDecoder_def ReleaseInboundBudget_def)
  then have "decodeRequestBudgeted bs None = (Inr m, None)" using D n by (simp add: decodeRequestBudgeted_def)
  then show "get_request (load cr (sent (EncodeRequest m) @ rest)) = (Inr m, load cr rest)"
    using bs(4,5) e by (simp add: get_request_def sent_def load_def)
qed

interpretation responses: message_transport "\<lambda>m. sent (EncodeResponse m)" get_response load "\<lambda>cr m. accepts_parts cr (response_parts m)"
proof
  fix cr m rest assume "accepts_parts cr (response_parts m)"
  then obtain bs where bs: "encode_parts (response_parts m) = Inr bs" "parts_ok (response_parts m)" "length bs \<le> wire32MaxLen"
    "ReadMessage (load cr (WriteMessage bs @ rest)) = (Inr bs, load cr rest)" "cr_budget cr = None"
    by (rule accepts_partsE)
  have e: "EncodeResponse m = Inr bs" using bs(1) Encode_parts(2) by simp
  show "get_response (load cr (sent (EncodeResponse m) @ rest)) = (Inr m, load cr rest)"
    using DecodeResponse_written [OF e bs(2,3), of "[]"] bs(4) e by (auto simp: get_response_def sent_def)
qed

subsection \<open>Properties\<close>

text \<open>
  Property C26. Messages are delivered: requests the client encodes and frames one after the other are
  reassembled and decoded by the server to the same requests in the same order, and the responses the
  server sends are received likewise, each side stopping right behind the last message. A message is
  accepted when it has an encoding within the caps of the reader; map keys are distinct.
\<close>
theorem bolt_messages_delivered:
  assumes "\<forall>m \<in> set ms. accepts_parts cr (request_parts m)" and "\<forall>r \<in> set rs. accepts_parts cr' (response_parts r)"
  shows "receive get_request (length ms) (load cr (concat (map (\<lambda>m. sent (EncodeRequest m)) ms) @ rest)) = (Inr ms, load cr rest)
    \<and> receive get_response (length rs) (load cr' (concat (map (\<lambda>r. sent (EncodeResponse r)) rs) @ rest')) = (Inr rs, load cr' rest')"
  using requests.receive_all [OF assms(1)] responses.receive_all [OF assms(2)] by blast

theorem bolt_messages_delivered_witness:
  "receive get_request 2 (load (NewChunkedReader []) (sent (EncodeRequest (Logon [(str ''scheme'', PString (str ''none''))])) @
      sent (EncodeRequest Goodbye))) =
     (Inr [Logon [(str ''scheme'', PString (str ''none''))], Goodbye], load (NewChunkedReader []) [])"
proof -
  let ?ms = "[Logon [(str ''scheme'', PString (str ''none''))], Goodbye]" and ?cr = "NewChunkedReader []"
  have cap: "cr_maxMessageBytes ?cr = 16777216" "cr_budget ?cr = None"
    by (simp_all add: NewChunkedReader_def NewChunkedReaderWithLimit_def DefaultMaxMessageBytes_def)
  have cost: "parts_ok (request_parts m)" if "m \<in> set ?ms" for m
    using that by (auto simp: parts_ok_def parts_cost_def maxDecodedCollectionBytes_def collectionCost_def listElemCost_def
        mapCollectionCost_def mapEntryCost_def)
  have "encode_parts (request_parts (Logon [(str ''scheme'', PString (str ''none''))])) =
      Inr [0xB1, 0x6A, 0xA1, 0x86, 0x73, 0x63, 0x68, 0x65, 0x6D, 0x65, 0x84, 0x6E, 0x6F, 0x6E, 0x65]"
    "encode_parts (request_parts Goodbye) = Inr [0xB0, 0x02]"
    by (simp_all add: encode_parts_def WriteStructHeader_def writeValue_eqs maxValueDepth_def WriteMapHeader_def WriteString_def
        count_prefix_def tag_defs str_def)
  then have "\<forall>m \<in> set ?ms. accepts_parts ?cr (request_parts m)"
    using cost cap by (simp add: accepts_parts_def wire32MaxLen_def del: request_parts.simps)
  from bolt_messages_delivered [OF this, of "[]" ?cr "[]" "[]"] show ?thesis
    by (simp add: numeral_2_eq_2 del: receive.simps EncodeRequest.simps)
qed

end
