(* ===== verification/Bolt_State.thy ===== *)
theory Bolt_State
  imports Bolt_Messages
begin

text \<open>
  The protocol states of a Bolt connection and the transition functions of
  \<open>bolt/server/state.go\<close>. The boolean of a result is \<open>ErrInvalidTransition\<close>.
\<close>

datatype State =
    StateConnected | StateNegotiation | StateAuthentication | StateReady | StateStreaming
  | StateTxReady | StateTxStreaming | StateFailed | StateDefunct

fun State_String :: "State \<Rightarrow> string" where
  "State_String StateConnected = ''CONNECTED''"
| "State_String StateNegotiation = ''NEGOTIATION''"
| "State_String StateAuthentication = ''AUTHENTICATION''"
| "State_String StateReady = ''READY''"
| "State_String StateStreaming = ''STREAMING''"
| "State_String StateTxReady = ''TX_READY''"
| "State_String StateTxStreaming = ''TX_STREAMING''"
| "State_String StateFailed = ''FAILED''"
| "State_String StateDefunct = ''DEFUNCT''"

text \<open>A legal message: its target, or FAILED when the operation failed.\<close>

definition goto :: "bool \<Rightarrow> State \<Rightarrow> State \<times> bool" where
  "goto success next = (if \<not> success then (StateFailed, False) else (next, False))"

definition illegal :: "State \<times> bool" where
  "illegal = (StateFailed, True)"

definition Transition :: "State \<Rightarrow> request \<Rightarrow> bool \<Rightarrow> State \<times> bool" where
  "Transition current msg success =
     (case msg of
        Goodbye \<Rightarrow> if current = StateDefunct then (StateDefunct, True) else (StateDefunct, False)
      | Reset \<Rightarrow>
          if current = StateDefunct then (StateDefunct, True)
          else if \<not> success then (StateFailed, False)
          else if current = StateConnected \<or> current = StateNegotiation \<or> current = StateAuthentication
          then (StateNegotiation, False)
          else (StateReady, False)
      | _ \<Rightarrow>
         (case current of
            StateConnected \<Rightarrow> illegal
          | StateNegotiation \<Rightarrow> (case msg of Hello _ \<Rightarrow> goto success StateReady | _ \<Rightarrow> illegal)
          | StateAuthentication \<Rightarrow>
              (case msg of Logon _ \<Rightarrow> goto success StateReady | Logoff \<Rightarrow> goto success StateAuthentication | _ \<Rightarrow> illegal)
          | StateReady \<Rightarrow>
              (case msg of Run _ _ _ \<Rightarrow> goto success StateStreaming | Begin _ \<Rightarrow> goto success StateTxReady
               | Logon _ \<Rightarrow> goto success StateReady | Logoff \<Rightarrow> goto success StateReady | _ \<Rightarrow> illegal)
          | StateStreaming \<Rightarrow>
              (case msg of Pull _ _ \<Rightarrow> goto success StateReady | Discard _ _ \<Rightarrow> goto success StateReady | _ \<Rightarrow> illegal)
          | StateTxReady \<Rightarrow>
              (case msg of Run _ _ _ \<Rightarrow> goto success StateTxStreaming | Commit \<Rightarrow> goto success StateReady
               | Rollback \<Rightarrow> goto success StateReady | Logon _ \<Rightarrow> goto success StateTxReady
               | Logoff \<Rightarrow> goto success StateTxReady | _ \<Rightarrow> illegal)
          | StateTxStreaming \<Rightarrow>
              (case msg of Pull _ _ \<Rightarrow> goto success StateTxReady | Discard _ _ \<Rightarrow> goto success StateTxReady | _ \<Rightarrow> illegal)
          | StateFailed \<Rightarrow> illegal
          | StateDefunct \<Rightarrow> (StateDefunct, True)))"

definition boltAuthDeferredVersion :: Version where
  "boltAuthDeferredVersion = \<lparr>v_Major = 5, v_Minor = 1\<rparr>"

definition authDeferredToLogon :: "Version \<Rightarrow> bool" where
  "authDeferredToLogon v =
     (if v_Major v \<noteq> v_Major boltAuthDeferredVersion then v_Major v > v_Major boltAuthDeferredVersion
      else v_Minor v \<ge> v_Minor boltAuthDeferredVersion)"

definition HelloTransition :: "State \<Rightarrow> Version \<Rightarrow> bool \<Rightarrow> State \<times> bool" where
  "HelloTransition current ver success =
     (if current \<noteq> StateNegotiation \<or> \<not> success then Transition current (Hello []) success
      else if authDeferredToLogon ver then (StateAuthentication, False)
      else (StateReady, False))"

definition StreamingTransition :: "State \<Rightarrow> bool \<Rightarrow> State \<times> bool" where
  "StreamingTransition current hasMore =
     (case current of
        StateStreaming \<Rightarrow> if hasMore then (StateStreaming, False) else (StateReady, False)
      | StateTxStreaming \<Rightarrow> if hasMore then (StateTxStreaming, False) else (StateTxReady, False)
      | _ \<Rightarrow> illegal)"

lemma authDeferred_iff: "authDeferredToLogon v \<longleftrightarrow> version_rank \<lparr>v_Major = 5, v_Minor = 1\<rparr> \<le> version_rank v"
proof -
  have "unat (v_Minor v) < 256" using unsigned_less [of "v_Minor v"] by simp
  then show ?thesis
    unfolding authDeferredToLogon_def boltAuthDeferredVersion_def version_rank_def
    by (auto simp: word_less_nat_alt word_le_nat_alt word_unat_eq_iff)
qed

end
