(* ===== verification/Bolt_Session.thy ===== *)
theory Bolt_Session
  imports Bolt_State
begin

text \<open>
  One Bolt connection's session (\<open>bolt/server/session.go\<close>, \<open>tx.go\<close>, \<open>txquota.go\<close>, the registry of
  \<open>txregistry.go\<close> and the handlers of \<open>auth.go\<close>): its state, what it shares with the other sessions of
  the server, and one definition per helper and message handler. What the engine, the authentication
  handler, the clock and the record sink answer is an argument (\<open>env\<close>); every call into the engine is
  recorded in a trace, newest first. Errors of the engine are the code and text \<open>FailureCode\<close> and
  \<open>sanitiseErr\<close> make of them; rows are the PackStream values \<open>exprToPackstream\<close> makes of them. A zero
  \<open>time.Time\<close> is \<open>None\<close>, a duration its nanoseconds.
\<close>

subsection \<open>Formatting\<close>

fun dec_nat :: "nat \<Rightarrow> string" where
  "dec_nat n = (if n < 10 then [char_of (48 + n)] else dec_nat (n div 10) @ [char_of (48 + n mod 10)])"

declare dec_nat.simps [simp del]

definition dec_int :: "int \<Rightarrow> string" where
  "dec_int i = (if i < 0 then ''-'' @ dec_nat (nat (- i)) else dec_nat (nat i))"

definition hex_digit :: "nat \<Rightarrow> char" where
  "hex_digit d = (if d < 10 then char_of (48 + d) else char_of (87 + d))"

fun hex_nat :: "nat \<Rightarrow> string" where
  "hex_nat n = (if n < 16 then [hex_digit n] else hex_nat (n div 16) @ [hex_digit (n mod 16)])"

declare hex_nat.simps [simp del]

text \<open>\<open>%08x\<close>\<close>

definition hex8 :: "nat \<Rightarrow> string" where
  "hex8 n = (let h = hex_nat n in replicate (8 - length h) (CHR ''0'') @ h)"

text \<open>\<open>%T\<close> of a request\<close>

fun type_name :: "request \<Rightarrow> string" where
  "type_name (Hello _) = ''*proto.Hello''"
| "type_name (Logon _) = ''*proto.Logon''"
| "type_name Logoff = ''*proto.Logoff''"
| "type_name Goodbye = ''*proto.Goodbye''"
| "type_name Reset = ''*proto.Reset''"
| "type_name (Run _ _ _) = ''*proto.Run''"
| "type_name (Pull _ _) = ''*proto.Pull''"
| "type_name (Discard _ _) = ''*proto.Discard''"
| "type_name (Begin _) = ''*proto.Begin''"
| "type_name Commit = ''*proto.Commit''"
| "type_name Rollback = ''*proto.Rollback''"
| "type_name (Route _ _ _) = ''*proto.Route''"

subsection \<open>Authentication handlers\<close>

datatype auth_error = ErrSchemeUnknown | ErrAuthFailed | ErrAuthOther bytes

type_synonym auth_handler = "bytes \<Rightarrow> bytes \<Rightarrow> bytes \<Rightarrow> (auth_error, bytes) result"

definition NoAuthHandler_Authenticate :: auth_handler where
  "NoAuthHandler_Authenticate _ princ _ = Inr princ"

definition BasicAuthHandler_Authenticate :: "(bytes \<Rightarrow> bytes \<Rightarrow> bool) \<Rightarrow> auth_handler" where
  "BasicAuthHandler_Authenticate Validate scheme princ credentials =
     (if scheme \<noteq> str ''basic'' \<and> scheme \<noteq> [] then Inl ErrSchemeUnknown
      else if \<not> Validate princ credentials then Inl ErrAuthFailed
      else Inr princ)"

definition ConstantTimeValidate :: "bytes \<Rightarrow> bytes \<Rightarrow> bytes \<Rightarrow> bytes \<Rightarrow> bool" where
  "ConstantTimeValidate wantPrincipal wantCredentials princ credentials \<longleftrightarrow>
     princ = wantPrincipal \<and> credentials = wantCredentials"

definition authErrorCode :: "auth_error \<Rightarrow> bytes" where
  "authErrorCode err = (case err of
     ErrSchemeUnknown \<Rightarrow> str ''Neo.ClientError.Security.AuthProviderFailed''
   | _ \<Rightarrow> str ''Neo.ClientError.Security.Unauthorized'')"

definition auth_sanitised :: "auth_error \<Rightarrow> bytes" where
  "auth_sanitised err = (case err of ErrAuthOther text \<Rightarrow> text | _ \<Rightarrow> str ''Authentication failed.'')"

subsection \<open>Engine results\<close>

type_synonym eng_error = "bytes \<times> bytes"

text \<open>
  A cursor: the rows still to come, the error \<open>Next\<close> would stop with, and what \<open>Err\<close> reports now.
\<close>

record result_cursor =
  r_rows :: "pvalue list list"
  r_end :: "eng_error option"
  r_err :: "eng_error option"
  r_columns :: "bytes list"
  r_notifications :: "pvalue list"
  r_stats :: pmap
  r_plan :: "pmap option"
  r_profile :: "pmap option"

definition Result_Next :: "result_cursor \<Rightarrow> pvalue list option \<times> result_cursor" where
  "Result_Next r = (case r_rows r of
     [] \<Rightarrow> (None, r\<lparr>r_err := (case r_end r of None \<Rightarrow> r_err r | Some e \<Rightarrow> Some e)\<rparr>)
   | row # rows \<Rightarrow> (Some row, r\<lparr>r_rows := rows\<rparr>))"

definition NewErrResult :: "eng_error \<Rightarrow> result_cursor" where
  "NewErrResult e = \<lparr>r_rows = [], r_end = None, r_err = Some e, r_columns = [], r_notifications = [], r_stats = [],
     r_plan = None, r_profile = None\<rparr>"

datatype exec_outcome = ExecOK result_cursor | ExecPipeline eng_error | ExecErr eng_error

subsection \<open>State\<close>

text \<open>What the sessions of a server share: the quota, the registry, the counters and the bookmarks.\<close>

record txEntry =
  te_principal :: bytes
  te_remote :: bytes
  te_mode :: bytes
  te_state :: bytes
  te_query :: bytes

datatype event = EvAuth bytes | EvDeauth | EvRunAny bytes pmap | EvBegin bytes | EvExec bytes pmap | EvCommit | EvRollback
  | EvCloseCursor

record server =
  q_open :: "bytes \<Rightarrow> nat"
  g_entries :: "bytes \<rightharpoonup> txEntry"
  g_seq :: nat
  m_txOpened :: nat
  m_txClosed :: nat
  m_txAbandoned :: nat
  m_txQuotaRejected :: nat
  bookmarkCounter :: nat

text \<open>What the bootstrap sets once.\<close>

record session_config =
  c_id :: bytes
  c_localAddr :: bytes
  c_remote :: bytes
  c_boltVersion :: Version
  c_serverDatabase :: bytes
  c_maxInFlight :: int
  c_maxStmtTimeout :: int
  c_defaultStmtTimeout :: int
  c_defaultTxTimeout :: int
  c_maxTxIdle :: int
  c_txReg :: bool
  c_txQuota :: bool
  c_quotaLimit :: int
  c_records :: bool

text \<open>A transaction: its mode and how many cursors it has opened.\<close>

record Tx =
  tx_mode :: bytes
  tx_results :: nat

record Session =
  s_cfg :: session_config
  s_srv :: server
  s_trace :: "event list"
  s_txDeadline :: "int option"
  s_result :: "result_cursor option"
  s_resultCancel :: bool
  s_peeked :: "pvalue list option"
  s_pendingTermErr :: "eng_error option"
  s_tx :: "Tx option"
  s_identity :: bytes
  s_bookmark :: bytes
  s_autocommitStmt :: bool
  s_columns :: "bytes list"
  s_stmtTimeout :: int
  s_authenticated :: bool
  s_state :: State
  s_txActive :: bool
  s_txAccounted :: bool
  s_txIdleDeadline :: "int option"
  s_txID :: "bytes option"
  s_terminate :: bool
  s_txQuotaHeld :: bool
  s_txQuotaPrincipal :: bytes
  s_clientDatabase :: bytes

definition newSession :: "session_config \<Rightarrow> server \<Rightarrow> Session" where
  "newSession cfg srv = \<lparr>s_cfg = cfg, s_srv = srv, s_trace = [], s_txDeadline = None, s_result = None, s_resultCancel = False,
     s_peeked = None, s_pendingTermErr = None, s_tx = None, s_identity = [], s_bookmark = [], s_autocommitStmt = False,
     s_columns = [], s_stmtTimeout = 0, s_authenticated = False, s_state = StateNegotiation, s_txActive = False,
     s_txAccounted = False, s_txIdleDeadline = None, s_txID = None, s_terminate = False, s_txQuotaHeld = False,
     s_txQuotaPrincipal = [], s_clientDatabase = []\<rparr>"

text \<open>
  What the outside answers while one message is handled: the context at entry and at the steps of a
  PULL, the authentication handler, the engine, the clock, the sink's writes, and \<open>strconv.Quote\<close>.
\<close>

record env =
  e_ctxErr :: "bytes option"
  e_ctxDone :: "nat \<Rightarrow> bytes option"
  e_auth :: auth_handler
  e_RunAny :: "bytes \<Rightarrow> pmap \<Rightarrow> (eng_error, result_cursor) result"
  e_BeginTx :: "bytes \<Rightarrow> eng_error option"
  e_Exec :: "bytes \<Rightarrow> pmap \<Rightarrow> exec_outcome"
  e_Commit :: "eng_error option"
  e_now :: int
  e_sinkOK :: "nat \<Rightarrow> bool"
  e_quote :: "bytes \<Rightarrow> bytes"

text \<open>What a handler answers: the records written through the sink, and the responses to send,
  \<open>errRecordWrite\<close>, or the panic of a method call on a nil cursor.\<close>

datatype outcome = Respond "response list" | RecordWriteFailed | NilPanic

type_synonym reply = "response list \<times> outcome"

definition tell :: "event \<Rightarrow> Session \<Rightarrow> Session" where
  "tell ev s = s\<lparr>s_trace := ev # s_trace s\<rparr>"

definition srv_upd :: "(server \<Rightarrow> server) \<Rightarrow> Session \<Rightarrow> Session" where
  "srv_upd f s = s\<lparr>s_srv := f (s_srv s)\<rparr>"

subsection \<open>Quota, registry and metrics\<close>

definition quota_acquire :: "int \<Rightarrow> bytes \<Rightarrow> (bytes \<Rightarrow> nat) \<Rightarrow> (bytes \<Rightarrow> nat) option" where
  "quota_acquire limit princ q =
     (if limit \<le> 0 then Some q
      else if int (q princ) \<ge> limit then None
      else Some (q(princ := q princ + 1)))"

definition quota_release :: "int \<Rightarrow> bytes \<Rightarrow> (bytes \<Rightarrow> nat) \<Rightarrow> (bytes \<Rightarrow> nat)" where
  "quota_release limit princ q =
     (if limit \<le> 0 then q
      else let n = q princ in if n \<le> 1 then q(princ := 0) else q(princ := n - 1))"

definition acquireTxQuota :: "Session \<Rightarrow> bool \<times> Session" where
  "acquireTxQuota s =
     (if \<not> c_txQuota (s_cfg s) then (True, s)
      else let princ = s_identity s
           in case quota_acquire (c_quotaLimit (s_cfg s)) princ (q_open (s_srv s)) of
                None \<Rightarrow> (False, s)
              | Some q \<Rightarrow> (True, (srv_upd (q_open_update (\<lambda>_. q)) s)\<lparr>s_txQuotaHeld := True, s_txQuotaPrincipal := princ\<rparr>))"

definition releaseTxQuota :: "Session \<Rightarrow> Session" where
  "releaseTxQuota s =
     (if \<not> s_txQuotaHeld s then s
      else let s1 = s\<lparr>s_txQuotaHeld := False\<rparr>;
               s2 = (if c_txQuota (s_cfg s1)
                     then srv_upd (q_open_update (quota_release (c_quotaLimit (s_cfg s1)) (s_txQuotaPrincipal s1))) s1 else s1)
           in s2\<lparr>s_txQuotaPrincipal := []\<rparr>)"

definition nextID :: "bytes \<Rightarrow> nat \<Rightarrow> bytes" where
  "nextID sessionID seq = sessionID @ str (''-'' @ dec_nat seq)"

definition newTxEntry :: "bytes \<Rightarrow> bytes \<Rightarrow> bytes \<Rightarrow> bytes \<Rightarrow> txEntry" where
  "newTxEntry princ remote mode state =
     \<lparr>te_principal = princ, te_remote = remote, te_mode = mode, te_state = state, te_query = []\<rparr>"

definition registerTx :: "bytes \<Rightarrow> Session \<Rightarrow> Session" where
  "registerTx mode s =
     (if \<not> c_txReg (s_cfg s) then s
      else let s1 = srv_upd (g_seq_update Suc) s;
               txid = nextID (c_id (s_cfg s)) (g_seq (s_srv s1));
               ent = newTxEntry (s_identity s1) (c_remote (s_cfg s)) mode (str (State_String (s_state s1)))
           in (srv_upd (g_entries_update (\<lambda>m. m(txid \<mapsto> ent))) s1)\<lparr>s_txID := Some txid\<rparr>)"

definition unregisterTx :: "Session \<Rightarrow> Session" where
  "unregisterTx s =
     (case s_txID s of
        None \<Rightarrow> s
      | Some txid \<Rightarrow>
          if \<not> c_txReg (s_cfg s) then s
          else (srv_upd (g_entries_update (\<lambda>m. m(txid := None))) s)\<lparr>s_txID := None, s_terminate := False\<rparr>)"

text \<open>What a listing shows of the open transaction; an empty query keeps the last one.\<close>

definition reportTx :: "bytes \<Rightarrow> Session \<Rightarrow> Session" where
  "reportTx query s =
     (case s_txID s of
        None \<Rightarrow> s
      | Some txid \<Rightarrow>
          srv_upd (g_entries_update (\<lambda>m. m(txid := map_option (\<lambda>e. e\<lparr>te_state := str (State_String (s_state s)),
            te_query := (if query = [] then te_query e else query)\<rparr>) (m txid)))) s)"

text \<open>The registry's callback for an operator's request: a pending signal on the session.\<close>

definition requestTerminate :: "Session \<Rightarrow> Session" where
  "requestTerminate s = s\<lparr>s_terminate := True\<rparr>"

definition touchTx :: "int \<Rightarrow> Session \<Rightarrow> Session" where
  "touchTx now s =
     (if \<not> s_txActive s \<or> c_maxTxIdle (s_cfg s) \<le> 0 then s\<lparr>s_txIdleDeadline := None\<rparr>
      else s\<lparr>s_txIdleDeadline := Some (now + c_maxTxIdle (s_cfg s))\<rparr>)"

definition txOpened :: "Session \<Rightarrow> Session" where
  "txOpened s = srv_upd (m_txOpened_update Suc) (s\<lparr>s_txAccounted := True\<rparr>)"

definition txClosed :: "Session \<Rightarrow> Session" where
  "txClosed s =
     (let s1 = (unregisterTx (releaseTxQuota s))\<lparr>s_txIdleDeadline := None\<rparr>
      in if \<not> s_txAccounted s1 then s1 else srv_upd (m_txClosed_update Suc) (s1\<lparr>s_txAccounted := False\<rparr>))"

subsection \<open>Transactions\<close>

text \<open>Both ends of a transaction close its cursors first.\<close>

definition closeCursors :: "Tx \<Rightarrow> Session \<Rightarrow> Session" where
  "closeCursors tx s = s\<lparr>s_trace := replicate (tx_results tx) EvCloseCursor @ s_trace s\<rparr>"

definition Tx_Rollback :: "Tx \<Rightarrow> Session \<Rightarrow> Session" where
  "Tx_Rollback tx s = tell EvRollback (closeCursors tx s)"

definition Tx_Commit :: "env \<Rightarrow> Tx \<Rightarrow> Session \<Rightarrow> eng_error option \<times> Session" where
  "Tx_Commit e tx s = (e_Commit e, tell EvCommit (closeCursors tx s))"

definition newTx :: "env \<Rightarrow> bytes \<Rightarrow> Session \<Rightarrow> (eng_error, Tx) result \<times> Session" where
  "newTx e mode s =
     ((case e_BeginTx e mode of Some err \<Rightarrow> Inl err | None \<Rightarrow> Inr \<lparr>tx_mode = mode, tx_results = 0\<rparr>), tell (EvBegin mode) s)"

text \<open>An error of the pipeline comes back as a cursor that carries it.\<close>

definition Tx_Run :: "env \<Rightarrow> bytes \<Rightarrow> pmap \<Rightarrow> Tx \<Rightarrow> Session \<Rightarrow> (eng_error, result_cursor) result \<times> Session" where
  "Tx_Run e query params tx s =
     (let s1 = tell (EvExec query params) s;
          s2 = s1\<lparr>s_tx := Some (tx\<lparr>tx_results := tx_results tx + 1\<rparr>)\<rparr>
      in case e_Exec e query params of
           ExecErr err \<Rightarrow> (Inl err, s1)
         | ExecPipeline err \<Rightarrow> (Inr (NewErrResult err), s2)
         | ExecOK r \<Rightarrow> (Inr r, s2))"

definition drainResult :: "Session \<Rightarrow> Session" where
  "drainResult s =
     (let s1 = s\<lparr>s_peeked := None\<rparr>;
          s2 = (case s_result s1 of None \<Rightarrow> s1 | Some _ \<Rightarrow> (tell EvCloseCursor s1)\<lparr>s_result := None, s_columns := []\<rparr>)
      in s2\<lparr>s_resultCancel := False\<rparr>)"

definition abortTx :: "Session \<Rightarrow> Session" where
  "abortTx s =
     (let s1 = drainResult s;
          s2 = (case s_tx s1 of None \<Rightarrow> s1 | Some tx \<Rightarrow> (Tx_Rollback tx s1)\<lparr>s_tx := None\<rparr>)
      in (txClosed s2)\<lparr>s_txActive := False\<rparr>)"

definition Close :: "Session \<Rightarrow> Session" where
  "Close s = abortTx (if s_tx s \<noteq> None then srv_upd (m_txAbandoned_update Suc) s else s)"

definition enterFailed :: "Session \<Rightarrow> Session" where
  "enterFailed s =
     (let s1 = drainResult (s\<lparr>s_state := StateFailed\<rparr>) in if s_tx s1 \<noteq> None then abortTx s1 else s1)"

definition transitionTo :: "State \<Rightarrow> Session \<Rightarrow> Session" where
  "transitionTo next s = (if next = StateFailed then enterFailed s else s\<lparr>s_state := next\<rparr>)"

definition answer :: "response list \<Rightarrow> reply" where
  "answer rs = ([], Respond rs)"

definition failTransition :: "request \<Rightarrow> Session \<Rightarrow> reply \<times> Session" where
  "failTransition msg s =
     (let origin = s_state s
      in (answer [Failure (str ''Neo.ClientError.Request.Invalid'')
                   (str (''illegal message '' @ type_name msg @ '' in state '' @ State_String origin))], enterFailed s))"

definition failWith :: "bytes \<Rightarrow> bytes \<Rightarrow> Session \<Rightarrow> reply \<times> Session" where
  "failWith code message s = (answer [Failure code message], enterFailed s)"

definition abortStream :: "response list \<Rightarrow> Session \<Rightarrow> reply \<times> Session" where
  "abortStream written s = ((written, RecordWriteFailed), enterFailed s)"

definition endTxWithReason :: "bytes \<Rightarrow> bytes \<Rightarrow> Session \<Rightarrow> Session" where
  "endTxWithReason code message s = (enterFailed s)\<lparr>s_txDeadline := None, s_pendingTermErr := Some (code, message)\<rparr>"

definition reapTimedOutTx :: "Session \<Rightarrow> Session" where
  "reapTimedOutTx s = endTxWithReason (str ''Neo.ClientError.Transaction.TransactionTimedOut'')
     (str ''the transaction has been terminated because it exceeded its timeout'') s"

definition terminateTxByOperator :: "Session \<Rightarrow> Session" where
  "terminateTxByOperator s = endTxWithReason (str ''Neo.ClientError.Transaction.Terminated'')
     (str ''the transaction has been terminated by an operator request'') s"

subsection \<open>Request metadata\<close>

definition extractString :: "pmap \<Rightarrow> string \<Rightarrow> bytes" where
  "extractString m key = string_at (str key) m"

definition databaseName :: "Session \<Rightarrow> bytes" where
  "databaseName s =
     (if s_clientDatabase s \<noteq> [] then s_clientDatabase s
      else if c_serverDatabase (s_cfg s) \<noteq> [] then c_serverDatabase (s_cfg s)
      else str ''neo4j'')"

definition selectDatabaseFrom :: "pmap \<Rightarrow> Session \<Rightarrow> Session" where
  "selectDatabaseFrom extra s = s\<lparr>s_clientDatabase := extractString extra ''db''\<rparr>"

definition impersonationRequested :: "pmap \<Rightarrow> bool" where
  "impersonationRequested extra \<longleftrightarrow> extractString extra ''imp_user'' \<noteq> []"

definition failUnsupportedImpersonation :: "Session \<Rightarrow> reply \<times> Session" where
  "failUnsupportedImpersonation s = failWith (str ''Neo.ClientError.Request.Invalid'')
     (str (''user impersonation (imp_user) is not supported by this server; '' @
           ''the request was refused rather than executed with the connection'' @ [CHR 0x27] @ ''s own identity'')) s"

definition resolveStmtTimeout :: "int \<Rightarrow> int \<Rightarrow> int \<Rightarrow> int" where
  "resolveStmtTimeout client dflt hardCap =
     (let effective = (if client \<le> 0 then dflt else client)
      in if hardCap > 0 \<and> (effective \<le> 0 \<or> effective > hardCap) then hardCap else effective)"

definition maxClientTimeoutMillis :: int where
  "maxClientTimeoutMillis = (2 ^ 63 - 1) div 1000000"

definition clientMillisToDuration :: "u64 \<Rightarrow> int option" where
  "clientMillisToDuration ms =
     (if sint ms \<le> 0 \<or> sint ms > maxClientTimeoutMillis then None else Some (sint (ms * 1000000)))"

text \<open>The duration under a key, when it is an integer the server accepts.\<close>

definition client_timeout :: "string \<Rightarrow> pmap \<Rightarrow> int option" where
  "client_timeout key extra = (case map_of extra (str key) of Some (PInt ms) \<Rightarrow> clientMillisToDuration ms | _ \<Rightarrow> None)"

definition inFlightCount :: "Session \<Rightarrow> int" where
  "inFlightCount s =
     (case s_tx s of
        Some tx \<Rightarrow> if s_txActive s then int (tx_results tx) else if s_result s \<noteq> None then 1 else 0
      | None \<Rightarrow> if s_result s \<noteq> None then 1 else 0)"

definition helloSuccessMetadata :: "Session \<Rightarrow> pmap" where
  "helloSuccessMetadata s =
     [(str ''server'', PString (str ''GoGraph/1.0'')), (str ''connection_id'', PString (c_id (s_cfg s))),
      (str ''hints'', PMap []), (str ''bolt_agent'', PMap [(str ''product'', PString (str ''GoGraph/1.0''))])]"

definition NextBookmark :: "Session \<Rightarrow> bytes \<times> Session" where
  "NextBookmark s =
     (let s1 = srv_upd (bookmarkCounter_update (\<lambda>n. (n + 1) mod 2 ^ 64)) s
      in (str (''FB:k'' @ hex8 (bookmarkCounter (s_srv s1))), s1))"

definition RoutingTable :: "bytes \<Rightarrow> pmap" where
  "RoutingTable addr =
     (let role = (\<lambda>r. PMap [(str ''addresses'', PList [PString addr]), (str ''role'', PString (str r))])
      in [(str ''rt'', PMap [(str ''ttl'', PInt 300), (str ''db'', PString []),
            (str ''servers'', PList [role ''WRITE'', role ''READ'', role ''ROUTE''])])])"

subsection \<open>Authentication messages\<close>

definition handleHello :: "env \<Rightarrow> pmap \<Rightarrow> Session \<Rightarrow> reply \<times> Session" where
  "handleHello e extra s =
     (if s_state s \<noteq> StateNegotiation then failTransition (Hello []) s
      else if authDeferredToLogon (c_boltVersion (s_cfg s)) then
        (case HelloTransition (s_state s) (c_boltVersion (s_cfg s)) True of
           (next, transErr) \<Rightarrow>
             if transErr then failTransition (Hello extra) s
             else (answer [Success (helloSuccessMetadata s)], s\<lparr>s_state := next\<rparr>))
      else
        case e_auth e (extractString extra ''scheme'') (extractString extra ''principal'') (extractString extra ''credentials'') of
          Inl err \<Rightarrow> (answer [Failure (authErrorCode err) (auth_sanitised err)], s\<lparr>s_state := StateDefunct\<rparr>)
        | Inr ident \<Rightarrow>
            let s1 = (tell (EvAuth ident) s)\<lparr>s_identity := ident, s_authenticated := True\<rparr>
            in case HelloTransition (s_state s1) (c_boltVersion (s_cfg s1)) True of
                 (next, transErr) \<Rightarrow>
                   if transErr then failTransition (Hello extra) s1
                   else (answer [Success (helloSuccessMetadata s1)], s1\<lparr>s_state := next\<rparr>))"

definition handleLogon :: "env \<Rightarrow> pmap \<Rightarrow> Session \<Rightarrow> reply \<times> Session" where
  "handleLogon e auth s =
     (if s_state s \<noteq> StateAuthentication \<and> s_state s \<noteq> StateReady \<and> s_state s \<noteq> StateTxReady
      then failTransition (Logon auth) s
      else
        let firstAuth = (s_state s = StateAuthentication)
        in case e_auth e (extractString auth ''scheme'') (extractString auth ''principal'') (extractString auth ''credentials'') of
             Inl err \<Rightarrow>
               let failure = answer [Failure (authErrorCode err) (auth_sanitised err)]
               in if firstAuth then (failure, s\<lparr>s_state := StateDefunct\<rparr>)
                  else (failure, (tell EvDeauth (enterFailed s))\<lparr>s_identity := [], s_authenticated := False, s_state := StateDefunct\<rparr>)
           | Inr ident \<Rightarrow>
               let s1 = (tell (EvAuth ident) s)\<lparr>s_identity := ident, s_authenticated := True\<rparr>
               in case Transition (s_state s1) (Logon auth) True of
                    (next, transErr) \<Rightarrow>
                      if transErr then failTransition (Logon auth) s1 else (answer [Success []], s1\<lparr>s_state := next\<rparr>))"

definition handleLogoff :: "Session \<Rightarrow> reply \<times> Session" where
  "handleLogoff s =
     (if s_state s \<noteq> StateAuthentication \<and> s_state s \<noteq> StateReady \<and> s_state s \<noteq> StateTxReady
      then failTransition Logoff s
      else case Transition (s_state s) Logoff True of
             (next, err) \<Rightarrow>
               if err then failTransition Logoff s
               else (answer [Success []], (tell EvDeauth s)\<lparr>s_state := next, s_identity := [], s_authenticated := False\<rparr>))"

text \<open>RESET, GOODBYE and ROLLBACK end an open transaction the same way.\<close>

definition roll_back_open :: "Session \<Rightarrow> Session" where
  "roll_back_open s = (case s_tx s of None \<Rightarrow> s | Some tx \<Rightarrow> txClosed ((Tx_Rollback tx s)\<lparr>s_tx := None\<rparr>))"

definition handleReset :: "Session \<Rightarrow> reply \<times> Session" where
  "handleReset s =
     (if s_state s = StateDefunct then failTransition Reset s
      else
        let s1 = drainResult (s\<lparr>s_pendingTermErr := None\<rparr>);
            s2 = (roll_back_open s1)\<lparr>s_txActive := False\<rparr>
        in if \<not> s_authenticated s2 then (answer [Success []], s2\<lparr>s_state := StateNegotiation\<rparr>)
           else case Transition (s_state s2) Reset True of
                  (next, err) \<Rightarrow> if err then failTransition Reset s2 else (answer [Success []], s2\<lparr>s_state := next\<rparr>))"

definition handleGoodbye :: "Session \<Rightarrow> reply \<times> Session" where
  "handleGoodbye s = (answer [], (roll_back_open (drainResult s))\<lparr>s_state := StateDefunct\<rparr>)"

subsection \<open>Statements\<close>

text \<open>The engine call of a RUN: inside the open transaction, or in autocommit mode.\<close>

definition run_statement :: "env \<Rightarrow> bytes \<Rightarrow> pmap \<Rightarrow> Session \<Rightarrow> (eng_error, result_cursor) result \<times> Session" where
  "run_statement e query params s =
     (case (if s_txActive s then s_tx s else None) of
        Some tx \<Rightarrow> Tx_Run e query params tx (s\<lparr>s_autocommitStmt := False\<rparr>)
      | None \<Rightarrow> (e_RunAny e query params, tell (EvRunAny query params) (s\<lparr>s_autocommitStmt := True\<rparr>)))"

text \<open>The call, the transition it leads to, and the answer.\<close>

definition run_now :: "env \<Rightarrow> bytes \<Rightarrow> pmap \<Rightarrow> pmap \<Rightarrow> int \<Rightarrow> Session \<Rightarrow> reply \<times> Session" where
  "run_now e query params extra effective s =
     (case run_statement e query params s of
        (outc, s3) \<Rightarrow>
          (case Transition (s_state s3) (Run query params extra) (case outc of Inl _ \<Rightarrow> False | Inr _ \<Rightarrow> True) of
             (next, transErr) \<Rightarrow>
               if transErr
               then failTransition (Run query params extra) (case outc of Inl _ \<Rightarrow> s3 | Inr _ \<Rightarrow> tell EvCloseCursor s3)
               else
                 let s4 = transitionTo next s3
                 in case outc of
                      Inl err \<Rightarrow> (answer [Failure (fst err) (snd err)], s4)
                    | Inr r \<Rightarrow>
                        (answer [Success [(str ''fields'', PList (map PString (r_columns r))), (str ''qid'', PInt (- 1)),
                           (str ''db'', PString (databaseName s4))]],
                         s4\<lparr>s_result := Some r, s_columns := r_columns r, s_resultCancel := (effective > 0)\<rparr>)))"

definition handleRun :: "env \<Rightarrow> bytes \<Rightarrow> pmap \<Rightarrow> pmap \<Rightarrow> Session \<Rightarrow> reply \<times> Session" where
  "handleRun e query params extra s =
     (let m = Run query params extra
      in if \<not> s_authenticated s then failTransition m s
         else if s_state s \<noteq> StateReady \<and> s_state s \<noteq> StateTxReady then failTransition m s
         else if inFlightCount s \<ge> c_maxInFlight (s_cfg s) then
           (answer [Failure (str ''Neo.ClientError.General.LimitExceeded'')
              (str (''bolt: per-connection in-flight cursor cap reached (cap='' @ dec_int (c_maxInFlight (s_cfg s)) @ '', open='' @
                dec_int (inFlightCount s) @ ''); commit/rollback or pull/discard before issuing more queries''))], enterFailed s)
         else
           let s1 = (case client_timeout ''timeout'' extra of None \<Rightarrow> s | Some d \<Rightarrow> s\<lparr>s_stmtTimeout := d\<rparr>);
               effective = resolveStmtTimeout (s_stmtTimeout s1) (c_defaultStmtTimeout (s_cfg s1)) (c_maxStmtTimeout (s_cfg s1))
           in if s_txActive s1 then run_now e query params extra effective s1
              else if impersonationRequested extra then failUnsupportedImpersonation s1
              else run_now e query params extra effective (selectDatabaseFrom extra s1))"

datatype pull_stop = PullEnd | PullCancelled bytes | PullSinkFailed

text \<open>One row goes to the sink when there is one, which may refuse it.\<close>

definition emit_ok :: "env \<Rightarrow> Session \<Rightarrow> response list \<Rightarrow> bool" where
  "emit_ok e s out \<longleftrightarrow> c_records (s_cfg s) \<longrightarrow> e_sinkOK e (length out)"

function pull_loop :: "env \<Rightarrow> Session \<Rightarrow> int \<Rightarrow> int \<Rightarrow> result_cursor \<Rightarrow> response list
    \<Rightarrow> pull_stop \<times> int \<times> result_cursor \<times> response list" where
  "pull_loop e s n fetched r out =
     (if \<not> (n \<le> 0 \<or> fetched < n) then (PullEnd, fetched, r, out)
      else case e_ctxDone e (length (r_rows r)) of
        Some text \<Rightarrow> (PullCancelled text, fetched, r, out)
      | None \<Rightarrow>
          (case Result_Next r of
             (None, r') \<Rightarrow> (PullEnd, fetched, r', out)
           | (Some row, r') \<Rightarrow>
               if \<not> emit_ok e s out then (PullSinkFailed, fetched, r', out)
               else pull_loop e s n (fetched + 1) r' (out @ [Record row])))"
  by pat_completeness auto
termination
  by (relation "measure (\<lambda>(e, s, n, fetched, r, out). length (r_rows r))") (auto simp: Result_Next_def split: list.splits)

declare pull_loop.simps [simp del]

text \<open>The terminal SUCCESS of a stream, and the part the two stream messages share: the look-ahead,
  the transition and the metadata.\<close>

definition stream_metadata :: "bool \<Rightarrow> result_cursor \<Rightarrow> bytes option \<Rightarrow> bytes \<Rightarrow> pmap" where
  "stream_metadata notify r bm db =
     [(str ''has_more'', PBool False)]
     @ (case bm of None \<Rightarrow> [] | Some b \<Rightarrow> [(str ''bookmark'', PString b)])
     @ [(str ''db'', PString db)]
     @ (if notify \<and> r_notifications r \<noteq> [] then [(str ''notifications'', PList (r_notifications r))] else [])
     @ (if r_stats r \<noteq> [] then [(str ''stats'', PMap (r_stats r))] else [])
     @ (case r_plan r of None \<Rightarrow> [] | Some p \<Rightarrow> [(str ''plan'', PMap p)])
     @ (case r_profile r of None \<Rightarrow> [] | Some p \<Rightarrow> [(str ''profile'', PMap p)])"

definition peek_more :: "int \<Rightarrow> int \<Rightarrow> result_cursor \<Rightarrow> pvalue list option \<times> result_cursor" where
  "peek_more n done_rows r = (if n > 0 \<and> done_rows = n then Result_Next r else (None, r))"

text \<open>The metadata of the terminal SUCCESS; an autocommit statement mints its bookmark here.\<close>

definition end_stream :: "bool \<Rightarrow> result_cursor \<Rightarrow> Session \<Rightarrow> pmap \<times> Session" where
  "end_stream notify r s =
     (if s_autocommitStmt s
      then (case NextBookmark s of (b, s') \<Rightarrow>
              (stream_metadata notify r (Some b) (databaseName s'), s'\<lparr>s_bookmark := b\<rparr>))
      else (stream_metadata notify r None (databaseName s), s))"

definition stream_reply :: "response list \<Rightarrow> pmap \<Rightarrow> Session \<Rightarrow> reply" where
  "stream_reply out meta s =
     (if c_records (s_cfg s) then (out, Respond [Success meta]) else ([], Respond (out @ [Success meta])))"

definition finish_stream :: "request \<Rightarrow> bool \<Rightarrow> int \<Rightarrow> int \<Rightarrow> result_cursor \<Rightarrow> response list \<Rightarrow> Session \<Rightarrow> reply \<times> Session" where
  "finish_stream m notify n done_rows r out s =
     (case peek_more n done_rows r of
        (peeked, r') \<Rightarrow>
          let hasMore = (peeked \<noteq> None);
              s1 = s\<lparr>s_result := Some r', s_peeked := (if hasMore then peeked else s_peeked s)\<rparr>
          in case StreamingTransition (s_state s1) hasMore of
               (next, transErr) \<Rightarrow>
                 if transErr then failTransition m s1
                 else if hasMore then (stream_reply out [(str ''has_more'', PBool True)] s, s1\<lparr>s_state := next\<rparr>)
                 else case end_stream notify r' ((drainResult s1)\<lparr>s_peeked := None, s_state := next\<rparr>) of
                        (meta, s2) \<Rightarrow> (stream_reply out meta s, s2))"

definition stream_failed :: "response list \<Rightarrow> bytes \<Rightarrow> bytes \<Rightarrow> Session \<Rightarrow> reply \<times> Session" where
  "stream_failed out code text s =
     ((if c_records (s_cfg s) then out else [], Respond [Failure code text]), enterFailed s)"

definition no_such_query :: "u64 \<Rightarrow> Session \<Rightarrow> reply \<times> Session" where
  "no_such_query qid s = failWith (str ''Neo.ClientError.Request.Invalid'') (str (''no such query: qid '' @ dec_int (sint qid))) s"

definition pull_rows :: "env \<Rightarrow> u64 \<Rightarrow> u64 \<Rightarrow> int \<Rightarrow> int \<Rightarrow> response list \<Rightarrow> Session \<Rightarrow> reply \<times> Session" where
  "pull_rows e N QID n fetched out s =
     (case s_result s of
        None \<Rightarrow>
          (if n \<le> 0 \<or> fetched < n
           then (case e_ctxDone e 0 of Some text \<Rightarrow> stream_failed out (str ''Neo.TransientError.General.RequestInterrupted'') text s
                 | None \<Rightarrow> ((out, NilPanic), s))
           else ((out, NilPanic), s))
      | Some r \<Rightarrow>
          (case pull_loop e s n fetched r out of
             (stop, fetched', r', out') \<Rightarrow>
               let s1 = s\<lparr>s_result := Some r'\<rparr>
               in case stop of
                    PullCancelled text \<Rightarrow> stream_failed out' (str ''Neo.TransientError.General.RequestInterrupted'') text s1
                  | PullSinkFailed \<Rightarrow> abortStream out' s1
                  | PullEnd \<Rightarrow>
                      (case r_err r' of
                         Some err \<Rightarrow> stream_failed out' (fst err) (snd err) s1
                       | None \<Rightarrow> finish_stream (Pull N QID) True n fetched' r' out' s1)))"

definition handlePull :: "env \<Rightarrow> u64 \<Rightarrow> u64 \<Rightarrow> Session \<Rightarrow> reply \<times> Session" where
  "handlePull e N QID s =
     (if s_state s \<noteq> StateStreaming \<and> s_state s \<noteq> StateTxStreaming then failTransition (Pull N QID) s
      else if sint QID \<ge> 0 then no_such_query QID s
      else
        let n = (if sint N = 0 then - 1 else sint N)
        in case s_peeked s of
             Some row \<Rightarrow>
               if \<not> emit_ok e s [] then abortStream [] (s\<lparr>s_peeked := None\<rparr>)
               else pull_rows e N QID n 1 [Record row] (s\<lparr>s_peeked := None\<rparr>)
           | None \<Rightarrow> pull_rows e N QID n 0 [] s)"

function discard_loop :: "int \<Rightarrow> int \<Rightarrow> result_cursor \<Rightarrow> int \<times> result_cursor" where
  "discard_loop n discarded r =
     (if \<not> (n \<le> 0 \<or> discarded < n) then (discarded, r)
      else case Result_Next r of
             (None, r') \<Rightarrow> (discarded, r')
           | (Some _, r') \<Rightarrow> discard_loop n (discarded + 1) r')"
  by pat_completeness auto
termination
  by (relation "measure (\<lambda>(n, discarded, r). length (r_rows r))") (auto simp: Result_Next_def split: list.splits)

declare discard_loop.simps [simp del]

definition handleDiscard :: "u64 \<Rightarrow> u64 \<Rightarrow> Session \<Rightarrow> reply \<times> Session" where
  "handleDiscard N QID s =
     (if s_state s \<noteq> StateStreaming \<and> s_state s \<noteq> StateTxStreaming then failTransition (Discard N QID) s
      else if sint QID \<ge> 0 then no_such_query QID s
      else case s_result s of
             None \<Rightarrow> (([], NilPanic), s)
           | Some r \<Rightarrow>
               (case r_err r of
                  Some err \<Rightarrow> (answer [Failure (fst err) (snd err)], enterFailed (drainResult s))
                | None \<Rightarrow>
                    let n = (if sint N = 0 then - 1 else sint N);
                        discarded = (if s_peeked s \<noteq> None then 1 else 0)
                    in case discard_loop n discarded r of
                         (discarded', r') \<Rightarrow>
                           let s1 = s\<lparr>s_peeked := None, s_result := Some r'\<rparr>
                           in case r_err r' of
                                Some err \<Rightarrow> (answer [Failure (fst err) (snd err)], enterFailed s1)
                              | None \<Rightarrow> finish_stream (Discard N QID) False n discarded' r' [] s1))"

subsection \<open>Explicit transactions\<close>

text \<open>The access mode a BEGIN asks for; an unknown one is refused.\<close>

definition access_mode :: "pmap \<Rightarrow> bytes option" where
  "access_mode extra =
     (case map_of extra (str ''mode'') of
        None \<Rightarrow> Some (str ''w'')
      | Some (PString m) \<Rightarrow> if m = str ''r'' then Some (str ''r'') else if m = str ''w'' then Some (str ''w'') else None
      | Some _ \<Rightarrow> None)"

text \<open>The Go type of a decoded value, as \<open>%T\<close> prints it.\<close>

fun go_type :: "pvalue \<Rightarrow> string" where
  "go_type PNull = ''<nil>''"
| "go_type (PBool _) = ''bool''"
| "go_type (PInt _) = ''int64''"
| "go_type (PFloat _) = ''float64''"
| "go_type (PBytes _) = ''[]uint8''"
| "go_type (PString _) = ''string''"
| "go_type (PList _) = ''[]interface {}''"
| "go_type (PMap _) = ''map[string]interface {}''"
| "go_type (PStruct _ _) = ''packstream.Struct''"

definition unsupportedAccessModeMessage :: "env \<Rightarrow> pvalue \<Rightarrow> bytes" where
  "unsupportedAccessModeMessage e v =
     (let tail = e_quote e (str ''r'') @ str '' or '' @ e_quote e (str ''w'')
      in case v of
           PString m \<Rightarrow> str ''unsupported access mode '' @ e_quote e m @ str '': the BEGIN `mode` extra accepts only '' @ tail
         | _ \<Rightarrow> str (''unsupported access mode of type '' @ go_type v @ '': the BEGIN `mode` extra accepts only the strings '') @ tail)"

definition tx_effective_timeout :: "pmap \<Rightarrow> Session \<Rightarrow> int" where
  "tx_effective_timeout extra s =
     (let effective = (case client_timeout ''tx_timeout'' extra of None \<Rightarrow> c_defaultTxTimeout (s_cfg s) | Some d \<Rightarrow> d)
      in if c_maxStmtTimeout (s_cfg s) > 0 \<and> (effective \<le> 0 \<or> effective > c_maxStmtTimeout (s_cfg s))
         then c_maxStmtTimeout (s_cfg s) else effective)"

definition quota_refusal :: "env \<Rightarrow> Session \<Rightarrow> bytes" where
  "quota_refusal e s = str ''principal '' @ e_quote e (s_identity s) @
     str ('' already holds the maximum of '' @ dec_int (c_quotaLimit (s_cfg s)) @ '' concurrently open transactions'')"

text \<open>From the acquired quota slot to the open transaction.\<close>

definition open_tx :: "env \<Rightarrow> pmap \<Rightarrow> bytes \<Rightarrow> Tx \<Rightarrow> Session \<Rightarrow> reply \<times> Session" where
  "open_tx e extra mode tx s =
     (case Transition (s_state s) (Begin extra) True of
        (next, transErr) \<Rightarrow>
          if transErr then failTransition (Begin extra) (releaseTxQuota (Tx_Rollback tx s))
          else
            let effective = tx_effective_timeout extra s;
                s1 = s\<lparr>s_state := next, s_txActive := True, s_tx := Some tx,
                       s_txDeadline := (if effective > 0 then Some (e_now e + effective) else None)\<rparr>
            in (answer [Success []], txOpened (registerTx mode (touchTx (e_now e) s1))))"

definition handleBegin :: "env \<Rightarrow> pmap \<Rightarrow> Session \<Rightarrow> reply \<times> Session" where
  "handleBegin e extra s =
     (if \<not> s_authenticated s then failTransition (Begin extra) s
      else if s_state s \<noteq> StateReady then failTransition (Begin extra) s
      else if s_txActive s then
        (answer [Failure (str ''Neo.ClientError.Statement.SemanticError'') (str ''nested transactions are not supported'')], s)
      else case access_mode extra of
             None \<Rightarrow>
               (answer [Failure (str ''Neo.ClientError.Request.Invalid'')
                  (unsupportedAccessModeMessage e (case map_of extra (str ''mode'') of Some v \<Rightarrow> v | None \<Rightarrow> PNull))], s)
           | Some mode \<Rightarrow>
               (case newTx e mode (selectDatabaseFrom extra s) of
                  (Inl err, s1) \<Rightarrow> (answer [Failure (fst err) (snd err)], enterFailed s1)
                | (Inr tx, s1) \<Rightarrow>
                    (case acquireTxQuota s1 of
                       (False, s2) \<Rightarrow>
                         (answer [Failure (str ''Neo.TransientError.Transaction.MaximumTransactionLimitReached'') (quota_refusal e s2)],
                          srv_upd (m_txQuotaRejected_update Suc) (Tx_Rollback tx s2))
                     | (True, s2) \<Rightarrow> open_tx e extra mode tx s2)))"

definition handleCommit :: "env \<Rightarrow> Session \<Rightarrow> reply \<times> Session" where
  "handleCommit e s =
     (if s_state s \<noteq> StateTxReady then failTransition Commit s
      else if \<not> s_authenticated s then failTransition Commit s
      else
        case (case s_tx s of
                None \<Rightarrow> (None, s)
              | Some tx \<Rightarrow>
                  (case Tx_Commit e tx s of
                     (Some err, s1) \<Rightarrow> (Some err, enterFailed (s1\<lparr>s_tx := Some (tx\<lparr>tx_results := 0\<rparr>)\<rparr>))
                   | (None, s1) \<Rightarrow> (None, txClosed (s1\<lparr>s_tx := None\<rparr>)))) of
          (Some err, s1) \<Rightarrow> (answer [Failure (fst err) (snd err)], s1)
        | (None, s1) \<Rightarrow>
            (case Transition (s_state s1) Commit True of
               (next, transErr) \<Rightarrow>
                 if transErr then failTransition Commit s1
                 else case NextBookmark (s1\<lparr>s_state := next, s_txActive := False\<rparr>) of
                        (b, s2) \<Rightarrow> (answer [Success [(str ''bookmark'', PString b)]], s2\<lparr>s_bookmark := b\<rparr>)))"

definition handleRollback :: "Session \<Rightarrow> reply \<times> Session" where
  "handleRollback s =
     (if s_state s \<noteq> StateTxReady then failTransition Rollback s
      else if \<not> s_authenticated s then failTransition Rollback s
      else let s1 = roll_back_open s
           in case Transition (s_state s1) Rollback True of
                (next, transErr) \<Rightarrow>
                  if transErr then failTransition Rollback s1
                  else (answer [Success []], s1\<lparr>s_state := next, s_txActive := False\<rparr>))"

definition handleRoute :: "pmap \<Rightarrow> pvalue list \<Rightarrow> pvalue \<Rightarrow> Session \<Rightarrow> reply \<times> Session" where
  "handleRoute routing bookmarks db s =
     (let m = Route routing bookmarks db
      in if \<not> s_authenticated s then failTransition m s
         else if s_state s \<noteq> StateReady \<and> s_state s \<noteq> StateTxReady then failTransition m s
         else (answer [Success (RoutingTable (c_localAddr (s_cfg s)))], s))"

subsection \<open>Dispatch\<close>

fun request_phase :: "request \<Rightarrow> bool" where
  "request_phase (Run _ _ _) = True"
| "request_phase (Pull _ _) = True"
| "request_phase (Discard _ _) = True"
| "request_phase (Begin _) = True"
| "request_phase Commit = True"
| "request_phase Rollback = True"
| "request_phase (Route _ _ _) = True"
| "request_phase _ = False"

fun handle :: "env \<Rightarrow> request \<Rightarrow> Session \<Rightarrow> reply \<times> Session" where
  "handle e (Hello extra) s = handleHello e extra s"
| "handle e (Logon auth) s = handleLogon e auth s"
| "handle e Logoff s = handleLogoff s"
| "handle e Reset s = handleReset s"
| "handle e Goodbye s = handleGoodbye s"
| "handle e (Run q ps extra) s = handleRun e q ps extra s"
| "handle e (Pull n qid) s = handlePull e n qid s"
| "handle e (Discard n qid) s = handleDiscard n qid s"
| "handle e (Begin extra) s = handleBegin e extra s"
| "handle e Commit s = handleCommit e s"
| "handle e Rollback s = handleRollback s"
| "handle e (Route r b db) s = handleRoute r b db s"

definition dispatch :: "env \<Rightarrow> request \<Rightarrow> Session \<Rightarrow> reply \<times> Session" where
  "dispatch e msg s =
     (if s_state s = StateFailed \<and> s_authenticated s \<and> request_phase msg then
        (case s_pendingTermErr s of
           Some f \<Rightarrow> (answer [Failure (fst f) (snd f)], s\<lparr>s_pendingTermErr := None\<rparr>)
         | None \<Rightarrow> (answer [Ignored], s))
      else handle e msg s)"

definition HandleMessage :: "env \<Rightarrow> request \<Rightarrow> Session \<Rightarrow> reply \<times> Session" where
  "HandleMessage e msg s =
     (case e_ctxErr e of
        Some text \<Rightarrow> failWith (str ''Neo.TransientError.General.RequestInterrupted'') text s
      | None \<Rightarrow> dispatch e msg s)"

text \<open>
  The steps of the serve loop on one session: a message, whose query is reported for a RUN, the
  transaction timer, an operator's termination signal, and the teardown of the connection.
\<close>

definition serve_message :: "env \<Rightarrow> request \<Rightarrow> Session \<Rightarrow> reply \<times> Session" where
  "serve_message e msg s =
     (case HandleMessage e msg (touchTx (e_now e) s) of
        ((written, Respond rs), s1) \<Rightarrow>
          ((written, Respond rs), reportTx (case msg of Run q _ _ \<Rightarrow> q | _ \<Rightarrow> []) s1)
      | (rep, s1) \<Rightarrow> (rep, s1))"

definition effectiveTxDeadline :: "Session \<Rightarrow> int option" where
  "effectiveTxDeadline s =
     (case (s_txDeadline s, s_txIdleDeadline s) of
        (None, idle) \<Rightarrow> idle
      | (tot, None) \<Rightarrow> tot
      | (Some t, Some i) \<Rightarrow> Some (if i < t then i else t))"

definition timer_fired :: "Session \<Rightarrow> Session" where
  "timer_fired s = (if s_txActive s then reapTimedOutTx s else s)"

definition terminate_signalled :: "Session \<Rightarrow> Session" where
  "terminate_signalled s =
     (let s1 = s\<lparr>s_terminate := False\<rparr> in if s_txActive s1 then terminateTxByOperator s1 else s1)"

end
