(* ===== verification/Bolt_Session_Inv.thy ===== *)
theory Bolt_Session_Inv
  imports Bolt_Session
begin

text \<open>
  What holds of a session whatever messages it is sent and whatever the engine answers: which
  resources it holds in which protocol state.
\<close>

subsection \<open>What each helper leaves alone\<close>

lemma tell_same [simp]:
  "s_cfg (tell ev s) = s_cfg s" "s_srv (tell ev s) = s_srv s" "s_txDeadline (tell ev s) = s_txDeadline s"
  "s_result (tell ev s) = s_result s" "s_resultCancel (tell ev s) = s_resultCancel s"
  "s_peeked (tell ev s) = s_peeked s" "s_pendingTermErr (tell ev s) = s_pendingTermErr s" "s_tx (tell ev s) = s_tx s"
  "s_identity (tell ev s) = s_identity s" "s_bookmark (tell ev s) = s_bookmark s"
  "s_autocommitStmt (tell ev s) = s_autocommitStmt s" "s_columns (tell ev s) = s_columns s"
  "s_stmtTimeout (tell ev s) = s_stmtTimeout s" "s_authenticated (tell ev s) = s_authenticated s"
  "s_state (tell ev s) = s_state s" "s_txActive (tell ev s) = s_txActive s"
  "s_txAccounted (tell ev s) = s_txAccounted s" "s_txIdleDeadline (tell ev s) = s_txIdleDeadline s"
  "s_txID (tell ev s) = s_txID s" "s_terminate (tell ev s) = s_terminate s"
  "s_txQuotaHeld (tell ev s) = s_txQuotaHeld s" "s_txQuotaPrincipal (tell ev s) = s_txQuotaPrincipal s"
  "s_clientDatabase (tell ev s) = s_clientDatabase s"
  by (simp_all add: tell_def)

lemma srv_upd_same [simp]:
  "s_cfg (srv_upd f s) = s_cfg s" "s_trace (srv_upd f s) = s_trace s" "s_txDeadline (srv_upd f s) = s_txDeadline s"
  "s_result (srv_upd f s) = s_result s" "s_resultCancel (srv_upd f s) = s_resultCancel s"
  "s_peeked (srv_upd f s) = s_peeked s" "s_pendingTermErr (srv_upd f s) = s_pendingTermErr s"
  "s_tx (srv_upd f s) = s_tx s" "s_identity (srv_upd f s) = s_identity s" "s_bookmark (srv_upd f s) = s_bookmark s"
  "s_autocommitStmt (srv_upd f s) = s_autocommitStmt s" "s_columns (srv_upd f s) = s_columns s"
  "s_stmtTimeout (srv_upd f s) = s_stmtTimeout s" "s_authenticated (srv_upd f s) = s_authenticated s"
  "s_state (srv_upd f s) = s_state s" "s_txActive (srv_upd f s) = s_txActive s"
  "s_txAccounted (srv_upd f s) = s_txAccounted s" "s_txIdleDeadline (srv_upd f s) = s_txIdleDeadline s"
  "s_txID (srv_upd f s) = s_txID s" "s_terminate (srv_upd f s) = s_terminate s"
  "s_txQuotaHeld (srv_upd f s) = s_txQuotaHeld s" "s_txQuotaPrincipal (srv_upd f s) = s_txQuotaPrincipal s"
  "s_clientDatabase (srv_upd f s) = s_clientDatabase s"
  by (simp_all add: srv_upd_def)

lemma drainResult_same [simp]:
  "s_cfg (drainResult s) = s_cfg s" "s_srv (drainResult s) = s_srv s" "s_txDeadline (drainResult s) = s_txDeadline s"
  "s_pendingTermErr (drainResult s) = s_pendingTermErr s" "s_tx (drainResult s) = s_tx s"
  "s_identity (drainResult s) = s_identity s" "s_bookmark (drainResult s) = s_bookmark s"
  "s_autocommitStmt (drainResult s) = s_autocommitStmt s" "s_stmtTimeout (drainResult s) = s_stmtTimeout s"
  "s_authenticated (drainResult s) = s_authenticated s" "s_state (drainResult s) = s_state s"
  "s_txActive (drainResult s) = s_txActive s" "s_txAccounted (drainResult s) = s_txAccounted s"
  "s_txIdleDeadline (drainResult s) = s_txIdleDeadline s" "s_txID (drainResult s) = s_txID s"
  "s_terminate (drainResult s) = s_terminate s" "s_txQuotaHeld (drainResult s) = s_txQuotaHeld s"
  "s_txQuotaPrincipal (drainResult s) = s_txQuotaPrincipal s" "s_clientDatabase (drainResult s) = s_clientDatabase s"
  by (simp_all add: drainResult_def Let_def split: option.split)

lemma releaseTxQuota_same [simp]:
  "s_cfg (releaseTxQuota s) = s_cfg s" "s_trace (releaseTxQuota s) = s_trace s"
  "s_txDeadline (releaseTxQuota s) = s_txDeadline s" "s_result (releaseTxQuota s) = s_result s"
  "s_resultCancel (releaseTxQuota s) = s_resultCancel s" "s_peeked (releaseTxQuota s) = s_peeked s"
  "s_pendingTermErr (releaseTxQuota s) = s_pendingTermErr s" "s_tx (releaseTxQuota s) = s_tx s"
  "s_identity (releaseTxQuota s) = s_identity s" "s_bookmark (releaseTxQuota s) = s_bookmark s"
  "s_autocommitStmt (releaseTxQuota s) = s_autocommitStmt s" "s_columns (releaseTxQuota s) = s_columns s"
  "s_stmtTimeout (releaseTxQuota s) = s_stmtTimeout s" "s_authenticated (releaseTxQuota s) = s_authenticated s"
  "s_state (releaseTxQuota s) = s_state s" "s_txActive (releaseTxQuota s) = s_txActive s"
  "s_txAccounted (releaseTxQuota s) = s_txAccounted s" "s_txIdleDeadline (releaseTxQuota s) = s_txIdleDeadline s"
  "s_txID (releaseTxQuota s) = s_txID s" "s_terminate (releaseTxQuota s) = s_terminate s"
  "s_clientDatabase (releaseTxQuota s) = s_clientDatabase s"
  by (simp_all add: releaseTxQuota_def Let_def)

lemma unregisterTx_same [simp]:
  "s_cfg (unregisterTx s) = s_cfg s" "s_trace (unregisterTx s) = s_trace s"
  "s_txDeadline (unregisterTx s) = s_txDeadline s" "s_result (unregisterTx s) = s_result s"
  "s_resultCancel (unregisterTx s) = s_resultCancel s" "s_peeked (unregisterTx s) = s_peeked s"
  "s_pendingTermErr (unregisterTx s) = s_pendingTermErr s" "s_tx (unregisterTx s) = s_tx s"
  "s_identity (unregisterTx s) = s_identity s" "s_bookmark (unregisterTx s) = s_bookmark s"
  "s_autocommitStmt (unregisterTx s) = s_autocommitStmt s" "s_columns (unregisterTx s) = s_columns s"
  "s_stmtTimeout (unregisterTx s) = s_stmtTimeout s" "s_authenticated (unregisterTx s) = s_authenticated s"
  "s_state (unregisterTx s) = s_state s" "s_txActive (unregisterTx s) = s_txActive s"
  "s_txAccounted (unregisterTx s) = s_txAccounted s" "s_txIdleDeadline (unregisterTx s) = s_txIdleDeadline s"
  "s_txQuotaHeld (unregisterTx s) = s_txQuotaHeld s" "s_txQuotaPrincipal (unregisterTx s) = s_txQuotaPrincipal s"
  "s_clientDatabase (unregisterTx s) = s_clientDatabase s"
  by (simp_all add: unregisterTx_def Let_def split: option.split)

lemma txClosed_same [simp]:
  "s_cfg (txClosed s) = s_cfg s" "s_trace (txClosed s) = s_trace s" "s_txDeadline (txClosed s) = s_txDeadline s"
  "s_result (txClosed s) = s_result s" "s_resultCancel (txClosed s) = s_resultCancel s"
  "s_peeked (txClosed s) = s_peeked s" "s_pendingTermErr (txClosed s) = s_pendingTermErr s"
  "s_tx (txClosed s) = s_tx s" "s_identity (txClosed s) = s_identity s" "s_bookmark (txClosed s) = s_bookmark s"
  "s_autocommitStmt (txClosed s) = s_autocommitStmt s" "s_columns (txClosed s) = s_columns s"
  "s_stmtTimeout (txClosed s) = s_stmtTimeout s" "s_authenticated (txClosed s) = s_authenticated s"
  "s_state (txClosed s) = s_state s" "s_txActive (txClosed s) = s_txActive s"
  "s_clientDatabase (txClosed s) = s_clientDatabase s"
  by (simp_all add: txClosed_def Let_def)

lemma Tx_Rollback_same [simp]:
  "s_cfg (Tx_Rollback tx s) = s_cfg s" "s_srv (Tx_Rollback tx s) = s_srv s"
  "s_txDeadline (Tx_Rollback tx s) = s_txDeadline s" "s_result (Tx_Rollback tx s) = s_result s"
  "s_resultCancel (Tx_Rollback tx s) = s_resultCancel s" "s_peeked (Tx_Rollback tx s) = s_peeked s"
  "s_pendingTermErr (Tx_Rollback tx s) = s_pendingTermErr s" "s_tx (Tx_Rollback tx s) = s_tx s"
  "s_identity (Tx_Rollback tx s) = s_identity s" "s_bookmark (Tx_Rollback tx s) = s_bookmark s"
  "s_autocommitStmt (Tx_Rollback tx s) = s_autocommitStmt s" "s_columns (Tx_Rollback tx s) = s_columns s"
  "s_stmtTimeout (Tx_Rollback tx s) = s_stmtTimeout s" "s_authenticated (Tx_Rollback tx s) = s_authenticated s"
  "s_state (Tx_Rollback tx s) = s_state s" "s_txActive (Tx_Rollback tx s) = s_txActive s"
  "s_txAccounted (Tx_Rollback tx s) = s_txAccounted s" "s_txIdleDeadline (Tx_Rollback tx s) = s_txIdleDeadline s"
  "s_txID (Tx_Rollback tx s) = s_txID s" "s_terminate (Tx_Rollback tx s) = s_terminate s"
  "s_txQuotaHeld (Tx_Rollback tx s) = s_txQuotaHeld s" "s_txQuotaPrincipal (Tx_Rollback tx s) = s_txQuotaPrincipal s"
  "s_clientDatabase (Tx_Rollback tx s) = s_clientDatabase s"
  by (simp_all add: Tx_Rollback_def closeCursors_def)

lemma abortTx_same [simp]:
  "s_cfg (abortTx s) = s_cfg s" "s_txDeadline (abortTx s) = s_txDeadline s"
  "s_pendingTermErr (abortTx s) = s_pendingTermErr s" "s_identity (abortTx s) = s_identity s"
  "s_bookmark (abortTx s) = s_bookmark s" "s_autocommitStmt (abortTx s) = s_autocommitStmt s"
  "s_stmtTimeout (abortTx s) = s_stmtTimeout s" "s_authenticated (abortTx s) = s_authenticated s"
  "s_state (abortTx s) = s_state s" "s_clientDatabase (abortTx s) = s_clientDatabase s"
  by (simp_all add: abortTx_def Let_def split: option.split)

lemma enterFailed_same [simp]:
  "s_cfg (enterFailed s) = s_cfg s" "s_txDeadline (enterFailed s) = s_txDeadline s"
  "s_pendingTermErr (enterFailed s) = s_pendingTermErr s" "s_identity (enterFailed s) = s_identity s"
  "s_bookmark (enterFailed s) = s_bookmark s" "s_autocommitStmt (enterFailed s) = s_autocommitStmt s"
  "s_stmtTimeout (enterFailed s) = s_stmtTimeout s" "s_authenticated (enterFailed s) = s_authenticated s"
  "s_clientDatabase (enterFailed s) = s_clientDatabase s"
  by (simp_all add: enterFailed_def Let_def)

lemma roll_back_open_same [simp]:
  "s_cfg (roll_back_open s) = s_cfg s" "s_txDeadline (roll_back_open s) = s_txDeadline s"
  "s_result (roll_back_open s) = s_result s" "s_resultCancel (roll_back_open s) = s_resultCancel s"
  "s_peeked (roll_back_open s) = s_peeked s" "s_pendingTermErr (roll_back_open s) = s_pendingTermErr s"
  "s_identity (roll_back_open s) = s_identity s" "s_bookmark (roll_back_open s) = s_bookmark s"
  "s_autocommitStmt (roll_back_open s) = s_autocommitStmt s" "s_columns (roll_back_open s) = s_columns s"
  "s_stmtTimeout (roll_back_open s) = s_stmtTimeout s" "s_authenticated (roll_back_open s) = s_authenticated s"
  "s_state (roll_back_open s) = s_state s" "s_txActive (roll_back_open s) = s_txActive s"
  "s_clientDatabase (roll_back_open s) = s_clientDatabase s"
  by (simp_all add: roll_back_open_def split: option.split)

lemma touchTx_same [simp]:
  "s_cfg (touchTx now s) = s_cfg s" "s_srv (touchTx now s) = s_srv s" "s_trace (touchTx now s) = s_trace s"
  "s_txDeadline (touchTx now s) = s_txDeadline s" "s_result (touchTx now s) = s_result s"
  "s_resultCancel (touchTx now s) = s_resultCancel s" "s_peeked (touchTx now s) = s_peeked s"
  "s_pendingTermErr (touchTx now s) = s_pendingTermErr s" "s_tx (touchTx now s) = s_tx s"
  "s_identity (touchTx now s) = s_identity s" "s_bookmark (touchTx now s) = s_bookmark s"
  "s_autocommitStmt (touchTx now s) = s_autocommitStmt s" "s_columns (touchTx now s) = s_columns s"
  "s_stmtTimeout (touchTx now s) = s_stmtTimeout s" "s_authenticated (touchTx now s) = s_authenticated s"
  "s_state (touchTx now s) = s_state s" "s_txActive (touchTx now s) = s_txActive s"
  "s_txAccounted (touchTx now s) = s_txAccounted s" "s_txID (touchTx now s) = s_txID s"
  "s_terminate (touchTx now s) = s_terminate s" "s_txQuotaHeld (touchTx now s) = s_txQuotaHeld s"
  "s_txQuotaPrincipal (touchTx now s) = s_txQuotaPrincipal s" "s_clientDatabase (touchTx now s) = s_clientDatabase s"
  by (simp_all add: touchTx_def)

lemma registerTx_same [simp]:
  "s_cfg (registerTx mode s) = s_cfg s" "s_trace (registerTx mode s) = s_trace s"
  "s_txDeadline (registerTx mode s) = s_txDeadline s" "s_result (registerTx mode s) = s_result s"
  "s_resultCancel (registerTx mode s) = s_resultCancel s" "s_peeked (registerTx mode s) = s_peeked s"
  "s_pendingTermErr (registerTx mode s) = s_pendingTermErr s" "s_tx (registerTx mode s) = s_tx s"
  "s_identity (registerTx mode s) = s_identity s" "s_bookmark (registerTx mode s) = s_bookmark s"
  "s_autocommitStmt (registerTx mode s) = s_autocommitStmt s" "s_columns (registerTx mode s) = s_columns s"
  "s_stmtTimeout (registerTx mode s) = s_stmtTimeout s" "s_authenticated (registerTx mode s) = s_authenticated s"
  "s_state (registerTx mode s) = s_state s" "s_txActive (registerTx mode s) = s_txActive s"
  "s_txAccounted (registerTx mode s) = s_txAccounted s" "s_txIdleDeadline (registerTx mode s) = s_txIdleDeadline s"
  "s_terminate (registerTx mode s) = s_terminate s" "s_txQuotaHeld (registerTx mode s) = s_txQuotaHeld s"
  "s_txQuotaPrincipal (registerTx mode s) = s_txQuotaPrincipal s"
  "s_clientDatabase (registerTx mode s) = s_clientDatabase s"
  by (simp_all add: registerTx_def Let_def)

lemma txOpened_same [simp]:
  "s_cfg (txOpened s) = s_cfg s" "s_trace (txOpened s) = s_trace s" "s_txDeadline (txOpened s) = s_txDeadline s"
  "s_result (txOpened s) = s_result s" "s_resultCancel (txOpened s) = s_resultCancel s"
  "s_peeked (txOpened s) = s_peeked s" "s_pendingTermErr (txOpened s) = s_pendingTermErr s"
  "s_tx (txOpened s) = s_tx s" "s_identity (txOpened s) = s_identity s" "s_bookmark (txOpened s) = s_bookmark s"
  "s_autocommitStmt (txOpened s) = s_autocommitStmt s" "s_columns (txOpened s) = s_columns s"
  "s_stmtTimeout (txOpened s) = s_stmtTimeout s" "s_authenticated (txOpened s) = s_authenticated s"
  "s_state (txOpened s) = s_state s" "s_txActive (txOpened s) = s_txActive s"
  "s_txIdleDeadline (txOpened s) = s_txIdleDeadline s" "s_txID (txOpened s) = s_txID s"
  "s_terminate (txOpened s) = s_terminate s" "s_txQuotaHeld (txOpened s) = s_txQuotaHeld s"
  "s_txQuotaPrincipal (txOpened s) = s_txQuotaPrincipal s" "s_clientDatabase (txOpened s) = s_clientDatabase s"
  by (simp_all add: txOpened_def)

lemma reportTx_same [simp]:
  "s_cfg (reportTx q s) = s_cfg s" "s_trace (reportTx q s) = s_trace s" "s_txDeadline (reportTx q s) = s_txDeadline s"
  "s_result (reportTx q s) = s_result s" "s_resultCancel (reportTx q s) = s_resultCancel s"
  "s_peeked (reportTx q s) = s_peeked s" "s_pendingTermErr (reportTx q s) = s_pendingTermErr s"
  "s_tx (reportTx q s) = s_tx s" "s_identity (reportTx q s) = s_identity s" "s_bookmark (reportTx q s) = s_bookmark s"
  "s_autocommitStmt (reportTx q s) = s_autocommitStmt s" "s_columns (reportTx q s) = s_columns s"
  "s_stmtTimeout (reportTx q s) = s_stmtTimeout s" "s_authenticated (reportTx q s) = s_authenticated s"
  "s_state (reportTx q s) = s_state s" "s_txActive (reportTx q s) = s_txActive s"
  "s_txAccounted (reportTx q s) = s_txAccounted s" "s_txIdleDeadline (reportTx q s) = s_txIdleDeadline s"
  "s_txID (reportTx q s) = s_txID s" "s_terminate (reportTx q s) = s_terminate s"
  "s_txQuotaHeld (reportTx q s) = s_txQuotaHeld s" "s_txQuotaPrincipal (reportTx q s) = s_txQuotaPrincipal s"
  "s_clientDatabase (reportTx q s) = s_clientDatabase s"
  by (simp_all add: reportTx_def split: option.split)

lemma selectDatabaseFrom_same [simp]:
  "s_cfg (selectDatabaseFrom x s) = s_cfg s" "s_srv (selectDatabaseFrom x s) = s_srv s"
  "s_trace (selectDatabaseFrom x s) = s_trace s" "s_txDeadline (selectDatabaseFrom x s) = s_txDeadline s"
  "s_result (selectDatabaseFrom x s) = s_result s" "s_resultCancel (selectDatabaseFrom x s) = s_resultCancel s"
  "s_peeked (selectDatabaseFrom x s) = s_peeked s" "s_pendingTermErr (selectDatabaseFrom x s) = s_pendingTermErr s"
  "s_tx (selectDatabaseFrom x s) = s_tx s" "s_identity (selectDatabaseFrom x s) = s_identity s"
  "s_bookmark (selectDatabaseFrom x s) = s_bookmark s"
  "s_autocommitStmt (selectDatabaseFrom x s) = s_autocommitStmt s" "s_columns (selectDatabaseFrom x s) = s_columns s"
  "s_stmtTimeout (selectDatabaseFrom x s) = s_stmtTimeout s"
  "s_authenticated (selectDatabaseFrom x s) = s_authenticated s" "s_state (selectDatabaseFrom x s) = s_state s"
  "s_txActive (selectDatabaseFrom x s) = s_txActive s" "s_txAccounted (selectDatabaseFrom x s) = s_txAccounted s"
  "s_txIdleDeadline (selectDatabaseFrom x s) = s_txIdleDeadline s" "s_txID (selectDatabaseFrom x s) = s_txID s"
  "s_terminate (selectDatabaseFrom x s) = s_terminate s" "s_txQuotaHeld (selectDatabaseFrom x s) = s_txQuotaHeld s"
  "s_txQuotaPrincipal (selectDatabaseFrom x s) = s_txQuotaPrincipal s"
  by (simp_all add: selectDatabaseFrom_def)

subsection \<open>The invariant\<close>

definition session_inv :: "Session \<Rightarrow> bool" where
  "session_inv s \<longleftrightarrow>
     (s_tx s \<noteq> None \<longleftrightarrow> s_state s = StateTxReady \<or> s_state s = StateTxStreaming) \<and>
     (s_txAccounted s \<longleftrightarrow> s_tx s \<noteq> None) \<and>
     (s_state s \<noteq> StateDefunct \<longrightarrow> (s_txActive s \<longleftrightarrow> s_tx s \<noteq> None)) \<and>
     (s_result s \<noteq> None \<longleftrightarrow> s_state s = StateStreaming \<or> s_state s = StateTxStreaming) \<and>
     (s_peeked s \<noteq> None \<longrightarrow> s_result s \<noteq> None) \<and>
     (s_resultCancel s \<longrightarrow> s_result s \<noteq> None) \<and>
     (s_txQuotaHeld s \<longleftrightarrow> s_tx s \<noteq> None \<and> c_txQuota (s_cfg s)) \<and>
     (s_txID s \<noteq> None \<longleftrightarrow> s_tx s \<noteq> None \<and> c_txReg (s_cfg s)) \<and>
     (s_pendingTermErr s \<noteq> None \<longrightarrow> s_state s = StateFailed \<or> s_state s = StateDefunct) \<and>
     (s_result s \<noteq> None \<longrightarrow> s_authenticated s)"

text \<open>What a session looks like once its cursor and its transaction are gone.\<close>

definition holds_nothing :: "Session \<Rightarrow> bool" where
  "holds_nothing s \<longleftrightarrow> s_tx s = None \<and> \<not> s_txAccounted s \<and> s_result s = None \<and> s_peeked s = None \<and> \<not> s_resultCancel s
     \<and> \<not> s_txQuotaHeld s \<and> s_txID s = None"

lemma drainResult_fields [simp]:
  "s_result (drainResult s) = None" "s_peeked (drainResult s) = None" "s_resultCancel (drainResult s) = False"
  by (simp_all add: drainResult_def Let_def split: option.split)

lemma releaseTxQuota_fields [simp]: "s_txQuotaHeld (releaseTxQuota s) = False"
  by (simp add: releaseTxQuota_def Let_def)

lemma unregisterTx_fields: "c_txReg (s_cfg s) \<or> s_txID s = None \<Longrightarrow> s_txID (unregisterTx s) = None"
  by (auto simp: unregisterTx_def split: option.split)

lemma txClosed_fields [simp]: "s_txQuotaHeld (txClosed s) = False" "s_txAccounted (txClosed s) = False"
  "s_txIdleDeadline (txClosed s) = None"
  by (simp_all add: txClosed_def Let_def)

lemma txClosed_txID: "c_txReg (s_cfg s) \<or> s_txID s = None \<Longrightarrow> s_txID (txClosed s) = None"
  by (simp add: txClosed_def Let_def unregisterTx_fields)

lemma abortTx_fields [simp]: "s_tx (abortTx s) = None" "s_result (abortTx s) = None" "s_peeked (abortTx s) = None"
  "s_resultCancel (abortTx s) = False" "s_txQuotaHeld (abortTx s) = False" "s_txAccounted (abortTx s) = False"
  "s_txActive (abortTx s) = False" "s_txIdleDeadline (abortTx s) = None"
  by (simp_all add: abortTx_def Let_def split: option.split)

lemma abortTx_txID: "c_txReg (s_cfg s) \<or> s_txID s = None \<Longrightarrow> s_txID (abortTx s) = None"
  by (cases "s_tx s") (simp_all add: abortTx_def Let_def txClosed_txID)

lemma enterFailed_fields [simp]: "s_state (enterFailed s) = StateFailed" "s_tx (enterFailed s) = None"
  "s_result (enterFailed s) = None" "s_peeked (enterFailed s) = None" "s_resultCancel (enterFailed s) = False"
  by (auto simp: enterFailed_def Let_def)

lemma inv_reg: "session_inv s \<Longrightarrow> c_txReg (s_cfg s) \<or> s_txID s = None"
  by (cases "s_txID s") (simp_all add: session_inv_def)

text \<open>The part of the invariant that is about the transaction.\<close>

definition tx_inv :: "Session \<Rightarrow> bool" where
  "tx_inv s \<longleftrightarrow> (s_tx s = None \<longrightarrow> \<not> s_txAccounted s \<and> \<not> s_txQuotaHeld s \<and> s_txID s = None
     \<and> (s_state s \<noteq> StateDefunct \<longrightarrow> \<not> s_txActive s)) \<and> (c_txReg (s_cfg s) \<or> s_txID s = None)"

lemma session_tx_inv: "session_inv s \<Longrightarrow> tx_inv s"
proof -
  assume inv: "session_inv s"
  have "c_txReg (s_cfg s) \<or> s_txID s = None" using inv by (rule inv_reg)
  moreover have "s_tx s = None \<longrightarrow> \<not> s_txAccounted s \<and> \<not> s_txQuotaHeld s \<and> s_txID s = None
     \<and> (s_state s \<noteq> StateDefunct \<longrightarrow> \<not> s_txActive s)"
    using inv unfolding session_inv_def by blast
  ultimately show ?thesis unfolding tx_inv_def by blast
qed

lemma tx_inv_drain [simp]: "tx_inv (drainResult s) = tx_inv s"
  by (simp add: tx_inv_def)

lemma enterFailed_released:
  assumes "tx_inv s"
  shows "\<not> s_txAccounted (enterFailed s)" "\<not> s_txQuotaHeld (enterFailed s)" "s_txID (enterFailed s) = None"
    "s_state s \<noteq> StateDefunct \<Longrightarrow> \<not> s_txActive (enterFailed s)"
proof -
  have t: "s_txID (abortTx (drainResult (s\<lparr>s_state := StateFailed\<rparr>))) = None"
    using assms by (intro abortTx_txID) (simp add: tx_inv_def)
  consider (tx) x where "s_tx s = Some x" | (none) "s_tx s = None" "\<not> s_txAccounted s" "\<not> s_txQuotaHeld s" "s_txID s = None"
    "s_state s \<noteq> StateDefunct \<longrightarrow> \<not> s_txActive s"
    using assms unfolding tx_inv_def by (cases "s_tx s") auto
  then show "\<not> s_txAccounted (enterFailed s)" "\<not> s_txQuotaHeld (enterFailed s)" "s_txID (enterFailed s) = None"
    "s_state s \<noteq> StateDefunct \<Longrightarrow> \<not> s_txActive (enterFailed s)"
    by (cases; simp add: enterFailed_def Let_def t)+
qed

lemma enterFailed_nothing: "tx_inv s \<Longrightarrow> holds_nothing (enterFailed s)"
  by (simp add: holds_nothing_def enterFailed_released)

lemma inv_nothing:
  "holds_nothing s \<Longrightarrow> s_state s = StateFailed \<or> s_state s = StateReady \<or> s_state s = StateNegotiation \<or> s_state s = StateAuthentication \<Longrightarrow>
     \<not> s_txActive s \<Longrightarrow> s_pendingTermErr s = None \<or> s_state s = StateFailed \<Longrightarrow> session_inv s"
  "holds_nothing s \<Longrightarrow> s_state s = StateDefunct \<Longrightarrow> session_inv s"
  unfolding holds_nothing_def session_inv_def by auto

lemma enterFailed_inv:
  assumes "tx_inv s" and "s_state s \<noteq> StateDefunct"
  shows "session_inv (enterFailed s)"
  using enterFailed_nothing [OF assms(1)] enterFailed_released(4) [OF assms] by (intro inv_nothing(1)) simp_all

lemmas failed_inv = enterFailed_inv [OF session_tx_inv]

subsection \<open>Every handler keeps the invariant\<close>

definition holds_tx :: "Session \<Rightarrow> bool" where
  "holds_tx s \<longleftrightarrow> s_tx s \<noteq> None \<and> s_txAccounted s \<and> s_txActive s \<and> s_txQuotaHeld s = c_txQuota (s_cfg s)
     \<and> (s_txID s \<noteq> None) = c_txReg (s_cfg s)"

definition no_cursor :: "Session \<Rightarrow> bool" where
  "no_cursor s \<longleftrightarrow> s_result s = None \<and> s_peeked s = None \<and> \<not> s_resultCancel s"

lemma inv_idle:
  "s_state s = StateNegotiation \<or> s_state s = StateAuthentication \<or> s_state s = StateReady \<Longrightarrow>
     session_inv s \<longleftrightarrow> holds_nothing s \<and> \<not> s_txActive s \<and> s_pendingTermErr s = None"
  unfolding session_inv_def holds_nothing_def 
  by (elim disjE; cases "s_tx s"; cases "s_result s"; cases "s_peeked s"; cases "s_txID s"; cases "s_pendingTermErr s"; auto)

lemma inv_TxReady:
  "s_state s = StateTxReady \<Longrightarrow> session_inv s \<longleftrightarrow> holds_tx s \<and> no_cursor s \<and> s_pendingTermErr s = None"
  unfolding session_inv_def holds_tx_def no_cursor_def 
  by (cases "s_tx s"; cases "s_result s"; cases "s_peeked s"; cases "s_txID s"; cases "s_pendingTermErr s"; auto)

lemma inv_Streaming:
  "s_state s = StateStreaming \<Longrightarrow> session_inv s \<longleftrightarrow> s_tx s = None \<and> \<not> s_txAccounted s \<and> \<not> s_txActive s \<and> \<not> s_txQuotaHeld s
     \<and> s_txID s = None \<and> s_result s \<noteq> None \<and> s_authenticated s \<and> s_pendingTermErr s = None"
  unfolding session_inv_def 
  by (cases "s_tx s"; cases "s_result s"; cases "s_peeked s"; cases "s_txID s"; cases "s_pendingTermErr s"; auto)

lemma inv_TxStreaming:
  "s_state s = StateTxStreaming \<Longrightarrow> session_inv s \<longleftrightarrow> holds_tx s \<and> s_result s \<noteq> None \<and> s_authenticated s \<and> s_pendingTermErr s = None"
  unfolding session_inv_def holds_tx_def 
  by (cases "s_tx s"; cases "s_result s"; cases "s_peeked s"; cases "s_txID s"; cases "s_pendingTermErr s"; auto)

lemmas inv_states = inv_idle inv_TxReady inv_Streaming inv_TxStreaming

definition stays :: "reply \<times> Session \<Rightarrow> bool" where
  "stays r \<longleftrightarrow> session_inv (snd r) \<and> snd (fst r) \<noteq> NilPanic"

lemma stays_answer [simp]: "stays (answer rs, s) \<longleftrightarrow> session_inv s"
  by (simp add: stays_def answer_def)

lemma stays_failures:
  assumes "session_inv s" and "s_state s \<noteq> StateDefunct"
  shows "stays (failTransition m s)" "stays (failWith c t s)" "stays (abortStream w s)" "stays (stream_failed w c t s)"
    "stays (no_such_query q s)" "stays (failUnsupportedImpersonation s)"
  using failed_inv [OF assms]
  by (simp_all add: stays_def failTransition_def failWith_def abortStream_def stream_failed_def no_such_query_def
      failUnsupportedImpersonation_def answer_def Let_def)

lemma handleHello_stays:
  assumes inv: "session_inv s" and nd: "s_state s \<noteq> StateDefunct"
  shows "stays (handleHello e extra s)"
proof (cases "s_state s = StateNegotiation")
  case True
  then have n: "holds_nothing s" "\<not> s_txActive s" "s_pendingTermErr s = None" using inv by (simp_all add: inv_idle)
  have idle: "session_inv (s\<lparr>s_state := x\<rparr>)" "session_inv (tell ev s\<lparr>s_identity := i, s_authenticated := b, s_state := x\<rparr>)"
    if "x = StateAuthentication \<or> x = StateReady" for x ev i b
    using n that by (auto simp: inv_idle holds_nothing_def)
  have "session_inv (s\<lparr>s_state := StateDefunct\<rparr>)" using n by (intro inv_nothing(2)) (simp_all add: holds_nothing_def)
  with True idle show ?thesis
    by (auto simp: handleHello_def HelloTransition_def Let_def split: sum.split)
next
  case False
  then show ?thesis using stays_failures [OF assms] by (simp add: handleHello_def)
qed

lemma handleLogon_stays:
  assumes inv: "session_inv s" and nd: "s_state s \<noteq> StateDefunct"
  shows "stays (handleLogon e auth s)"
proof (cases "s_state s = StateAuthentication \<or> s_state s = StateReady \<or> s_state s = StateTxReady")
  case True
  have ok: "session_inv (tell ev s\<lparr>s_identity := i, s_authenticated := b, s_state := x\<rparr>)"
    if "Transition (s_state s) (Logon auth) True = (x, False)" for ev i b x
    using True inv that
    by (elim disjE) (auto simp: inv_idle inv_TxReady holds_nothing_def holds_tx_def no_cursor_def Transition_def goto_def)
  have legal: "\<not> snd (Transition (s_state s) (Logon auth) True)" using True by (auto simp: Transition_def goto_def)
  have first: "session_inv (s\<lparr>s_state := StateDefunct\<rparr>)" if "s_state s = StateAuthentication"
    using inv that by (intro inv_nothing(2)) (simp_all add: holds_nothing_def inv_idle)
  have "session_inv (tell EvDeauth (enterFailed s)\<lparr>s_identity := [], s_authenticated := False, s_state := StateDefunct\<rparr>)"
    using enterFailed_nothing [OF session_tx_inv [OF inv]] by (intro inv_nothing(2)) (simp_all add: holds_nothing_def)
  with True ok legal first show ?thesis
    by (cases "Transition (s_state s) (Logon auth) True")
      (auto simp: handleLogon_def Let_def split: sum.split)
next
  case False
  then show ?thesis using stays_failures [OF assms] by (simp add: handleLogon_def)
qed

lemma handleLogoff_stays:
  assumes inv: "session_inv s" and nd: "s_state s \<noteq> StateDefunct"
  shows "stays (handleLogoff s)"
proof (cases "s_state s = StateAuthentication \<or> s_state s = StateReady \<or> s_state s = StateTxReady")
  case True
  have ok: "session_inv (tell ev s\<lparr>s_state := x, s_identity := i, s_authenticated := b\<rparr>)"
    if "Transition (s_state s) Logoff True = (x, False)" for ev i b x
    using True inv that
    by (elim disjE) (auto simp: inv_idle inv_TxReady holds_nothing_def holds_tx_def no_cursor_def Transition_def goto_def)
  have legal: "\<not> snd (Transition (s_state s) Logoff True)" using True by (auto simp: Transition_def goto_def)
  from True ok legal show ?thesis
    by (cases "Transition (s_state s) Logoff True") (auto simp: handleLogoff_def)
next
  case False
  then show ?thesis using stays_failures [OF assms] by (simp add: handleLogoff_def)
qed

lemma rolled_back:
  assumes inv: "session_inv s"
  shows "holds_nothing (roll_back_open (drainResult s))"
proof (cases "s_tx s")
  case None
  then have "\<not> s_txAccounted s" "\<not> s_txQuotaHeld s" "s_txID s = None" using inv by (simp_all add: session_inv_def)
  with None show ?thesis by (simp add: roll_back_open_def holds_nothing_def)
next
  case (Some tx)
  have "c_txReg (s_cfg s) \<or> s_txID s = None" using inv by (rule inv_reg)
  with Some show ?thesis by (simp add: roll_back_open_def holds_nothing_def txClosed_txID)
qed

lemma handleReset_stays:
  assumes inv: "session_inv s" and nd: "s_state s \<noteq> StateDefunct"
  shows "stays (handleReset s)"
proof -
  let ?s0 = "s\<lparr>s_pendingTermErr := None\<rparr>"
  have "session_inv ?s0" using inv by (simp add: session_inv_def del: not_None_eq)
  then have n: "holds_nothing (roll_back_open (drainResult ?s0))" by (rule rolled_back)
  let ?s2 = "(roll_back_open (drainResult ?s0))\<lparr>s_txActive := False\<rparr>"
  have ok: "session_inv (?s2\<lparr>s_state := x\<rparr>)" if "x = StateNegotiation \<or> x = StateReady" for x
    using n that by (intro inv_nothing(1)) (auto simp: holds_nothing_def)
  have "Transition (s_state s) Reset True = (StateNegotiation, False) \<or> Transition (s_state s) Reset True = (StateReady, False)"
    using nd by (simp add: Transition_def)
  then show ?thesis using ok nd by (auto simp: handleReset_def Let_def)
qed

lemma handleGoodbye_stays: "session_inv s \<Longrightarrow> stays (handleGoodbye s)"
  using rolled_back [of s] by (auto simp: handleGoodbye_def holds_nothing_def intro!: inv_nothing(2))

text \<open>Fields the invariant does not look at.\<close>

lemma inv_irrelevant [simp]:
  "session_inv (s\<lparr>s_autocommitStmt := a\<rparr>) = session_inv s" "session_inv (s\<lparr>s_stmtTimeout := t\<rparr>) = session_inv s"
  "session_inv (s\<lparr>s_clientDatabase := d\<rparr>) = session_inv s" "session_inv (s\<lparr>s_trace := tr\<rparr>) = session_inv s"
  "session_inv (s\<lparr>s_srv := srv\<rparr>) = session_inv s" "session_inv (s\<lparr>s_txDeadline := td\<rparr>) = session_inv s"
  "session_inv (s\<lparr>s_bookmark := b\<rparr>) = session_inv s" "session_inv (s\<lparr>s_columns := cs\<rparr>) = session_inv s"
  "session_inv (s\<lparr>s_txIdleDeadline := td\<rparr>) = session_inv s" "session_inv (s\<lparr>s_terminate := tm\<rparr>) = session_inv s"
  by (simp_all add: session_inv_def del: not_None_eq)

lemma inv_helpers [simp]:
  "session_inv (tell ev s) = session_inv s" "session_inv (srv_upd f s) = session_inv s"
  "session_inv (selectDatabaseFrom x s) = session_inv s" "session_inv (touchTx now s) = session_inv s"
  "session_inv (reportTx q s) = session_inv s" "session_inv (Tx_Rollback tx s) = session_inv s"
  by (simp_all add: tell_def srv_upd_def selectDatabaseFrom_def touchTx_def reportTx_def Tx_Rollback_def closeCursors_def
      split: option.split)

lemma Tx_Run_inv:
  assumes "session_inv s" and "s_tx s = Some tx"
  shows "session_inv (snd (Tx_Run e q ps tx s))" "s_state (snd (Tx_Run e q ps tx s)) = s_state s"
    "s_authenticated (snd (Tx_Run e q ps tx s)) = s_authenticated s"
proof -
  have "session_inv (tell ev s\<lparr>s_tx := Some t\<rparr>)" for t ev
    using assms by (simp add: session_inv_def tell_def del: not_None_eq)
  then show "session_inv (snd (Tx_Run e q ps tx s))"
    using assms(1) by (auto simp: Tx_Run_def Let_def split: exec_outcome.split)
qed (simp_all add: Tx_Run_def Let_def split: exec_outcome.split)

lemma run_statement_inv:
  assumes inv: "session_inv s" and st: "s_state s = StateReady \<or> s_state s = StateTxReady" and "s_authenticated s"
  shows "session_inv (snd (run_statement e q ps s))" "s_state (snd (run_statement e q ps s)) = s_state s"
    "s_authenticated (snd (run_statement e q ps s))"
proof -
  consider (auto) "\<not> s_txActive s" | (tx) tx where "s_txActive s" "s_tx s = Some tx"
    using inv st by (auto simp: inv_idle inv_TxReady holds_nothing_def holds_tx_def)
  then show "session_inv (snd (run_statement e q ps s))" "s_state (snd (run_statement e q ps s)) = s_state s"
    "s_authenticated (snd (run_statement e q ps s))"
    by (cases; use assms Tx_Run_inv [of "s\<lparr>s_autocommitStmt := False\<rparr>"] in \<open>simp add: run_statement_def\<close>)+
qed

lemma run_finish:
  assumes inv: "session_inv s" and st: "s_state s = StateReady \<or> s_state s = StateTxReady" and a: "s_authenticated s"
  shows "Transition (s_state s) (Run q ps x) ok = (if ok then (if s_state s = StateReady then StateStreaming else StateTxStreaming) else StateFailed, False)"
    and "session_inv (s\<lparr>s_state := (if s_state s = StateReady then StateStreaming else StateTxStreaming),
        s_result := Some r, s_columns := cs, s_resultCancel := c\<rparr>)"
proof -
  show "Transition (s_state s) (Run q ps x) ok = (if ok then (if s_state s = StateReady then StateStreaming else StateTxStreaming) else StateFailed, False)"
    using st by (auto simp: Transition_def goto_def)
  show "session_inv (s\<lparr>s_state := (if s_state s = StateReady then StateStreaming else StateTxStreaming),
        s_result := Some r, s_columns := cs, s_resultCancel := c\<rparr>)"
    using st inv a by (elim disjE) (simp_all add: inv_states holds_nothing_def holds_tx_def)
qed

lemma run_now_stays:
  assumes inv: "session_inv s" and st: "s_state s = StateReady \<or> s_state s = StateTxReady" and a: "s_authenticated s"
  shows "stays (run_now e q ps x eff s)"
proof -
  obtain outc s3 where r: "run_statement e q ps s = (outc, s3)" by (cases "run_statement e q ps s")
  have i3: "session_inv s3" "s_state s3 = s_state s" "s_authenticated s3"
    using run_statement_inv [OF assms, of e q ps] r by auto
  note fin = run_finish [OF i3(1) _ i3(3)]
  have F: "session_inv (enterFailed s3)" using failed_inv [OF i3(1)] i3(2) st by auto
  show ?thesis
  proof (cases outc)
    case (Inl err)
    then show ?thesis using r fin(1) [of q ps x False] i3(2) st F by (simp add: run_now_def transitionTo_def)
  next
    case (Inr res)
    then show ?thesis using r fin(1) [of q ps x True] fin(2) [of "eff > 0" "r_columns res" res] i3(2) st
      by (elim disjE) (simp_all add: run_now_def transitionTo_def Let_def)
  qed
qed

lemma handleRun_stays:
  assumes inv: "session_inv s" and nd: "s_state s \<noteq> StateDefunct"
  shows "stays (handleRun e q ps x s)"
proof -
  define s1 where "s1 = (case client_timeout ''timeout'' x of None \<Rightarrow> s | Some d \<Rightarrow> s\<lparr>s_stmtTimeout := d\<rparr>)"
  have i1: "session_inv s1" "s_state s1 = s_state s" "s_authenticated s1 = s_authenticated s"
    using inv by (simp_all add: s1_def split: option.split)
  have run: "stays (run_now e q ps x eff s1)" "stays (run_now e q ps x eff (selectDatabaseFrom x s1))"
    if "s_authenticated s" "s_state s = StateReady \<or> s_state s = StateTxReady" for eff
    using i1 that by (auto intro!: run_now_stays)
  show ?thesis
    unfolding handleRun_def Let_def s1_def [symmetric]
    using stays_failures [OF assms] failed_inv [OF assms] stays_failures(6) [OF i1(1)] i1(2) nd run by simp
qed

lemma inv_cursor:
  assumes "session_inv s" and "s_state s = StateStreaming \<or> s_state s = StateTxStreaming"
  shows "session_inv (s\<lparr>s_result := Some r\<rparr>)" "session_inv (s\<lparr>s_peeked := None\<rparr>)" "session_inv (s\<lparr>s_result := Some r, s_peeked := pk\<rparr>)"
    "session_inv (s\<lparr>s_peeked := pk, s_result := Some r\<rparr>)"
  using assms by (elim disjE; simp add: inv_Streaming inv_TxStreaming holds_tx_def)+

lemma inv_drained:
  assumes inv: "session_inv s" and st: "s_state s = StateStreaming \<or> s_state s = StateTxStreaming"
  shows "session_inv ((drainResult s)\<lparr>s_peeked := None, s_state := (if s_state s = StateStreaming then StateReady else StateTxReady)\<rparr>)"
  using st inv by (elim disjE) (simp_all add: inv_states holds_nothing_def holds_tx_def no_cursor_def)

lemma NextBookmark_inv [simp]: "session_inv (snd (NextBookmark s)) = session_inv s"
  by (simp add: NextBookmark_def Let_def)

lemma end_stream_inv [simp]: "session_inv (snd (end_stream b r s)) = session_inv s"
proof -
  obtain bm s' where "NextBookmark s = (bm, s')" by (cases "NextBookmark s")
  with NextBookmark_inv [of s] show ?thesis by (simp add: end_stream_def)
qed

lemma stream_reply_ok [simp]: "snd (stream_reply out meta s) \<noteq> NilPanic"
  by (simp add: stream_reply_def)

lemma finish_stream_stays:
  assumes inv: "session_inv s" and st: "s_state s = StateStreaming \<or> s_state s = StateTxStreaming"
  shows "stays (finish_stream m b n k r out s)"
proof -
  obtain pk r' where p: "peek_more n k r = (pk, r')" by (cases "peek_more n k r")
  define s1 where "s1 = s\<lparr>s_result := Some r', s_peeked := (if pk \<noteq> None then pk else s_peeked s)\<rparr>"
  have i1: "session_inv s1" "s_state s1 = s_state s" using inv_cursor(3) [OF assms] by (simp_all add: s1_def)
  have more: "StreamingTransition (s_state s) True = (s_state s, False)"
    and fin: "StreamingTransition (s_state s) False = (if s_state s = StateStreaming then StateReady else StateTxReady, False)"
    using st by (auto simp: StreamingTransition_def)
  have same: "s1\<lparr>s_state := s_state s\<rparr> = s1" using i1(2) by simp
  define s2 where "s2 = (drainResult s1)\<lparr>s_peeked := None, s_state := (if s_state s = StateStreaming then StateReady else StateTxReady)\<rparr>"
  have i2: "session_inv s2" using inv_drained [OF i1(1)] i1(2) st by (simp add: s2_def)
  obtain meta s3 where nb: "end_stream b r' s2 = (meta, s3)" by (cases "end_stream b r' s2")
  have i3: "session_inv s3" using end_stream_inv [of b r' s2] nb i2 by simp
  show ?thesis
  proof (cases "pk = None")
    case True
    then show ?thesis
      unfolding finish_stream_def p prod.case Let_def s1_def [symmetric] i1(2)
      using fin i3 nb by (simp add: s2_def [symmetric] stays_def)
  next
    case False
    then show ?thesis
      unfolding finish_stream_def p prod.case Let_def s1_def [symmetric] i1(2)
      using more i1(1) same by (simp add: stays_def)
  qed
qed

lemma pull_rows_stays:
  assumes inv: "session_inv s" and st: "s_state s = StateStreaming \<or> s_state s = StateTxStreaming"
  shows "stays (pull_rows e N Q n k out s)"
proof -
  obtain r where r: "s_result s = Some r" using assms by (auto simp: inv_Streaming inv_TxStreaming)
  obtain stop k' r' out' where l: "pull_loop e s n k r out = (stop, k', r', out')" by (cases "pull_loop e s n k r out")
  let ?s1 = "s\<lparr>s_result := Some r'\<rparr>"
  have i1: "session_inv ?s1" using inv_cursor(1) [OF assms] .
  moreover have "s_state ?s1 \<noteq> StateDefunct" using st by auto
  moreover have "stays (finish_stream (Pull N Q) True n k' r' out' ?s1)" using i1 st by (intro finish_stream_stays) simp_all
  ultimately show ?thesis
    using stays_failures [of ?s1] by (auto simp: pull_rows_def r l Let_def split: pull_stop.split option.split)
qed

lemma handlePull_stays:
  assumes inv: "session_inv s" and nd: "s_state s \<noteq> StateDefunct"
  shows "stays (handlePull e N Q s)"
proof (cases "s_state s = StateStreaming \<or> s_state s = StateTxStreaming")
  case True
  have i: "session_inv (s\<lparr>s_peeked := None\<rparr>)" using inv_cursor(2) [OF inv True] .
  have p: "stays (pull_rows e N Q n k out s)" "stays (pull_rows e N Q n k out (s\<lparr>s_peeked := None\<rparr>))" for n k out
    using pull_rows_stays inv i True by simp_all
  have q: "stays (abortStream [] (s\<lparr>s_peeked := None\<rparr>))" using stays_failures(3) [OF i] nd by simp
  from True p q show ?thesis
    using stays_failures [OF assms] by (auto simp: handlePull_def Let_def split: option.split)
next
  case False
  then show ?thesis using stays_failures [OF assms] by (simp add: handlePull_def)
qed

lemma handleDiscard_stays:
  assumes inv: "session_inv s" and nd: "s_state s \<noteq> StateDefunct"
  shows "stays (handleDiscard N Q s)"
proof (cases "s_state s = StateStreaming \<or> s_state s = StateTxStreaming")
  case True
  obtain r where r: "s_result s = Some r" using inv True by (auto simp: inv_Streaming inv_TxStreaming)
  define n :: int where "n = (if sint N = 0 then - 1 else sint N)"
  define k :: int where "k = (if s_peeked s \<noteq> None then 1 else 0)"
  obtain k' r' where l: "discard_loop n k r = (k', r')" by (cases "discard_loop n k r")
  let ?s1 = "s\<lparr>s_peeked := None, s_result := Some r'\<rparr>"
  have i1: "session_inv ?s1" using inv_cursor(4) [OF inv True] .
  then have f: "stays (finish_stream (Discard N Q) False n k' r' [] ?s1)" using True by (intro finish_stream_stays) simp_all
  have e: "session_inv (enterFailed ?s1)" using failed_inv [OF i1] nd by simp
  have d: "session_inv (enterFailed (drainResult s))"
    using session_tx_inv [OF inv] nd by (intro enterFailed_inv) simp_all
  show ?thesis
    unfolding handleDiscard_def r option.case Let_def n_def [symmetric] k_def [symmetric] l prod.case
    using True stays_failures(5) [OF assms] f e d by (auto split: option.split)
next
  case False
  then show ?thesis using stays_failures [OF assms] by (simp add: handleDiscard_def)
qed

lemma acquireTxQuota_same [simp]:
  "s_cfg (snd (acquireTxQuota s)) = s_cfg s" "s_state (snd (acquireTxQuota s)) = s_state s"
  "s_tx (snd (acquireTxQuota s)) = s_tx s" "s_result (snd (acquireTxQuota s)) = s_result s"
  "s_peeked (snd (acquireTxQuota s)) = s_peeked s" "s_resultCancel (snd (acquireTxQuota s)) = s_resultCancel s"
  "s_txID (snd (acquireTxQuota s)) = s_txID s" "s_pendingTermErr (snd (acquireTxQuota s)) = s_pendingTermErr s"
  "s_txAccounted (snd (acquireTxQuota s)) = s_txAccounted s" "s_txActive (snd (acquireTxQuota s)) = s_txActive s"
  "s_authenticated (snd (acquireTxQuota s)) = s_authenticated s" "s_trace (snd (acquireTxQuota s)) = s_trace s"
  "s_identity (snd (acquireTxQuota s)) = s_identity s"
  by (simp_all add: acquireTxQuota_def Let_def split: option.split)

lemma acquireTxQuota_held:
  assumes "acquireTxQuota s = (ok, s')"
  shows "s_txQuotaHeld s' = (if ok \<and> c_txQuota (s_cfg s) then True else s_txQuotaHeld s)"
    "\<not> ok \<Longrightarrow> s' = s"
  using assms by (auto simp: acquireTxQuota_def Let_def split: option.splits if_splits)

lemma open_tx_stays:
  assumes st: "s_state s = StateReady" and n: "s_tx s = None" "no_cursor s" "s_pendingTermErr s = None" "s_txID s = None"
    and h: "s_txQuotaHeld s = c_txQuota (s_cfg s)"
  shows "stays (open_tx e x mode tx s)"
proof -
  let ?s1 = "\<lambda>dl. s\<lparr>s_state := StateTxReady, s_txActive := True, s_tx := Some tx, s_txDeadline := dl\<rparr>"
  have reg: "(s_txID (registerTx mode t) \<noteq> None) = c_txReg (s_cfg t)" if "s_txID t = None" for t
    using that by (simp add: registerTx_def Let_def)
  have acc: "s_txAccounted (txOpened t)" for t by (simp add: txOpened_def)
  have "session_inv (txOpened (registerTx mode (touchTx (e_now e) (?s1 dl))))" for dl
    using st n h acc reg [of "touchTx (e_now e) (?s1 dl)"] by (simp add: inv_TxReady holds_tx_def no_cursor_def)
  then show ?thesis using st by (simp add: open_tx_def Transition_def goto_def Let_def)
qed

lemma handleBegin_stays:
  assumes inv: "session_inv s" and nd: "s_state s \<noteq> StateDefunct"
  shows "stays (handleBegin e x s)"
proof (cases "s_authenticated s \<and> s_state s = StateReady")
  case False
  then show ?thesis using stays_failures [OF assms] by (auto simp: handleBegin_def)
next
  case True
  then have n: "holds_nothing s" "\<not> s_txActive s" "s_pendingTermErr s = None" using inv by (simp_all add: inv_idle)
  show ?thesis
  proof (cases "access_mode x")
    case None
    then show ?thesis using True n inv by (simp add: handleBegin_def)
  next
    case (Some mode)
    let ?s1 = "tell (EvBegin mode) (selectDatabaseFrom x s)"
    obtain ok s2 where a: "acquireTxQuota ?s1 = (ok, s2)" by (cases "acquireTxQuota ?s1")
    have s2: "s_state s2 = StateReady" "s_tx s2 = None" "no_cursor s2" "s_pendingTermErr s2 = None" "s_txID s2 = None" "s_cfg s2 = s_cfg s"
      using acquireTxQuota_same [of ?s1] a True n by (simp_all add: holds_nothing_def no_cursor_def)
    have h: "s_txQuotaHeld s2 = c_txQuota (s_cfg s2)" if ok
      using acquireTxQuota_held(1) [OF a] that n s2(6) by (auto simp: holds_nothing_def)
    have "stays (open_tx e x mode tx s2)" if ok for tx using s2 h [OF that] by (intro open_tx_stays) auto
    moreover have "s2 = ?s1" if "\<not> ok" using acquireTxQuota_held(2) [OF a that] .
    moreover have "session_inv (enterFailed ?s1)" using failed_inv [of ?s1] inv nd by simp
    ultimately show ?thesis
      using True n Some a inv by (cases ok) (auto simp: handleBegin_def newTx_def split: option.split)
  qed
qed

lemma handleCommit_stays:
  assumes inv: "session_inv s" and nd: "s_state s \<noteq> StateDefunct"
  shows "stays (handleCommit e s)"
proof (cases "s_state s = StateTxReady \<and> s_authenticated s")
  case False
  then show ?thesis using stays_failures [OF assms] by (auto simp: handleCommit_def)
next
  case True
  obtain tx where tx: "s_tx s = Some tx" using inv True by (auto simp: inv_TxReady holds_tx_def)
  let ?s1 = "tell EvCommit (closeCursors tx s)"
  show ?thesis
  proof (cases "e_Commit e")
    case (Some err)
    have "tx_inv (?s1\<lparr>s_tx := Some t\<rparr>)" for t
      using session_tx_inv [OF inv] tx by (simp add: tx_inv_def closeCursors_def)
    then have "session_inv (enterFailed (?s1\<lparr>s_tx := Some t\<rparr>))" for t
      using nd by (intro enterFailed_inv) (simp_all add: closeCursors_def)
    then show ?thesis using True tx Some by (simp add: handleCommit_def Tx_Commit_def)
  next
    case None
    let ?s2 = "txClosed (?s1\<lparr>s_tx := None\<rparr>)"
    have r: "c_txReg (s_cfg s) \<or> s_txID s = None" using inv by (rule inv_reg)
    have "no_cursor s" "s_pendingTermErr s = None" using inv True by (simp_all add: inv_TxReady)
    then have n: "session_inv (?s2\<lparr>s_state := StateReady, s_txActive := False\<rparr>)"
      using r by (simp add: inv_idle holds_nothing_def no_cursor_def closeCursors_def txClosed_txID)
    obtain bm s3 where nb: "NextBookmark (?s2\<lparr>s_state := StateReady, s_txActive := False\<rparr>) = (bm, s3)"
      by (cases "NextBookmark (?s2\<lparr>s_state := StateReady, s_txActive := False\<rparr>)")
    have "session_inv s3" using NextBookmark_inv [of "?s2\<lparr>s_state := StateReady, s_txActive := False\<rparr>"] nb n by simp
    moreover have "Transition (s_state ?s2) Commit True = (StateReady, False)"
      using True by (simp add: Transition_def goto_def closeCursors_def)
    ultimately show ?thesis using True tx None nb by (simp add: handleCommit_def Tx_Commit_def)
  qed
qed

lemma handleRollback_stays:
  assumes inv: "session_inv s" and nd: "s_state s \<noteq> StateDefunct"
  shows "stays (handleRollback s)"
proof (cases "s_state s = StateTxReady \<and> s_authenticated s")
  case False
  then show ?thesis using stays_failures [OF assms] by (auto simp: handleRollback_def)
next
  case True
  obtain tx where tx: "s_tx s = Some tx" using inv True by (auto simp: inv_TxReady holds_tx_def)
  have r: "c_txReg (s_cfg s) \<or> s_txID s = None" using inv by (rule inv_reg)
  have "no_cursor s" "s_pendingTermErr s = None" using inv True by (simp_all add: inv_TxReady)
  then have "session_inv ((roll_back_open s)\<lparr>s_state := StateReady, s_txActive := False\<rparr>)"
    using r tx by (simp add: inv_idle holds_nothing_def no_cursor_def roll_back_open_def txClosed_txID)
  then show ?thesis using True by (simp add: handleRollback_def Transition_def goto_def Let_def)
qed

lemma handleRoute_stays: "session_inv s \<Longrightarrow> s_state s \<noteq> StateDefunct \<Longrightarrow> stays (handleRoute r b db s)"
  using stays_failures [of s] by (auto simp: handleRoute_def Let_def)

lemma dispatch_stays:
  assumes "session_inv s" and "s_state s \<noteq> StateDefunct"
  shows "stays (dispatch e m s)"
proof -
  have "session_inv (s\<lparr>s_pendingTermErr := None\<rparr>)" using assms by (simp add: session_inv_def del: not_None_eq)
  moreover have "stays (handle e m s)"
    using handleHello_stays [OF assms] handleLogon_stays [OF assms] handleLogoff_stays [OF assms] handleReset_stays [OF assms]
      handleGoodbye_stays [OF assms(1)] handleRun_stays [OF assms] handlePull_stays [OF assms] handleDiscard_stays [OF assms]
      handleBegin_stays [OF assms] handleCommit_stays [OF assms] handleRollback_stays [OF assms] handleRoute_stays [OF assms]
    by (cases m) simp_all
  ultimately show ?thesis using assms(1) by (auto simp: dispatch_def split: option.split)
qed

lemma HandleMessage_stays:
  assumes "session_inv s" and "s_state s \<noteq> StateDefunct"
  shows "stays (HandleMessage e m s)"
  using dispatch_stays [OF assms] stays_failures [OF assms] by (auto simp: HandleMessage_def split: option.split)

lemma serve_message_stays:
  assumes "session_inv s" and "s_state s \<noteq> StateDefunct"
  shows "stays (serve_message e m s)"
proof -
  obtain w o' s1 where h: "HandleMessage e m (touchTx (e_now e) s) = ((w, o'), s1)"
    by (metis surj_pair)
  have "stays (HandleMessage e m (touchTx (e_now e) s))" using assms by (intro HandleMessage_stays) simp_all
  then show ?thesis using h by (cases o') (simp_all add: serve_message_def stays_def)
qed

lemma server_events_inv:
  assumes "session_inv s" and "s_state s \<noteq> StateDefunct"
  shows "session_inv (timer_fired s)" "session_inv (terminate_signalled s)" "session_inv (requestTerminate s)"
proof -
  have "session_inv ((enterFailed t)\<lparr>s_txDeadline := None, s_pendingTermErr := Some f\<rparr>)" if "session_inv t" "s_state t \<noteq> StateDefunct" for t f
    using enterFailed_nothing [OF session_tx_inv [OF that(1)]] enterFailed_released(4) [OF session_tx_inv [OF that(1)] that(2)]
    by (intro inv_nothing(1)) (simp_all add: holds_nothing_def)
  with assms show "session_inv (timer_fired s)" "session_inv (terminate_signalled s)" "session_inv (requestTerminate s)"
    by (simp_all add: timer_fired_def terminate_signalled_def reapTimedOutTx_def terminateTxByOperator_def endTxWithReason_def
        requestTerminate_def Let_def)
qed

lemma newSession_inv: "session_inv (newSession cfg srv)"
  by (simp add: inv_idle newSession_def holds_nothing_def)

subsection \<open>A sample configuration\<close>

text \<open>Protocol 4.4, every principal accepted, an engine that answers with two rows, one slot per principal.\<close>

definition sample_cfg :: session_config where
  "sample_cfg = \<lparr>c_id = str ''s1'', c_localAddr = str ''a:7687'', c_remote = str ''b:1'', c_boltVersion = \<lparr>v_Major = 4, v_Minor = 4\<rparr>,
     c_serverDatabase = [], c_maxInFlight = 8, c_maxStmtTimeout = 0, c_defaultStmtTimeout = 0, c_defaultTxTimeout = 0,
     c_maxTxIdle = 0, c_txReg = True, c_txQuota = True, c_quotaLimit = 1, c_records = False\<rparr>"

definition sample_cursor :: result_cursor where
  "sample_cursor = \<lparr>r_rows = [[PInt 1], [PInt 2]], r_end = None, r_err = None, r_columns = [str ''n''], r_notifications = [],
     r_stats = [], r_plan = None, r_profile = None\<rparr>"

definition sample_env :: env where
  "sample_env = \<lparr>e_ctxErr = None, e_ctxDone = (\<lambda>_. None), e_auth = NoAuthHandler_Authenticate, e_RunAny = (\<lambda>_ _. Inr sample_cursor),
     e_BeginTx = (\<lambda>_. None), e_Exec = (\<lambda>_ _. ExecOK sample_cursor), e_Commit = None, e_now = 0, e_sinkOK = (\<lambda>_. True),
     e_quote = (\<lambda>b. b)\<rparr>"

end
