(* ===== verification/Bolt_Server.thy ===== *)
theory Bolt_Server
  imports Bolt_Session_Inv
begin

text \<open>
  The sessions of one server together: what they share is accounted for exactly, and no engine call
  is made for a client that is not authenticated.
\<close>

subsection \<open>Accounting\<close>

text \<open>The quota slot and the open transaction a session itself accounts for.\<close>

definition own_slot :: "Session \<Rightarrow> bytes \<Rightarrow> int" where
  "own_slot s p = (if s_txQuotaHeld s \<and> s_txQuotaPrincipal s = p then 1 else 0)"

definition own_tx :: "Session \<Rightarrow> int" where
  "own_tx s = (if s_txAccounted s then 1 else 0)"

definition others_slots :: "Session \<Rightarrow> bytes \<Rightarrow> int" where
  "others_slots s p = int (q_open (s_srv s) p) - own_slot s p"

definition others_txs :: "Session \<Rightarrow> int" where
  "others_txs s = int (m_txOpened (s_srv s)) - int (m_txClosed (s_srv s)) - own_tx s"

text \<open>The limit is enforced and the books are not negative.\<close>

definition counted :: "Session \<Rightarrow> bool" where
  "counted s \<longleftrightarrow> 0 < c_quotaLimit (s_cfg s) \<and> c_txQuota (s_cfg s) \<and> (\<forall>p. 0 \<le> others_slots s p)"

text \<open>One session's step leaves the others' share as it was, and takes no slot past the limit.\<close>

definition fair :: "Session \<Rightarrow> Session \<Rightarrow> bool" where
  "fair s s' \<longleftrightarrow> s_cfg s' = s_cfg s \<and> others_slots s' = others_slots s \<and> others_txs s' = others_txs s
     \<and> (\<forall>p. int (q_open (s_srv s') p) \<le> max (int (q_open (s_srv s) p)) (c_quotaLimit (s_cfg s)))"

lemma fair_refl [simp]: "fair s s"
  by (simp add: fair_def)

lemma fair_trans:
  assumes "fair s t" and "fair t u"
  shows "fair s u"
proof -
  have "int (q_open (s_srv u) p) \<le> max (int (q_open (s_srv s) p)) (c_quotaLimit (s_cfg s))" for p
  proof -
    have "int (q_open (s_srv u) p) \<le> max (int (q_open (s_srv t) p)) (c_quotaLimit (s_cfg s))"
      "int (q_open (s_srv t) p) \<le> max (int (q_open (s_srv s) p)) (c_quotaLimit (s_cfg s))"
      using assms by (auto simp: fair_def)
    then show ?thesis by linarith
  qed
  with assms show ?thesis by (simp add: fair_def)
qed

lemma fair_counted: "fair s s' \<Longrightarrow> counted s \<Longrightarrow> counted s'"
  by (simp add: fair_def counted_def)

lemmas fair_defs = fair_def others_slots_def others_txs_def own_slot_def own_tx_def fun_eq_iff

lemma fair_update:
  "fair s t \<Longrightarrow> s_cfg u = s_cfg t \<Longrightarrow> s_srv u = s_srv t \<Longrightarrow> s_txQuotaHeld u = s_txQuotaHeld t \<Longrightarrow>
     s_txQuotaPrincipal u = s_txQuotaPrincipal t \<Longrightarrow> s_txAccounted u = s_txAccounted t \<Longrightarrow> fair s u"
  by (simp add: fair_defs)

lemma releaseTxQuota_fair: "counted s \<Longrightarrow> fair s (releaseTxQuota s)"
proof -
  assume c: "counted s"
  have pos: "s_txQuotaHeld s \<Longrightarrow> 1 \<le> q_open (s_srv s) (s_txQuotaPrincipal s)"
    using c unfolding counted_def others_slots_def own_slot_def by (metis int_one_le_iff_zero_less
      less_one not_le diff_ge_0_iff_ge of_nat_0_less_iff zero_less_iff_neq_zero of_nat_0 not_one_le_zero)
  show ?thesis
  proof (cases "s_txQuotaHeld s")
    case True
    have "int (quota_release (c_quotaLimit (s_cfg s)) (s_txQuotaPrincipal s) (q_open (s_srv s)) p) =
        int (q_open (s_srv s) p) - (if s_txQuotaPrincipal s = p then 1 else 0)" for p
      using c pos [OF True] by (auto simp: quota_release_def Let_def counted_def of_nat_diff)
    then show ?thesis using True c
      by (simp add: fair_defs releaseTxQuota_def Let_def counted_def srv_upd_def)
  next
    case False
    then show ?thesis by (simp add: releaseTxQuota_def)
  qed
qed

lemma unregisterTx_fair: "fair s (unregisterTx s)"
  by (simp add: fair_defs unregisterTx_def srv_upd_def split: option.split)

lemma txClosed_fair: "counted s \<Longrightarrow> fair s (txClosed s)"
proof -
  assume c: "counted s"
  let ?t = "(unregisterTx (releaseTxQuota s))\<lparr>s_txIdleDeadline := None\<rparr>"
  have "fair s (unregisterTx (releaseTxQuota s))"
    using releaseTxQuota_fair [OF c] unregisterTx_fair fair_trans by blast
  then have t: "fair s ?t" by (rule fair_update) simp_all
  moreover have "fair ?t (srv_upd (m_txClosed_update Suc) (?t\<lparr>s_txAccounted := False\<rparr>))" if "s_txAccounted ?t"
    using that by (simp add: fair_defs srv_upd_def)
  ultimately show ?thesis unfolding txClosed_def Let_def using fair_trans by auto
qed

lemma drainResult_fair: "fair s (drainResult s)"
  by (rule fair_update [OF fair_refl]) simp_all

lemma Tx_Rollback_fair: "fair s (Tx_Rollback tx s)"
  by (rule fair_update [OF fair_refl]) simp_all

lemma abortTx_fair:
  assumes c: "counted s"
  shows "fair s (abortTx s)"
proof -
  define s2 where "s2 = (case s_tx (drainResult s) of None \<Rightarrow> drainResult s | Some tx \<Rightarrow> (Tx_Rollback tx (drainResult s))\<lparr>s_tx := None\<rparr>)"
  have f: "fair s s2"
    unfolding s2_def by (cases "s_tx s"; simp; intro fair_update [OF drainResult_fair] drainResult_fair) simp_all
  have "fair s (txClosed s2)" using f txClosed_fair [OF fair_counted [OF f c]] fair_trans by blast
  then show ?thesis unfolding abortTx_def Let_def s2_def [symmetric] by (rule fair_update) simp_all
qed

lemma enterFailed_fair:
  assumes c: "counted s"
  shows "fair s (enterFailed s)"
proof -
  have f: "fair s (drainResult (s\<lparr>s_state := StateFailed\<rparr>))" by (rule fair_update [OF fair_refl]) simp_all
  show ?thesis unfolding enterFailed_def Let_def using f abortTx_fair [OF fair_counted [OF f c]] fair_trans by auto
qed

lemma roll_back_open_fair:
  assumes c: "counted s"
  shows "fair s (roll_back_open s)"
proof (cases "s_tx s")
  case (Some tx)
  have f: "fair s ((Tx_Rollback tx s)\<lparr>s_tx := None\<rparr>)" by (rule fair_update [OF fair_refl]) simp_all
  show ?thesis using Some f txClosed_fair [OF fair_counted [OF f c]] fair_trans by (auto simp: roll_back_open_def)
qed (simp add: roll_back_open_def)

definition fair_reply :: "Session \<Rightarrow> reply \<times> Session \<Rightarrow> bool" where
  "fair_reply s r \<longleftrightarrow> fair s (snd r)"

lemma fair_replyI [simp]: "fair_reply s (rep, t) = fair s t"
  by (simp add: fair_reply_def)

lemma fair_reply_trans: "fair s t \<Longrightarrow> fair_reply t r \<Longrightarrow> fair_reply s r"
  unfolding fair_reply_def by (rule fair_trans)

lemma failures_fair:
  assumes "counted s"
  shows "fair_reply s (failTransition m s)" "fair_reply s (failWith c t s)" "fair_reply s (abortStream w s)"
    "fair_reply s (stream_failed w c t s)" "fair_reply s (no_such_query q s)" "fair_reply s (failUnsupportedImpersonation s)"
  using enterFailed_fair [OF assms]
  by (simp_all add: failTransition_def failWith_def abortStream_def stream_failed_def no_such_query_def
      failUnsupportedImpersonation_def Let_def)

lemma fair_simple:
  "fair s (tell ev s)" "fair s (selectDatabaseFrom x s)" "fair s (touchTx now s)" "fair s (s\<lparr>s_state := st\<rparr>)"
  "fair s (s\<lparr>s_peeked := pk\<rparr>)" "fair s (s\<lparr>s_result := rs\<rparr>)" "fair s (s\<lparr>s_stmtTimeout := d\<rparr>)" "fair s (s\<lparr>s_pendingTermErr := f\<rparr>)"
  by (rule fair_update [OF fair_refl]; simp)+

lemma fair_server:
  "fair s (reportTx q s)" "fair s (registerTx mode s)" "fair s (snd (NextBookmark s))" "fair s (srv_upd (m_txQuotaRejected_update Suc) s)"
  "fair s (srv_upd (m_txAbandoned_update Suc) s)"
  by (simp_all add: fair_defs reportTx_def registerTx_def NextBookmark_def Let_def srv_upd_def split: option.split)

lemma txOpened_fair: "\<not> s_txAccounted s \<Longrightarrow> fair s (txOpened s)"
  by (simp add: fair_defs txOpened_def srv_upd_def)

lemma acquireTxQuota_fair:
  assumes h: "\<not> s_txQuotaHeld s" and a: "acquireTxQuota s = (ok, s')" and c: "counted s"
  shows "fair s s'"
proof (cases ok)
  case True
  let ?q = "(q_open (s_srv s))(s_identity s := q_open (s_srv s) (s_identity s) + 1)"
  have "s' = s\<lparr>s_srv := s_srv s\<lparr>q_open := ?q\<rparr>, s_txQuotaHeld := True, s_txQuotaPrincipal := s_identity s\<rparr>"
    "int (q_open (s_srv s) (s_identity s)) < c_quotaLimit (s_cfg s)"
    using a c True by (simp_all add: acquireTxQuota_def quota_acquire_def Let_def counted_def srv_upd_def split: if_splits)
  then show ?thesis using h by (simp add: fair_defs max_def)
next
  case False
  then show ?thesis using acquireTxQuota_held(2) [OF a] by simp
qed

lemma auth_handlers_fair:
  assumes c: "counted s"
  shows "fair_reply s (handleHello e x s)" "fair_reply s (handleLogon e x s)" "fair_reply s (handleLogoff s)"
proof -
  let ?a = "\<lambda>i. (tell (EvAuth i) s)\<lparr>s_identity := i, s_authenticated := True\<rparr>"
  have a: "fair s (?a i)" "fair s ((?a i)\<lparr>s_state := st\<rparr>)" for i st by (rule fair_update [OF fair_refl]; simp)+
  have fa: "fair_reply s (failTransition m (?a i))" for m i
    using fair_reply_trans [OF a(1) failures_fair(1) [OF fair_counted [OF a(1) c]]] .
  have re: "fair s ((tell EvDeauth (enterFailed s))\<lparr>s_identity := [], s_authenticated := False, s_state := StateDefunct\<rparr>)"
    by (rule fair_update [OF enterFailed_fair [OF c]]) simp_all
  have lo: "fair s ((tell EvDeauth s)\<lparr>s_state := st, s_identity := [], s_authenticated := False\<rparr>)" for st
    by (rule fair_update [OF fair_refl]) simp_all
  note all = failures_fair [OF c] a fa re lo fair_simple
  show "fair_reply s (handleHello e x s)"
    unfolding handleHello_def Let_def by (auto simp: all split: sum.split prod.split)
  show "fair_reply s (handleLogon e x s)"
    unfolding handleLogon_def Let_def by (auto simp: all split: sum.split prod.split)
  show "fair_reply s (handleLogoff s)"
    unfolding handleLogoff_def by (auto simp: all split: prod.split)
qed

lemma reset_fair:
  assumes c: "counted s"
  shows "fair_reply s (handleReset s)" "fair_reply s (handleGoodbye s)"
proof -
  have d: "fair s (drainResult (s\<lparr>s_pendingTermErr := None\<rparr>))" by (rule fair_update [OF fair_refl]) simp_all
  have rb: "fair s (roll_back_open (drainResult (s\<lparr>s_pendingTermErr := None\<rparr>)))"
    using roll_back_open_fair [OF fair_counted [OF d c]] d fair_trans by blast
  define s2 where "s2 = (roll_back_open (drainResult (s\<lparr>s_pendingTermErr := None\<rparr>)))\<lparr>s_txActive := False\<rparr>"
  have s2: "fair s s2" "fair s (s2\<lparr>s_state := st\<rparr>)" for st
    unfolding s2_def by (rule fair_update [OF rb]; simp)+
  have f: "fair_reply s (failTransition Reset s2)"
    using fair_reply_trans [OF s2(1) failures_fair(1) [OF fair_counted [OF s2(1) c]]] .
  show "fair_reply s (handleReset s)"
    unfolding handleReset_def Let_def s2_def [symmetric] using failures_fair(1) [OF c] s2 f by (auto split: prod.split)
  have "fair s (roll_back_open (drainResult s))"
    using roll_back_open_fair [OF fair_counted [OF drainResult_fair c]] drainResult_fair fair_trans by blast
  then have "fair s ((roll_back_open (drainResult s))\<lparr>s_state := StateDefunct\<rparr>)" by (rule fair_update) simp_all
  then show "fair_reply s (handleGoodbye s)" by (simp add: handleGoodbye_def)
qed

lemma run_statement_fair: "fair s (snd (run_statement e q ps s))"
  by (rule fair_update [OF fair_refl])
    (simp_all add: run_statement_def Tx_Run_def Let_def split: option.split exec_outcome.split)

lemma handleRun_fair:
  assumes c: "counted s"
  shows "fair_reply s (handleRun e q ps x s)"
proof -
  have now: "fair_reply t (run_now e q ps x eff t)" if ct: "counted t" for t eff
  proof -
    obtain outc s3 where r: "run_statement e q ps t = (outc, s3)" by (cases "run_statement e q ps t")
    have f: "fair t s3" using run_statement_fair [of t e q ps] r by simp
    have c3: "counted s3" using fair_counted [OF f ct] .
    have fc: "fair t (tell EvCloseCursor s3)" using fair_trans [OF f fair_simple(1)] .
    have F1: "fair_reply t (failTransition m s3)" for m using fair_reply_trans [OF f failures_fair(1) [OF c3]] .
    have F2: "fair_reply t (failTransition m (tell EvCloseCursor s3))" for m
      using fair_reply_trans [OF fc failures_fair(1) [OF fair_counted [OF fc ct]]] .
    have T: "fair t (transitionTo next s3)" for "next"
      using fair_trans [OF f enterFailed_fair [OF c3]] fair_trans [OF f fair_simple(4)] by (simp add: transitionTo_def)
    have R: "fair t ((transitionTo next s3)\<lparr>s_result := Some r, s_columns := cs, s_resultCancel := b\<rparr>)" for "next" r cs b
      by (rule fair_update [OF T]) simp_all
    show ?thesis unfolding run_now_def r using F1 F2 T R by (auto simp: Let_def split: prod.split sum.split)
  qed
  define s1 where "s1 = (case client_timeout ''timeout'' x of None \<Rightarrow> s | Some d \<Rightarrow> s\<lparr>s_stmtTimeout := d\<rparr>)"
  have f1: "fair s s1" using fair_simple(7) by (auto simp: s1_def split: option.split)
  note c1 = fair_counted [OF f1 c]
  have f2: "fair s (selectDatabaseFrom x s1)" using f1 fair_simple(2) fair_trans by blast
  have r1: "fair_reply s (run_now e q ps x eff s1)" for eff using fair_reply_trans [OF f1 now [OF c1]] .
  have r2: "fair_reply s (run_now e q ps x eff (selectDatabaseFrom x s1))" for eff
    using fair_reply_trans [OF f2 now [OF fair_counted [OF f2 c]]] .
  have r3: "fair_reply s (failUnsupportedImpersonation s1)" using fair_reply_trans [OF f1 failures_fair(6) [OF c1]] .
  show ?thesis
    unfolding handleRun_def Let_def s1_def [symmetric] using failures_fair(1) [OF c] enterFailed_fair [OF c] r1 r2 r3 by simp
qed

lemma finish_stream_fair:
  assumes c: "counted s"
  shows "fair_reply s (finish_stream m b n k r out s)"
proof -
  obtain pk r' where p: "peek_more n k r = (pk, r')" by (cases "peek_more n k r")
  define s1 where "s1 = s\<lparr>s_result := Some r', s_peeked := (if pk \<noteq> None then pk else s_peeked s)\<rparr>"
  have f1: "fair s s1" "fair s (s1\<lparr>s_state := st\<rparr>)" "fair s ((drainResult s1)\<lparr>s_peeked := None, s_state := st\<rparr>)" for st
    unfolding s1_def by (rule fair_update [OF fair_refl]; simp)+
  have e: "fair s (snd (end_stream b r' t))" if "fair s t" for t
  proof -
    obtain bm t' where nb: "NextBookmark t = (bm, t')" by (cases "NextBookmark t")
    have "fair s t'" using that fair_server(3) [of t] nb fair_trans by fastforce
    then have "fair s (t'\<lparr>s_bookmark := bm\<rparr>)" by (rule fair_update) simp_all
    with that nb show ?thesis by (simp add: end_stream_def)
  qed
  have F: "fair_reply s (failTransition m s1)"
    using fair_reply_trans [OF f1(1) failures_fair(1) [OF fair_counted [OF f1(1) c]]] .
  show ?thesis
    unfolding finish_stream_def p prod.case Let_def s1_def [symmetric]
    using F f1(2) e [OF f1(3)] by (auto split: prod.split) (metis snd_conv)
qed

lemma stream_handlers_fair:
  assumes c: "counted s"
  shows "fair_reply s (handlePull e N Q s)" "fair_reply s (handleDiscard N Q s)"
proof -
  have pr: "fair_reply t (pull_rows e N Q n k out t)" if ct: "counted t" for t n k out
  proof (cases "s_result t")
    case None
    then show ?thesis using failures_fair(4) [OF ct] by (simp add: pull_rows_def split: option.split)
  next
    case (Some r)
    obtain stop k' r' out' where l: "pull_loop e t n k r out = (stop, k', r', out')" by (cases "pull_loop e t n k r out")
    have f: "fair t (t\<lparr>s_result := Some r'\<rparr>)" by (rule fair_simple)
    note c' = fair_counted [OF f ct]
    show ?thesis
      unfolding pull_rows_def Some option.case l prod.case Let_def
      using fair_reply_trans [OF f failures_fair(3) [OF c']] fair_reply_trans [OF f failures_fair(4) [OF c']]
        fair_reply_trans [OF f finish_stream_fair [OF c']]
      by (auto split: pull_stop.split option.split)
  qed
  have p: "fair s (s\<lparr>s_peeked := None\<rparr>)" by (rule fair_simple)
  note cp = fair_counted [OF p c]
  show "fair_reply s (handlePull e N Q s)"
    unfolding handlePull_def Let_def
    using failures_fair [OF c] pr [OF c] fair_reply_trans [OF p pr [OF cp]] fair_reply_trans [OF p failures_fair(3) [OF cp]]
    by (auto split: option.split)
  have d: "fair s (enterFailed (drainResult s))"
    using enterFailed_fair [OF fair_counted [OF drainResult_fair c]] drainResult_fair fair_trans by blast
  have s1: "fair s (s\<lparr>s_peeked := None, s_result := Some r'\<rparr>)" for r' by (rule fair_update [OF fair_refl]) simp_all
  have f: "fair s (enterFailed (s\<lparr>s_peeked := None, s_result := Some r'\<rparr>))" for r'
    using s1 enterFailed_fair [OF fair_counted [OF s1 c]] fair_trans by blast
  show "fair_reply s (handleDiscard N Q s)"
    unfolding handleDiscard_def Let_def
    using failures_fair [OF c] d f fair_reply_trans [OF s1 finish_stream_fair [OF fair_counted [OF s1 c]]]
    by (auto split: option.split prod.split)
qed

lemma handleBegin_fair:
  assumes c: "counted s" and inv: "session_inv s"
  shows "fair_reply s (handleBegin e x s)"
proof (cases "s_authenticated s \<and> s_state s = StateReady \<and> \<not> s_txActive s")
  case False
  then show ?thesis using failures_fair [OF c] by (auto simp: handleBegin_def)
next
  case True
  then have h: "holds_nothing s" using inv by (simp add: inv_idle)
  show ?thesis
  proof (cases "access_mode x")
    case None
    then show ?thesis using True by (simp add: handleBegin_def)
  next
    case (Some mode)
    let ?s1 = "tell (EvBegin mode) (selectDatabaseFrom x s)"
    have f1: "fair s ?s1" by (rule fair_update [OF fair_refl]) simp_all
    note c1 = fair_counted [OF f1 c]
    obtain ok s2 where a: "acquireTxQuota ?s1 = (ok, s2)" by (cases "acquireTxQuota ?s1")
    have f2: "fair s s2" using fair_trans [OF f1 acquireTxQuota_fair [OF _ a c1]] h by (simp add: holds_nothing_def)
    note c2 = fair_counted [OF f2 c]
    have acc: "\<not> s_txAccounted s2" using acquireTxQuota_same(9) [of ?s1] a h by (simp add: holds_nothing_def)
    have st: "s_state s2 = StateReady" using acquireTxQuota_same(2) [of ?s1] a True by simp
    have "fair s2 (Tx_Rollback tx s2)" for tx by (rule Tx_Rollback_fair)
    then have refused: "fair s (srv_upd (m_txQuotaRejected_update Suc) (Tx_Rollback tx s2))" for tx
      using f2 fair_server(4) fair_trans by blast
    have opened: "fair_reply s (open_tx e x mode tx s2)" for tx
    proof -
      let ?t = "touchTx (e_now e) (s2\<lparr>s_state := StateTxReady, s_txActive := True, s_tx := Some tx, s_txDeadline := dl\<rparr>)"
      have t: "fair s (touchTx (e_now e) (s2\<lparr>s_state := StateTxReady, s_txActive := True, s_tx := Some tx, s_txDeadline := dl\<rparr>))" for dl
        by (rule fair_update [OF f2]) simp_all
      have "fair s (txOpened (registerTx mode (touchTx (e_now e) (s2\<lparr>s_state := StateTxReady, s_txActive := True, s_tx := Some tx, s_txDeadline := dl\<rparr>))))" for dl
        using fair_trans [OF fair_trans [OF t fair_server(2)] txOpened_fair] acc by simp
      then show ?thesis using st by (simp add: open_tx_def Transition_def goto_def Let_def)
    qed
    have "fair s (enterFailed ?s1)" using fair_trans [OF f1 enterFailed_fair [OF c1]] .
    then show ?thesis using True Some a refused opened by (cases ok) (auto simp: handleBegin_def newTx_def split: option.split)
  qed
qed

lemma handleCommit_fair:
  assumes c: "counted s"
  shows "fair_reply s (handleCommit e s)"
proof -
  have nb: "fair s (snd (NextBookmark t))" "fair s ((snd (NextBookmark t))\<lparr>s_bookmark := b\<rparr>)" if "fair s t" for t b
    using fair_trans [OF that fair_server(3)] by (blast, rule fair_update) simp_all
  have fin: "fair_reply s (case Transition (s_state t) Commit True of (next, transErr) \<Rightarrow>
        if transErr then failTransition Commit t
        else case NextBookmark (t\<lparr>s_state := next, s_txActive := False\<rparr>) of
          (b, s2) \<Rightarrow> (answer [Success [(str ''bookmark'', PString b)]], s2\<lparr>s_bookmark := b\<rparr>))" if f: "fair s t" for t
  proof -
    have "fair s (t\<lparr>s_state := st, s_txActive := False\<rparr>)" for st by (rule fair_update [OF f]) simp_all
    with fair_reply_trans [OF f failures_fair(1) [OF fair_counted [OF f c]]] nb(2) show ?thesis
      by (auto split: prod.split) (metis snd_conv)
  qed
  show ?thesis
  proof (cases "s_tx s")
    case None
    then show ?thesis using failures_fair(1) [OF c] fin [OF fair_refl] by (auto simp: handleCommit_def)
  next
    case (Some tx)
    have f1: "fair s ((tell EvCommit (closeCursors tx s))\<lparr>s_tx := x\<rparr>)" for x
      by (rule fair_update [OF fair_refl]) (simp_all add: closeCursors_def)
    note c1 = fair_counted [OF f1 c]
    show ?thesis
      using Some failures_fair(1) [OF c] fin [OF fair_trans [OF f1 txClosed_fair [OF c1]]] fair_trans [OF f1 enterFailed_fair [OF c1]]
      by (auto simp: handleCommit_def Tx_Commit_def split: option.split)
  qed
qed

lemma handleRollback_fair:
  assumes c: "counted s"
  shows "fair_reply s (handleRollback s)"
proof -
  note rb = roll_back_open_fair [OF c]
  have "fair s ((roll_back_open s)\<lparr>s_state := st, s_txActive := False\<rparr>)" for st by (rule fair_update [OF rb]) simp_all
  then show ?thesis
    using failures_fair(1) [OF c] fair_reply_trans [OF rb failures_fair(1) [OF fair_counted [OF rb c]]]
    by (auto simp: handleRollback_def Let_def split: prod.split)
qed

lemma HandleMessage_fair:
  assumes c: "counted s" and inv: "session_inv s"
  shows "fair_reply s (HandleMessage e m s)"
proof -
  have "fair_reply s (handleRoute r b db s)" for r b db
    using failures_fair(1) [OF c] by (simp add: handleRoute_def Let_def)
  then have "fair_reply s (handle e m s)"
    using auth_handlers_fair [OF c] reset_fair [OF c] handleRun_fair [OF c] stream_handlers_fair [OF c]
      handleBegin_fair [OF c inv] handleCommit_fair [OF c] handleRollback_fair [OF c] by (cases m) simp_all
  then have "fair_reply s (dispatch e m s)" using fair_simple(8) by (auto simp: dispatch_def split: option.split)
  then show ?thesis using failures_fair(2) [OF c] by (auto simp: HandleMessage_def split: option.split)
qed

lemma serve_message_fair:
  assumes c: "counted s" and inv: "session_inv s"
  shows "fair_reply s (serve_message e m s)"
proof -
  have t: "fair s (touchTx (e_now e) s)" by (rule fair_simple)
  obtain w rp s1 where h: "HandleMessage e m (touchTx (e_now e) s) = ((w, rp), s1)" by (metis surj_pair)
  have "fair_reply (touchTx (e_now e) s) (HandleMessage e m (touchTx (e_now e) s))"
    using fair_counted [OF t c] inv by (intro HandleMessage_fair) simp_all
  then have f: "fair s s1" using fair_trans [OF t] h by simp
  then have "fair s (reportTx q s1)" for q using fair_trans fair_server(1) by blast
  with f h show ?thesis by (cases rp) (simp_all add: serve_message_def)
qed

lemma server_events_fair:
  assumes c: "counted s"
  shows "fair s (timer_fired s)" "fair s (terminate_signalled s)" "fair s (requestTerminate s)" "fair s (Close s)"
proof -
  have e: "fair s (endTxWithReason code msg t)" if "fair s t" for t code msg
    unfolding endTxWithReason_def
    by (rule fair_update [OF fair_trans [OF that enterFailed_fair [OF fair_counted [OF that c]]]]) simp_all
  have t: "fair s (s\<lparr>s_terminate := b\<rparr>)" for b by (rule fair_update [OF fair_refl]) simp_all
  show "fair s (timer_fired s)" using e [OF fair_refl] by (simp add: timer_fired_def reapTimedOutTx_def)
  show "fair s (terminate_signalled s)" using e [OF t] t by (simp add: terminate_signalled_def terminateTxByOperator_def Let_def)
  show "fair s (requestTerminate s)" using t by (simp add: requestTerminate_def)
  show "fair s (Close s)"
    using abortTx_fair [OF c] fair_trans [OF fair_server(5) abortTx_fair [OF fair_counted [OF fair_server(5) c]]]
    by (simp add: Close_def)
qed

end
