(* ===== verification/Bolt_Auth.thy ===== *)
theory Bolt_Auth
  imports Bolt_Session_Inv
begin

text \<open>
  A reference monitor over the engine calls in the trace of a session, and that every handler keeps it
  satisfied. A statement, a BEGIN or a COMMIT is made only for a client that is authenticated at that
  moment. A rollback and the close of a cursor, which the server also makes on its own (on RESET after
  LOGOFF, on a failure, at the end of the connection), only follow such calls.
\<close>

subsection \<open>The monitor\<close>

text \<open>Who is authenticated after a trace (newest event first).\<close>

fun auth_of :: "event list \<Rightarrow> bytes option" where
  "auth_of [] = None"
| "auth_of (EvAuth i # _) = Some i"
| "auth_of (EvDeauth # _) = None"
| "auth_of (_ # t) = auth_of t"

text \<open>Every event but the two of the authentication is a call into the engine; two kinds of call only
  give up what the session holds.\<close>

fun calls_engine :: "event \<Rightarrow> bool" where
  "calls_engine (EvAuth _) = False"
| "calls_engine EvDeauth = False"
| "calls_engine _ = True"

fun closing :: "event \<Rightarrow> bool" where
  "closing EvRollback = True"
| "closing EvCloseCursor = True"
| "closing _ = False"

text \<open>A BEGIN no rollback has followed, and a statement at some time.\<close>

fun begun :: "event list \<Rightarrow> bool" where
  "begun [] = False"
| "begun (EvBegin _ # _) = True"
| "begun (EvRollback # _) = False"
| "begun (_ # t) = begun t"

fun ran_stmt :: "event list \<Rightarrow> bool" where
  "ran_stmt [] = False"
| "ran_stmt (EvRunAny _ _ # _) = True"
| "ran_stmt (EvExec _ _ # _) = True"
| "ran_stmt (_ # t) = ran_stmt t"

text \<open>An identity some credentials were accepted for.\<close>

definition accepted :: "auth_handler \<Rightarrow> bytes \<Rightarrow> bool" where
  "accepted A i \<longleftrightarrow> (\<exists>scheme princ credentials. A scheme princ credentials = Inr i)"

fun permitted :: "event \<Rightarrow> event list \<Rightarrow> bool" where
  "permitted EvRollback t = begun t"
| "permitted EvCloseCursor t = ran_stmt t"
| "permitted ev t = (calls_engine ev \<longrightarrow> auth_of t \<noteq> None)"

fun guarded :: "(bytes \<Rightarrow> bool) \<Rightarrow> event list \<Rightarrow> bool" where
  "guarded V [] = True"
| "guarded V (ev # t) \<longleftrightarrow> guarded V t \<and> permitted ev t \<and> (case ev of EvAuth i \<Rightarrow> V i | _ \<Rightarrow> True)"

text \<open>The two halves of the monitor: the calls that need an authenticated client, and the ends.\<close>

fun opens_guarded :: "(bytes \<Rightarrow> bool) \<Rightarrow> event list \<Rightarrow> bool" where
  "opens_guarded V [] = True"
| "opens_guarded V (ev # t) \<longleftrightarrow> opens_guarded V t \<and> (calls_engine ev \<and> \<not> closing ev \<longrightarrow> auth_of t \<noteq> None) \<and>
     (case ev of EvAuth i \<Rightarrow> V i | _ \<Rightarrow> True)"

fun ends_guarded :: "event list \<Rightarrow> bool" where
  "ends_guarded [] = True"
| "ends_guarded (ev # t) \<longleftrightarrow> ends_guarded t \<and> (closing ev \<longrightarrow> permitted ev t)"

lemma guarded_halves: "guarded V t \<longleftrightarrow> opens_guarded V t \<and> ends_guarded t"
proof (induction t)
  case (Cons ev t)
  then show ?case by (cases ev) auto
qed simp

definition auth_ok :: "auth_handler \<Rightarrow> Session \<Rightarrow> bool" where
  "auth_ok A s \<longleftrightarrow> opens_guarded (accepted A) (s_trace s) \<and>
     auth_of (s_trace s) = (if s_authenticated s then Some (s_identity s) else None)"

subsection \<open>What does not concern it\<close>

lemma auth_irrelevant [simp]:
  "auth_ok A (s\<lparr>s_srv := srv\<rparr>) = auth_ok A s" "auth_ok A (s\<lparr>s_txDeadline := d\<rparr>) = auth_ok A s"
  "auth_ok A (s\<lparr>s_result := r\<rparr>) = auth_ok A s" "auth_ok A (s\<lparr>s_resultCancel := b\<rparr>) = auth_ok A s"
  "auth_ok A (s\<lparr>s_peeked := pk\<rparr>) = auth_ok A s" "auth_ok A (s\<lparr>s_pendingTermErr := f\<rparr>) = auth_ok A s"
  "auth_ok A (s\<lparr>s_tx := x\<rparr>) = auth_ok A s" "auth_ok A (s\<lparr>s_bookmark := bm\<rparr>) = auth_ok A s"
  "auth_ok A (s\<lparr>s_autocommitStmt := b\<rparr>) = auth_ok A s" "auth_ok A (s\<lparr>s_columns := cs\<rparr>) = auth_ok A s"
  "auth_ok A (s\<lparr>s_stmtTimeout := i\<rparr>) = auth_ok A s" "auth_ok A (s\<lparr>s_state := st\<rparr>) = auth_ok A s"
  "auth_ok A (s\<lparr>s_txActive := b\<rparr>) = auth_ok A s" "auth_ok A (s\<lparr>s_txAccounted := b\<rparr>) = auth_ok A s"
  "auth_ok A (s\<lparr>s_txIdleDeadline := d\<rparr>) = auth_ok A s" "auth_ok A (s\<lparr>s_txID := k\<rparr>) = auth_ok A s"
  "auth_ok A (s\<lparr>s_terminate := b\<rparr>) = auth_ok A s" "auth_ok A (s\<lparr>s_txQuotaHeld := b\<rparr>) = auth_ok A s"
  "auth_ok A (s\<lparr>s_txQuotaPrincipal := q\<rparr>) = auth_ok A s" "auth_ok A (s\<lparr>s_clientDatabase := q\<rparr>) = auth_ok A s"
  by (simp_all add: auth_ok_def)

lemma auth_tell [simp]:
  "auth_ok A (tell EvCloseCursor s) = auth_ok A s" "auth_ok A (tell EvRollback s) = auth_ok A s"
  by (simp_all add: auth_ok_def tell_def)

lemma auth_call:
  "auth_ok A s \<Longrightarrow> s_authenticated s \<Longrightarrow> calls_engine ev \<Longrightarrow> auth_ok A (tell ev s)"
  by (cases ev) (simp_all add: auth_ok_def tell_def)

lemma auth_closeCursors [simp]: "auth_ok A (closeCursors tx s) = auth_ok A s"
proof -
  have "opens_guarded V (replicate n EvCloseCursor @ t) = opens_guarded V t" "auth_of (replicate n EvCloseCursor @ t) = auth_of t" for V n t
    by (induction n) simp_all
  then show ?thesis by (simp add: auth_ok_def closeCursors_def)
qed

lemma auth_helpers [simp]:
  "auth_ok A (srv_upd f s) = auth_ok A s" "auth_ok A (drainResult s) = auth_ok A s"
  "auth_ok A (releaseTxQuota s) = auth_ok A s" "auth_ok A (unregisterTx s) = auth_ok A s"
  "auth_ok A (touchTx now s) = auth_ok A s" "auth_ok A (registerTx mode s) = auth_ok A s"
  "auth_ok A (txOpened s) = auth_ok A s" "auth_ok A (reportTx q s) = auth_ok A s"
  "auth_ok A (selectDatabaseFrom x s) = auth_ok A s" "auth_ok A (snd (NextBookmark s)) = auth_ok A s"
  "auth_ok A (snd (acquireTxQuota s)) = auth_ok A s" "auth_ok A (Tx_Rollback tx s) = auth_ok A s"
  by (simp_all add: srv_upd_def drainResult_def releaseTxQuota_def unregisterTx_def touchTx_def registerTx_def txOpened_def
      reportTx_def selectDatabaseFrom_def NextBookmark_def acquireTxQuota_def Tx_Rollback_def Let_def split: option.split)

lemma auth_txClosed [simp]: "auth_ok A (txClosed s) = auth_ok A s"
  by (simp add: txClosed_def Let_def)

lemma auth_ends [simp]:
  "auth_ok A (abortTx s) = auth_ok A s" "auth_ok A (roll_back_open s) = auth_ok A s"
  by (simp_all add: abortTx_def roll_back_open_def Let_def split: option.split)

lemma auth_enterFailed [simp]: "auth_ok A (enterFailed s) = auth_ok A s"
  by (simp add: enterFailed_def Let_def)

lemma auth_transitionTo [simp]: "auth_ok A (transitionTo st s) = auth_ok A s"
  by (simp add: transitionTo_def)

lemma auth_failures [simp]:
  "auth_ok A (snd (failTransition m s)) = auth_ok A s" "auth_ok A (snd (failWith c t s)) = auth_ok A s"
  "auth_ok A (snd (abortStream w s)) = auth_ok A s" "auth_ok A (snd (stream_failed w c t s)) = auth_ok A s"
  "auth_ok A (snd (no_such_query q s)) = auth_ok A s" "auth_ok A (snd (failUnsupportedImpersonation s)) = auth_ok A s"
  by (simp_all add: failTransition_def failWith_def abortStream_def stream_failed_def no_such_query_def
      failUnsupportedImpersonation_def Let_def)

subsection \<open>The handlers\<close>

lemma auth_messages:
  assumes ok: "auth_ok A s" and e: "e_auth e = A"
  shows "auth_ok A (snd (handleHello e x s))" "auth_ok A (snd (handleLogon e x s))" "auth_ok A (snd (handleLogoff s))"
proof -
  have i: "auth_ok A ((tell (EvAuth i) s)\<lparr>s_identity := i, s_authenticated := True\<rparr>)" if "A sch pr cr = Inr i" for i sch pr cr
    using ok that by (auto simp: auth_ok_def tell_def accepted_def)
  have d: "auth_ok A ((tell EvDeauth t)\<lparr>s_identity := [], s_authenticated := False\<rparr>)" if "auth_ok A t" for t
    using that by (simp add: auth_ok_def tell_def)
  have d': "auth_ok A ((tell EvDeauth s)\<lparr>s_state := st, s_identity := [], s_authenticated := False\<rparr>)" for st
    using ok by (simp add: auth_ok_def tell_def)
  show "auth_ok A (snd (handleHello e x s))"
    using ok i e by (auto simp: handleHello_def Let_def split: sum.split prod.split)
  show "auth_ok A (snd (handleLogon e x s))"
    using ok i d e by (auto simp: handleLogon_def Let_def split: sum.split prod.split)
  show "auth_ok A (snd (handleLogoff s))"
    using ok d' by (auto simp: handleLogoff_def split: prod.split)
qed

lemma auth_resets:
  "auth_ok A s \<Longrightarrow> auth_ok A (snd (handleReset s))" "auth_ok A s \<Longrightarrow> auth_ok A (snd (handleGoodbye s))"
  by (auto simp: handleReset_def handleGoodbye_def Let_def split: prod.split)

lemma auth_run:
  assumes ok: "auth_ok A s"
  shows "auth_ok A (snd (handleRun e q ps x s))"
proof -
  have st: "auth_ok A (snd (run_statement e q ps t))" if t: "auth_ok A t" "s_authenticated t" for t
  proof -
    have "auth_ok A (tell (EvExec q ps) (t\<lparr>s_autocommitStmt := b\<rparr>))" "auth_ok A (tell (EvRunAny q ps) (t\<lparr>s_autocommitStmt := b\<rparr>))" for b
      using t by (auto intro!: auth_call)
    then show ?thesis by (simp add: run_statement_def Tx_Run_def Let_def split: option.split exec_outcome.split)
  qed
  have now: "auth_ok A (snd (run_now e q ps x eff t))" if "auth_ok A t" "s_authenticated t" for t eff
    using st [OF that] by (auto simp: run_now_def Let_def split: prod.split sum.split)
  let ?s1 = "case client_timeout ''timeout'' x of None \<Rightarrow> s | Some d \<Rightarrow> s\<lparr>s_stmtTimeout := d\<rparr>"
  have s1: "auth_ok A ?s1" "s_authenticated ?s1 = s_authenticated s" using ok by (simp_all split: option.split)
  show ?thesis
    unfolding handleRun_def Let_def using ok s1 now [of ?s1] now [of "selectDatabaseFrom x ?s1"] by simp
qed

lemma auth_stream:
  assumes ok: "auth_ok A s"
  shows "auth_ok A (snd (handlePull e N Q s))" "auth_ok A (snd (handleDiscard N Q s))"
proof -
  have en: "auth_ok A (snd (end_stream b r t)) = auth_ok A t" for b r t
    using auth_helpers(10) [of A t] by (cases "NextBookmark t") (simp add: end_stream_def)
  have fi: "auth_ok A (snd (finish_stream m b n k r out t)) = auth_ok A t" for m b n k r out t
    by (auto simp: finish_stream_def Let_def split: prod.split) (metis en auth_irrelevant auth_helpers(2) snd_conv)+
  have pr: "auth_ok A (snd (pull_rows e N Q n k out t)) = auth_ok A t" for n k out t
    by (auto simp: pull_rows_def fi Let_def split: option.split prod.split pull_stop.split)
  show "auth_ok A (snd (handlePull e N Q s))" using ok by (auto simp: handlePull_def pr Let_def split: option.split)
  show "auth_ok A (snd (handleDiscard N Q s))"
    using ok by (auto simp: handleDiscard_def fi Let_def split: option.split prod.split)
qed

lemma auth_transactions:
  assumes ok: "auth_ok A s"
  shows "auth_ok A (snd (handleBegin e x s))" "auth_ok A (snd (handleCommit e s))" "auth_ok A (snd (handleRollback s))"
    "auth_ok A (snd (handleRoute r b db s))"
proof -
  have acq: "auth_ok A t'" if "acquireTxQuota t = (bk, t')" "auth_ok A t" for t t' bk
    using auth_helpers(11) [of A t] that by simp
  have op: "auth_ok A (snd (open_tx e x mode tx t)) = auth_ok A t" for mode tx t
    by (auto simp: open_tx_def Let_def split: prod.split)
  have be: "auth_ok A (tell (EvBegin mode) (selectDatabaseFrom x s))" if "s_authenticated s" for mode
    using ok that by (intro auth_call) simp_all
  show "auth_ok A (snd (handleBegin e x s))"
    using ok be op acq by (auto simp: handleBegin_def newTx_def split: option.split prod.split bool.split)
  have co: "auth_ok A (tell EvCommit (closeCursors tx s))" if "s_authenticated s" for tx
    using ok that by (intro auth_call auth_closeCursors [THEN iffD2]) (simp_all add: closeCursors_def)
  have nb: "auth_ok A t'" if "NextBookmark t = (bm, t')" "auth_ok A t" for t t' bm using auth_helpers(10) [of A t] that by simp
  show "auth_ok A (snd (handleCommit e s))"
    using ok co by (auto simp: handleCommit_def Tx_Commit_def split: option.splits prod.splits elim!: nb)
  show "auth_ok A (snd (handleRollback s))" using ok by (auto simp: handleRollback_def Let_def split: prod.split)
  show "auth_ok A (snd (handleRoute r b db s))" using ok by (simp add: handleRoute_def Let_def)
qed

lemma HandleMessage_auth:
  assumes ok: "auth_ok A s" and e: "e_auth e = A"
  shows "auth_ok A (snd (HandleMessage e m s))"
proof -
  have "auth_ok A (snd (handle e m s))"
    using auth_messages [OF assms] auth_resets [OF ok] auth_run [OF ok] auth_stream [OF ok] auth_transactions [OF ok]
    by (cases m) simp_all
  with ok show ?thesis by (auto simp: HandleMessage_def dispatch_def split: option.split)
qed

lemma server_events_auth:
  assumes ok: "auth_ok A s"
  shows "e_auth e = A \<Longrightarrow> auth_ok A (snd (serve_message e m s))" "auth_ok A (timer_fired s)" "auth_ok A (terminate_signalled s)"
    "auth_ok A (requestTerminate s)"
proof -
  assume "e_auth e = A"
  then have "auth_ok A (snd (HandleMessage e m (touchTx (e_now e) s)))" using ok by (intro HandleMessage_auth) simp_all
  then show "auth_ok A (snd (serve_message e m s))"
    by (auto simp: serve_message_def split: prod.split outcome.split)
qed (simp_all add: ok timer_fired_def terminate_signalled_def reapTimedOutTx_def terminateTxByOperator_def endTxWithReason_def
    requestTerminate_def Let_def)

lemma newSession_auth: "auth_ok A (newSession cfg srv)"
  by (simp add: auth_ok_def newSession_def)

subsection \<open>Rollbacks and closed cursors\<close>

text \<open>A session that holds a transaction has begun one, and one that holds a cursor has run a
  statement; its ends are those of what it held.\<close>

definition close_ok :: "Session \<Rightarrow> bool" where
  "close_ok s \<longleftrightarrow> ends_guarded (s_trace s) \<and> (s_tx s \<noteq> None \<longrightarrow> begun (s_trace s)) \<and>
     (s_result s \<noteq> None \<or> (\<exists>tx. s_tx s = Some tx \<and> 0 < tx_results tx) \<longrightarrow> ran_stmt (s_trace s))"

lemma close_cong:
  "s_trace s = s_trace t \<Longrightarrow> s_tx s = s_tx t \<Longrightarrow> s_result s = s_result t \<Longrightarrow> close_ok s = close_ok t"
  by (simp add: close_ok_def)

lemma close_irrelevant [simp]:
  "close_ok (s\<lparr>s_srv := srv\<rparr>) = close_ok s" "close_ok (s\<lparr>s_txDeadline := d\<rparr>) = close_ok s"
  "close_ok (s\<lparr>s_resultCancel := b\<rparr>) = close_ok s" "close_ok (s\<lparr>s_peeked := pk\<rparr>) = close_ok s"
  "close_ok (s\<lparr>s_pendingTermErr := f\<rparr>) = close_ok s" "close_ok (s\<lparr>s_bookmark := bm\<rparr>) = close_ok s"
  "close_ok (s\<lparr>s_autocommitStmt := b\<rparr>) = close_ok s" "close_ok (s\<lparr>s_columns := cs\<rparr>) = close_ok s"
  "close_ok (s\<lparr>s_stmtTimeout := i\<rparr>) = close_ok s" "close_ok (s\<lparr>s_state := st\<rparr>) = close_ok s"
  "close_ok (s\<lparr>s_txActive := b\<rparr>) = close_ok s" "close_ok (s\<lparr>s_txAccounted := b\<rparr>) = close_ok s"
  "close_ok (s\<lparr>s_txIdleDeadline := d\<rparr>) = close_ok s" "close_ok (s\<lparr>s_txID := k\<rparr>) = close_ok s"
  "close_ok (s\<lparr>s_terminate := b\<rparr>) = close_ok s" "close_ok (s\<lparr>s_txQuotaHeld := b\<rparr>) = close_ok s"
  "close_ok (s\<lparr>s_txQuotaPrincipal := q\<rparr>) = close_ok s" "close_ok (s\<lparr>s_clientDatabase := q\<rparr>) = close_ok s"
  "close_ok (s\<lparr>s_identity := q\<rparr>) = close_ok s" "close_ok (s\<lparr>s_authenticated := b\<rparr>) = close_ok s"
  by (rule close_cong; simp)+

lemma close_helpers [simp]:
  "close_ok (srv_upd f s) = close_ok s" "close_ok (releaseTxQuota s) = close_ok s" "close_ok (unregisterTx s) = close_ok s"
  "close_ok (touchTx now s) = close_ok s" "close_ok (registerTx mode s) = close_ok s" "close_ok (txOpened s) = close_ok s"
  "close_ok (reportTx q s) = close_ok s" "close_ok (selectDatabaseFrom x s) = close_ok s" "close_ok (txClosed s) = close_ok s"
  by (rule close_cong; simp)+

lemma close_NextBookmark: "NextBookmark s = (b, s') \<Longrightarrow> close_ok s' = close_ok s"
  by (rule close_cong) (auto simp: NextBookmark_def Let_def)

lemma close_acquire: "acquireTxQuota s = (b, s') \<Longrightarrow> s_trace s' = s_trace s \<and> s_tx s' = s_tx s \<and> s_result s' = s_result s"
  by (auto simp: acquireTxQuota_def Let_def split: if_splits option.splits)

lemma close_tell:
  "close_ok s \<Longrightarrow> \<not> closing ev \<Longrightarrow> close_ok (tell ev s)"
  "close_ok s \<Longrightarrow> ran_stmt (s_trace s) \<Longrightarrow> close_ok (tell EvCloseCursor s)"
  by (cases ev) (auto simp: close_ok_def tell_def)

lemma close_replicate [simp]:
  "ends_guarded (replicate n EvCloseCursor @ t) \<longleftrightarrow> ends_guarded t \<and> (0 < n \<longrightarrow> ran_stmt t)"
  "begun (replicate n EvCloseCursor @ t) = begun t" "ran_stmt (replicate n EvCloseCursor @ t) = ran_stmt t"
  by (induction n) auto

lemma close_drain: "close_ok s \<Longrightarrow> close_ok (drainResult s)"
  by (auto simp: close_ok_def drainResult_def tell_def Let_def split: option.splits)

text \<open>A transaction ended by a rollback, whether the session already holds it or not.\<close>

lemma close_rollback:
  assumes "ends_guarded (s_trace s)" "begun (s_trace s)" "0 < tx_results tx \<or> s_result s \<noteq> None \<longrightarrow> ran_stmt (s_trace s)"
  shows "close_ok ((Tx_Rollback tx s)\<lparr>s_tx := None\<rparr>)"
  using assms by (auto simp: close_ok_def Tx_Rollback_def closeCursors_def tell_def)

lemma close_rollback_held: "close_ok s \<Longrightarrow> s_tx s = Some tx \<Longrightarrow> close_ok ((Tx_Rollback tx s)\<lparr>s_tx := None\<rparr>)"
  by (rule close_rollback) (auto simp: close_ok_def)

lemma close_ends:
  assumes "close_ok s"
  shows "close_ok (abortTx s)" "close_ok (roll_back_open s)" "close_ok (enterFailed s)" "close_ok (Close s)"
proof -
  have ab: "close_ok (abortTx t)" if "close_ok t" for t
    using close_drain [OF that] by (auto simp: abortTx_def Let_def close_rollback_held split: option.split)
  show "close_ok (abortTx s)" using assms by (rule ab)
  show "close_ok (roll_back_open s)" using assms by (auto simp: roll_back_open_def close_rollback_held split: option.split)
  show "close_ok (enterFailed s)" using assms ab close_drain [of "s\<lparr>s_state := StateFailed\<rparr>"] by (auto simp: enterFailed_def Let_def)
  show "close_ok (Close s)" using assms ab by (simp add: Close_def)
qed

text \<open>A failure only gives up what the session holds.\<close>

definition only_closes :: "Session \<Rightarrow> Session \<Rightarrow> bool" where
  "only_closes s s' \<longleftrightarrow> (\<exists>new. s_trace s' = new @ s_trace s \<and> list_all closing new)"

lemma drain_only_closes: "only_closes s (drainResult s)"
  by (auto simp: only_closes_def drainResult_def tell_def Let_def split: option.split intro: exI [of _ "[]"] exI [of _ "[EvCloseCursor]"])

lemma only_closes_trans: "only_closes s t \<Longrightarrow> only_closes t u \<Longrightarrow> only_closes s u"
  by (fastforce simp: only_closes_def)

lemma abortTx_only_closes: "only_closes s (abortTx s)"
proof -
  have "only_closes (drainResult s) (abortTx s)"
  proof (cases "s_tx s")
    case (Some tx)
    then show ?thesis
      unfolding only_closes_def abortTx_def Let_def
      by (intro exI [of _ "EvRollback # replicate (tx_results tx) EvCloseCursor"])
        (simp add: Tx_Rollback_def closeCursors_def tell_def list_all_iff)
  qed (simp add: only_closes_def abortTx_def Let_def)
  with drain_only_closes show ?thesis by (rule only_closes_trans)
qed

lemma enterFailed_only_closes: "only_closes s (enterFailed s)"
proof -
  let ?t = "drainResult (s\<lparr>s_state := StateFailed\<rparr>)"
  have "only_closes s ?t" using drain_only_closes [of "s\<lparr>s_state := StateFailed\<rparr>"] by (simp add: only_closes_def)
  moreover have "only_closes ?t (abortTx ?t)" by (rule abortTx_only_closes)
  ultimately show ?thesis unfolding enterFailed_def Let_def using only_closes_trans by auto
qed

lemma only_closes_ran: "only_closes s s' \<Longrightarrow> ran_stmt (s_trace s) \<Longrightarrow> ran_stmt (s_trace s')"
proof -
  have "ran_stmt (new @ t)" if "list_all closing new" "ran_stmt t" for new t
    using that
  proof (induction new)
    case (Cons ev new)
    then show ?case by (cases ev) simp_all
  qed simp
  then show "only_closes s s' \<Longrightarrow> ran_stmt (s_trace s) \<Longrightarrow> ran_stmt (s_trace s')" by (auto simp: only_closes_def)
qed

lemma close_failures:
  assumes "close_ok s"
  shows "close_ok (snd (failTransition m s))" "close_ok (snd (failWith c t s))" "close_ok (snd (abortStream out s))"
    "close_ok (snd (stream_failed out c t s))" "close_ok (snd (no_such_query q s))" "close_ok (snd (failUnsupportedImpersonation s))"
    "close_ok (transitionTo st s)"
  using close_ends(3) [OF assms] assms
  by (simp_all add: failTransition_def failWith_def abortStream_def stream_failed_def no_such_query_def
      failUnsupportedImpersonation_def transitionTo_def Let_def)

lemmas close_rules = close_failures close_ends close_drain close_tell

lemma close_messages:
  assumes "close_ok s"
  shows "close_ok (snd (handleHello e x s))" "close_ok (snd (handleLogon e x s))" "close_ok (snd (handleLogoff s))"
    "close_ok (snd (handleReset s))" "close_ok (snd (handleGoodbye s))" "close_ok (snd (handleRoute r b db s))"
    "close_ok (snd (handleRollback s))"
  using assms
  by (auto simp: handleHello_def handleLogon_def handleLogoff_def handleReset_def handleGoodbye_def handleRoute_def
      handleRollback_def Let_def intro!: close_rules split: sum.split prod.split)

lemma close_run_statement:
  assumes "close_ok s" "run_statement e q ps s = (r, s')"
  shows "close_ok s' \<and> ran_stmt (s_trace s')"
  using assms
  by (auto simp: run_statement_def Tx_Run_def Let_def tell_def close_ok_def split: option.splits exec_outcome.splits if_splits)

lemma close_run:
  assumes ok: "close_ok s"
  shows "close_ok (snd (handleRun e q ps x s))"
proof -
  have res: "close_ok ((transitionTo st t)\<lparr>s_result := Some r\<rparr>)"
    if "close_ok t" "ran_stmt (s_trace t)" for t st r
  proof -
    have "ran_stmt (s_trace (transitionTo st t))"
      using that(2) only_closes_ran [OF enterFailed_only_closes [of t]] by (simp add: transitionTo_def)
    then show ?thesis using close_failures(7) [OF that(1), of st] by (simp add: close_ok_def)
  qed
  have now: "close_ok (snd (run_now e q ps x eff t))" if "close_ok t" for t eff
    using close_run_statement [OF that, of e q ps]
    by (auto simp: run_now_def Let_def res intro!: close_rules split: prod.split sum.split)
  let ?s1 = "case client_timeout ''timeout'' x of None \<Rightarrow> s | Some d \<Rightarrow> s\<lparr>s_stmtTimeout := d\<rparr>"
  have s1: "close_ok ?s1" using ok by (simp split: option.split)
  show ?thesis
    unfolding handleRun_def Let_def using ok s1 now [of ?s1] now [of "selectDatabaseFrom x ?s1"] by (auto intro!: close_rules)
qed

lemma close_cursor: "close_ok s \<Longrightarrow> s_result s = Some r \<Longrightarrow> close_ok (s\<lparr>s_result := Some r'\<rparr>)"
  by (simp add: close_ok_def)

lemma close_stream:
  assumes ok: "close_ok s"
  shows "close_ok (snd (handlePull e N Q s))" "close_ok (snd (handleDiscard N Q s))"
proof -
  have en: "close_ok (snd (end_stream b r t)) = close_ok t" for b r t
    by (auto simp: end_stream_def close_NextBookmark split: prod.split)
  have en': "close_ok t'" if "end_stream b r t = (meta, t')" "close_ok t" for b r t t' meta
    using en [of b r t] that by simp
  have fi: "close_ok (snd (finish_stream m b n k r out t))" if "close_ok t" "s_result t \<noteq> None" for m b n k r out t
  proof -
    have "close_ok (t\<lparr>s_result := Some r', s_peeked := pk\<rparr>)" for r' pk using that close_cursor by auto
    then show ?thesis
      by (auto simp: finish_stream_def Let_def intro!: close_rules elim!: en' split: prod.split)
  qed
  have pr: "close_ok (snd (pull_rows e N Q n k out t))" if "close_ok t" for n k out t
    using that fi close_cursor [OF that]
    by (auto simp: pull_rows_def Let_def intro!: close_rules split: option.split prod.split pull_stop.split)
  show "close_ok (snd (handlePull e N Q s))"
    using ok pr by (auto simp: handlePull_def Let_def intro!: close_rules split: option.split)
  have "close_ok (s\<lparr>s_peeked := None, s_result := Some r'\<rparr>)" if "s_result s = Some r" for r r'
    using close_cursor [of "s\<lparr>s_peeked := None\<rparr>"] ok that by simp
  then show "close_ok (snd (handleDiscard N Q s))"
    using ok fi by (auto simp: handleDiscard_def Let_def intro!: close_rules split: option.split prod.split)
qed

lemma close_transactions:
  assumes ok: "close_ok s" and inv: "session_inv s"
  shows "close_ok (snd (handleBegin e x s))" "close_ok (snd (handleCommit e s))"
proof -
  have rb: "close_ok (Tx_Rollback tx t)" if "close_ok t" "begun (s_trace t)" "s_tx t = None" "tx_results tx = 0" for tx t
  proof -
    have "close_ok ((Tx_Rollback tx t)\<lparr>s_tx := None\<rparr>)" using that by (intro close_rollback) (auto simp: close_ok_def)
    moreover have "(Tx_Rollback tx t)\<lparr>s_tx := None\<rparr> = Tx_Rollback tx t" using that(3) by (simp add: Tx_Rollback_def tell_def closeCursors_def)
    ultimately show ?thesis by simp
  qed
  have op: "close_ok (snd (open_tx e x mode tx t))" if "close_ok t" "begun (s_trace t)" "s_tx t = None" "tx_results tx = 0" for mode tx t
  proof -
    have "close_ok (t\<lparr>s_tx := Some tx\<rparr>)" using that by (simp add: close_ok_def)
    then have "close_ok (t\<lparr>s_state := st, s_txActive := b, s_tx := Some tx, s_txDeadline := d\<rparr>)" for st b d
      by (simp add: close_ok_def)
    then show ?thesis using rb [OF that] by (auto simp: open_tx_def Let_def intro!: close_rules split: prod.split)
  qed
  have be: "close_ok t \<and> begun (s_trace t) \<and> s_tx t = None"
    if "s_state s = StateReady" "acquireTxQuota (tell (EvBegin mode) (selectDatabaseFrom x s)) = (b, t)" for mode t b
  proof -
    have "s_tx s = None" using inv that(1) by (auto simp: session_inv_def)
    then have "close_ok (tell (EvBegin mode) (selectDatabaseFrom x s))" using ok by (intro close_tell) simp_all
    then show ?thesis using close_acquire [OF that(2)] \<open>s_tx s = None\<close> by (simp add: close_ok_def tell_def)
  qed
  show "close_ok (snd (handleBegin e x s))"
    using ok be op rb by (fastforce simp: handleBegin_def newTx_def intro!: close_rules split: option.split prod.split bool.split)
  have co: "close_ok ((tell EvCommit (closeCursors tx s))\<lparr>s_tx := y\<rparr>)"
    if "s_tx s = Some tx" "y = None \<or> y = Some (tx\<lparr>tx_results := 0\<rparr>)" for tx y
    using ok that by (auto simp: close_ok_def closeCursors_def tell_def)
  show "close_ok (snd (handleCommit e s))"
    using ok co
    by (auto simp: handleCommit_def Tx_Commit_def close_NextBookmark intro!: close_rules split: option.splits prod.splits)
qed

lemma server_events_close:
  assumes ok: "close_ok s" and inv: "session_inv s"
  shows "close_ok (snd (serve_message e m s))" "close_ok (timer_fired s)" "close_ok (terminate_signalled s)"
    "close_ok (requestTerminate s)"
proof -
  let ?s = "touchTx (e_now e) s"
  have t: "close_ok ?s" "session_inv ?s" using assms by simp_all
  have "close_ok (snd (handle e m ?s))"
    using close_messages [OF t(1)] close_run [OF t(1)] close_stream [OF t(1)] close_transactions [OF t]
    by (cases m) simp_all
  then have "close_ok (snd (HandleMessage e m ?s))"
    using t(1) by (auto simp: HandleMessage_def dispatch_def intro!: close_rules split: option.split)
  then show "close_ok (snd (serve_message e m s))" by (auto simp: serve_message_def split: prod.split outcome.split)
qed (use ok in \<open>auto simp: timer_fired_def terminate_signalled_def reapTimedOutTx_def terminateTxByOperator_def endTxWithReason_def
    requestTerminate_def Let_def intro!: close_rules\<close>)

lemma newSession_close: "close_ok (newSession cfg srv)"
  by (simp add: close_ok_def newSession_def)

subsection \<open>Requests without authentication\<close>

lemma unauthenticated_refused:
  assumes inv: "session_inv s" and a: "\<not> s_authenticated s" and m: "request_phase m"
  shows "\<exists>c t s'. serve_message e m s = (answer [Failure c t], s') \<and> s_state s' = StateFailed \<and> only_closes s s'"
proof -
  let ?s = "touchTx (e_now e) s"
  have "s_result s \<noteq> None \<longleftrightarrow> s_state s = StateStreaming \<or> s_state s = StateTxStreaming" "s_result s \<noteq> None \<longrightarrow> s_authenticated s"
    using inv unfolding session_inv_def by blast+
  then have st: "s_state s \<noteq> StateStreaming" "s_state s \<noteq> StateTxStreaming" using a by blast+
  have "handle e m ?s = failTransition m ?s"
    using m a st by (cases m) (simp_all add: handleRun_def handlePull_def handleDiscard_def handleBegin_def
        handleCommit_def handleRollback_def handleRoute_def Let_def)
  then have "HandleMessage e m ?s = failTransition m ?s \<or> (\<exists>c t. HandleMessage e m ?s = failWith c t ?s)"
    using a by (auto simp: HandleMessage_def dispatch_def split: option.split)
  then obtain c t where "HandleMessage e m ?s = (answer [Failure c t], enterFailed ?s)"
    by (auto simp: failTransition_def failWith_def Let_def)
  moreover have "only_closes s (enterFailed ?s)" using enterFailed_only_closes [of ?s] by (simp add: only_closes_def)
  ultimately show ?thesis by (simp add: serve_message_def answer_def only_closes_def)
qed

end
