(* ===== verification/Bolt_Protocol.thy ===== *)
theory Bolt_Protocol
  imports Bolt_Session_Inv
begin

text \<open>
  The protocol a client sees: which answer a message may get in which state, and the state it leads
  to. A session refines it: its handlers answer and move as the protocol says.
\<close>

subsection \<open>The protocol\<close>

text \<open>What the last response says; whether rows remain when it is a SUCCESS.\<close>

datatype verdict = VSuccess bool | VFailure | VIgnored | VNothing | VBroken | VPanic

definition has_more :: "pmap \<Rightarrow> bool" where
  "has_more meta \<longleftrightarrow> map_of meta (str ''has_more'') = Some (PBool True)"

fun verdict_of :: "outcome \<Rightarrow> verdict" where
  "verdict_of (Respond rs) = (if rs = [] then VNothing else
     case last rs of Success meta \<Rightarrow> VSuccess (has_more meta) | Failure _ _ \<Rightarrow> VFailure | Ignored \<Rightarrow> VIgnored | Record _ \<Rightarrow> VBroken)"
| "verdict_of RecordWriteFailed = VBroken"
| "verdict_of NilPanic = VPanic"

text \<open>
  A state of the protocol: the state of the connection, whether the client is authenticated, and
  whether a FAILURE for a transaction the server has ended is still to be told.
\<close>

record peer =
  p_state :: State
  p_auth :: bool
  p_pending :: bool

inductive protocol :: "Version \<Rightarrow> peer \<Rightarrow> request \<Rightarrow> verdict \<Rightarrow> peer \<Rightarrow> bool" for v :: Version where
  hello: "p_state p = StateNegotiation \<Longrightarrow> \<not> authDeferredToLogon v \<Longrightarrow>
     protocol v p (Hello x) (VSuccess False) (p\<lparr>p_state := StateReady, p_auth := True\<rparr>)"
| hello_deferred: "p_state p = StateNegotiation \<Longrightarrow> authDeferredToLogon v \<Longrightarrow>
     protocol v p (Hello x) (VSuccess False) (p\<lparr>p_state := StateAuthentication\<rparr>)"
| hello_refused: "p_state p = StateNegotiation \<Longrightarrow> \<not> authDeferredToLogon v \<Longrightarrow>
     protocol v p (Hello x) VFailure (p\<lparr>p_state := StateDefunct\<rparr>)"
| logon: "p_state p \<in> {StateAuthentication, StateReady, StateTxReady} \<Longrightarrow>
     protocol v p (Logon x) (VSuccess False)
       (p\<lparr>p_state := (if p_state p = StateAuthentication then StateReady else p_state p), p_auth := True\<rparr>)"
| logon_refused: "p_state p \<in> {StateAuthentication, StateReady, StateTxReady} \<Longrightarrow>
     protocol v p (Logon x) VFailure
       (p\<lparr>p_state := StateDefunct, p_auth := (if p_state p = StateAuthentication then p_auth p else False)\<rparr>)"
| logoff: "p_state p \<in> {StateAuthentication, StateReady, StateTxReady} \<Longrightarrow>
     protocol v p Logoff (VSuccess False) (p\<lparr>p_auth := False\<rparr>)"
| run: "p_state p = StateReady \<Longrightarrow> p_auth p \<Longrightarrow> protocol v p (Run q ps x) (VSuccess False) (p\<lparr>p_state := StateStreaming\<rparr>)"
| run_tx: "p_state p = StateTxReady \<Longrightarrow> p_auth p \<Longrightarrow>
     protocol v p (Run q ps x) (VSuccess False) (p\<lparr>p_state := StateTxStreaming\<rparr>)"
| more: "p_state p \<in> {StateStreaming, StateTxStreaming} \<Longrightarrow> m = Pull n qid \<or> m = Discard n qid \<Longrightarrow>
     protocol v p m (VSuccess True) p"
| last: "p_state p \<in> {StateStreaming, StateTxStreaming} \<Longrightarrow> m = Pull n qid \<or> m = Discard n qid \<Longrightarrow>
     protocol v p m (VSuccess False) (p\<lparr>p_state := (if p_state p = StateStreaming then StateReady else StateTxReady)\<rparr>)"
| broken: "p_state p \<in> {StateStreaming, StateTxStreaming} \<Longrightarrow>
     protocol v p (Pull n qid) VBroken (p\<lparr>p_state := StateFailed\<rparr>)"
| begin_tx: "p_state p = StateReady \<Longrightarrow> p_auth p \<Longrightarrow> protocol v p (Begin x) (VSuccess False) (p\<lparr>p_state := StateTxReady\<rparr>)"
| begin_refused: "p_state p = StateReady \<Longrightarrow> p_auth p \<Longrightarrow> protocol v p (Begin x) VFailure p"
| end_tx: "p_state p = StateTxReady \<Longrightarrow> p_auth p \<Longrightarrow> m = Commit \<or> m = Rollback \<Longrightarrow>
     protocol v p m (VSuccess False) (p\<lparr>p_state := StateReady\<rparr>)"
| route: "p_state p \<in> {StateReady, StateTxReady} \<Longrightarrow> p_auth p \<Longrightarrow> protocol v p (Route r bms db) (VSuccess False) p"
| reset: "p_state p \<noteq> StateDefunct \<Longrightarrow>
     protocol v p Reset (VSuccess False)
       (p\<lparr>p_state := (if p_auth p \<and> p_state p \<notin> {StateConnected, StateNegotiation, StateAuthentication} then StateReady
                      else StateNegotiation), p_pending := False\<rparr>)"
| goodbye: "protocol v p Goodbye VNothing (p\<lparr>p_state := StateDefunct\<rparr>)"
| ignored: "p_state p = StateFailed \<Longrightarrow> p_auth p \<Longrightarrow> \<not> p_pending p \<Longrightarrow> request_phase m \<Longrightarrow> protocol v p m VIgnored p"
| told: "p_state p = StateFailed \<Longrightarrow> p_auth p \<Longrightarrow> p_pending p \<Longrightarrow> request_phase m \<Longrightarrow>
     protocol v p m VFailure (p\<lparr>p_pending := False\<rparr>)"
| failed: "m \<noteq> Reset \<Longrightarrow> m \<noteq> Goodbye \<Longrightarrow> \<not> (p_state p = StateFailed \<and> p_auth p \<and> request_phase m) \<Longrightarrow>
     protocol v p m VFailure (p\<lparr>p_state := StateFailed\<rparr>)"

inductive_cases protocolE: "protocol v p m a p'"

subsection \<open>The refinement\<close>

definition peer_of :: "Session \<Rightarrow> peer" where
  "peer_of s = \<lparr>p_state = s_state s, p_auth = s_authenticated s, p_pending = (s_pendingTermErr s \<noteq> None)\<rparr>"

definition conforms :: "Session \<Rightarrow> request \<Rightarrow> reply \<times> Session \<Rightarrow> bool" where
  "conforms s m r \<longleftrightarrow> protocol (c_boltVersion (s_cfg s)) (peer_of s) m (verdict_of (snd (fst r))) (peer_of (snd r))"

lemma conforms_answer [simp]:
  "conforms s m (answer rs, s') \<longleftrightarrow> protocol (c_boltVersion (s_cfg s)) (peer_of s) m (verdict_of (Respond rs)) (peer_of s')"
  by (simp add: conforms_def answer_def)

lemma peer_sel [simp]: "p_state (peer_of s) = s_state s" "p_auth (peer_of s) = s_authenticated s"
  "p_pending (peer_of s) = (s_pendingTermErr s \<noteq> None)"
  by (simp_all add: peer_of_def)

lemma peer_upd [simp]:
  "peer_of (s\<lparr>s_state := st\<rparr>) = (peer_of s)\<lparr>p_state := st\<rparr>" "peer_of (s\<lparr>s_authenticated := b\<rparr>) = (peer_of s)\<lparr>p_auth := b\<rparr>"
  "peer_of (s\<lparr>s_pendingTermErr := f\<rparr>) = (peer_of s)\<lparr>p_pending := (f \<noteq> None)\<rparr>"
  "peer_of (s\<lparr>s_identity := i\<rparr>) = peer_of s" "peer_of (s\<lparr>s_result := r\<rparr>) = peer_of s" "peer_of (s\<lparr>s_resultCancel := b\<rparr>) = peer_of s"
  "peer_of (s\<lparr>s_peeked := pk\<rparr>) = peer_of s" "peer_of (s\<lparr>s_tx := x\<rparr>) = peer_of s" "peer_of (s\<lparr>s_bookmark := i\<rparr>) = peer_of s"
  "peer_of (s\<lparr>s_autocommitStmt := b\<rparr>) = peer_of s" "peer_of (s\<lparr>s_columns := cs\<rparr>) = peer_of s"
  "peer_of (s\<lparr>s_stmtTimeout := d\<rparr>) = peer_of s" "peer_of (s\<lparr>s_txActive := b\<rparr>) = peer_of s" "peer_of (s\<lparr>s_txDeadline := dl\<rparr>) = peer_of s"
  "peer_of (s\<lparr>s_trace := tr\<rparr>) = peer_of s" "peer_of (s\<lparr>s_srv := srv\<rparr>) = peer_of s"
  "peer_of (s\<lparr>s_txQuotaHeld := b\<rparr>) = peer_of s" "peer_of (s\<lparr>s_txQuotaPrincipal := i\<rparr>) = peer_of s"
  by (simp_all add: peer_of_def)

lemma peer_helpers [simp]:
  "peer_of (tell ev s) = peer_of s" "peer_of (srv_upd f s) = peer_of s" "peer_of (drainResult s) = peer_of s"
  "peer_of (txClosed s) = peer_of s" "peer_of (Tx_Rollback tx s) = peer_of s" "peer_of (roll_back_open s) = peer_of s"
  "peer_of (touchTx now s) = peer_of s" "peer_of (registerTx mode s) = peer_of s" "peer_of (txOpened s) = peer_of s"
  "peer_of (reportTx q s) = peer_of s" "peer_of (selectDatabaseFrom x s) = peer_of s"
  "peer_of (enterFailed s) = (peer_of s)\<lparr>p_state := StateFailed\<rparr>"
  by (simp_all add: peer_of_def)

lemma peer_more [simp]: "peer_of (closeCursors tx s) = peer_of s" "peer_of (snd (NextBookmark s)) = peer_of s"
  "peer_of (snd (acquireTxQuota s)) = peer_of s"
  by (simp_all add: closeCursors_def NextBookmark_def acquireTxQuota_def Let_def split: option.split)

lemma peer_order [simp]:
  "p\<lparr>p_pending := b, p_state := st\<rparr> = p\<lparr>p_state := st, p_pending := b\<rparr>" "p\<lparr>p_auth := a, p_state := st\<rparr> = p\<lparr>p_state := st, p_auth := a\<rparr>"
  by (cases p; simp)+

lemma peer_idem [simp]: "(peer_of s)\<lparr>p_state := s_state s\<rparr> = peer_of s"
  by (simp add: peer_of_def)

text \<open>A refused message leads to FAILED, and tells the client so.\<close>

lemma conforms_failed:
  assumes "m \<noteq> Reset" "m \<noteq> Goodbye" "\<not> (s_state s = StateFailed \<and> s_authenticated s \<and> request_phase m)"
    and "peer_of t = peer_of s"
  shows "conforms s m (failTransition m' t)" "conforms s m (failWith c tx t)" "conforms s m (stream_failed w c tx t)"
    "conforms s m (no_such_query q t)" "conforms s m (failUnsupportedImpersonation t)" "conforms s m (answer [Failure c tx], enterFailed t)"
  using protocol.failed [of m "peer_of s" "c_boltVersion (s_cfg s)"] assms
  by (simp_all add: failTransition_def failWith_def stream_failed_def no_such_query_def failUnsupportedImpersonation_def
      Let_def conforms_def answer_def)

lemma no_more [simp]: "\<not> has_more []" "\<not> has_more [(str ''bookmark'', x)]" "\<not> has_more (helloSuccessMetadata s)"
  "\<not> has_more [(str ''fields'', x), (str ''qid'', y), (str ''db'', z)]" "\<not> has_more (RoutingTable a)"
  by (simp_all add: has_more_def helloSuccessMetadata_def RoutingTable_def Let_def str_def)

lemma conforms_auth:
  assumes "s_state s \<noteq> StateDefunct"
  shows "conforms s (Hello x) (handleHello e x s)" "conforms s (Logon x) (handleLogon e x s)" "conforms s Logoff (handleLogoff s)"
proof -
  note F = conforms_failed [of "Hello x" s s] conforms_failed [of "Logon x" s s] conforms_failed [of Logoff s s]
  let ?v = "c_boltVersion (s_cfg s)" and ?S = "{StateAuthentication, StateReady, StateTxReady}"
  show "conforms s (Hello x) (handleHello e x s)"
  proof (cases "s_state s = StateNegotiation")
    case True
    then show ?thesis
      using protocol.hello [of "peer_of s" ?v x] protocol.hello_deferred [of "peer_of s" ?v x] protocol.hello_refused [of "peer_of s" ?v x]
      by (auto simp: handleHello_def HelloTransition_def Let_def split: sum.split)
  qed (simp add: handleHello_def F)
  show "conforms s (Logon x) (handleLogon e x s)"
  proof (cases "s_state s \<in> ?S")
    case True
    then show ?thesis
      using protocol.logon [of "peer_of s" ?v x] protocol.logon_refused [of "peer_of s" ?v x]
      by (auto simp: handleLogon_def Let_def Transition_def goto_def peer_of_def split: sum.split)
  qed (simp add: handleLogon_def F)
  show "conforms s Logoff (handleLogoff s)"
  proof (cases "s_state s \<in> ?S")
    case True
    then show ?thesis
      using protocol.logoff [of "peer_of s" ?v] by (auto simp: handleLogoff_def Transition_def goto_def peer_of_def)
  qed (simp add: handleLogoff_def F)
qed

lemma conforms_ends:
  assumes nd: "s_state s \<noteq> StateDefunct"
  shows "conforms s Reset (handleReset s)" "conforms s Goodbye (handleGoodbye s)"
proof -
  show "conforms s Reset (handleReset s)"
    using protocol.reset [of "peer_of s" "c_boltVersion (s_cfg s)"] nd
    by (auto simp: handleReset_def Let_def Transition_def split: if_splits)
  show "conforms s Goodbye (handleGoodbye s)"
    using protocol.goodbye [of "c_boltVersion (s_cfg s)" "peer_of s"] by (simp add: handleGoodbye_def)
qed

text \<open>A message handled outside an authenticated FAILED session.\<close>

definition admissible :: "Session \<Rightarrow> request \<Rightarrow> bool" where
  "admissible s m \<longleftrightarrow> m \<noteq> Reset \<and> m \<noteq> Goodbye \<and> \<not> (s_state s = StateFailed \<and> s_authenticated s \<and> request_phase m)"

lemmas refused = conforms_failed [OF conjunct1 conjunct2 [THEN conjunct1] conjunct2 [THEN conjunct2],
  OF admissible_def [THEN iffD1] admissible_def [THEN iffD1] admissible_def [THEN iffD1]]

lemma run_statement_peer [simp]: "peer_of (snd (run_statement e q ps s)) = peer_of s"
  by (simp add: run_statement_def Tx_Run_def Let_def split: option.split exec_outcome.split)

lemma conforms_run:
  assumes ok: "admissible s (Run q ps x)"
  shows "conforms s (Run q ps x) (handleRun e q ps x s)"
proof -
  let ?m = "Run q ps x" and ?v = "c_boltVersion (s_cfg s)"
  have now: "conforms s ?m (run_now e q ps x eff t)"
    if p: "peer_of t = peer_of s" and st: "s_state s = StateReady \<or> s_state s = StateTxReady" and a: "s_authenticated s" for t eff
  proof -
    obtain outc t3 where r: "run_statement e q ps t = (outc, t3)" by (cases "run_statement e q ps t")
    have p3: "peer_of t3 = peer_of s" using run_statement_peer [of e q ps t] r p by simp
    have s3: "s_state t3 = s_state s" using arg_cong [OF p3, of p_state] by simp
    have tr: "Transition (s_state t3) ?m b = (if b then (if s_state s = StateReady then StateStreaming else StateTxStreaming)
        else StateFailed, False)" for b using st s3 by (auto simp: Transition_def goto_def)
    show ?thesis
    proof (cases outc)
      case (Inl err)
      then show ?thesis using refused(6) [OF ok ok ok p3] by (simp add: run_now_def r tr transitionTo_def)
    next
      case (Inr c)
      then show ?thesis
        using protocol.run [of "peer_of s" ?v q ps x] protocol.run_tx [of "peer_of s" ?v q ps x] st a p3
        by (auto simp: run_now_def r tr transitionTo_def Let_def)
    qed
  qed
  have s1: "peer_of (case client_timeout ''timeout'' x of None \<Rightarrow> s | Some d \<Rightarrow> s\<lparr>s_stmtTimeout := d\<rparr>) = peer_of s"
    by (simp split: option.split)
  show ?thesis
    unfolding handleRun_def Let_def using refused [OF ok ok ok] s1 by (auto intro!: now simp: now)
qed

lemma has_more_meta [simp]: "has_more [(str ''has_more'', PBool True)]" "\<not> has_more (stream_metadata b r bm db)"
  by (simp_all add: has_more_def stream_metadata_def)

lemma stream_verdict [simp]: "verdict_of (snd (stream_reply out meta s)) = VSuccess (has_more meta)"
  by (simp add: stream_reply_def)

lemma end_stream_peer:
  assumes "end_stream b r s = (meta, s')"
  shows "peer_of s' = peer_of s" "\<not> has_more meta"
  using assms peer_more(2) [of s] by (cases "NextBookmark s"; auto simp: end_stream_def split: if_splits)+

lemma conforms_stream:
  assumes st: "s_state s = StateStreaming \<or> s_state s = StateTxStreaming" and p: "peer_of t = peer_of s"
    and m: "m = Pull N Q \<or> m = Discard N Q"
  shows "conforms s m (finish_stream m b n k r out t)"
proof -
  let ?v = "c_boltVersion (s_cfg s)" and ?n = "if s_state s = StateStreaming then StateReady else StateTxReady"
  obtain pk r' where pm: "peek_more n k r = (pk, r')" by (cases "peek_more n k r")
  define t1 where "t1 = t\<lparr>s_result := Some r', s_peeked := (if pk \<noteq> None then pk else s_peeked t)\<rparr>"
  have p1: "peer_of t1 = peer_of s" by (simp add: t1_def p)
  have s1: "s_state t1 = s_state s" using arg_cong [OF p1, of p_state] by simp
  have tr: "StreamingTransition (s_state t1) b = (if b then s_state s else ?n, False)" for b
    using st s1 by (auto simp: StreamingTransition_def)
  have more: "protocol ?v (peer_of s) m (VSuccess True) (peer_of s)"
    using st m by (intro protocol.more [of _ _ N Q]) auto
  have fin: "protocol ?v (peer_of s) m (VSuccess False) ((peer_of s)\<lparr>p_state := ?n\<rparr>)"
    using protocol.last [of "peer_of s" m N Q ?v] st m by auto
  define t2 where "t2 = (drainResult t1)\<lparr>s_peeked := None, s_state := ?n\<rparr>"
  obtain meta t3 where es: "end_stream b r' t2 = (meta, t3)" by (cases "end_stream b r' t2")
  have "peer_of t3 = (peer_of s)\<lparr>p_state := ?n\<rparr>" using end_stream_peer(1) [OF es] p1 by (simp add: t2_def)
  with fin more es end_stream_peer(2) [OF es] p1 show ?thesis
    unfolding finish_stream_def pm prod.case Let_def t1_def [symmetric] tr
    by (simp add: t2_def [symmetric] conforms_def s1)
qed

lemma conforms_pull:
  assumes ok: "admissible s (Pull N Q)" and inv: "session_inv s"
  shows "conforms s (Pull N Q) (handlePull e N Q s)"
proof (cases "s_state s = StateStreaming \<or> s_state s = StateTxStreaming")
  case True
  note F = refused [OF ok ok ok]
  have ab: "conforms s (Pull N Q) (abortStream out t)" if "peer_of t = peer_of s" for t out
    using protocol.broken [of "peer_of s" "c_boltVersion (s_cfg s)" N Q] True that by (auto simp: abortStream_def conforms_def)
  have rows: "conforms s (Pull N Q) (pull_rows e N Q n k out t)" if p: "peer_of t = peer_of s" and r: "s_result t = Some r" for t n k r out
  proof -
    obtain stop k' r' out' where l: "pull_loop e t n k r out = (stop, k', r', out')" by (cases "pull_loop e t n k r out")
    have p': "peer_of (t\<lparr>s_result := Some r'\<rparr>) = peer_of s" using p by simp
    show ?thesis
      using F(3) [OF p'] ab [OF p'] conforms_stream [OF True p', of "Pull N Q" N Q]
      by (auto simp: pull_rows_def r l Let_def split: pull_stop.split option.split)
  qed
  obtain r where r: "s_result s = Some r" using inv True by (auto simp: inv_Streaming inv_TxStreaming)
  have p0: "peer_of (s\<lparr>s_peeked := None\<rparr>) = peer_of s" "s_result (s\<lparr>s_peeked := None\<rparr>) = Some r" using r by simp_all
  show ?thesis
    using True F(4) [OF refl] ab [OF p0(1)] rows [OF refl r] rows [OF p0]
    by (auto simp: handlePull_def Let_def split: option.split)
qed (simp add: handlePull_def refused [OF ok ok ok])

lemma conforms_discard:
  assumes ok: "admissible s (Discard N Q)" and inv: "session_inv s"
  shows "conforms s (Discard N Q) (handleDiscard N Q s)"
proof (cases "s_state s = StateStreaming \<or> s_state s = StateTxStreaming")
  case True
  note F = refused [OF ok ok ok]
  obtain r where r: "s_result s = Some r" using inv True by (auto simp: inv_Streaming inv_TxStreaming)
  have p: "peer_of (s\<lparr>s_peeked := None, s_result := Some r'\<rparr>) = peer_of s" "peer_of (drainResult s) = peer_of s" for r' by simp_all
  show ?thesis
    using True F(4) [OF refl] F(6) [OF p(1)] F(6) [OF p(2)] conforms_stream [OF True p(1), of "Discard N Q" N Q]
    by (auto simp: handleDiscard_def r Let_def split: option.split prod.split)
qed (simp add: handleDiscard_def refused [OF ok ok ok])

lemma conforms_begin:
  assumes ok: "admissible s (Begin x)"
  shows "conforms s (Begin x) (handleBegin e x s)"
proof (cases "s_authenticated s \<and> s_state s = StateReady")
  case True
  let ?v = "c_boltVersion (s_cfg s)"
  note F = refused [OF ok ok ok]
  have R: "protocol ?v (peer_of s) (Begin x) VFailure (peer_of s)" using True by (intro protocol.begin_refused) simp_all
  have op: "conforms s (Begin x) (open_tx e x mode tx t)" if "peer_of t = peer_of s" for mode tx t
  proof -
    have "s_state t = StateReady" using arg_cong [OF that, of p_state] True by simp
    then show ?thesis using protocol.begin_tx [of "peer_of s" ?v x] True that
      by (simp add: open_tx_def Transition_def goto_def Let_def)
  qed
  let ?s1 = "\<lambda>mode. tell (EvBegin mode) (selectDatabaseFrom x s)"
  have p1: "peer_of (?s1 mode) = peer_of s" for mode by simp
  have p2: "peer_of t = peer_of s" if "acquireTxQuota (?s1 mode) = (b, t)" for mode b t
    using peer_more(3) [of "?s1 mode"] that by simp
  show ?thesis
    using True F(6) [OF p1] R p2 op
    by (auto simp: handleBegin_def newTx_def split: option.split prod.split bool.split)
qed (use refused [OF ok ok ok refl] in \<open>auto simp: handleBegin_def\<close>)

lemma conforms_end_tx:
  shows "admissible s Commit \<Longrightarrow> conforms s Commit (handleCommit e s)" "admissible s Rollback \<Longrightarrow> conforms s Rollback (handleRollback s)"
proof -
  let ?v = "c_boltVersion (s_cfg s)"
  have E: "protocol ?v (peer_of s) m (VSuccess False) ((peer_of s)\<lparr>p_state := StateReady\<rparr>)"
    if "s_state s = StateTxReady \<and> s_authenticated s" "m = Commit \<or> m = Rollback" for m
    using that by (intro protocol.end_tx) auto
  show "conforms s Rollback (handleRollback s)" if ok: "admissible s Rollback"
    using E [of Rollback] refused [OF ok ok ok refl]
    by (auto simp: handleRollback_def Let_def Transition_def goto_def)
  show "conforms s Commit (handleCommit e s)" if ok: "admissible s Commit"
  proof (cases "s_state s = StateTxReady \<and> s_authenticated s")
    case True
    have nb: "peer_of t' = peer_of t" if "NextBookmark t = (bm, t')" for t t' bm using peer_more(2) [of t] that by simp
    have fin: "conforms s Commit (case Transition (s_state t) Commit True of (next, transErr) \<Rightarrow>
        if transErr then failTransition Commit t
        else case NextBookmark (t\<lparr>s_state := next, s_txActive := False\<rparr>) of
          (b, s2) \<Rightarrow> (answer [Success [(str ''bookmark'', PString b)]], s2\<lparr>s_bookmark := b\<rparr>))" if p: "peer_of t = peer_of s" for t
    proof -
      have "s_state t = StateTxReady" using arg_cong [OF p, of p_state] True by simp
      then show ?thesis using E [of Commit] True p nb by (auto simp: Transition_def goto_def split: prod.split)
    qed
    show ?thesis
    proof (cases "s_tx s")
      case None
      then show ?thesis using fin [OF refl] True by (simp add: handleCommit_def)
    next
      case (Some tx)
      have p: "peer_of (txClosed ((tell EvCommit (closeCursors tx s))\<lparr>s_tx := None\<rparr>)) = peer_of s"
        "peer_of ((tell EvCommit (closeCursors tx s))\<lparr>s_tx := z\<rparr>) = peer_of s" for z by simp_all
      show ?thesis using True Some fin [OF p(1)] refused(6) [OF ok ok ok p(2)]
        by (auto simp: handleCommit_def Tx_Commit_def split: option.split)
    qed
  qed (use refused [OF ok ok ok refl] in \<open>auto simp: handleCommit_def\<close>)
qed

lemma HandleMessage_conforms:
  assumes inv: "session_inv s" and nd: "s_state s \<noteq> StateDefunct" and ctx: "e_ctxErr e = None"
  shows "conforms s m (HandleMessage e m s)"
proof (cases "s_state s = StateFailed \<and> s_authenticated s \<and> request_phase m")
  case True
  let ?v = "c_boltVersion (s_cfg s)"
  show ?thesis
    using True ctx protocol.ignored [of "peer_of s" m ?v] protocol.told [of "peer_of s" m ?v]
    by (auto simp: HandleMessage_def dispatch_def split: option.split)
next
  case False
  have route: "conforms s (Route r b db) (handleRoute r b db s)" if ok: "admissible s (Route r b db)" for r b db
    using refused [OF ok ok ok refl] protocol.route [of "peer_of s" "c_boltVersion (s_cfg s)" r b db]
    by (auto simp: handleRoute_def Let_def)
  have a: "admissible s m \<or> m = Reset \<or> m = Goodbye" using False by (auto simp: admissible_def)
  have "conforms s m (handle e m s)"
    using a conforms_auth [OF nd] conforms_ends [OF nd] conforms_run conforms_pull [OF _ inv] conforms_discard [OF _ inv]
      conforms_begin conforms_end_tx route by (cases m) auto
  then show ?thesis using ctx by (simp add: HandleMessage_def dispatch_def False)
qed

subsection \<open>Correctness\<close>

text \<open>
  Property C12. A session refines the protocol. For every message a live session handles, whatever the
  engine, the authentication handler and the record sink answer: when the context is not cancelled,
  the answer and the move from state to state (with the authentication and the pending FAILURE) are
  ones the protocol allows; so a SUCCESS is given only to a message that is legal in the state,
  RESET always succeeds, FAILED is left only by RESET and GOODBYE, and an authenticated FAILED
  session answers every request with IGNORED, after telling a pending FAILURE once. When the context
  is cancelled the answer is a FAILURE and the session is FAILED.
\<close>

theorem bolt_session_refines_protocol:
  assumes "session_inv s" and "s_state s \<noteq> StateDefunct" and "HandleMessage e m s = ((written, out), s')"
  shows "(e_ctxErr e = None \<longrightarrow> protocol (c_boltVersion (s_cfg s)) (peer_of s) m (verdict_of out) (peer_of s')) \<and>
    (e_ctxErr e \<noteq> None \<longrightarrow> verdict_of out = VFailure \<and> peer_of s' = (peer_of s)\<lparr>p_state := StateFailed\<rparr>) \<and>
    (s_state s = StateFailed \<longrightarrow> m \<noteq> Reset \<longrightarrow> m \<noteq> Goodbye \<longrightarrow> s_state s' = StateFailed)"
proof -
  have c: "protocol (c_boltVersion (s_cfg s)) (peer_of s) m (verdict_of out) (peer_of s')" if "e_ctxErr e = None"
    using HandleMessage_conforms [OF assms(1,2) that, of m] assms(3) by (simp add: conforms_def)
  have x: "verdict_of out = VFailure \<and> peer_of s' = (peer_of s)\<lparr>p_state := StateFailed\<rparr>" if "e_ctxErr e \<noteq> None"
    using that assms(3) by (auto simp: HandleMessage_def failWith_def answer_def)
  have "s_state s' = StateFailed" if "s_state s = StateFailed" "m \<noteq> Reset" "m \<noteq> Goodbye"
  proof (cases "e_ctxErr e = None")
    case True
    have "p_state (peer_of s') = StateFailed" using c [OF True] that by cases auto
    then show ?thesis by simp
  next
    case False
    have "p_state (peer_of s') = StateFailed" using x [OF False] by simp
    then show ?thesis by simp
  qed
  with c x show ?thesis by blast
qed

definition sample_session :: Session where
  "sample_session = newSession sample_cfg \<lparr>q_open = (\<lambda>_. 0), g_entries = Map.empty, g_seq = 0, m_txOpened = 0, m_txClosed = 0,
     m_txAbandoned = 0, m_txQuotaRejected = 0, bookmarkCounter = 0\<rparr>"

theorem bolt_session_refines_protocol_witness:
  "session_inv sample_session \<and> s_state (snd (HandleMessage sample_env (Hello []) sample_session)) = StateReady \<and>
   protocol (c_boltVersion sample_cfg) (peer_of sample_session) (Hello [])
     (verdict_of (snd (fst (HandleMessage sample_env (Hello []) sample_session))))
     (peer_of (snd (HandleMessage sample_env (Hello []) sample_session)))"
proof -
  let ?r = "HandleMessage sample_env (Hello []) sample_session"
  have i: "session_inv sample_session" by (simp add: sample_session_def newSession_inv)
  have n: "s_state sample_session \<noteq> StateDefunct" "s_cfg sample_session = sample_cfg" "e_ctxErr sample_env = None"
    by (simp_all add: sample_session_def newSession_def sample_env_def)
  have r: "?r = ((fst (fst ?r), snd (fst ?r)), snd ?r)" by simp
  have "s_state (snd ?r) = StateReady" by code_simp
  with i n bolt_session_refines_protocol [OF i n(1) r] show ?thesis by simp
qed

end
