(* ===== verification/Bolt_System.thy ===== *)
theory Bolt_System
  imports Bolt_Server Bolt_Auth Bolt_Protocol
begin

text \<open>
  The sessions of one server together (the connections of \<open>bolt/server/serve.go\<close>, which share the
  quota, the registry, the counters and the bookmarks): connections come and go, and their messages,
  timers and termination signals interleave in any order. What they share is accounted for exactly.
\<close>

subsection \<open>The server and its steps\<close>

record world =
  w_srv :: server
  w_sessions :: "nat \<rightharpoonup> Session"

text \<open>A session sees the shared state of the moment, and its step leaves it to the others.\<close>

definition load :: "world \<Rightarrow> Session \<Rightarrow> Session" where
  "load w s = s\<lparr>s_srv := w_srv w\<rparr>"

definition store :: "nat \<Rightarrow> Session \<Rightarrow> world \<Rightarrow> world" where
  "store i s w = w\<lparr>w_srv := s_srv s, w_sessions := (w_sessions w)(i \<mapsto> s)\<rparr>"

definition newServer :: world where
  "newServer = \<lparr>w_srv = \<lparr>q_open = (\<lambda>_. 0), g_entries = Map.empty, g_seq = 0, m_txOpened = 0, m_txClosed = 0, m_txAbandoned = 0,
     m_txQuotaRejected = 0, bookmarkCounter = 0\<rparr>, w_sessions = Map.empty\<rparr>"

text \<open>
  The serve loop of a connection reads no message once its session is DEFUNCT; the teardown closes
  the session in whatever state it is.
\<close>

inductive serve_step :: "int \<Rightarrow> auth_handler \<Rightarrow> world \<Rightarrow> world \<Rightarrow> bool"
  for limit :: int and A :: auth_handler where
  connect: "w_sessions w i = None \<Longrightarrow> c_txQuota cfg \<Longrightarrow> c_quotaLimit cfg = limit \<Longrightarrow>
     serve_step limit A w (store i (newSession cfg (w_srv w)) w)"
| message: "w_sessions w i = Some s \<Longrightarrow> s_state s \<noteq> StateDefunct \<Longrightarrow> e_auth e = A \<Longrightarrow>
     serve_step limit A w (store i (snd (serve_message e m (load w s))) w)"
| timer: "w_sessions w i = Some s \<Longrightarrow> s_state s \<noteq> StateDefunct \<Longrightarrow> serve_step limit A w (store i (timer_fired (load w s)) w)"
| signal: "w_sessions w i = Some s \<Longrightarrow> s_state s \<noteq> StateDefunct \<Longrightarrow> s_terminate s \<Longrightarrow>
     serve_step limit A w (store i (terminate_signalled (load w s)) w)"
| terminate: "w_sessions w i = Some s \<Longrightarrow> s_txID s \<noteq> None \<Longrightarrow> serve_step limit A w (store i (requestTerminate (load w s)) w)"
| teardown: "w_sessions w i = Some s \<Longrightarrow>
     serve_step limit A w (w\<lparr>w_srv := s_srv (Close (load w s)), w_sessions := (w_sessions w)(i := None)\<rparr>)"

inductive_cases serve_stepE: "serve_step limit A w w'"

abbreviation served :: "int \<Rightarrow> auth_handler \<Rightarrow> world \<Rightarrow> bool" where
  "served limit A \<equiv> (serve_step limit A)\<^sup>*\<^sup>* newServer"

subsection \<open>The books\<close>

definition booked :: "(Session \<Rightarrow> int) \<Rightarrow> world \<Rightarrow> int" where
  "booked f w = (\<Sum>i\<in>dom (w_sessions w). f (the (w_sessions w i)))"

definition world_inv :: "int \<Rightarrow> world \<Rightarrow> bool" where
  "world_inv limit w \<longleftrightarrow> finite (dom (w_sessions w))
     \<and> (\<forall>i s. w_sessions w i = Some s \<longrightarrow> session_inv s \<and> c_txQuota (s_cfg s) \<and> c_quotaLimit (s_cfg s) = limit)
     \<and> (\<forall>p. int (q_open (w_srv w) p) = booked (\<lambda>s. own_slot s p) w)
     \<and> (\<forall>p. int (q_open (w_srv w) p) \<le> limit)
     \<and> int (m_txOpened (w_srv w)) - int (m_txClosed (w_srv w)) = booked own_tx w"

lemma load_same [simp]: "own_slot (load w s) = own_slot s" "own_tx (load w s) = own_tx s" "s_cfg (load w s) = s_cfg s"
  "s_srv (load w s) = w_srv w" "session_inv (load w s) = session_inv s" "s_state (load w s) = s_state s"
  by (simp_all add: load_def own_slot_def own_tx_def fun_eq_iff)

lemma store_simps [simp]: "w_srv (store i s w) = s_srv s" "w_sessions (store i s w) = (w_sessions w)(i \<mapsto> s)"
  by (simp_all add: store_def)

lemma booked_others:
  assumes "finite (dom (w_sessions w))" and "w_sessions w i = Some s"
  shows "booked f w - f s = (\<Sum>j\<in>dom (w_sessions w) - {i}. f (the (w_sessions w j)))"
proof -
  have "i \<in> dom (w_sessions w)" using assms(2) by blast
  from sum.remove [OF assms(1) this, of "\<lambda>j. f (the (w_sessions w j))"] assms(2) show ?thesis by (simp add: booked_def)
qed

lemma booked_upd:
  assumes "finite (dom (w_sessions w))"
  shows "booked f (w\<lparr>w_srv := v, w_sessions := (w_sessions w)(i := x)\<rparr>) =
    (\<Sum>j\<in>dom (w_sessions w) - {i}. f (the (w_sessions w j))) + (case x of None \<Rightarrow> 0 | Some s \<Rightarrow> f s)"
proof -
  have "(\<Sum>j\<in>dom (w_sessions w) - {i}. f (the (((w_sessions w)(i := x)) j))) =
      (\<Sum>j\<in>dom (w_sessions w) - {i}. f (the (w_sessions w j)))" by (rule sum.cong) auto
  with assms show ?thesis by (auto simp: booked_def sum.insert_remove split: option.split)
qed

lemma booked_new:
  assumes "finite (dom (w_sessions w))" and "w_sessions w i = None"
  shows "booked f (store i s w) = booked f w + f s"
proof -
  have "dom (w_sessions w) - {i} = dom (w_sessions w)" using assms(2) by auto
  then show ?thesis unfolding store_def booked_upd [OF assms(1)] by (simp add: booked_def)
qed

text \<open>One session's fair step keeps the books of all.\<close>

lemma world_counted:
  assumes w: "world_inv limit w" and i: "w_sessions w i = Some s" and l: "0 < limit"
  shows "counted (load w s)"
proof -
  have "booked (\<lambda>s. own_slot s p) w - own_slot s p \<ge> 0" for p
    unfolding booked_others [OF conjunct1 [OF w [unfolded world_inv_def]] i, of "\<lambda>s. own_slot s p"]
    by (rule sum_nonneg) (simp add: own_slot_def)
  with w i l show ?thesis by (simp add: world_inv_def counted_def others_slots_def)
qed

lemma world_updated:
  assumes w: "world_inv limit w" and i: "w_sessions w i = Some s" and f: "fair (load w s) s'" and l: "0 < limit"
    and x: "x = None \<and> own_slot s' = (\<lambda>_. 0) \<and> own_tx s' = 0 \<or> x = Some s' \<and> session_inv s'"
  shows "world_inv limit (w\<lparr>w_srv := s_srv s', w_sessions := (w_sessions w)(i := x)\<rparr>)"
proof -
  have fin: "finite (dom (w_sessions w))" and q: "\<And>p. int (q_open (w_srv w) p) = booked (\<lambda>s. own_slot s p) w"
    and lim: "\<And>p. int (q_open (w_srv w) p) \<le> limit" and cl: "c_quotaLimit (s_cfg s) = limit" "c_txQuota (s_cfg s)"
    and tx: "int (m_txOpened (w_srv w)) - int (m_txClosed (w_srv w)) = booked own_tx w"
    using w i by (auto simp: world_inv_def)
  note others = booked_others [OF fin i]
  have d: "int (q_open (s_srv s') p) - own_slot s' p = int (q_open (w_srv w) p) - own_slot s p" for p
    using f by (simp add: fair_def others_slots_def fun_eq_iff)
  have slots: "int (q_open (s_srv s') p) = (\<Sum>j\<in>dom (w_sessions w) - {i}. own_slot (the (w_sessions w j)) p) + own_slot s' p" for p
    using others [of "\<lambda>s. own_slot s p"] q [of p] d [of p] by linarith
  have "int (m_txOpened (s_srv s')) - int (m_txClosed (s_srv s')) - own_tx s' = booked own_tx w - own_tx s"
    using f tx by (simp add: fair_def others_txs_def)
  then have txs: "int (m_txOpened (s_srv s')) - int (m_txClosed (s_srv s')) =
      (\<Sum>j\<in>dom (w_sessions w) - {i}. own_tx (the (w_sessions w j))) + own_tx s'"
    using others [of own_tx] by simp
  have lim': "int (q_open (s_srv s') p) \<le> limit" for p
  proof -
    have "int (q_open (s_srv s') p) \<le> max (int (q_open (w_srv w) p)) limit" using f cl by (simp add: fair_def)
    then show ?thesis using lim [of p] by linarith
  qed
  have cfg: "s_cfg s' = s_cfg s" using f by (simp add: fair_def)
  let ?w = "w\<lparr>w_srv := s_srv s', w_sessions := (w_sessions w)(i := x)\<rparr>"
  have B: "booked f ?w = (\<Sum>j\<in>dom (w_sessions w) - {i}. f (the (w_sessions w j))) + f s'" if "x = None \<Longrightarrow> f s' = 0" for f
    unfolding booked_upd [OF fin] using x that by (auto split: option.split)
  have S: "booked (\<lambda>s. own_slot s p) ?w = int (q_open (s_srv s') p)" for p using B [of "\<lambda>s. own_slot s p"] x slots by auto
  have T: "booked own_tx ?w = int (m_txOpened (s_srv s')) - int (m_txClosed (s_srv s'))" using B [of own_tx] x txs by auto
  have I: "session_inv t \<and> c_txQuota (s_cfg t) \<and> c_quotaLimit (s_cfg t) = limit" if "w_sessions ?w j = Some t" for j t
    using that x w cl cfg by (cases "j = i") (auto simp: world_inv_def)
  show ?thesis unfolding world_inv_def S T using I fin lim' by simp
qed

lemma Close_released:
  assumes "session_inv s"
  shows "own_slot (Close s) = (\<lambda>_. 0)" "own_tx (Close s) = 0"
  using assms by (simp_all add: Close_def own_slot_def own_tx_def fun_eq_iff)

lemma serve_step_inv:
  assumes step: "serve_step limit A w w'" and w: "world_inv limit w" and l: "0 < limit"
  shows "world_inv limit w'"
  using step
proof cases
  case (connect i cfg)
  let ?s = "newSession cfg (w_srv w)"
  have fin: "finite (dom (w_sessions w))" using w by (simp add: world_inv_def)
  have "own_slot ?s = (\<lambda>_. 0)" "own_tx ?s = 0" by (simp_all add: newSession_def own_slot_def own_tx_def fun_eq_iff)
  moreover have "s_srv ?s = w_srv w" "s_cfg ?s = cfg" by (simp_all add: newSession_def)
  ultimately show ?thesis
    using w connect unfolding world_inv_def by (auto simp: booked_new [OF fin] newSession_inv)
next
  case (message i s e m)
  note c = world_counted [OF w message(2) l]
  have inv: "session_inv s" using w message(2) by (simp add: world_inv_def)
  have "fair (load w s) (snd (serve_message e m (load w s)))"
    using serve_message_fair [OF c, of e m] inv by (simp add: fair_reply_def)
  moreover have "session_inv (snd (serve_message e m (load w s)))"
    using serve_message_stays [of "load w s"] inv message by (simp add: stays_def)
  ultimately show ?thesis using world_updated [OF w message(2) _ l] unfolding message(1) store_def by blast
next
  case (timer i s)
  note c = world_counted [OF w timer(2) l]
  have "session_inv s" using w timer(2) by (simp add: world_inv_def)
  then show ?thesis
    using world_updated [OF w timer(2) server_events_fair(1) [OF c] l] server_events_inv(1) [of "load w s"] timer by (simp add: store_def)
next
  case (signal i s)
  note c = world_counted [OF w signal(2) l]
  have "session_inv s" using w signal(2) by (simp add: world_inv_def)
  then show ?thesis
    using world_updated [OF w signal(2) server_events_fair(2) [OF c] l] server_events_inv(2) [of "load w s"] signal by (simp add: store_def)
next
  case (terminate i s)
  note c = world_counted [OF w terminate(2) l]
  have "session_inv (requestTerminate (load w s))" using w terminate(2) by (simp add: world_inv_def requestTerminate_def)
  then show ?thesis
    using world_updated [OF w terminate(2) server_events_fair(3) [OF c] l] terminate(1) by (simp add: store_def)
next
  case (teardown i s)
  note c = world_counted [OF w teardown(2) l]
  have "session_inv (load w s)" using w teardown(2) by (simp add: world_inv_def)
  then show ?thesis
    using world_updated [OF w teardown(2) server_events_fair(4) [OF c] l, of None] Close_released [of "load w s"] teardown(1) by simp
qed

lemma served_inv:
  assumes "served limit A w" and l: "0 < limit"
  shows "world_inv limit w"
  using assms(1)
proof induction
  case base
  then show ?case using l by (simp add: world_inv_def newServer_def booked_def)
next
  case (step y z)
  then show ?case using serve_step_inv l by blast
qed

lemma served_auth:
  assumes "served limit A w"
  shows "w_sessions w i = Some s \<Longrightarrow> auth_ok A s"
  using assms
proof (induction arbitrary: i s)
  case base
  then show ?case by (simp add: newServer_def)
next
  case (step y z)
  have old: "auth_ok A (load y t)" if "w_sessions y j = Some t" for j t using step.IH [OF that] by (simp add: load_def)
  from step.hyps(2) show ?case
    by cases (use step.prems step.IH old server_events_auth newSession_auth in
      \<open>fastforce simp: store_def split: if_splits\<close>)+
qed

lemma served_session_inv:
  assumes "served limit A w"
  shows "w_sessions w i = Some s \<Longrightarrow> session_inv s \<and> close_ok s"
  using assms
proof (induction arbitrary: i s)
  case base
  then show ?case by (simp add: newServer_def)
next
  case (step y z)
  have old: "session_inv (load y t) \<and> close_ok (load y t)" if "w_sessions y j = Some t" for j t
    using step.IH [OF that] by (simp add: load_def)
  have msg: "session_inv (snd (serve_message e m (load y t)))" if "w_sessions y j = Some t" "s_state t \<noteq> StateDefunct" for j t e m
    using serve_message_stays [of "load y t" e m] old [OF that(1)] that(2) by (simp add: stays_def)
  have req: "session_inv (requestTerminate (load y t))" if "w_sessions y j = Some t" for j t
    using old [OF that] by (simp add: requestTerminate_def)
  from step.hyps(2) show ?case
    by cases (use step.prems step.IH old msg req server_events_close server_events_inv newSession_inv newSession_close in
      \<open>fastforce simp: store_def split: if_splits\<close>)+
qed

subsection \<open>Correctness\<close>

text \<open>
  Property C4. In every state a server with a limit on open transactions can reach, however the
  messages, timers, termination signals, connects and teardowns of its connections interleave: the
  quota of a principal is exactly the number of sessions that hold a transaction begun under it and
  never exceeds the limit, and the transactions opened and not yet closed are exactly the sessions
  that hold one; no path (commit, rollback, failure, reset, timeout, termination, disconnect) leaks
  a slot or releases one twice.
\<close>

theorem bolt_transactions_accounted:
  assumes "0 < limit" and "served limit A w"
  shows "(\<forall>princ. q_open (w_srv w) princ =
        card {i. \<exists>s. w_sessions w i = Some s \<and> s_tx s \<noteq> None \<and> s_txQuotaPrincipal s = princ}) \<and>
    (\<forall>princ. int (q_open (w_srv w) princ) \<le> limit) \<and>
    m_txOpened (w_srv w) = m_txClosed (w_srv w) + card {i. \<exists>s. w_sessions w i = Some s \<and> s_tx s \<noteq> None}"
proof -
  note inv = served_inv [OF assms(2,1)]
  have fin: "finite (dom (w_sessions w))" using inv by (simp add: world_inv_def)
  have count: "booked f w = int (card {i. \<exists>s. w_sessions w i = Some s \<and> P s})"
    if "\<And>i s. w_sessions w i = Some s \<Longrightarrow> f s = (if P s then 1 else 0)" for f P
  proof -
    have "booked f w = (\<Sum>i\<in>dom (w_sessions w). if P (the (w_sessions w i)) then 1 else 0)"
      unfolding booked_def using that by (intro sum.cong) auto
    also have "\<dots> = int (card {i \<in> dom (w_sessions w). P (the (w_sessions w i))})"
      using fin by (simp add: sum.If_cases Int_def)
    also have "{i \<in> dom (w_sessions w). P (the (w_sessions w i))} = {i. \<exists>s. w_sessions w i = Some s \<and> P s}" by auto
    finally show ?thesis .
  qed
  have held: "(s_txQuotaHeld s \<longleftrightarrow> s_tx s \<noteq> None) \<and> (s_txAccounted s \<longleftrightarrow> s_tx s \<noteq> None)" if "w_sessions w i = Some s" for i s
    using inv that by (auto simp: world_inv_def session_inv_def)
  have slots: "booked (\<lambda>s. own_slot s princ) w =
      int (card {i. \<exists>s. w_sessions w i = Some s \<and> s_tx s \<noteq> None \<and> s_txQuotaPrincipal s = princ})" for princ
    by (rule count) (use held in \<open>auto simp: own_slot_def\<close>)
  have txs: "booked own_tx w = int (card {i. \<exists>s. w_sessions w i = Some s \<and> s_tx s \<noteq> None})"
    by (rule count) (use held in \<open>auto simp: own_tx_def\<close>)
  have q: "int (q_open (w_srv w) princ) = booked (\<lambda>s. own_slot s princ) w" "int (q_open (w_srv w) princ) \<le> limit" for princ
    using inv unfolding world_inv_def by blast+
  have t: "int (m_txOpened (w_srv w)) - int (m_txClosed (w_srv w)) = booked own_tx w"
    using inv unfolding world_inv_def by blast
  have "q_open (w_srv w) princ = card {i. \<exists>s. w_sessions w i = Some s \<and> s_tx s \<noteq> None \<and> s_txQuotaPrincipal s = princ}" for princ
    using q(1) [of princ] slots [of princ] by linarith
  moreover have "m_txOpened (w_srv w) = m_txClosed (w_srv w) + card {i. \<exists>s. w_sessions w i = Some s \<and> s_tx s \<noteq> None}"
    using t txs by linarith
  ultimately show ?thesis using q(2) by blast
qed

text \<open>
  Property C6. What authentication guards, in every state a server can reach. Of the calls into the
  engine in the trace of a session: a statement, a BEGIN and a COMMIT are made only for a client that
  is authenticated at that moment (an earlier successful authentication, no later LOGOFF or failed
  re-authentication in between); a rollback is made only after a BEGIN, itself made under
  authentication, that no rollback has followed yet, and a cursor is closed only after a statement
  was run, although these two may come when the client is no longer authenticated (a RESET or a
  failure after LOGOFF, the teardown of the connection, whose calls are included). Every identity
  a session has had is one the authentication handler answered for some credentials, and an
  authenticated session carries the last of them. Each request of a client that is not authenticated
  (RUN, PULL, DISCARD, BEGIN, COMMIT, ROLLBACK, ROUTE) is answered by exactly one FAILURE and no
  record and leaves the session FAILED, with no engine call but the ends of what the session held.
\<close>

theorem bolt_engine_calls_authenticated:
  assumes "served limit A w" and "w_sessions w i = Some s"
  shows "guarded (accepted A) (s_trace s) \<and> guarded (accepted A) (s_trace (Close (load w s))) \<and>
    auth_of (s_trace s) = (if s_authenticated s then Some (s_identity s) else None) \<and>
    (\<not> s_authenticated s \<and> request_phase m \<longrightarrow>
      (\<exists>code text s'. serve_message e m (load w s) = (([], Respond [Failure code text]), s') \<and>
         s_state s' = StateFailed \<and> (\<exists>new. s_trace s' = new @ s_trace s \<and> list_all closing new)))"
proof -
  have inv: "session_inv (load w s)" "close_ok (load w s)" and ok: "auth_ok A s"
    using served_session_inv [OF assms] served_auth [OF assms] by (simp_all add: load_def)
  have "auth_ok A (Close (load w s))" using ok by (simp add: Close_def load_def)
  moreover have "close_ok (Close (load w s))" using inv(2) by (rule close_ends)
  moreover have "\<exists>code text s'. serve_message e m (load w s) = (([], Respond [Failure code text]), s') \<and>
      s_state s' = StateFailed \<and> (\<exists>new. s_trace s' = new @ s_trace s \<and> list_all closing new)"
    if "\<not> s_authenticated s" "request_phase m"
    using unauthenticated_refused [OF inv(1) _ that(2), of e] that(1) by (simp add: load_def only_closes_def answer_def)
  ultimately show ?thesis using ok inv(2) by (simp add: guarded_halves auth_ok_def close_ok_def load_def)
qed

text \<open>
  Property C27. In every reachable state each session is well formed: a transaction is open exactly in
  TX_READY and TX_STREAMING, a cursor exactly in STREAMING and TX_STREAMING, a quota slot and a
  registry handle exactly while a transaction is open, a pending FAILURE only in FAILED (or after it
  in DEFUNCT). So no message makes a handler call a method of an absent cursor.
\<close>

theorem bolt_sessions_well_formed:
  assumes "0 < limit" and "served limit A w" and "w_sessions w i = Some s"
  shows "session_inv s \<and> (s_state s \<noteq> StateDefunct \<longrightarrow> snd (fst (serve_message e m (load w s))) \<noteq> NilPanic)"
proof -
  have inv: "session_inv s" using served_inv [OF assms(2,1)] assms(3) by (simp add: world_inv_def)
  with serve_message_stays [of "load w s" e m] show ?thesis by (simp add: stays_def)
qed

subsection \<open>A sample run\<close>

text \<open>One connection authenticates and opens a transaction.\<close>

definition exchange :: "nat \<Rightarrow> request \<Rightarrow> world \<Rightarrow> world" where
  "exchange i m w = (case w_sessions w i of None \<Rightarrow> w | Some s \<Rightarrow> store i (snd (serve_message sample_env m (load w s))) w)"

definition sample_world :: world where
  "sample_world = exchange 0 (Begin []) (exchange 0 (Hello [(str ''principal'', PString (str ''neo''))])
     (store 0 (newSession sample_cfg (w_srv newServer)) newServer))"

definition live :: "world \<Rightarrow> bool" where
  "live w \<longleftrightarrow> (case w_sessions w 0 of None \<Rightarrow> False | Some s \<Rightarrow> s_state s \<noteq> StateDefunct)"

lemma exchange_step:
  assumes "served 1 NoAuthHandler_Authenticate w" and "live w"
  shows "served 1 NoAuthHandler_Authenticate (exchange 0 m w)"
proof -
  obtain s where s: "w_sessions w 0 = Some s" "s_state s \<noteq> StateDefunct" using assms(2) by (auto simp: live_def split: option.splits)
  have "serve_step 1 NoAuthHandler_Authenticate w (exchange 0 m w)"
    using serve_step.message [OF s, of sample_env NoAuthHandler_Authenticate 1 m] s by (simp add: exchange_def sample_env_def)
  with assms(1) show ?thesis by (rule rtranclp.rtrancl_into_rtrancl)
qed

lemma sample_served: "served 1 NoAuthHandler_Authenticate sample_world"
proof -
  let ?w1 = "store 0 (newSession sample_cfg (w_srv newServer)) newServer"
  have "serve_step 1 NoAuthHandler_Authenticate newServer ?w1"
    by (rule serve_step.connect) (simp_all add: newServer_def sample_cfg_def)
  then have 1: "served 1 NoAuthHandler_Authenticate ?w1" by (rule r_into_rtranclp)
  have "live ?w1" "live (exchange 0 (Hello [(str ''principal'', PString (str ''neo''))]) ?w1)" by code_simp+
  with exchange_step [OF exchange_step [OF 1]] show ?thesis by (simp add: sample_world_def)
qed

lemma sample_open: "\<exists>s. w_sessions sample_world 0 = Some s \<and> s_state s = StateTxReady"
proof -
  have "(case w_sessions sample_world 0 of None \<Rightarrow> False | Some s \<Rightarrow> s_state s = StateTxReady)" by code_simp
  then show ?thesis by (auto split: option.splits)
qed

theorem bolt_transactions_accounted_witness:
  "served 1 NoAuthHandler_Authenticate sample_world \<and> q_open (w_srv sample_world) (str ''neo'') = 1 \<and>
   q_open (w_srv sample_world) (str ''neo'') =
     card {i. \<exists>s. w_sessions sample_world i = Some s \<and> s_tx s \<noteq> None \<and> s_txQuotaPrincipal s = str ''neo''}"
proof -
  have "q_open (w_srv sample_world) (str ''neo'') = 1" by code_simp
  moreover note bolt_transactions_accounted [of 1 NoAuthHandler_Authenticate sample_world]
  ultimately show ?thesis using sample_served by simp
qed

text \<open>The client logs off inside its transaction; then its ROLLBACK is refused, and a RESET ends the
  transaction.\<close>

definition logged_off :: world where
  "logged_off = exchange 0 Logoff sample_world"

lemma logged_off_served:
  "served 1 NoAuthHandler_Authenticate logged_off" "served 1 NoAuthHandler_Authenticate (exchange 0 Reset logged_off)"
proof -
  have "live sample_world" "live (exchange 0 Logoff sample_world)" by code_simp+
  with exchange_step [OF sample_served] exchange_step [OF exchange_step [OF sample_served]]
  show "served 1 NoAuthHandler_Authenticate logged_off" "served 1 NoAuthHandler_Authenticate (exchange 0 Reset logged_off)"
    by (simp_all add: logged_off_def)
qed

theorem bolt_engine_calls_authenticated_witness:
  "(\<exists>s. w_sessions logged_off 0 = Some s \<and> \<not> s_authenticated s \<and>
     (\<exists>code text s'. serve_message sample_env Rollback (load logged_off s) = (([], Respond [Failure code text]), s')
        \<and> s_state s' = StateFailed)) \<and>
   (\<exists>s. w_sessions (exchange 0 Reset logged_off) 0 = Some s \<and>
     s_trace s = [EvRollback, EvDeauth, EvBegin (str ''w''), EvAuth (str ''neo'')] \<and>
     guarded (accepted NoAuthHandler_Authenticate) (s_trace s))"
proof -
  have "(case w_sessions logged_off 0 of None \<Rightarrow> False | Some s \<Rightarrow> \<not> s_authenticated s)" by code_simp
  then obtain s where s: "w_sessions logged_off 0 = Some s" "\<not> s_authenticated s" by (auto split: option.splits)
  have "(case w_sessions (exchange 0 Reset logged_off) 0 of None \<Rightarrow> False
      | Some s \<Rightarrow> s_trace s = [EvRollback, EvDeauth, EvBegin (str ''w''), EvAuth (str ''neo'')])" by code_simp
  then obtain t where t: "w_sessions (exchange 0 Reset logged_off) 0 = Some t"
    "s_trace t = [EvRollback, EvDeauth, EvBegin (str ''w''), EvAuth (str ''neo'')]" by (auto split: option.splits)
  show ?thesis
    using bolt_engine_calls_authenticated [OF logged_off_served(1) s(1), of Rollback sample_env]
      bolt_engine_calls_authenticated [OF logged_off_served(2) t(1)] s t by auto
qed

theorem bolt_sessions_well_formed_witness:
  "\<exists>s. w_sessions sample_world 0 = Some s \<and> s_state s = StateTxReady \<and> session_inv s
     \<and> snd (fst (serve_message sample_env Commit (load sample_world s))) \<noteq> NilPanic"
proof -
  obtain s where s: "w_sessions sample_world 0 = Some s" "s_state s = StateTxReady" using sample_open by blast
  then show ?thesis using bolt_sessions_well_formed [OF _ sample_served s(1), of sample_env Commit] by simp
qed

end
