(* ===== verification/Go_Arrays.thy ===== *)
theory Go_Arrays
  imports Prelude
begin

text \<open>
  Arrays and loops as the algorithms of \<open>ds\<close> and \<open>search\<close> use them: an index out of range is the error
  \<open>Panic\<close>, a loop over a range stops at the first error of its body, and a computation that may run
  forever is an option, \<open>None\<close> when it does.
\<close>

datatype search_error = Panic | ErrInvalidInput | ErrNegativeCycle | ErrCycle | ErrCancelled

subsection \<open>Checked arrays and loops\<close>

definition read_at :: "'a list \<Rightarrow> nat \<Rightarrow> (search_error, 'a) result" where
  "read_at xs i = (if i < length xs then Inr (xs ! i) else Inl Panic)"

definition write_at :: "'a list \<Rightarrow> nat \<Rightarrow> 'a \<Rightarrow> (search_error, 'a list) result" where
  "write_at xs i v = (if i < length xs then Inr (xs[i := v]) else Inl Panic)"

lemma read_at_ok [simp]: "i < length xs \<Longrightarrow> read_at xs i = Inr (xs ! i)"
  by (simp add: read_at_def)

lemma write_at_ok [simp]: "i < length xs \<Longrightarrow> write_at xs i v = Inr (xs[i := v])"
  by (simp add: write_at_def)

text \<open>A loop over a range whose body may fail.\<close>

primrec each :: "'a list \<Rightarrow> ('a \<Rightarrow> 's \<Rightarrow> ('e, 's) result) \<Rightarrow> 's \<Rightarrow> ('e, 's) result" where
  "each [] body s = Inr s"
| "each (x # xs) body s = result_bind (body x s) (each xs body)"

lemma each_append: "each (xs @ ys) body s = result_bind (each xs body s) (each ys body)"
  by (induction xs arbitrary: s) (simp_all add: result_bind_def split: sum.split)

lemma each_inv:
  assumes "P [] s"
    and "\<And>ys x zs s. xs = ys @ x # zs \<Longrightarrow> P ys s \<Longrightarrow> \<exists>s'. body x s = Inr s' \<and> P (ys @ [x]) s'"
  shows "\<exists>s'. each xs body s = Inr s' \<and> P xs s'"
proof -
  have "\<exists>s'. each ys body s = Inr s' \<and> P ys s'" if "xs = ys @ zs" for ys zs
    using that
  proof (induction ys arbitrary: zs rule: rev_induct)
    case Nil
    then show ?case using assms(1) by simp
  next
    case (snoc y ys)
    from snoc.IH [of "y # zs"] snoc.prems obtain s' where s': "each ys body s = Inr s'" "P ys s'" by auto
    from assms(2) [of ys y zs s'] snoc.prems s'(2) obtain t where "body y s' = Inr t" "P (ys @ [y]) t" by auto
    with s'(1) show ?case by (simp add: each_append result_bind_def)
  qed
  then show ?thesis by simp
qed

text \<open>The same where the body may stop with an error the property allows.\<close>

lemma each_inv_err:
  assumes "P [] s"
    and "\<And>ys x zs s. xs = ys @ x # zs \<Longrightarrow> P ys s \<Longrightarrow> (case body x s of Inl e \<Rightarrow> Q e | Inr s' \<Rightarrow> P (ys @ [x]) s')"
  shows "case each xs body s of Inl e \<Rightarrow> Q e | Inr s' \<Rightarrow> P xs s'"
proof -
  have "case each ys body s of Inl e \<Rightarrow> Q e | Inr s' \<Rightarrow> P ys s'" if "xs = ys @ zs" for ys zs
    using that
  proof (induction ys arbitrary: zs rule: rev_induct)
    case Nil
    then show ?case using assms(1) by simp
  next
    case (snoc y ys)
    have ih: "case each ys body s of Inl e \<Rightarrow> Q e | Inr s' \<Rightarrow> P ys s'" using snoc.IH [of "y # zs"] snoc.prems by simp
    show ?case
    proof (cases "each ys body s")
      case (Inl e)
      then show ?thesis using ih by (simp add: each_append result_bind_def)
    next
      case (Inr s')
      then have "case body y s' of Inl e \<Rightarrow> Q e | Inr t \<Rightarrow> P (ys @ [y]) t" using assms(2) [of ys y zs s'] snoc.prems ih by simp
      then show ?thesis using Inr by (simp add: each_append result_bind_def split: sum.splits)
    qed
  qed
  then show ?thesis by simp
qed

text \<open>The context is polled once every 4096 turns of a loop.\<close>

definition polled :: "(nat \<Rightarrow> bool) \<Rightarrow> nat \<Rightarrow> bool" where
  "polled cancelled yieldCtr = (if cancelled yieldCtr then yieldCtr AND 0xFFF = 0 else False)"

text \<open>Sequencing of computations that may fail or not return.\<close>

definition obind :: "('e, 'a) result option \<Rightarrow> ('a \<Rightarrow> ('e, 'b) result option) \<Rightarrow> ('e, 'b) result option" where
  "obind m f = (case m of None \<Rightarrow> None | Some (Inl e) \<Rightarrow> Some (Inl e) | Some (Inr v) \<Rightarrow> f v)"

lemma obind_simps [simp]: "obind (Some (Inr v)) f = f v" "obind (Some (Inl e)) f = Some (Inl e)" "obind None f = None"
  by (simp_all add: obind_def)

primrec oeach :: "'a list \<Rightarrow> ('a \<Rightarrow> 's \<Rightarrow> ('e, 's) result option) \<Rightarrow> 's \<Rightarrow> ('e, 's) result option" where
  "oeach [] body s = Some (Inr s)"
| "oeach (x # xs) body s = obind (body x s) (oeach xs body)"

lemma oeach_append: "oeach (xs @ ys) body s = obind (oeach xs body s) (oeach ys body)"
  by (induction xs arbitrary: s) (simp_all add: obind_def split: option.split sum.split)

lemma oeach_inv:
  assumes "P [] s"
    and "\<And>ys x zs s. xs = ys @ x # zs \<Longrightarrow> P ys s \<Longrightarrow> \<exists>s'. body x s = Some (Inr s') \<and> P (ys @ [x]) s'"
  shows "\<exists>s'. oeach xs body s = Some (Inr s') \<and> P xs s'"
proof -
  have "\<exists>s'. oeach ys body s = Some (Inr s') \<and> P ys s'" if "xs = ys @ zs" for ys zs
    using that
  proof (induction ys arbitrary: zs rule: rev_induct)
    case Nil
    then show ?case using assms(1) by simp
  next
    case (snoc y ys)
    from snoc.IH [of "y # zs"] snoc.prems obtain s' where s': "oeach ys body s = Some (Inr s')" "P ys s'" by auto
    from assms(2) [of ys y zs s'] snoc.prems s'(2) obtain t where "body y s' = Some (Inr t)" "P (ys @ [y]) t" by auto
    with s'(1) show ?case by (simp add: oeach_append)
  qed
  then show ?thesis by simp
qed

lemma upt_split: "[0..<n] = ys @ u # zs \<Longrightarrow> ys = [0..<u] \<and> u < n"
proof -
  assume h: "[0..<n] = ys @ u # zs"
  have len: "length ys < n" using arg_cong [OF h, of length] by simp
  then have u: "u = length ys" using arg_cong [OF h, of "\<lambda>l. l ! length ys"] by simp
  have "ys = take (length ys) [0..<n]" using h by simp
  then have "ys = [0..<length ys]" using len by (simp add: min_def)
  then show ?thesis using u len by simp
qed

end
