(* ===== verification/Graph_CSR.thy ===== *)
theory Graph_CSR
  imports Go_Arrays
begin

text \<open>
  The compressed-sparse-row snapshot of a graph (\<open>graph/csr/csr.go\<close>) the search algorithms run on. A
  \<open>NodeID\<close> and an offset are natural numbers, a nil slice is \<open>None\<close> or the empty list. An index out of
  range is the error \<open>Panic\<close>, as in every theory on \<open>search\<close>.
\<close>

subsection \<open>Snapshots\<close>

record 'w csr =
  csr_vertices :: "nat list"
  csr_edges :: "nat list"
  csr_weights :: "'w list option"
  csr_order :: nat
  csr_size :: nat
  csr_symmetric :: bool

definition FromArrays :: "nat list \<Rightarrow> nat list \<Rightarrow> 'w list option \<Rightarrow> nat \<Rightarrow> nat \<Rightarrow> 'w csr" where
  "FromArrays vertices edges weights ord sz = \<lparr>csr_vertices = vertices, csr_edges = edges, csr_weights = weights,
     csr_order = ord, csr_size = sz, csr_symmetric = False\<rparr>"

datatype csr_error = ErrMalformedCSR

definition Validate :: "'w csr \<Rightarrow> csr_error option" where
  "Validate c =
     (let vs = csr_vertices c; es = csr_edges c; last = length vs - 1
      in if vs = [] then Some ErrMalformedCSR
         else if length es \<noteq> vs ! last then Some ErrMalformedCSR
         else if \<exists>i\<in>set [1..<length vs]. vs ! i < vs ! (i - 1) then Some ErrMalformedCSR
         else if (case csr_weights c of None \<Rightarrow> False | Some ws \<Rightarrow> length ws \<noteq> length es) then Some ErrMalformedCSR
         else if \<exists>dst\<in>set es. dst \<ge> last then Some ErrMalformedCSR
         else None)"

definition MaxNodeID :: "'w csr \<Rightarrow> nat" where
  "MaxNodeID c = (if csr_vertices c = [] then 0 else length (csr_vertices c) - 1)"

text \<open>The weight of a slot: zero when the snapshot has no weights.\<close>

definition weight_at :: "'w::zero csr \<Rightarrow> nat \<Rightarrow> (search_error, 'w) result" where
  "weight_at c k = (case csr_weights c of None \<Rightarrow> Inr 0 | Some ws \<Rightarrow> read_at ws k)"

text \<open>The out-neighbours of a node with their weights, none outside the snapshot.\<close>

definition NeighboursByID :: "'w::zero csr \<Rightarrow> u64 \<Rightarrow> (search_error, (nat \<times> 'w) list) result" where
  "NeighboursByID c src =
     (if src + 1 \<ge> word_of_nat (length (csr_vertices c)) then Inr []
      else result_bind (read_at (csr_vertices c) (unat src)) (\<lambda>st.
        result_bind (read_at (csr_vertices c) (unat (src + 1))) (\<lambda>en.
          each [st..<en] (\<lambda>i out. result_bind (weight_at c i) (\<lambda>w.
            result_bind (read_at (csr_edges c) i) (\<lambda>v. Inr (out @ [(v, w)])))) [])))"

definition LiveMask :: "'w csr \<Rightarrow> (search_error, bool list) result" where
  "LiveMask c =
     (let maxID = MaxNodeID c
      in if maxID = 0 then Inr []
         else each [0..<maxID] (\<lambda>from mask.
           result_bind (read_at (csr_vertices c) from) (\<lambda>st.
           result_bind (read_at (csr_vertices c) (from + 1)) (\<lambda>en.
             if en > st
             then result_bind (write_at mask from True) (\<lambda>m.
               each [st..<en] (\<lambda>k m. result_bind (read_at (csr_edges c) k) (\<lambda>v. write_at m v True)) m)
             else Inr mask))) (replicate maxID False))"

definition LiveNodes :: "'w csr \<Rightarrow> (search_error, nat list) result" where
  "LiveNodes c = result_bind (LiveMask c) (\<lambda>mask. Inr (filter (\<lambda>i. mask ! i) [0..<length mask]))"

definition LiveCount :: "'w csr \<Rightarrow> (search_error, nat) result" where
  "LiveCount c = result_bind (LiveMask c) (\<lambda>mask. Inr (length (filter (\<lambda>b. b) mask)))"

subsection \<open>The graph of a snapshot\<close>

definition slots :: "'w csr \<Rightarrow> nat \<Rightarrow> nat list" where
  "slots c u = [csr_vertices c ! u..<csr_vertices c ! (u + 1)]"

definition slot_weight :: "'w::zero csr \<Rightarrow> nat \<Rightarrow> 'w" where
  "slot_weight c k = (case csr_weights c of None \<Rightarrow> 0 | Some ws \<Rightarrow> ws ! k)"

definition arcs :: "'w::zero csr \<Rightarrow> (nat \<times> 'w \<times> nat) set" where
  "arcs c = {(u, slot_weight c k, csr_edges c ! k) |u k. u < MaxNodeID c \<and> k \<in> set (slots c u)}"

definition links :: "'w csr \<Rightarrow> (nat \<times> nat) set" where
  "links c = {(u, csr_edges c ! k) |u k. u < MaxNodeID c \<and> k \<in> set (slots c u)}"

definition well_formed :: "'w csr \<Rightarrow> bool" where
  "well_formed c \<longleftrightarrow> Validate c = None"

lemma well_formed_iff:
  "well_formed c \<longleftrightarrow> csr_vertices c \<noteq> [] \<and> length (csr_edges c) = csr_vertices c ! MaxNodeID c
     \<and> (\<forall>i<MaxNodeID c. csr_vertices c ! i \<le> csr_vertices c ! Suc i)
     \<and> (\<forall>ws. csr_weights c = Some ws \<longrightarrow> length ws = length (csr_edges c))
     \<and> (\<forall>v\<in>set (csr_edges c). v < MaxNodeID c)"
proof -
  have mono: "(\<forall>i\<in>set [1..<length vs]. \<not> vs ! i < vs ! (i - 1)) \<longleftrightarrow> (\<forall>i<length vs - 1. vs ! i \<le> vs ! Suc i)" for vs :: "nat list"
  proof
    assume h: "\<forall>i\<in>set [1..<length vs]. \<not> vs ! i < vs ! (i - 1)"
    show "\<forall>i<length vs - 1. vs ! i \<le> vs ! Suc i"
    proof (intro allI impI)
      fix i assume "i < length vs - 1"
      then show "vs ! i \<le> vs ! Suc i" using h [rule_format, of "Suc i"] by (simp add: not_less)
    qed
  next
    assume h: "\<forall>i<length vs - 1. vs ! i \<le> vs ! Suc i"
    show "\<forall>i\<in>set [1..<length vs]. \<not> vs ! i < vs ! (i - 1)"
    proof
      fix i assume "i \<in> set [1..<length vs]"
      then have "i - 1 < length vs - 1" "Suc (i - 1) = i" by auto
      then show "\<not> vs ! i < vs ! (i - 1)" using h [rule_format, of "i - 1"] by simp
    qed
  qed
  show ?thesis
    using mono [of "csr_vertices c"]
    by (auto simp: well_formed_def Validate_def MaxNodeID_def Let_def not_less split: option.splits)
qed

lemma vertices_mono:
  assumes "well_formed c" and "i \<le> j" and "j \<le> MaxNodeID c"
  shows "csr_vertices c ! i \<le> csr_vertices c ! j"
  using assms(2,3)
proof (induction j)
  case (Suc j)
  show ?case
  proof (cases "i = Suc j")
    case False
    then have "csr_vertices c ! i \<le> csr_vertices c ! j" using Suc by simp
    also have "\<dots> \<le> csr_vertices c ! Suc j" using assms(1) Suc.prems(2) by (simp add: well_formed_iff)
    finally show ?thesis .
  qed simp
qed simp

lemma length_vertices: "well_formed c \<Longrightarrow> length (csr_vertices c) = Suc (MaxNodeID c)"
  by (cases "csr_vertices c") (simp_all add: well_formed_iff MaxNodeID_def)

lemma slots_range:
  assumes "well_formed c" and "u < MaxNodeID c" and "k \<in> set (slots c u)"
  shows "k < length (csr_edges c)" "csr_edges c ! k < MaxNodeID c"
proof -
  have "csr_vertices c ! (u + 1) \<le> csr_vertices c ! MaxNodeID c" using vertices_mono [OF assms(1), of "u + 1" "MaxNodeID c"] assms(2) by simp
  then show k: "k < length (csr_edges c)" using assms by (auto simp: slots_def well_formed_iff)
  then show "csr_edges c ! k < MaxNodeID c" using assms(1) by (simp add: well_formed_iff)
qed

lemma weight_at_ok:
  "well_formed c \<Longrightarrow> u < MaxNodeID c \<Longrightarrow> k \<in> set (slots c u) \<Longrightarrow> weight_at c k = Inr (slot_weight c k)"
  using slots_range(1) [of c u k] by (cases "csr_weights c") (simp_all add: weight_at_def slot_weight_def well_formed_iff)

lemma arcs_range: "well_formed c \<Longrightarrow> (u, w, v) \<in> arcs c \<Longrightarrow> u < MaxNodeID c \<and> v < MaxNodeID c"
  by (auto simp: arcs_def slots_range)

lemma links_range: "well_formed c \<Longrightarrow> (u, v) \<in> links c \<Longrightarrow> u < MaxNodeID c \<and> v < MaxNodeID c"
  by (auto simp: links_def slots_range)

lemma links_arcs: "links c = {(u, v). \<exists>w. (u, w, v) \<in> arcs c}"
  by (auto simp: links_def arcs_def)

text \<open>A node with an incident arc.\<close>

definition live :: "'w csr \<Rightarrow> nat \<Rightarrow> bool" where
  "live c i \<longleftrightarrow> (\<exists>v. (i, v) \<in> links c \<or> (v, i) \<in> links c)"

lemma LiveMask_ok:
  assumes wf: "well_formed c"
  shows "\<exists>mask. LiveMask c = Inr mask \<and> length mask = MaxNodeID c \<and> (\<forall>i<MaxNodeID c. mask ! i \<longleftrightarrow> live c i)"
proof (cases "MaxNodeID c = 0")
  case True
  then show ?thesis by (simp add: LiveMask_def)
next
  case False
  let ?n = "MaxNodeID c" and ?vs = "csr_vertices c" and ?es = "csr_edges c"
  define touched where "touched us i \<longleftrightarrow> (\<exists>u\<in>set us. \<exists>k\<in>set (slots c u). i = u \<or> i = ?es ! k)" for us i
  let ?P = "\<lambda>us (mask :: bool list). length mask = ?n \<and> (\<forall>i<?n. mask ! i \<longleftrightarrow> touched us i)"
  let ?inner = "\<lambda>k m. result_bind (read_at ?es k) (\<lambda>v. write_at m v True)"
  let ?body = "\<lambda>from mask. result_bind (read_at ?vs from) (\<lambda>st. result_bind (read_at ?vs (from + 1)) (\<lambda>en.
     if en > st then result_bind (write_at mask from True) (\<lambda>m. each [st..<en] ?inner m) else Inr mask))"
  have inner: "\<exists>m'. each (slots c u) ?inner m = Inr m' \<and> length m' = ?n \<and> (\<forall>i<?n. m' ! i \<longleftrightarrow> m ! i \<or> (\<exists>k\<in>set (slots c u). i = ?es ! k))"
    if "u < ?n" "length m = ?n" for u and m :: "bool list"
  proof -
    have "\<exists>m'. each (slots c u) ?inner m = Inr m' \<and> (length m' = ?n \<and> (\<forall>i<?n. m' ! i \<longleftrightarrow> m ! i \<or> (\<exists>k\<in>set (slots c u). i = ?es ! k)))"
    proof (rule each_inv [where P = "\<lambda>ks m'. length m' = ?n \<and> (\<forall>i<?n. m' ! i \<longleftrightarrow> m ! i \<or> (\<exists>k\<in>set ks. i = ?es ! k))"])
      fix ys k zs and m' :: "bool list"
      assume e: "slots c u = ys @ k # zs" and p: "length m' = ?n \<and> (\<forall>i<?n. m' ! i \<longleftrightarrow> m ! i \<or> (\<exists>k\<in>set ys. i = ?es ! k))"
      have k: "k < length ?es" "?es ! k < ?n" using slots_range [OF wf that(1), of k] e by simp_all
      then show "\<exists>m''. ?inner k m' = Inr m'' \<and> length m'' = ?n \<and> (\<forall>i<?n. m'' ! i \<longleftrightarrow> m ! i \<or> (\<exists>k\<in>set (ys @ [k]). i = ?es ! k))"
        using p by (auto simp: result_bind_def nth_list_update)
    qed (use that in simp)
    then show ?thesis by simp
  qed
  have "\<exists>mask. each [0..<?n] ?body (replicate ?n False) = Inr mask \<and> ?P [0..<?n] mask"
  proof (rule each_inv [where P = ?P])
    show "?P [] (replicate ?n False)" by (simp add: touched_def)
  next
    fix ys u zs and mask :: "bool list"
    assume e: "[0..<?n] = ys @ u # zs" and p: "?P ys mask"
    have u: "u < ?n" using e by (metis atLeastLessThan_iff in_set_conv_decomp set_upt)
    have rd: "read_at ?vs u = Inr (?vs ! u)" "read_at ?vs (u + 1) = Inr (?vs ! (u + 1))"
      using u length_vertices [OF wf] by simp_all
    obtain m' where m': "each (slots c u) ?inner (mask[u := True]) = Inr m'" "length m' = ?n"
      "\<forall>i<?n. m' ! i \<longleftrightarrow> mask[u := True] ! i \<or> (\<exists>k\<in>set (slots c u). i = ?es ! k)"
      using inner [OF u, of "mask[u := True]"] p by auto
    have t: "touched (ys @ [u]) i \<longleftrightarrow> touched ys i \<or> (slots c u \<noteq> [] \<and> (i = u \<or> (\<exists>k\<in>set (slots c u). i = ?es ! k)))" for i
      unfolding touched_def by (cases "slots c u") auto
    show "\<exists>mask'. ?body u mask = Inr mask' \<and> ?P (ys @ [u]) mask'"
    proof (cases "?vs ! u < ?vs ! (u + 1)")
      case True
      then have "?body u mask = Inr m'" using rd u p m'(1) by (simp add: result_bind_def slots_def)
      moreover have "slots c u \<noteq> []" using True by (simp add: slots_def)
      ultimately show ?thesis using m'(2,3) p u t by (auto simp: nth_list_update)
    next
      case False
      then have "slots c u = []" by (simp add: slots_def)
      then show ?thesis using rd False p t by (simp add: result_bind_def)
    qed
  qed
  moreover have "touched [0..<?n] i \<longleftrightarrow> live c i" for i
    unfolding touched_def live_def links_def by (auto, blast+)
  ultimately show ?thesis using False by (simp add: LiveMask_def Let_def)
qed

text \<open>The bound check of \<open>NeighboursByID\<close> wraps around at the largest NodeID.\<close>

theorem NeighboursByID_wraps:
  assumes "csr_vertices c \<noteq> []" and "length (csr_vertices c) < 2 ^ 64"
  shows "NeighboursByID c (- 1) = Inl Panic"
proof -
  have "unat (word_of_nat (length (csr_vertices c)) :: u64) = length (csr_vertices c)"
    using assms(2) by (simp add: unat_of_nat)
  then have "(word_of_nat (length (csr_vertices c)) :: u64) \<noteq> 0" using assms(1) by (metis length_0_conv unat_0)
  moreover have "unat (- 1 :: u64) = 2 ^ 64 - 1" by (simp add: unsigned_minus_1_eq_mask mask_eq_exp_minus_1)
  ultimately show ?thesis using assms(2) by (simp add: NeighboursByID_def read_at_def result_bind_def)
qed

end
