(* ===== verification/Search_Deque.thy ===== *)
theory Search_Deque
  imports Graph_CSR
begin

text \<open>
  The circular deque of \<open>search/bellman_ford.go\<close>: a buffer whose length is a power of two, with a head
  and a tail index that wrap by a bit mask. It implements a list as long as it is not filled.
\<close>

record ring =
  rb_buf :: "nat list"
  rb_head :: nat
  rb_tail :: nat

text \<open>The smallest power of two above the number of nodes, at least eight; \<open>b\<close> is never zero.\<close>

function grow_buf :: "nat \<Rightarrow> nat \<Rightarrow> nat" where
  "grow_buf maxID b = (if 0 < b \<and> b < maxID + 1 then grow_buf maxID (push_bit 1 b) else b)"
  by pat_completeness auto
termination
  by (relation "measure (\<lambda>(maxID, b). maxID + 1 - b)") (auto simp: push_bit_eq_mult)

declare grow_buf.simps [simp del]

definition bufSize :: "nat \<Rightarrow> nat" where
  "bufSize maxID = (let b = grow_buf maxID 1 in if b < 8 then 8 else b)"

text \<open>Go's \<open>(i + d) & mask\<close> on ints.\<close>

definition ring_index :: "ring \<Rightarrow> int \<Rightarrow> nat" where
  "ring_index r i = nat (i AND (int (length (rb_buf r)) - 1))"

definition new_ring :: "nat \<Rightarrow> ring" where
  "new_ring maxID = \<lparr>rb_buf = replicate (bufSize maxID) 0, rb_head = 0, rb_tail = 0\<rparr>"

definition ring_empty :: "ring \<Rightarrow> bool" where
  "ring_empty r \<longleftrightarrow> rb_head r = rb_tail r"

definition ring_front :: "ring \<Rightarrow> nat" where
  "ring_front r = rb_buf r ! rb_head r"

definition pop_front :: "ring \<Rightarrow> ring" where
  "pop_front r = r\<lparr>rb_head := ring_index r (int (rb_head r) + 1)\<rparr>"

definition push_back :: "nat \<Rightarrow> ring \<Rightarrow> ring" where
  "push_back x r = r\<lparr>rb_buf := (rb_buf r)[rb_tail r := x], rb_tail := ring_index r (int (rb_tail r) + 1)\<rparr>"

definition push_front :: "nat \<Rightarrow> ring \<Rightarrow> ring" where
  "push_front x r =
     (let h = ring_index r (int (rb_head r) - 1) in r\<lparr>rb_head := h, rb_buf := (rb_buf r)[h := x]\<rparr>)"

subsection \<open>The list it holds\<close>

definition ring_length :: "ring \<Rightarrow> nat" where
  "ring_length r = (rb_tail r + length (rb_buf r) - rb_head r) mod length (rb_buf r)"

definition ring_list :: "ring \<Rightarrow> nat list" where
  "ring_list r = map (\<lambda>i. rb_buf r ! ((rb_head r + i) mod length (rb_buf r))) [0..<ring_length r]"

definition ring_ok :: "ring \<Rightarrow> bool" where
  "ring_ok r \<longleftrightarrow> (\<exists>k. length (rb_buf r) = 2 ^ k) \<and> rb_head r < length (rb_buf r) \<and> rb_tail r < length (rb_buf r)"

lemma ring_index_mod:
  assumes "ring_ok r"
  shows "ring_index r i = nat (i mod int (length (rb_buf r)))"
proof -
  obtain k where k: "length (rb_buf r) = 2 ^ k" using assms by (auto simp: ring_ok_def)
  have "(2 ^ k - 1 :: int) = mask k" by (simp add: mask_eq_exp_minus_1)
  then show ?thesis using k by (simp add: ring_index_def take_bit_eq_mask [symmetric] take_bit_eq_mod)
qed

lemma ring_index_simps:
  assumes "ring_ok r"
  shows "ring_index r (int i + 1) = (i + 1) mod length (rb_buf r)"
    "i < length (rb_buf r) \<Longrightarrow> ring_index r (int i - 1) = (i + length (rb_buf r) - 1) mod length (rb_buf r)"
proof -
  let ?n = "length (rb_buf r)"
  have "int i + 1 = int (i + 1)" by simp
  then show "ring_index r (int i + 1) = (i + 1) mod ?n"
    unfolding ring_index_mod [OF assms] by (metis nat_int zmod_int)
  assume "i < ?n"
  then have "int (i + ?n - 1) = (int i - 1) + int ?n" by simp
  then have "(int i - 1) mod int ?n = int (i + ?n - 1) mod int ?n" by (simp only: mod_add_self2)
  then show "ring_index r (int i - 1) = (i + ?n - 1) mod ?n"
    unfolding ring_index_mod [OF assms] by (metis nat_int zmod_int)
qed

lemma ring_length_bound: "ring_ok r \<Longrightarrow> ring_length r < length (rb_buf r)"
  by (auto simp: ring_ok_def ring_length_def)

lemma ring_length_list [simp]: "length (ring_list r) = ring_length r"
  by (simp add: ring_list_def)

lemma wrap_cases: "(a :: nat) < n \<Longrightarrow> b < n \<Longrightarrow> (a + n - b) mod n = (if b \<le> a then a - b else a + n - b)"
  by (auto simp: le_mod_geq)

lemma mod_once: "(m :: nat) < 2 * n \<Longrightarrow> m mod n = (if m < n then m else m - n)"
  by (auto simp: le_mod_geq)

lemma mod_below: "(a :: nat) < n \<Longrightarrow> b mod n < n"
  by simp

lemma ring_list_empty: "ring_ok r \<Longrightarrow> ring_empty r \<longleftrightarrow> ring_list r = []"
  by (auto simp: ring_ok_def ring_empty_def ring_list_def ring_length_def wrap_cases)

lemma new_ring_ok: "ring_ok (new_ring n)" "ring_list (new_ring n) = []" "n < length (rb_buf (new_ring n))"
proof -
  have "\<exists>k. grow_buf n (2 ^ j) = 2 ^ k" "n < grow_buf n (2 ^ j)" for j
  proof (induction "n + 1 - 2 ^ j" arbitrary: j rule: less_induct)
    case less
    have step: "grow_buf n (2 ^ j) = (if 2 ^ j < n + 1 then grow_buf n (2 ^ (Suc j)) else 2 ^ j)"
      by (subst grow_buf.simps) (simp add: push_bit_eq_mult mult.commute)
    have m: "n + 1 - 2 ^ Suc j < n + 1 - 2 ^ j" if "2 ^ j < n + 1"
    proof -
      have "(0 :: nat) < 2 ^ j" by simp
      then show ?thesis using that unfolding power_Suc by linarith
    qed
    { case 1 then show ?case using less(1) [OF m] step by (cases "2 ^ j < n + 1") auto }
    { case 2 then show ?case using less(2) [OF m] step by (cases "2 ^ j < n + 1") auto }
  qed
  from this [of 0] have b: "\<exists>k. grow_buf n 1 = 2 ^ k" "n < grow_buf n 1" by simp_all
  have "\<exists>k. (8 :: nat) = 2 ^ k" by (rule exI [of _ 3]) simp
  with b have "\<exists>k. bufSize n = 2 ^ k" "n < bufSize n" by (auto simp: bufSize_def Let_def)
  then show "ring_ok (new_ring n)" "ring_list (new_ring n) = []" "n < length (rb_buf (new_ring n))"
    by (auto simp: ring_ok_def new_ring_def ring_list_def ring_length_def)
qed

lemma pop_front_ok:
  assumes ok: "ring_ok r" and ne: "\<not> ring_empty r"
  shows "ring_ok (pop_front r)" "ring_list r = ring_front r # ring_list (pop_front r)" "length (rb_buf (pop_front r)) = length (rb_buf r)"
proof -
  let ?n = "length (rb_buf r)" and ?h = "rb_head r" and ?t = "rb_tail r"
  have b: "?h < ?n" "?t < ?n" "?h \<noteq> ?t" using assms by (auto simp: ring_ok_def ring_empty_def)
  define h where "h = (?h + 1) mod ?n"
  have hn: "h < ?n" "h = (if ?h + 1 = ?n then 0 else ?h + 1)" using b mod_below [OF b(1)] by (auto simp: h_def)
  have p: "pop_front r = r\<lparr>rb_head := h\<rparr>" by (simp add: pop_front_def ring_index_simps [OF ok] h_def)
  show "ring_ok (pop_front r)" using ok hn unfolding p ring_ok_def by simp
  show "length (rb_buf (pop_front r)) = ?n" by (simp add: p)
  have l: "ring_length r = Suc (ring_length (pop_front r))"
    using b hn by (auto simp: p ring_length_def wrap_cases split: if_splits)
  have e: "rb_buf r ! ((?h + Suc i) mod ?n) = rb_buf (pop_front r) ! ((rb_head (pop_front r) + i) mod ?n)" for i
    by (simp add: p h_def mod_add_left_eq)
  show "ring_list r = ring_front r # ring_list (pop_front r)"
    unfolding ring_list_def l upt_conv_Cons [OF zero_less_Suc] ring_front_def map_Suc_upt [symmetric]
    using b e by (simp add: p comp_def)
qed

lemma push_back_ok:
  assumes ok: "ring_ok r" and room: "Suc (ring_length r) < length (rb_buf r)"
  shows "ring_ok (push_back x r)" "ring_list (push_back x r) = ring_list r @ [x]" "length (rb_buf (push_back x r)) = length (rb_buf r)"
proof -
  let ?n = "length (rb_buf r)" and ?h = "rb_head r" and ?t = "rb_tail r"
  have b: "?h < ?n" "?t < ?n" using assms by (auto simp: ring_ok_def)
  define t where "t = (?t + 1) mod ?n"
  have tn: "t < ?n" "t = (if ?t + 1 = ?n then 0 else ?t + 1)" using b mod_below [OF b(1)] by (auto simp: t_def)
  have p: "push_back x r = r\<lparr>rb_buf := (rb_buf r)[?t := x], rb_tail := t\<rparr>"
    by (simp add: push_back_def ring_index_simps [OF ok] t_def)
  show "ring_ok (push_back x r)" using ok tn unfolding p ring_ok_def by simp
  show "length (rb_buf (push_back x r)) = ?n" by (simp add: p)
  have l: "ring_length (push_back x r) = Suc (ring_length r)"
    using b room tn by (auto simp: p ring_length_def wrap_cases split: if_splits)
  have u: "(?h + ring_length r) mod ?n = ?t" using b by (simp add: ring_length_def wrap_cases mod_once)
  have o: "(?h + i) mod ?n \<noteq> ?t" if "i < ring_length r" for i
    using that b by (auto simp: ring_length_def wrap_cases mod_once split: if_splits)
  show "ring_list (push_back x r) = ring_list r @ [x]"
  proof (rule nth_equalityI)
    fix i assume "i < length (ring_list (push_back x r))"
    then have i: "i < Suc (ring_length r)" by (simp add: l)
    show "ring_list (push_back x r) ! i = (ring_list r @ [x]) ! i"
      using i b u o [of i] l by (cases "i = ring_length r") (simp_all add: ring_list_def nth_append p)
  qed (simp add: l)
qed

lemma push_front_ok:
  assumes ok: "ring_ok r" and room: "Suc (ring_length r) < length (rb_buf r)"
  shows "ring_ok (push_front x r)" "ring_list (push_front x r) = x # ring_list r" "length (rb_buf (push_front x r)) = length (rb_buf r)"
proof -
  let ?n = "length (rb_buf r)" and ?h = "rb_head r" and ?t = "rb_tail r"
  have b: "?h < ?n" "?t < ?n" using assms by (auto simp: ring_ok_def)
  define h where "h = (?h + ?n - 1) mod ?n"
  have hn: "h < ?n" "h = (if ?h = 0 then ?n - 1 else ?h - 1)" using b by (auto simp: h_def mod_once)
  have p: "push_front x r = r\<lparr>rb_head := h, rb_buf := (rb_buf r)[h := x]\<rparr>"
    by (simp add: push_front_def ring_index_simps [OF ok] b h_def Let_def)
  show "ring_ok (push_front x r)" using ok b hn unfolding p ring_ok_def by simp
  show "length (rb_buf (push_front x r)) = ?n" by (simp add: p)
  have l: "ring_length (push_front x r) = Suc (ring_length r)"
    using b room hn by (auto simp: p ring_length_def wrap_cases split: if_splits)
  have o: "(?h + i) mod ?n \<noteq> h" if "i < ring_length r" for i
    using that b room hn by (auto simp: ring_length_def wrap_cases mod_once split: if_splits)
  have s: "(h + Suc i) mod ?n = (?h + i) mod ?n" for i
  proof -
    have "(h + 1) mod ?n = ?h" using b hn by (auto simp: mod_once)
    then show ?thesis by (metis add.assoc mod_add_left_eq plus_1_eq_Suc)
  qed
  show "ring_list (push_front x r) = x # ring_list r"
  proof (rule nth_equalityI)
    fix i assume "i < length (ring_list (push_front x r))"
    then have i: "i < Suc (ring_length r)" by (simp add: l)
    show "ring_list (push_front x r) ! i = (x # ring_list r) ! i"
    proof (cases i)
      case 0
      then show ?thesis using hn(1) l by (simp add: ring_list_def p del: upt_Suc)
    next
      case (Suc j)
      then show ?thesis using i o [of j] s [of j] l by (simp add: ring_list_def p del: upt_Suc)
    qed
  qed (simp add: l)
qed

subsection \<open>The contract\<close>

text \<open>A bounded deque: what the shortest-path search relies on.\<close>

locale bounded_deque =
  fixes ok :: "'d \<Rightarrow> bool" and items :: "'d \<Rightarrow> 'a list" and capacity :: "'d \<Rightarrow> nat"
    and is_empty :: "'d \<Rightarrow> bool" and front :: "'d \<Rightarrow> 'a" and pop :: "'d \<Rightarrow> 'd"
    and add_back :: "'a \<Rightarrow> 'd \<Rightarrow> 'd" and add_front :: "'a \<Rightarrow> 'd \<Rightarrow> 'd"
  assumes empty_law: "ok d \<Longrightarrow> is_empty d \<longleftrightarrow> items d = []"
    and pop_law: "ok d \<Longrightarrow> \<not> is_empty d \<Longrightarrow> ok (pop d) \<and> items d = front d # items (pop d) \<and> capacity (pop d) = capacity d"
    and back_law: "ok d \<Longrightarrow> length (items d) < capacity d \<Longrightarrow>
      ok (add_back x d) \<and> items (add_back x d) = items d @ [x] \<and> capacity (add_back x d) = capacity d"
    and front_law: "ok d \<Longrightarrow> length (items d) < capacity d \<Longrightarrow>
      ok (add_front x d) \<and> items (add_front x d) = x # items d \<and> capacity (add_front x d) = capacity d"
begin

text \<open>Adding at either end, and taking the front, as the search uses them.\<close>

lemma added:
  assumes "ok d" and "distinct (items d)" and "x \<notin> set (items d)" and "length (items d) < capacity d"
  shows "ok (if b then add_front x d else add_back x d)" "set (items (if b then add_front x d else add_back x d)) = insert x (set (items d))"
    "distinct (items (if b then add_front x d else add_back x d))"
    "capacity (if b then add_front x d else add_back x d) = capacity d"
    "length (items (if b then add_front x d else add_back x d)) = Suc (length (items d))"
  using assms back_law [of d x] front_law [of d x] by auto

lemma taken:
  assumes "ok d" and "distinct (items d)" and "\<not> is_empty d"
  shows "ok (pop d)" "set (items (pop d)) = set (items d) - {front d}" "distinct (items (pop d))" "capacity (pop d) = capacity d"
    "front d \<in> set (items d)" "length (items d) = Suc (length (items (pop d)))"
  using assms pop_law [of d] by (auto simp: distinct_length_2_or_more)

end

interpretation rd: bounded_deque ring_ok ring_list "\<lambda>r. length (rb_buf r) - 1" ring_empty ring_front pop_front push_back push_front
proof
  fix d x assume "ring_ok d"
  then show "ring_empty d \<longleftrightarrow> ring_list d = []" by (rule ring_list_empty)
  { assume "\<not> ring_empty d"
    with pop_front_ok [OF \<open>ring_ok d\<close> this]
    show "ring_ok (pop_front d) \<and> ring_list d = ring_front d # ring_list (pop_front d)
      \<and> length (rb_buf (pop_front d)) - 1 = length (rb_buf d) - 1" by simp }
  { assume "length (ring_list d) < length (rb_buf d) - 1"
    then have room: "Suc (ring_length d) < length (rb_buf d)" by simp
    show "ring_ok (push_back x d) \<and> ring_list (push_back x d) = ring_list d @ [x]
      \<and> length (rb_buf (push_back x d)) - 1 = length (rb_buf d) - 1" using push_back_ok [OF \<open>ring_ok d\<close> room] by simp
    show "ring_ok (push_front x d) \<and> ring_list (push_front x d) = x # ring_list d
      \<and> length (rb_buf (push_front x d)) - 1 = length (rb_buf d) - 1" using push_front_ok [OF \<open>ring_ok d\<close> room] by simp }
qed

end
