(* ===== verification/Search_Bellman_Ford.thy ===== *)
theory Search_Bellman_Ford
  imports Search_Deque
begin

text \<open>
  Single-source shortest paths with negative weights (\<open>search/bellman_ford.go\<close>): the label-correcting
  search over a deque with the smallest-label-first rule and the count of enqueues that reports a
  negative cycle. The weight type is an argument of the definitions; the theorems take the integers
  (the source asks its callers to keep path weights within the type). \<open>cancelled\<close> says whether the
  context is cancelled at the given dequeue, \<open>floatInvalid\<close> whether a weight is NaN or infinite.
\<close>

subsection \<open>The search\<close>

record 'w spfa =
  sp_dist :: "'w list"
  sp_parent :: "nat list"
  sp_found :: "bool list"
  sp_dq :: ring
  sp_inQueue :: "bool list"
  sp_relaxes :: "u32 list"
  sp_yieldCtr :: nat

definition anyFloatInvalid :: "('w \<Rightarrow> bool) \<Rightarrow> 'w list option \<Rightarrow> bool" where
  "anyFloatInvalid floatInvalid weights = (case weights of None \<Rightarrow> False | Some ws \<Rightarrow> list_ex floatInvalid ws)"

definition enqueue :: "'w::ord \<Rightarrow> nat \<Rightarrow> 'w spfa \<Rightarrow> 'w spfa" where
  "enqueue cand nb st =
     st\<lparr>sp_dq := (if \<not> ring_empty (sp_dq st) \<and> cand < sp_dist st ! ring_front (sp_dq st)
                  then push_front nb (sp_dq st) else push_back nb (sp_dq st)),
        sp_inQueue := (sp_inQueue st)[nb := True]\<rparr>"

definition relax_arc :: "'w::{zero,plus,ord} csr \<Rightarrow> nat \<Rightarrow> nat \<Rightarrow> 'w \<Rightarrow> nat \<Rightarrow> 'w spfa \<Rightarrow> (search_error, 'w spfa) result" where
  "relax_arc c maxID v dv k st =
     result_bind (read_at (csr_edges c) k) (\<lambda>nb.
     result_bind (weight_at c k) (\<lambda>w.
       let cand = dv + w
       in if nb \<ge> maxID then Inl Panic
          else if \<not> sp_found st ! nb \<or> cand < sp_dist st ! nb then
            let st1 = st\<lparr>sp_dist := (sp_dist st)[nb := cand], sp_parent := (sp_parent st)[nb := v],
                         sp_found := (sp_found st)[nb := True]\<rparr>
            in if sp_inQueue st1 ! nb then Inr st1
               else let r = sp_relaxes st1 ! nb + 1; st2 = st1\<lparr>sp_relaxes := (sp_relaxes st1)[nb := r]\<rparr>
                    in if unat r > maxID then Inl ErrNegativeCycle else Inr (enqueue cand nb st2)
          else Inr st))"

definition spfa_step :: "(nat \<Rightarrow> bool) \<Rightarrow> 'w::{zero,plus,ord} csr \<Rightarrow> nat \<Rightarrow> 'w spfa \<Rightarrow> (search_error, 'w spfa) result" where
  "spfa_step cancelled c maxID st =
     (if polled cancelled (sp_yieldCtr st) then Inl ErrCancelled
      else
        let v = ring_front (sp_dq st);
            st1 = st\<lparr>sp_yieldCtr := sp_yieldCtr st + 1, sp_dq := pop_front (sp_dq st), sp_inQueue := (sp_inQueue st)[v := False]\<rparr>
        in result_bind (read_at (csr_vertices c) v) (\<lambda>start.
           result_bind (read_at (csr_vertices c) (v + 1)) (\<lambda>en.
             each [start..<en] (relax_arc c maxID v (sp_dist st1 ! v)) st1)))"

text \<open>\<open>None\<close> is a search that never returns.\<close>

partial_function (option) spfa_loop ::
  "(nat \<Rightarrow> bool) \<Rightarrow> 'w::{zero,plus,ord} csr \<Rightarrow> nat \<Rightarrow> 'w spfa \<Rightarrow> (search_error, 'w spfa) result option" where
  "spfa_loop cancelled c maxID st =
     (if ring_empty (sp_dq st) then Some (Inr st)
      else case spfa_step cancelled c maxID st of
             Inl e \<Rightarrow> Some (Inl e)
           | Inr st' \<Rightarrow> spfa_loop cancelled c maxID st')"

declare spfa_loop.simps [code]

definition bellmanFordCore :: "('w \<Rightarrow> bool) \<Rightarrow> (nat \<Rightarrow> bool) \<Rightarrow> 'w::{zero,plus,ord} csr \<Rightarrow> u64
    \<Rightarrow> (search_error, 'w list \<times> nat list \<times> bool list) result option" where
  "bellmanFordCore floatInvalid cancelled c src =
     (let maxID = MaxNodeID c; dist = replicate maxID 0; parent = replicate maxID 0; found = replicate maxID False
      in if anyFloatInvalid floatInvalid (csr_weights c) then Some (Inl ErrInvalidInput)
         else if src + 1 \<ge> word_of_nat (length (csr_vertices c)) then Some (Inr (dist, parent, found))
         else if unat src \<ge> maxID then Some (Inl Panic)
         else
           let s = unat src;
               st = \<lparr>sp_dist = dist, sp_parent = parent[s := s], sp_found = found[s := True],
                     sp_dq = push_back s (new_ring maxID), sp_inQueue = (replicate maxID False)[s := True],
                     sp_relaxes = (replicate maxID 0)[s := 1], sp_yieldCtr = 0\<rparr>
           in map_option (map_sum id (\<lambda>st. (sp_dist st, sp_parent st, sp_found st))) (spfa_loop cancelled c maxID st))"

text \<open>The allocating variant: the result is the distances, the parents and the reached nodes.\<close>

definition BellmanFord :: "('w \<Rightarrow> bool) \<Rightarrow> 'w::{zero,plus,ord} csr \<Rightarrow> u64 \<Rightarrow> (search_error, 'w list \<times> nat list \<times> bool list) result option" where
  "BellmanFord floatInvalid c src = bellmanFordCore floatInvalid (\<lambda>_. False) c src"

definition Distance :: "'w::zero list \<times> nat list \<times> bool list \<Rightarrow> u64 \<Rightarrow> 'w option" where
  "Distance d node = (case d of (dist, parent, found) \<Rightarrow>
     if unat node \<ge> length found \<or> \<not> found ! unat node then None else Some (dist ! unat node))"

subsection \<open>Walks\<close>

inductive walk :: "(nat \<times> int \<times> nat) set \<Rightarrow> nat \<Rightarrow> int \<Rightarrow> nat \<Rightarrow> bool" for A where
  walk_nil: "walk A u 0 u"
| walk_snoc: "walk A u w v \<Longrightarrow> (v, l, x) \<in> A \<Longrightarrow> walk A u (w + l) x"

lemma walk_append: "walk A v l x \<Longrightarrow> walk A u w v \<Longrightarrow> walk A u (w + l) x"
  by (induction rule: walk.induct) (auto intro: walk_snoc simp: add.assoc [symmetric])

text \<open>Along a walk from a reached node, distances that no arc improves bound the walk's weight.\<close>

lemma walk_feasible:
  assumes "walk A u w v" and "F u" and "\<And>x l y. F x \<Longrightarrow> (x, l, y) \<in> A \<Longrightarrow> F y \<and> d y \<le> d x + l"
  shows "F v \<and> d v \<le> d u + w"
  using assms(1,2)
proof induction
  case (walk_snoc u w v l x)
  then show ?case using assms(3) [of v l x] by force
qed simp

subsection \<open>The invariant\<close>

definition queued :: "'w spfa \<Rightarrow> nat set" where
  "queued st = set (ring_list (sp_dq st))"

definition spfa_shape :: "nat \<Rightarrow> 'w spfa \<Rightarrow> bool" where
  "spfa_shape n st \<longleftrightarrow> length (sp_dist st) = n \<and> length (sp_parent st) = n \<and> length (sp_found st) = n \<and> length (sp_inQueue st) = n
     \<and> length (sp_relaxes st) = n \<and> ring_ok (sp_dq st) \<and> distinct (ring_list (sp_dq st)) \<and> n < length (rb_buf (sp_dq st))
     \<and> queued st \<subseteq> {..<n} \<and> (\<forall>v<n. sp_inQueue st ! v \<longleftrightarrow> v \<in> queued st) \<and> (\<forall>v<n. unat (sp_relaxes st ! v) \<le> n)"

definition spfa_labels :: "int csr \<Rightarrow> nat \<Rightarrow> int spfa \<Rightarrow> bool" where
  "spfa_labels c s st \<longleftrightarrow> s < MaxNodeID c \<and> sp_found st ! s \<and> sp_dist st ! s \<le> 0
     \<and> (\<forall>v<MaxNodeID c. sp_found st ! v \<longrightarrow> walk (arcs c) s (sp_dist st ! v) v)
     \<and> (\<forall>v\<in>queued st. sp_found st ! v)"

definition settled :: "int csr \<Rightarrow> int spfa \<Rightarrow> nat \<Rightarrow> bool" where
  "settled c st v \<longleftrightarrow> (\<forall>l x. (v, l, x) \<in> arcs c \<longrightarrow> sp_found st ! x \<and> sp_dist st ! x \<le> sp_dist st ! v + l)"

definition spfa_inv :: "int csr \<Rightarrow> nat \<Rightarrow> int spfa \<Rightarrow> bool" where
  "spfa_inv c s st \<longleftrightarrow> spfa_shape (MaxNodeID c) st \<and> spfa_labels c s st
     \<and> (\<forall>v<MaxNodeID c. sp_found st ! v \<longrightarrow> v \<notin> queued st \<longrightarrow> settled c st v)"

text \<open>How many enqueues the count still allows, weighed so that an enqueue pays for its dequeue.\<close>

definition credit :: "nat \<Rightarrow> 'w spfa \<Rightarrow> nat" where
  "credit n st = (\<Sum>v<n. n - unat (sp_relaxes st ! v)) * (n + 1) + length (ring_list (sp_dq st))"

text \<open>While the arcs of \<open>v\<close> are relaxed at the distance \<open>dv\<close> it was taken with.\<close>

definition relaxing :: "int csr \<Rightarrow> nat \<Rightarrow> nat \<Rightarrow> int \<Rightarrow> nat \<Rightarrow> nat list \<Rightarrow> int spfa \<Rightarrow> bool" where
  "relaxing c s v dv m ks st \<longleftrightarrow> spfa_shape (MaxNodeID c) st \<and> spfa_labels c s st
     \<and> (\<forall>u<MaxNodeID c. u \<noteq> v \<longrightarrow> sp_found st ! u \<longrightarrow> u \<notin> queued st \<longrightarrow> settled c st u)
     \<and> v < MaxNodeID c \<and> sp_found st ! v
     \<and> (v \<in> queued st \<or> (sp_dist st ! v = dv \<and> (\<forall>k\<in>set ks. sp_found st ! (csr_edges c ! k) \<and> sp_dist st ! (csr_edges c ! k) \<le> dv + slot_weight c k)))
     \<and> walk (arcs c) s dv v \<and> credit (MaxNodeID c) st \<le> m"

lemma queued_bound:
  assumes "spfa_shape n st"
  shows "length (ring_list (sp_dq st)) \<le> n" "nb < n \<Longrightarrow> nb \<notin> queued st \<Longrightarrow> length (ring_list (sp_dq st)) < n"
proof -
  have d: "distinct (ring_list (sp_dq st))" "set (ring_list (sp_dq st)) \<subseteq> {..<n}" using assms by (auto simp: spfa_shape_def queued_def)
  then have c: "length (ring_list (sp_dq st)) = card (set (ring_list (sp_dq st)))" by (simp add: distinct_card)
  then show "length (ring_list (sp_dq st)) \<le> n" using card_mono [OF _ d(2)] by simp
  assume "nb < n" "nb \<notin> queued st"
  then have "set (ring_list (sp_dq st)) \<subset> {..<n}" using d(2) by (auto simp: queued_def)
  then show "length (ring_list (sp_dq st)) < n" using c psubset_card_mono [of "{..<n}" "set (ring_list (sp_dq st))"] by simp
qed

subsection \<open>One arc\<close>

lemma sum_step:
  assumes "(i :: nat) < n" and "f i = Suc (g i)" and "\<And>j. j < n \<Longrightarrow> j \<noteq> i \<Longrightarrow> f j = g j"
  shows "(\<Sum>j<n. f j) = Suc (\<Sum>j<n. g j :: nat)"
proof -
  have "(\<Sum>j\<in>{..<n} - {i}. f j) = (\<Sum>j\<in>{..<n} - {i}. g j)" using assms(3) by (intro sum.cong) auto
  then show ?thesis using sum.remove [of "{..<n}" i f] sum.remove [of "{..<n}" i g] assms(1,2) by simp
qed

lemma enqueue_shape:
  assumes sh: "spfa_shape n st" and nb: "nb < n" "nb \<notin> queued st" and r: "r = sp_relaxes st ! nb + 1" "unat r \<le> n" and n: "n < 2 ^ 32 - 1"
    and st2: "st2 = st\<lparr>sp_dist := d, sp_parent := pr, sp_found := fd, sp_relaxes := (sp_relaxes st)[nb := r]\<rparr>"
    and len: "length d = n" "length pr = n" "length fd = n"
  shows "spfa_shape n (enqueue cand nb st2)" "queued (enqueue cand nb st2) = insert nb (queued st)"
    "credit n (enqueue cand nb st2) \<le> credit n st"
proof -
  let ?q = "sp_dq st" and ?st' = "enqueue cand nb st2"
  define b where "b \<longleftrightarrow> \<not> ring_empty ?q \<and> cand < d ! ring_front ?q"
  have ok: "ring_ok ?q" "distinct (ring_list ?q)" "nb \<notin> set (ring_list ?q)" "n < length (rb_buf ?q)"
    using sh nb by (auto simp: spfa_shape_def queued_def)
  have room: "length (ring_list ?q) < length (rb_buf ?q) - 1" using queued_bound(2) [OF sh nb] ok(4) by linarith
  note add = rd.added [OF ok(1-3) room, of b]
  have q': "sp_dq ?st' = (if b then push_front nb ?q else push_back nb ?q)" by (simp add: enqueue_def st2 b_def)
  then show qd: "queued ?st' = insert nb (queued st)" using add(2) by (simp add: queued_def)
  have old: "unat (sp_relaxes st ! nb) \<le> n" using sh nb by (simp add: spfa_shape_def)
  then have ur: "unat r = Suc (unat (sp_relaxes st ! nb))" using n r(1) by (simp add: unat_word_ariths)
  have rel: "sp_relaxes ?st' = (sp_relaxes st)[nb := r]" "length (sp_relaxes st) = n" using sh by (simp_all add: enqueue_def st2 spfa_shape_def)
  have big: "n < length (rb_buf (if b then push_front nb ?q else push_back nb ?q))" using add(4) ok(4) nb(1) by linarith
  show "spfa_shape n ?st'"
    unfolding spfa_shape_def qd rel q'
    using sh nb add(1,3) big len r(2) rel
    by (auto simp: spfa_shape_def enqueue_def st2 nth_list_update)
  have "(\<Sum>v<n. n - unat (sp_relaxes st ! v)) = Suc (\<Sum>v<n. n - unat (sp_relaxes ?st' ! v))"
    using nb(1) ur r(2) rel by (intro sum_step [of nb]) auto
  then show "credit n ?st' \<le> credit n st" using add(5) by (simp add: credit_def q')
qed

lemma relaxed:
  assumes wf: "well_formed c" and k: "k \<in> set (slots c v)" and nb: "nb = csr_edges c ! k" and cand: "cand = dv + slot_weight c k"
    and pre: "relaxing c s v dv m ks st" and better: "\<not> sp_found st ! nb \<or> cand < sp_dist st ! nb"
    and sh: "spfa_shape (MaxNodeID c) st'" and q: "queued st' = insert nb (queued st)" and cr: "credit (MaxNodeID c) st' \<le> credit (MaxNodeID c) st"
    and d': "sp_dist st' = (sp_dist st)[nb := cand]" and f': "sp_found st' = (sp_found st)[nb := True]"
  shows "relaxing c s v dv m (ks @ [k]) st'"
proof -
  let ?n = "MaxNodeID c"
  have v: "v < ?n" and lab: "spfa_labels c s st" and sh0: "spfa_shape ?n st" using pre by (simp_all add: relaxing_def)
  have n: "nb < ?n" using slots_range(2) [OF wf v k] nb by simp
  have len: "length (sp_dist st) = ?n" "length (sp_found st) = ?n" using sh0 by (simp_all add: spfa_shape_def)
  have arc: "(v, slot_weight c k, nb) \<in> arcs c" using v k nb by (auto simp: arcs_def)
  have wcand: "walk (arcs c) s cand nb" using pre arc cand by (auto simp: relaxing_def intro: walk_snoc)
  have dle: "sp_found st ! u \<Longrightarrow> sp_found st' ! u \<and> sp_dist st' ! u \<le> sp_dist st ! u" if "u < ?n" for u
    using that better len n by (cases "u = nb") (auto simp: d' f')
  have dsame: "u \<noteq> nb \<Longrightarrow> sp_dist st' ! u = sp_dist st ! u \<and> sp_found st' ! u = sp_found st ! u" for u by (simp add: d' f')
  have labels: "spfa_labels c s st'"
    unfolding spfa_labels_def q
  proof (intro conjI allI impI ballI)
    show s: "s < ?n" "sp_found st' ! s" "sp_dist st' ! s \<le> 0" using lab dle [of s] by (auto simp: spfa_labels_def)
    fix u assume "u < ?n" "sp_found st' ! u"
    then show "walk (arcs c) s (sp_dist st' ! u) u"
      using lab wcand len n dsame [of u] by (cases "u = nb") (auto simp: spfa_labels_def d')
  next
    fix u assume "u \<in> insert nb (queued st)"
    then show "sp_found st' ! u"
      using lab dsame [of u] len n by (cases "u = nb") (auto simp: spfa_labels_def f')
  qed
  have keep: "settled c st' u" if "u < ?n" "u \<noteq> nb" "settled c st u" for u
    unfolding settled_def
  proof (intro allI impI)
    fix l x assume a: "(u, l, x) \<in> arcs c"
    then have "sp_found st ! x \<and> sp_dist st ! x \<le> sp_dist st ! u + l" using that(3) by (simp add: settled_def)
    moreover have "x < ?n" using arcs_range [OF wf a] by simp
    ultimately show "sp_found st' ! x \<and> sp_dist st' ! x \<le> sp_dist st' ! u + l" using dle [of x] dsame [OF that(2)] by auto
  qed
  have rest: "settled c st' u" if "u < ?n" "u \<noteq> v" "sp_found st' ! u" "u \<notin> queued st'" for u
  proof -
    have "u \<noteq> nb" "u \<notin> queued st" using that(4) q by auto
    then show ?thesis using that dsame [of u] keep pre by (auto simp: relaxing_def)
  qed
  have vq: "v \<in> queued st' \<or> (sp_dist st' ! v = dv \<and> (\<forall>k'\<in>set (ks @ [k]). sp_found st' ! (csr_edges c ! k') \<and> sp_dist st' ! (csr_edges c ! k') \<le> dv + slot_weight c k'))"
  proof (cases "v \<in> queued st'")
    case False
    then have "v \<noteq> nb" "v \<notin> queued st" using q by auto
    then have old: "sp_dist st ! v = dv" "\<forall>k'\<in>set ks. sp_found st ! (csr_edges c ! k') \<and> sp_dist st ! (csr_edges c ! k') \<le> dv + slot_weight c k'"
      using pre by (auto simp: relaxing_def)
    have "sp_found st' ! (csr_edges c ! k') \<and> sp_dist st' ! (csr_edges c ! k') \<le> dv + slot_weight c k'" if "k' \<in> set (ks @ [k])" for k'
    proof (cases "csr_edges c ! k' = nb")
      case True
      then have eq: "sp_found st' ! nb" "sp_dist st' ! nb = cand" using n len by (simp_all add: d' f')
      show ?thesis
      proof (cases "k' = k")
        case False
        then have "sp_found st ! nb" "sp_dist st ! nb \<le> dv + slot_weight c k'" using that old True by auto
        then show ?thesis using eq True better by auto
      qed (use eq True cand in simp)
    next
      case False
      then show ?thesis using that old dsame [OF False] nb by auto
    qed
    then show ?thesis using old(1) dsame [OF \<open>v \<noteq> nb\<close>] by simp
  qed simp
  have "sp_found st' ! v" using pre dle [OF v] by (simp add: relaxing_def)
  then show ?thesis using sh labels rest v vq pre cr unfolding relaxing_def by auto
qed

lemma relax_arc_ok:
  assumes wf: "well_formed c" and n: "MaxNodeID c < 2 ^ 32 - 1" and k: "k \<in> set (slots c v)" and pre: "relaxing c s v dv m ks st"
  shows "case relax_arc c (MaxNodeID c) v dv k st of Inl e \<Rightarrow> e = ErrNegativeCycle | Inr st' \<Rightarrow> relaxing c s v dv m (ks @ [k]) st'"
proof -
  let ?n = "MaxNodeID c"
  define nb where "nb = csr_edges c ! k"
  define cand where "cand = dv + slot_weight c k"
  have v: "v < ?n" and sh: "spfa_shape ?n st" using pre by (simp_all add: relaxing_def)
  have rng: "k < length (csr_edges c)" "nb < ?n" using slots_range [OF wf v k] by (simp_all add: nb_def)
  have len: "length (sp_dist st) = ?n" "length (sp_parent st) = ?n" "length (sp_found st) = ?n" using sh by (simp_all add: spfa_shape_def)
  have inq: "sp_inQueue st ! nb \<longleftrightarrow> nb \<in> queued st" using sh rng(2) by (simp add: spfa_shape_def)
  let ?d = "(sp_dist st)[nb := cand]" and ?p = "(sp_parent st)[nb := v]" and ?f = "(sp_found st)[nb := True]"
  let ?st1 = "st\<lparr>sp_dist := ?d, sp_parent := ?p, sp_found := ?f\<rparr>"
  define r where "r = sp_relaxes st ! nb + 1"
  define st2 where "st2 = st\<lparr>sp_dist := ?d, sp_parent := ?p, sp_found := ?f, sp_relaxes := (sp_relaxes st)[nb := r]\<rparr>"
  have body: "relax_arc c ?n v dv k st =
     (if \<not> sp_found st ! nb \<or> cand < sp_dist st ! nb
      then if nb \<in> queued st then Inr ?st1
           else if unat r > ?n then Inl ErrNegativeCycle else Inr (enqueue cand nb st2)
      else Inr st)"
    using rng inq weight_at_ok [OF wf v k]
    by (simp add: relax_arc_def result_bind_def nb_def [symmetric] cand_def [symmetric] r_def st2_def Let_def)
  show ?thesis
  proof (cases "\<not> sp_found st ! nb \<or> cand < sp_dist st ! nb")
    case better: True
    show ?thesis
    proof (cases "nb \<in> queued st")
      case True
      have sh1: "spfa_shape ?n ?st1" "queued ?st1 = insert nb (queued st)" "credit ?n ?st1 \<le> credit ?n st"
        using sh len True by (auto simp: spfa_shape_def queued_def credit_def)
      have "relaxing c s v dv m (ks @ [k]) ?st1"
        by (rule relaxed [OF wf k nb_def cand_def pre better sh1]) simp_all
      then show ?thesis using body better True by simp
    next
      case False
      have "relaxing c s v dv m (ks @ [k]) (enqueue cand nb st2)" if "unat r \<le> ?n"
        by (rule relaxed [OF wf k nb_def cand_def pre better enqueue_shape [OF sh rng(2) False r_def that n st2_def]])
          (simp_all add: len enqueue_def st2_def)
      then show ?thesis using body better False by simp
    qed
  next
    case False
    then have "sp_found st ! nb" "sp_dist st ! nb \<le> dv + slot_weight c k" by (simp_all add: cand_def)
    then have "relaxing c s v dv m (ks @ [k]) st" using pre by (auto simp: relaxing_def nb_def)
    then show ?thesis using body False by simp
  qed
qed

subsection \<open>The loop\<close>

lemma spfa_step_ok:
  assumes wf: "well_formed c" and n: "MaxNodeID c < 2 ^ 32 - 1" and inv: "spfa_inv c s st" and ne: "\<not> ring_empty (sp_dq st)"
    and live: "\<And>i. \<not> cancelled i"
  shows "case spfa_step cancelled c (MaxNodeID c) st of
     Inl e \<Rightarrow> e = ErrNegativeCycle | Inr st' \<Rightarrow> spfa_inv c s st' \<and> credit (MaxNodeID c) st' < credit (MaxNodeID c) st"
proof -
  let ?n = "MaxNodeID c" and ?q = "sp_dq st"
  define v where "v = ring_front ?q"
  define st1 where "st1 = st\<lparr>sp_yieldCtr := sp_yieldCtr st + 1, sp_dq := pop_front ?q, sp_inQueue := (sp_inQueue st)[v := False]\<rparr>"
  define m where "m = credit ?n st1"
  have sh: "spfa_shape ?n st" and lab: "spfa_labels c s st" using inv by (simp_all add: spfa_inv_def)
  have "ring_ok ?q" "distinct (ring_list ?q)" using sh by (simp_all add: spfa_shape_def)
  note tk = rd.taken [OF this ne]
  have vq: "v \<in> queued st" using tk(5) by (simp add: queued_def v_def)
  then have v: "v < ?n" "sp_found st ! v" using sh lab by (auto simp: spfa_shape_def spfa_labels_def)
  have q1: "queued st1 = queued st - {v}" using tk(2) by (simp add: queued_def st1_def v_def)
  have m: "m < credit ?n st" using tk(6) by (simp add: m_def st1_def credit_def)
  have big: "?n < length (rb_buf (pop_front ?q))" using tk(4) sh v(1) unfolding spfa_shape_def by linarith
  have sh1: "spfa_shape ?n st1"
    unfolding spfa_shape_def q1 using sh tk(1,3) big v(1) by (auto simp: spfa_shape_def st1_def nth_list_update)
  have lab1: "spfa_labels c s st1" using lab unfolding spfa_labels_def q1 by (auto simp: st1_def)
  have set1: "settled c st1 u = settled c st u" for u by (simp add: settled_def st1_def)
  have "relaxing c s v (sp_dist st ! v) m [] st1"
    unfolding relaxing_def m_def set1
    using sh1 lab1 v inv lab q1 by (auto simp: spfa_inv_def spfa_labels_def) (auto simp: st1_def)
  then have all: "case each (slots c v) (relax_arc c ?n v (sp_dist st ! v)) st1 of
      Inl e \<Rightarrow> e = ErrNegativeCycle | Inr st' \<Rightarrow> relaxing c s v (sp_dist st ! v) m (slots c v) st'"
  proof (rule each_inv_err [where P = "relaxing c s v (sp_dist st ! v) m"])
    fix ys k zs t assume "slots c v = ys @ k # zs" "relaxing c s v (sp_dist st ! v) m ys t"
    then show "case relax_arc c ?n v (sp_dist st ! v) k t of Inl e \<Rightarrow> e = ErrNegativeCycle | Inr t' \<Rightarrow> relaxing c s v (sp_dist st ! v) m (ys @ [k]) t'"
      using relax_arc_ok [OF wf n, of k v s "sp_dist st ! v" m ys t] by simp
  qed
  have fin: "spfa_inv c s st' \<and> credit ?n st' < credit ?n st" if r: "relaxing c s v (sp_dist st ! v) m (slots c v) st'" for st'
  proof -
    have "settled c st' v" if "v \<notin> queued st'"
      using r that by (auto simp: relaxing_def settled_def arcs_def)
    then have "settled c st' u" if "u < ?n" "sp_found st' ! u" "u \<notin> queued st'" for u
      using r that by (cases "u = v") (auto simp: relaxing_def)
    then show ?thesis using r m by (auto simp: relaxing_def spfa_inv_def)
  qed
  have "spfa_step cancelled c ?n st = each (slots c v) (relax_arc c ?n v (sp_dist st ! v)) st1"
    using live v length_vertices [OF wf]
    by (simp add: spfa_step_def polled_def v_def [symmetric] st1_def result_bind_def slots_def Let_def)
  then show ?thesis using all fin by (auto split: sum.splits)
qed

lemma spfa_loop_ok:
  assumes wf: "well_formed c" and n: "MaxNodeID c < 2 ^ 32 - 1" and live: "\<And>i. \<not> cancelled i" and inv: "spfa_inv c s st"
  shows "\<exists>r. spfa_loop cancelled c (MaxNodeID c) st = Some r \<and>
     (case r of Inl e \<Rightarrow> e = ErrNegativeCycle | Inr st' \<Rightarrow> spfa_inv c s st' \<and> queued st' = {})"
  using inv
proof (induction "credit (MaxNodeID c) st" arbitrary: st rule: less_induct)
  case less
  show ?case
  proof (cases "ring_empty (sp_dq st)")
    case True
    then have "queued st = {}" using less.prems rd.empty_law [of "sp_dq st"] by (simp add: spfa_inv_def spfa_shape_def queued_def)
    then show ?thesis using True less.prems by (simp add: spfa_loop.simps)
  next
    case False
    note step = spfa_step_ok [OF wf n less.prems False, of cancelled, OF live]
    show ?thesis
    proof (cases "spfa_step cancelled c (MaxNodeID c) st")
      case (Inl e)
      then show ?thesis using False step by (simp add: spfa_loop.simps)
    next
      case (Inr st')
      then have "spfa_inv c s st'" "credit (MaxNodeID c) st' < credit (MaxNodeID c) st" using step by simp_all
      from less.hyps [OF this(2,1)] show ?thesis using False Inr by (simp add: spfa_loop.simps [of _ _ _ st])
    qed
  qed
qed

lemma spfa_result:
  assumes wf: "well_formed c" and inv: "spfa_inv c s st" and q: "queued st = {}"
  shows "\<And>v. v < MaxNodeID c \<Longrightarrow> sp_found st ! v \<longleftrightarrow> (\<exists>w. walk (arcs c) s w v)"
    "\<And>v w. v < MaxNodeID c \<Longrightarrow> walk (arcs c) s w v \<Longrightarrow> sp_dist st ! v \<le> w"
    "\<And>v. v < MaxNodeID c \<Longrightarrow> sp_found st ! v \<Longrightarrow> walk (arcs c) s (sp_dist st ! v) v"
    "\<And>v w l. walk (arcs c) s w v \<Longrightarrow> walk (arcs c) v l v \<Longrightarrow> 0 \<le> l"
proof -
  let ?n = "MaxNodeID c" and ?F = "\<lambda>v. v < MaxNodeID c \<and> sp_found st ! v" and ?d = "\<lambda>v. sp_dist st ! v"
  have feas: "?F y \<and> ?d y \<le> ?d x + l" if "?F x" "(x, l, y) \<in> arcs c" for x l y
    using that inv q arcs_range [OF wf that(2)] by (auto simp: spfa_inv_def settled_def)
  have F: "?F s" "?d s \<le> 0" and W: "\<And>v. ?F v \<Longrightarrow> walk (arcs c) s (?d v) v"
    using inv by (auto simp: spfa_inv_def spfa_labels_def)
  have reach: "?F v \<and> ?d v \<le> ?d s + w" if "walk (arcs c) s w v" for v w
    using walk_feasible [OF that, of ?F ?d] F(1) feas by blast
  have zero: "?d s = 0" using reach [OF W [OF F(1)]] F(2) by linarith
  show "sp_found st ! v \<longleftrightarrow> (\<exists>w. walk (arcs c) s w v)" if "v < ?n" for v using that W reach by blast
  show "?d v \<le> w" if "v < ?n" "walk (arcs c) s w v" for v w using reach [OF that(2)] zero by simp
  show "walk (arcs c) s (?d v) v" if "v < ?n" "sp_found st ! v" for v using that W by blast
  show "0 \<le> l" if "walk (arcs c) s w v" "walk (arcs c) v l v" for v w l
  proof -
    have "?F v" using reach [OF that(1)] by blast
    then have "?d v \<le> ?d v + l" using walk_feasible [OF that(2), of ?F ?d] feas by blast
    then show ?thesis by simp
  qed
qed

lemma start_inv:
  assumes wf: "well_formed c" and s: "s < MaxNodeID c"
  shows "spfa_inv c s \<lparr>sp_dist = replicate (MaxNodeID c) 0, sp_parent = (replicate (MaxNodeID c) 0)[s := s],
     sp_found = (replicate (MaxNodeID c) False)[s := True], sp_dq = push_back s (new_ring (MaxNodeID c)),
     sp_inQueue = (replicate (MaxNodeID c) False)[s := True], sp_relaxes = (replicate (MaxNodeID c) 0)[s := 1], sp_yieldCtr = 0\<rparr>"
    (is "spfa_inv c s ?st")
proof -
  let ?n = "MaxNodeID c" and ?r = "new_ring (MaxNodeID c)"
  have "length (ring_list ?r) < length (rb_buf ?r) - 1" using new_ring_ok [of ?n] s by simp
  note b = rd.back_law [OF new_ring_ok(1) this, of s]
  then have l: "ring_list (push_back s ?r) = [s]" "ring_ok (push_back s ?r)" using new_ring_ok(2) by simp_all
  have big: "?n < length (rb_buf (push_back s ?r))" using b new_ring_ok(3) [of ?n] s by linarith
  have q: "queued ?st = {s}" by (simp add: queued_def l)
  have shape: "spfa_shape ?n ?st" unfolding spfa_shape_def q using l big s by (auto simp: nth_list_update)
  have "spfa_labels c s ?st" unfolding spfa_labels_def q using s by (auto simp: nth_list_update walk_nil)
  moreover have "v = s" if "sp_found ?st ! v" "v < ?n" for v using that s by (auto simp: nth_list_update split: if_splits)
  ultimately show ?thesis using shape by (auto simp: spfa_inv_def q)
qed

subsection \<open>Correctness\<close>

text \<open>
  Property C11. Bellman-Ford returns on every well-formed snapshot with fewer than \<open>2 ^ 32 - 1\<close> nodes,
  whatever the weights. When it returns distances, a node is reported reached exactly when a walk
  leads to it from the source, its distance is the weight of such a walk, and no walk is lighter;
  the only error is \<open>ErrNegativeCycle\<close>, and it is returned whenever a negative cycle can be reached from
  the source.
\<close>

theorem bellman_ford_correct:
  fixes c :: "int csr"
  assumes "Validate c = None" and "unat src < MaxNodeID c" and "MaxNodeID c < 2 ^ 32 - 1" and "\<And>w. \<not> floatInvalid w"
  shows "\<exists>r. BellmanFord floatInvalid c src = Some r \<and>
    (case r of
       Inl e \<Rightarrow> e = ErrNegativeCycle
     | Inr (dist, parent, found) \<Rightarrow> \<forall>v<MaxNodeID c.
         (found ! v \<longleftrightarrow> (\<exists>w. walk (arcs c) (unat src) w v)) \<and>
         (found ! v \<longrightarrow> walk (arcs c) (unat src) (dist ! v) v \<and> (\<forall>w. walk (arcs c) (unat src) w v \<longrightarrow> dist ! v \<le> w))) \<and>
    ((\<exists>v w l. walk (arcs c) (unat src) w v \<and> walk (arcs c) v l v \<and> l < 0) \<longrightarrow> r = Inl ErrNegativeCycle)"
proof -
  have wf: "well_formed c" using assms(1) by (simp add: well_formed_def)
  let ?n = "MaxNodeID c" and ?s = "unat src"
  have guard: "\<not> src + 1 \<ge> word_of_nat (length (csr_vertices c))"
  proof -
    have l: "unat (word_of_nat (Suc ?n) :: u64) = Suc ?n" using assms(3) by (simp add: unat_of_nat del: of_nat_Suc)
    have "unat (src + 1) = Suc ?s" using assms(2,3) by (simp add: unat_word_ariths)
    then have "unat (src + 1) < unat (word_of_nat (Suc ?n) :: u64)" using assms(2) l by simp
    then show ?thesis unfolding length_vertices [OF wf] by (simp add: word_less_nat_alt not_le)
  qed
  have fl: "\<not> anyFloatInvalid floatInvalid (csr_weights c)" using assms(4) by (simp add: anyFloatInvalid_def list_ex_iff split: option.split)
  obtain r where r: "spfa_loop (\<lambda>_. False) c ?n \<lparr>sp_dist = replicate ?n 0, sp_parent = (replicate ?n 0)[?s := ?s],
      sp_found = (replicate ?n False)[?s := True], sp_dq = push_back ?s (new_ring ?n),
      sp_inQueue = (replicate ?n False)[?s := True], sp_relaxes = (replicate ?n 0)[?s := 1], sp_yieldCtr = 0\<rparr> = Some r"
    "case r of Inl e \<Rightarrow> e = ErrNegativeCycle | Inr st' \<Rightarrow> spfa_inv c ?s st' \<and> queued st' = {}"
    using spfa_loop_ok [OF wf assms(3), of "\<lambda>_. False", OF _ start_inv [OF wf assms(2)]] by auto
  let ?out = "map_sum id (\<lambda>st. (sp_dist st, sp_parent st, sp_found st)) r"
  have run: "BellmanFord floatInvalid c src = Some ?out"
    using guard fl assms(2) r(1) by (simp add: BellmanFord_def bellmanFordCore_def Let_def)
  show ?thesis
  proof (cases r)
    case (Inl e)
    then show ?thesis using run r(2) by simp
  next
    case (Inr st)
    then have "spfa_inv c ?s st" "queued st = {}" using r(2) by simp_all
    note res = spfa_result [OF wf this]
    have "\<not> (\<exists>v w l. walk (arcs c) ?s w v \<and> walk (arcs c) v l v \<and> l < 0)" using res(4) by (meson not_le)
    then show ?thesis using run Inr res(1-3) by simp
  qed
qed

text \<open>Three nodes in a line, with a shortcut that is not worth taking.\<close>

definition sample_csr :: "int csr" where
  "sample_csr = FromArrays [0, 2, 3, 3] [1, 2, 2] (Some [4, 1, - 5]) 3 3"

theorem bellman_ford_correct_witness:
  "Validate sample_csr = None \<and> BellmanFord (\<lambda>_. False) sample_csr 0 = Some (Inr ([0, 4, - 1], [0, 0, 1], [True, True, True])) \<and>
   walk (arcs sample_csr) 0 (- 1) 2 \<and> {w. walk (arcs sample_csr) 0 w 2} \<subseteq> {- 1..}"
proof -
  have v: "Validate sample_csr = None" by code_simp
  have m: "MaxNodeID sample_csr = 3" by code_simp
  have run: "BellmanFord (\<lambda>_. False) sample_csr 0 = Some (Inr ([0, 4, - 1], [0, 0, 1], [True, True, True]))" by code_simp
  have all: "\<forall>v<3. [True, True, True] ! v \<longrightarrow> walk (arcs sample_csr) 0 ([0, 4, - 1] ! v) v
      \<and> (\<forall>w. walk (arcs sample_csr) 0 w v \<longrightarrow> [0, 4, - 1] ! v \<le> w)"
    using bellman_ford_correct [OF v, of 0 "\<lambda>_. False"] unfolding run m by simp
  have "walk (arcs sample_csr) 0 (- 1) 2" "{w. walk (arcs sample_csr) 0 w 2} \<subseteq> {- 1..}" using all [rule_format, of 2] by auto
  with v run show ?thesis by blast
qed

subsection \<open>A negative cycle that is not there\<close>

definition acyclic_csr :: "int csr" where
  "acyclic_csr = FromArrays [0, 4, 7, 9, 10, 10] [1, 2, 3, 4, 2, 3, 4, 3, 4, 4]
     (Some [- 7, - 9, - 11, - 23, - 36, - 31, - 10, - 33, - 41, - 20]) 5 10"

text \<open>
  Property C28. The count of enqueues does not prove a negative cycle: with the smallest-label-first deque a
  node can be enqueued more often than there are nodes in a graph without any cycle. On a valid acyclic
  snapshot of five nodes, whose runs are in ascending order, the search reports \<open>ErrNegativeCycle\<close>.
\<close>

theorem bellman_ford_spurious_cycle:
  "well_formed acyclic_csr \<and> acyclic (links acyclic_csr) \<and>
   BellmanFord (\<lambda>_. False) acyclic_csr 0 = Some (Inl ErrNegativeCycle)"
proof -
  have "Validate acyclic_csr = None" "BellmanFord (\<lambda>_. False) acyclic_csr 0 = Some (Inl ErrNegativeCycle)" by code_simp+
  moreover have "\<forall>u\<in>set [0..<5]. \<forall>k\<in>set (slots acyclic_csr u). u < csr_edges acyclic_csr ! k" by code_simp
  moreover have "MaxNodeID acyclic_csr = 5" by code_simp
  ultimately have "links acyclic_csr \<subseteq> less_than" by (auto simp: links_def)
  then have "acyclic (links acyclic_csr)" by (rule wf_acyclic [OF wf_subset [OF wf_less_than]])
  then show ?thesis
    using \<open>Validate acyclic_csr = None\<close> \<open>BellmanFord (\<lambda>_. False) acyclic_csr 0 = Some (Inl ErrNegativeCycle)\<close>
    by (simp add: well_formed_def)
qed

end
