(* ===== verification/Union_Find.thy ===== *)
theory Union_Find
  imports Go_Arrays
begin

text \<open>
  The disjoint-set forests of \<open>ds/unionfind.go\<close>, over slices and over maps, with union by rank and
  two-pass path compression. An int index is a natural number. Both implement a partition; the
  ranks of the slice stay below 64, so that the byte that holds one never wraps around.
\<close>

subsection \<open>Over slices\<close>

record UnionFindSlice =
  ufs_parent :: "nat list"
  ufs_rank :: "8 word list"

definition NewSlice :: "nat \<Rightarrow> UnionFindSlice" where
  "NewSlice n = \<lparr>ufs_parent = [0..<n], ufs_rank = replicate n 0\<rparr>"

text \<open>The two loops of \<open>Find\<close>.\<close>

partial_function (option) find_root :: "nat list \<Rightarrow> nat \<Rightarrow> (search_error, nat) result option" where
  "find_root parent root = (case read_at parent root of
     Inl e \<Rightarrow> Some (Inl e)
   | Inr p \<Rightarrow> if p = root then Some (Inr root) else find_root parent p)"

partial_function (option) compress :: "nat list \<Rightarrow> nat \<Rightarrow> nat \<Rightarrow> (search_error, nat list) result option" where
  "compress parent root cur = (case read_at parent cur of
     Inl e \<Rightarrow> Some (Inl e)
   | Inr next \<Rightarrow> if next = root then Some (Inr parent) else compress (parent[cur := root]) root next)"

declare find_root.simps [code] compress.simps [code]

definition Find :: "UnionFindSlice \<Rightarrow> nat \<Rightarrow> (search_error, nat \<times> UnionFindSlice) result option" where
  "Find u x = obind (find_root (ufs_parent u) x) (\<lambda>root.
     obind (compress (ufs_parent u) root x) (\<lambda>parent. Some (Inr (root, u\<lparr>ufs_parent := parent\<rparr>))))"

definition link_roots :: "nat \<Rightarrow> nat \<Rightarrow> UnionFindSlice \<Rightarrow> UnionFindSlice" where
  "link_roots ra rb u =
     (if ufs_rank u ! ra < ufs_rank u ! rb then u\<lparr>ufs_parent := (ufs_parent u)[ra := rb]\<rparr>
      else if ufs_rank u ! ra > ufs_rank u ! rb then u\<lparr>ufs_parent := (ufs_parent u)[rb := ra]\<rparr>
      else u\<lparr>ufs_parent := (ufs_parent u)[rb := ra], ufs_rank := (ufs_rank u)[ra := ufs_rank u ! ra + 1]\<rparr>)"

definition Union :: "UnionFindSlice \<Rightarrow> nat \<Rightarrow> nat \<Rightarrow> (search_error, bool \<times> UnionFindSlice) result option" where
  "Union u a b = obind (Find u a) (\<lambda>(ra, u1). obind (Find u1 b) (\<lambda>(rb, u2).
     if ra = rb then Some (Inr (False, u2)) else Some (Inr (True, link_roots ra rb u2))))"

definition Connected :: "UnionFindSlice \<Rightarrow> nat \<Rightarrow> nat \<Rightarrow> (search_error, bool \<times> UnionFindSlice) result option" where
  "Connected u a b = obind (Find u a) (\<lambda>(ra, u1). obind (Find u1 b) (\<lambda>(rb, u2). Some (Inr (ra = rb, u2))))"

definition Len :: "UnionFindSlice \<Rightarrow> nat" where
  "Len u = length (ufs_parent u)"

definition Reset_slice :: "UnionFindSlice \<Rightarrow> UnionFindSlice" where
  "Reset_slice u = \<lparr>ufs_parent = [0..<length (ufs_parent u)], ufs_rank = replicate (length (ufs_rank u)) 0\<rparr>"

subsection \<open>Over maps\<close>

text \<open>Reading an absent key gives the zero value of the key type, an argument here.\<close>

record 'a UnionFind =
  ufm_parent :: "'a \<rightharpoonup> 'a"
  ufm_rank :: "'a \<rightharpoonup> int"

definition mget :: "'b \<Rightarrow> ('a \<rightharpoonup> 'b) \<Rightarrow> 'a \<Rightarrow> 'b" where
  "mget zero m k = (case m k of None \<Rightarrow> zero | Some v \<Rightarrow> v)"

definition New :: "'a UnionFind" where
  "New = \<lparr>ufm_parent = Map.empty, ufm_rank = Map.empty\<rparr>"

definition MakeSet :: "'a \<Rightarrow> 'a UnionFind \<Rightarrow> 'a UnionFind" where
  "MakeSet x u = (if ufm_parent u x = None then u\<lparr>ufm_parent := (ufm_parent u)(x \<mapsto> x), ufm_rank := (ufm_rank u)(x \<mapsto> 0)\<rparr> else u)"

partial_function (option) find_root_map :: "'a \<Rightarrow> ('a \<rightharpoonup> 'a) \<Rightarrow> 'a \<Rightarrow> (search_error, 'a) result option" where
  "find_root_map zero m root = (let p = mget zero m root in
     if p = root then Some (Inr root) else find_root_map zero m p)"

partial_function (option) compress_map :: "'a \<Rightarrow> ('a \<rightharpoonup> 'a) \<Rightarrow> 'a \<Rightarrow> 'a \<Rightarrow> (search_error, 'a \<rightharpoonup> 'a) result option" where
  "compress_map zero m root x = (let next = mget zero m x in
     if next = root then Some (Inr m) else compress_map zero (m(x \<mapsto> root)) root next)"

declare find_root_map.simps [code] compress_map.simps [code]

definition Find_map :: "'a \<Rightarrow> 'a UnionFind \<Rightarrow> 'a \<Rightarrow> (search_error, 'a \<times> 'a UnionFind) result option" where
  "Find_map zero u x =
     (if ufm_parent u x = None then Some (Inr (x, MakeSet x u))
      else obind (find_root_map zero (ufm_parent u) x) (\<lambda>root.
             obind (compress_map zero (ufm_parent u) root x) (\<lambda>m. Some (Inr (root, u\<lparr>ufm_parent := m\<rparr>)))))"

definition link_roots_map :: "'a \<Rightarrow> 'a \<Rightarrow> 'a UnionFind \<Rightarrow> 'a UnionFind" where
  "link_roots_map ra rb u =
     (let rka = mget 0 (ufm_rank u) ra; rkb = mget 0 (ufm_rank u) rb
      in if rka < rkb then u\<lparr>ufm_parent := (ufm_parent u)(ra \<mapsto> rb)\<rparr>
         else if rka > rkb then u\<lparr>ufm_parent := (ufm_parent u)(rb \<mapsto> ra)\<rparr>
         else u\<lparr>ufm_parent := (ufm_parent u)(rb \<mapsto> ra), ufm_rank := (ufm_rank u)(ra \<mapsto> rka + 1)\<rparr>)"

definition Union_map :: "'a \<Rightarrow> 'a UnionFind \<Rightarrow> 'a \<Rightarrow> 'a \<Rightarrow> (search_error, bool \<times> 'a UnionFind) result option" where
  "Union_map zero u a b = obind (Find_map zero u a) (\<lambda>(ra, u1). obind (Find_map zero u1 b) (\<lambda>(rb, u2).
     if ra = rb then Some (Inr (False, u2)) else Some (Inr (True, link_roots_map ra rb u2))))"

definition Connected_map :: "'a \<Rightarrow> 'a UnionFind \<Rightarrow> 'a \<Rightarrow> 'a \<Rightarrow> (search_error, bool \<times> 'a UnionFind) result option" where
  "Connected_map zero u a b = obind (Find_map zero u a) (\<lambda>(ra, u1).
     obind (Find_map zero u1 b) (\<lambda>(rb, u2). Some (Inr (ra = rb, u2))))"

definition Len_map :: "'a UnionFind \<Rightarrow> nat" where
  "Len_map u = card (dom (ufm_parent u))"

definition Reset_map :: "'a UnionFind \<Rightarrow> 'a UnionFind" where
  "Reset_map u = \<lparr>ufm_parent = Map.empty, ufm_rank = Map.empty\<rparr>"

subsection \<open>Forests\<close>

text \<open>From a node to the root above it, over a parent function, in a number of steps.\<close>

inductive climb :: "('a \<Rightarrow> 'a) \<Rightarrow> 'a \<Rightarrow> 'a \<Rightarrow> nat \<Rightarrow> bool" for p where
  at_root: "p r = r \<Longrightarrow> climb p r r 0"
| up: "p x \<noteq> x \<Longrightarrow> climb p (p x) r n \<Longrightarrow> climb p x r (Suc n)"

inductive_cases climb_rootE: "climb p x r 0"
inductive_cases climb_upE: "climb p x r (Suc n)"

definition forest :: "('a \<Rightarrow> 'a) \<Rightarrow> bool" where
  "forest p \<longleftrightarrow> (\<forall>x. \<exists>r n. climb p x r n)"

definition rep :: "('a \<Rightarrow> 'a) \<Rightarrow> 'a \<Rightarrow> 'a" where
  "rep p x = (THE r. \<exists>n. climb p x r n)"

lemma climb_root: "climb p x r n \<Longrightarrow> p r = r"
  by (induction rule: climb.induct) auto

lemma climb_unique: "climb p x r n \<Longrightarrow> climb p x r' n' \<Longrightarrow> r = r' \<and> n = n'"
proof (induction arbitrary: r' n' rule: climb.induct)
  case (at_root r)
  from at_root.prems show ?case using at_root.hyps by cases auto
next
  case (up x r n)
  from up.prems show ?case
  proof cases
    case at_root
    then show ?thesis using up.hyps by simp
  next
    case (up m)
    then show ?thesis using \<open>\<And>r' n'. climb p (p x) r' n' \<Longrightarrow> r = r' \<and> n = n'\<close> by blast
  qed
qed

lemma rep_climb: "climb p x r n \<Longrightarrow> rep p x = r"
  unfolding rep_def
proof (rule the_equality)
  assume c: "climb p x r n"
  show "\<exists>n. climb p x r n" using c by blast
  show "r' = r" if "\<exists>n. climb p x r' n" for r' using that climb_unique [OF c] by blast
qed

lemma rep_ex: "forest p \<Longrightarrow> \<exists>n. climb p x (rep p x) n"
  using rep_climb by (metis forest_def)

lemma rep_root: "forest p \<Longrightarrow> p (rep p x) = rep p x"
  using rep_ex climb_root by metis

lemma rep_self: "p r = r \<Longrightarrow> rep p r = r"
  using rep_climb [OF at_root] .

text \<open>Compressing one node: its parent becomes its root.\<close>

lemma climb_avoid:
  assumes "climb p y r m" and "climb p x r n" and "m < n"
  shows "climb (p(x := q)) y r m"
  using assms
proof (induction arbitrary: n rule: climb.induct)
  case (at_root r)
  then have "x \<noteq> r" using climb_unique [OF climb.at_root [of p r, OF at_root.hyps], of r n] by auto
  then show ?case using at_root.hyps by (intro climb.at_root) simp
next
  case (up y r m)
  have "x \<noteq> y" using climb_unique [OF climb.up [OF up.hyps]] up.prems by fastforce
  moreover have "climb (p(x := q)) (p y) r m" by (rule up.IH [OF up.prems(1)]) (use up.prems(2) in linarith)
  ultimately show ?case using climb.up [of "p(x := q)" y r m] up.hyps(1) by (simp add: fun_upd_def)
qed

lemma compress_one:
  assumes f: "forest p" and x: "climb p x r n" and ne: "p x \<noteq> x"
  shows "forest (p(x := r))" "rep (p(x := r)) = rep p"
proof -
  have r: "p r = r" "r \<noteq> x" using climb_root [OF x] ne by auto
  have keep: "\<exists>m'. climb (p(x := r)) y z m'" if "climb p y z m" for y z m
    using that
  proof induction
    case (at_root z)
    then have "z \<noteq> x" using ne by auto
    then show ?case using at_root by (metis climb.at_root fun_upd_other)
  next
    case (up y z m)
    show ?case
    proof (cases "y = x")
      case True
      then have "z = r" using climb_unique [OF climb.up [OF up.hyps]] x by simp
      moreover have "climb (p(x := r)) r r 0" using r by (intro climb.at_root) simp
      then have "climb (p(x := r)) x r (Suc 0)" using r(2) by (intro climb.up) simp_all
      ultimately show ?thesis using True by blast
    next
      case False
      then show ?thesis using up.IH up.hyps(1) by (metis climb.up fun_upd_other)
    qed
  qed
  show "forest (p(x := r))" using f keep unfolding forest_def by meson
  show "rep (p(x := r)) = rep p"
  proof
    fix y
    obtain m where "climb p y (rep p y) m" using rep_ex [OF f] by blast
    then show "rep (p(x := r)) y = rep p y" using keep rep_climb by metis
  qed
qed

text \<open>Linking two roots.\<close>

lemma link:
  assumes f: "forest p" and r: "p ra = ra" "p rb = rb" "ra \<noteq> rb"
  shows "forest (p(ra := rb))" "rep (p(ra := rb)) y = (if rep p y = ra then rb else rep p y)"
proof -
  have keep: "\<exists>m'. climb (p(ra := rb)) y (if z = ra then rb else z) m'" if "climb p y z m" for y z m
    using that
  proof induction
    case (at_root z)
    have "climb (p(ra := rb)) rb rb 0" using r by (intro climb.at_root) simp
    then have "climb (p(ra := rb)) ra rb (Suc 0)" using r by (intro climb.up) simp_all
    moreover have "climb (p(ra := rb)) z z 0" if "z \<noteq> ra" using at_root that by (intro climb.at_root) simp
    ultimately show ?case by metis
  next
    case (up y z m)
    then have "y \<noteq> ra" using r by auto
    then show ?case using up by (metis climb.up fun_upd_other)
  qed
  show "forest (p(ra := rb))" using f keep unfolding forest_def by meson
  obtain m where "climb p y (rep p y) m" using rep_ex [OF f] by blast
  from keep [OF this] obtain m' where "climb (p(ra := rb)) y (if rep p y = ra then rb else rep p y) m'" by blast
  then show "rep (p(ra := rb)) y = (if rep p y = ra then rb else rep p y)" by (rule rep_climb)
qed

lemma link_merges:
  assumes "forest p" and "a = rep p x" and "b = rep p y" and "a \<noteq> b"
  shows "rep (p(a := b)) u = rep (p(a := b)) v \<longleftrightarrow>
     rep p u = rep p v \<or> rep p u = rep p x \<and> rep p v = rep p y \<or> rep p u = rep p y \<and> rep p v = rep p x"
  using link(2) [OF assms(1), of a b] rep_root [OF assms(1)] assms(2-4) by auto


subsection \<open>Ranks\<close>

text \<open>
  The invariant of both structures, over a parent function and a rank function: ranks grow along
  parents, and a root of rank k has at least 2^k elements below it.
\<close>

definition ranked :: "'a set \<Rightarrow> ('a \<Rightarrow> 'a) \<Rightarrow> ('a \<Rightarrow> nat) \<Rightarrow> bool" where
  "ranked A p k \<longleftrightarrow> finite A \<and> (\<forall>x\<in>A. p x \<in> A) \<and> (\<forall>x. x \<notin> A \<longrightarrow> p x = x) \<and> forest p \<and>
     (\<forall>x. p x \<noteq> x \<longrightarrow> k x < k (p x)) \<and> (\<forall>r\<in>A. p r = r \<longrightarrow> 2 ^ k r \<le> card {x \<in> A. rep p x = r})"

lemma rankedD:
  assumes "ranked A p k"
  shows "finite A" "x \<in> A \<Longrightarrow> p x \<in> A" "x \<notin> A \<Longrightarrow> p x = x" "forest p" "p x \<noteq> x \<Longrightarrow> k x < k (p x)"
    "r \<in> A \<Longrightarrow> p r = r \<Longrightarrow> 2 ^ k r \<le> card {x \<in> A. rep p x = r}"
  using assms unfolding ranked_def by blast+

lemma climb_ranked:
  assumes k: "ranked A p k" and "climb p x r n"
  shows "k x + n \<le> k r" "x \<in> A \<Longrightarrow> r \<in> A"
  using assms(2)
proof induction
  case (up x r n)
  { case 1 then show ?case using up rankedD(5) [OF k, of x] by linarith }
  { case 2 then show ?case using up rankedD(2) [OF k, of x] by blast }
qed auto

lemma rep_in: "ranked A p k \<Longrightarrow> x \<in> A \<Longrightarrow> rep p x \<in> A"
  using climb_ranked(2) rep_ex rankedD(4) by metis

text \<open>A rank, and the number of steps to a root, is at most the logarithm of the number of elements.\<close>

lemma rank_bound:
  assumes k: "ranked A p k" and x: "x \<in> A" and c: "climb p x r n"
  shows "2 ^ (k x + n) \<le> card A"
proof -
  have "2 ^ (k x + n) \<le> (2::nat) ^ k r" using climb_ranked(1) [OF k c] by simp
  also have "\<dots> \<le> card {y \<in> A. rep p y = r}"
    using rankedD(6) [OF k, of r] climb_ranked(2) [OF k c x] climb_root [OF c] by blast
  also have "\<dots> \<le> card A" using rankedD(1) [OF k] by (intro card_mono) auto
  finally show ?thesis .
qed

lemma ranked_compress:
  assumes k: "ranked A p k" and c: "climb p x r n" and ne: "p x \<noteq> x"
  shows "ranked A (p(x := r)) k" "rep (p(x := r)) = rep p"
proof -
  note one = compress_one [OF rankedD(4) [OF k] c ne]
  show rep: "rep (p(x := r)) = rep p" by (rule one(2))
  have xA: "x \<in> A" using rankedD(3) [OF k] ne by blast
  have rA: "r \<in> A" by (rule climb_ranked(2) [OF k c xA])
  have lt: "k x < k r" using climb_ranked(1) [OF k c] c ne by (cases n) (auto elim: climb.cases)
  show "ranked A (p(x := r)) k" unfolding ranked_def rep
  proof (intro conjI ballI allI impI)
    fix z assume "z \<in> A" "(p(x := r)) z = z"
    then show "2 ^ k z \<le> card {y \<in> A. rep p y = z}" using rankedD(6) [OF k, of z] lt by (auto split: if_splits)
  qed (use one(1) rankedD [OF k] xA rA lt in \<open>auto split: if_splits\<close>)
qed

lemma ranked_link:
  assumes k: "ranked A p k" and A: "ra \<in> A" "rb \<in> A" and r: "p ra = ra" "p rb = rb" "ra \<noteq> rb"
    and le: "k ra \<le> k rb"
  shows "ranked A (p(ra := rb)) (if k ra = k rb then k(rb := k rb + 1) else k)"
proof -
  note lk = link [OF rankedD(4) [OF k] r]
  let ?k = "if k ra = k rb then k(rb := k rb + 1) else k"
  have class_rb: "{x \<in> A. rep (p(ra := rb)) x = rb} = {x \<in> A. rep p x = ra} \<union> {x \<in> A. rep p x = rb}"
    using lk(2) by auto
  have "card ({x \<in> A. rep p x = ra} \<union> {x \<in> A. rep p x = rb}) = card {x \<in> A. rep p x = ra} + card {x \<in> A. rep p x = rb}"
    using r(3) rankedD(1) [OF k] by (intro card_Un_disjoint) auto
  then have size_rb: "2 ^ k ra + 2 ^ k rb \<le> card {x \<in> A. rep (p(ra := rb)) x = rb}"
    using rankedD(6) [OF k A(1) r(1)] rankedD(6) [OF k A(2) r(2)] class_rb by simp
  show ?thesis unfolding ranked_def
  proof (intro conjI ballI allI impI)
    fix z assume z: "z \<in> A" "(p(ra := rb)) z = z"
    then have za: "z \<noteq> ra" using r by auto
    show "2 ^ ?k z \<le> card {x \<in> A. rep (p(ra := rb)) x = z}"
    proof (cases "z = rb")
      case True
      then show ?thesis using size_rb by (cases "k ra = k rb") auto
    next
      case False
      then have "{x \<in> A. rep (p(ra := rb)) x = z} = {x \<in> A. rep p x = z}" using lk(2) za by auto
      then show ?thesis using rankedD(6) [OF k z(1)] z(2) za False by simp
    qed
  next
    fix z assume z: "(p(ra := rb)) z \<noteq> z"
    show "?k z < ?k ((p(ra := rb)) z)"
    proof (cases "z = ra")
      case True
      then show ?thesis using le r by auto
    next
      case False
      then have "k z < k (p z)" "z \<noteq> rb" using z r rankedD(5) [OF k, of z] by auto
      then show ?thesis using False by auto
    qed
  qed (use lk(1) rankedD [OF k] A r in \<open>auto split: if_splits\<close>)
qed


subsection \<open>The contract of a partition\<close>

text \<open>
  What a client relies on: \<open>Find\<close> gives the representative and changes no class, \<open>Union\<close> merges two
  classes and says whether they were distinct. Merging along a list of pairs gives connectivity.
\<close>

definition conn :: "('a \<times> 'a) set \<Rightarrow> ('a \<times> 'a) set" where
  "conn E = (E \<union> E\<inverse>)\<^sup>*"

lemma conn_equiv: "(x, x) \<in> conn E" "(x, y) \<in> conn E \<Longrightarrow> (y, x) \<in> conn E"
  "(x, y) \<in> conn E \<Longrightarrow> (y, z) \<in> conn E \<Longrightarrow> (x, z) \<in> conn E"
proof -
  have "sym (conn E)" unfolding conn_def by (intro sym_rtrancl sym_Un_converse)
  then show "(x, y) \<in> conn E \<Longrightarrow> (y, x) \<in> conn E" by (rule symD)
qed (auto simp: conn_def)

lemma conn_sym: "(x, y) \<in> conn E \<longleftrightarrow> (y, x) \<in> conn E"
  by (rule iffI; erule conn_equiv(2))

lemma conn_step: "(a, b) \<in> E \<Longrightarrow> (a, b) \<in> conn E"
  by (auto simp: conn_def)

lemma conn_mono: "E \<subseteq> F \<Longrightarrow> conn E \<subseteq> conn F"
  unfolding conn_def by (intro rtrancl_mono) auto

lemma conn_least:
  assumes "(x, y) \<in> conn E" and "\<And>a b. (a, b) \<in> E \<Longrightarrow> f a = f b"
  shows "f x = f y"
  using assms(1) unfolding conn_def
proof (induction rule: rtrancl_induct)
  case (step y z)
  then have "f y = f z" using assms(2) [of y z] assms(2) [of z y] by auto
  then show ?case using step.IH by simp
qed simp

lemma conn_insert:
  "(u, v) \<in> conn (insert (a, b) E) \<longleftrightarrow>
     (u, v) \<in> conn E \<or> (u, a) \<in> conn E \<and> (b, v) \<in> conn E \<or> (u, b) \<in> conn E \<and> (a, v) \<in> conn E"
  (is "?l \<longleftrightarrow> ?r")
proof
  have sub: "conn E \<subseteq> conn (insert (a, b) E)" by (rule conn_mono) auto
  have ab: "(a, b) \<in> conn (insert (a, b) E)" by (rule conn_step) simp
  then have ba: "(b, a) \<in> conn (insert (a, b) E)" by (rule conn_equiv(2))
  show ?l if ?r using that sub ab ba conn_equiv(3) by (meson subsetD)
  show ?r if ?l
    using that unfolding conn_def [of "insert (a, b) E"]
  proof (induction rule: rtrancl_induct)
    case base
    then show ?case by (intro disjI1) (rule conn_equiv(1))
  next
    case (step y z)
    have "(y, z) = (a, b) \<or> (y, z) = (b, a) \<or> (y, z) \<in> conn E"
      using step.hyps(2) conn_step [of y z E] conn_step [of z y E] conn_sym [of y z E] by auto
    then consider "y = a" "z = b" | "y = b" "z = a" | "(y, z) \<in> conn E" by blast
    then show ?case
    proof cases
      case 1
      then show ?thesis using step.IH conn_equiv(1) [of b E] by auto
    next
      case 2
      then show ?thesis using step.IH conn_equiv(1) [of a E] by auto
    next
      case 3
      then show ?thesis using step.IH conn_equiv(3) [OF _ 3] by blast
    qed
  qed
qed

definition unions :: "('s \<Rightarrow> 'a \<Rightarrow> 'a \<Rightarrow> ('e, bool \<times> 's) result option) \<Rightarrow> ('a \<times> 'a) list \<Rightarrow> 's \<Rightarrow> ('e, 's) result option" where
  "unions merge es = oeach es (\<lambda>(a, b) s. obind (merge s a b) (\<lambda>(_, s'). Some (Inr s')))"

locale partition =
  fixes inv :: "'s \<Rightarrow> bool" and elems :: "'s \<Rightarrow> 'a set" and class_of :: "'s \<Rightarrow> 'a \<Rightarrow> 'a"
    and find :: "'s \<Rightarrow> 'a \<Rightarrow> (search_error, 'a \<times> 's) result option"
    and union :: "'s \<Rightarrow> 'a \<Rightarrow> 'a \<Rightarrow> (search_error, bool \<times> 's) result option"
  assumes find_law: "inv s \<Longrightarrow> x \<in> elems s \<Longrightarrow>
      \<exists>s'. find s x = Some (Inr (class_of s x, s')) \<and> inv s' \<and> elems s' = elems s \<and> class_of s' = class_of s"
    and union_law: "inv s \<Longrightarrow> a \<in> elems s \<Longrightarrow> b \<in> elems s \<Longrightarrow>
      \<exists>s'. union s a b = Some (Inr (class_of s a \<noteq> class_of s b, s')) \<and> inv s' \<and> elems s' = elems s \<and>
        (\<forall>u v. class_of s' u = class_of s' v \<longleftrightarrow> class_of s u = class_of s v \<or>
           class_of s u = class_of s a \<and> class_of s v = class_of s b \<or>
           class_of s u = class_of s b \<and> class_of s v = class_of s a)"
begin

definition separates :: "'s \<Rightarrow> ('a \<times> 'a) set \<Rightarrow> bool" where
  "separates s E \<longleftrightarrow> (\<forall>u v. class_of s u = class_of s v \<longleftrightarrow> (u, v) \<in> conn E)"

lemma separatesD: "separates s E \<Longrightarrow> class_of s u = class_of s v \<longleftrightarrow> (u, v) \<in> conn E"
  by (simp add: separates_def)

lemma union_step:
  assumes "inv s" and "a \<in> elems s" and "b \<in> elems s" and E: "separates s E"
  shows "\<exists>s'. union s a b = Some (Inr (class_of s a \<noteq> class_of s b, s')) \<and> inv s' \<and> elems s' = elems s \<and>
     separates s' (insert (a, b) E)"
proof -
  from union_law [OF assms(1-3)] obtain s' where s':
    "union s a b = Some (Inr (class_of s a \<noteq> class_of s b, s'))" "inv s'" "elems s' = elems s"
    "\<forall>u v. class_of s' u = class_of s' v \<longleftrightarrow> class_of s u = class_of s v \<or>
           class_of s u = class_of s a \<and> class_of s v = class_of s b \<or>
           class_of s u = class_of s b \<and> class_of s v = class_of s a" by blast
  have "separates s' (insert (a, b) E)"
    unfolding separates_def conn_insert s'(4) [rule_format] separatesD [OF E]
  proof (intro allI)
    fix u v
    have "(v, b) \<in> conn E \<longleftrightarrow> (b, v) \<in> conn E" "(v, a) \<in> conn E \<longleftrightarrow> (a, v) \<in> conn E"
      by (rule conn_sym)+
    then show "((u, v) \<in> conn E \<or> (u, a) \<in> conn E \<and> (v, b) \<in> conn E \<or> (u, b) \<in> conn E \<and> (v, a) \<in> conn E) \<longleftrightarrow>
      ((u, v) \<in> conn E \<or> (u, a) \<in> conn E \<and> (b, v) \<in> conn E \<or> (u, b) \<in> conn E \<and> (a, v) \<in> conn E)" by simp
  qed
  then show ?thesis using s'(1-3) by blast
qed

lemma unions_connect:
  assumes "inv s" and "separates s E" and "\<forall>(a, b) \<in> set es. a \<in> elems s \<and> b \<in> elems s"
  shows "\<exists>s'. unions union es s = Some (Inr s') \<and> inv s' \<and> elems s' = elems s \<and> separates s' (E \<union> set es)"
proof -
  let ?P = "\<lambda>ds s'. inv s' \<and> elems s' = elems s \<and> separates s' (E \<union> set ds)"
  have "\<exists>s'. oeach es (\<lambda>(a, b) s. obind (union s a b) (\<lambda>(_, s'). Some (Inr s'))) s = Some (Inr s') \<and> ?P es s'"
  proof (rule oeach_inv)
    fix ds e rest s'
    assume es: "es = ds @ e # rest" and P: "?P ds s'"
    obtain a b where e: "e = (a, b)" by (cases e)
    then have "a \<in> elems s'" "b \<in> elems s'" using assms(3) es P by auto
    then obtain t where "union s' a b = Some (Inr (class_of s' a \<noteq> class_of s' b, t))" "inv t" "elems t = elems s'"
      "separates t (insert (a, b) (E \<union> set ds))"
      using union_step [of s' a b "E \<union> set ds"] P by blast
    then show "\<exists>t. (case e of (a, b) \<Rightarrow> \<lambda>s. obind (union s a b) (\<lambda>(_, s'). Some (Inr s'))) s' = Some (Inr t) \<and> ?P (ds @ [e]) t"
      using P e by auto
  qed (use assms(1,2) in simp)
  then show ?thesis unfolding unions_def .
qed

text \<open>Two calls of \<open>Find\<close> decide connectivity.\<close>

lemma two_finds:
  assumes "inv s" and "a \<in> elems s" and "b \<in> elems s" and "separates s E"
  shows "\<exists>s'. obind (find s a) (\<lambda>(ra, s1). obind (find s1 b) (\<lambda>(rb, s2). Some (Inr (ra = rb, s2)))) =
     Some (Inr ((a, b) \<in> conn E, s')) \<and> inv s' \<and> elems s' = elems s \<and> separates s' E"
proof -
  from find_law [OF assms(1,2)] obtain s1 where s1: "find s a = Some (Inr (class_of s a, s1))" "inv s1"
    "elems s1 = elems s" "class_of s1 = class_of s" by blast
  from find_law [OF s1(2), of b] s1(3,4) assms(3) obtain s2 where "find s1 b = Some (Inr (class_of s b, s2))"
    "inv s2" "elems s2 = elems s" "class_of s2 = class_of s" by auto
  then show ?thesis using s1(1) separatesD [OF assms(4), of a b] assms(4) by (simp add: separates_def)
qed

end

text \<open>
  Both structures give it the same way: \<open>Union\<close> finds the two roots and links one under the other.
\<close>

locale forest_store =
  fixes inv :: "'s \<Rightarrow> bool" and elems :: "'s \<Rightarrow> 'a set" and stored :: "'s \<Rightarrow> 'a set" and par :: "'s \<Rightarrow> 'a \<Rightarrow> 'a"
    and find :: "'s \<Rightarrow> 'a \<Rightarrow> (search_error, 'a \<times> 's) result option" and link :: "'a \<Rightarrow> 'a \<Rightarrow> 's \<Rightarrow> 's"
    and union :: "'s \<Rightarrow> 'a \<Rightarrow> 'a \<Rightarrow> (search_error, bool \<times> 's) result option"
  assumes par_forest: "inv s \<Longrightarrow> forest (par s)"
    and rep_stored: "inv s \<Longrightarrow> x \<in> stored s \<Longrightarrow> rep (par s) x \<in> stored s"
    and find_root_law: "inv s \<Longrightarrow> x \<in> elems s \<Longrightarrow>
      \<exists>s'. find s x = Some (Inr (rep (par s) x, s')) \<and> inv s' \<and> elems s' = elems s \<and>
        rep (par s') = rep (par s) \<and> insert x (stored s) \<subseteq> stored s'"
    and link_law: "inv s \<Longrightarrow> ra \<in> stored s \<Longrightarrow> rb \<in> stored s \<Longrightarrow> par s ra = ra \<Longrightarrow> par s rb = rb \<Longrightarrow> ra \<noteq> rb \<Longrightarrow>
      inv (link ra rb s) \<and> elems (link ra rb s) = elems s \<and>
      (par (link ra rb s) = (par s)(ra := rb) \<or> par (link ra rb s) = (par s)(rb := ra))"
    and union_eq: "union s a b = obind (find s a) (\<lambda>(ra, s1). obind (find s1 b) (\<lambda>(rb, s2).
      if ra = rb then Some (Inr (False, s2)) else Some (Inr (True, link ra rb s2))))"
begin

lemma link_classes:
  assumes s: "inv s" and st: "rep (par s) a \<in> stored s" "rep (par s) b \<in> stored s"
    and ne: "rep (par s) a \<noteq> rep (par s) b" and t: "t = link (rep (par s) a) (rep (par s) b) s"
  shows "inv t" "elems t = elems s" "rep (par t) u = rep (par t) v \<longleftrightarrow> rep (par s) u = rep (par s) v \<or>
      rep (par s) u = rep (par s) a \<and> rep (par s) v = rep (par s) b \<or>
      rep (par s) u = rep (par s) b \<and> rep (par s) v = rep (par s) a"
proof -
  note f = par_forest [OF s]
  note lk = link_law [OF s st rep_root [OF f] rep_root [OF f] ne, folded t]
  show "inv t" "elems t = elems s" using lk by blast+
  from lk consider "par t = (par s)(rep (par s) a := rep (par s) b)" | "par t = (par s)(rep (par s) b := rep (par s) a)"
    by blast
  then show "rep (par t) u = rep (par t) v \<longleftrightarrow> rep (par s) u = rep (par s) v \<or>
      rep (par s) u = rep (par s) a \<and> rep (par s) v = rep (par s) b \<or>
      rep (par s) u = rep (par s) b \<and> rep (par s) v = rep (par s) a"
  proof cases
    case 1
    show ?thesis unfolding 1 by (rule link_merges [OF f refl refl ne])
  next
    case 2
    show ?thesis unfolding 2 link_merges [OF f refl refl ne [symmetric]] by blast
  qed
qed

lemma union_merges:
  assumes s: "inv s" and ab: "a \<in> elems s" "b \<in> elems s"
  shows "\<exists>s'. union s a b = Some (Inr (rep (par s) a \<noteq> rep (par s) b, s')) \<and> inv s' \<and> elems s' = elems s \<and>
     (\<forall>u v. rep (par s') u = rep (par s') v \<longleftrightarrow> rep (par s) u = rep (par s) v \<or>
        rep (par s) u = rep (par s) a \<and> rep (par s) v = rep (par s) b \<or>
        rep (par s) u = rep (par s) b \<and> rep (par s) v = rep (par s) a)"
proof -
  from find_root_law [OF s ab(1)] obtain s1 where s1: "find s a = Some (Inr (rep (par s) a, s1))" "inv s1"
    "elems s1 = elems s" "rep (par s1) = rep (par s)" "a \<in> stored s1" by blast
  from find_root_law [OF s1(2), of b] s1(3,4) ab(2) obtain s2 where s2: "find s1 b = Some (Inr (rep (par s) b, s2))"
    "inv s2" "elems s2 = elems s" "rep (par s2) = rep (par s)" "insert b (stored s1) \<subseteq> stored s2" by auto
  show ?thesis
  proof (cases "rep (par s) a = rep (par s) b")
    case True
    then show ?thesis using s1 s2 by (auto simp: union_eq)
  next
    case False
    have "rep (par s2) a \<in> stored s2" "rep (par s2) b \<in> stored s2"
      using rep_stored [OF s2(2)] s2(5) s1(5) by blast+
    note lk = link_classes [OF s2(2) this _ refl, unfolded s2(4), OF False]
    have "union s a b = Some (Inr (True, link (rep (par s) a) (rep (par s) b) s2))"
      using s1(1) s2(1) False by (simp add: union_eq)
    then show ?thesis using lk(1,2) s2(3) False
      by (intro exI [of _ "link (rep (par s) a) (rep (par s) b) s2"] conjI allI lk(3)) simp_all
  qed
qed

sublocale partition inv elems "\<lambda>s. rep (par s)" find union
  by unfold_locales (use find_root_law in blast, rule union_merges)

end

subsection \<open>The slices are such a partition\<close>

definition parent_of :: "nat list \<Rightarrow> nat \<Rightarrow> nat" where
  "parent_of ps x = (if x < length ps then ps ! x else x)"

definition rank_of :: "8 word list \<Rightarrow> nat \<Rightarrow> nat" where
  "rank_of ks x = (if x < length ks then unat (ks ! x) else 0)"

definition ufs_ok :: "UnionFindSlice \<Rightarrow> bool" where
  "ufs_ok u \<longleftrightarrow> length (ufs_rank u) = length (ufs_parent u) \<and> length (ufs_parent u) < 2 ^ 64 \<and>
     ranked {..<length (ufs_parent u)} (parent_of (ufs_parent u)) (rank_of (ufs_rank u))"

abbreviation ufs_par :: "UnionFindSlice \<Rightarrow> nat \<Rightarrow> nat" where
  "ufs_par u \<equiv> parent_of (ufs_parent u)"

abbreviation ufs_class :: "UnionFindSlice \<Rightarrow> nat \<Rightarrow> nat" where
  "ufs_class u \<equiv> rep (ufs_par u)"

definition ufs_elems :: "UnionFindSlice \<Rightarrow> nat set" where
  "ufs_elems u = {..<Len u}"

lemma parent_of_upd: "i < length ps \<Longrightarrow> parent_of (ps[i := v]) = (parent_of ps)(i := v)"
  by (auto simp: parent_of_def)

lemma rank_of_upd: "i < length ks \<Longrightarrow> rank_of (ks[i := v]) = (rank_of ks)(i := unat v)"
  by (auto simp: rank_of_def)

lemma parent_of_id: "parent_of [0..<n] = id"
  by (auto simp: parent_of_def)

lemma rank_of_zero: "rank_of (replicate n 0) = (\<lambda>_. 0)"
  by (auto simp: rank_of_def)

lemma forest_id: "forest id"
  unfolding forest_def by (metis climb.at_root id_apply)

lemma rep_id [simp]: "rep id = id"
  using rep_self [of id] by (intro ext) simp

lemma ranked_id: "finite A \<Longrightarrow> ranked A id (\<lambda>_. 0)"
proof -
  have "{x \<in> A. rep id x = r} = {r}" if "r \<in> A" for r using that by auto
  then show "finite A \<Longrightarrow> ranked A id (\<lambda>_. 0)" using forest_id by (simp add: ranked_def)
qed

lemma NewSlice_ok: "n < 2 ^ 64 \<Longrightarrow> ufs_ok (NewSlice n)" "ufs_class (NewSlice n) = id" "Len (NewSlice n) = n"
  by (simp_all add: ufs_ok_def NewSlice_def Len_def parent_of_id rank_of_zero ranked_id)

lemma Reset_slice_eq: "length (ufs_rank u) = length (ufs_parent u) \<Longrightarrow> Reset_slice u = NewSlice (Len u)"
  by (simp add: Reset_slice_def NewSlice_def Len_def)

lemma find_root_climb:
  assumes "climb (parent_of ps) x r n" and "\<forall>i < length ps. ps ! i < length ps" and "x < length ps"
  shows "find_root ps x = Some (Inr r)"
  using assms
proof (induction rule: climb.induct)
  case (at_root r)
  then show ?case by (subst find_root.simps) (simp add: parent_of_def)
next
  case (up x r n)
  then show ?case by (subst find_root.simps) (simp add: parent_of_def)
qed

text \<open>The second loop compresses the path and leaves every class as it was.\<close>

lemma compress_climb:
  assumes "climb (parent_of ps) x r n" and "ranked {..<length ps} (parent_of ps) k" and "x < length ps"
  shows "\<exists>ps'. compress ps r x = Some (Inr ps') \<and> length ps' = length ps \<and>
     ranked {..<length ps} (parent_of ps') k \<and> rep (parent_of ps') = rep (parent_of ps)"
  using assms
proof (induction n arbitrary: ps x rule: nat_induct)
  case 0
  then have "x = r" "ps ! x = r" by (auto elim!: climb_rootE simp: parent_of_def)
  then show ?case using 0 by (subst compress.simps) simp
next
  case (Suc n)
  let ?p = "parent_of ps"
  have px: "?p x = ps ! x" using Suc.prems(3) by (simp add: parent_of_def)
  from Suc.prems(1) have ne: "?p x \<noteq> x" and c: "climb ?p (?p x) r n" by (auto elim: climb_upE)
  show ?case
  proof (cases "ps ! x = r")
    case True
    then show ?thesis using Suc.prems by (subst compress.simps) simp
  next
    case False
    let ?ps = "ps[x := r]"
    have upd: "parent_of ?ps = ?p(x := r)" by (rule parent_of_upd [OF Suc.prems(3)])
    note one = ranked_compress [OF Suc.prems(2,1) ne]
    have "climb (parent_of ?ps) (ps ! x) r n" unfolding upd
      using climb_avoid [OF c Suc.prems(1)] px by simp
    moreover have "ranked {..<length ?ps} (parent_of ?ps) k" using one(1) upd by simp
    moreover have "ps ! x < length ?ps" using rankedD(2) [OF Suc.prems(2), of x] px Suc.prems(3) by simp
    ultimately obtain ps' where ps': "compress ?ps r (ps ! x) = Some (Inr ps')" "length ps' = length ?ps"
      "ranked {..<length ?ps} (parent_of ps') k" "rep (parent_of ps') = rep (parent_of ?ps)"
      using Suc.IH by blast
    have "compress ps r x = compress ?ps r (ps ! x)"
      using False Suc.prems(3) by (subst compress.simps) simp
    then show ?thesis using ps' one(2) upd by simp
  qed
qed

lemma Find_law:
  assumes ok: "ufs_ok u" and x: "x \<in> ufs_elems u"
  shows "\<exists>u'. Find u x = Some (Inr (ufs_class u x, u')) \<and> ufs_ok u' \<and> ufs_elems u' = ufs_elems u \<and>
     ufs_class u' = ufs_class u \<and> insert x (ufs_elems u) \<subseteq> ufs_elems u'"
proof -
  let ?ps = "ufs_parent u"
  have k: "ranked {..<length ?ps} (parent_of ?ps) (rank_of (ufs_rank u))" and x': "x < length ?ps"
    using ok x by (auto simp: ufs_ok_def ufs_elems_def Len_def)
  obtain n where c: "climb (parent_of ?ps) x (ufs_class u x) n"
    using rep_ex [OF rankedD(4) [OF k]] by blast
  have "\<forall>i < length ?ps. ?ps ! i < length ?ps" using rankedD(2) [OF k] by (force simp: parent_of_def)
  then have "find_root ?ps x = Some (Inr (ufs_class u x))" by (rule find_root_climb [OF c _ x'])
  moreover from compress_climb [OF c k x'] obtain ps' where "compress ?ps (ufs_class u x) x = Some (Inr ps')"
    "length ps' = length ?ps" "ranked {..<length ?ps} (parent_of ps') (rank_of (ufs_rank u))"
    "rep (parent_of ps') = rep (parent_of ?ps)" by blast
  ultimately show ?thesis using ok x'
    by (intro exI [of _ "u\<lparr>ufs_parent := ps'\<rparr>"])
      (simp add: Find_def ufs_ok_def ufs_elems_def Len_def)
qed

text \<open>A rank stays below 64: the byte that holds it never wraps around.\<close>

lemma rank_small:
  assumes "ufs_ok u" and "x < Len u"
  shows "unat (ufs_rank u ! x) < 64"
proof -
  let ?n = "length (ufs_parent u)"
  have k: "ranked {..<?n} (parent_of (ufs_parent u)) (rank_of (ufs_rank u))" and x: "x \<in> {..<?n}" and n: "?n < 2 ^ 64"
    and kx: "rank_of (ufs_rank u) x = unat (ufs_rank u ! x)"
    using assms by (auto simp: ufs_ok_def Len_def rank_of_def)
  obtain r n where "climb (parent_of (ufs_parent u)) x r n" using rankedD(4) [OF k] unfolding forest_def by blast
  from rank_bound [OF k x this] have "2 ^ (unat (ufs_rank u ! x) + n) \<le> ?n" using kx by simp
  then have "(2::nat) ^ (unat (ufs_rank u ! x) + n) < 2 ^ 64" using n by simp
  then have "unat (ufs_rank u ! x) + n < 64" by (rule power_less_imp_less_exp [rotated]) simp
  then show ?thesis by linarith
qed

lemma unat_succ_byte: "unat w < 64 \<Longrightarrow> unat (w + 1) = Suc (unat w)" for w :: "8 word"
  by (simp add: unat_word_ariths)

lemma link_roots_ok:
  assumes ok: "ufs_ok u" and r: "ra < Len u" "rb < Len u" "ufs_parent u ! ra = ra" "ufs_parent u ! rb = rb" "ra \<noteq> rb"
  shows "ufs_ok (link_roots ra rb u) \<and> Len (link_roots ra rb u) = Len u \<and>
     (parent_of (ufs_parent (link_roots ra rb u)) = (parent_of (ufs_parent u))(ra := rb) \<or>
      parent_of (ufs_parent (link_roots ra rb u)) = (parent_of (ufs_parent u))(rb := ra))"
proof -
  let ?p = "parent_of (ufs_parent u)" and ?k = "rank_of (ufs_rank u)"
  have k: "ranked {..<length (ufs_parent u)} ?p ?k" and len: "length (ufs_rank u) = length (ufs_parent u)"
    using ok by (auto simp: ufs_ok_def)
  have A: "ra \<in> {..<length (ufs_parent u)}" "rb \<in> {..<length (ufs_parent u)}" and p: "?p ra = ra" "?p rb = rb"
    using r by (auto simp: Len_def parent_of_def)
  have kr: "?k ra = unat (ufs_rank u ! ra)" "?k rb = unat (ufs_rank u ! rb)"
    using A len by (auto simp: rank_of_def)
  consider "ufs_rank u ! ra < ufs_rank u ! rb" | "ufs_rank u ! ra > ufs_rank u ! rb" | "ufs_rank u ! ra = ufs_rank u ! rb"
    by (rule linorder_cases)
  then show ?thesis
  proof cases
    case 1
    then show ?thesis using ranked_link [OF k A p r(5)] kr ok A
      by (simp add: link_roots_def ufs_ok_def Len_def parent_of_upd word_less_nat_alt)
  next
    case 2
    then show ?thesis using ranked_link [OF k A(2,1) p(2,1) r(5) [symmetric]] kr ok A
      by (simp add: link_roots_def ufs_ok_def Len_def parent_of_upd word_less_nat_alt)
  next
    case 3
    then show ?thesis using ranked_link [OF k A(2,1) p(2,1) r(5) [symmetric]] kr ok A len
      by (simp add: link_roots_def ufs_ok_def Len_def parent_of_upd rank_of_upd unat_succ_byte [OF rank_small [OF ok r(2)]])
  qed
qed

interpretation slices: forest_store ufs_ok ufs_elems ufs_elems ufs_par Find link_roots Union
proof
  fix u :: UnionFindSlice and x ra rb a b
  assume ok: "ufs_ok u"
  then have k: "ranked (ufs_elems u) (ufs_par u) (rank_of (ufs_rank u))" by (simp add: ufs_ok_def ufs_elems_def Len_def)
  show "forest (ufs_par u)" by (rule rankedD(4) [OF k])
  show "x \<in> ufs_elems u \<Longrightarrow> ufs_class u x \<in> ufs_elems u" by (rule rep_in [OF k])
  show "x \<in> ufs_elems u \<Longrightarrow> \<exists>u'. Find u x = Some (Inr (ufs_class u x, u')) \<and> ufs_ok u' \<and> ufs_elems u' = ufs_elems u \<and>
     ufs_class u' = ufs_class u \<and> insert x (ufs_elems u) \<subseteq> ufs_elems u'" by (rule Find_law [OF ok])
  show "ra \<in> ufs_elems u \<Longrightarrow> rb \<in> ufs_elems u \<Longrightarrow> ufs_par u ra = ra \<Longrightarrow> ufs_par u rb = rb \<Longrightarrow> ra \<noteq> rb \<Longrightarrow>
      ufs_ok (link_roots ra rb u) \<and> ufs_elems (link_roots ra rb u) = ufs_elems u \<and>
      (ufs_par (link_roots ra rb u) = (ufs_par u)(ra := rb) \<or> ufs_par (link_roots ra rb u) = (ufs_par u)(rb := ra))"
    using link_roots_ok [OF ok, of ra rb] by (simp add: ufs_elems_def Len_def parent_of_def split: if_splits)
qed (simp add: Union_def)

subsection \<open>The maps are such a partition\<close>

text \<open>An element not yet in the map is its own class.\<close>

definition parent_in :: "('a \<rightharpoonup> 'a) \<Rightarrow> 'a \<Rightarrow> 'a" where
  "parent_in m x = (case m x of None \<Rightarrow> x | Some y \<Rightarrow> y)"

definition rank_in :: "('a \<rightharpoonup> int) \<Rightarrow> 'a \<Rightarrow> nat" where
  "rank_in m x = nat (mget 0 m x)"

definition ufm_ok :: "'a UnionFind \<Rightarrow> bool" where
  "ufm_ok u \<longleftrightarrow> (\<forall>x. 0 \<le> mget 0 (ufm_rank u) x) \<and> ranked (dom (ufm_parent u)) (parent_in (ufm_parent u)) (rank_in (ufm_rank u))"

abbreviation ufm_par :: "'a UnionFind \<Rightarrow> 'a \<Rightarrow> 'a" where
  "ufm_par u \<equiv> parent_in (ufm_parent u)"

abbreviation ufm_class :: "'a UnionFind \<Rightarrow> 'a \<Rightarrow> 'a" where
  "ufm_class u \<equiv> rep (ufm_par u)"

lemma parent_in_upd [simp]: "parent_in (m(x \<mapsto> v)) = (parent_in m)(x := v)"
  by (auto simp: parent_in_def)

lemma rank_in_upd [simp]: "rank_in (m(x \<mapsto> v)) = (rank_in m)(x := nat v)"
  by (auto simp: rank_in_def mget_def)

lemma mget_upd [simp]: "mget z (m(x \<mapsto> v)) y = (if y = x then v else mget z m y)"
  by (simp add: mget_def)

lemma mget_parent: "x \<in> dom m \<Longrightarrow> mget z m x = parent_in m x"
  by (auto simp: mget_def parent_in_def)

lemma ranked_insert:
  assumes k: "ranked A p k" and x: "x \<notin> A"
  shows "ranked (insert x A) p (k(x := 0))"
proof -
  have px: "p x = x" "rep p x = x" using rankedD(3) [OF k x] rep_self by auto
  have other: "{y \<in> insert x A. rep p y = r} = {y \<in> A. rep p y = r}" if "r \<in> A" for r using that px x by auto
  have own: "{y \<in> insert x A. rep p y = x} = {x}" using px rep_in [OF k] x by auto
  show ?thesis unfolding ranked_def
  proof (intro conjI ballI allI impI)
    fix r assume r: "r \<in> insert x A" "p r = r"
    show "2 ^ (k(x := 0)) r \<le> card {y \<in> insert x A. rep p y = r}"
    proof (cases "r = x")
      case True
      then show ?thesis using own by simp
    next
      case False
      then have "r \<in> A" using r(1) by simp
      then show ?thesis using other [of r] rankedD(6) [OF k, of r] r(2) False by simp
    qed
  next
    fix y assume y: "p y \<noteq> y"
    then have "y \<in> A" "p y \<in> A" using rankedD(2,3) [OF k] by blast+
    then have "y \<noteq> x" "p y \<noteq> x" using x by auto
    then show "(k(x := 0)) y < (k(x := 0)) (p y)" using rankedD(5) [OF k y] by simp
  qed (use rankedD [OF k] px in \<open>auto\<close>)
qed

lemma MakeSet_ok:
  assumes ok: "ufm_ok u"
  shows "ufm_ok (MakeSet x u)" "ufm_par (MakeSet x u) = ufm_par u" "dom (ufm_parent (MakeSet x u)) = insert x (dom (ufm_parent u))"
proof -
  show par: "ufm_par (MakeSet x u) = ufm_par u" by (auto simp: MakeSet_def parent_in_def)
  show dm: "dom (ufm_parent (MakeSet x u)) = insert x (dom (ufm_parent u))" by (auto simp: MakeSet_def)
  show "ufm_ok (MakeSet x u)"
  proof (cases "x \<in> dom (ufm_parent u)")
    case True
    then have "MakeSet x u = u" by (auto simp: MakeSet_def)
    then show ?thesis using ok by simp
  next
    case False
    then have "ufm_rank (MakeSet x u) = (ufm_rank u)(x \<mapsto> 0)" by (auto simp: MakeSet_def)
    then show ?thesis using ok ranked_insert [OF _ False, of "ufm_par u" "rank_in (ufm_rank u)"]
      unfolding ufm_ok_def par dm by simp
  qed
qed

lemma New_ok: "ufm_ok New" "ufm_class New = id" "Reset_map u = New" "Len_map New = 0"
proof -
  have id: "parent_in Map.empty = id" by (auto simp: parent_in_def)
  have rk: "rank_in Map.empty = (\<lambda>_. 0)" by (auto simp: rank_in_def mget_def)
  show "ufm_ok New" "ufm_class New = id" "Reset_map u = New" "Len_map New = 0"
    using ranked_id [of "{}"] by (simp_all add: New_def ufm_ok_def id rk mget_def Reset_map_def Len_map_def del: id_apply)
qed

lemma find_root_map_climb:
  assumes "climb (parent_in m) x r n" and "\<forall>y \<in> dom m. parent_in m y \<in> dom m" and "x \<in> dom m"
  shows "find_root_map z m x = Some (Inr r)"
  using assms
proof (induction rule: climb.induct)
  case (at_root r)
  then show ?case by (subst find_root_map.simps) (simp add: mget_parent)
next
  case (up x r n)
  then show ?case by (subst find_root_map.simps) (simp add: mget_parent)
qed

lemma compress_map_climb:
  assumes "climb (parent_in m) x r n" and "ranked (dom m) (parent_in m) k" and "x \<in> dom m"
  shows "\<exists>m'. compress_map z m r x = Some (Inr m') \<and> dom m' = dom m \<and>
     ranked (dom m) (parent_in m') k \<and> rep (parent_in m') = rep (parent_in m)"
  using assms
proof (induction n arbitrary: m x rule: nat_induct)
  case 0
  then have "parent_in m x = r" by (auto elim!: climb_rootE)
  then show ?case using 0 by (subst compress_map.simps) (simp add: mget_parent)
next
  case (Suc n)
  let ?p = "parent_in m"
  from Suc.prems(1) have ne: "?p x \<noteq> x" and c: "climb ?p (?p x) r n" by (auto elim: climb_upE)
  show ?case
  proof (cases "?p x = r")
    case True
    then show ?thesis using Suc.prems by (subst compress_map.simps) (simp add: mget_parent)
  next
    case False
    note one = ranked_compress [OF Suc.prems(2,1) ne]
    have dm: "dom (m(x \<mapsto> r)) = dom m" using Suc.prems(3) by auto
    have "climb (parent_in (m(x \<mapsto> r))) (?p x) r n" using climb_avoid [OF c Suc.prems(1)] by simp
    moreover have "ranked (dom (m(x \<mapsto> r))) (parent_in (m(x \<mapsto> r))) k" unfolding dm using one(1) by simp
    moreover have "?p x \<in> dom (m(x \<mapsto> r))" unfolding dm by (rule rankedD(2) [OF Suc.prems(2,3)])
    ultimately obtain m' where m': "compress_map z (m(x \<mapsto> r)) r (?p x) = Some (Inr m')" "dom m' = dom (m(x \<mapsto> r))"
      "ranked (dom (m(x \<mapsto> r))) (parent_in m') k" "rep (parent_in m') = rep (parent_in (m(x \<mapsto> r)))"
      using Suc.IH by blast
    have "compress_map z m r x = compress_map z (m(x \<mapsto> r)) r (?p x)"
      using False Suc.prems(3) by (subst compress_map.simps) (simp add: mget_parent)
    then show ?thesis using m' one(2) dm by simp
  qed
qed

lemma Find_map_law:
  assumes ok: "ufm_ok u"
  shows "\<exists>u'. Find_map z u x = Some (Inr (ufm_class u x, u')) \<and> ufm_ok u' \<and> ufm_class u' = ufm_class u \<and>
     insert x (dom (ufm_parent u)) \<subseteq> dom (ufm_parent u')"
proof (cases "x \<in> dom (ufm_parent u)")
  case False
  then have "ufm_class u x = x" by (auto intro: rep_self simp: parent_in_def)
  moreover have "Find_map z u x = Some (Inr (x, MakeSet x u))" using False by (auto simp: Find_map_def)
  ultimately show ?thesis using MakeSet_ok [OF ok, of x] by (simp add: subset_insertI)
next
  case x: True
  let ?m = "ufm_parent u"
  have k: "ranked (dom ?m) (parent_in ?m) (rank_in (ufm_rank u))" using ok by (simp add: ufm_ok_def)
  obtain n where c: "climb (parent_in ?m) x (ufm_class u x) n" using rep_ex [OF rankedD(4) [OF k]] by blast
  have "\<forall>y \<in> dom ?m. parent_in ?m y \<in> dom ?m" using rankedD(2) [OF k] by blast
  then have "find_root_map z ?m x = Some (Inr (ufm_class u x))" by (rule find_root_map_climb [OF c _ x])
  moreover from compress_map_climb [OF c k x, of z] obtain m' where "compress_map z ?m (ufm_class u x) x = Some (Inr m')"
    "dom m' = dom ?m" "ranked (dom ?m) (parent_in m') (rank_in (ufm_rank u))"
    "rep (parent_in m') = rep (parent_in ?m)" by blast
  ultimately show ?thesis using ok x
    by (intro exI [of _ "u\<lparr>ufm_parent := m'\<rparr>"]) (auto simp: Find_map_def ufm_ok_def)
qed

lemma link_roots_map_ok:
  assumes ok: "ufm_ok u" and A: "ra \<in> dom (ufm_parent u)" "rb \<in> dom (ufm_parent u)"
    and r: "ufm_par u ra = ra" "ufm_par u rb = rb" "ra \<noteq> rb"
  shows "ufm_ok (link_roots_map ra rb u) \<and>
     (ufm_par (link_roots_map ra rb u) = (ufm_par u)(ra := rb) \<or> ufm_par (link_roots_map ra rb u) = (ufm_par u)(rb := ra))"
proof -
  let ?k = "mget 0 (ufm_rank u)"
  have k: "ranked (dom (ufm_parent u)) (ufm_par u) (rank_in (ufm_rank u))" and pos: "\<And>x. 0 \<le> ?k x"
    using ok by (auto simp: ufm_ok_def)
  have dm: "insert ra (dom (ufm_parent u)) = dom (ufm_parent u)" "insert rb (dom (ufm_parent u)) = dom (ufm_parent u)"
    using A by auto
  have rk: "rank_in (ufm_rank u) ra < rank_in (ufm_rank u) rb \<longleftrightarrow> ?k ra < ?k rb"
    "rank_in (ufm_rank u) rb < rank_in (ufm_rank u) ra \<longleftrightarrow> ?k rb < ?k ra"
    using pos [of ra] pos [of rb] by (auto simp: rank_in_def)
  consider "?k ra < ?k rb" | "?k ra > ?k rb" | "?k ra = ?k rb" by (rule linorder_cases)
  then show ?thesis
  proof cases
    case 1
    then show ?thesis using ranked_link [OF k A r(1,2,3)] rk(1) pos
      by (simp add: link_roots_map_def ufm_ok_def dm)
  next
    case 2
    then show ?thesis using ranked_link [OF k A(2,1) r(2,1) r(3) [symmetric]] rk(2) pos
      by (simp add: link_roots_map_def ufm_ok_def dm)
  next
    case 3
    then have "rank_in (ufm_rank u) rb = rank_in (ufm_rank u) ra" "nat (?k rb + 1) = Suc (rank_in (ufm_rank u) ra)"
      using pos [of rb] by (auto simp: rank_in_def)
    then show ?thesis using 3 ranked_link [OF k A(2,1) r(2,1) r(3) [symmetric]] pos
      by (simp add: link_roots_map_def ufm_ok_def dm)
  qed
qed

interpretation maps: forest_store ufm_ok "\<lambda>_. UNIV" "\<lambda>u. dom (ufm_parent u)" ufm_par "Find_map z" link_roots_map "Union_map z" for z
proof
  fix u :: "'a UnionFind" and x ra rb
  assume ok: "ufm_ok u"
  then have k: "ranked (dom (ufm_parent u)) (ufm_par u) (rank_in (ufm_rank u))" by (simp add: ufm_ok_def)
  show "forest (ufm_par u)" by (rule rankedD(4) [OF k])
  show "x \<in> dom (ufm_parent u) \<Longrightarrow> ufm_class u x \<in> dom (ufm_parent u)" by (rule rep_in [OF k])
  show "\<exists>u'. Find_map z u x = Some (Inr (ufm_class u x, u')) \<and> ufm_ok u' \<and> (UNIV :: 'a set) = UNIV \<and>
     ufm_class u' = ufm_class u \<and> insert x (dom (ufm_parent u)) \<subseteq> dom (ufm_parent u')"
    using Find_map_law [OF ok] by blast
  show "ra \<in> dom (ufm_parent u) \<Longrightarrow> rb \<in> dom (ufm_parent u) \<Longrightarrow> ufm_par u ra = ra \<Longrightarrow> ufm_par u rb = rb \<Longrightarrow> ra \<noteq> rb \<Longrightarrow>
      ufm_ok (link_roots_map ra rb u) \<and> (UNIV :: 'a set) = UNIV \<and>
      (ufm_par (link_roots_map ra rb u) = (ufm_par u)(ra := rb) \<or> ufm_par (link_roots_map ra rb u) = (ufm_par u)(rb := ra))"
    using link_roots_map_ok [OF ok] by blast
qed (simp add: Union_map_def)

subsection \<open>Connectivity\<close>

lemma NewSlice_separates: "slices.separates (NewSlice n) {}"
  by (simp add: slices.separates_def NewSlice_ok(2) conn_def)

lemma New_separates: "maps.separates New {}"
  by (simp add: maps.separates_def New_ok(2) conn_def)

text \<open>
  Property C29. Both union-find structures decide connectivity: after the merges of any list of pairs, which
  never fail and always return, \<open>Connected\<close> holds exactly of the elements joined by a chain of those
  pairs. In the slice-backed structure every rank stays below 64, so that the byte holding it never wraps.
\<close>

theorem unionfind_connectivity:
  assumes "n < 2 ^ 64" and "\<forall>(a, b) \<in> set es. a < n \<and> b < n" and "x < n" and "y < n"
  shows "(\<exists>u u'. unions Union es (NewSlice n) = Some (Inr u) \<and> Connected u x y = Some (Inr ((x, y) \<in> conn (set es), u')) \<and>
           Len u' = n \<and> (\<forall>i < n. unat (ufs_rank u' ! i) < 64)) \<and>
         (\<exists>m m'. unions (Union_map z) ds New = Some (Inr m) \<and> Connected_map z m v w = Some (Inr ((v, w) \<in> conn (set ds), m')))"
proof
  have "\<forall>(a, b) \<in> set es. a \<in> ufs_elems (NewSlice n) \<and> b \<in> ufs_elems (NewSlice n)"
    using assms(2) by (simp add: ufs_elems_def NewSlice_ok(3))
  from slices.unions_connect [OF NewSlice_ok(1) [OF assms(1)] NewSlice_separates this]
  obtain u where u: "unions Union es (NewSlice n) = Some (Inr u)" "ufs_ok u" "ufs_elems u = {..<n}" "slices.separates u (set es)"
    by (auto simp: ufs_elems_def NewSlice_ok(3))
  from slices.two_finds [OF u(2) _ _ u(4), of x y] u(3) assms(3,4) obtain u' where
    u': "Connected u x y = Some (Inr ((x, y) \<in> conn (set es), u'))" "ufs_ok u'" "ufs_elems u' = {..<n}"
    by (auto simp: Connected_def)
  have "Len u' = n" using u'(3) by (simp add: ufs_elems_def)
  then show "\<exists>u u'. unions Union es (NewSlice n) = Some (Inr u) \<and> Connected u x y = Some (Inr ((x, y) \<in> conn (set es), u')) \<and>
      Len u' = n \<and> (\<forall>i < n. unat (ufs_rank u' ! i) < 64)"
    using u(1) u'(1) rank_small [OF u'(2)] by blast
  obtain m where m: "unions (Union_map z) ds New = Some (Inr m)" "ufm_ok m" "maps.separates m (set ds)"
    using maps.unions_connect [OF New_ok(1) New_separates, of ds z] by auto
  from maps.two_finds [OF m(2) _ _ m(3), of v w z] show "\<exists>m m'. unions (Union_map z) ds New = Some (Inr m) \<and>
      Connected_map z m v w = Some (Inr ((v, w) \<in> conn (set ds), m'))"
    using m(1) by (auto simp: Connected_map_def)
qed

theorem unionfind_connectivity_witness:
  "\<exists>u u'. unions Union [(0, 1), (2, 3), (1, 2)] (NewSlice 5) = Some (Inr u) \<and> Connected u 0 3 = Some (Inr (True, u')) \<and> Len u' = 5"
proof -
  let ?es = "[(0, 1), (2, 3), (1, 2)] :: (nat \<times> nat) list"
  have "(0, 3) \<in> conn (set ?es)"
    by (rule conn_equiv(3) [OF conn_step [of 0 1] conn_equiv(3) [OF conn_step [of 1 2] conn_step [of 2 3]]]) simp_all
  then show ?thesis using unionfind_connectivity [of 5 ?es 0 3 0 "[]" 0 0] by auto
qed

end
