(* ===== verification/Search_WCC.thy ===== *)
theory Search_WCC
  imports Graph_CSR Union_Find
begin

text \<open>
  Weakly connected components (\<open>search/wcc.go\<close>): the live nodes are renumbered densely, every arc
  merges its endpoints in a slice-backed union-find, and a last sweep numbers the components in the
  order of their first node. \<open>cancelled\<close> says whether the context is cancelled at the given poll.
\<close>

subsection \<open>The algorithm\<close>

definition wccBuildDense :: "'w csr \<Rightarrow> nat \<Rightarrow> (search_error, int list \<times> nat) result" where
  "wccBuildDense c maxID =
     result_bind (LiveMask c) (\<lambda>mask.
       each [0..<maxID] (\<lambda>i (dense, live). result_bind (read_at mask i) (\<lambda>b.
         if b then result_bind (write_at dense i (int live)) (\<lambda>d. Inr (d, live + 1))
         else result_bind (write_at dense i (- 1)) (\<lambda>d. Inr (d, live)))) (replicate maxID 0, 0))"

definition wccGhostComponent :: "nat \<Rightarrow> int list" where
  "wccGhostComponent maxID = replicate maxID (- 1)"

text \<open>The numbering of the components: the label of a root, a new one at its first node.\<close>

definition relabel_node :: "nat \<Rightarrow> nat \<Rightarrow> int list \<times> (nat \<rightharpoonup> nat) \<times> nat \<Rightarrow> int list \<times> (nat \<rightharpoonup> nat) \<times> nat" where
  "relabel_node i r st = (case st of (component, rootRemap, k) \<Rightarrow>
     (case rootRemap r of
        None \<Rightarrow> (component[i := int k], rootRemap(r \<mapsto> k), k + 1)
      | Some ident \<Rightarrow> (component[i := int ident], rootRemap, k)))"

definition wccRelabel :: "UnionFindSlice \<Rightarrow> int list \<Rightarrow> nat \<Rightarrow> (search_error, int list \<times> nat) result option" where
  "wccRelabel uf dense maxID =
     obind (oeach [0..<maxID] (\<lambda>i (uf, st). obind (Some (read_at dense i)) (\<lambda>di.
         if di < 0 then Some (Inr (uf, st))
         else obind (Find uf (nat di)) (\<lambda>(r, uf'). Some (Inr (uf', relabel_node i r st)))))
       (uf, (wccGhostComponent maxID, Map.empty, 0)))
     (\<lambda>(uf, component, rootRemap, k). Some (Inr (component, k)))"

definition union_arc :: "'w csr \<Rightarrow> int list \<Rightarrow> nat \<Rightarrow> nat \<Rightarrow> UnionFindSlice \<Rightarrow> (search_error, UnionFindSlice) result option" where
  "union_arc c dense du k uf =
     obind (Some (read_at (csr_edges c) k)) (\<lambda>v. obind (Some (read_at dense v)) (\<lambda>dv.
       if dv < 0 then Some (Inr uf)
       else obind (Union uf du (nat dv)) (\<lambda>(_, uf'). Some (Inr uf'))))"

definition union_node :: "'w csr \<Rightarrow> int list \<Rightarrow> nat \<Rightarrow> UnionFindSlice \<Rightarrow> (search_error, UnionFindSlice) result option" where
  "union_node c dense u uf =
     obind (Some (read_at dense u)) (\<lambda>du.
       if du < 0 then Some (Inr uf)
       else obind (Some (read_at (csr_vertices c) u)) (\<lambda>st. obind (Some (read_at (csr_vertices c) (u + 1))) (\<lambda>en.
         oeach [st..<en] (union_arc c dense (nat du)) uf)))"

definition WCCCtx :: "(nat \<Rightarrow> bool) \<Rightarrow> 'w csr \<Rightarrow> (search_error, int list \<times> nat) result option" where
  "WCCCtx cancelled c =
     (if cancelled 0 then Some (Inl ErrCancelled)
      else let maxID = MaxNodeID c
           in if maxID = 0 then Some (Inr ([], 0))
              else obind (Some (wccBuildDense c maxID)) (\<lambda>(dense, live).
                if live = 0 then Some (Inr (wccGhostComponent maxID, 0))
                else obind (oeach [0..<maxID] (union_node c dense) (NewSlice live)) (\<lambda>uf.
                  if cancelled 1 then Some (Inl ErrCancelled) else wccRelabel uf dense maxID)))"

definition WCC :: "'w csr \<Rightarrow> (search_error, int list \<times> nat) result option" where
  "WCC c = WCCCtx (\<lambda>_. False) c"

subsection \<open>The dense numbering\<close>

text \<open>The number of live nodes below a node is its index.\<close>

definition idx :: "'w csr \<Rightarrow> nat \<Rightarrow> nat" where
  "idx c i = card {j. j < i \<and> live c j}"

lemma idx_Suc: "idx c (Suc i) = (if live c i then Suc (idx c i) else idx c i)"
proof -
  have "{j. j < Suc i \<and> live c j} = (if live c i then insert i {j. j < i \<and> live c j} else {j. j < i \<and> live c j})"
    by (auto simp: less_Suc_eq)
  then show ?thesis by (simp add: idx_def)
qed

lemma idx_mono: "i \<le> j \<Longrightarrow> idx c i \<le> idx c j"
  unfolding idx_def by (intro card_mono) auto

lemma idx_less: "live c i \<Longrightarrow> i < j \<Longrightarrow> idx c i < idx c j"
  using idx_Suc [of c i] idx_mono [of "Suc i" j c] by simp

lemma idx_inj: "inj_on (idx c) {i. live c i}"
proof (rule inj_onI)
  fix i j assume "i \<in> {i. live c i}" "j \<in> {i. live c i}" "idx c i = idx c j"
  then show "i = j" using idx_less [of c i j] idx_less [of c j i] by (cases i j rule: linorder_cases) auto
qed

lemma idx_le: "idx c n \<le> n"
proof -
  have "card {j. j < n \<and> live c j} \<le> card {..<n}" by (intro card_mono) auto
  then show ?thesis by (simp add: idx_def)
qed

lemma wccBuildDense_ok:
  assumes wf: "well_formed c"
  shows "\<exists>dense. wccBuildDense c (MaxNodeID c) = Inr (dense, idx c (MaxNodeID c)) \<and> length dense = MaxNodeID c \<and>
     (\<forall>i < MaxNodeID c. dense ! i = (if live c i then int (idx c i) else - 1))"
proof -
  let ?n = "MaxNodeID c"
  obtain mask where mask: "LiveMask c = Inr mask" "length mask = ?n" "\<forall>i < ?n. mask ! i \<longleftrightarrow> live c i"
    using LiveMask_ok [OF wf] by blast
  let ?body = "\<lambda>i (dense, live). result_bind (read_at mask i) (\<lambda>b.
     if b then result_bind (write_at dense i (int live)) (\<lambda>d. Inr (d, live + 1))
     else result_bind (write_at dense i (- 1)) (\<lambda>d. Inr (d, live)))"
  let ?P = "\<lambda>ys (dense, live). live = idx c (length ys) \<and> length dense = ?n \<and>
     (\<forall>i < length ys. dense ! i = (if Graph_CSR.live c i then int (idx c i) else - 1))"
  have "\<exists>s. each [0..<?n] ?body (replicate ?n 0, 0) = Inr s \<and> ?P [0..<?n] s"
  proof (rule each_inv)
    show "?P [] (replicate ?n 0, 0)" by (simp add: idx_def)
  next
    fix ys i zs and s :: "int list \<times> nat"
    assume e: "[0..<?n] = ys @ i # zs" and P: "?P ys s"
    obtain dense lv where s: "s = (dense, lv)" by (cases s)
    have i: "length ys = i" "i < ?n" using upt_split [OF e] by auto
    show "\<exists>s'. ?body i s = Inr s' \<and> ?P (ys @ [i]) s'"
      using P i mask(2,3) by (auto simp: s idx_Suc less_Suc_eq nth_list_update)
  qed
  then show ?thesis using mask(1) by (auto simp: wccBuildDense_def)
qed

subsection \<open>The merges\<close>

lemma conn_image:
  assumes inj: "inj_on f V" and E: "\<And>a b. (a, b) \<in> E \<Longrightarrow> a \<in> V \<and> b \<in> V" and V: "x \<in> V" "y \<in> V"
  shows "(f x, f y) \<in> conn (map_prod f f ` E) \<longleftrightarrow> (x, y) \<in> conn E"
proof
  assume "(x, y) \<in> conn E"
  then show "(f x, f y) \<in> conn (map_prod f f ` E)" unfolding conn_def
  proof (induction rule: rtrancl_induct)
    case (step b d)
    then have "(f b, f d) \<in> map_prod f f ` E \<union> (map_prod f f ` E)\<inverse>" by force
    then show ?case using step.IH by (rule rtrancl_into_rtrancl [rotated])
  qed simp
next
  have "\<exists>b \<in> V. z = f b \<and> (x, b) \<in> conn E" if "(f x, z) \<in> conn (map_prod f f ` E)" for z
    using that unfolding conn_def [of "map_prod f f ` E"]
  proof (induction rule: rtrancl_induct)
    case base
    show ?case by (intro bexI [OF _ V(1)] conjI refl conn_equiv(1))
  next
    case (step d z)
    then obtain b where b: "b \<in> V" "d = f b" "(x, b) \<in> conn E" by blast
    from step.hyps(2) obtain a e where ae: "(a, e) \<in> E" "d = f a \<and> z = f e \<or> d = f e \<and> z = f a" by auto
    have in_V: "a \<in> V" "e \<in> V" using E [OF ae(1)] by auto
    have c: "(a, e) \<in> conn E" "(e, a) \<in> conn E" using conn_step [OF ae(1)] conn_sym [of a e E] by auto
    from ae(2) show ?case
    proof
      assume "d = f a \<and> z = f e"
      moreover from this have "b = a" using inj_onD [OF inj, of b a] b in_V by simp
      ultimately show ?case using in_V(2) conn_equiv(3) [OF b(3)] c(1) by blast
    next
      assume "d = f e \<and> z = f a"
      moreover from this have "b = e" using inj_onD [OF inj, of b e] b in_V by simp
      ultimately show ?case using in_V(1) conn_equiv(3) [OF b(3)] c(2) by blast
    qed
  qed
  moreover assume "(f x, f y) \<in> conn (map_prod f f ` E)"
  ultimately obtain b where "b \<in> V" "f y = f b" "(x, b) \<in> conn E" by blast
  then show "(x, y) \<in> conn E" using inj_onD [OF inj, of y b] V(2) by simp
qed

definition links_of :: "'w csr \<Rightarrow> nat \<Rightarrow> nat list \<Rightarrow> (nat \<times> nat) set" where
  "links_of c u ks = (\<lambda>k. (u, csr_edges c ! k)) ` set ks"

lemma links_slots: "links c = (\<Union>u \<in> {..<MaxNodeID c}. links_of c u (slots c u))"
  by (auto simp: links_def links_of_def)

lemma slot_live:
  assumes "u < MaxNodeID c" and "k \<in> set (slots c u)"
  shows "live c u" "live c (csr_edges c ! k)"
  using assms unfolding live_def links_def by blast+

abbreviation dense_ok :: "'w csr \<Rightarrow> int list \<Rightarrow> bool" where
  "dense_ok c dense \<equiv> length dense = MaxNodeID c \<and> (\<forall>i < MaxNodeID c. dense ! i = (if live c i then int (idx c i) else - 1))"

text \<open>What the merges keep: the structure separates the links merged so far, renumbered.\<close>

definition merged :: "'w csr \<Rightarrow> (nat \<times> nat) set \<Rightarrow> UnionFindSlice \<Rightarrow> bool" where
  "merged c E uf \<longleftrightarrow> ufs_ok uf \<and> ufs_elems uf = {..<idx c (MaxNodeID c)} \<and> slices.separates uf (map_prod (idx c) (idx c) ` E)"

lemma union_arc_ok:
  assumes wf: "well_formed c" and d: "dense_ok c dense" and u: "u < MaxNodeID c" and k: "k \<in> set (slots c u)" and m: "merged c E uf"
  shows "\<exists>uf'. union_arc c dense (idx c u) k uf = Some (Inr uf') \<and> merged c (insert (u, csr_edges c ! k) E) uf'"
proof -
  let ?v = "csr_edges c ! k"
  note r = slots_range [OF wf u k] and l = slot_live [OF u k]
  have el: "idx c u \<in> ufs_elems uf" "idx c ?v \<in> ufs_elems uf" using m idx_less [OF l(1) u] idx_less [OF l(2) r(2)] by (auto simp: merged_def)
  have ok: "ufs_ok uf" "slices.separates uf (map_prod (idx c) (idx c) ` E)" using m by (auto simp: merged_def)
  from slices.union_step [OF ok(1) el ok(2)] obtain uf' where uf': "Union uf (idx c u) (idx c ?v) = Some (Inr (ufs_class uf (idx c u) \<noteq> ufs_class uf (idx c ?v), uf'))"
    "ufs_ok uf'" "ufs_elems uf' = ufs_elems uf" "slices.separates uf' (insert (idx c u, idx c ?v) (map_prod (idx c) (idx c) ` E))"
    by blast
  have "merged c (insert (u, ?v) E) uf'" using uf'(2-4) m by (simp add: merged_def)
  then show ?thesis using r d l uf'(1) by (simp add: union_arc_def)
qed

lemma union_node_ok:
  assumes wf: "well_formed c" and d: "dense_ok c dense" and u: "u < MaxNodeID c" and m: "merged c E uf"
  shows "\<exists>uf'. union_node c dense u uf = Some (Inr uf') \<and> merged c (E \<union> links_of c u (slots c u)) uf'"
proof (cases "live c u")
  case False
  then have "slots c u = []" using slot_live(1) [OF u] by (cases "slots c u") auto
  then show ?thesis using False d u m by (simp add: union_node_def links_of_def)
next
  case True
  have "\<exists>uf'. oeach (slots c u) (union_arc c dense (idx c u)) uf = Some (Inr uf') \<and> merged c (E \<union> links_of c u (slots c u)) uf'"
  proof (rule oeach_inv)
    fix ys k zs s
    assume e: "slots c u = ys @ k # zs" and P: "merged c (E \<union> links_of c u ys) s"
    have "E \<union> links_of c u (ys @ [k]) = insert (u, csr_edges c ! k) (E \<union> links_of c u ys)" by (auto simp: links_of_def)
    then show "\<exists>s'. union_arc c dense (idx c u) k s = Some (Inr s') \<and> merged c (E \<union> links_of c u (ys @ [k])) s'"
      using union_arc_ok [OF wf d u _ P, of k] e by simp
  qed (use m in \<open>simp add: links_of_def\<close>)
  then show ?thesis using True d u length_vertices [OF wf] by (simp add: union_node_def slots_def)
qed

lemma merges_ok:
  assumes wf: "well_formed c" and d: "dense_ok c dense" and n: "MaxNodeID c < 2 ^ 64"
  shows "\<exists>uf. oeach [0..<MaxNodeID c] (union_node c dense) (NewSlice (idx c (MaxNodeID c))) = Some (Inr uf) \<and> merged c (links c) uf"
proof -
  let ?P = "\<lambda>ys uf. merged c (\<Union>u \<in> set ys. links_of c u (slots c u)) uf"
  have "\<exists>uf. oeach [0..<MaxNodeID c] (union_node c dense) (NewSlice (idx c (MaxNodeID c))) = Some (Inr uf) \<and> ?P [0..<MaxNodeID c] uf"
  proof (rule oeach_inv)
    show "?P [] (NewSlice (idx c (MaxNodeID c)))"
      using idx_le [of c "MaxNodeID c"] n NewSlice_separates by (simp add: merged_def NewSlice_ok ufs_elems_def)
  next
    fix ys u zs uf
    assume e: "[0..<MaxNodeID c] = ys @ u # zs" and P: "?P ys uf"
    then show "\<exists>uf'. union_node c dense u uf = Some (Inr uf') \<and> ?P (ys @ [u]) uf'"
      using union_node_ok [OF wf d _ P, of u] upt_split [OF e] by (simp add: Un_commute)
  qed
  then show ?thesis unfolding links_slots by (simp add: atLeast0LessThan)
qed

subsection \<open>The labels\<close>

text \<open>The labels after a sweep of the first m nodes, for the roots of the nodes.\<close>

definition labels_ok :: "(nat \<Rightarrow> bool) \<Rightarrow> (nat \<Rightarrow> nat) \<Rightarrow> nat \<Rightarrow> nat \<Rightarrow> int list \<times> (nat \<rightharpoonup> nat) \<times> nat \<Rightarrow> bool" where
  "labels_ok alive key n m st \<longleftrightarrow> (case st of (component, rootRemap, k) \<Rightarrow> length component = n \<and>
     (\<forall>i < n. \<not> (i < m \<and> alive i) \<longrightarrow> component ! i = - 1) \<and>
     (\<forall>i < m. alive i \<longrightarrow> (\<exists>l. rootRemap (key i) = Some l \<and> component ! i = int l)) \<and>
     (\<forall>r l. rootRemap r = Some l \<longrightarrow> l < k) \<and>
     (\<forall>r r' l. rootRemap r = Some l \<longrightarrow> rootRemap r' = Some l \<longrightarrow> r = r') \<and>
     (\<forall>l < k. \<exists>j < m. alive j \<and> component ! j = int l) \<and>
     (\<forall>i < m. alive i \<longrightarrow> (\<forall>l. int l < component ! i \<longrightarrow> (\<exists>j < i. alive j \<and> component ! j = int l))))"

lemma labels_okI [intro?]:
  assumes "length component = n" and "\<And>i. i < n \<Longrightarrow> \<not> (i < m \<and> alive i) \<Longrightarrow> component ! i = - 1"
    and "\<And>i. i < m \<Longrightarrow> alive i \<Longrightarrow> \<exists>l. rootRemap (key i) = Some l \<and> component ! i = int l"
    and "\<And>r l. rootRemap r = Some l \<Longrightarrow> l < k"
    and "\<And>r r' l. rootRemap r = Some l \<Longrightarrow> rootRemap r' = Some l \<Longrightarrow> r = r'"
    and "\<And>l. l < k \<Longrightarrow> \<exists>j < m. alive j \<and> component ! j = int l"
    and "\<And>i l. i < m \<Longrightarrow> alive i \<Longrightarrow> int l < component ! i \<Longrightarrow> \<exists>j < i. alive j \<and> component ! j = int l"
  shows "labels_ok alive key n m (component, rootRemap, k)"
  using assms unfolding labels_ok_def by blast

lemma labels_okD:
  assumes "labels_ok alive key n m (component, rootRemap, k)"
  shows "length component = n" "i < n \<Longrightarrow> \<not> (i < m \<and> alive i) \<Longrightarrow> component ! i = - 1"
    "i < m \<Longrightarrow> alive i \<Longrightarrow> \<exists>l. rootRemap (key i) = Some l \<and> component ! i = int l"
    "rootRemap r = Some l \<Longrightarrow> l < k" "rootRemap r = Some l \<Longrightarrow> rootRemap r' = Some l \<Longrightarrow> r = r'"
    "l < k \<Longrightarrow> \<exists>j < m. alive j \<and> component ! j = int l"
    "i < m \<Longrightarrow> alive i \<Longrightarrow> int l < component ! i \<Longrightarrow> \<exists>j < i. alive j \<and> component ! j = int l"
  using assms unfolding labels_ok_def by blast+

lemma labels_skip:
  assumes h: "labels_ok alive key n m st" and m: "m < n" "\<not> alive m"
  shows "labels_ok alive key n (Suc m) st"
proof -
  obtain component remap k where st: "st = (component, remap, k)" by (cases st)
  note D = labels_okD [OF h [unfolded st]]
  show ?thesis unfolding st
  proof (rule labels_okI)
    show "\<exists>j < Suc m. alive j \<and> component ! j = int l" if "l < k" for l using D(6) [OF that] less_SucI by blast
  qed (use D m(2) in \<open>auto simp: less_Suc_eq\<close>)
qed

lemma labels_node:
  assumes h: "labels_ok alive key n m st" and m: "m < n" "alive m"
  shows "labels_ok alive key n (Suc m) (relabel_node m (key m) st)"
proof -
  obtain component remap k where st: "st = (component, remap, k)" by (cases st)
  note D = labels_okD [OF h [unfolded st]]
  let ?c = "\<lambda>v. component[m := int v]"
  have old: "?c v ! i = component ! i" if "i < m" for i v using that by simp
  have new: "?c v ! m = int v" for v using m(1) D(1) by simp
  have rest: "?c v ! i = - 1" if "i < n" "\<not> (i < Suc m \<and> alive i)" for i v
    using that D(2) [of i] m(2) by (cases "i = m") auto
  have keep: "\<exists>j < Suc m. alive j \<and> ?c v ! j = int l" if "l < k" for l v
    using D(6) [OF that] old less_SucI by metis
  have first: "\<exists>j < i. alive j \<and> ?c v ! j = int l" if "i < Suc m" "alive i" "int l < ?c v ! i" "v \<le> k" for i l v
  proof (cases "i = m")
    case True
    then have "l < k" using that(3,4) new by simp
    then show ?thesis using D(6) [of l] old True by metis
  next
    case False
    then have "i < m" using that(1) by simp
    then show ?thesis using D(7) [of i l] that(2,3) old by (metis order.strict_trans)
  qed
  show ?thesis
  proof (cases "remap (key m)")
    case (Some v)
    have "labels_ok alive key n (Suc m) (?c v, remap, k)"
    proof (rule labels_okI)
      show "\<exists>l. remap (key i) = Some l \<and> ?c v ! i = int l" if "i < Suc m" "alive i" for i
        using that D(3) [of i] new old Some by (cases "i = m") auto
      show "\<exists>j < i. alive j \<and> ?c v ! j = int l" if "i < Suc m" "alive i" "int l < ?c v ! i" for i l
        using first [OF that] D(4) [OF Some] by simp
    qed (use D(1,4,5) rest keep in auto)
    then show ?thesis by (simp add: st relabel_node_def Some)
  next
    case None
    have "labels_ok alive key n (Suc m) (?c k, remap(key m \<mapsto> k), k + 1)"
    proof (rule labels_okI)
      show "\<exists>l. (remap(key m \<mapsto> k)) (key i) = Some l \<and> ?c k ! i = int l" if "i < Suc m" "alive i" for i
        using that D(3) [of i] new old None by (cases "i = m") auto
      show "\<exists>j < Suc m. alive j \<and> ?c k ! j = int l" if "l < k + 1" for l
        using that keep [of l k] new m(2) by (cases "l = k") auto
      show "r = r'" if "(remap(key m \<mapsto> k)) r = Some l" "(remap(key m \<mapsto> k)) r' = Some l" for r r' l
        using that D(5) [of r l r'] D(4) [of r l] D(4) [of r' l] by (auto split: if_splits)
      show "l < k + 1" if "(remap(key m \<mapsto> k)) r = Some l" for r l
        using that D(4) [of r l] by (auto split: if_splits)
      show "\<exists>j < i. alive j \<and> ?c k ! j = int l" if "i < Suc m" "alive i" "int l < ?c k ! i" for i l
        using first [OF that] by simp
    qed (use D(1) rest in auto)
    then show ?thesis by (simp add: st relabel_node_def None)
  qed
qed

lemma wccRelabel_ok:
  assumes d: "dense_ok c dense" and m: "merged c (links c) uf"
  shows "\<exists>component rootRemap k. wccRelabel uf dense (MaxNodeID c) = Some (Inr (component, k)) \<and>
     labels_ok (live c) (\<lambda>i. ufs_class uf (idx c i)) (MaxNodeID c) (MaxNodeID c) (component, rootRemap, k)"
proof -
  let ?n = "MaxNodeID c" and ?key = "\<lambda>i. ufs_class uf (idx c i)"
  let ?body = "\<lambda>i (uf, st). obind (Some (read_at dense i)) (\<lambda>di.
         if di < 0 then Some (Inr (uf, st))
         else obind (Find uf (nat di)) (\<lambda>(r, uf'). Some (Inr (uf', relabel_node i r st))))"
  let ?P = "\<lambda>ys (uf', st). ufs_ok uf' \<and> ufs_elems uf' = {..<idx c ?n} \<and> ufs_class uf' = ufs_class uf \<and>
     labels_ok (live c) ?key ?n (length ys) st"
  have "\<exists>s. oeach [0..<?n] ?body (uf, (wccGhostComponent ?n, Map.empty, 0)) = Some (Inr s) \<and> ?P [0..<?n] s"
  proof (rule oeach_inv)
    show "?P [] (uf, (wccGhostComponent ?n, Map.empty, 0))"
      using m by (simp add: merged_def labels_ok_def wccGhostComponent_def)
  next
    fix ys i zs s
    assume e: "[0..<?n] = ys @ i # zs" and P: "?P ys s"
    obtain uf' st where s: "s = (uf', st)" by (cases s)
    have i: "length ys = i" "i < ?n" using upt_split [OF e] by auto
    have P': "ufs_ok uf'" "ufs_elems uf' = {..<idx c ?n}" "ufs_class uf' = ufs_class uf" "labels_ok (live c) ?key ?n i st"
      using P s i by auto
    show "\<exists>s'. ?body i s = Some (Inr s') \<and> ?P (ys @ [i]) s'"
    proof (cases "live c i")
      case False
      then show ?thesis using P' labels_skip [OF P'(4) i(2) False] i d by (simp add: s)
    next
      case True
      then have "idx c i \<in> ufs_elems uf'" using idx_less [OF True i(2)] P'(2) by simp
      from slices.find_law [OF P'(1) this] obtain uf2 where uf2: "Find uf' (idx c i) = Some (Inr (ufs_class uf' (idx c i), uf2))"
        "ufs_ok uf2" "ufs_elems uf2 = ufs_elems uf'" "ufs_class uf2 = ufs_class uf'" by blast
      then show ?thesis using P' labels_node [OF P'(4) i(2) True] i d True by (simp add: s)
    qed
  qed
  then obtain uf' component rootRemap k where
    "oeach [0..<?n] ?body (uf, (wccGhostComponent ?n, Map.empty, 0)) = Some (Inr (uf', component, rootRemap, k))"
    "labels_ok (live c) ?key ?n ?n (component, rootRemap, k)" by auto
  then show ?thesis unfolding wccRelabel_def by fastforce
qed

lemma live_range: "well_formed c \<Longrightarrow> live c i \<Longrightarrow> i < MaxNodeID c"
  using links_range by (auto simp: live_def)

lemma root_conn:
  assumes m: "merged c (links c) uf" and l: "live c i" "live c j"
  shows "ufs_class uf (idx c i) = ufs_class uf (idx c j) \<longleftrightarrow> (i, j) \<in> conn (links c)"
proof -
  have "ufs_class uf (idx c i) = ufs_class uf (idx c j) \<longleftrightarrow> (idx c i, idx c j) \<in> conn (map_prod (idx c) (idx c) ` links c)"
    using m slices.separatesD unfolding merged_def by blast
  also have "\<dots> \<longleftrightarrow> (i, j) \<in> conn (links c)" by (rule conn_image [OF idx_inj]) (use l in \<open>auto simp: live_def\<close>)
  finally show ?thesis .
qed

text \<open>What the labels promise.\<close>

definition component_labels :: "'w csr \<Rightarrow> int list \<Rightarrow> nat \<Rightarrow> bool" where
  "component_labels c component k \<longleftrightarrow> length component = MaxNodeID c \<and>
     (\<forall>i < MaxNodeID c. if live c i then 0 \<le> component ! i \<and> component ! i < int k else component ! i = - 1) \<and>
     (\<forall>i < MaxNodeID c. \<forall>j < MaxNodeID c. live c i \<and> live c j \<longrightarrow>
        (component ! i = component ! j \<longleftrightarrow> (i, j) \<in> conn (links c))) \<and>
     (\<forall>l < k. \<exists>i < MaxNodeID c. live c i \<and> component ! i = int l) \<and>
     (\<forall>i < MaxNodeID c. \<forall>l. live c i \<and> int l < component ! i \<longrightarrow> (\<exists>j < i. live c j \<and> component ! j = int l))"

lemma labels_components:
  assumes m: "merged c (links c) uf"
    and L: "labels_ok (live c) (\<lambda>i. ufs_class uf (idx c i)) (MaxNodeID c) (MaxNodeID c) (component, rootRemap, k)"
  shows "component_labels c component k"
  unfolding component_labels_def
proof (intro conjI allI impI)
  note D = labels_okD [OF L]
  show "length component = MaxNodeID c" by (rule D(1))
  show "if live c i then 0 \<le> component ! i \<and> component ! i < int k else component ! i = - 1" if "i < MaxNodeID c" for i
    using D(2) [OF that] D(3) [OF that] D(4) that by auto
  show "\<exists>i < MaxNodeID c. live c i \<and> component ! i = int l" if "l < k" for l by (rule D(6) [OF that])
  show "\<exists>j < i. live c j \<and> component ! j = int l" if "i < MaxNodeID c" "live c i \<and> int l < component ! i" for i l
    using D(7) [OF that(1)] that(2) by blast
  fix i j assume ij: "i < MaxNodeID c" "j < MaxNodeID c" "live c i \<and> live c j"
  obtain l l' where l: "rootRemap (ufs_class uf (idx c i)) = Some l" "component ! i = int l"
    "rootRemap (ufs_class uf (idx c j)) = Some l'" "component ! j = int l'"
    using D(3) [OF ij(1)] D(3) [OF ij(2)] ij(3) by blast
  have "component ! i = component ! j \<longleftrightarrow> ufs_class uf (idx c i) = ufs_class uf (idx c j)"
    using l D(5) by auto
  then show "component ! i = component ! j \<longleftrightarrow> (i, j) \<in> conn (links c)" using root_conn [OF m] ij(3) by simp
qed

text \<open>
  Property C30. On every well-formed snapshot \<open>WCC\<close> returns, and its labels are exact: two nodes with an
  incident arc have the same label exactly when a chain of arcs, read in either direction, joins them; a
  node without one has label -1; the labels are the numbers below the count, in the order in which the
  components first occur.
\<close>

theorem wcc_exact:
  assumes wf: "well_formed c" and n: "MaxNodeID c < 2 ^ 64"
  shows "\<exists>component k. WCC c = Some (Inr (component, k)) \<and> component_labels c component k"
proof -
  obtain dense where dense: "wccBuildDense c (MaxNodeID c) = Inr (dense, idx c (MaxNodeID c))" "dense_ok c dense"
    using wccBuildDense_ok [OF wf] by blast
  obtain uf where uf: "oeach [0..<MaxNodeID c] (union_node c dense) (NewSlice (idx c (MaxNodeID c))) = Some (Inr uf)"
    "merged c (links c) uf" using merges_ok [OF wf dense(2) n] by blast
  obtain component rootRemap k where r: "wccRelabel uf dense (MaxNodeID c) = Some (Inr (component, k))"
    "labels_ok (live c) (\<lambda>i. ufs_class uf (idx c i)) (MaxNodeID c) (MaxNodeID c) (component, rootRemap, k)"
    using wccRelabel_ok [OF dense(2) uf(2)] by blast
  consider "MaxNodeID c = 0" | "MaxNodeID c \<noteq> 0" "idx c (MaxNodeID c) = 0" | "MaxNodeID c \<noteq> 0" "idx c (MaxNodeID c) \<noteq> 0" by blast
  then show ?thesis
  proof cases
    case 1
    then show ?thesis by (simp add: WCC_def WCCCtx_def component_labels_def)
  next
    case 2
    then have "\<not> live c i" if "i < MaxNodeID c" for i using idx_less [of c i, OF _ that] by auto
    then show ?thesis using 2 dense(1) by (simp add: WCC_def WCCCtx_def component_labels_def wccGhostComponent_def)
  next
    case 3
    then show ?thesis using dense(1) uf(1) r labels_components [OF uf(2) r(2)] by (simp add: WCC_def WCCCtx_def)
  qed
qed

definition wcc_sample :: "int csr" where
  "wcc_sample = FromArrays [0, 1, 1, 2, 3, 3, 3] [2, 0, 4] None 5 3"

theorem wcc_exact_witness:
  "\<exists>component k. WCC wcc_sample = Some (Inr (component, k)) \<and> component_labels wcc_sample component k"
proof (rule wcc_exact)
  show "well_formed wcc_sample" unfolding well_formed_def by code_simp
  show "MaxNodeID wcc_sample < 2 ^ 64" by (simp add: wcc_sample_def FromArrays_def MaxNodeID_def)
qed

theorem wcc_sample_run: "WCC wcc_sample = Some (Inr ([0, - 1, 0, 1, 1, - 1], 2))"
  by code_simp

end
