(* ===== verification/Search_Topo.thy ===== *)
theory Search_Topo
  imports Graph_CSR
begin

text \<open>
  Topological sorting (\<open>search/topo.go\<close>), Kahn's algorithm: nodes whose incoming arcs have all been
  removed are emitted from a queue. \<open>cancelled\<close> says whether the context is cancelled at the given
  number of emitted nodes, \<open>cancelledEnd\<close> whether it is at the last poll.
\<close>

subsection \<open>The algorithm\<close>

text \<open>The incoming arcs of every node are tallied and its liveness recorded.\<close>

definition count_arc :: "'w csr \<Rightarrow> nat \<Rightarrow> u64 list \<times> bool list \<Rightarrow> (search_error, u64 list \<times> bool list) result" where
  "count_arc c k st = (case st of (indegree, lives) \<Rightarrow>
     result_bind (read_at (csr_edges c) k) (\<lambda>v.
     result_bind (read_at indegree v) (\<lambda>d.
     result_bind (write_at indegree v (d + 1)) (\<lambda>indegree'.
     result_bind (write_at lives v True) (\<lambda>lives'. Inr (indegree', lives'))))))"

definition count_node :: "'w csr \<Rightarrow> nat \<Rightarrow> u64 list \<times> bool list \<Rightarrow> (search_error, u64 list \<times> bool list) result" where
  "count_node c from st = (case st of (indegree, lives) \<Rightarrow>
     result_bind (read_at (csr_vertices c) from) (\<lambda>start.
     result_bind (read_at (csr_vertices c) (from + 1)) (\<lambda>en.
     result_bind (if en > start then write_at lives from True else Inr lives) (\<lambda>lives'.
       each [start..<en] (count_arc c) (indegree, lives')))))"

record kahn =
  kn_queue :: "nat list"
  kn_qh :: nat
  kn_out :: "nat list"
  kn_indegree :: "u64 list"
  kn_emitted :: nat

definition remove_arc :: "'w csr \<Rightarrow> nat \<Rightarrow> kahn \<Rightarrow> (search_error, kahn) result" where
  "remove_arc c k st =
     result_bind (read_at (csr_edges c) k) (\<lambda>nb.
     result_bind (read_at (kn_indegree st) nb) (\<lambda>d.
     result_bind (write_at (kn_indegree st) nb (d - 1)) (\<lambda>indegree.
       let st1 = st\<lparr>kn_indegree := indegree\<rparr>
       in Inr (if d - 1 = 0 then st1\<lparr>kn_queue := kn_queue st1 @ [nb]\<rparr> else st1))))"

definition emit :: "'w csr \<Rightarrow> kahn \<Rightarrow> (search_error, kahn) result" where
  "emit c st =
     result_bind (read_at (kn_queue st) (kn_qh st)) (\<lambda>n.
       let st1 = st\<lparr>kn_out := kn_out st @ [n], kn_emitted := kn_emitted st + 1\<rparr>
       in result_bind (read_at (csr_vertices c) n) (\<lambda>start.
          result_bind (read_at (csr_vertices c) (n + 1)) (\<lambda>en.
          result_bind (each [start..<en] (remove_arc c) st1) (\<lambda>st2. Inr (st2\<lparr>kn_qh := kn_qh st2 + 1\<rparr>)))))"

partial_function (option) kahn_loop :: "(nat \<Rightarrow> bool) \<Rightarrow> 'w csr \<Rightarrow> kahn \<Rightarrow> (search_error, kahn) result option" where
  "kahn_loop cancelled c st =
     (if kn_qh st < length (kn_queue st)
      then if polled cancelled (kn_emitted st) then Some (Inl ErrCancelled)
           else case emit c st of Inl e \<Rightarrow> Some (Inl e) | Inr st' \<Rightarrow> kahn_loop cancelled c st'
      else Some (Inr st))"

declare kahn_loop.simps [code]

definition TopologicalSortCtx :: "(nat \<Rightarrow> bool) \<Rightarrow> bool \<Rightarrow> 'w csr \<Rightarrow> (search_error, nat list) result option" where
  "TopologicalSortCtx cancelled cancelledEnd c =
     (let maxID = MaxNodeID c
      in obind (Some (each [0..<maxID] (count_node c) (replicate maxID 0, replicate maxID False))) (\<lambda>(indegree, lives).
           let queue = filter (\<lambda>i. lives ! i \<and> indegree ! i = 0) [0..<maxID];
               totalLive = length (filter (\<lambda>v. v) lives)
           in obind (kahn_loop cancelled c \<lparr>kn_queue = queue, kn_qh = 0, kn_out = [], kn_indegree = indegree, kn_emitted = 0\<rparr>) (\<lambda>st.
                if cancelledEnd then Some (Inl ErrCancelled)
                else if kn_emitted st \<noteq> totalLive then Some (Inl ErrCycle)
                else Some (Inr (kn_out st)))))"

definition TopologicalSort :: "'w csr \<Rightarrow> (search_error, nat list) result option" where
  "TopologicalSort c = TopologicalSortCtx (\<lambda>_. False) False c"

subsection \<open>Arcs by their slots\<close>

definition pairs :: "'w csr \<Rightarrow> nat list \<Rightarrow> (nat \<times> nat) set" where
  "pairs c us = {(u, k). u \<in> set us \<and> k \<in> set (slots c u)}"

definition into :: "'w csr \<Rightarrow> nat \<Rightarrow> (nat \<times> nat) set \<Rightarrow> (nat \<times> nat) set" where
  "into c v Q = {p \<in> Q. csr_edges c ! snd p = v}"

abbreviation all_pairs :: "'w csr \<Rightarrow> (nat \<times> nat) set" where
  "all_pairs c \<equiv> pairs c [0..<MaxNodeID c]"

lemma pairs_append: "pairs c (us @ [u]) = pairs c us \<union> Pair u ` set (slots c u)"
  by (auto simp: pairs_def)

lemma finite_pairs: "finite (pairs c us)"
  by (rule finite_subset [of _ "\<Union>u \<in> set us. Pair u ` set (slots c u)"]) (auto simp: pairs_def)

lemma links_pairs: "links c = (\<lambda>p. (fst p, csr_edges c ! snd p)) ` all_pairs c"
  by (force simp: links_def pairs_def)

lemma card_pairs:
  assumes wf: "well_formed c" and "m \<le> MaxNodeID c"
  shows "card (pairs c [0..<m]) \<le> csr_vertices c ! m"
  using assms(2)
proof (induction m)
  case (Suc m)
  have "pairs c [0..<Suc m] = pairs c [0..<m] \<union> Pair m ` set (slots c m)" using pairs_append by simp
  then have "card (pairs c [0..<Suc m]) \<le> card (pairs c [0..<m]) + card (Pair m ` set (slots c m))" by (simp add: card_Un_le)
  moreover have "card (Pair m ` set (slots c m)) = csr_vertices c ! Suc m - csr_vertices c ! m"
    by (subst card_image) (auto simp: inj_on_def slots_def)
  moreover have "csr_vertices c ! m \<le> csr_vertices c ! Suc m" using wf Suc.prems by (simp add: well_formed_iff)
  ultimately show ?case using Suc by simp
qed (simp add: pairs_def)

lemma card_into:
  assumes "well_formed c" and "Q \<subseteq> all_pairs c"
  shows "card (into c v Q) \<le> length (csr_edges c)"
proof -
  have "card (into c v Q) \<le> card (all_pairs c)" using assms(2) finite_pairs by (intro card_mono) (auto simp: into_def)
  also have "\<dots> \<le> length (csr_edges c)" using card_pairs [OF assms(1), of "MaxNodeID c"] assms(1) by (simp add: well_formed_iff)
  finally show ?thesis .
qed

lemma into_insert: "into c v (insert p Q) = (if csr_edges c ! snd p = v then insert p (into c v Q) else into c v Q)"
  by (auto simp: into_def)

lemma into_remove: "into c v (Q - {p}) = into c v Q - {p}"
  by (auto simp: into_def)

lemma finite_into: "Q \<subseteq> all_pairs c \<Longrightarrow> finite (into c v Q)"
  by (rule finite_subset [OF _ finite_pairs [of c "[0..<MaxNodeID c]"]]) (auto simp: into_def)

text \<open>The counters after the arcs of a set, exact while the number of arcs fits in 64 bits.\<close>

definition counts :: "'w csr \<Rightarrow> (nat \<times> nat) set \<Rightarrow> u64 list \<Rightarrow> bool" where
  "counts c Q indegree \<longleftrightarrow> Q \<subseteq> all_pairs c \<and> length indegree = MaxNodeID c \<and>
     (\<forall>v < MaxNodeID c. unat (indegree ! v) = card (into c v Q))"

lemma counts_insert:
  assumes wf: "well_formed c" and n: "length (csr_edges c) < 2 ^ 64" and Q: "counts c Q indegree"
    and p: "p \<in> all_pairs c" "p \<notin> Q" "v = csr_edges c ! snd p"
  shows "counts c (insert p Q) (indegree[v := indegree ! v + 1])"
  unfolding counts_def
proof (intro conjI allI impI)
  show sub: "insert p Q \<subseteq> all_pairs c" using Q p(1) by (simp add: counts_def)
  show "length (indegree[v := indegree ! v + 1]) = MaxNodeID c" using Q by (simp add: counts_def)
  fix x assume x: "x < MaxNodeID c"
  have fin: "finite (into c x Q)" using Q finite_into by (auto simp: counts_def)
  show "unat (indegree[v := indegree ! v + 1] ! x) = card (into c x (insert p Q))"
  proof (cases "x = v")
    case True
    have "p \<notin> into c v Q" using p(2) by (simp add: into_def)
    then have card: "card (into c v (insert p Q)) = Suc (card (into c v Q))" using fin True p(3) by (simp add: into_insert)
    then have "Suc (unat (indegree ! v)) < 2 ^ 64"
      using card_into [OF wf sub, of v] n Q x True by (simp add: counts_def)
    then have "unat (indegree ! v + 1) = Suc (unat (indegree ! v))" by (simp add: unat_word_ariths)
    then show ?thesis using card Q x True by (simp add: counts_def)
  next
    case False
    then show ?thesis using Q x p(3) by (simp add: counts_def into_insert)
  qed
qed

lemma counts_remove:
  assumes Q: "counts c Q indegree" and p: "p \<in> Q" "v = csr_edges c ! snd p" "v < MaxNodeID c"
  shows "counts c (Q - {p}) (indegree[v := indegree ! v - 1])"
    "indegree ! v - 1 = 0 \<longleftrightarrow> into c v (Q - {p}) = {}"
proof -
  have fin: "finite (into c v Q)" using Q finite_into by (auto simp: counts_def)
  have in_v: "p \<in> into c v Q" using p by (simp add: into_def)
  have iv: "unat (indegree ! v) = card (into c v Q)" using Q p(3) by (simp add: counts_def)
  moreover have "card (into c v Q) > 0" using fin in_v card_gt_0_iff by blast
  ultimately have "indegree ! v \<noteq> 0" by auto
  then have dec: "unat (indegree ! v - 1) = card (into c v (Q - {p}))"
    using iv fin in_v by (simp add: into_remove unat_minus_one)
  show "counts c (Q - {p}) (indegree[v := indegree ! v - 1])" unfolding counts_def
  proof (intro conjI allI impI)
    fix x assume x: "x < MaxNodeID c"
    have "into c x (Q - {p}) = into c x Q" if "x \<noteq> v" using that p(2) by (auto simp: into_def)
    then show "unat (indegree[v := indegree ! v - 1] ! x) = card (into c x (Q - {p}))"
      using Q x dec by (cases "x = v") (simp_all add: counts_def)
  qed (use Q in \<open>auto simp: counts_def\<close>)
  have "finite (into c v (Q - {p}))" using fin by (simp add: into_remove)
  then show "indegree ! v - 1 = 0 \<longleftrightarrow> into c v (Q - {p}) = {}" using dec card_eq_0_iff unat_eq_zero by metis
qed

subsection \<open>The counting pass\<close>

definition seen :: "'w csr \<Rightarrow> (nat \<times> nat) set \<Rightarrow> nat \<Rightarrow> bool" where
  "seen c Q v \<longleftrightarrow> (\<exists>p \<in> Q. v = fst p \<or> v = csr_edges c ! snd p)"

lemma seen_all: "seen c (all_pairs c) v \<longleftrightarrow> live c v"
proof
  assume "seen c (all_pairs c) v"
  then obtain p where p: "p \<in> all_pairs c" "v = fst p \<or> v = csr_edges c ! snd p" unfolding seen_def by blast
  then have "(fst p, csr_edges c ! snd p) \<in> links c" unfolding links_pairs by (intro imageI)
  then show "live c v" using p(2) unfolding live_def by blast
next
  assume "live c v"
  then obtain a b where "(a, b) \<in> links c" "v = a \<or> v = b" unfolding live_def by blast
  then show "seen c (all_pairs c) v" unfolding links_pairs seen_def by auto
qed

lemma seen_simps [simp]: "\<not> seen c {} v" "seen c (insert p Q) v \<longleftrightarrow> v = fst p \<or> v = csr_edges c ! snd p \<or> seen c Q v"
  by (auto simp: seen_def)

text \<open>After the arcs of a set the counters are exact and the marked nodes the touched ones; while the
  arcs of a node are tallied that node is marked already.\<close>

definition tallied :: "'w csr \<Rightarrow> nat set \<Rightarrow> (nat \<times> nat) set \<Rightarrow> u64 list \<times> bool list \<Rightarrow> bool" where
  "tallied c M Q st \<longleftrightarrow> (case st of (indegree, lives) \<Rightarrow> counts c Q indegree \<and> length lives = MaxNodeID c \<and>
     (\<forall>v < MaxNodeID c. lives ! v \<longleftrightarrow> v \<in> M \<or> seen c Q v))"

lemma count_arc_ok:
  assumes wf: "well_formed c" and n: "length (csr_edges c) < 2 ^ 64" and u: "u < MaxNodeID c" and k: "k \<in> set (slots c u)"
    and st: "tallied c {u} Q st" and new: "(u, k) \<notin> Q"
  shows "\<exists>st'. count_arc c k st = Inr st' \<and> tallied c {u} (insert (u, k) Q) st'"
proof -
  obtain indegree lives where s: "st = (indegree, lives)" by (cases st)
  let ?v = "csr_edges c ! k"
  note r = slots_range [OF wf u k]
  have p: "(u, k) \<in> all_pairs c" using u k by (simp add: pairs_def)
  have Q: "counts c Q indegree" "length lives = MaxNodeID c" using st by (simp_all add: s tallied_def)
  have "counts c (insert (u, k) Q) (indegree[?v := indegree ! ?v + 1])"
    using counts_insert [OF wf n Q(1) p new] by simp
  moreover have "length indegree = MaxNodeID c" using Q(1) by (simp add: counts_def)
  ultimately show ?thesis using r st Q(2)
    by (auto simp: s count_arc_def tallied_def result_bind_def nth_list_update)
qed

lemma count_node_ok:
  assumes wf: "well_formed c" and n: "length (csr_edges c) < 2 ^ 64" and u: "u < MaxNodeID c"
    and st: "tallied c {} (pairs c us) st" and new: "u \<notin> set us"
  shows "\<exists>st'. count_node c u st = Inr st' \<and> tallied c {} (pairs c (us @ [u])) st'"
proof -
  obtain indegree lives where s: "st = (indegree, lives)" by (cases st)
  have len: "length lives = MaxNodeID c" using st by (simp add: s tallied_def)
  have rd: "read_at (csr_vertices c) u = Inr (csr_vertices c ! u)" "read_at (csr_vertices c) (u + 1) = Inr (csr_vertices c ! (u + 1))"
    using u length_vertices [OF wf] by simp_all
  show ?thesis
  proof (cases "slots c u = []")
    case True
    then have "pairs c (us @ [u]) = pairs c us" by (simp add: pairs_append)
    moreover have "\<not> csr_vertices c ! u < csr_vertices c ! (u + 1)" using True by (auto simp: slots_def)
    then have "count_node c u st = Inr st" using rd by (simp add: s count_node_def result_bind_def)
    ultimately show ?thesis using st by simp
  next
    case False
    then have lt: "csr_vertices c ! u < csr_vertices c ! (u + 1)" by (simp add: slots_def)
    let ?P = "\<lambda>ks st. tallied c {u} (pairs c us \<union> Pair u ` set ks) st"
    have "\<exists>st'. each (slots c u) (count_arc c) (indegree, lives[u := True]) = Inr st' \<and> ?P (slots c u) st'"
    proof (rule each_inv [where P = ?P])
      show "?P [] (indegree, lives[u := True])" using st u len by (auto simp: s tallied_def nth_list_update)
    next
      fix ys k zs st'
      assume e: "slots c u = ys @ k # zs" and P: "?P ys st'"
      have "distinct (slots c u)" by (simp add: slots_def)
      then have "(u, k) \<notin> pairs c us \<union> Pair u ` set ys" using new e by (auto simp: pairs_def)
      moreover have "k \<in> set (slots c u)" using e by simp
      ultimately show "\<exists>st''. count_arc c k st' = Inr st'' \<and> ?P (ys @ [k]) st''"
        using count_arc_ok [OF wf n u _ P] by simp
    qed
    then obtain st' where st': "each (slots c u) (count_arc c) (indegree, lives[u := True]) = Inr st'"
      "tallied c {u} (pairs c (us @ [u])) st'" by (auto simp: pairs_append)
    have "seen c (pairs c (us @ [u])) u" using False by (cases "slots c u") (auto simp: seen_def pairs_append)
    then have "tallied c {} (pairs c (us @ [u])) st'" using st'(2) by (auto simp: tallied_def)
    moreover have "count_node c u st = Inr st'" using rd lt u len st'(1) by (simp add: s count_node_def result_bind_def slots_def)
    ultimately show ?thesis by blast
  qed
qed

lemma counting_ok:
  assumes wf: "well_formed c" and n: "length (csr_edges c) < 2 ^ 64"
  shows "\<exists>indegree lives. each [0..<MaxNodeID c] (count_node c) (replicate (MaxNodeID c) 0, replicate (MaxNodeID c) False) =
     Inr (indegree, lives) \<and> counts c (all_pairs c) indegree \<and> length lives = MaxNodeID c \<and>
     (\<forall>v < MaxNodeID c. lives ! v \<longleftrightarrow> live c v)"
proof -
  let ?P = "\<lambda>us st. tallied c {} (pairs c us) st"
  have "\<exists>st. each [0..<MaxNodeID c] (count_node c) (replicate (MaxNodeID c) 0, replicate (MaxNodeID c) False) = Inr st \<and> ?P [0..<MaxNodeID c] st"
  proof (rule each_inv [where P = ?P])
    show "?P [] (replicate (MaxNodeID c) 0, replicate (MaxNodeID c) False)"
      by (simp add: tallied_def counts_def pairs_def into_def)
  next
    fix ys u zs st
    assume e: "[0..<MaxNodeID c] = ys @ u # zs" and P: "?P ys st"
    then show "\<exists>st'. count_node c u st = Inr st' \<and> ?P (ys @ [u]) st'"
      using count_node_ok [OF wf n _ P, of u] upt_split [OF e] by simp
  qed
  then show ?thesis by (auto simp: tallied_def seen_all)
qed

subsection \<open>The queue\<close>

text \<open>
  Before the node at the head is emitted: the queue holds once each live node into which no arc of the
  set is left, and the predecessors of a queued node stand before it.
\<close>

definition kahn_inv :: "'w csr \<Rightarrow> (nat \<times> nat) set \<Rightarrow> kahn \<Rightarrow> bool" where
  "kahn_inv c Q st \<longleftrightarrow> counts c Q (kn_indegree st) \<and> distinct (kn_queue st) \<and>
     set (kn_queue st) = {v. live c v \<and> into c v Q = {}} \<and>
     (\<forall>j < length (kn_queue st). \<forall>u. (u, kn_queue st ! j) \<in> links c \<longrightarrow> u \<in> set (take j (kn_queue st)))"

definition unsent :: "'w csr \<Rightarrow> nat list \<Rightarrow> (nat \<times> nat) set" where
  "unsent c done_nodes = {p \<in> all_pairs c. fst p \<notin> set done_nodes}"

definition kahn_ok :: "'w csr \<Rightarrow> kahn \<Rightarrow> bool" where
  "kahn_ok c st \<longleftrightarrow> kn_qh st \<le> length (kn_queue st) \<and> kn_out st = take (kn_qh st) (kn_queue st) \<and>
     kn_emitted st = kn_qh st \<and> kahn_inv c (unsent c (kn_out st)) st"

lemma remove_arc_ok:
  assumes wf: "well_formed c" and u: "u < MaxNodeID c" and k: "k \<in> set (slots c u)"
    and inv: "kahn_inv c Q st" and p: "(u, k) \<in> Q"
    and earlier: "\<forall>p \<in> all_pairs c - (Q - {(u, k)}). fst p \<in> set (kn_queue st)"
  shows "\<exists>st'. remove_arc c k st = Inr st' \<and> kahn_inv c (Q - {(u, k)}) st' \<and>
     (\<exists>more. kn_queue st' = kn_queue st @ more) \<and> kn_qh st' = kn_qh st \<and> kn_out st' = kn_out st \<and> kn_emitted st' = kn_emitted st"
proof -
  let ?v = "csr_edges c ! k" and ?Q = "Q - {(u, k)}" and ?q = "kn_queue st"
  note r = slots_range [OF wf u k]
  have inv': "counts c Q (kn_indegree st)" "distinct ?q" "set ?q = {v. live c v \<and> into c v Q = {}}"
    "\<And>j u. j < length ?q \<Longrightarrow> (u, ?q ! j) \<in> links c \<Longrightarrow> u \<in> set (take j ?q)"
    using inv by (auto simp: kahn_inv_def)
  have len: "length (kn_indegree st) = MaxNodeID c" using inv'(1) by (simp add: counts_def)
  note rm = counts_remove [OF inv'(1) p, of ?v, simplified, OF r(2)]
  have lv: "live c ?v" using u k by (auto simp: live_def links_def)
  have notin: "?v \<notin> set ?q" using p inv'(3) by (auto simp: into_def)
  have same: "into c x ?Q = into c x Q" if "x \<noteq> ?v" for x using that by (auto simp: into_def)
  show ?thesis
  proof (cases "kn_indegree st ! ?v - 1 = 0")
    case False
    then have "into c ?v ?Q \<noteq> {}" using rm(2) by simp
    moreover have "into c ?v Q \<noteq> {}" using p by (auto simp: into_def)
    ultimately have "{v. live c v \<and> into c v ?Q = {}} = {v. live c v \<and> into c v Q = {}}" using same by metis
    then show ?thesis using False r len rm(1) inv' by (simp add: remove_arc_def result_bind_def kahn_inv_def)
  next
    case True
    then have emp: "into c ?v ?Q = {}" using rm(2) by simp
    have "x \<in> {v. live c v \<and> into c v ?Q = {}} \<longleftrightarrow> x \<in> insert ?v {v. live c v \<and> into c v Q = {}}" for x
      by (cases "x = ?v") (simp_all add: same emp lv)
    then have "{v. live c v \<and> into c v ?Q = {}} = insert ?v {v. live c v \<and> into c v Q = {}}" by blast
    moreover have "x \<in> set ?q" if h: "(x, ?v) \<in> links c" for x
    proof -
      obtain q where q: "q \<in> all_pairs c" "x = fst q" "?v = csr_edges c ! snd q" using h unfolding links_pairs by auto
      have "q \<notin> ?Q"
      proof
        assume "q \<in> ?Q"
        then have "q \<in> into c ?v ?Q" using q(3) by (simp add: into_def)
        then show False using emp by simp
      qed
      then show ?thesis using earlier q(1,2) by simp
    qed
    moreover have "y \<in> set (take j (?q @ [?v]))" if "j < length ?q" "(y, (?q @ [?v]) ! j) \<in> links c" for y j
      using inv'(4) [of j y] that by (simp add: nth_append)
    ultimately show ?thesis using True r len rm(1) inv'(1-3) notin
      by (auto simp: remove_arc_def result_bind_def kahn_inv_def less_Suc_eq)
  qed
qed

lemma emit_ok:
  assumes wf: "well_formed c" and ok: "kahn_ok c st" and lt: "kn_qh st < length (kn_queue st)"
  shows "\<exists>st'. emit c st = Inr st' \<and> kahn_ok c st' \<and> kn_qh st' = Suc (kn_qh st)"
proof -
  let ?n = "kn_queue st ! kn_qh st" and ?out = "kn_out st"
  let ?st = "st\<lparr>kn_out := ?out @ [?n], kn_emitted := kn_emitted st + 1\<rparr>"
  have ok': "?out = take (kn_qh st) (kn_queue st)" "kn_emitted st = kn_qh st" "kahn_inv c (unsent c ?out) st"
    using ok by (auto simp: kahn_ok_def)
  have dq: "distinct (kn_queue st)" and "live c ?n" using ok'(3) lt nth_mem by (fastforce simp: kahn_inv_def)+
  then have n: "?n < MaxNodeID c" using links_range [OF wf] by (auto simp: live_def)
  have out': "take (Suc (kn_qh st)) (kn_queue st) = ?out @ [?n]" using ok'(1) lt by (simp add: take_Suc_conv_app_nth)
  have fresh: "?n \<notin> set ?out" using distinct_take [OF dq, of "Suc (kn_qh st)"] unfolding out' by simp
  have sub: "set (?out @ [?n]) \<subseteq> set (kn_queue st)" unfolding out' [symmetric] by (rule set_take_subset)
  have rd: "read_at (csr_vertices c) ?n = Inr (csr_vertices c ! ?n)" "read_at (csr_vertices c) (?n + 1) = Inr (csr_vertices c ! (?n + 1))"
    using n length_vertices [OF wf] by simp_all
  let ?P = "\<lambda>ks st'. kahn_inv c (unsent c ?out - Pair ?n ` set ks) st' \<and> (\<exists>more. kn_queue st' = kn_queue st @ more) \<and>
     kn_qh st' = kn_qh st \<and> kn_out st' = ?out @ [?n] \<and> kn_emitted st' = Suc (kn_qh st)"
  have "\<exists>st'. each (slots c ?n) (remove_arc c) ?st = Inr st' \<and> ?P (slots c ?n) st'"
  proof (rule each_inv [where P = ?P])
    show "?P [] ?st" using ok' by (simp add: kahn_inv_def)
  next
    fix ys k zs st'
    assume e: "slots c ?n = ys @ k # zs" and P: "?P ys st'"
    let ?Q = "unsent c ?out - Pair ?n ` set ys"
    have k: "k \<in> set (slots c ?n)" "k \<notin> set ys" using e distinct_upt [of "csr_vertices c ! ?n" "csr_vertices c ! (?n + 1)"] by (simp_all add: slots_def)
    have mem: "(?n, k) \<in> ?Q" using k n fresh by (auto simp: unsent_def pairs_def)
    have "fst p \<in> set (kn_queue st')" if "p \<in> all_pairs c - (?Q - {(?n, k)})" for p
    proof -
      have "fst p \<in> set (?out @ [?n])" using that by (auto simp: unsent_def)
      then show ?thesis using sub P by auto
    qed
    then obtain st'' where st'': "remove_arc c k st' = Inr st''" "kahn_inv c (?Q - {(?n, k)}) st''"
      "\<exists>more. kn_queue st'' = kn_queue st' @ more" "kn_qh st'' = kn_qh st'" "kn_out st'' = kn_out st'" "kn_emitted st'' = kn_emitted st'"
      using remove_arc_ok [OF wf n k(1) _ mem] P by blast
    have "?Q - {(?n, k)} = unsent c ?out - Pair ?n ` set (ys @ [k])" by auto
    then show "\<exists>st''. remove_arc c k st' = Inr st'' \<and> ?P (ys @ [k]) st''" using st'' P by auto
  qed
  then obtain st' where st': "each (slots c ?n) (remove_arc c) ?st = Inr st'" "?P (slots c ?n) st'" by blast
  have "unsent c ?out - Pair ?n ` set (slots c ?n) = unsent c (?out @ [?n])" by (auto simp: unsent_def pairs_def)
  then have "kahn_ok c (st'\<lparr>kn_qh := kn_qh st' + 1\<rparr>)"
    using st'(2) lt out' by (auto simp: kahn_ok_def kahn_inv_def)
  moreover have "emit c st = Inr (st'\<lparr>kn_qh := kn_qh st' + 1\<rparr>)"
    using rd lt st'(1) by (simp add: emit_def result_bind_def slots_def)
  ultimately show ?thesis using st'(2) by auto
qed

lemma queue_bound:
  assumes "well_formed c" and "kahn_ok c st"
  shows "length (kn_queue st) \<le> MaxNodeID c"
proof -
  have "distinct (kn_queue st)" "set (kn_queue st) \<subseteq> {..<MaxNodeID c}"
    using assms links_range [OF assms(1)] by (auto simp: kahn_ok_def kahn_inv_def live_def)
  then show ?thesis using card_mono [of "{..<MaxNodeID c}" "set (kn_queue st)"] by (simp add: distinct_card)
qed

lemma kahn_loop_ok:
  assumes wf: "well_formed c"
  shows "kahn_ok c st \<Longrightarrow> \<exists>st'. kahn_loop (\<lambda>_. False) c st = Some (Inr st') \<and> kahn_ok c st' \<and> kn_qh st' = length (kn_queue st')"
proof (induction "MaxNodeID c - kn_qh st" arbitrary: st rule: less_induct)
  case less
  show ?case
  proof (cases "kn_qh st < length (kn_queue st)")
    case True
    obtain st' where st': "emit c st = Inr st'" "kahn_ok c st'" "kn_qh st' = Suc (kn_qh st)"
      using emit_ok [OF wf less.prems True] by blast
    have "MaxNodeID c - kn_qh st' < MaxNodeID c - kn_qh st" using queue_bound [OF wf less.prems] True st'(3) by linarith
    from less.hyps [OF this st'(2)] show ?thesis using True st'(1) by (subst kahn_loop.simps) (simp add: polled_def)
  next
    case False
    then show ?thesis using less.prems by (subst kahn_loop.simps) (auto simp: kahn_ok_def)
  qed
qed

subsection \<open>Orders and cycles\<close>

definition topological :: "'w csr \<Rightarrow> nat list \<Rightarrow> bool" where
  "topological c out \<longleftrightarrow> distinct out \<and> set out = {v. live c v} \<and>
     (\<forall>j < length out. \<forall>u. (u, out ! j) \<in> links c \<longrightarrow> u \<in> set (take j out))"

lemma topological_acyclic:
  assumes t: "topological c out"
  shows "acyclic (links c)"
proof -
  let ?pos = "\<lambda>v. LEAST i. i < length out \<and> out ! i = v"
  have pos: "?pos (out ! i) = i" if "i < length out" for i
    by (rule Least_equality) (use that t nth_eq_iff_index_eq in \<open>auto simp: topological_def\<close>)
  have "?pos u < ?pos v" if "(u, v) \<in> links c" for u v
  proof -
    have "v \<in> set out" using t that by (auto simp: topological_def live_def)
    then obtain j where j: "j < length out" "v = out ! j" by (auto simp: in_set_conv_nth)
    then have "u \<in> set (take j out)" using t that by (auto simp: topological_def)
    then obtain i where i: "i < j" "u = out ! i" by (auto simp: in_set_conv_nth)
    then show ?thesis using pos [of i] pos [of j] j by simp
  qed
  then have "links c \<subseteq> measure ?pos" by auto
  then show ?thesis using wf_acyclic wf_subset wf_measure by blast
qed

text \<open>Where every node of a finite nonempty set has a predecessor in it there is a cycle.\<close>

lemma stuck_cyclic:
  assumes wf: "well_formed c" and "v \<in> V" and pred: "\<And>x. x \<in> V \<Longrightarrow> \<exists>u \<in> V. (u, x) \<in> links c"
  shows "\<not> acyclic (links c)"
proof
  assume "acyclic (links c)"
  moreover have "links c \<subseteq> {..<MaxNodeID c} \<times> {..<MaxNodeID c}" using links_range [OF wf] by auto
  then have "finite (links c)" by (rule finite_subset) simp
  ultimately have "wf (links c)" by (rule finite_acyclic_wf [rotated])
  then obtain z where "z \<in> V" "\<And>y. (y, z) \<in> links c \<Longrightarrow> y \<notin> V" using assms(2) wfE_min by metis
  then show False using pred by blast
qed

lemma final_queue:
  assumes wf: "well_formed c" and ok: "kahn_ok c st" and fin: "kn_qh st = length (kn_queue st)"
  shows "kn_emitted st = card {v. live c v} \<longleftrightarrow> acyclic (links c)" "acyclic (links c) \<Longrightarrow> topological c (kn_out st)"
proof -
  have out: "kn_out st = kn_queue st" and em: "kn_emitted st = length (kn_queue st)" and inv: "kahn_inv c (unsent c (kn_queue st)) st"
    using ok fin by (auto simp: kahn_ok_def)
  have top: "topological c (kn_queue st)" if "set (kn_queue st) = {v. live c v}"
    using inv that by (auto simp: kahn_inv_def topological_def)
  have sub: "set (kn_queue st) \<subseteq> {v. live c v}" and d: "distinct (kn_queue st)" using inv by (auto simp: kahn_inv_def)
  have cyc: "\<not> acyclic (links c)" if ne: "set (kn_queue st) \<noteq> {v. live c v}"
  proof -
    let ?V = "{v. live c v} - set (kn_queue st)"
    obtain v where "v \<in> ?V" using ne sub by blast
    moreover have "\<exists>u \<in> ?V. (u, x) \<in> links c" if "x \<in> ?V" for x
    proof -
      have "set (kn_queue st) = {v. live c v \<and> into c v (unsent c (kn_queue st)) = {}}" using inv unfolding kahn_inv_def by blast
      then have "into c x (unsent c (kn_queue st)) \<noteq> {}" using that by blast
      then obtain p where p: "p \<in> all_pairs c" "fst p \<notin> set (kn_queue st)" "csr_edges c ! snd p = x"
        by (auto simp: into_def unsent_def)
      then have "(fst p, x) \<in> links c" unfolding links_pairs by auto
      then show ?thesis using p(2) by (auto simp: live_def)
    qed
    ultimately show ?thesis by (rule stuck_cyclic [OF wf])
  qed
  have "{v. live c v} \<subseteq> {..<MaxNodeID c}" using links_range [OF wf] unfolding live_def by blast
  then have "finite {v. live c v}" by (rule finite_subset) simp
  then have "kn_emitted st = card {v. live c v} \<longleftrightarrow> set (kn_queue st) = {v. live c v}"
    using card_subset_eq [OF _ sub] em distinct_card [OF d] by auto
  then show "kn_emitted st = card {v. live c v} \<longleftrightarrow> acyclic (links c)" using cyc top topological_acyclic by blast
  show "topological c (kn_out st)" if "acyclic (links c)" using that cyc top out by auto
qed

text \<open>
  Property C31. On every well-formed snapshot with fewer than \<open>2 ^ 64\<close> arcs \<open>TopologicalSort\<close> returns. It
  reports \<open>ErrCycle\<close> exactly when the arcs have a cycle; otherwise the order it gives has each node with
  an incident arc once, and every arc leads from an earlier node to a later one.
\<close>

theorem topological_sort_correct:
  assumes wf: "well_formed c" and n: "length (csr_edges c) < 2 ^ 64"
  shows "if acyclic (links c) then \<exists>out. TopologicalSort c = Some (Inr out) \<and> topological c out
         else TopologicalSort c = Some (Inl ErrCycle)"
proof -
  obtain indegree lives where ct: "each [0..<MaxNodeID c] (count_node c) (replicate (MaxNodeID c) 0, replicate (MaxNodeID c) False) =
     Inr (indegree, lives)" "counts c (all_pairs c) indegree" "length lives = MaxNodeID c" "\<forall>v < MaxNodeID c. lives ! v \<longleftrightarrow> live c v"
    using counting_ok [OF wf n] by blast
  let ?queue = "filter (\<lambda>i. lives ! i \<and> indegree ! i = 0) [0..<MaxNodeID c]"
  let ?st = "\<lparr>kn_queue = ?queue, kn_qh = 0, kn_out = [], kn_indegree = indegree, kn_emitted = 0\<rparr>"
  have lr: "live c v \<Longrightarrow> v < MaxNodeID c" for v using links_range [OF wf] by (auto simp: live_def)
  have zero: "indegree ! v = 0 \<longleftrightarrow> into c v (all_pairs c) = {}" if "v < MaxNodeID c" for v
    using ct(2) that finite_into [of "all_pairs c" c v] unat_eq_zero [of "indegree ! v"] by (simp add: counts_def)
  have none: "(u, v) \<notin> links c" if "into c v (all_pairs c) = {}" for u v
    using that by (force simp: links_pairs into_def)
  have "set ?queue = {v. live c v \<and> into c v (all_pairs c) = {}}" using ct(4) zero lr by auto
  moreover from this have "\<And>j u. j < length ?queue \<Longrightarrow> (u, ?queue ! j) \<notin> links c" using none nth_mem by blast
  ultimately have "kahn_ok c ?st" using ct(2) by (auto simp: kahn_ok_def kahn_inv_def unsent_def)
  then obtain st where st: "kahn_loop (\<lambda>_. False) c ?st = Some (Inr st)" "kahn_ok c st" "kn_qh st = length (kn_queue st)"
    using kahn_loop_ok [OF wf] by blast
  have "length (filter (\<lambda>v. v) lives) = card {i. i < length lives \<and> lives ! i}" by (rule length_filter_conv_card)
  also have "{i. i < length lives \<and> lives ! i} = {v. live c v}" using ct(3,4) lr by auto
  finally have "TopologicalSort c = (if kn_emitted st \<noteq> card {v. live c v} then Some (Inl ErrCycle) else Some (Inr (kn_out st)))"
    using ct(1) st(1) by (simp add: TopologicalSort_def TopologicalSortCtx_def)
  then show ?thesis using final_queue [OF wf st(2,3)] by simp
qed

definition topo_sample :: "int csr" where
  "topo_sample = FromArrays [0, 2, 3, 3, 4, 4] [3, 1, 3, 2] None 5 4"

theorem topological_sort_correct_witness:
  "if acyclic (links topo_sample) then \<exists>out. TopologicalSort topo_sample = Some (Inr out) \<and> topological topo_sample out
   else TopologicalSort topo_sample = Some (Inl ErrCycle)"
proof (rule topological_sort_correct)
  show "well_formed topo_sample" unfolding well_formed_def by code_simp
  show "length (csr_edges topo_sample) < 2 ^ 64" by (simp add: topo_sample_def FromArrays_def)
qed

theorem topo_sample_run:
  "TopologicalSort topo_sample = Some (Inr [0, 1, 3, 2])"
  "TopologicalSort (FromArrays [0, 1, 2, 3] [1, 2, 1] None 3 3 :: int csr) = Some (Inl ErrCycle)"
  by code_simp+

end
