(* ===== verification/Search_Traverse.thy ===== *)
theory Search_Traverse
  imports Graph_CSR
begin

text \<open>
  Breadth-first and depth-first traversal (\<open>search/search.go\<close>). The callback takes a node, its depth and a
  state of the caller's, and says whether to go on; a traversal returns its error, if any, and that
  state. The pooled buffers are fresh ones, cleared as \<open>acquireBFS\<close> and \<open>acquireDFS\<close> do. \<open>cancelled\<close> says
  whether the context is cancelled at the given poll.
\<close>

subsection \<open>The set of visited nodes\<close>

text \<open>A bit per node, 64 to a word: the word of a node is its id shifted by 6, its bit the low 6 bits.\<close>

definition bitsetWordsFor :: "nat \<Rightarrow> nat" where
  "bitsetWordsFor maxID = (maxID + 63) div 64"

definition setVisited :: "u64 list \<Rightarrow> nat \<Rightarrow> (search_error, u64 list) result" where
  "setVisited visited ident = result_bind (read_at visited (ident div 64)) (\<lambda>w.
     write_at visited (ident div 64) (w OR push_bit (ident mod 64) 1))"

definition isVisited :: "u64 list \<Rightarrow> nat \<Rightarrow> (search_error, bool) result" where
  "isVisited visited ident = result_bind (read_at visited (ident div 64)) (\<lambda>w.
     Inr (w AND push_bit (ident mod 64) 1 \<noteq> 0))"

subsection \<open>Breadth first\<close>

definition reach_arc :: "'w csr \<Rightarrow> nat \<Rightarrow> u64 list \<times> nat list \<Rightarrow> (search_error, u64 list \<times> nat list) result" where
  "reach_arc c k st = (case st of (visited, nxt) \<Rightarrow>
     result_bind (read_at (csr_edges c) k) (\<lambda>nb.
     result_bind (isVisited visited nb) (\<lambda>old.
       if old then Inr (visited, nxt)
       else result_bind (setVisited visited nb) (\<lambda>visited'. Inr (visited', nxt @ [nb])))))"

definition expand :: "'w csr \<Rightarrow> nat \<Rightarrow> u64 list \<times> nat list \<Rightarrow> (search_error, u64 list \<times> nat list) result" where
  "expand c node st =
     result_bind (read_at (csr_vertices c) node) (\<lambda>start.
     result_bind (read_at (csr_vertices c) (node + 1)) (\<lambda>en. each [start..<en] (reach_arc c) st))"

text \<open>The nodes of a level: the outcome is an error, or whether the callback went on to the end.\<close>

primrec bfs_level :: "(nat \<Rightarrow> int \<Rightarrow> 's \<Rightarrow> bool \<times> 's) \<Rightarrow> 'w csr \<Rightarrow> nat \<Rightarrow> nat list \<Rightarrow> u64 list \<times> nat list \<Rightarrow> 's
    \<Rightarrow> (search_error, bool \<times> u64 list \<times> nat list) result \<times> 's" where
  "bfs_level visit c depth [] st s = (Inr (True, st), s)"
| "bfs_level visit c depth (node # rest) st s =
     (case visit node (int depth) s of (go, s') \<Rightarrow>
        if \<not> go then (Inr (False, st), s')
        else case expand c node st of Inl e \<Rightarrow> (Inl e, s') | Inr st' \<Rightarrow> bfs_level visit c depth rest st' s')"

partial_function (option) bfs_loop :: "(nat \<Rightarrow> bool) \<Rightarrow> (nat \<Rightarrow> int \<Rightarrow> 's \<Rightarrow> bool \<times> 's) \<Rightarrow> 'w csr \<Rightarrow> nat \<Rightarrow> nat list \<Rightarrow> u64 list \<Rightarrow> 's
    \<Rightarrow> (search_error option \<times> 's) option" where
  "bfs_loop cancelled visit c depth cur visited s =
     (if cur = [] then Some (None, s)
      else if cancelled depth then Some (Some ErrCancelled, s)
      else case bfs_level visit c depth cur (visited, []) s of
             (Inl e, s') \<Rightarrow> Some (Some e, s')
           | (Inr (go, visited', nxt), s') \<Rightarrow>
               if go then bfs_loop cancelled visit c (depth + 1) nxt visited' s' else Some (None, s'))"

declare bfs_loop.simps [code]

definition BFSCtx :: "(nat \<Rightarrow> bool) \<Rightarrow> 'w csr \<Rightarrow> u64 \<Rightarrow> (nat \<Rightarrow> int \<Rightarrow> 's \<Rightarrow> bool \<times> 's) \<Rightarrow> 's \<Rightarrow> (search_error option \<times> 's) option" where
  "BFSCtx cancelled c src visit s =
     (if src + 1 \<ge> word_of_nat (length (csr_vertices c)) then Some (None, s)
      else case setVisited (replicate (bitsetWordsFor (MaxNodeID c)) 0) (unat src) of
             Inl e \<Rightarrow> Some (Some e, s)
           | Inr visited \<Rightarrow> bfs_loop cancelled visit c 0 [unat src] visited s)"

definition BFS :: "'w csr \<Rightarrow> u64 \<Rightarrow> (nat \<Rightarrow> int \<Rightarrow> 's \<Rightarrow> bool \<times> 's) \<Rightarrow> 's \<Rightarrow> 's option" where
  "BFS c src visit s = map_option snd (BFSCtx (\<lambda>_. False) c src visit s)"

subsection \<open>Depth first\<close>

text \<open>The stack has its top first; the neighbours are pushed from the last to the first.\<close>

type_synonym frontierItem = "nat \<times> 32 word"

definition push_arc :: "'w csr \<Rightarrow> u64 list \<Rightarrow> 32 word \<Rightarrow> nat \<Rightarrow> frontierItem list \<Rightarrow> (search_error, frontierItem list) result" where
  "push_arc c visited depth k stack =
     result_bind (read_at (csr_edges c) k) (\<lambda>nb.
     result_bind (isVisited visited nb) (\<lambda>old. Inr (if old then stack else (nb, depth + 1) # stack)))"

definition push_arcs :: "'w csr \<Rightarrow> u64 list \<Rightarrow> frontierItem \<Rightarrow> frontierItem list \<Rightarrow> (search_error, frontierItem list) result" where
  "push_arcs c visited item stack = (case item of (node, depth) \<Rightarrow>
     result_bind (read_at (csr_vertices c) node) (\<lambda>start.
     result_bind (read_at (csr_vertices c) (node + 1)) (\<lambda>en. each (rev [start..<en]) (push_arc c visited depth) stack)))"

definition dfs_mark :: "u64 list \<Rightarrow> nat \<Rightarrow> (search_error, u64 list option) result" where
  "dfs_mark visited node = result_bind (isVisited visited node) (\<lambda>old.
     if old then Inr None else result_bind (setVisited visited node) (\<lambda>visited'. Inr (Some visited')))"

partial_function (option) dfs_loop :: "(nat \<Rightarrow> bool) \<Rightarrow> (nat \<Rightarrow> int \<Rightarrow> 's \<Rightarrow> bool \<times> 's) \<Rightarrow> 'w csr \<Rightarrow> nat \<Rightarrow> frontierItem list \<Rightarrow> u64 list \<Rightarrow> 's
    \<Rightarrow> (search_error option \<times> 's) option" where
  "dfs_loop cancelled visit c popCount stack visited s =
     (case stack of
        [] \<Rightarrow> Some (None, s)
      | item # rest \<Rightarrow>
          if polled cancelled popCount then Some (Some ErrCancelled, s)
          else case dfs_mark visited (fst item) of
                 Inl e \<Rightarrow> Some (Some e, s)
               | Inr None \<Rightarrow> dfs_loop cancelled visit c (popCount + 1) rest visited s
               | Inr (Some visited') \<Rightarrow>
                   (case visit (fst item) (sint (snd item)) s of (go, s') \<Rightarrow>
                      if \<not> go then Some (None, s')
                      else case push_arcs c visited' item rest of
                             Inl e \<Rightarrow> Some (Some e, s')
                           | Inr stack' \<Rightarrow> dfs_loop cancelled visit c (popCount + 1) stack' visited' s'))"

declare dfs_loop.simps [code]

definition DFSCtx :: "(nat \<Rightarrow> bool) \<Rightarrow> 'w csr \<Rightarrow> u64 \<Rightarrow> (nat \<Rightarrow> int \<Rightarrow> 's \<Rightarrow> bool \<times> 's) \<Rightarrow> 's \<Rightarrow> (search_error option \<times> 's) option" where
  "DFSCtx cancelled c src visit s =
     (if src + 1 \<ge> word_of_nat (length (csr_vertices c)) then Some (None, s)
      else dfs_loop cancelled visit c 0 [(unat src, 0)] (replicate (bitsetWordsFor (MaxNodeID c)) 0) s)"

definition DFS :: "'w csr \<Rightarrow> u64 \<Rightarrow> (nat \<Rightarrow> int \<Rightarrow> 's \<Rightarrow> bool \<times> 's) \<Rightarrow> 's \<Rightarrow> 's option" where
  "DFS c src visit s = map_option snd (DFSCtx (\<lambda>_. False) c src visit s)"

subsection \<open>The bits are a set\<close>

definition bits :: "nat \<Rightarrow> u64 list \<Rightarrow> nat set \<Rightarrow> bool" where
  "bits n visited S \<longleftrightarrow> length visited = bitsetWordsFor n \<and> S \<subseteq> {..<n} \<and>
     (\<forall>i < n. bit (visited ! (i div 64)) (i mod 64) \<longleftrightarrow> i \<in> S)"

lemma word_index: "i < n \<Longrightarrow> i div 64 < bitsetWordsFor n"
  by (simp add: bitsetWordsFor_def div_less_iff_less_mult)

lemma bits_empty: "bits n (replicate (bitsetWordsFor n) 0) {}"
  using word_index [of _ n] by (simp add: bits_def)

lemma isVisited_bits:
  assumes "bits n visited S" and "i < n"
  shows "isVisited visited i = Inr (i \<in> S)"
proof -
  have "w AND push_bit j 1 \<noteq> 0 \<longleftrightarrow> bit w j" if "j < 64" for w :: u64 and j
  proof
    assume "w AND push_bit j 1 \<noteq> 0"
    then obtain m where "bit (w AND push_bit j 1) m" using bit_eqI [of "w AND push_bit j 1" 0] by auto
    then have "bit w m" "m = j" by (auto simp: bit_and_iff push_bit_eq_mult bit_exp_iff)
    then show "bit w j" by simp
  next
    assume "bit w j"
    then have "bit (w AND push_bit j 1) j" using that by (simp add: bit_and_iff push_bit_eq_mult bit_exp_iff)
    then show "w AND push_bit j 1 \<noteq> 0" by auto
  qed
  then show ?thesis using assms word_index [of i n] by (simp add: isVisited_def bits_def result_bind_def)
qed

lemma setVisited_bits:
  assumes b: "bits n visited S" and i: "i < n"
  shows "\<exists>visited'. setVisited visited i = Inr visited' \<and> bits n visited' (insert i S)"
proof -
  let ?v = "visited[i div 64 := visited ! (i div 64) OR push_bit (i mod 64) 1]"
  have len: "i div 64 < length visited" using b word_index [OF i] by (simp add: bits_def)
  have "bit (?v ! (j div 64)) (j mod 64) \<longleftrightarrow> j = i \<or> j \<in> S" if j: "j < n" for j
  proof (cases "j div 64 = i div 64")
    case True
    have "j = i \<longleftrightarrow> j mod 64 = i mod 64" using True by (metis div_mult_mod_eq)
    then show ?thesis using True b j len by (auto simp: bits_def bit_simps)
  next
    case False
    then show ?thesis using b j by (auto simp: bits_def)
  qed
  then have "bits n ?v (insert i S)" using b i by (auto simp: bits_def)
  then show ?thesis using len by (simp add: setVisited_def result_bind_def)
qed

lemma in_range:
  fixes src :: u64
  assumes "well_formed c" and "unat src < MaxNodeID c" and "length (csr_vertices c) < 2 ^ 64"
  shows "\<not> src + 1 \<ge> word_of_nat (length (csr_vertices c))"
proof -
  have "unat (word_of_nat (length (csr_vertices c)) :: u64) = length (csr_vertices c)" using assms(3) by (simp add: unat_of_nat)
  moreover have "unat (src + 1) = unat src + 1" using assms length_vertices [OF assms(1)] by (simp add: unat_word_ariths)
  ultimately show ?thesis using assms(2) length_vertices [OF assms(1)] by (simp add: word_le_nat_alt)
qed

subsection \<open>Callbacks\<close>

text \<open>The visits of a traversal, up to the first one that asks to stop.\<close>

primrec run_visits :: "(nat \<Rightarrow> int \<Rightarrow> 's \<Rightarrow> bool \<times> 's) \<Rightarrow> (nat \<times> int) list \<Rightarrow> 's \<Rightarrow> bool \<times> 's" where
  "run_visits visit [] s = (True, s)"
| "run_visits visit (p # ps) s = (case visit (fst p) (snd p) s of (go, s') \<Rightarrow> if go then run_visits visit ps s' else (False, s'))"

lemma run_visits_append:
  "run_visits visit (ps @ qs) s = (case run_visits visit ps s of (go, s') \<Rightarrow> if go then run_visits visit qs s' else (False, s'))"
  by (induction ps arbitrary: s) (auto split: prod.splits)

text \<open>With a callback that records its arguments and never stops, the record is the whole list.\<close>

lemma run_visits_record: "run_visits (\<lambda>v d s. (True, s @ [(v, d)])) ps s = (True, s @ ps)"
  by (induction ps arbitrary: s) auto

subsection \<open>Levels\<close>

definition succs :: "'w csr \<Rightarrow> nat \<Rightarrow> nat set" where
  "succs c u = {v. (u, v) \<in> links c}"

lemma succs_slots: "u < MaxNodeID c \<Longrightarrow> succs c u = (\<lambda>k. csr_edges c ! k) ` set (slots c u)"
  by (auto simp: succs_def links_def)

text \<open>What the arcs of a node, and then the nodes of a level, add to the next level.\<close>

definition grown :: "'w csr \<Rightarrow> nat set \<Rightarrow> nat set \<Rightarrow> u64 list \<times> nat list \<Rightarrow> bool" where
  "grown c S N st \<longleftrightarrow> (case st of (visited, nxt) \<Rightarrow> bits (MaxNodeID c) visited (S \<union> N) \<and> distinct nxt \<and> set nxt = N - S)"

lemma reach_arc_ok:
  assumes wf: "well_formed c" and u: "u < MaxNodeID c" and k: "k \<in> set (slots c u)" and g: "grown c S N st"
  shows "\<exists>st'. reach_arc c k st = Inr st' \<and> grown c S (insert (csr_edges c ! k) N) st'"
proof -
  obtain visited nxt where st: "st = (visited, nxt)" by (cases st)
  let ?v = "csr_edges c ! k"
  note r = slots_range [OF wf u k]
  have b: "bits (MaxNodeID c) visited (S \<union> N)" "distinct nxt" "set nxt = N - S" using g by (simp_all add: grown_def st)
  show ?thesis
  proof (cases "?v \<in> S \<union> N")
    case True
    then have "S \<union> insert ?v N = S \<union> N" "insert ?v N - S = N - S" by auto
    then show ?thesis using b r True isVisited_bits [OF b(1) r(2)] by (simp add: reach_arc_def st result_bind_def grown_def)
  next
    case False
    obtain visited' where v: "setVisited visited ?v = Inr visited'" "bits (MaxNodeID c) visited' (insert ?v (S \<union> N))"
      using setVisited_bits [OF b(1) r(2)] by blast
    then have "grown c S (insert ?v N) (visited', nxt @ [?v])" using b False by (auto simp: grown_def)
    then show ?thesis using r False isVisited_bits [OF b(1) r(2)] v(1) by (simp add: reach_arc_def st result_bind_def)
  qed
qed

lemma expand_ok:
  assumes wf: "well_formed c" and u: "u < MaxNodeID c" and g: "grown c S N st"
  shows "\<exists>st'. expand c u st = Inr st' \<and> grown c S (N \<union> succs c u) st'"
proof -
  let ?P = "\<lambda>ks st. grown c S (N \<union> (\<lambda>k. csr_edges c ! k) ` set ks) st"
  have "\<exists>st'. each (slots c u) (reach_arc c) st = Inr st' \<and> ?P (slots c u) st'"
  proof (rule each_inv [where P = ?P])
    fix ys k zs st'
    assume e: "slots c u = ys @ k # zs" and P: "?P ys st'"
    then show "\<exists>st''. reach_arc c k st' = Inr st'' \<and> ?P (ys @ [k]) st''"
      using reach_arc_ok [OF wf u _ P, of k] by simp
  qed (use g in simp)
  then show ?thesis using u length_vertices [OF wf] succs_slots [OF u] by (simp add: expand_def result_bind_def slots_def)
qed

text \<open>A level, whatever the callback does.\<close>

lemma bfs_level_ok:
  assumes wf: "well_formed c"
  shows "set cur \<subseteq> {..<MaxNodeID c} \<Longrightarrow> grown c S N st \<Longrightarrow>
    \<exists>st'. grown c S (N \<union> (\<Union>u \<in> set cur. succs c u)) st' \<and>
      (\<forall>(visit :: nat \<Rightarrow> int \<Rightarrow> 's \<Rightarrow> bool \<times> 's) s. case run_visits visit (map (\<lambda>v. (v, int depth)) cur) s of (go, s') \<Rightarrow>
         if go then bfs_level visit c depth cur st s = (Inr (True, st'), s')
         else \<exists>st''. bfs_level visit c depth cur st s = (Inr (False, st''), s'))"
proof (induction cur arbitrary: N st)
  case (Cons u cur)
  obtain st1 where st1: "expand c u st = Inr st1" "grown c S (N \<union> succs c u) st1"
    using expand_ok [OF wf _ Cons.prems(2), of u] Cons.prems(1) by auto
  have "set cur \<subseteq> {..<MaxNodeID c}" using Cons.prems(1) by simp
  from Cons.IH [OF this st1(2)] obtain st' where st': "grown c S (N \<union> succs c u \<union> (\<Union>u \<in> set cur. succs c u)) st'"
    "\<And>(visit :: nat \<Rightarrow> int \<Rightarrow> 's \<Rightarrow> bool \<times> 's) s. case run_visits visit (map (\<lambda>v. (v, int depth)) cur) s of (go, s') \<Rightarrow>
         if go then bfs_level visit c depth cur st1 s = (Inr (True, st'), s')
         else \<exists>st''. bfs_level visit c depth cur st1 s = (Inr (False, st''), s')" by blast
  have run: "case run_visits visit (map (\<lambda>v. (v, int depth)) (u # cur)) s of (go, s') \<Rightarrow>
         if go then bfs_level visit c depth (u # cur) st s = (Inr (True, st'), s')
         else \<exists>st''. bfs_level visit c depth (u # cur) st s = (Inr (False, st''), s')" for visit :: "nat \<Rightarrow> int \<Rightarrow> 's \<Rightarrow> bool \<times> 's" and s
  proof -
    obtain go t where v: "visit u (int depth) s = (go, t)" by (cases "visit u (int depth) s")
    show ?thesis using st1(1) st'(2) [of visit t] by (cases "run_visits visit (map (\<lambda>v. (v, int depth)) cur) t") (auto simp: v)
  qed
  have g: "grown c S (N \<union> (\<Union>u \<in> set (u # cur). succs c u)) st'" using st'(1) by (simp add: Un_assoc)
  show ?case by (rule exI [of _ st'], intro conjI allI) (rule g, rule run)
qed auto

text \<open>The nodes at a distance from the source, and those within it.\<close>

definition level :: "'w csr \<Rightarrow> nat \<Rightarrow> nat \<Rightarrow> nat set" where
  "level c src d = {v. (src, v) \<in> links c ^^ d \<and> (\<forall>e < d. (src, v) \<notin> links c ^^ e)}"

definition within :: "'w csr \<Rightarrow> nat \<Rightarrow> nat \<Rightarrow> nat set" where
  "within c src d = {v. \<exists>e \<le> d. (src, v) \<in> links c ^^ e}"

lemma level_0: "level c src 0 = {src}" "within c src 0 = {src}"
  by (auto simp: level_def within_def)

lemma level_Suc: "level c src (Suc d) = (\<Union>u \<in> level c src d. succs c u) - within c src d"
proof (intro set_eqI iffI)
  fix v assume v: "v \<in> level c src (Suc d)"
  then obtain u where u: "(src, u) \<in> links c ^^ d" "(u, v) \<in> links c" by (auto simp: level_def)
  have "(src, u) \<notin> links c ^^ e" if "e < d" for e
  proof
    assume "(src, u) \<in> links c ^^ e"
    then have "(src, v) \<in> links c ^^ Suc e" using u(2) by auto
    then show False using v that unfolding level_def by blast
  qed
  then have "u \<in> level c src d" using u(1) by (simp add: level_def)
  moreover have "v \<notin> within c src d" using v by (auto simp: level_def within_def simp del: relpow.simps)
  ultimately show "v \<in> (\<Union>u \<in> level c src d. succs c u) - within c src d" using u(2) by (auto simp: succs_def)
next
  fix v assume v: "v \<in> (\<Union>u \<in> level c src d. succs c u) - within c src d"
  then obtain u where "(src, u) \<in> links c ^^ d" "(u, v) \<in> links c" by (auto simp: level_def succs_def)
  then have "(src, v) \<in> links c ^^ Suc d" by auto
  moreover have "(src, v) \<notin> links c ^^ e" if "e < Suc d" for e using v that by (auto simp: within_def)
  ultimately show "v \<in> level c src (Suc d)" unfolding level_def by blast
qed

lemma within_Suc: "within c src (Suc d) = within c src d \<union> level c src (Suc d)"
proof (intro set_eqI iffI)
  fix v assume "v \<in> within c src (Suc d)"
  then obtain e where e: "e \<le> Suc d" "(src, v) \<in> links c ^^ e" unfolding within_def by blast
  show "v \<in> within c src d \<union> level c src (Suc d)"
  proof (cases "\<exists>e \<le> d. (src, v) \<in> links c ^^ e")
    case True
    then show ?thesis by (simp add: within_def)
  next
    case False
    then have "e = Suc d" using e le_Suc_eq by blast
    then show ?thesis using e(2) False unfolding level_def by (auto simp del: relpow.simps simp: less_Suc_eq_le)
  qed
next
  fix v assume "v \<in> within c src d \<union> level c src (Suc d)"
  then show "v \<in> within c src (Suc d)" unfolding within_def level_def using le_SucI by blast
qed

lemma level_within: "level c src d \<subseteq> within c src d"
  by (auto simp: level_def within_def)

lemma level_unique: "v \<in> level c src d \<Longrightarrow> v \<in> level c src e \<Longrightarrow> d = e"
  by (cases d e rule: linorder_cases) (auto simp: level_def)

lemma level_empty: "d \<le> e \<Longrightarrow> level c src d = {} \<Longrightarrow> level c src e = {}"
  by (induction rule: dec_induct) (auto simp: level_Suc)

lemma within_range: "well_formed c \<Longrightarrow> src < MaxNodeID c \<Longrightarrow> within c src d \<subseteq> {..<MaxNodeID c}"
proof (induction d)
  case (Suc d)
  then show ?case using links_range by (fastforce simp: within_Suc level_Suc succs_def)
qed (simp add: level_0)

text \<open>The visits from a depth on: level by level, every node once.\<close>

definition visits_from :: "'w csr \<Rightarrow> nat \<Rightarrow> nat \<Rightarrow> (nat \<times> int) list \<Rightarrow> bool" where
  "visits_from c src d trace \<longleftrightarrow> distinct (map fst trace) \<and> sorted (map snd trace) \<and>
     set trace = {(v, int k) |v k. d \<le> k \<and> v \<in> level c src k}"

lemma visits_from_Cons:
  assumes t: "visits_from c src (Suc d) trace" and cur: "set cur = level c src d" "distinct cur"
  shows "visits_from c src d (map (\<lambda>v. (v, int d)) cur @ trace)"
proof -
  have late: "int d < e \<and> (\<exists>k. e = int k \<and> d < k \<and> v \<in> level c src k)" if "(v, e) \<in> set trace" for v e
    using t that by (auto simp: visits_from_def)
  have "fst p \<notin> set cur" if "p \<in> set trace" for p
    using late [of "fst p" "snd p"] that cur(1) level_unique [of "fst p" c src] by auto
  then have "distinct (map fst (map (\<lambda>v. (v, int d)) cur @ trace))"
    using t cur(2) by (auto simp: visits_from_def comp_def)
  moreover have "sorted (map snd (map (\<lambda>v. (v, int d)) cur @ trace))"
    using t late by (force simp: visits_from_def sorted_append comp_def map_replicate_const)
  moreover have "(d \<le> k \<and> v \<in> level c src k) \<longleftrightarrow> (Suc d \<le> k \<and> v \<in> level c src k) \<or> (k = d \<and> v \<in> level c src d)" for v k
    by (cases "k = d") auto
  then have "set (map (\<lambda>v. (v, int d)) cur @ trace) = {(v, int k) |v k. d \<le> k \<and> v \<in> level c src k}"
    using t cur(1) by (auto simp: visits_from_def)
  ultimately show ?thesis by (simp add: visits_from_def)
qed

lemma bfs_loop_ok:
  assumes wf: "well_formed c" and src: "src < MaxNodeID c"
  shows "set cur = level c src d \<Longrightarrow> distinct cur \<Longrightarrow> bits (MaxNodeID c) visited (within c src d) \<Longrightarrow>
    \<exists>trace. visits_from c src d trace \<and> (\<forall>(visit :: nat \<Rightarrow> int \<Rightarrow> 's \<Rightarrow> bool \<times> 's) s.
      bfs_loop (\<lambda>_. False) visit c d cur visited s = Some (None, snd (run_visits visit trace s)))"
proof (induction "card ({..<MaxNodeID c} - within c src d) + (if cur = [] then 0 else 1)" arbitrary: d cur visited rule: less_induct)
  case less
  show ?case
  proof (cases "cur = []")
    case True
    then have "level c src k = {}" if "d \<le> k" for k using level_empty [OF that, of c src] less.prems(1) by simp
    then have "visits_from c src d []" by (auto simp: visits_from_def)
    then show ?thesis using True by (intro exI [of _ "[]"]) (simp add: bfs_loop.simps)
  next
    case False
    have "set cur \<subseteq> {..<MaxNodeID c}" using less.prems(1) level_within [of c src d] within_range [OF wf src, of d] by blast
    moreover have "grown c (within c src d) {} (visited, [])" using less.prems(3) by (simp add: grown_def)
    ultimately have "\<exists>st'. grown c (within c src d) ({} \<union> (\<Union>u \<in> set cur. succs c u)) st' \<and>
      (\<forall>(visit :: nat \<Rightarrow> int \<Rightarrow> 's \<Rightarrow> bool \<times> 's) s. case run_visits visit (map (\<lambda>v. (v, int d)) cur) s of (go, s') \<Rightarrow>
         if go then bfs_level visit c d cur (visited, []) s = (Inr (True, st'), s')
         else \<exists>st''. bfs_level visit c d cur (visited, []) s = (Inr (False, st''), s'))" by (rule bfs_level_ok [OF wf])
    then obtain st' where st': "grown c (within c src d) (\<Union>u \<in> set cur. succs c u) st'"
      "\<And>(visit :: nat \<Rightarrow> int \<Rightarrow> 's \<Rightarrow> bool \<times> 's) s. case run_visits visit (map (\<lambda>v. (v, int d)) cur) s of (go, s') \<Rightarrow>
         if go then bfs_level visit c d cur (visited, []) s = (Inr (True, st'), s')
         else \<exists>st''. bfs_level visit c d cur (visited, []) s = (Inr (False, st''), s')"
      unfolding Un_empty_left by blast
    obtain visited' nxt where "st' = (visited', nxt)" by (cases st')
    note nx = st' [unfolded this]
    have set_nxt: "set nxt = level c src (Suc d)" "distinct nxt" using nx(1) less.prems(1) by (auto simp: grown_def level_Suc)
    have "within c src d \<union> (\<Union>u \<in> set cur. succs c u) = within c src (Suc d)" unfolding within_Suc level_Suc less.prems(1) by blast
    then have bits': "bits (MaxNodeID c) visited' (within c src (Suc d))" using nx(1) by (simp add: grown_def)
    have "card ({..<MaxNodeID c} - within c src (Suc d)) + (if nxt = [] then 0 else 1) < card ({..<MaxNodeID c} - within c src d) + 1"
    proof (cases "nxt = []")
      case True
      then show ?thesis using set_nxt(1) by (simp add: within_Suc)
    next
      case False
      then obtain v where v: "v \<in> level c src (Suc d)" using set_nxt(1) by (cases nxt) auto
      then have "v \<in> {..<MaxNodeID c}" "v \<notin> within c src d"
        using level_within [of c src "Suc d"] within_range [OF wf src, of "Suc d"] level_Suc [of c src d] by auto
      then have "{..<MaxNodeID c} - within c src (Suc d) \<subset> {..<MaxNodeID c} - within c src d" using v by (auto simp: within_Suc)
      then show ?thesis using psubset_card_mono [of "{..<MaxNodeID c} - within c src d"] \<open>nxt \<noteq> []\<close> by simp
    qed
    then obtain trace where t: "visits_from c src (Suc d) trace" "\<And>(visit :: nat \<Rightarrow> int \<Rightarrow> 's \<Rightarrow> bool \<times> 's) s.
      bfs_loop (\<lambda>_. False) visit c (Suc d) nxt visited' s = Some (None, snd (run_visits visit trace s))"
      using less.hyps [of "Suc d" nxt visited'] set_nxt bits' False by auto
    have "bfs_loop (\<lambda>_. False) visit c d cur visited s = Some (None, snd (run_visits visit (map (\<lambda>v. (v, int d)) cur @ trace) s))"
      for visit :: "nat \<Rightarrow> int \<Rightarrow> 's \<Rightarrow> bool \<times> 's" and s
      using nx(2) [of visit s] t(2) False
      by (subst bfs_loop.simps) (auto simp: run_visits_append split: prod.splits if_splits)
    then show ?thesis using visits_from_Cons [OF t(1) less.prems(1,2)] by blast
  qed
qed

text \<open>
  Property C32. Breadth-first search from a node of a well-formed snapshot returns, and whatever the callback
  does it is called along one list of visits until it asks to stop: that list has every node reachable
  from the source once, each with its distance, the least number of arcs of a walk, as depth, and the
  depths do not decrease.
\<close>

theorem bfs_visits_levels:
  fixes c :: "'w csr"
  assumes wf: "well_formed c" and src: "unat src < MaxNodeID c" and n: "length (csr_vertices c) < 2 ^ 64"
  shows "\<exists>trace. distinct (map fst trace) \<and> sorted (map snd trace) \<and>
     set trace = {(v, int d) |v d. (unat src, v) \<in> links c ^^ d \<and> (\<forall>e < d. (unat src, v) \<notin> links c ^^ e)} \<and>
     (\<forall>(visit :: nat \<Rightarrow> int \<Rightarrow> 's \<Rightarrow> bool \<times> 's) s. BFS c src visit s = Some (snd (run_visits visit trace s)))"
proof -
  obtain visited where v: "setVisited (replicate (bitsetWordsFor (MaxNodeID c)) 0) (unat src) = Inr visited"
    "bits (MaxNodeID c) visited {unat src}" using setVisited_bits [OF bits_empty src] by blast
  obtain trace where t: "visits_from c (unat src) 0 trace" "\<And>(visit :: nat \<Rightarrow> int \<Rightarrow> 's \<Rightarrow> bool \<times> 's) s.
      bfs_loop (\<lambda>_. False) visit c 0 [unat src] visited s = Some (None, snd (run_visits visit trace s))"
    using bfs_loop_ok [OF wf src, of "[unat src]" 0 visited] v(2) by (auto simp: level_0)
  have "\<not> src + 1 \<ge> word_of_nat (length (csr_vertices c))" by (rule in_range [OF wf src n])
  then have "BFS c src visit s = Some (snd (run_visits visit trace s))" for visit :: "nat \<Rightarrow> int \<Rightarrow> 's \<Rightarrow> bool \<times> 's" and s
    using v(1) t(2) by (simp add: BFS_def BFSCtx_def)
  then show ?thesis using t(1) unfolding visits_from_def level_def by auto
qed

subsection \<open>Recursive depth-first search\<close>

text \<open>The canonical recursive search over a list of items, as a relation: the visits and the set after them.\<close>

definition succ_items :: "'w csr \<Rightarrow> frontierItem \<Rightarrow> frontierItem list" where
  "succ_items c item = map (\<lambda>k. (csr_edges c ! k, snd item + 1)) (slots c (fst item))"

inductive recursive_dfs :: "'w csr \<Rightarrow> nat set \<Rightarrow> frontierItem list \<Rightarrow> frontierItem list \<Rightarrow> nat set \<Rightarrow> bool" for c where
  rd_nil: "recursive_dfs c S [] [] S"
| rd_skip: "fst x \<in> S \<Longrightarrow> recursive_dfs c S xs t S' \<Longrightarrow> recursive_dfs c S (x # xs) t S'"
| rd_visit: "fst x \<notin> S \<Longrightarrow> recursive_dfs c (insert (fst x) S) (succ_items c x) t1 S1 \<Longrightarrow> recursive_dfs c S1 xs t2 S2 \<Longrightarrow>
    recursive_dfs c S (x # xs) (x # t1 @ t2) S2"

inductive_cases rd_nilE: "recursive_dfs c S [] t S'"

lemma rd_grows: "recursive_dfs c S xs t S' \<Longrightarrow> S' = S \<union> fst ` set t \<and> distinct (map fst t) \<and> fst ` set t \<inter> S = {} \<and> fst ` set xs \<subseteq> S'"
proof (induction rule: recursive_dfs.induct)
  case (rd_visit x S t1 S1 xs t2 S2)
  have "fst ` set t1 \<inter> fst ` set t2 = {}" using rd_visit.IH by blast
  then show ?case using rd_visit.IH rd_visit.hyps(1) by auto
qed auto

lemma rd_append:
  "recursive_dfs c S (xs @ ys) t S' \<Longrightarrow> \<exists>t1 t2 S1. t = t1 @ t2 \<and> recursive_dfs c S xs t1 S1 \<and> recursive_dfs c S1 ys t2 S'"
proof (induction xs arbitrary: S t)
  case Nil
  then show ?case using rd_nil by fastforce
next
  case (Cons x xs)
  from Cons.prems have "recursive_dfs c S (x # (xs @ ys)) t S'" by simp
  then show ?case
  proof cases
    case rd_skip
    then obtain t1 t2 S1 where "t = t1 @ t2" "recursive_dfs c S xs t1 S1" "recursive_dfs c S1 ys t2 S'" using Cons.IH by blast
    then show ?thesis using recursive_dfs.rd_skip [OF rd_skip(1)] by blast
  next
    case (rd_visit u1 S1 u2)
    from Cons.IH [OF rd_visit(4)] obtain t1 t2 S3 where u2: "u2 = t1 @ t2" and r: "recursive_dfs c S1 xs t1 S3" "recursive_dfs c S3 ys t2 S'" by blast
    have "t = (x # u1 @ t1) @ t2" using rd_visit(1) u2 by simp
    then show ?thesis using recursive_dfs.rd_visit [OF rd_visit(2,3) r(1)] r(2) by blast
  qed
qed

text \<open>Leaving out items that were visited before changes nothing.\<close>

lemma rd_filter: "recursive_dfs c S (filter (\<lambda>x. fst x \<notin> S0) xs) t S' \<Longrightarrow> S0 \<subseteq> S \<Longrightarrow> recursive_dfs c S xs t S'"
proof (induction xs arbitrary: S t)
  case (Cons x xs)
  show ?case
  proof (cases "fst x \<in> S0")
    case True
    then show ?thesis using Cons rd_skip [of x S c xs t S'] by auto
  next
    case False
    then have "recursive_dfs c S (x # filter (\<lambda>x. fst x \<notin> S0) xs) t S'" using Cons.prems(1) by simp
    then show ?thesis
    proof cases
      case rd_skip
      then show ?thesis using Cons.IH [OF rd_skip(2) Cons.prems(2)] recursive_dfs.rd_skip by blast
    next
      case (rd_visit u1 S1 u2)
      have "S0 \<subseteq> S1" using rd_grows [OF rd_visit(3)] Cons.prems(2) by blast
      then have "recursive_dfs c S1 xs u2 S'" by (rule Cons.IH [OF rd_visit(4)])
      then show ?thesis using recursive_dfs.rd_visit [OF rd_visit(2,3)] rd_visit(1) by simp
    qed
  qed
qed simp

text \<open>The loop follows the recursive search: its stack is the list of items still to come.\<close>

lemma push_arcs_ok:
  assumes wf: "well_formed c" and u: "fst item < MaxNodeID c" and b: "bits (MaxNodeID c) visited S"
  shows "push_arcs c visited item rest = Inr (filter (\<lambda>x. fst x \<notin> S) (succ_items c item) @ rest)"
proof -
  let ?f = "push_arc c visited (snd item)"
  have "each (rev ks) ?f rest = Inr (filter (\<lambda>x. fst x \<notin> S) (map (\<lambda>k. (csr_edges c ! k, snd item + 1)) ks) @ rest)"
    if "set ks \<subseteq> set (slots c (fst item))" for ks
    using that
  proof (induction ks)
    case (Cons k ks)
    have k: "k \<in> set (slots c (fst item))" using Cons.prems by simp
    note r = slots_range [OF wf u k]
    show ?case using Cons r isVisited_bits [OF b r(2)] by (simp add: each_append result_bind_def push_arc_def)
  qed simp
  from this [of "slots c (fst item)"] show ?thesis
    using u length_vertices [OF wf] by (cases item) (simp add: push_arcs_def succ_items_def slots_def result_bind_def)
qed

definition calls :: "frontierItem list \<Rightarrow> (nat \<times> int) list" where
  "calls t = map (\<lambda>(v, d). (v, sint d)) t"

lemma calls_simps [simp]: "calls [] = []" "calls (x # t) = (fst x, sint (snd x)) # calls t"
  by (simp_all add: calls_def case_prod_beta)

lemma succ_items_range: "well_formed c \<Longrightarrow> fst item < MaxNodeID c \<Longrightarrow> fst ` set (succ_items c item) \<subseteq> {..<MaxNodeID c}"
  using slots_range(2) by (auto simp: succ_items_def)

lemma dfs_loop_ok:
  assumes wf: "well_formed c"
  shows "fst ` set stack \<subseteq> {..<MaxNodeID c} \<Longrightarrow> bits (MaxNodeID c) visited S \<Longrightarrow>
    \<exists>t S'. recursive_dfs c S stack t S' \<and> (\<forall>(visit :: nat \<Rightarrow> int \<Rightarrow> 's \<Rightarrow> bool \<times> 's) s.
      dfs_loop (\<lambda>_. False) visit c pops stack visited s = Some (None, snd (run_visits visit (calls t) s)))"
proof (induction "(card ({..<MaxNodeID c} - S), length stack)" arbitrary: stack visited S pops
    rule: wf_induct_rule [OF wf_lex_prod [OF wf_less_than wf_less_than]])
  case less: (1 stack S visited pops)
  show ?case
  proof (cases stack)
    case Nil
    then show ?thesis using rd_nil by (intro exI [of _ "[]"] exI [of _ S]) (simp add: dfs_loop.simps)
  next
    case (Cons x rest)
    have x: "fst x < MaxNodeID c" and rest: "fst ` set rest \<subseteq> {..<MaxNodeID c}" using less.prems(1) Cons by auto
    have iv: "isVisited visited (fst x) = Inr (fst x \<in> S)" by (rule isVisited_bits [OF less.prems(2) x])
    show ?thesis
    proof (cases "fst x \<in> S")
      case True
      obtain t S' where t: "recursive_dfs c S rest t S'" "\<And>(visit :: nat \<Rightarrow> int \<Rightarrow> 's \<Rightarrow> bool \<times> 's) s.
          dfs_loop (\<lambda>_. False) visit c (pops + 1) rest visited s = Some (None, snd (run_visits visit (calls t) s))"
        using less.hyps [OF _ rest less.prems(2), of "pops + 1"] Cons by auto
      have "dfs_loop (\<lambda>_. False) visit c pops stack visited s = Some (None, snd (run_visits visit (calls t) s))"
        for visit :: "nat \<Rightarrow> int \<Rightarrow> 's \<Rightarrow> bool \<times> 's" and s
        using t(2) iv True Cons by (subst dfs_loop.simps) (simp add: dfs_mark_def result_bind_def polled_def)
      then show ?thesis using rd_skip [OF True t(1)] Cons by blast
    next
      case False
      obtain visited' where v: "setVisited visited (fst x) = Inr visited'" "bits (MaxNodeID c) visited' (insert (fst x) S)"
        using setVisited_bits [OF less.prems(2) x] by blast
      let ?new = "filter (\<lambda>y. fst y \<notin> insert (fst x) S) (succ_items c x)"
      have push: "push_arcs c visited' x rest = Inr (?new @ rest)" by (rule push_arcs_ok [OF wf x v(2)])
      have "{..<MaxNodeID c} - insert (fst x) S \<subset> {..<MaxNodeID c} - S" using x False by auto
      then have lt: "card ({..<MaxNodeID c} - insert (fst x) S) < card ({..<MaxNodeID c} - S)" by (rule psubset_card_mono [rotated]) simp
      have rng: "fst ` set (?new @ rest) \<subseteq> {..<MaxNodeID c}" using rest succ_items_range [OF wf x] by auto
      obtain t S' where t: "recursive_dfs c (insert (fst x) S) (?new @ rest) t S'" "\<And>(visit :: nat \<Rightarrow> int \<Rightarrow> 's \<Rightarrow> bool \<times> 's) s.
          dfs_loop (\<lambda>_. False) visit c (pops + 1) (?new @ rest) visited' s = Some (None, snd (run_visits visit (calls t) s))"
        using less.hyps [OF _ rng v(2), of "pops + 1"] lt by auto
      from rd_append [OF t(1)] obtain t1 t2 S1 where sp: "t = t1 @ t2" "recursive_dfs c (insert (fst x) S) ?new t1 S1"
        "recursive_dfs c S1 rest t2 S'" by blast
      have "recursive_dfs c (insert (fst x) S) (succ_items c x) t1 S1" by (rule rd_filter [OF sp(2)]) simp
      then have "recursive_dfs c S stack (x # t) S'" unfolding sp(1) Cons by (rule rd_visit [OF False _ sp(3)])
      moreover have "dfs_loop (\<lambda>_. False) visit c pops stack visited s = Some (None, snd (run_visits visit (calls (x # t)) s))"
        for visit :: "nat \<Rightarrow> int \<Rightarrow> 's \<Rightarrow> bool \<times> 's" and s
        using t(2) iv False Cons v(1) push
        by (subst dfs_loop.simps) (simp add: dfs_mark_def result_bind_def polled_def split: prod.split)
      ultimately show ?thesis by blast
    qed
  qed
qed

text \<open>The recursive search visits what is reachable.\<close>

lemma succ_items_succs:
  assumes "fst x < MaxNodeID c"
  shows "fst ` set (succ_items c x) = succs c (fst x)"
  using succs_slots [OF assms] by (simp add: succ_items_def image_image)

lemma rd_closed:
  "recursive_dfs c S xs t S' \<Longrightarrow> well_formed c \<Longrightarrow> fst ` set xs \<subseteq> {..<MaxNodeID c} \<Longrightarrow>
     (\<forall>v \<in> fst ` set t. succs c v \<subseteq> S') \<and> (\<forall>v \<in> fst ` set t. \<exists>x \<in> fst ` set xs. (x, v) \<in> (links c)\<^sup>*)"
proof (induction rule: recursive_dfs.induct)
  case (rd_skip x S xs t S')
  then have "(\<forall>v \<in> fst ` set t. succs c v \<subseteq> S')" "(\<forall>v \<in> fst ` set t. \<exists>x \<in> fst ` set xs. (x, v) \<in> (links c)\<^sup>*)" by auto
  then show ?case by (metis image_insert insertCI list.simps(15))
next
  case (rd_visit x S t1 S1 xs t2 S2)
  have x: "fst x < MaxNodeID c" "fst ` set xs \<subseteq> {..<MaxNodeID c}" using rd_visit.prems(2) by auto
  note here = rd_visit.IH(1) [OF rd_visit.prems(1) succ_items_range [OF rd_visit.prems(1) x(1)]]
    and later = rd_visit.IH(2) [OF rd_visit.prems(1) x(2)]
  have g1: "fst ` set (succ_items c x) \<subseteq> S1" and g2: "S1 \<subseteq> S2"
    using conjunct2 [OF conjunct2 [OF conjunct2 [OF rd_grows [OF rd_visit.hyps(2)]]]] conjunct1 [OF rd_grows [OF rd_visit.hyps(3)]] by auto
  have "succs c v \<subseteq> S2" if v: "v \<in> fst ` set (x # t1 @ t2)" for v
  proof -
    from v consider "v = fst x" | "v \<in> fst ` set t1" | "v \<in> fst ` set t2" by auto
    then show ?thesis
    proof cases
      case 1
      then show ?thesis using succ_items_succs [OF x(1)] g1 g2 by simp
    next
      case 2
      then have "succs c v \<subseteq> S1" using conjunct1 [OF here] by (rule bspec [rotated])
      then show ?thesis using g2 by (rule subset_trans)
    next
      case 3
      then show ?thesis using conjunct1 [OF later] by (rule bspec [rotated])
    qed
  qed
  moreover have "\<exists>z \<in> fst ` set (x # xs). (z, v) \<in> (links c)\<^sup>*" if v: "v \<in> fst ` set (x # t1 @ t2)" for v
  proof -
    from v consider "v = fst x" | "v \<in> fst ` set t1" | "v \<in> fst ` set t2" by auto
    then show ?thesis
    proof cases
      case 2
      then obtain y where "y \<in> succs c (fst x)" "(y, v) \<in> (links c)\<^sup>*" using here succ_items_succs [OF x(1)] by blast
      then have "(fst x, v) \<in> (links c)\<^sup>*" by (auto simp: succs_def intro: converse_rtrancl_into_rtrancl)
      then show ?thesis by simp
    next
      case 3
      then have "\<exists>z \<in> fst ` set xs. (z, v) \<in> (links c)\<^sup>*" using conjunct2 [OF later] by (rule bspec [rotated])
      then show ?thesis by auto
    qed simp
  qed
  ultimately show ?case by blast
qed simp

lemma rd_reachable:
  assumes wf: "well_formed c" and u: "u < MaxNodeID c" and r: "recursive_dfs c {} [(u, d)] t S"
  shows "fst ` set t = {v. (u, v) \<in> (links c)\<^sup>*}"
proof -
  have g: "S = fst ` set t" "u \<in> S" using rd_grows [OF r] by auto
  have cl: "\<And>v. v \<in> S \<Longrightarrow> succs c v \<subseteq> S" "\<And>v. v \<in> S \<Longrightarrow> (u, v) \<in> (links c)\<^sup>*"
    using rd_closed [OF r wf] u g(1) by auto
  have "v \<in> S" if "(u, v) \<in> (links c)\<^sup>*" for v
    using that by (induction rule: rtrancl_induct) (use g(2) cl(1) in \<open>auto simp: succs_def\<close>)
  then show ?thesis using cl(2) g(1) by blast
qed

text \<open>
  Property C33. Depth-first search with its explicit stack makes the calls of the canonical recursive search,
  in its order and at its depths, until the callback asks to stop, whatever the callback does; these are
  the nodes reachable from the source, each once. Depths are counted in 32 bits.
\<close>

theorem dfs_visits_recursively:
  fixes c :: "'w csr"
  assumes wf: "well_formed c" and src: "unat src < MaxNodeID c" and n: "length (csr_vertices c) < 2 ^ 64"
  shows "\<exists>t S. recursive_dfs c {} [(unat src, 0)] t S \<and> distinct (map fst t) \<and> fst ` set t = {v. (unat src, v) \<in> (links c)\<^sup>*} \<and>
     (\<forall>(visit :: nat \<Rightarrow> int \<Rightarrow> 's \<Rightarrow> bool \<times> 's) s. DFS c src visit s = Some (snd (run_visits visit (calls t) s)))"
proof -
  obtain t S where t: "recursive_dfs c {} [(unat src, 0)] t S" "\<And>(visit :: nat \<Rightarrow> int \<Rightarrow> 's \<Rightarrow> bool \<times> 's) s.
      dfs_loop (\<lambda>_. False) visit c 0 [(unat src, 0)] (replicate (bitsetWordsFor (MaxNodeID c)) 0) s = Some (None, snd (run_visits visit (calls t) s))"
    using dfs_loop_ok [OF wf _ bits_empty, of "[(unat src, 0)]" 0] src by auto
  have "DFS c src visit s = Some (snd (run_visits visit (calls t) s))" for visit :: "nat \<Rightarrow> int \<Rightarrow> 's \<Rightarrow> bool \<times> 's" and s
    using t(2) in_range [OF wf src n] by (simp add: DFS_def DFSCtx_def)
  then show ?thesis using t(1) rd_reachable [OF wf src t(1)] rd_grows [OF t(1)] by blast
qed

definition traverse_sample :: "int csr" where
  "traverse_sample = FromArrays [0, 2, 3, 4, 5, 6] [1, 2, 3, 3, 0, 4] None 5 6"

lemma traverse_sample_ok:
  "well_formed traverse_sample" "unat (0 :: u64) < MaxNodeID traverse_sample" "length (csr_vertices traverse_sample) < 2 ^ 64"
proof -
  show "well_formed traverse_sample" unfolding well_formed_def by code_simp
qed (simp_all add: traverse_sample_def FromArrays_def MaxNodeID_def)

definition recorder :: "nat \<Rightarrow> int \<Rightarrow> (nat \<times> int) list \<Rightarrow> bool \<times> (nat \<times> int) list" where
  "recorder v d s = (True, s @ [(v, d)])"

theorem bfs_visits_levels_witness:
  "\<exists>trace. distinct (map fst trace) \<and> sorted (map snd trace) \<and> BFS traverse_sample 0 recorder [] = Some trace"
  using bfs_visits_levels [OF traverse_sample_ok, where 's = "(nat \<times> int) list"] run_visits_record [of _ "[]"]
  unfolding recorder_def by fastforce

theorem dfs_visits_recursively_witness:
  "\<exists>t S. recursive_dfs traverse_sample {} [(0, 0)] t S \<and> DFS traverse_sample 0 recorder [] = Some (calls t)"
  using dfs_visits_recursively [OF traverse_sample_ok, where 's = "(nat \<times> int) list"] run_visits_record [of _ "[]"]
  unfolding recorder_def by fastforce

theorem traverse_sample_run:
  "BFS traverse_sample 0 recorder [] = Some [(0, 0), (1, 1), (2, 1), (3, 2)]"
  "DFS traverse_sample 0 recorder [] = Some [(0, 0), (1, 1), (3, 2), (2, 1)]"
  by code_simp+

end
