(* ===== verification/Mvcc_Core.thy ===== *)
theory Mvcc_Core
  imports Prelude
begin

text \<open>
  The timestamp space, commit records and visibility of \<open>graph/mvcc/mvcc.go\<close>, and the
  write-write conflict test of \<open>graph/mvcc/conflict.go\<close>. A timestamp is a 64-bit word;
  a \<open>*CommitInfo\<close> is an index into the clock's append-only heap of records (records are
  never recycled), so a record's \<open>older\<close> link is an optional index.
\<close>

subsection \<open>The timestamp space\<close>

definition TxIDBase :: u64 where "TxIDBase = push_bit 63 1"
definition AbortedTS :: u64 where "AbortedTS = NOT 0"
definition ImplicitTxBit :: u64 where "ImplicitTxBit = push_bit 62 1"
definition BoundedTxBit :: u64 where "BoundedTxBit = push_bit 61 1"

definition Visible :: "u64 \<Rightarrow> u64 \<Rightarrow> u64 \<Rightarrow> bool" where
  "Visible ts startTS txID =
     (if ts = txID then True
      else if ts < TxIDBase then ts \<le> startTS
      else False)"

definition IsImplicitTx :: "u64 \<Rightarrow> bool" where
  "IsImplicitTx ts \<longleftrightarrow> ts \<ge> TxIDBase \<and> ts \<noteq> AbortedTS \<and> ts AND ImplicitTxBit \<noteq> 0"

definition IsBoundedTx :: "u64 \<Rightarrow> bool" where
  "IsBoundedTx ts \<longleftrightarrow>
     ts \<ge> TxIDBase \<and> ts \<noteq> AbortedTS \<and> ts AND BoundedTxBit \<noteq> 0 \<and> ts AND ImplicitTxBit = 0"

subsection \<open>The commit record\<close>

definition finishedNone :: u32 where "finishedNone = 0"
definition finishedMarked :: u32 where "finishedMarked = 1"
definition finishedCounted :: u32 where "finishedCounted = 2"

record CommitInfo =
  ci_ts :: u64
  ci_claim :: u64
  ci_ready :: bool
  ci_finished :: u32
  ci_older :: "nat option"

definition NewCommitInfo :: "u64 \<Rightarrow> CommitInfo" where
  "NewCommitInfo txID =
     \<lparr>ci_ts = txID, ci_claim = 0, ci_ready = False, ci_finished = finishedNone, ci_older = None\<rparr>"

definition NewCommittedInfo :: "u64 \<Rightarrow> CommitInfo" where
  "NewCommittedInfo t =
     \<lparr>ci_ts = t, ci_claim = 0, ci_ready = False, ci_finished = finishedNone, ci_older = None\<rparr>"

text \<open>
  \<open>stamp\<close> is linearised at its compare-and-swap: the loop retries only when the record
  changed between its load and its swap, so its effect is the one of the last iteration.
\<close>

definition stamp :: "u64 \<Rightarrow> CommitInfo \<Rightarrow> CommitInfo \<times> bool" where
  "stamp commitTS c =
     (if ci_ts c < TxIDBase \<or> ci_ts c = AbortedTS then (c, False)
      else (c\<lparr>ci_ts := commitTS\<rparr>, True))"

definition Commit :: "u64 \<Rightarrow> CommitInfo \<Rightarrow> CommitInfo" where
  "Commit commitTS c = fst (stamp commitTS c)"

definition MarkReady :: "CommitInfo \<Rightarrow> CommitInfo" where
  "MarkReady c = c\<lparr>ci_ready := True\<rparr>"

definition Abort :: "CommitInfo \<Rightarrow> CommitInfo" where
  "Abort c = c\<lparr>ci_ts := AbortedTS\<rparr>"

definition TS :: "CommitInfo \<Rightarrow> u64" where
  "TS c = ci_ts c"

subsection \<open>Write-write conflicts\<close>

record Conflict =
  Store :: string
  HeadTS :: u64
  StartTS :: u64
  TxID :: u64

definition ConcurrentWriter :: "Conflict \<Rightarrow> bool" where
  "ConcurrentWriter c \<longleftrightarrow> HeadTS c \<ge> TxIDBase"

definition Conflicts :: "u64 \<Rightarrow> u64 \<Rightarrow> u64 \<Rightarrow> bool" where
  "Conflicts headTS startTS txID = (if headTS = 0 then False else \<not> Visible headTS startTS txID)"

definition NewConflict :: "string \<Rightarrow> u64 \<Rightarrow> u64 \<Rightarrow> u64 \<Rightarrow> Conflict" where
  "NewConflict store headTS startTS txID =
     \<lparr>Store = store, HeadTS = headTS, StartTS = startTS, TxID = txID\<rparr>"

subsection \<open>Lemmas\<close>

lemmas mvcc_consts = TxIDBase_def AbortedTS_def ImplicitTxBit_def BoundedTxBit_def

lemma TxIDBase_eq: "TxIDBase = 0x8000000000000000"
  by (simp add: TxIDBase_def push_bit_eq_mult)

lemma AbortedTS_eq: "AbortedTS = - 1"
  by (simp add: AbortedTS_def)

lemma unat_TxIDBase: "unat TxIDBase = 2 ^ 63"
  by (simp add: TxIDBase_eq)

lemma zero_less_TxIDBase [simp]: "0 < TxIDBase"
  by (simp add: TxIDBase_eq)

lemma TxIDBase_neq_0 [simp]: "TxIDBase \<noteq> 0"
  by (simp add: TxIDBase_eq)

lemma TxIDBase_le_Aborted [simp]: "TxIDBase \<le> AbortedTS" "\<not> AbortedTS < TxIDBase"
  by (simp_all add: AbortedTS_eq)

lemma Visible_committed: "t < TxIDBase \<Longrightarrow> TxIDBase \<le> txID \<Longrightarrow> Visible t s txID \<longleftrightarrow> t \<le> s"
  by (auto simp: Visible_def)

lemma Visible_inflight: "TxIDBase \<le> t \<Longrightarrow> Visible t s txID \<longleftrightarrow> t = txID"
  by (auto simp: Visible_def)

lemma Visible_zero [simp]: "Visible 0 s txID"
  by (simp add: Visible_def)

text \<open>A word below \<open>2 ^ k\<close> has no bit at \<open>k\<close> or above; the base is exactly bit 63.\<close>

lemma bit_u64: "bit (w :: u64) n \<longleftrightarrow> odd (unat w div 2 ^ n)"
proof -
  have "bit w n = bit (unat w) n" by (simp add: bit_unsigned_iff bit_imp_le_length)
  then show ?thesis by (simp only: bit_iff_odd [of "unat w"])
qed

lemma no_high_bit:
  assumes "unat (w :: u64) < 2 ^ k" and "k \<le> n"
  shows "\<not> bit w n"
proof -
  have "unat w < 2 ^ n"
    using assms(1) power_increasing [OF assms(2), of "2 :: nat"] by linarith
  then show ?thesis unfolding bit_u64 by simp
qed

lemma ge_TxIDBase_iff_bit: "TxIDBase \<le> w \<longleftrightarrow> bit w 63"
proof -
  have "unat w div 2 ^ 63 < 2" using unat_u64_bound [of w] by simp
  then have "odd (unat w div 2 ^ 63) \<longleftrightarrow> 2 ^ 63 \<le> unat w"
    by (cases "unat w div 2 ^ 63") (auto simp: div_eq_0_iff)
  then show ?thesis
    unfolding bit_u64 word_le_nat_alt unat_TxIDBase by simp
qed

lemma mark_bits [simp]:
  "w AND ImplicitTxBit \<noteq> 0 \<longleftrightarrow> bit w 62" "w AND ImplicitTxBit = 0 \<longleftrightarrow> \<not> bit w 62"
  "w AND BoundedTxBit \<noteq> 0 \<longleftrightarrow> bit w 61" "w AND BoundedTxBit = 0 \<longleftrightarrow> \<not> bit w 61"
  by (simp_all add: ImplicitTxBit_def BoundedTxBit_def bit_iff_and_push_bit_not_eq_0)

lemma bit_TxIDBase [simp]: "bit TxIDBase n \<longleftrightarrow> n = 63"
  unfolding TxIDBase_def bit_push_bit_iff bit_1_iff by auto

lemma bit_marks [simp]: "bit ImplicitTxBit n \<longleftrightarrow> n = 62" "bit BoundedTxBit n \<longleftrightarrow> n = 61"
  unfolding ImplicitTxBit_def BoundedTxBit_def bit_push_bit_iff bit_1_iff by auto

lemma TxIDBase_add_bits:
  assumes "unat n < 2 ^ 61"
  shows "TxIDBase + n = TxIDBase OR n"
proof (rule disjunctive_add_eq_or)
  show "TxIDBase AND n = 0"
    using no_high_bit [OF assms, of 63]
    by (auto intro!: bit_word_eqI simp: bit_and_iff)
qed

lemma bit_txids:
  assumes "unat n < 2 ^ 61"
  shows "bit (TxIDBase + n) i \<longleftrightarrow> i = 63 \<or> bit n i"
    and "bit ((TxIDBase + n) OR ImplicitTxBit) i \<longleftrightarrow> i = 63 \<or> i = 62 \<or> bit n i"
    and "bit ((TxIDBase + n) OR BoundedTxBit) i \<longleftrightarrow> i = 63 \<or> i = 61 \<or> bit n i"
  unfolding TxIDBase_add_bits [OF assms] bit_or_iff
  by auto

lemma AbortedTS_bits: "w = AbortedTS \<Longrightarrow> n < 64 \<Longrightarrow> bit w n"
  by (simp add: AbortedTS_def bit_simps)

text \<open>Stepping a timestamp by one, below the transaction-id range.\<close>

lemma unat_Suc_ts: "w < TxIDBase \<Longrightarrow> unat (w + 1) = Suc (unat w)"
  by (simp add: word_less_nat_alt unat_TxIDBase unat_word_ariths)

lemma Suc_ts_le_iff: "w < TxIDBase \<Longrightarrow> w + 1 \<le> v \<longleftrightarrow> w < v"
  by (auto simp: word_less_nat_alt word_le_nat_alt unat_Suc_ts)

lemma le_Suc_ts_iff: "w < TxIDBase \<Longrightarrow> v \<le> w + 1 \<longleftrightarrow> v \<le> w \<or> v = w + 1"
  by (auto simp: word_le_nat_alt unat_Suc_ts word_unat_eq_iff)

lemma less_Suc_ts [simp]: "w < TxIDBase \<Longrightarrow> w < w + 1"
  by (simp add: word_less_nat_alt unat_Suc_ts)

lemma Suc_ts_nz: "w < TxIDBase \<Longrightarrow> w + 1 \<noteq> 0"
  by (simp add: word_unat_eq_iff unat_Suc_ts)

lemma stamp_cases:
  "fst (stamp t c) = (if TxIDBase \<le> ci_ts c \<and> ci_ts c \<noteq> AbortedTS then c\<lparr>ci_ts := t\<rparr> else c)"
  by (auto simp: stamp_def)

lemma stamp_fields [simp]:
  "ci_claim (fst (stamp t c)) = ci_claim c" "ci_ready (fst (stamp t c)) = ci_ready c"
  "ci_finished (fst (stamp t c)) = ci_finished c" "ci_older (fst (stamp t c)) = ci_older c"
  by (simp_all add: stamp_def)

lemma fold_Commit_decided:
  "ci_ts c < TxIDBase \<or> ci_ts c = AbortedTS \<Longrightarrow> fold Commit us c = c"
  by (induction us) (auto simp: Commit_def stamp_def)

subsection \<open>Properties\<close>

text \<open>
  A writer is refused exactly when it could not have read the newest version, which
  is either another transaction's unfinished (or aborted) work, reported as a concurrent
  writer, or a commit after its snapshot.
\<close>

theorem conflicts_exactly_invisible:
  "(Conflicts headTS startTS txID \<longleftrightarrow> \<not> Visible headTS startTS txID) \<and>
   (Conflicts headTS startTS txID \<longleftrightarrow>
      headTS \<noteq> txID \<and>
      (ConcurrentWriter (NewConflict store headTS startTS txID) \<or> startTS < headTS))"
  by (auto simp: Conflicts_def Visible_def ConcurrentWriter_def NewConflict_def not_less)

text \<open>
  A commit record is decided once: whatever commit timestamps later parties
  (the owner or a helper) try to stamp it with, an in-flight record keeps the first one, and
  an aborted or committed record is left as it is.
\<close>

theorem commit_record_decided_once:
  assumes "t < TxIDBase"
  shows "fold Commit (t # us) c =
     (if TxIDBase \<le> ci_ts c \<and> ci_ts c \<noteq> AbortedTS then c\<lparr>ci_ts := t\<rparr> else c)"
proof (cases "TxIDBase \<le> ci_ts c \<and> ci_ts c \<noteq> AbortedTS")
  case True
  then have "Commit t c = c\<lparr>ci_ts := t\<rparr>" by (auto simp: Commit_def stamp_def)
  with True assms show ?thesis by (simp add: fold_Commit_decided)
next
  case False
  then have "fold Commit (t # us) c = c" by (intro fold_Commit_decided) auto
  with False show ?thesis by (simp only: if_False)
qed

theorem commit_record_decided_once_witness:
  "ci_ts (fold Commit [5, 6] (NewCommitInfo (TxIDBase + 1))) = 5"
  using commit_record_decided_once [of 5 "[6]" "NewCommitInfo (TxIDBase + 1)"]
  by (simp add: NewCommitInfo_def TxIDBase_eq AbortedTS_eq)

end
