(* ===== verification/Mvcc_Clock.thy ===== *)
theory Mvcc_Clock
  imports Mvcc_Core
begin

text \<open>
  The clock and commit registry of \<open>graph/mvcc/mvcc.go\<close>, \<open>commitlog.go\<close> and \<open>await.go\<close>.
  Every method is one step over the whole clock state, which holds the heap of commit records
  its registry points into; calls of different transactions interleave in any order, and that
  is what publishes commits out of allocation order. A compare-and-swap loop is linearised at
  its last iteration; the interleaving of its single loads and swaps with those of other
  publishers is not part of the model. A publication is split where it meets the callers that
  wait for the frontier: what it does to the frontier comes first, and the test and the broadcast
  that wake them are steps of their own in \<open>Mvcc_Await\<close>. A loop whose end depends on the state (\<open>find\<close>, \<open>claim\<close>, \<open>advance\<close>) is a
  partial function to \<open>option\<close>, \<open>None\<close> meaning that it does not return. The test hooks of the
  clock, nil outside tests, are left out.
\<close>

subsection \<open>State\<close>

definition registrySlots :: nat where "registrySlots = 2 ^ 12"
definition registryMask :: u64 where "registryMask = of_nat registrySlots - 1"

definition slot_of :: "u64 \<Rightarrow> nat" where
  "slot_of t = unat (t AND registryMask)"

text \<open>The slot table is allocated on first use; a table not yet allocated reads as all nil.\<close>

record commitRegistry =
  reg_slots :: "nat \<Rightarrow> nat option"
  reg_outOfOrder :: u64
  reg_helped :: u64
  reg_chained :: u64
  reg_pending :: int
  reg_linked :: int

text \<open>
  \<open>clk_wait\<close> numbers the generations of the broadcast channel: a waiter that took generation
  \<open>n\<close> is woken once the current generation is above \<open>n\<close>.
\<close>

record Clock = commitRegistry +
  clk_commit :: u64
  clk_visible :: u64
  clk_txSeq :: u64
  clk_waiters :: int
  clk_wait :: nat
  clk_heap :: "CommitInfo list"

definition new_clock :: Clock where
  "new_clock = \<lparr>reg_slots = (\<lambda>_. None), reg_outOfOrder = 0, reg_helped = 0, reg_chained = 0,
     reg_pending = 0, reg_linked = 0, clk_commit = 0, clk_visible = 0, clk_txSeq = 0,
     clk_waiters = 0, clk_wait = 0, clk_heap = []\<rparr>"

definition upd_rec :: "nat \<Rightarrow> (CommitInfo \<Rightarrow> CommitInfo) \<Rightarrow> Clock \<Rightarrow> Clock" where
  "upd_rec a f c = c\<lparr>clk_heap := (clk_heap c)[a := f (clk_heap c ! a)]\<rparr>"

definition new_record :: "CommitInfo \<Rightarrow> Clock \<Rightarrow> Clock \<times> nat" where
  "new_record r c = (c\<lparr>clk_heap := clk_heap c @ [r]\<rparr>, length (clk_heap c))"

subsection \<open>The registry\<close>

definition settle :: "nat \<Rightarrow> Clock \<Rightarrow> Clock" where
  "settle a c =
     (if ci_finished (clk_heap c ! a) = finishedMarked
      then (upd_rec a (\<lambda>r. r\<lparr>ci_finished := finishedCounted\<rparr>) c)\<lparr>reg_pending := reg_pending c - 1\<rparr>
      else c)"

definition unlink :: "nat \<Rightarrow> Clock \<Rightarrow> Clock" where
  "unlink a c =
     (if ci_older (clk_heap c ! a) \<noteq> None
      then (upd_rec a (\<lambda>r. r\<lparr>ci_older := None\<rparr>) c)\<lparr>reg_linked := reg_linked c - 1\<rparr>
      else c)"

definition passed :: "nat \<Rightarrow> Clock \<Rightarrow> Clock" where
  "passed a c = unlink a (settle a c)"

text \<open>The successful iteration of \<open>claim\<close>: record \<open>a\<close> is installed as owner of \<open>t\<close>.\<close>

definition claim_install :: "nat \<Rightarrow> u64 \<Rightarrow> Clock \<Rightarrow> Clock" where
  "claim_install a t c =
     (let head = reg_slots c (slot_of t);
          c1 = upd_rec a (\<lambda>r. r\<lparr>ci_claim := t\<rparr>) c;
          older = (case head of
                     None \<Rightarrow> None
                   | Some h \<Rightarrow> if ci_claim (clk_heap c1 ! h) > clk_visible c1 then Some h else None);
          c2 = (if older \<noteq> None then c1\<lparr>reg_linked := reg_linked c1 + 1\<rparr> else c1);
          c3 = upd_rec a (\<lambda>r. r\<lparr>ci_older := older\<rparr>) c2;
          c4 = c3\<lparr>reg_slots := (reg_slots c3)(slot_of t := Some a)\<rparr>;
          c5 = (if older \<noteq> None then c4\<lparr>reg_chained := reg_chained c4 + 1\<rparr> else c4)
      in c5\<lparr>clk_commit := t\<rparr>)"

partial_function (option) reg_claim :: "nat \<Rightarrow> Clock \<Rightarrow> (Clock \<times> u64) option" where
  "reg_claim a c =
     (let t = clk_commit c + 1 in
      case reg_slots c (slot_of t) of
        None \<Rightarrow> Some (claim_install a t c, t)
      | Some h \<Rightarrow>
          if ci_claim (clk_heap c ! h) \<ge> t then reg_claim a (c\<lparr>clk_commit := t\<rparr>)
          else Some (claim_install a t c, t))"

partial_function (option) find_from :: "CommitInfo list \<Rightarrow> u64 \<Rightarrow> nat option \<Rightarrow> nat option option" where
  "find_from h t p =
     (case p of
        None \<Rightarrow> Some None
      | Some a \<Rightarrow>
          if ci_claim (h ! a) = t then Some (Some a)
          else if ci_claim (h ! a) < t then Some None
          else find_from h t (ci_older (h ! a)))"

definition reg_find :: "u64 \<Rightarrow> Clock \<Rightarrow> nat option option" where
  "reg_find t c = find_from (clk_heap c) t (reg_slots c (slot_of t))"

subsection \<open>Allocation\<close>

datatype clock_panic = RecordAlreadyRegistered u64

definition AllocateFor ::
  "nat option \<Rightarrow> bool \<Rightarrow> Clock \<Rightarrow> (clock_panic, Clock \<times> u64) result option" where
  "AllocateFor info rdy c =
     (case info of
        None \<Rightarrow>
          (case new_record (NewCommitInfo 0) c of
             (c1, a) \<Rightarrow> map_option Inr (reg_claim a c1))
      | Some a \<Rightarrow>
          if ci_claim (clk_heap c ! a) \<noteq> 0
          then Some (Inl (RecordAlreadyRegistered (ci_claim (clk_heap c ! a))))
          else map_option Inr (reg_claim a (if rdy then upd_rec a MarkReady c else c)))"

definition NextCommitTS :: "Clock \<Rightarrow> (clock_panic, Clock \<times> u64) result option" where
  "NextCommitTS c = AllocateFor None False c"

subsection \<open>Publication\<close>

partial_function (option) advance :: "u64 \<Rightarrow> bool \<Rightarrow> bool \<Rightarrow> Clock \<Rightarrow> (Clock \<times> bool) option" where
  "advance own help moved c =
     Option.bind (reg_find (clk_visible c + 1) c) (\<lambda>rec.
       case rec of
         None \<Rightarrow> Some (c, moved)
       | Some a \<Rightarrow>
           if ci_finished (clk_heap c ! a) = finishedNone then
             if \<not> help \<or> clk_visible c \<ge> own \<or> \<not> ci_ready (clk_heap c ! a) then Some (c, moved)
             else (let c1 = upd_rec a (\<lambda>r. fst (stamp (clk_visible c + 1) r)) c in
               if ci_ts (clk_heap c1 ! a) \<noteq> clk_visible c + 1 then Some (c1, moved)
               else advance own help True
                 (passed a (c1\<lparr>clk_visible := clk_visible c + 1, reg_helped := reg_helped c1 + 1\<rparr>)))
           else advance own help True (passed a (c\<lparr>clk_visible := clk_visible c + 1\<rparr>)))"

definition wakeWaiters :: "Clock \<Rightarrow> Clock" where
  "wakeWaiters c = c\<lparr>clk_wait := clk_wait c + 1\<rparr>"

definition wake_if_waiting :: "Clock \<Rightarrow> Clock" where
  "wake_if_waiting c = (if clk_waiters c > 0 then wakeWaiters c else c)"

text \<open>The caller's own record when it really owns \<open>t\<close>, else the registry's.\<close>

definition own_or_find :: "nat option \<Rightarrow> u64 \<Rightarrow> Clock \<Rightarrow> nat option option" where
  "own_or_find own t c =
     (case own of
        Some a \<Rightarrow> if ci_claim (clk_heap c ! a) = t then Some (Some a) else reg_find t c
      | None \<Rightarrow> reg_find t c)"

text \<open>A publication up to the point where it looks for waiters.\<close>

definition publish_in_order :: "u64 \<Rightarrow> nat option \<Rightarrow> Clock \<Rightarrow> Clock option" where
  "publish_in_order t own c =
     (let c1 = c\<lparr>clk_visible := t\<rparr> in
      Option.bind (if reg_pending c1 \<noteq> 0 then advance t False False c1 else Some (c1, False))
        (\<lambda>(c2, _).
          if reg_linked c2 \<noteq> 0
          then map_option (\<lambda>rec. case rec of Some a \<Rightarrow> unlink a c2 | None \<Rightarrow> c2) (own_or_find own t c2)
          else Some c2))"

definition finish_in_order :: "u64 \<Rightarrow> nat option \<Rightarrow> Clock \<Rightarrow> Clock option" where
  "finish_in_order t own c = map_option wake_if_waiting (publish_in_order t own c)"

definition mark_finished :: "u64 \<Rightarrow> nat \<Rightarrow> Clock \<Rightarrow> Clock" where
  "mark_finished t a c =
     (let c1 = (upd_rec a (\<lambda>r. r\<lparr>ci_finished := finishedMarked\<rparr>) c)
                 \<lparr>reg_pending := reg_pending c + 1, reg_outOfOrder := reg_outOfOrder c + 1\<rparr>
      in if clk_visible c1 \<ge> t then settle a c1 else c1)"

definition publish_out_of_order :: "u64 \<Rightarrow> nat option \<Rightarrow> Clock \<Rightarrow> (Clock \<times> bool) option" where
  "publish_out_of_order t own c =
     Option.bind
       (if t > clk_visible c
        then map_option
               (\<lambda>rec. case rec of
                   Some a \<Rightarrow>
                     if ci_finished (clk_heap c ! a) = finishedNone then (mark_finished t a c, True)
                     else (c, False)
                 | None \<Rightarrow> (c, False))
               (own_or_find own t c)
        else Some (c, False))
       (\<lambda>(c1, outOfOrder). advance t outOfOrder False c1)"

definition finish_out_of_order :: "u64 \<Rightarrow> nat option \<Rightarrow> Clock \<Rightarrow> Clock option" where
  "finish_out_of_order t own c =
     map_option (\<lambda>(c2, advanced). if advanced then wake_if_waiting c2 else c2) (publish_out_of_order t own c)"

definition finishCommitTS :: "u64 \<Rightarrow> nat option \<Rightarrow> Clock \<Rightarrow> Clock option" where
  "finishCommitTS t own c =
     (if clk_visible c = t - 1 then finish_in_order t own c else finish_out_of_order t own c)"

text \<open>The same publication up to its look for waiters, and whether it goes on to look.\<close>

definition finish_frontier :: "u64 \<Rightarrow> nat option \<Rightarrow> Clock \<Rightarrow> (Clock \<times> bool) option" where
  "finish_frontier t own c =
     (if clk_visible c = t - 1 then map_option (\<lambda>c'. (c', True)) (publish_in_order t own c)
      else publish_out_of_order t own c)"

lemma finishCommitTS_wakes:
  "finishCommitTS t own c =
     map_option (\<lambda>(c', moved). if moved then wake_if_waiting c' else c') (finish_frontier t own c)"
  by (simp add: finishCommitTS_def finish_frontier_def finish_in_order_def finish_out_of_order_def
      option.map_comp comp_def)

definition PublishCommitTS :: "u64 \<Rightarrow> Clock \<Rightarrow> Clock option" where
  "PublishCommitTS t c = finishCommitTS t None c"

definition PublishCommit :: "nat option \<Rightarrow> u64 \<Rightarrow> Clock \<Rightarrow> Clock option" where
  "PublishCommit info t c = finishCommitTS t info c"

definition AbandonCommitTS :: "u64 \<Rightarrow> Clock \<Rightarrow> Clock option" where
  "AbandonCommitTS t c = finishCommitTS t None c"

definition AbandonCommit :: "nat option \<Rightarrow> u64 \<Rightarrow> Clock \<Rightarrow> Clock option" where
  "AbandonCommit info t c = finishCommitTS t info c"

subsection \<open>Recovery, reads and transaction ids\<close>

definition raiseVisible :: "u64 \<Rightarrow> Clock \<Rightarrow> Clock \<times> bool" where
  "raiseVisible f c = (if f \<le> clk_visible c then (c, False) else (c\<lparr>clk_visible := f\<rparr>, True))"

definition RatchetTo :: "u64 \<Rightarrow> Clock \<Rightarrow> Clock \<times> u64" where
  "RatchetTo floor_ts c =
     (let c1 = (if clk_commit c < floor_ts then c\<lparr>clk_commit := floor_ts\<rparr> else c);
          c2 = fst (raiseVisible floor_ts c1)
      in (c2, clk_commit c2))"

definition InFlightCommits :: "Clock \<Rightarrow> u64" where
  "InFlightCommits c =
     (if clk_commit c \<le> clk_visible c then 0 else clk_commit c - clk_visible c)"

definition Allocated :: "Clock \<Rightarrow> u64" where "Allocated c = clk_commit c"
definition ReadTS :: "Clock \<Rightarrow> u64" where "ReadTS c = clk_visible c"

definition NextTxID :: "Clock \<Rightarrow> Clock \<times> u64" where
  "NextTxID c = (c\<lparr>clk_txSeq := clk_txSeq c + 1\<rparr>, TxIDBase + (clk_txSeq c + 1))"

definition NextImplicitTxID :: "Clock \<Rightarrow> Clock \<times> u64" where
  "NextImplicitTxID c = (case NextTxID c of (c1, i) \<Rightarrow> (c1, i OR ImplicitTxBit))"

definition NextBoundedTxID :: "Clock \<Rightarrow> Clock \<times> u64" where
  "NextBoundedTxID c = (case NextTxID c of (c1, i) \<Rightarrow> (c1, i OR BoundedTxBit))"

subsection \<open>Well-formed registries\<close>

text \<open>
  \<open>chain h p as\<close>: following the lap links from \<open>p\<close> visits exactly the records \<open>as\<close>. A slot is
  well formed when its chain is ordered newest first, holds only records of that slot, and
  holds every record of the slot that the frontier has not passed.
\<close>

fun chain :: "CommitInfo list \<Rightarrow> nat option \<Rightarrow> nat list \<Rightarrow> bool" where
  "chain h p [] \<longleftrightarrow> p = None"
| "chain h p (a # as) \<longleftrightarrow> p = Some a \<and> a < length h \<and> chain h (ci_older (h ! a)) as"

definition slot_ok :: "CommitInfo list \<Rightarrow> u64 \<Rightarrow> nat option \<Rightarrow> nat \<Rightarrow> bool" where
  "slot_ok h vis p s \<longleftrightarrow>
     (\<exists>as. chain h p as \<and> sorted_wrt (\<lambda>a b. ci_claim (h ! b) < ci_claim (h ! a)) as
        \<and> (\<forall>a\<in>set as. ci_claim (h ! a) \<noteq> 0 \<and> slot_of (ci_claim (h ! a)) = s)
        \<and> (\<forall>a<length h. vis < ci_claim (h ! a) \<and> slot_of (ci_claim (h ! a)) = s \<longrightarrow> a \<in> set as))"

definition marked :: "CommitInfo list \<Rightarrow> nat set" where
  "marked h = {a. a < length h \<and> ci_finished (h ! a) = finishedMarked}"

definition lap_linked :: "CommitInfo list \<Rightarrow> nat set" where
  "lap_linked h = {a. a < length h \<and> ci_older (h ! a) \<noteq> None}"

definition finished_ok :: "u64 \<Rightarrow> CommitInfo \<Rightarrow> bool" where
  "finished_ok vis r \<longleftrightarrow>
     (ci_finished r = finishedNone \<or> (ci_finished r = finishedMarked \<and> vis < ci_claim r)
      \<or> (ci_finished r = finishedCounted \<and> ci_claim r \<le> vis))
     \<and> (ci_claim r = 0 \<longrightarrow> ci_finished r = finishedNone \<and> ci_older r = None)"

definition clock_inv :: "Clock \<Rightarrow> bool" where
  "clock_inv c \<longleftrightarrow>
     clk_visible c \<le> clk_commit c \<and> clk_commit c < TxIDBase
     \<and> (\<forall>s. slot_ok (clk_heap c) (clk_visible c) (reg_slots c s) s)
     \<and> (\<forall>a<length (clk_heap c). ci_claim (clk_heap c ! a) \<le> clk_commit c)
     \<and> (\<forall>a<length (clk_heap c). \<forall>b<length (clk_heap c).
          ci_claim (clk_heap c ! a) = ci_claim (clk_heap c ! b) \<longrightarrow> ci_claim (clk_heap c ! a) \<noteq> 0 \<longrightarrow> a = b)
     \<and> (\<forall>k. clk_visible c < k \<and> k \<le> clk_commit c \<longrightarrow>
          (\<exists>a<length (clk_heap c). ci_claim (clk_heap c ! a) = k))
     \<and> (\<forall>a<length (clk_heap c). finished_ok (clk_visible c) (clk_heap c ! a))
     \<and> reg_pending c = int (card (marked (clk_heap c)))
     \<and> reg_linked c = int (card (lap_linked (clk_heap c)))"

lemma clock_invD:
  assumes "clock_inv c"
  shows "clk_visible c \<le> clk_commit c" "clk_commit c < TxIDBase" "clk_visible c < TxIDBase"
    "slot_ok (clk_heap c) (clk_visible c) (reg_slots c s) s"
    "a < length (clk_heap c) \<Longrightarrow> ci_claim (clk_heap c ! a) \<le> clk_commit c"
    "a < length (clk_heap c) \<Longrightarrow> b < length (clk_heap c) \<Longrightarrow>
       ci_claim (clk_heap c ! a) = ci_claim (clk_heap c ! b) \<Longrightarrow> ci_claim (clk_heap c ! b) \<noteq> 0 \<Longrightarrow> a = b"
    "clk_visible c < k \<Longrightarrow> k \<le> clk_commit c \<Longrightarrow>
       \<exists>a<length (clk_heap c). ci_claim (clk_heap c ! a) = k"
    "a < length (clk_heap c) \<Longrightarrow> finished_ok (clk_visible c) (clk_heap c ! a)"
    "reg_pending c = int (card (marked (clk_heap c)))"
    "reg_linked c = int (card (lap_linked (clk_heap c)))"
  using assms by (auto simp: clock_inv_def)

lemma finite_marked [simp]: "finite (marked h)" "finite (lap_linked h)"
  by (simp_all add: marked_def lap_linked_def)

lemma finished_distinct [simp]:
  "finishedMarked \<noteq> finishedNone" "finishedCounted \<noteq> finishedNone" "finishedCounted \<noteq> finishedMarked"
  "finishedNone \<noteq> finishedMarked" "finishedMarked \<noteq> finishedCounted" "finishedNone \<noteq> finishedCounted"
  by (simp_all add: finishedNone_def finishedMarked_def finishedCounted_def)

subsection \<open>Lookup\<close>

lemma find_from_chain:
  assumes "chain h p as" and "sorted_wrt (\<lambda>a b. ci_claim (h ! b) < ci_claim (h ! a)) as"
  shows "find_from h t p = Some (List.find (\<lambda>a. ci_claim (h ! a) = t) as)"
  using assms
proof (induction as arbitrary: p)
  case Nil
  then show ?case by (simp add: find_from.simps)
next
  case (Cons a as)
  then have rest: "find_from h t (ci_older (h ! a)) = Some (List.find (\<lambda>a. ci_claim (h ! a) = t) as)"
    by simp
  have "List.find (\<lambda>a. ci_claim (h ! a) = t) as = None" if "ci_claim (h ! a) < t"
    using that Cons.prems(2) by (auto simp: find_None_iff)
  with rest Cons.prems(1) show ?case
    by (subst find_from.simps) (auto simp: not_less)
qed

lemma chain_valid: "chain h p as \<Longrightarrow> a \<in> set as \<Longrightarrow> a < length h"
  by (induction as arbitrary: p) auto

text \<open>Above the frontier, looking a timestamp up returns exactly its owner.\<close>

lemma reg_find_owner:
  assumes "clock_inv c" and "clk_visible c < t"
  shows "(\<exists>a. reg_find t c = Some (Some a) \<and> a < length (clk_heap c) \<and> ci_claim (clk_heap c ! a) = t)
    \<or> (reg_find t c = Some None \<and> (\<forall>a<length (clk_heap c). ci_claim (clk_heap c ! a) \<noteq> t))"
proof -
  let ?h = "clk_heap c"
  have "slot_ok ?h (clk_visible c) (reg_slots c (slot_of t)) (slot_of t)"
    using assms(1) by (simp add: clock_inv_def)
  then obtain as where as: "chain ?h (reg_slots c (slot_of t)) as"
    "sorted_wrt (\<lambda>a b. ci_claim (?h ! b) < ci_claim (?h ! a)) as"
    "\<forall>a<length ?h. clk_visible c < ci_claim (?h ! a) \<and> slot_of (ci_claim (?h ! a)) = slot_of t
       \<longrightarrow> a \<in> set as"
    by (auto simp: slot_ok_def)
  note valid = chain_valid [OF as(1)]
  note find = find_from_chain [OF as(1,2), of t]
  show ?thesis
  proof (cases "List.find (\<lambda>a. ci_claim (?h ! a) = t) as")
    case None
    then have "\<forall>a\<in>set as. ci_claim (?h ! a) \<noteq> t" by (auto simp: find_None_iff)
    with as(3) assms(2) have "\<forall>a<length ?h. ci_claim (?h ! a) \<noteq> t" by auto
    with None find show ?thesis by (simp add: reg_find_def)
  next
    case (Some a)
    then have "a \<in> set as" "ci_claim (?h ! a) = t" by (auto simp: find_Some_iff)
    with valid Some find show ?thesis by (auto simp: reg_find_def)
  qed
qed

subsection \<open>Passing a record\<close>

lemma chain_cong:
  assumes "length h' = length h" and "\<And>a. a < length h \<Longrightarrow> ci_older (h' ! a) = ci_older (h ! a)"
  shows "chain h' p as = chain h p as"
  using assms by (induction as arbitrary: p) auto

lemma chain_link_cleared:
  assumes "chain h p as" and "length h' = length h"
    and "\<And>b. b < length h \<Longrightarrow> b \<noteq> a \<Longrightarrow> ci_older (h' ! b) = ci_older (h ! b)"
    and "ci_older (h' ! a) = None"
  shows "\<exists>bs. chain h' p bs \<and> (\<exists>cs. as = bs @ cs \<and> (cs \<noteq> [] \<longrightarrow> a \<in> set bs \<and> last bs = a))"
  using assms(1)
proof (induction as arbitrary: p)
  case Nil
  then show ?case by (intro exI [of _ "[]"]) simp
next
  case (Cons b bs)
  show ?case
  proof (cases "b = a")
    case True
    then show ?thesis
      using Cons.prems assms(2,4) by (intro exI [of _ "[b]"]) simp
  next
    case False
    from Cons.prems have "chain h (ci_older (h ! b)) bs" by simp
    from Cons.IH [OF this] obtain ds cs where ds: "chain h' (ci_older (h ! b)) ds" "bs = ds @ cs"
      "cs \<noteq> [] \<longrightarrow> a \<in> set ds \<and> last ds = a" by auto
    then show ?thesis
      using Cons.prems assms(2,3) False by (intro exI [of _ "b # ds"]) auto
  qed
qed

lemma slot_ok_clear:
  assumes ok: "slot_ok h vis p s" and len: "length h' = length h"
    and claims: "\<And>b. b < length h \<Longrightarrow> ci_claim (h' ! b) = ci_claim (h ! b)"
    and links: "\<And>b. b < length h \<Longrightarrow> b \<noteq> a \<Longrightarrow> ci_older (h' ! b) = ci_older (h ! b)"
    and cleared: "ci_older (h' ! a) = None" and a: "a < length h" "ci_claim (h ! a) \<le> vis'"
    and vis: "vis \<le> vis'"
  shows "slot_ok h' vis' p s"
proof -
  obtain as where as: "chain h p as" "sorted_wrt (\<lambda>a b. ci_claim (h ! b) < ci_claim (h ! a)) as"
    "\<forall>a\<in>set as. ci_claim (h ! a) \<noteq> 0 \<and> slot_of (ci_claim (h ! a)) = s"
    "\<forall>a<length h. vis < ci_claim (h ! a) \<and> slot_of (ci_claim (h ! a)) = s \<longrightarrow> a \<in> set as"
    using ok by (auto simp: slot_ok_def)
  obtain bs cs where bs: "chain h' p bs" "as = bs @ cs" "cs \<noteq> [] \<longrightarrow> a \<in> set bs \<and> last bs = a"
    using chain_link_cleared [OF as(1) len links cleared] by auto
  have eq: "ci_claim (h' ! b) = ci_claim (h ! b)" if "b \<in> set bs" for b
    by (rule claims [OF chain_valid [OF as(1)]]) (use that in \<open>simp add: bs(2)\<close>)
  have "sorted_wrt (\<lambda>a b. ci_claim (h ! b) < ci_claim (h ! a)) bs"
    using as(2) bs(2) by (simp add: sorted_wrt_append)
  then have sorted: "sorted_wrt (\<lambda>a b. ci_claim (h' ! b) < ci_claim (h' ! a)) bs"
    by (rule sorted_wrt_mono_rel [rotated]) (simp add: eq)
  have "b \<in> set bs" if b: "b < length h" "vis' < ci_claim (h ! b)" "slot_of (ci_claim (h ! b)) = s" for b
  proof (rule ccontr)
    assume "b \<notin> set bs"
    moreover have "b \<in> set as" using b vis as(4) by auto
    ultimately have "b \<in> set cs" by (simp add: bs(2))
    then have "a \<in> set bs" using bs(3) by auto
    with \<open>b \<in> set cs\<close> have "ci_claim (h ! b) < ci_claim (h ! a)"
      using as(2) by (simp add: bs(2) sorted_wrt_append)
    with a(2) b(2) show False by simp
  qed
  then show ?thesis
    unfolding slot_ok_def using bs(1,2) sorted as(3) eq len claims
    by (intro exI [of _ bs]) auto
qed

text \<open>What \<open>passed\<close> leaves of the heap and the counters.\<close>

lemma passed_fields [simp]:
  "clk_commit (passed a c) = clk_commit c" "clk_visible (passed a c) = clk_visible c"
  "reg_slots (passed a c) = reg_slots c" "length (clk_heap (passed a c)) = length (clk_heap c)"
  "clk_txSeq (passed a c) = clk_txSeq c" "clk_waiters (passed a c) = clk_waiters c"
  "clk_wait (passed a c) = clk_wait c"
  by (simp_all add: passed_def unlink_def settle_def upd_rec_def)

lemma passed_heap:
  assumes "a < length (clk_heap c)"
  shows "clk_heap (passed a c) = (clk_heap c)[a := (clk_heap c ! a)\<lparr>
     ci_finished := (if ci_finished (clk_heap c ! a) = finishedMarked then finishedCounted
                     else ci_finished (clk_heap c ! a)),
     ci_older := None\<rparr>]"
  using assms by (auto simp: passed_def unlink_def settle_def upd_rec_def intro!: list_update_same_conv [THEN iffD2, symmetric] arg_cong [where f = "\<lambda>x. (clk_heap c)[a := x]"])

lemma passed_counters:
  assumes "a < length (clk_heap c)"
  shows "reg_pending (passed a c) =
      reg_pending c - (if ci_finished (clk_heap c ! a) = finishedMarked then 1 else 0)"
    and "reg_linked (passed a c) =
      reg_linked c - (if ci_older (clk_heap c ! a) \<noteq> None then 1 else 0)"
  using assms by (auto simp: passed_def unlink_def settle_def upd_rec_def)

text \<open>
  Two clocks whose records agree on claim, finished state and lap link satisfy the invariant
  together: stamping a record or marking it ready keeps it.
\<close>

definition same_links :: "CommitInfo list \<Rightarrow> CommitInfo list \<Rightarrow> bool" where
  "same_links h h' \<longleftrightarrow> length h' = length h \<and>
     (\<forall>a<length h. ci_claim (h' ! a) = ci_claim (h ! a) \<and> ci_finished (h' ! a) = ci_finished (h ! a)
        \<and> ci_older (h' ! a) = ci_older (h ! a))"

lemma same_links_refl [simp]: "same_links h h"
  by (simp add: same_links_def)

lemma same_links_marked:
  "same_links h h' \<Longrightarrow> marked h' = marked h" "same_links h h' \<Longrightarrow> lap_linked h' = lap_linked h"
  by (auto simp: same_links_def marked_def lap_linked_def)

lemma slot_ok_cong:
  assumes "slot_ok h vis p s" and len: "length h' = length h"
    and claims: "\<And>b. b < length h \<Longrightarrow> ci_claim (h' ! b) = ci_claim (h ! b)"
    and links: "\<And>b. b < length h \<Longrightarrow> ci_older (h' ! b) = ci_older (h ! b)"
    and vis: "vis \<le> vis'"
  shows "slot_ok h' vis' p s"
proof -
  obtain as where as: "chain h p as" "sorted_wrt (\<lambda>a b. ci_claim (h ! b) < ci_claim (h ! a)) as"
    "\<forall>a\<in>set as. ci_claim (h ! a) \<noteq> 0 \<and> slot_of (ci_claim (h ! a)) = s"
    "\<forall>a<length h. vis < ci_claim (h ! a) \<and> slot_of (ci_claim (h ! a)) = s \<longrightarrow> a \<in> set as"
    using assms(1) by (auto simp: slot_ok_def)
  note eq = claims [OF chain_valid [OF as(1)]]
  have "chain h' p as"
    using as(1) by (subst chain_cong [OF len links]) auto
  moreover have "sorted_wrt (\<lambda>a b. ci_claim (h' ! b) < ci_claim (h' ! a)) as"
    using as(2) by (rule sorted_wrt_mono_rel [rotated]) (simp add: eq)
  moreover have "\<forall>a<length h'. vis' < ci_claim (h' ! a) \<and> slot_of (ci_claim (h' ! a)) = s \<longrightarrow> a \<in> set as"
    using as(4) order.strict_trans1 [OF vis] by (simp add: len claims)
  moreover have "\<forall>a\<in>set as. ci_claim (h' ! a) \<noteq> 0 \<and> slot_of (ci_claim (h' ! a)) = s"
    using as(3) by (simp add: eq)
  ultimately show ?thesis unfolding slot_ok_def by blast
qed

lemma same_linksD:
  assumes "same_links h h'"
  shows "length h' = length h"
    "a < length h \<Longrightarrow> ci_claim (h' ! a) = ci_claim (h ! a)"
    "a < length h \<Longrightarrow> ci_finished (h' ! a) = ci_finished (h ! a)"
    "a < length h \<Longrightarrow> ci_older (h' ! a) = ci_older (h ! a)"
  using assms by (auto simp: same_links_def)

lemma clock_inv_same:
  assumes inv: "clock_inv c" and same: "same_links (clk_heap c) (clk_heap c')"
    and c': "clk_commit c' = clk_commit c" "clk_visible c' = clk_visible c" "reg_slots c' = reg_slots c"
    "reg_pending c' = reg_pending c" "reg_linked c' = reg_linked c"
  shows "clock_inv c'"
  unfolding clock_inv_def c' same_links_marked [OF same] same_linksD(1) [OF same]
proof (intro conjI allI impI)
  show "slot_ok (clk_heap c') (clk_visible c) (reg_slots c s) s" for s
    by (rule slot_ok_cong [OF clock_invD(4) [OF inv]]) (use same_linksD [OF same] in auto)
  show "\<exists>a<length (clk_heap c). ci_claim (clk_heap c' ! a) = k"
    if "clk_visible c < k \<and> k \<le> clk_commit c" for k
    using clock_invD(7) [OF inv, of k] that same_linksD(2) [OF same] by auto
  show "a = b" if "a < length (clk_heap c)" "b < length (clk_heap c)"
    "ci_claim (clk_heap c' ! a) = ci_claim (clk_heap c' ! b)" "ci_claim (clk_heap c' ! a) \<noteq> 0" for a b
    using clock_invD(6) [OF inv that(1,2)] that same_linksD(2) [OF same] by simp
  show "finished_ok (clk_visible c) (clk_heap c' ! a)" if "a < length (clk_heap c)" for a
    using clock_invD(8) [OF inv that] same_linksD [OF same] that by (simp add: finished_ok_def)
qed (use clock_invD [OF inv] same_linksD(2) [OF same] in auto)

text \<open>Carrying the frontier over the next record, which the code does by \<open>passed\<close>, keeps it.\<close>

lemma card_clear_flag:
  assumes "a < (n :: nat)"
  shows "int (card ({x. x < n \<and> P x} - {a})) = int (card {x. x < n \<and> P x}) - (if P a then 1 else 0)"
proof (cases "P a")
  case True
  have "finite {x. x < n \<and> P x}" by simp
  moreover have "a \<in> {x. x < n \<and> P x}" using True assms by simp
  ultimately have "card {x. x < n \<and> P x} = Suc (card ({x. x < n \<and> P x} - {a}))"
    by (rule card.remove)
  with True show ?thesis by simp
next
  case False
  then show ?thesis by simp
qed

lemma finished_ok_pass:
  assumes "vis < TxIDBase" and "finished_ok vis r" and "ci_claim r \<noteq> vis + 1"
  shows "finished_ok (vis + 1) r"
  using assms by (auto simp: finished_ok_def le_Suc_ts_iff Suc_ts_le_iff order_less_le)

lemma clock_inv_passed:
  assumes inv: "clock_inv c" and a: "a < length (clk_heap c)" "ci_claim (clk_heap c ! a) = clk_visible c + 1"
    and heap: "same_links (clk_heap c) (clk_heap c1)" and c1: "clk_commit c1 = clk_commit c"
    "clk_visible c1 = clk_visible c + 1" "reg_slots c1 = reg_slots c" "reg_pending c1 = reg_pending c"
    "reg_linked c1 = reg_linked c"
  shows "clock_inv (passed a c1)"
proof -
  let ?h = "clk_heap c" and ?h1 = "clk_heap c1" and ?h2 = "clk_heap (passed a c1)"
  note D = clock_invD [OF inv]
  have nz: "clk_visible c + 1 \<noteq> 0" using D(3) by (rule Suc_ts_nz)
  have a1: "a < length ?h1" using a(1) heap by (simp add: same_links_def)
  have len: "length ?h2 = length ?h" using heap by (simp add: same_links_def)
  have h2: "ci_claim (?h2 ! b) = ci_claim (?h ! b)"
    "ci_older (?h2 ! b) = (if b = a then None else ci_older (?h ! b))"
    "ci_finished (?h2 ! b) = (if b = a \<and> ci_finished (?h ! b) = finishedMarked then finishedCounted
       else ci_finished (?h ! b))" if "b < length ?h" for b
    using that heap a1 by (auto simp: passed_heap [OF a1] nth_list_update same_links_def)
  have marked: "marked ?h2 = marked ?h - {a}" and linked: "lap_linked ?h2 = lap_linked ?h - {a}"
    using h2 len by (auto simp: marked_def lap_linked_def split: if_splits)
  show ?thesis
    unfolding clock_inv_def passed_fields(1-3) c1(1-3) len
  proof (intro conjI allI impI)
    show "clk_visible c + 1 \<le> clk_commit c" using D(5) [OF a(1)] by (simp add: a(2))
    show "slot_ok ?h2 (clk_visible c + 1) (reg_slots c s) s" for s
      by (rule slot_ok_clear [OF D(4) len]) (use h2 a D(3) in \<open>auto simp: less_imp_le\<close>)
    show "finished_ok (clk_visible c + 1) (?h2 ! b)" if b: "b < length ?h" for b
    proof (cases "b = a")
      case True
      then show ?thesis
        using D(8) [OF a(1)] h2 [OF b] a(2) D(3) by (auto simp: finished_ok_def)
    next
      case False
      then have "ci_claim (?h ! b) \<noteq> clk_visible c + 1"
        using D(6) [OF b a(1)] a(2) nz by auto
      with finished_ok_pass [OF D(3) D(8) [OF b]] show ?thesis
        using h2 [OF b] False by (simp add: finished_ok_def)
    qed
    show "\<exists>b<length ?h. ci_claim (?h2 ! b) = k" if "clk_visible c + 1 < k \<and> k \<le> clk_commit c" for k
      using D(7) [of k] that h2(1) order_less_trans [OF less_Suc_ts [OF D(3)]] by auto
    show "x = b" if "x < length ?h" "b < length ?h" "ci_claim (?h2 ! x) = ci_claim (?h2 ! b)"
      "ci_claim (?h2 ! x) \<noteq> 0" for x b
      using D(6) [OF that(1,2)] that by (simp add: h2)
    show "reg_pending (passed a c1) = int (card (marked ?h2))"
      "reg_linked (passed a c1) = int (card (lap_linked ?h2))"
      using D(9,10) heap a(1) card_clear_flag [OF a(1)]
      unfolding marked linked passed_counters [OF a1] c1
      by (simp_all add: marked_def lap_linked_def same_links_def)
  qed (use D h2 in auto)
qed

subsection \<open>Moving the frontier\<close>

text \<open>
  What a publication may do to the clock: the frontier only rises; a record's claim and
  readiness stay; a record is stamped only with its own claim, while in flight, ready and
  above the old frontier; and every record the frontier passes was finished, or belongs to
  the caller (\<open>X\<close>), or was ready and is now stamped.
\<close>

definition rec_move :: "u64 set \<Rightarrow> u64 \<Rightarrow> u64 \<Rightarrow> CommitInfo \<Rightarrow> CommitInfo \<Rightarrow> bool" where
  "rec_move X v v' r r' \<longleftrightarrow>
     ci_claim r' = ci_claim r \<and> ci_ready r' = ci_ready r
     \<and> (ci_finished r' \<noteq> finishedNone \<longrightarrow> ci_finished r \<noteq> finishedNone \<or> ci_claim r \<in> X)
     \<and> (ci_finished r \<noteq> finishedNone \<longrightarrow> ci_finished r' \<noteq> finishedNone)
     \<and> (ci_ts r' = ci_ts r
        \<or> TxIDBase \<le> ci_ts r \<and> ci_ts r \<noteq> AbortedTS \<and> ci_ready r \<and> ci_ts r' = ci_claim r
          \<and> v < ci_claim r \<and> ci_claim r \<le> v')
     \<and> (v < ci_claim r \<and> ci_claim r \<le> v' \<longrightarrow>
          ci_finished r \<noteq> finishedNone \<or> ci_claim r \<in> X \<or> ci_ready r \<and> ci_ts r' = ci_claim r)"

definition frontier_move :: "u64 set \<Rightarrow> Clock \<Rightarrow> Clock \<Rightarrow> bool" where
  "frontier_move X c c' \<longleftrightarrow>
     clk_visible c \<le> clk_visible c' \<and> clk_commit c' = clk_commit c \<and> clk_txSeq c' = clk_txSeq c
     \<and> clk_waiters c' = clk_waiters c \<and> length (clk_heap c') = length (clk_heap c)
     \<and> (\<forall>a<length (clk_heap c).
          rec_move X (clk_visible c) (clk_visible c') (clk_heap c ! a) (clk_heap c' ! a))"

lemma rec_move_refl: "rec_move X v v r r"
  by (auto simp: rec_move_def)

lemma frontier_move_refl [simp]: "frontier_move X c c"
  by (simp add: frontier_move_def rec_move_refl)

lemma rec_move_trans:
  assumes "rec_move X v1 v2 r1 r2" and "rec_move X v2 v3 r2 r3"
    and "v1 \<le> v2" and "v2 \<le> v3"
  shows "rec_move X v1 v3 r1 r3"
proof -
  note m = assms(1,2) [unfolded rec_move_def]
  have claim: "ci_claim r2 = ci_claim r1" using m(1) by simp
  show ?thesis
  proof (cases "ci_claim r1 \<le> v2")
    case True
    then have "ci_ts r3 = ci_ts r2" using m(2) by (auto simp: claim)
    with True m assms(4) show ?thesis unfolding rec_move_def by auto
  next
    case False
    then have "ci_ts r2 = ci_ts r1" "v2 < ci_claim r1" using m(1) by auto
    with False m assms(3) show ?thesis unfolding rec_move_def by auto
  qed
qed

lemma frontier_move_trans:
  assumes "frontier_move X c1 c2" and "frontier_move X c2 c3"
  shows "frontier_move X c1 c3"
proof -
  have "rec_move X (clk_visible c1) (clk_visible c3) (clk_heap c1 ! a) (clk_heap c3 ! a)"
    if "a < length (clk_heap c1)" for a
    by (rule rec_move_trans) (use assms that in \<open>auto simp: frontier_move_def\<close>)
  then show ?thesis
    using assms by (auto simp: frontier_move_def)
qed

lemma upd_rec_fields [simp]:
  "clk_commit (upd_rec a f c) = clk_commit c" "clk_visible (upd_rec a f c) = clk_visible c"
  "reg_slots (upd_rec a f c) = reg_slots c" "length (clk_heap (upd_rec a f c)) = length (clk_heap c)"
  "clk_txSeq (upd_rec a f c) = clk_txSeq c" "clk_waiters (upd_rec a f c) = clk_waiters c"
  "reg_pending (upd_rec a f c) = reg_pending c" "reg_linked (upd_rec a f c) = reg_linked c"
  "reg_helped (upd_rec a f c) = reg_helped c" "clk_wait (upd_rec a f c) = clk_wait c"
  by (simp_all add: upd_rec_def)

lemma upd_rec_nth:
  "b < length (clk_heap c) \<Longrightarrow>
     clk_heap (upd_rec a f c) ! b = (if b = a then f (clk_heap c ! b) else clk_heap c ! b)"
  by (auto simp: upd_rec_def nth_list_update)

text \<open>One carry of the frontier, over a finished record or over a ready one just stamped.\<close>

lemma frontier_move_passed:
  assumes inv: "clock_inv c" and a: "a < length (clk_heap c)" "ci_claim (clk_heap c ! a) = clk_visible c + 1"
    and c1: "clk_commit c1 = clk_commit c" "clk_visible c1 = clk_visible c + 1"
    "clk_txSeq c1 = clk_txSeq c" "clk_waiters c1 = clk_waiters c"
    and heap: "length (clk_heap c1) = length (clk_heap c)"
    "\<And>b. b < length (clk_heap c) \<Longrightarrow> b \<noteq> a \<Longrightarrow> clk_heap c1 ! b = clk_heap c ! b"
    and moved: "rec_move X (clk_visible c) (clk_visible c + 1) (clk_heap c ! a) (clk_heap c1 ! a)"
  shows "frontier_move X c (passed a c1)"
proof -
  note D = clock_invD [OF inv]
  have a1: "a < length (clk_heap c1)" using a(1) heap(1) by simp
  have nz: "clk_visible c + 1 \<noteq> 0" using D(3) by (rule Suc_ts_nz)
  have "rec_move X (clk_visible c) (clk_visible c + 1) (clk_heap c ! b) (clk_heap (passed a c1) ! b)"
    if b: "b < length (clk_heap c)" for b
  proof (cases "b = a")
    case True
    with moved a1 show ?thesis by (auto simp: passed_heap [OF a1] rec_move_def)
  next
    case False
    then have "ci_claim (clk_heap c ! b) \<noteq> clk_visible c + 1"
      using D(6) [OF b a(1)] a(2) nz by auto
    then have "rec_move X (clk_visible c) (clk_visible c + 1) (clk_heap c ! b) (clk_heap c ! b)"
      using D(3) by (auto simp: rec_move_def le_Suc_ts_iff)
    with False b heap a1 show ?thesis by (simp add: passed_heap [OF a1])
  qed
  with D(3) c1 heap(1) show ?thesis by (simp add: frontier_move_def less_imp_le)
qed

text \<open>The frontier is settled when the next timestamp is not finished: no publication is left behind.\<close>

definition settled :: "Clock \<Rightarrow> bool" where
  "settled c \<longleftrightarrow>
     (\<forall>a<length (clk_heap c). ci_claim (clk_heap c ! a) = clk_visible c + 1 \<longrightarrow>
        ci_finished (clk_heap c ! a) = finishedNone)"

lemma upd_rec_same:
  "a < length (clk_heap c) \<Longrightarrow> f (clk_heap c ! a) = clk_heap c ! a \<Longrightarrow> upd_rec a f c = c"
  by (simp add: upd_rec_def)

text \<open>The two ways \<open>advance\<close> carries the frontier over the next record keep the invariant.\<close>

lemma advance_finished_step:
  assumes inv: "clock_inv c" and a: "a < length (clk_heap c)" "ci_claim (clk_heap c ! a) = clk_visible c + 1"
    and fin: "ci_finished (clk_heap c ! a) \<noteq> finishedNone"
  defines "c' \<equiv> passed a (c\<lparr>clk_visible := clk_visible c + 1\<rparr>)"
  shows "clock_inv c'" "frontier_move X c c'"
proof -
  show "clock_inv c'" unfolding c'_def by (rule clock_inv_passed [OF inv a]) simp_all
  show "frontier_move X c c'"
    unfolding c'_def by (rule frontier_move_passed [OF inv a]) (use fin in \<open>simp_all add: rec_move_def\<close>)
qed

lemma advance_ready_step:
  assumes inv: "clock_inv c" and a: "a < length (clk_heap c)" "ci_claim (clk_heap c ! a) = clk_visible c + 1"
    and ready: "ci_ready (clk_heap c ! a)"
  defines "c1 \<equiv> upd_rec a (\<lambda>r. fst (stamp (clk_visible c + 1) r)) c"
  assumes stamped: "ci_ts (clk_heap c1 ! a) = clk_visible c + 1"
  defines "c' \<equiv> passed a (c1\<lparr>clk_visible := clk_visible c + 1, reg_helped := reg_helped c1 + 1\<rparr>)"
  shows "clock_inv c'" "frontier_move X c c'"
proof -
  have h1: "clk_heap c1 ! b =
      (if b = a then fst (stamp (clk_visible c + 1) (clk_heap c ! b)) else clk_heap c ! b)"
    if "b < length (clk_heap c)" for b
    using that by (simp add: c1_def upd_rec_nth)
  have fields: "clk_commit c1 = clk_commit c" "clk_visible c1 = clk_visible c" "reg_slots c1 = reg_slots c"
    "reg_pending c1 = reg_pending c" "reg_linked c1 = reg_linked c" "clk_txSeq c1 = clk_txSeq c"
    "clk_waiters c1 = clk_waiters c" "length (clk_heap c1) = length (clk_heap c)"
    by (simp_all add: c1_def)
  have same: "same_links (clk_heap c) (clk_heap c1)"
    by (auto simp: same_links_def fields h1)
  show "clock_inv c'"
    unfolding c'_def by (rule clock_inv_passed [OF inv a]) (simp_all add: same fields)
  have "rec_move X (clk_visible c) (clk_visible c + 1) (clk_heap c ! a) (clk_heap c1 ! a)"
    using ready stamped a clock_invD(3) [OF inv]
    by (auto simp: h1 rec_move_def stamp_cases split: if_splits)
  then show "frontier_move X c c'"
    unfolding c'_def by (intro frontier_move_passed [OF inv a]) (simp_all add: fields h1)
qed

lemma advance_spec:
  assumes "clock_inv c"
  shows "\<exists>c' m. advance own help moved c = Some (c', m) \<and> clock_inv c' \<and> frontier_move X c c'
    \<and> settled c' \<and> (m \<longleftrightarrow> moved \<or> clk_visible c < clk_visible c') \<and> clk_wait c' = clk_wait c"
  using assms
proof (induction "unat (clk_commit c) - unat (clk_visible c)" arbitrary: c moved rule: less_induct)
  case less
  let ?v = "clk_visible c"
  note D = clock_invD [OF less.prems]
  have v: "?v < ?v + 1" using D(3) by simp
  have step: ?case
    if c': "clock_inv c'" "frontier_move X c c'" "clk_visible c' = ?v + 1" "clk_wait c' = clk_wait c"
      and adv: "advance own help moved c = advance own help True c'" for c'
  proof -
    have "?v + 1 \<le> clk_commit c" using c'(2,3) clock_invD(1) [OF c'(1)] by (simp add: frontier_move_def)
    then have "unat (clk_commit c') - unat (clk_visible c') < unat (clk_commit c) - unat ?v"
      using c'(2,3) D(3) by (simp add: frontier_move_def word_le_nat_alt unat_Suc_ts)
    from less.hyps [OF this c'(1), of True] obtain c'' where "advance own help True c' = Some (c'', True)"
      "clock_inv c''" "frontier_move X c' c''" "settled c''" "clk_wait c'' = clk_wait c" by (auto simp: c'(4))
    moreover from this have "?v < clk_visible c''"
      using v c'(3) by (auto simp: frontier_move_def)
    ultimately show ?case using adv frontier_move_trans [OF c'(2)] by auto
  qed
  from reg_find_owner [OF less.prems v] show ?case
  proof (elim disjE exE conjE)
    assume none: "reg_find (?v + 1) c = Some None"
      "\<forall>a<length (clk_heap c). ci_claim (clk_heap c ! a) \<noteq> ?v + 1"
    then show ?case
      using less.prems by (subst advance.simps) (auto simp: settled_def)
  next
    fix a assume find: "reg_find (?v + 1) c = Some (Some a)"
      and a: "a < length (clk_heap c)" "ci_claim (clk_heap c ! a) = ?v + 1"
    let ?c1 = "upd_rec a (\<lambda>r. fst (stamp (?v + 1) r)) c"
    have nz: "?v + 1 \<noteq> 0" using D(3) by (rule Suc_ts_nz)
    have stop: "settled c" if "ci_finished (clk_heap c ! a) = finishedNone"
      unfolding settled_def
    proof (intro allI impI)
      fix b assume b: "b < length (clk_heap c)" "ci_claim (clk_heap c ! b) = ?v + 1"
      then have "b = a" using D(6) [OF b(1) a(1)] a(2) nz by simp
      with that show "ci_finished (clk_heap c ! b) = finishedNone" by simp
    qed
    consider (fin) "ci_finished (clk_heap c ! a) \<noteq> finishedNone"
      | (stuck) "ci_finished (clk_heap c ! a) = finishedNone"
        "\<not> help \<or> ?v \<ge> own \<or> \<not> ci_ready (clk_heap c ! a)"
      | (decided) "ci_finished (clk_heap c ! a) = finishedNone" "help" "\<not> ?v \<ge> own"
        "ci_ready (clk_heap c ! a)" "ci_ts (clk_heap ?c1 ! a) \<noteq> ?v + 1"
      | (helped) "ci_finished (clk_heap c ! a) = finishedNone" "help" "\<not> ?v \<ge> own"
        "ci_ready (clk_heap c ! a)" "ci_ts (clk_heap ?c1 ! a) = ?v + 1"
      by blast
    then show ?case
    proof cases
      case fin
      then show ?thesis
        by (intro step [OF advance_finished_step [OF less.prems a fin]])
          (simp_all add: find advance.simps [of own "help" moved c])
    next
      case stuck
      then show ?thesis using less.prems stop by (auto simp: find advance.simps [of own "help" moved c])
    next
      case decided
      then have "?c1 = c"
        using a(1) by (intro upd_rec_same) (auto simp: upd_rec_nth stamp_cases split: if_splits)
      with decided have "advance own help moved c = Some (c, moved)"
        by (simp add: find advance.simps [of own _ moved c] Let_def)
      with less.prems stop decided(1) show ?thesis by auto
    next
      case helped
      then show ?thesis
        by (intro step [OF advance_ready_step [OF less.prems a helped(4,5)]])
          (simp_all add: find advance.simps [of own _ moved c] Let_def)
    qed
  qed
qed

subsection \<open>Publishing and abandoning\<close>

lemma wake_if_waiting_fields [simp]:
  "clk_commit (wake_if_waiting c) = clk_commit c" "clk_visible (wake_if_waiting c) = clk_visible c"
  "clk_heap (wake_if_waiting c) = clk_heap c" "clk_txSeq (wake_if_waiting c) = clk_txSeq c"
  "clk_waiters (wake_if_waiting c) = clk_waiters c" "reg_slots (wake_if_waiting c) = reg_slots c"
  "reg_pending (wake_if_waiting c) = reg_pending c" "reg_linked (wake_if_waiting c) = reg_linked c"
  by (simp_all add: wake_if_waiting_def wakeWaiters_def)

lemma wake_if_waiting_wait:
  "clk_wait (wake_if_waiting c) = (if clk_waiters c > 0 then clk_wait c + 1 else clk_wait c)"
  by (simp add: wake_if_waiting_def wakeWaiters_def)

lemma wake_if_waiting_keeps [simp]:
  "clock_inv (wake_if_waiting c) \<longleftrightarrow> clock_inv c" "settled (wake_if_waiting c) \<longleftrightarrow> settled c"
  "frontier_move X c0 (wake_if_waiting c) \<longleftrightarrow> frontier_move X c0 c"
  by (simp_all add: clock_inv_def settled_def frontier_move_def)

lemma reg_find_total:
  assumes "clock_inv c"
  shows "\<exists>rec. reg_find t c = Some rec \<and>
    (\<forall>a. rec = Some a \<longrightarrow> a < length (clk_heap c) \<and> ci_claim (clk_heap c ! a) = t)"
proof -
  obtain as where as: "chain (clk_heap c) (reg_slots c (slot_of t)) as"
    "sorted_wrt (\<lambda>a b. ci_claim (clk_heap c ! b) < ci_claim (clk_heap c ! a)) as"
    using clock_invD(4) [OF assms, of "slot_of t"] by (auto simp: slot_ok_def)
  show ?thesis
    using chain_valid [OF as(1)]
    by (auto simp: reg_find_def find_from_chain [OF as] find_Some_iff)
qed

text \<open>The record a caller passes is a record of the heap.\<close>

definition valid_own :: "nat option \<Rightarrow> Clock \<Rightarrow> bool" where
  "valid_own own c \<longleftrightarrow> (\<forall>a. own = Some a \<longrightarrow> a < length (clk_heap c))"

lemma own_or_find_total:
  assumes "clock_inv c" and "valid_own own c"
  shows "\<exists>rec. own_or_find own t c = Some rec \<and>
    (\<forall>a. rec = Some a \<longrightarrow> a < length (clk_heap c) \<and> ci_claim (clk_heap c ! a) = t)"
  using reg_find_total [OF assms(1), of t] assms(2)
  by (auto simp: own_or_find_def valid_own_def split: option.splits)

text \<open>Clearing the lap link of a record the frontier has passed.\<close>

lemma unlink_heap:
  assumes "a < length (clk_heap c)"
  shows "clk_heap (unlink a c) = (clk_heap c)[a := (clk_heap c ! a)\<lparr>ci_older := None\<rparr>]"
  using assms by (auto simp: unlink_def upd_rec_def intro!: list_update_same_conv [THEN iffD2, symmetric])

lemma unlink_fields [simp]:
  "clk_commit (unlink a c) = clk_commit c" "clk_visible (unlink a c) = clk_visible c"
  "reg_slots (unlink a c) = reg_slots c" "length (clk_heap (unlink a c)) = length (clk_heap c)"
  "clk_txSeq (unlink a c) = clk_txSeq c" "clk_waiters (unlink a c) = clk_waiters c"
  "clk_wait (unlink a c) = clk_wait c"
  "reg_pending (unlink a c) = reg_pending c"
  by (simp_all add: unlink_def)

lemma clock_inv_unlink:
  assumes inv: "clock_inv c" and a: "a < length (clk_heap c)" "ci_claim (clk_heap c ! a) \<le> clk_visible c"
  shows "clock_inv (unlink a c)"
proof -
  let ?h = "clk_heap c" and ?h' = "clk_heap (unlink a c)"
  note D = clock_invD [OF inv]
  have h': "ci_claim (?h' ! b) = ci_claim (?h ! b)" "ci_finished (?h' ! b) = ci_finished (?h ! b)"
    "ci_older (?h' ! b) = (if b = a then None else ci_older (?h ! b))" if "b < length ?h" for b
    using that a(1) by (auto simp: unlink_heap [OF a(1)] nth_list_update)
  have marked: "marked ?h' = marked ?h" and linked: "lap_linked ?h' = lap_linked ?h - {a}"
    using h' by (auto simp: marked_def lap_linked_def split: if_splits)
  have count: "reg_linked (unlink a c) = reg_linked c - (if ci_older (?h ! a) \<noteq> None then 1 else 0)"
    by (simp add: unlink_def)
  show ?thesis
    unfolding clock_inv_def unlink_fields marked
  proof (intro conjI allI impI)
    show "slot_ok ?h' (clk_visible c) (reg_slots c s) s" for s
      by (rule slot_ok_clear [OF D(4), where a = a]) (use h' a in auto)
    show "finished_ok (clk_visible c) (?h' ! b)" if "b < length ?h" for b
      using D(8) [OF that] by (simp add: finished_ok_def h' that)
    show "\<exists>b<length ?h. ci_claim (?h' ! b) = k" if "clk_visible c < k \<and> k \<le> clk_commit c" for k
      using D(7) [of k] that h'(1) by auto
    show "x = b" if "x < length ?h" "b < length ?h" "ci_claim (?h' ! x) = ci_claim (?h' ! b)"
      "ci_claim (?h' ! x) \<noteq> 0" for x b
      using D(6) [OF that(1,2)] that by (simp add: h')
    show "reg_linked (unlink a c) = int (card (lap_linked ?h'))"
      using D(10) card_clear_flag [OF a(1)] unfolding linked count by (simp add: lap_linked_def)
  qed (use D h' in auto)
qed

lemma frontier_move_unlink:
  "a < length (clk_heap c) \<Longrightarrow> frontier_move X c (unlink a c)"
  by (auto simp: frontier_move_def unlink_heap nth_list_update rec_move_def)

lemma settled_unlink: "a < length (clk_heap c) \<Longrightarrow> settled (unlink a c) \<longleftrightarrow> settled c"
  by (auto simp: settled_def unlink_heap nth_list_update)

lemma owner_unique:
  assumes "clock_inv c" and "0 < t" and "t \<le> clk_commit c" and "clk_visible c < t"
  obtains a where "a < length (clk_heap c)" "ci_claim (clk_heap c ! a) = t"
    "\<And>b. b < length (clk_heap c) \<Longrightarrow> ci_claim (clk_heap c ! b) = t \<Longrightarrow> b = a"
proof -
  obtain a where "a < length (clk_heap c)" "ci_claim (clk_heap c ! a) = t"
    using clock_invD(7) [OF assms(1,4,3)] by auto
  moreover have "b = a" if "b < length (clk_heap c)" "ci_claim (clk_heap c ! b) = t" for b
    using clock_invD(6) [OF assms(1) that(1) \<open>a < length (clk_heap c)\<close>] assms(2) that(2)
      \<open>ci_claim (clk_heap c ! a) = t\<close> by simp
  ultimately show thesis by (rule that)
qed

text \<open>An in-order publication moves the frontier over the caller's own timestamp first.\<close>

lemma clock_inv_raise:
  assumes inv: "clock_inv c" and stl: "settled c" and t: "clk_visible c + 1 \<le> clk_commit c"
  shows "clock_inv (c\<lparr>clk_visible := clk_visible c + 1\<rparr>)"
    "frontier_move {clk_visible c + 1} c (c\<lparr>clk_visible := clk_visible c + 1\<rparr>)"
proof -
  note D = clock_invD [OF inv]
  have le: "clk_visible c \<le> clk_visible c + 1" using D(3) by (simp add: less_imp_le)
  have fin: "finished_ok (clk_visible c + 1) (clk_heap c ! a)" if "a < length (clk_heap c)" for a
  proof (cases "ci_claim (clk_heap c ! a) = clk_visible c + 1")
    case True
    then show ?thesis using stl that Suc_ts_nz [OF D(3)] by (simp add: settled_def finished_ok_def)
  next
    case False
    then show ?thesis by (rule finished_ok_pass [OF D(3) D(8) [OF that]])
  qed
  show "clock_inv (c\<lparr>clk_visible := clk_visible c + 1\<rparr>)"
    using D t slot_ok_cong [OF D(4) refl refl refl le] fin order_less_trans [OF less_Suc_ts [OF D(3)]]
    by (simp add: clock_inv_def)
  have "rec_move {clk_visible c + 1} (clk_visible c) (clk_visible c + 1) r r" for r
    using D(3) by (auto simp: rec_move_def le_Suc_ts_iff)
  with le show "frontier_move {clk_visible c + 1} c (c\<lparr>clk_visible := clk_visible c + 1\<rparr>)"
    by (simp add: frontier_move_def)
qed

lemma publish_in_order_spec:
  assumes inv: "clock_inv c" and stl: "settled c" and own: "valid_own own c"
    and t: "t = clk_visible c + 1" "t \<le> clk_commit c"
  shows "\<exists>c'. publish_in_order t own c = Some c' \<and> clock_inv c' \<and> settled c' \<and> frontier_move {t} c c'
    \<and> t \<le> clk_visible c' \<and> clk_wait c' = clk_wait c"
proof -
  let ?c1 = "c\<lparr>clk_visible := t\<rparr>"
  have c1: "clock_inv ?c1" "frontier_move {t} c ?c1"
    using clock_inv_raise [OF inv stl] t by auto
  have "\<exists>c2 m. (if reg_pending ?c1 \<noteq> 0 then advance t False False ?c1 else Some (?c1, False)) = Some (c2, m)
      \<and> clock_inv c2 \<and> settled c2 \<and> frontier_move {t} ?c1 c2 \<and> clk_wait c2 = clk_wait c"
  proof (cases "reg_pending ?c1 = 0")
    case True
    then have "marked (clk_heap c) = {}" using clock_invD(9) [OF inv] by simp
    then have unmarked: "ci_finished (clk_heap c ! a) \<noteq> finishedMarked" if "a < length (clk_heap c)" for a
      using that by (auto simp: marked_def)
    have "t < t + 1" using clock_invD(3) [OF c1(1)] by simp
    then have "settled ?c1"
      using clock_invD(8) [OF c1(1)] unmarked by (fastforce simp: settled_def finished_ok_def)
    with True c1 show ?thesis by auto
  next
    case False
    then show ?thesis
      using advance_spec [OF c1(1), of t False False "{t}"] by auto
  qed
  then obtain c2 m where c2: "clock_inv c2" "settled c2" "frontier_move {t} ?c1 c2" "clk_wait c2 = clk_wait c"
    and run: "(if reg_pending ?c1 \<noteq> 0 then advance t False False ?c1 else Some (?c1, False)) = Some (c2, m)"
    by blast
  have m2: "frontier_move {t} c c2" using c1(2) c2(3) by (rule frontier_move_trans)
  have t2: "t \<le> clk_visible c2" using c2(3) by (simp add: frontier_move_def)
  have own2: "valid_own own c2" using own m2 by (simp add: valid_own_def frontier_move_def)
  obtain rec where rec: "own_or_find own t c2 = Some rec"
    "\<forall>a. rec = Some a \<longrightarrow> a < length (clk_heap c2) \<and> ci_claim (clk_heap c2 ! a) = t"
    using own_or_find_total [OF c2(1) own2] by blast
  define c3 where "c3 = (if reg_linked c2 \<noteq> 0 then case rec of Some a \<Rightarrow> unlink a c2 | None \<Rightarrow> c2 else c2)"
  have c3: "clock_inv c3 \<and> settled c3 \<and> frontier_move {t} c2 c3 \<and> clk_wait c3 = clk_wait c \<and> t \<le> clk_visible c3"
    using rec(2) c2 t2 by (auto simp: c3_def clock_inv_unlink settled_unlink frontier_move_unlink split: option.splits)
  have "publish_in_order t own c = Some c3"
    unfolding publish_in_order_def Let_def run by (simp add: rec(1) c3_def)
  moreover have "frontier_move {t} c c3" using m2 c3 frontier_move_trans by blast
  ultimately show ?thesis using c3 by simp
qed

lemma finish_in_order_spec:
  assumes "clock_inv c" and "settled c" and "valid_own own c" and "t = clk_visible c + 1" "t \<le> clk_commit c"
  shows "\<exists>c'. finish_in_order t own c = Some c' \<and> clock_inv c' \<and> settled c' \<and> frontier_move {t} c c'
    \<and> t \<le> clk_visible c' \<and> (clk_waiters c > 0 \<longrightarrow> clk_wait c < clk_wait c') \<and> clk_wait c \<le> clk_wait c'"
proof -
  obtain c3 where c3: "publish_in_order t own c = Some c3" "clock_inv c3" "settled c3" "frontier_move {t} c c3"
    "t \<le> clk_visible c3" "clk_wait c3 = clk_wait c"
    using publish_in_order_spec [OF assms] by blast
  then have "clk_waiters c3 = clk_waiters c" by (simp add: frontier_move_def)
  with c3 show ?thesis by (simp add: finish_in_order_def wake_if_waiting_wait)
qed

text \<open>An out-of-order publication marks the caller's record and helps what is stuck below it.\<close>

lemma mark_finished_below:
  "clk_visible c < t \<Longrightarrow> mark_finished t a c =
     (upd_rec a (\<lambda>r. r\<lparr>ci_finished := finishedMarked\<rparr>) c)
       \<lparr>reg_pending := reg_pending c + 1, reg_outOfOrder := reg_outOfOrder c + 1\<rparr>"
  by (simp add: mark_finished_def Let_def)

lemma clock_inv_mark:
  assumes inv: "clock_inv c" and a: "a < length (clk_heap c)" "ci_claim (clk_heap c ! a) = t"
    and t: "clk_visible c < t" and none: "ci_finished (clk_heap c ! a) = finishedNone"
  shows "clock_inv (mark_finished t a c)" "frontier_move {t} c (mark_finished t a c)"
    "clk_wait (mark_finished t a c) = clk_wait c"
proof -
  let ?h = "clk_heap c" and ?c' = "mark_finished t a c"
  let ?h' = "clk_heap (mark_finished t a c)"
  note D = clock_invD [OF inv]
  have len: "length ?h' = length ?h" by (simp add: mark_finished_below [OF t])
  have h': "?h' ! b = (if b = a then (?h ! b)\<lparr>ci_finished := finishedMarked\<rparr> else ?h ! b)"
    if "b < length ?h" for b
    using that by (simp add: mark_finished_below [OF t] upd_rec_nth)
  have fields: "clk_commit ?c' = clk_commit c" "clk_visible ?c' = clk_visible c"
    "reg_slots ?c' = reg_slots c" "reg_pending ?c' = reg_pending c + 1" "reg_linked ?c' = reg_linked c"
    "clk_txSeq ?c' = clk_txSeq c" "clk_waiters ?c' = clk_waiters c"
    by (simp_all add: mark_finished_below [OF t])
  have marked: "marked ?h' = insert a (marked ?h)" and linked: "lap_linked ?h' = lap_linked ?h"
    using a(1) by (auto simp: marked_def lap_linked_def len h' split: if_splits)
  have "a \<notin> marked ?h" using none by (simp add: marked_def)
  show "clock_inv ?c'"
    unfolding clock_inv_def fields len linked marked
  proof (intro conjI allI impI)
    show "slot_ok ?h' (clk_visible c) (reg_slots c s) s" for s
      by (rule slot_ok_cong [OF D(4)]) (simp_all add: len h')
    show "finished_ok (clk_visible c) (?h' ! b)" if "b < length ?h" for b
      using D(8) [OF that] that a t by (auto simp: finished_ok_def h')
    show "\<exists>b<length ?h. ci_claim (?h' ! b) = k" if "clk_visible c < k \<and> k \<le> clk_commit c" for k
      using D(7) [of k] that by (auto simp: h')
    show "x = b" if "x < length ?h" "b < length ?h" "ci_claim (?h' ! x) = ci_claim (?h' ! b)"
      "ci_claim (?h' ! x) \<noteq> 0" for x b
      using D(6) [OF that(1,2)] that by (simp add: h' split: if_splits)
    show "reg_pending c + 1 = int (card (insert a (marked ?h)))"
      using D(9) \<open>a \<notin> marked ?h\<close> by simp
  qed (use D in \<open>auto simp: h'\<close>)
  show "frontier_move {t} c ?c'"
    using a(2) by (auto simp: frontier_move_def fields len h' rec_move_def)
  show "clk_wait ?c' = clk_wait c" by (simp add: mark_finished_below [OF t])
qed

lemma own_or_find_owner:
  assumes "clock_inv c" and "valid_own own c" and "0 < t" "t \<le> clk_commit c" "clk_visible c < t"
  shows "\<exists>a. own_or_find own t c = Some (Some a) \<and> a < length (clk_heap c) \<and> ci_claim (clk_heap c ! a) = t"
proof -
  obtain a where "reg_find t c = Some (Some a)" "a < length (clk_heap c)" "ci_claim (clk_heap c ! a) = t"
    using reg_find_owner [OF assms(1,5)] clock_invD(7) [OF assms(1,5,4)] by auto
  with assms(2) show ?thesis by (auto simp: own_or_find_def valid_own_def split: option.splits)
qed

definition recorded :: "u64 \<Rightarrow> Clock \<Rightarrow> bool" where
  "recorded t c \<longleftrightarrow> t \<le> clk_visible c \<or>
     (\<exists>a<length (clk_heap c). ci_claim (clk_heap c ! a) = t \<and> ci_finished (clk_heap c ! a) \<noteq> finishedNone)"

lemma recorded_move: "frontier_move X c c' \<Longrightarrow> recorded t c \<Longrightarrow> recorded t c'"
  by (auto simp: recorded_def frontier_move_def rec_move_def)

lemma publish_out_of_order_spec:
  assumes inv: "clock_inv c" and own: "valid_own own c" and t: "0 < t" "t \<le> clk_commit c"
  shows "\<exists>c' m. publish_out_of_order t own c = Some (c', m) \<and> clock_inv c' \<and> settled c' \<and> frontier_move {t} c c'
    \<and> recorded t c' \<and> (m \<longleftrightarrow> clk_visible c < clk_visible c') \<and> clk_wait c' = clk_wait c"
proof -
  define first where "first =
    (if t > clk_visible c
     then map_option
            (\<lambda>rec. case rec of
                Some a \<Rightarrow>
                  if ci_finished (clk_heap c ! a) = finishedNone then (mark_finished t a c, True)
                  else (c, False)
              | None \<Rightarrow> (c, False))
            (own_or_find own t c)
     else Some (c, False))"
  have "\<exists>c1 o1. first = Some (c1, o1) \<and> clock_inv c1 \<and> frontier_move {t} c c1 \<and> clk_wait c1 = clk_wait c
      \<and> clk_visible c1 = clk_visible c \<and> recorded t c1"
  proof (cases "clk_visible c < t")
    case False
    with inv show ?thesis by (auto simp: first_def recorded_def)
  next
    case True
    then obtain a where a: "own_or_find own t c = Some (Some a)" "a < length (clk_heap c)"
      "ci_claim (clk_heap c ! a) = t"
      using own_or_find_owner [OF inv own t] by blast
    show ?thesis
    proof (cases "ci_finished (clk_heap c ! a) = finishedNone")
      case none: True
      have "recorded t (mark_finished t a c)"
        using a True by (auto simp: recorded_def mark_finished_below upd_rec_nth intro!: exI [of _ a])
      moreover have "first = Some (mark_finished t a c, True)"
        using none True a(1) by (simp add: first_def)
      moreover have "clk_visible (mark_finished t a c) = clk_visible c"
        by (simp add: mark_finished_below [OF True])
      ultimately show ?thesis using clock_inv_mark [OF inv a(2,3) True none] by blast
    next
      case False
      with a True inv show ?thesis by (auto simp: first_def recorded_def)
    qed
  qed
  then obtain c1 o1 where c1: "first = Some (c1, o1)" "clock_inv c1" "frontier_move {t} c c1"
    "clk_wait c1 = clk_wait c" "clk_visible c1 = clk_visible c" "recorded t c1" by blast
  obtain c2 m where c2: "advance t o1 False c1 = Some (c2, m)" "clock_inv c2" "frontier_move {t} c1 c2"
    "settled c2" "m \<longleftrightarrow> clk_visible c1 < clk_visible c2" "clk_wait c2 = clk_wait c1"
    using advance_spec [OF c1(2), of t o1 False "{t}"] by auto
  have "publish_out_of_order t own c = Some (c2, m)"
    unfolding publish_out_of_order_def first_def [symmetric] by (simp add: c1(1) c2(1))
  moreover have "frontier_move {t} c c2" using c1(3) c2(3) by (rule frontier_move_trans)
  moreover have "recorded t c2" using c2(3) c1(6) by (rule recorded_move)
  ultimately show ?thesis using c1 c2 by auto
qed

lemma finish_out_of_order_spec:
  assumes "clock_inv c" and "valid_own own c" and "0 < t" "t \<le> clk_commit c"
  shows "\<exists>c'. finish_out_of_order t own c = Some c' \<and> clock_inv c' \<and> settled c' \<and> frontier_move {t} c c'
    \<and> recorded t c' \<and> (clk_waiters c > 0 \<longrightarrow> clk_visible c < clk_visible c' \<longrightarrow> clk_wait c < clk_wait c')
    \<and> clk_wait c \<le> clk_wait c'"
proof -
  obtain c2 m where c2: "publish_out_of_order t own c = Some (c2, m)" "clock_inv c2" "settled c2" "frontier_move {t} c c2"
    "recorded t c2" "m \<longleftrightarrow> clk_visible c < clk_visible c2" "clk_wait c2 = clk_wait c"
    using publish_out_of_order_spec [OF assms] by blast
  then have "clk_waiters c2 = clk_waiters c" by (simp add: frontier_move_def)
  with c2 show ?thesis by (auto simp: finish_out_of_order_def wake_if_waiting_wait recorded_def)
qed

text \<open>The frontier part alone: it never touches the channel, and it goes on to look for waiters when
  the frontier has moved.\<close>

lemma finish_frontier_spec:
  assumes inv: "clock_inv c" and stl: "settled c" and own: "valid_own own c"
    and t: "0 < t" "t \<le> clk_commit c"
  shows "\<exists>c' m. finish_frontier t own c = Some (c', m) \<and> frontier_move {t} c c' \<and> clk_wait c' = clk_wait c
    \<and> (clk_visible c < clk_visible c' \<longrightarrow> m)"
proof (cases "clk_visible c = t - 1")
  case True
  then have "t = clk_visible c + 1" by simp
  from publish_in_order_spec [OF inv stl own this t(2)] True show ?thesis by (auto simp: finish_frontier_def)
next
  case False
  with publish_out_of_order_spec [OF inv own t] show ?thesis by (auto simp: finish_frontier_def)
qed

lemma finishCommitTS_spec:
  assumes inv: "clock_inv c" and stl: "settled c" and own: "valid_own own c"
    and t: "0 < t" "t \<le> clk_commit c"
  shows "\<exists>c'. finishCommitTS t own c = Some c' \<and> clock_inv c' \<and> settled c' \<and> frontier_move {t} c c'
    \<and> recorded t c' \<and> (clk_waiters c > 0 \<longrightarrow> clk_visible c < clk_visible c' \<longrightarrow> clk_wait c < clk_wait c')
    \<and> clk_wait c \<le> clk_wait c'"
proof (cases "clk_visible c = t - 1")
  case True
  then have "t = clk_visible c + 1" by simp
  from finish_in_order_spec [OF inv stl own this t(2)] show ?thesis
    unfolding finishCommitTS_def if_P [OF True] recorded_def by blast
next
  case False
  with finish_out_of_order_spec [OF inv own t] show ?thesis by (simp add: finishCommitTS_def)
qed

subsection \<open>Allocating\<close>

lemma chain_update_other:
  "chain h p as \<Longrightarrow> a \<notin> set as \<Longrightarrow> chain (h[a := r]) p as"
  by (induction as arbitrary: p) auto

text \<open>The lap link \<open>claim\<close> gives a record, and what installing it does to heap and counters.\<close>

definition lap_link :: "u64 \<Rightarrow> Clock \<Rightarrow> nat option" where
  "lap_link t c = (case reg_slots c (slot_of t) of
     None \<Rightarrow> None
   | Some h \<Rightarrow> if ci_claim (clk_heap c ! h) > clk_visible c then Some h else None)"

lemma claim_install_eq:
  assumes "a < length (clk_heap c)" and "reg_slots c (slot_of t) \<noteq> Some a"
  defines "c' \<equiv> claim_install a t c"
  shows "clk_heap c' = (clk_heap c)[a := (clk_heap c ! a)\<lparr>ci_claim := t, ci_older := lap_link t c\<rparr>]"
    "reg_slots c' = (reg_slots c)(slot_of t := Some a)" "clk_commit c' = t"
    "clk_visible c' = clk_visible c" "reg_pending c' = reg_pending c"
    "reg_linked c' = reg_linked c + (if lap_link t c \<noteq> None then 1 else 0)"
    "clk_txSeq c' = clk_txSeq c" "clk_waiters c' = clk_waiters c" "clk_wait c' = clk_wait c"
proof -
  have "(case reg_slots c (slot_of t) of None \<Rightarrow> None
      | Some h \<Rightarrow> if ci_claim (clk_heap (upd_rec a (\<lambda>r. r\<lparr>ci_claim := t\<rparr>) c) ! h) >
                    clk_visible (upd_rec a (\<lambda>r. r\<lparr>ci_claim := t\<rparr>) c) then Some h else None) = lap_link t c"
    using assms(2) by (auto simp: lap_link_def upd_rec_def nth_list_update split: option.split)
  note eqs = this
  show "clk_heap c' = (clk_heap c)[a := (clk_heap c ! a)\<lparr>ci_claim := t, ci_older := lap_link t c\<rparr>]"
    "reg_slots c' = (reg_slots c)(slot_of t := Some a)" "clk_commit c' = t"
    "clk_visible c' = clk_visible c" "reg_pending c' = reg_pending c"
    "reg_linked c' = reg_linked c + (if lap_link t c \<noteq> None then 1 else 0)"
    "clk_txSeq c' = clk_txSeq c" "clk_waiters c' = clk_waiters c" "clk_wait c' = clk_wait c"
    unfolding c'_def claim_install_def Let_def eqs
    using assms(1) by (simp_all add: upd_rec_def Let_def)
qed

lemma slot_ok_install:
  assumes ok: "slot_ok h vis (reg_slots c s) s" and a: "a < length h" "ci_claim (h ! a) = 0"
    and older: "t \<noteq> 0" "\<And>b. b < length h \<Longrightarrow> ci_claim (h ! b) < t"
    and heap: "clk_heap c = h" "clk_visible c = vis"
  shows "slot_ok (h[a := (h ! a)\<lparr>ci_claim := t, ci_older := lap_link t c\<rparr>]) vis
    (((reg_slots c)(slot_of t := Some a)) s) s" (is "slot_ok ?h' _ _ _")
proof -
  obtain as where as: "chain h (reg_slots c s) as"
    "sorted_wrt (\<lambda>a b. ci_claim (h ! b) < ci_claim (h ! a)) as"
    "\<forall>a\<in>set as. ci_claim (h ! a) \<noteq> 0 \<and> slot_of (ci_claim (h ! a)) = s"
    "\<forall>a<length h. vis < ci_claim (h ! a) \<and> slot_of (ci_claim (h ! a)) = s \<longrightarrow> a \<in> set as"
    using ok by (auto simp: slot_ok_def)
  have notin: "a \<notin> set as" using as(3) a(2) by auto
  have h': "ci_claim (?h' ! b) = (if b = a then t else ci_claim (h ! b))" if "b < length h" for b
    using that by (simp add: nth_list_update)
  have eq: "ci_claim (?h' ! b) = ci_claim (h ! b)" if "b \<in> set as" for b
    using h' [OF chain_valid [OF as(1) that]] that notin by auto
  have sorted': "sorted_wrt (\<lambda>a b. ci_claim (?h' ! b) < ci_claim (?h' ! a)) as"
    using as(2) by (rule sorted_wrt_mono_rel [rotated]) (simp add: eq)
  show ?thesis
  proof (cases "slot_of t = s")
    case False
    then have "chain ?h' (((reg_slots c)(slot_of t := Some a)) s) as"
      using as(1) notin by (simp add: chain_update_other)
    moreover have "\<forall>b<length ?h'. vis < ci_claim (?h' ! b) \<and> slot_of (ci_claim (?h' ! b)) = s \<longrightarrow> b \<in> set as"
      using as(4) False by (simp add: h')
    moreover have "\<forall>b\<in>set as. ci_claim (?h' ! b) \<noteq> 0 \<and> slot_of (ci_claim (?h' ! b)) = s"
      using as(3) by (simp add: eq)
    ultimately show ?thesis unfolding slot_ok_def using sorted' by blast
  next
    case True
    define bs where "bs = (if lap_link t c = None then [] else as)"
    have link: "chain h (lap_link t c) bs"
      using as(1) True by (auto simp: bs_def lap_link_def heap split: option.splits)
    have sub: "set bs \<subseteq> set as" by (simp add: bs_def)
    have all: "b \<in> set bs" if b: "b < length h" "vis < ci_claim (h ! b)" "slot_of (ci_claim (h ! b)) = s" for b
    proof (cases "lap_link t c = None")
      case None: True
      from as(4) b have "b \<in> set as" by simp
      then obtain hd_a tl_as where cons: "as = hd_a # tl_as" by (cases as) auto
      then have "ci_claim (h ! hd_a) \<le> vis"
        using None as(1) True by (auto simp: lap_link_def heap not_less split: if_splits)
      moreover have "ci_claim (h ! b) \<le> ci_claim (h ! hd_a)"
        using \<open>b \<in> set as\<close> as(2) by (auto simp: cons less_imp_le)
      ultimately show ?thesis using b(2) by simp
    next
      case False
      then show ?thesis using as(4) b by (simp add: bs_def)
    qed
    have "a \<notin> set bs" using notin sub by blast
    then have "chain ?h' (((reg_slots c)(slot_of t := Some a)) s) (a # bs)"
      using chain_update_other [OF link] a(1) True by simp
    moreover have "sorted_wrt (\<lambda>a b. ci_claim (?h' ! b) < ci_claim (?h' ! a)) (a # bs)"
      using sorted' sub eq older(2) chain_valid [OF as(1)] a(1) by (auto simp: bs_def)
    moreover have "\<forall>b\<in>set (a # bs). ci_claim (?h' ! b) \<noteq> 0 \<and> slot_of (ci_claim (?h' ! b)) = s"
      using as(3) sub eq older(1) True a(1) by auto
    moreover have "\<forall>b<length ?h'. vis < ci_claim (?h' ! b) \<and> slot_of (ci_claim (?h' ! b)) = s
        \<longrightarrow> b \<in> set (a # bs)"
      using all by (auto simp: h')
    ultimately show ?thesis unfolding slot_ok_def by blast
  qed
qed

lemma reg_claim_spec:
  assumes inv: "clock_inv c" and stl: "settled c" and a: "a < length (clk_heap c)"
    and fresh: "ci_claim (clk_heap c ! a) = 0" and room: "clk_commit c + 1 < TxIDBase"
  defines "t \<equiv> clk_commit c + 1"
  defines "c' \<equiv> claim_install a t c"
  shows "reg_claim a c = Some (c', t)" "clock_inv c'" "settled c'"
    "clk_heap c' = (clk_heap c)[a := (clk_heap c ! a)\<lparr>ci_claim := t, ci_older := lap_link t c\<rparr>]"
    "clk_commit c' = t" "clk_visible c' = clk_visible c" "clk_txSeq c' = clk_txSeq c"
    "clk_waiters c' = clk_waiters c" "clk_wait c' = clk_wait c"
proof -
  note D = clock_invD [OF inv]
  let ?h = "clk_heap c" and ?h' = "clk_heap c'"
  have t: "t \<noteq> 0" "clk_commit c < t" "clk_visible c < t" "t < TxIDBase"
    using D(1,2) room by (simp_all add: t_def Suc_ts_nz order.strict_trans1)
  have below: "ci_claim (?h ! b) < t" if "b < length ?h" for b
    using D(5) [OF that] t(2) by simp
  have head: "h < length ?h \<and> ci_claim (?h ! h) \<noteq> 0" if hs: "reg_slots c s = Some h" for s h
  proof -
    obtain as where as: "chain ?h (Some h) as" "\<forall>a\<in>set as. ci_claim (?h ! a) \<noteq> 0"
      using D(4) [of s] by (auto simp: slot_ok_def hs)
    then show ?thesis by (cases as) auto
  qed
  then have nota: "reg_slots c (slot_of t) \<noteq> Some a" using fresh by auto
  note eqs = claim_install_eq [OF a nota, folded c'_def]
  show "reg_claim a c = Some (c', t)"
    using head below unfolding not_le [symmetric]
    by (subst reg_claim.simps) (auto simp: Let_def c'_def t_def split: option.split)
  show heap: "?h' = ?h[a := (?h ! a)\<lparr>ci_claim := t, ci_older := lap_link t c\<rparr>]"
    and "clk_commit c' = t" "clk_visible c' = clk_visible c" "clk_txSeq c' = clk_txSeq c"
    "clk_waiters c' = clk_waiters c" "clk_wait c' = clk_wait c"
    by (simp_all add: eqs)
  have h': "?h' ! b = (if b = a then (?h ! b)\<lparr>ci_claim := t, ci_older := lap_link t c\<rparr> else ?h ! b)"
    if "b < length ?h" for b
    using that by (simp add: heap nth_list_update)
  have none: "ci_finished (?h ! a) = finishedNone" "ci_older (?h ! a) = None"
    using D(8) [OF a] fresh by (simp_all add: finished_ok_def)
  have marked: "marked ?h' = marked ?h"
    using none a by (auto simp: marked_def heap nth_list_update split: if_splits)
  have linked: "lap_linked ?h' = (if lap_link t c = None then lap_linked ?h else insert a (lap_linked ?h))"
    and fresh_link: "a \<notin> lap_linked ?h"
    using none a by (auto simp: lap_linked_def heap nth_list_update split: if_splits)
  have len: "length ?h' = length ?h" by (simp add: heap)
  show "clock_inv c'"
    unfolding clock_inv_def eqs(2-6) len marked
  proof (intro conjI allI impI)
    show "clk_visible c \<le> t" using t by simp
    show "slot_ok ?h' (clk_visible c) (((reg_slots c)(slot_of t := Some a)) s) s" for s
      unfolding heap by (rule slot_ok_install [OF D(4) a fresh t(1) below]) simp_all
    show "\<exists>b<length ?h. ci_claim (?h' ! b) = k" if k: "clk_visible c < k \<and> k \<le> t" for k
    proof (cases "k = t")
      case True
      with a show ?thesis by (auto simp: h')
    next
      case False
      then have "k \<le> clk_commit c" using k le_Suc_ts_iff [OF D(2), of k] by (simp add: t_def)
      then obtain b where "b < length ?h" "ci_claim (?h ! b) = k" using D(7) [of k] k by auto
      moreover have "b \<noteq> a" using \<open>ci_claim (?h ! b) = k\<close> fresh k by auto
      ultimately show ?thesis by (auto simp: h')
    qed
    show "x = b" if "x < length ?h" "b < length ?h" "ci_claim (?h' ! x) = ci_claim (?h' ! b)"
      "ci_claim (?h' ! x) \<noteq> 0" for x b
      using D(6) [OF that(1,2)] that below [OF that(1)] below [OF that(2)]
      by (auto simp: h' split: if_splits)
    show "finished_ok (clk_visible c) (?h' ! b)" if "b < length ?h" for b
      using D(8) [OF that] t(1) none by (auto simp: h' that finished_ok_def)
    show "reg_linked c + (if lap_link t c \<noteq> None then 1 else 0) = int (card (lap_linked ?h'))"
      using D(10) fresh_link by (simp add: linked)
    show "ci_claim (?h' ! b) \<le> t" if "b < length ?h" for b
      using below [OF that] that by (simp add: h' less_imp_le)
  qed (use D t in auto)
  show "settled c'"
    using stl none by (auto simp: settled_def len eqs(4) h')
qed

end
