(* ===== verification/Mvcc_System.thy ===== *)
theory Mvcc_System
  imports Mvcc_Clock
begin

text \<open>
  The transactions that share a clock, as a step relation over its methods: a transaction
  begins, allocates a commit timestamp, is marked ready, stamps its record and publishes it, or
  aborts and abandons. The guards are the owner's contract stated at \<open>Clock.AllocateFor\<close>: a
  record is published only once stamped, a ready record is never aborted, recovery
  ratchets only a clock with nothing in flight. \<open>sys_done\<close> is a ghost: the timestamps whose
  owner has published or abandoned them. The counters are assumed not to run out
  (a commit timestamp below \<open>2^63\<close>, a transaction number below \<open>2^61\<close>).
\<close>

record mvcc_sys =
  sys_clock :: Clock
  sys_done :: "u64 set"

definition init_sys :: mvcc_sys where
  "init_sys = \<lparr>sys_clock = new_clock, sys_done = {}\<rparr>"

definition in_flight :: "CommitInfo \<Rightarrow> bool" where
  "in_flight r \<longleftrightarrow> TxIDBase \<le> ci_ts r \<and> ci_ts r \<noteq> AbortedTS"

datatype tx_kind = ExplicitTx | ImplicitTx | BoundedTx

definition next_id :: "tx_kind \<Rightarrow> Clock \<Rightarrow> Clock \<times> u64" where
  "next_id k c = (case k of ExplicitTx \<Rightarrow> NextTxID c | ImplicitTx \<Rightarrow> NextImplicitTxID c
     | BoundedTx \<Rightarrow> NextBoundedTxID c)"

inductive sys_step :: "mvcc_sys \<Rightarrow> mvcc_sys \<Rightarrow> bool" where
  begin_tx:
    "unat (clk_txSeq (sys_clock s)) + 1 < 2 ^ 61 \<Longrightarrow> next_id k (sys_clock s) = (c1, i) \<Longrightarrow>
     new_record (NewCommitInfo i) c1 = (c2, a) \<Longrightarrow> sys_step s (s\<lparr>sys_clock := c2\<rparr>)"
| allocate:
    "a < length (clk_heap (sys_clock s)) \<Longrightarrow> in_flight (clk_heap (sys_clock s) ! a) \<Longrightarrow>
     clk_commit (sys_clock s) + 1 < TxIDBase \<Longrightarrow>
     AllocateFor (Some a) rdy (sys_clock s) = Some (Inr (c', t)) \<Longrightarrow> sys_step s (s\<lparr>sys_clock := c'\<rparr>)"
| allocate_anonymous:
    "clk_commit (sys_clock s) + 1 < TxIDBase \<Longrightarrow> NextCommitTS (sys_clock s) = Some (Inr (c', t)) \<Longrightarrow>
     sys_step s (s\<lparr>sys_clock := c'\<rparr>)"
| mark_ready:
    "a < length (clk_heap (sys_clock s)) \<Longrightarrow> in_flight (clk_heap (sys_clock s) ! a) \<Longrightarrow>
     ci_claim (clk_heap (sys_clock s) ! a) \<notin> sys_done s \<Longrightarrow>
     sys_step s (s\<lparr>sys_clock := upd_rec a MarkReady (sys_clock s)\<rparr>)"
| commit_record:
    "a < length (clk_heap (sys_clock s)) \<Longrightarrow> t = ci_claim (clk_heap (sys_clock s) ! a) \<Longrightarrow> t \<noteq> 0 \<Longrightarrow>
     t \<notin> sys_done s \<Longrightarrow> sys_step s (s\<lparr>sys_clock := upd_rec a (Commit t) (sys_clock s)\<rparr>)"
| publish:
    "a < length (clk_heap (sys_clock s)) \<Longrightarrow> t = ci_claim (clk_heap (sys_clock s) ! a) \<Longrightarrow> t \<noteq> 0 \<Longrightarrow>
     ci_ts (clk_heap (sys_clock s) ! a) \<in> {t, 0} \<Longrightarrow> own \<in> {None, Some a} \<Longrightarrow>
     PublishCommit own t (sys_clock s) = Some c' \<Longrightarrow>
     sys_step s (s\<lparr>sys_clock := c', sys_done := insert t (sys_done s)\<rparr>)"
| abandon:
    "a < length (clk_heap (sys_clock s)) \<Longrightarrow> t = ci_claim (clk_heap (sys_clock s) ! a) \<Longrightarrow> t \<noteq> 0 \<Longrightarrow>
     TxIDBase \<le> ci_ts (clk_heap (sys_clock s) ! a) \<Longrightarrow> \<not> ci_ready (clk_heap (sys_clock s) ! a) \<Longrightarrow>
     own \<in> {None, Some a} \<Longrightarrow> AbandonCommit own t (sys_clock s) = Some c' \<Longrightarrow>
     sys_step s (s\<lparr>sys_clock := c', sys_done := insert t (sys_done s)\<rparr>)"
| abort_tx:
    "a < length (clk_heap (sys_clock s)) \<Longrightarrow> TxIDBase \<le> ci_ts (clk_heap (sys_clock s) ! a) \<Longrightarrow>
     \<not> ci_ready (clk_heap (sys_clock s) ! a) \<Longrightarrow>
     sys_step s (s\<lparr>sys_clock := upd_rec a Abort (sys_clock s)\<rparr>)"
| recover:
    "clk_visible (sys_clock s) = clk_commit (sys_clock s) \<Longrightarrow> f < TxIDBase \<Longrightarrow>
     RatchetTo f (sys_clock s) = (c', t) \<Longrightarrow> sys_step s (s\<lparr>sys_clock := c'\<rparr>)"

inductive_cases sys_stepE: "sys_step s s'"

subsection \<open>The invariant\<close>

definition rec_ok :: "u64 set \<Rightarrow> u64 \<Rightarrow> CommitInfo \<Rightarrow> bool" where
  "rec_ok D v r \<longleftrightarrow>
     (ci_finished r \<noteq> finishedNone \<longrightarrow> ci_claim r \<in> D)
     \<and> (ci_claim r \<noteq> 0 \<and> ci_claim r \<le> v \<longrightarrow> ci_claim r \<in> D \<or> ci_ready r \<and> ci_ts r = ci_claim r)
     \<and> (ci_ts r < TxIDBase \<longrightarrow> ci_ts r = ci_claim r \<and> ci_claim r \<noteq> 0 \<or> ci_ts r = 0 \<and> \<not> ci_ready r)"

definition sys_inv :: "mvcc_sys \<Rightarrow> bool" where
  "sys_inv s \<longleftrightarrow>
     clock_inv (sys_clock s) \<and> settled (sys_clock s)
     \<and> (\<forall>r\<in>set (clk_heap (sys_clock s)). rec_ok (sys_done s) (clk_visible (sys_clock s)) r)
     \<and> (\<forall>t\<in>sys_done s. 0 < t \<and> t \<le> clk_commit (sys_clock s) \<and> recorded t (sys_clock s))"

lemma sys_invD:
  assumes "sys_inv s"
  shows "clock_inv (sys_clock s)" "settled (sys_clock s)"
    "a < length (clk_heap (sys_clock s)) \<Longrightarrow>
       rec_ok (sys_done s) (clk_visible (sys_clock s)) (clk_heap (sys_clock s) ! a)"
    "t \<in> sys_done s \<Longrightarrow> 0 < t" "t \<in> sys_done s \<Longrightarrow> t \<le> clk_commit (sys_clock s)"
    "t \<in> sys_done s \<Longrightarrow> recorded t (sys_clock s)"
  using assms by (auto simp: sys_inv_def)

lemma sys_invI:
  assumes "clock_inv c" "settled c"
    "\<And>a. a < length (clk_heap c) \<Longrightarrow> rec_ok D (clk_visible c) (clk_heap c ! a)"
    "\<And>t. t \<in> D \<Longrightarrow> 0 < t \<and> t \<le> clk_commit c \<and> recorded t c"
  shows "sys_inv \<lparr>sys_clock = c, sys_done = D\<rparr>"
  using assms by (auto simp: sys_inv_def in_set_conv_nth)

lemma sys_update_simps [simp]:
  "s\<lparr>sys_clock := c\<rparr> = \<lparr>sys_clock = c, sys_done = sys_done s\<rparr>"
  "s\<lparr>sys_clock := c, sys_done := D\<rparr> = \<lparr>sys_clock = c, sys_done = D\<rparr>"
  by simp_all

subsection \<open>Steps on one record\<close>

text \<open>Updating a record without touching its claim, finished state or lap link.\<close>

lemma upd_rec_same_links:
  assumes "\<And>r. ci_claim (f r) = ci_claim r" "\<And>r. ci_finished (f r) = ci_finished r"
    "\<And>r. ci_older (f r) = ci_older r"
  shows "same_links (clk_heap c) (clk_heap (upd_rec a f c))"
  by (auto simp: same_links_def upd_rec_nth assms)

lemma upd_rec_keeps:
  assumes "\<And>r. ci_claim (f r) = ci_claim r" "\<And>r. ci_finished (f r) = ci_finished r"
    "\<And>r. ci_older (f r) = ci_older r" and inv: "clock_inv c"
  shows "clock_inv (upd_rec a f c)" "settled (upd_rec a f c) \<longleftrightarrow> settled c"
    "recorded t (upd_rec a f c) \<longleftrightarrow> recorded t c"
proof -
  show "clock_inv (upd_rec a f c)"
    by (rule clock_inv_same [OF inv upd_rec_same_links [OF assms(1-3)]]) simp_all
  note same = same_linksD [OF upd_rec_same_links [OF assms(1-3), of c a]]
  show "settled (upd_rec a f c) \<longleftrightarrow> settled c" "recorded t (upd_rec a f c) \<longleftrightarrow> recorded t c"
    by (simp_all add: settled_def recorded_def same cong: conj_cong)
qed

lemma sys_inv_upd_rec:
  assumes inv: "sys_inv s" and a: "a < length (clk_heap (sys_clock s))"
    and f: "\<And>r. ci_claim (f r) = ci_claim r" "\<And>r. ci_finished (f r) = ci_finished r"
      "\<And>r. ci_older (f r) = ci_older r"
    and ok: "rec_ok (sys_done s) (clk_visible (sys_clock s)) (f (clk_heap (sys_clock s) ! a))"
  shows "sys_inv \<lparr>sys_clock = upd_rec a f (sys_clock s), sys_done = sys_done s\<rparr>"
proof (rule sys_invI)
  note I = sys_invD [OF inv]
  note K = upd_rec_keeps [OF f I(1)]
  show "clock_inv (upd_rec a f (sys_clock s))" by (rule K(1))
  show "settled (upd_rec a f (sys_clock s))" by (simp add: K(2) I(2))
  show "0 < t \<and> t \<le> clk_commit (upd_rec a f (sys_clock s)) \<and> recorded t (upd_rec a f (sys_clock s))"
    if "t \<in> sys_done s" for t
    using I(4-6) [OF that] by (simp add: K(3))
  show "rec_ok (sys_done s) (clk_visible (upd_rec a f (sys_clock s))) (clk_heap (upd_rec a f (sys_clock s)) ! b)"
    if "b < length (clk_heap (upd_rec a f (sys_clock s)))" for b
    using that I(3) ok by (simp add: upd_rec_nth)
qed

subsection \<open>New records\<close>

lemma chain_append: "chain h p as \<Longrightarrow> chain (h @ [r]) p as"
  by (induction as arbitrary: p) (auto simp: nth_append)

lemma slot_ok_append:
  assumes "slot_ok h vis p s" and "ci_claim r = 0"
  shows "slot_ok (h @ [r]) vis p s"
proof -
  obtain as where as: "chain h p as" "sorted_wrt (\<lambda>a b. ci_claim (h ! b) < ci_claim (h ! a)) as"
    "\<forall>a\<in>set as. ci_claim (h ! a) \<noteq> 0 \<and> slot_of (ci_claim (h ! a)) = s"
    "\<forall>a<length h. vis < ci_claim (h ! a) \<and> slot_of (ci_claim (h ! a)) = s \<longrightarrow> a \<in> set as"
    using assms(1) by (auto simp: slot_ok_def)
  have eq: "(h @ [r]) ! b = h ! b" if "b \<in> set as" for b
    using chain_valid [OF as(1) that] by (simp add: nth_append)
  have "sorted_wrt (\<lambda>a b. ci_claim ((h @ [r]) ! b) < ci_claim ((h @ [r]) ! a)) as"
    using as(2) by (rule sorted_wrt_mono_rel [rotated]) (simp add: eq)
  moreover have "\<forall>a\<in>set as. ci_claim ((h @ [r]) ! a) \<noteq> 0 \<and> slot_of (ci_claim ((h @ [r]) ! a)) = s"
    using as(3) by (simp add: eq)
  moreover have "\<forall>a<length (h @ [r]). vis < ci_claim ((h @ [r]) ! a) \<and> slot_of (ci_claim ((h @ [r]) ! a)) = s
      \<longrightarrow> a \<in> set as"
    using as(4) assms(2) by (auto simp: nth_append less_Suc_eq)
  ultimately show ?thesis unfolding slot_ok_def using chain_append [OF as(1)] by blast
qed

lemma clock_inv_new_record:
  assumes inv: "clock_inv c" and r: "ci_claim r = 0" "ci_finished r = finishedNone" "ci_older r = None"
    and c': "c' = c\<lparr>clk_txSeq := q, clk_heap := clk_heap c @ [r]\<rparr>"
  shows "clock_inv c'" "settled c \<Longrightarrow> settled c'" "recorded t c \<Longrightarrow> recorded t c'"
proof -
  note D = clock_invD [OF inv]
  have nth: "(clk_heap c @ [r]) ! b = (if b < length (clk_heap c) then clk_heap c ! b else r)"
    if "b < Suc (length (clk_heap c))" for b
    using that by (auto simp: nth_append less_Suc_eq)
  have "marked (clk_heap c @ [r]) = marked (clk_heap c)" "lap_linked (clk_heap c @ [r]) = lap_linked (clk_heap c)"
    using r by (auto simp: marked_def lap_linked_def nth_append split: if_splits)
  then show "clock_inv c'"
    unfolding clock_inv_def c'
  proof (simp, intro conjI allI impI)
    show "slot_ok (clk_heap c @ [r]) (clk_visible c) (reg_slots c s) s" for s
      by (rule slot_ok_append [OF D(4) r(1)])
    show "\<exists>a<Suc (length (clk_heap c)). ci_claim ((clk_heap c @ [r]) ! a) = k"
      if "clk_visible c < k \<and> k \<le> clk_commit c" for k
      using D(7) [of k] that by (auto simp: nth_append intro: less_SucI)
    show "x = b" if "x < Suc (length (clk_heap c))" "b < Suc (length (clk_heap c))"
      "ci_claim ((clk_heap c @ [r]) ! x) = ci_claim ((clk_heap c @ [r]) ! b)"
      "ci_claim ((clk_heap c @ [r]) ! b) \<noteq> 0" for x b
      using D(6) [of x b] that r(1) by (simp add: nth split: if_splits)
    show "finished_ok (clk_visible c) ((clk_heap c @ [r]) ! b)" if "b < Suc (length (clk_heap c))" for b
      using D(8) [of b] r by (simp add: nth [OF that]) (simp add: finished_ok_def)
  qed (use D r in \<open>auto simp: nth\<close>)
  show "settled c \<Longrightarrow> settled c'"
    using r by (auto simp: settled_def c' nth_append)
  show "recorded t c \<Longrightarrow> recorded t c'"
    by (auto simp: recorded_def c' nth_append intro: less_SucI)
qed

subsection \<open>Publication steps\<close>

lemma rec_ok_move:
  assumes move: "rec_move {t} v v' r r'" and ok: "rec_ok D v r"
  shows "rec_ok (insert t D) v' r'"
proof -
  note m = move [unfolded rec_move_def] and o = ok [unfolded rec_ok_def]
  have claim: "ci_claim r' = ci_claim r" and ready: "ci_ready r' = ci_ready r" using m by simp_all
  have "ci_finished r' \<noteq> finishedNone \<longrightarrow> ci_claim r \<in> insert t D" using m o by blast
  moreover have "ci_claim r \<in> insert t D \<or> ci_ready r \<and> ci_ts r' = ci_claim r"
    if "ci_claim r \<noteq> 0" "ci_claim r \<le> v'"
  proof (cases "ci_claim r \<le> v")
    case True
    then have "ci_ts r' = ci_ts r" using m by (auto simp: not_less)
    with True that o show ?thesis by auto
  next
    case False
    with m o that(2) show ?thesis by (auto simp: not_le)
  qed
  moreover have "ci_ts r' = ci_claim r \<and> ci_claim r \<noteq> 0 \<or> ci_ts r' = 0 \<and> \<not> ci_ready r" if "ci_ts r' < TxIDBase"
  proof (cases "ci_ts r' = ci_ts r")
    case True
    with o that show ?thesis by simp
  next
    case False
    then have "ci_ts r' = ci_claim r" "v < ci_claim r" using m by auto
    then show ?thesis by auto
  qed
  ultimately show ?thesis unfolding rec_ok_def claim ready by simp
qed

lemma sys_inv_finish:
  assumes inv: "sys_inv s" and t: "t \<noteq> 0" "a < length (clk_heap (sys_clock s))"
    "t = ci_claim (clk_heap (sys_clock s) ! a)" and own: "own \<in> {None, Some a}"
    and run: "finishCommitTS t own (sys_clock s) = Some c'"
  shows "sys_inv \<lparr>sys_clock = c', sys_done = insert t (sys_done s)\<rparr>"
    "frontier_move {t} (sys_clock s) c'"
proof -
  note I = sys_invD [OF inv]
  have tc: "t \<le> clk_commit (sys_clock s)" using clock_invD(5) [OF I(1) t(2)] t(3) by simp
  have "valid_own own (sys_clock s)" using own t(2) by (auto simp: valid_own_def)
  from finishCommitTS_spec [OF I(1,2) this _ tc] t(1) run
  have F: "clock_inv c'" "settled c'" "frontier_move {t} (sys_clock s) c'" "recorded t c'"
    by (auto simp: word_neq_0_conv)
  show "frontier_move {t} (sys_clock s) c'" by (rule F(3))
  have len: "length (clk_heap c') = length (clk_heap (sys_clock s))"
    and commit: "clk_commit c' = clk_commit (sys_clock s)"
    using F(3) by (simp_all add: frontier_move_def)
  show "sys_inv \<lparr>sys_clock = c', sys_done = insert t (sys_done s)\<rparr>"
  proof (rule sys_invI [OF F(1,2)])
    show "0 < k \<and> k \<le> clk_commit c' \<and> recorded k c'" if "k \<in> insert t (sys_done s)" for k
      using that I(4-6) [of k] recorded_move [OF F(3)] F(4) t(1) tc commit by (auto simp: word_neq_0_conv)
    show "rec_ok (insert t (sys_done s)) (clk_visible c') (clk_heap c' ! b)" if "b < length (clk_heap c')" for b
    proof -
      have b: "b < length (clk_heap (sys_clock s))" using that len by simp
      have "rec_move {t} (clk_visible (sys_clock s)) (clk_visible c') (clk_heap (sys_clock s) ! b) (clk_heap c' ! b)"
        using F(3) b by (simp add: frontier_move_def)
      then show ?thesis using I(3) [OF b] by (rule rec_ok_move)
    qed
  qed
qed

subsection \<open>What one step does to the records\<close>

text \<open>
  A record's timestamp only leaves the in-flight range: by aborting, or by committing above the
  frontier of that moment.
\<close>

definition ts_move :: "u64 \<Rightarrow> u64 \<Rightarrow> u64 \<Rightarrow> bool" where
  "ts_move v x y \<longleftrightarrow>
     y = x \<or> TxIDBase \<le> x \<and> (y = AbortedTS \<or> x \<noteq> AbortedTS \<and> v < y \<and> y < TxIDBase)"

definition sys_move :: "mvcc_sys \<Rightarrow> mvcc_sys \<Rightarrow> bool" where
  "sys_move s s' \<longleftrightarrow>
     clk_visible (sys_clock s) \<le> clk_visible (sys_clock s')
     \<and> length (clk_heap (sys_clock s)) \<le> length (clk_heap (sys_clock s'))
     \<and> (\<forall>a<length (clk_heap (sys_clock s)).
          ts_move (clk_visible (sys_clock s)) (ci_ts (clk_heap (sys_clock s) ! a)) (ci_ts (clk_heap (sys_clock s') ! a)))
     \<and> (\<forall>a<length (clk_heap (sys_clock s')). length (clk_heap (sys_clock s)) \<le> a \<longrightarrow>
          TxIDBase \<le> ci_ts (clk_heap (sys_clock s') ! a) \<or> ci_ts (clk_heap (sys_clock s') ! a) = 0
          \<or> clk_visible (sys_clock s) < ci_ts (clk_heap (sys_clock s') ! a))"

lemma ts_move_refl [simp]: "ts_move v x x"
  by (simp add: ts_move_def)

lemma ts_move_trans: "ts_move v x y \<Longrightarrow> ts_move w y z \<Longrightarrow> v \<le> w \<Longrightarrow> ts_move v x z"
  unfolding ts_move_def by auto

lemma sys_move_refl [simp]: "sys_move s s"
  by (simp add: sys_move_def)

lemma sys_move_trans:
  assumes m1: "sys_move s1 s2" and m2: "sys_move s2 s3"
  shows "sys_move s1 s3"
  unfolding sys_move_def
proof (intro conjI allI impI)
  note m = m1 [unfolded sys_move_def] m2 [unfolded sys_move_def]
  show "clk_visible (sys_clock s1) \<le> clk_visible (sys_clock s3)"
    "length (clk_heap (sys_clock s1)) \<le> length (clk_heap (sys_clock s3))"
    using m by auto
  show "ts_move (clk_visible (sys_clock s1)) (ci_ts (clk_heap (sys_clock s1) ! a)) (ci_ts (clk_heap (sys_clock s3) ! a))"
    if "a < length (clk_heap (sys_clock s1))" for a
    using m that by (meson ts_move_trans order.strict_trans2)
  show "TxIDBase \<le> ci_ts (clk_heap (sys_clock s3) ! a) \<or> ci_ts (clk_heap (sys_clock s3) ! a) = 0
      \<or> clk_visible (sys_clock s1) < ci_ts (clk_heap (sys_clock s3) ! a)"
    if a: "a < length (clk_heap (sys_clock s3))" "length (clk_heap (sys_clock s1)) \<le> a" for a
  proof (cases "a < length (clk_heap (sys_clock s2))")
    case True
    then have "TxIDBase \<le> ci_ts (clk_heap (sys_clock s2) ! a) \<or> ci_ts (clk_heap (sys_clock s2) ! a) = 0
        \<or> clk_visible (sys_clock s1) < ci_ts (clk_heap (sys_clock s2) ! a)"
      and "ts_move (clk_visible (sys_clock s2)) (ci_ts (clk_heap (sys_clock s2) ! a)) (ci_ts (clk_heap (sys_clock s3) ! a))"
      using m a(2) by auto
    then show ?thesis
      using m unfolding ts_move_def by (auto intro: order.strict_trans1)
  next
    case False
    then show ?thesis using m a(1) by (auto simp: not_less intro: order.strict_trans1)
  qed
qed

lemma step_upd_rec:
  assumes inv: "sys_inv s" and a: "a < length (clk_heap (sys_clock s))"
    and f: "\<And>r. ci_claim (f r) = ci_claim r" "\<And>r. ci_finished (f r) = ci_finished r"
      "\<And>r. ci_older (f r) = ci_older r"
    and ok: "rec_ok (sys_done s) (clk_visible (sys_clock s)) (f (clk_heap (sys_clock s) ! a))"
    and move: "ts_move (clk_visible (sys_clock s)) (ci_ts (clk_heap (sys_clock s) ! a))
      (ci_ts (f (clk_heap (sys_clock s) ! a)))"
  defines "s' \<equiv> \<lparr>sys_clock = upd_rec a f (sys_clock s), sys_done = sys_done s\<rparr>"
  shows "sys_inv s' \<and> sys_move s s'"
  using sys_inv_upd_rec [OF inv a f ok] a move
  by (auto simp: s'_def sys_move_def upd_rec_nth)

lemma step_finish:
  assumes inv: "sys_inv s" and t: "t \<noteq> 0" "a < length (clk_heap (sys_clock s))"
    "t = ci_claim (clk_heap (sys_clock s) ! a)" and own: "own \<in> {None, Some a}"
    and run: "finishCommitTS t own (sys_clock s) = Some c'"
  defines "s' \<equiv> \<lparr>sys_clock = c', sys_done = insert t (sys_done s)\<rparr>"
  shows "sys_inv s' \<and> sys_move s s'"
proof -
  note F = sys_inv_finish [OF inv t own run]
  have "ci_claim (clk_heap (sys_clock s) ! b) < TxIDBase" if "b < length (clk_heap (sys_clock s))" for b
    using clock_invD(2,5) [OF sys_invD(1) [OF inv]] that by (meson order.strict_trans1)
  with F(2) have "sys_move s s'"
    by (auto simp: s'_def sys_move_def frontier_move_def rec_move_def ts_move_def)
  with F(1) show ?thesis by (simp add: s'_def)
qed

lemma step_new_record:
  assumes inv: "sys_inv s" and i: "TxIDBase \<le> i \<or> i = 0"
    and c': "c' = (sys_clock s)\<lparr>clk_txSeq := q, clk_heap := clk_heap (sys_clock s) @ [NewCommitInfo i]\<rparr>"
  defines "s' \<equiv> \<lparr>sys_clock = c', sys_done = sys_done s\<rparr>"
  shows "sys_inv s' \<and> sys_move s s'"
proof -
  note I = sys_invD [OF inv]
  note N = clock_inv_new_record [OF I(1) _ _ _ c']
  have nth: "clk_heap c' ! b = (if b < length (clk_heap (sys_clock s)) then clk_heap (sys_clock s) ! b
      else NewCommitInfo i)" if "b < Suc (length (clk_heap (sys_clock s)))" for b
    using that by (auto simp: c' nth_append less_Suc_eq)
  have "rec_ok (sys_done s) (clk_visible (sys_clock s)) (NewCommitInfo i)"
    using i by (auto simp: rec_ok_def NewCommitInfo_def)
  then have "sys_inv s'"
    unfolding s'_def using I N nth by (intro sys_invI) (auto simp: c' NewCommitInfo_def)
  moreover have "sys_move s s'"
    using i nth by (auto simp: s'_def sys_move_def c' NewCommitInfo_def)
  ultimately show ?thesis by simp
qed

lemma rec_ok_claimed:
  assumes "ci_finished r = finishedNone" and "v < t"
    and "ci_ts r < TxIDBase \<longrightarrow> ci_ts r = 0 \<and> \<not> ci_ready r"
  shows "rec_ok D v (r\<lparr>ci_claim := t, ci_older := l\<rparr>)"
  using assms leD [of t v] by (auto simp: rec_ok_def)

text \<open>Allocation on a record that is not yet registered never panics and never loops.\<close>

lemma step_claim:
  assumes inv: "sys_inv s" and a: "a < length (clk_heap (sys_clock s))"
    and fresh: "ci_claim (clk_heap (sys_clock s) ! a) = 0" and room: "clk_commit (sys_clock s) + 1 < TxIDBase"
    and ts: "ci_ts (clk_heap (sys_clock s) ! a) < TxIDBase \<longrightarrow>
      ci_ts (clk_heap (sys_clock s) ! a) = 0 \<and> \<not> ci_ready (clk_heap (sys_clock s) ! a)"
    and run: "reg_claim a (sys_clock s) = Some (c', t)"
  defines "s' \<equiv> \<lparr>sys_clock = c', sys_done = sys_done s\<rparr>"
  shows "sys_inv s' \<and> sys_move s s' \<and> t = clk_commit (sys_clock s) + 1"
proof -
  note I = sys_invD [OF inv]
  note C = reg_claim_spec [OF I(1,2) a fresh room]
  have c': "c' = claim_install a (clk_commit (sys_clock s) + 1) (sys_clock s)"
    and t: "t = clk_commit (sys_clock s) + 1"
    using C(1) run by simp_all
  note C' = C(2-) [folded c', folded t]
  note D = clock_invD [OF I(1)]
  have tv: "clk_visible (sys_clock s) < t" "clk_commit (sys_clock s) < t"
    using D(1,2) by (simp_all add: t order.strict_trans1)
  have nth: "clk_heap c' ! b = (if b = a then (clk_heap (sys_clock s) ! b)\<lparr>ci_claim := t,
      ci_older := lap_link t (sys_clock s)\<rparr> else clk_heap (sys_clock s) ! b)"
    if "b < length (clk_heap (sys_clock s))" for b
    using that by (simp add: C'(3) nth_list_update)
  have notdone: "t \<notin> sys_done s" using I(5) [of t] tv by auto
  have none: "ci_finished (clk_heap (sys_clock s) ! a) = finishedNone"
    using D(8) [OF a] fresh by (simp add: finished_ok_def)
  have "sys_inv s'"
    unfolding s'_def
  proof (rule sys_invI [OF C'(1,2)])
    show "0 < k \<and> k \<le> clk_commit c' \<and> recorded k c'" if k: "k \<in> sys_done s" for k
    proof -
      have "recorded k c'"
      proof (cases "k \<le> clk_visible (sys_clock s)")
        case False
        then obtain b where b: "b < length (clk_heap (sys_clock s))"
          "ci_claim (clk_heap (sys_clock s) ! b) = k" "ci_finished (clk_heap (sys_clock s) ! b) \<noteq> finishedNone"
          using I(6) [OF k] by (auto simp: recorded_def)
        then have "clk_heap c' ! b = clk_heap (sys_clock s) ! b" using none by (auto simp: nth)
        with b show ?thesis by (auto simp: recorded_def C'(3))
      qed (simp add: recorded_def C'(5))
      with I(4,5) [OF k] tv(2) C'(4) show ?thesis by (auto intro: order_trans less_imp_le)
    qed
    show "rec_ok (sys_done s) (clk_visible c') (clk_heap c' ! b)" if "b < length (clk_heap c')" for b
      using that I(3) [of b] rec_ok_claimed [OF none tv(1) ts] by (cases "b = a") (simp_all add: C'(3,5))
  qed
  moreover have "ci_ts (clk_heap c' ! b) = ci_ts (clk_heap (sys_clock s) ! b)"
    if "b < length (clk_heap (sys_clock s))" for b
    using that by (simp add: nth)
  then have "sys_move s s'"
    by (simp add: s'_def sys_move_def C'(5)) (simp add: C'(3))
  ultimately show ?thesis by (simp add: t)
qed

lemma next_id_spec:
  assumes "next_id k c = (c1, i)" and "unat (clk_txSeq c) + 1 < 2 ^ 61"
  shows "c1 = c\<lparr>clk_txSeq := clk_txSeq c + 1\<rparr>" "TxIDBase \<le> i"
proof -
  have n: "unat (clk_txSeq c + 1) < 2 ^ 61"
    using assms(2) by (simp add: unat_word_ariths mod_less)
  show "c1 = c\<lparr>clk_txSeq := clk_txSeq c + 1\<rparr>"
    using assms(1) by (cases k) (auto simp: next_id_def NextTxID_def NextImplicitTxID_def NextBoundedTxID_def)
  show "TxIDBase \<le> i"
    using assms(1) bit_txids [OF n, of 63]
    by (cases k) (auto simp: next_id_def NextTxID_def NextImplicitTxID_def NextBoundedTxID_def ge_TxIDBase_iff_bit)
qed

lemma step_recover:
  assumes inv: "sys_inv s" and quiet: "clk_visible (sys_clock s) = clk_commit (sys_clock s)"
    and f: "f < TxIDBase" and run: "RatchetTo f (sys_clock s) = (c', t)"
  defines "s' \<equiv> \<lparr>sys_clock = c', sys_done = sys_done s\<rparr>"
  shows "sys_inv s' \<and> sys_move s s'"
proof -
  note I = sys_invD [OF inv] and D = clock_invD [OF sys_invD(1) [OF inv]]
  let ?c = "sys_clock s" and ?v = "max (clk_commit (sys_clock s)) f"
  have c': "c' = ?c\<lparr>clk_commit := ?v, clk_visible := ?v\<rparr>"
    using run quiet by (auto simp: RatchetTo_def raiseVisible_def Let_def max_def split: if_splits)
  have le: "clk_visible ?c \<le> ?v" by (simp add: quiet)
  have claims: "ci_claim (clk_heap ?c ! b) \<le> clk_commit ?c" if "b < length (clk_heap ?c)" for b
    using D(5) [OF that] .
  have top: "?v < TxIDBase" using D(2) f by simp
  have nonext: "ci_claim (clk_heap ?c ! b) \<noteq> ?v + 1" if "b < length (clk_heap ?c)" for b
    using claims [OF that] less_Suc_ts [OF top] by (auto simp: max_def split: if_splits)
  have "clock_inv c'"
    unfolding clock_inv_def c'
  proof (simp, intro conjI allI impI)
    show "slot_ok (clk_heap ?c) ?v (reg_slots ?c x) x" for x
      by (rule slot_ok_cong [OF D(4) refl refl refl le])
    show "finished_ok ?v (clk_heap ?c ! b)" if "b < length (clk_heap ?c)" for b
      using D(8) [OF that] claims [OF that] by (auto simp: finished_ok_def quiet le_max_iff_disj)
  qed (use D f claims in \<open>auto simp: le_max_iff_disj\<close>)
  moreover have "settled c'" using nonext by (auto simp: settled_def c')
  moreover have "rec_ok (sys_done s) ?v (clk_heap ?c ! b)" if "b < length (clk_heap ?c)" for b
    using I(3) [OF that] claims [OF that] by (auto simp: rec_ok_def quiet)
  moreover have "recorded k c'" if "k \<in> sys_done s" for k
    using I(5) [OF that] by (auto simp: recorded_def c' le_max_iff_disj)
  ultimately have "sys_inv s'"
    unfolding s'_def using I(4,5) by (intro sys_invI) (auto simp: c' le_max_iff_disj)
  moreover have "sys_move s s'" using le by (simp add: s'_def sys_move_def c')
  ultimately show ?thesis by simp
qed

text \<open>Every step keeps the invariant and moves the records as \<open>sys_move\<close> says.\<close>

lemma step_allocate:
  assumes inv: "sys_inv s" and a: "a < length (clk_heap (sys_clock s))"
    "in_flight (clk_heap (sys_clock s) ! a)" and room: "clk_commit (sys_clock s) + 1 < TxIDBase"
    and run: "AllocateFor (Some a) rdy (sys_clock s) = Some (Inr (c', t))"
  defines "s' \<equiv> \<lparr>sys_clock = c', sys_done = sys_done s\<rparr>"
  shows "sys_inv s' \<and> sys_move s s' \<and> t = clk_commit (sys_clock s) + 1"
proof -
  let ?c = "sys_clock s" and ?r = "clk_heap (sys_clock s) ! a"
  define c0 where "c0 = (if rdy then upd_rec a MarkReady ?c else ?c)"
  have fresh: "ci_claim ?r = 0" and claim: "reg_claim a c0 = Some (c', t)"
    using run by (auto simp: AllocateFor_def c0_def split: if_splits)
  have ok: "rec_ok (sys_done s) (clk_visible ?c) (MarkReady ?r)"
    using sys_invD(3) [OF inv a(1)] a(2) fresh by (auto simp: rec_ok_def MarkReady_def in_flight_def)
  define s0 where "s0 = \<lparr>sys_clock = c0, sys_done = sys_done s\<rparr>"
  have s0: "sys_inv s0 \<and> sys_move s s0"
  proof (cases rdy)
    case True
    then show ?thesis
      using step_upd_rec [OF inv a(1), of MarkReady] ok by (simp add: s0_def c0_def MarkReady_def)
  next
    case False
    then have "s0 = s" by (simp add: s0_def c0_def)
    with inv show ?thesis by simp
  qed
  have c0: "length (clk_heap c0) = length (clk_heap ?c)" "clk_commit c0 = clk_commit ?c"
    "ci_claim (clk_heap c0 ! a) = 0" "\<not> ci_ts (clk_heap c0 ! a) < TxIDBase"
    using a fresh by (auto simp: c0_def upd_rec_nth MarkReady_def in_flight_def)
  have "sys_inv s' \<and> sys_move s0 s' \<and> t = clk_commit ?c + 1"
    using step_claim [of s0 a c' t] s0 a(1) c0 room claim
    by (simp add: s0_def s'_def)
  then show ?thesis using s0 sys_move_trans by blast
qed

lemma step_anonymous:
  assumes inv: "sys_inv s" and room: "clk_commit (sys_clock s) + 1 < TxIDBase"
    and run: "NextCommitTS (sys_clock s) = Some (Inr (c', t))"
  defines "s' \<equiv> \<lparr>sys_clock = c', sys_done = sys_done s\<rparr>"
  shows "sys_inv s' \<and> sys_move s s' \<and> t = clk_commit (sys_clock s) + 1"
proof -
  let ?c = "sys_clock s"
  define c0 where "c0 = ?c\<lparr>clk_heap := clk_heap ?c @ [NewCommitInfo 0]\<rparr>"
  define s0 where "s0 = \<lparr>sys_clock = c0, sys_done = sys_done s\<rparr>"
  have claim: "reg_claim (length (clk_heap ?c)) c0 = Some (c', t)"
    using run by (auto simp: NextCommitTS_def AllocateFor_def new_record_def c0_def)
  have s0: "sys_inv s0 \<and> sys_move s s0"
    using step_new_record [OF inv, of 0 c0 "clk_txSeq ?c"] by (simp add: s0_def c0_def)
  have "sys_inv s' \<and> sys_move s0 s' \<and> t = clk_commit ?c + 1"
    using step_claim [of s0 "length (clk_heap ?c)" c' t] s0 room claim
    by (auto simp: s0_def s'_def c0_def NewCommitInfo_def)
  then show ?thesis using s0 sys_move_trans by blast
qed

lemma sys_step_keeps:
  assumes "sys_inv s" and "sys_step s s'"
  shows "sys_inv s' \<and> sys_move s s'"
  using assms(2,1)
proof (induction rule: sys_step.induct)
  case (begin_tx s k c1 i c2 a)
  then show ?case
    using next_id_spec [OF begin_tx(2,1)] step_new_record [OF begin_tx(4), of i c2 "clk_txSeq (sys_clock s) + 1"]
    by (auto simp: new_record_def)
next
  case (allocate a s rdy c' t)
  then show ?case using step_allocate by auto
next
  case (allocate_anonymous s c' t)
  then show ?case using step_anonymous by auto
next
  case (mark_ready a s)
  then have "rec_ok (sys_done s) (clk_visible (sys_clock s)) (MarkReady (clk_heap (sys_clock s) ! a))"
    using sys_invD(3) [OF mark_ready(4,1)] by (auto simp: rec_ok_def MarkReady_def in_flight_def)
  then show ?case
    using step_upd_rec [OF mark_ready(4,1), of MarkReady] by (simp add: MarkReady_def)
next
  case (commit_record a s t)
  let ?r = "clk_heap (sys_clock s) ! a" and ?v = "clk_visible (sys_clock s)"
  note ok = sys_invD(3) [OF commit_record(5,1), unfolded rec_ok_def]
  have tb: "t < TxIDBase"
    using clock_invD(2,5) [OF sys_invD(1) [OF commit_record(5)]] commit_record(1,2)
    by (metis order.strict_trans1)
  have above: "?v < t" if "in_flight ?r"
    using ok that commit_record(2-4) tb by (auto simp: in_flight_def not_less [symmetric])
  have "rec_ok (sys_done s) ?v (Commit t ?r)"
    using ok commit_record(2-4) above
    by (auto simp: rec_ok_def Commit_def stamp_cases in_flight_def)
  moreover have "ts_move ?v (ci_ts ?r) (ci_ts (Commit t ?r))"
    using above tb by (auto simp: ts_move_def Commit_def stamp_cases in_flight_def)
  ultimately show ?case
    using step_upd_rec [OF commit_record(5,1), of "Commit t"] by (simp add: Commit_def)
next
  case (publish a s t own c')
  then show ?case using step_finish [OF publish(7,3,1,2,5)] by (simp add: PublishCommit_def)
next
  case (abandon a s t own c')
  then show ?case using step_finish [OF abandon(8,3,1,2,6)] by (simp add: AbandonCommit_def)
next
  case (abort_tx a s)
  then have "rec_ok (sys_done s) (clk_visible (sys_clock s)) (Abort (clk_heap (sys_clock s) ! a))"
    using sys_invD(3) [OF abort_tx(4,1)] by (auto simp: rec_ok_def Abort_def)
  with abort_tx show ?case
    using step_upd_rec [OF abort_tx(4,1), of Abort] by (simp add: Abort_def ts_move_def)
next
  case (recover s f c' t)
  then show ?case using step_recover [OF recover(4,1,2,3)] by simp
qed

subsection \<open>Reachable states\<close>

definition reachable :: "mvcc_sys \<Rightarrow> bool" where
  "reachable s \<longleftrightarrow> sys_step\<^sup>*\<^sup>* init_sys s"

lemma init_inv: "sys_inv init_sys"
  by (auto simp: init_sys_def sys_inv_def new_clock_def clock_inv_def settled_def slot_ok_def
      marked_def lap_linked_def intro: exI [of _ "[]"])

lemma steps_keep:
  assumes "sys_step\<^sup>*\<^sup>* s s'" and "sys_inv s"
  shows "sys_inv s' \<and> sys_move s s'"
  using assms(1)
proof induction
  case base
  then show ?case using assms(2) by simp
next
  case (step s1 s2)
  then show ?case using sys_step_keeps [of s1 s2] sys_move_trans by blast
qed

lemma reachable_inv: "reachable s \<Longrightarrow> sys_inv s"
  using steps_keep init_inv by (auto simp: reachable_def)

text \<open>A small run for the witnesses: one transaction begins, commits and is published.\<close>

definition demo_rec :: CommitInfo where
  "demo_rec = \<lparr>ci_ts = 1, ci_claim = 1, ci_ready = True, ci_finished = finishedNone, ci_older = None\<rparr>"

definition demo :: mvcc_sys where
  "demo = \<lparr>sys_clock = \<lparr>reg_slots = (\<lambda>_. None)(1 := Some 0), reg_outOfOrder = 0, reg_helped = 0,
     reg_chained = 0, reg_pending = 0, reg_linked = 0, clk_commit = 1, clk_visible = 1, clk_txSeq = 1,
     clk_waiters = 0, clk_wait = 0, clk_heap = [demo_rec]\<rparr>, sys_done = {1}\<rparr>"

lemma slot_of_1: "slot_of 1 = 1"
  by (simp add: slot_of_def registryMask_def registrySlots_def)

text \<open>The state before the publication.\<close>

definition demo_stamped :: mvcc_sys where
  "demo_stamped = \<lparr>sys_clock = (sys_clock demo)\<lparr>clk_visible := 0\<rparr>, sys_done = {}\<rparr>"

lemma demo_stamped_reachable: "reachable demo_stamped"
proof -
  define c1 where "c1 = new_clock\<lparr>clk_txSeq := 1, clk_heap := [NewCommitInfo (TxIDBase + 1)]\<rparr>"
  define c2 where "c2 = c1\<lparr>reg_slots := (\<lambda>_. None)(1 := Some 0), clk_commit := 1,
    clk_heap := [(NewCommitInfo (TxIDBase + 1))\<lparr>ci_ready := True, ci_claim := 1\<rparr>]\<rparr>"
  have "sys_step init_sys \<lparr>sys_clock = c1, sys_done = {}\<rparr>"
    using sys_step.begin_tx [of init_sys ExplicitTx _ _ c1 0]
    by (simp add: init_sys_def next_id_def NextTxID_def new_record_def c1_def new_clock_def)
  moreover have "sys_step \<lparr>sys_clock = c1, sys_done = {}\<rparr> \<lparr>sys_clock = c2, sys_done = {}\<rparr>"
    using sys_step.allocate [of 0 "\<lparr>sys_clock = c1, sys_done = {}\<rparr>" True c2 1]
    by (simp add: c1_def c2_def in_flight_def AllocateFor_def reg_claim.simps claim_install_def
        new_clock_def NewCommitInfo_def upd_rec_def MarkReady_def slot_of_1 TxIDBase_eq AbortedTS_eq)
  moreover have "sys_step \<lparr>sys_clock = c2, sys_done = {}\<rparr> demo_stamped"
    using sys_step.commit_record [of 0 "\<lparr>sys_clock = c2, sys_done = {}\<rparr>" 1]
    by (simp add: demo_stamped_def demo_def c2_def c1_def new_clock_def NewCommitInfo_def upd_rec_def Commit_def stamp_def
        TxIDBase_eq AbortedTS_eq demo_rec_def)
  ultimately show ?thesis unfolding reachable_def by (meson rtranclp.rtrancl_into_rtrancl rtranclp.rtrancl_refl)
qed

lemma demo_reachable: "reachable demo"
proof -
  have "sys_step demo_stamped demo"
    using sys_step.publish [of 0 demo_stamped 1 None "sys_clock demo"]
    by (simp add: demo_stamped_def demo_def demo_rec_def PublishCommit_def finishCommitTS_def
        finish_in_order_def publish_in_order_def wake_if_waiting_def)
  with demo_stamped_reachable show ?thesis unfolding reachable_def by (rule rtranclp.rtrancl_into_rtrancl)
qed

subsection \<open>Properties\<close>

text \<open>
  Property C7. The instant a reader starts at never passes a commit in flight: every record
  whose commit timestamp is at or below \<open>ReadTS\<close> has been published or abandoned by its owner,
  or was ready and already carries exactly that timestamp.
\<close>

theorem mvcc_frontier_passes_no_commit_in_flight:
  assumes "reachable s" and "r \<in> set (clk_heap (sys_clock s))" and "ci_claim r \<noteq> 0"
    and "ci_claim r \<le> ReadTS (sys_clock s)"
  shows "ci_claim r \<in> sys_done s \<or> ci_ready r \<and> ci_ts r = ci_claim r"
  using reachable_inv [OF assms(1)] assms(2-4) by (auto simp: sys_inv_def rec_ok_def ReadTS_def)

theorem mvcc_frontier_passes_no_commit_in_flight_witness:
  "ci_claim demo_rec \<in> sys_done demo \<or> ci_ready demo_rec \<and> ci_ts demo_rec = ci_claim demo_rec"
  by (rule mvcc_frontier_passes_no_commit_in_flight [OF demo_reachable])
    (simp_all add: demo_def demo_rec_def ReadTS_def)

lemma frontier_gap:
  assumes "sys_inv s" and "clk_visible (sys_clock s) < t"
  shows "\<exists>k. clk_visible (sys_clock s) < k \<and> k \<le> t \<and> k \<notin> sys_done s"
proof -
  let ?c = "sys_clock s"
  note I = sys_invD [OF assms(1)]
  note D = clock_invD [OF I(1)]
  have "clk_visible ?c + 1 \<notin> sys_done s"
  proof
    assume k: "clk_visible ?c + 1 \<in> sys_done s"
    from I(6) [OF k] I(2) show False
      using less_Suc_ts [OF D(3)] by (auto simp: recorded_def settled_def not_le [symmetric])
  qed
  then show ?thesis using assms(2) Suc_ts_le_iff [OF D(3), of t] less_Suc_ts [OF D(3)] by blast
qed

text \<open>
  Property C15. No published commit is left behind: the frontier never exceeds the newest
  allocated timestamp, and whenever it is below an allocated timestamp \<open>t\<close>, some timestamp up
  to \<open>t\<close> is still unfinished.
\<close>

theorem mvcc_frontier_exact:
  assumes "reachable s"
  shows "ReadTS (sys_clock s) \<le> Allocated (sys_clock s) \<and>
    (\<forall>t. ReadTS (sys_clock s) < t \<and> t \<le> Allocated (sys_clock s) \<longrightarrow>
       (\<exists>k. ReadTS (sys_clock s) < k \<and> k \<le> t \<and> k \<notin> sys_done s))"
proof -
  note inv = reachable_inv [OF assms]
  show ?thesis
    using clock_invD(1) [OF sys_invD(1) [OF inv]] frontier_gap [OF inv] by (simp add: ReadTS_def Allocated_def)
qed

theorem mvcc_frontier_exact_witness: "ReadTS (sys_clock demo) \<le> Allocated (sys_clock demo)"
  using mvcc_frontier_exact [OF demo_reachable] by blast

text \<open>
  Property C3. Snapshots are stable: whatever the transactions do after a reader took its
  start \<open>startTS\<close> from the clock, every commit record that existed then and is not the reader's
  own stays visible or stays invisible to it, and no record created since becomes visible
  (other than the empty records that stand for untransacted writes, which no version carries).
\<close>

theorem mvcc_snapshot_stable:
  assumes "reachable s" and "sys_step\<^sup>*\<^sup>* s s'" and "startTS = ReadTS (sys_clock s)"
    and "TxIDBase \<le> txID" and "txID \<noteq> AbortedTS"
    and "a < length (clk_heap (sys_clock s'))"
    and "ci_ts (clk_heap (sys_clock s') ! a) \<noteq> txID"
  shows "if a < length (clk_heap (sys_clock s))
     then ci_ts (clk_heap (sys_clock s) ! a) \<noteq> txID \<longrightarrow>
          Visible (TS (clk_heap (sys_clock s') ! a)) startTS txID =
          Visible (TS (clk_heap (sys_clock s) ! a)) startTS txID
     else TS (clk_heap (sys_clock s') ! a) \<noteq> 0 \<longrightarrow>
          \<not> Visible (TS (clk_heap (sys_clock s') ! a)) startTS txID"
proof -
  have "sys_move s s'" using steps_keep [OF assms(2) reachable_inv [OF assms(1)]] by simp
  then have old: "a < length (clk_heap (sys_clock s)) \<Longrightarrow>
      ts_move startTS (ci_ts (clk_heap (sys_clock s) ! a)) (ci_ts (clk_heap (sys_clock s') ! a))"
    and new: "\<not> a < length (clk_heap (sys_clock s)) \<Longrightarrow> TxIDBase \<le> ci_ts (clk_heap (sys_clock s') ! a)
      \<or> ci_ts (clk_heap (sys_clock s') ! a) = 0 \<or> startTS < ci_ts (clk_heap (sys_clock s') ! a)"
    using assms(3,6) by (auto simp: sys_move_def ReadTS_def)
  show ?thesis
    using old new assms(5,7) by (auto simp: ts_move_def Visible_def TS_def)
qed

theorem mvcc_snapshot_stable_witness: "\<not> Visible (TS demo_rec) 0 (TxIDBase + 5)"
proof -
  have "reachable init_sys" "sys_step\<^sup>*\<^sup>* init_sys demo"
    using demo_reachable by (simp_all add: reachable_def)
  from mvcc_snapshot_stable [OF this, of 0 "TxIDBase + 5" 0] show ?thesis
    by (simp add: init_sys_def new_clock_def demo_def demo_rec_def ReadTS_def TxIDBase_eq AbortedTS_eq TS_def)
qed

text \<open>
  The loops of the clock's methods end: in every reachable state, allocating for a record that
  holds no timestamp returns the next timestamp and registers it, allocating again for a
  registered record panics, and publishing any allocated timestamp returns with the timestamp
  passed or marked finished.
\<close>

theorem mvcc_operations_return:
  assumes "reachable s" and "a < length (clk_heap (sys_clock s))"
    and "clk_commit (sys_clock s) + 1 < TxIDBase"
  shows "if ci_claim (clk_heap (sys_clock s) ! a) = 0
     then \<exists>c'. AllocateFor (Some a) False (sys_clock s) = Some (Inr (c', Allocated (sys_clock s) + 1))
            \<and> ci_claim (clk_heap c' ! a) = Allocated (sys_clock s) + 1
     else AllocateFor (Some a) False (sys_clock s) =
            Some (Inl (RecordAlreadyRegistered (ci_claim (clk_heap (sys_clock s) ! a))))
          \<and> (\<exists>c'. PublishCommit (Some a) (ci_claim (clk_heap (sys_clock s) ! a)) (sys_clock s) = Some c'
               \<and> ReadTS (sys_clock s) \<le> ReadTS c' \<and> recorded (ci_claim (clk_heap (sys_clock s) ! a)) c')"
proof (cases "ci_claim (clk_heap (sys_clock s) ! a) = 0")
  case True
  note I = sys_invD [OF reachable_inv [OF assms(1)]]
  note C = reg_claim_spec [OF I(1,2) assms(2) True assms(3)]
  have "AllocateFor (Some a) False (sys_clock s) =
      Some (Inr (claim_install a (clk_commit (sys_clock s) + 1) (sys_clock s), Allocated (sys_clock s) + 1))"
    using True C(1) by (simp add: AllocateFor_def Allocated_def)
  with True assms(2) C(4) show ?thesis by (simp add: Allocated_def)
next
  case False
  let ?t = "ci_claim (clk_heap (sys_clock s) ! a)"
  note I = sys_invD [OF reachable_inv [OF assms(1)]]
  have "valid_own (Some a) (sys_clock s)" using assms(2) by (simp add: valid_own_def)
  from finishCommitTS_spec [OF I(1,2) this _ clock_invD(5) [OF I(1) assms(2)]] False obtain c' where
    "finishCommitTS ?t (Some a) (sys_clock s) = Some c'" "frontier_move {?t} (sys_clock s) c'" "recorded ?t c'"
    by (auto simp: word_neq_0_conv)
  with False show ?thesis
    by (auto simp: AllocateFor_def PublishCommit_def ReadTS_def frontier_move_def)
qed

theorem mvcc_operations_return_witness:
  "AllocateFor (Some 0) False (sys_clock demo) = Some (Inl (RecordAlreadyRegistered 1))"
proof -
  have "0 < length (clk_heap (sys_clock demo))" "clk_commit (sys_clock demo) + 1 < TxIDBase"
    "ci_claim (clk_heap (sys_clock demo) ! 0) = 1"
    by (simp_all add: demo_def demo_rec_def TxIDBase_eq)
  with mvcc_operations_return [OF demo_reachable this(1,2)] show ?thesis by simp
qed

text \<open>
  The ids of the three kinds of transaction live above \<open>TxIDBase\<close>, are never
  \<open>AbortedTS\<close>, are told apart exactly by \<open>IsImplicitTx\<close> and \<open>IsBoundedTx\<close>, and two ids drawn
  from different numbers or kinds are different.
\<close>

theorem mvcc_transaction_ids:
  assumes "unat (clk_txSeq c) + 1 < 2 ^ 61" and "unat (clk_txSeq c') + 1 < 2 ^ 61"
    and "i = snd (next_id k c)" and "j = snd (next_id k' c')"
  shows "TxIDBase \<le> i \<and> i \<noteq> AbortedTS \<and> IsImplicitTx i = (k = ImplicitTx) \<and>
    IsBoundedTx i = (k = BoundedTx) \<and> (i = j \<longrightarrow> k = k' \<and> clk_txSeq c = clk_txSeq c')"
proof -
  have n: "unat (clk_txSeq c + 1) < 2 ^ 61" "unat (clk_txSeq c' + 1) < 2 ^ 61"
    using assms(1,2) by (simp_all add: unat_word_ariths mod_less)
  have bits: "bit i x \<longleftrightarrow> x = 63 \<or> k = ImplicitTx \<and> x = 62 \<or> k = BoundedTx \<and> x = 61 \<or> bit (clk_txSeq c + 1) x"
    "bit j x \<longleftrightarrow> x = 63 \<or> k' = ImplicitTx \<and> x = 62 \<or> k' = BoundedTx \<and> x = 61 \<or> bit (clk_txSeq c' + 1) x" for x
    unfolding assms(3,4) using bit_txids [OF n(1), of x] bit_txids [OF n(2), of x]
    by (cases k; cases k'; auto simp: next_id_def NextTxID_def NextImplicitTxID_def NextBoundedTxID_def)+
  note high = no_high_bit [OF n(1)] no_high_bit [OF n(2)]
  have base: "TxIDBase \<le> i" "i \<noteq> AbortedTS"
    using bits(1) [of 63] bits(1) [of 61] bits(1) [of 62] high(1) [of 61] high(1) [of 62]
      AbortedTS_bits [of i 61] AbortedTS_bits [of i 62]
    by (auto simp: ge_TxIDBase_iff_bit)
  moreover have "IsImplicitTx i = (k = ImplicitTx)" "IsBoundedTx i = (k = BoundedTx)"
    using base bits(1) high(1) by (auto simp: IsImplicitTx_def IsBoundedTx_def)
  moreover have "k = k' \<and> clk_txSeq c = clk_txSeq c'" if "i = j"
  proof
    show "k = k'"
      using that bits [of 62] bits [of 61] high [of 62] high [of 61] by (cases k; cases k') auto
    have "bit (clk_txSeq c + 1) x = bit (clk_txSeq c' + 1) x" for x
      using bits [of x] \<open>i = j\<close> \<open>k = k'\<close> high [of x] by (cases "61 \<le> x") auto
    then have "clk_txSeq c + 1 = clk_txSeq c' + 1" by (intro bit_word_eqI) simp
    then show "clk_txSeq c = clk_txSeq c'" by simp
  qed
  ultimately show ?thesis by blast
qed

theorem mvcc_transaction_ids_witness: "IsImplicitTx (snd (NextImplicitTxID new_clock))"
  using mvcc_transaction_ids [of new_clock new_clock _ ImplicitTx _ ImplicitTx]
  by (simp add: new_clock_def next_id_def)

end
