(* ===== verification/Mvcc_Await.thy ===== *)
theory Mvcc_Await
  imports Mvcc_System
begin

text \<open>
  Waiting for the frontier (\<open>graph/mvcc/await.go\<close>): \<open>AwaitVisible\<close> and \<open>AwaitQuiescent\<close>, run by any
  number of goroutines, one atomic operation of theirs per step, beside the transactions of
  \<open>Mvcc_System\<close>. A publication takes the steps that matter to them: it moves the frontier, then loads
  the number of waiters, then swaps the broadcast channel, then closes the old one; anything may happen
  between two of them. A channel is the number of its generation (\<open>clk_wait\<close> is the current one), so a
  channel not yet installed is generation 0. A caller of \<open>AwaitVisible\<close> passes an instant that was
  allocated, as the code's callers do (their own commit, or the counter itself).
\<close>

subsection \<open>Callers\<close>

text \<open>Where a caller is: before the fast path, before it is counted, before it takes the channel, holding
  the channel before it re-reads the frontier, blocked in the select, before it is counted out, back. The
  flag says that the answer is nil and not the error of the context. The two last are the loop of
  \<open>AwaitQuiescent\<close>.\<close>

datatype await_pc =
    AwCall | AwRegister | AwGate | AwCheck nat | AwParked nat | AwLeave bool | AwReturned bool
  | AwQuiesce | AwQuiesceCheck

record caller =
  cl_floor :: u64
  cl_quiesce :: bool
  cl_pc :: await_pc

definition gate :: "Clock \<Rightarrow> nat" where
  "gate c = clk_wait c"

definition AwaitingVisible :: "Clock \<Rightarrow> int" where
  "AwaitingVisible c = clk_waiters c"

text \<open>What follows the return of \<open>AwaitVisible\<close>.\<close>

definition await_return :: "bool \<Rightarrow> caller \<Rightarrow> caller" where
  "await_return ok k = k\<lparr>cl_pc := (if ok \<and> cl_quiesce k then AwQuiesce else AwReturned ok)\<rparr>"

text \<open>One atomic operation of \<open>AwaitVisible\<close>; \<open>closed\<close> tells the channels that are closed, \<open>ctx\<close> that
  the select takes the context's branch. \<open>None\<close>: the caller is blocked, or has returned.\<close>

fun AwaitVisible :: "(nat \<Rightarrow> bool) \<Rightarrow> bool \<Rightarrow> caller \<Rightarrow> Clock \<Rightarrow> await_pc \<Rightarrow> (caller \<times> Clock) option" where
  "AwaitVisible closed ctx k c AwCall =
     Some (if cl_floor k = 0 \<or> clk_visible c \<ge> cl_floor k then await_return True k else k\<lparr>cl_pc := AwRegister\<rparr>, c)"
| "AwaitVisible closed ctx k c AwRegister = Some (k\<lparr>cl_pc := AwGate\<rparr>, c\<lparr>clk_waiters := clk_waiters c + 1\<rparr>)"
| "AwaitVisible closed ctx k c AwGate = Some (k\<lparr>cl_pc := AwCheck (gate c)\<rparr>, c)"
| "AwaitVisible closed ctx k c (AwCheck g) =
     Some (k\<lparr>cl_pc := (if clk_visible c \<ge> cl_floor k then AwLeave True else AwParked g)\<rparr>, c)"
| "AwaitVisible closed ctx k c (AwParked g) =
     (if ctx then Some (k\<lparr>cl_pc := AwLeave False\<rparr>, c)
      else if closed g then Some (k\<lparr>cl_pc := AwGate\<rparr>, c)
      else None)"
| "AwaitVisible closed ctx k c (AwLeave ok) = Some (await_return ok k, c\<lparr>clk_waiters := clk_waiters c - 1\<rparr>)"
| "AwaitVisible closed ctx k c _ = None"

text \<open>The loop of \<open>AwaitQuiescent\<close>: the counter is read first, then the frontier.\<close>

fun AwaitQuiescent :: "caller \<Rightarrow> Clock \<Rightarrow> await_pc \<Rightarrow> (caller \<times> Clock) option" where
  "AwaitQuiescent k c AwQuiesce = Some (k\<lparr>cl_floor := clk_commit c, cl_pc := AwQuiesceCheck\<rparr>, c)"
| "AwaitQuiescent k c AwQuiesceCheck =
     Some (k\<lparr>cl_pc := (if clk_visible c \<ge> cl_floor k then AwReturned True else AwCall)\<rparr>, c)"
| "AwaitQuiescent k c _ = None"

definition await_step :: "(nat \<Rightarrow> bool) \<Rightarrow> bool \<Rightarrow> caller \<Rightarrow> Clock \<Rightarrow> (caller \<times> Clock) option" where
  "await_step closed ctx k c =
     (if cl_pc k = AwQuiesce \<or> cl_pc k = AwQuiesceCheck then AwaitQuiescent k c (cl_pc k)
      else AwaitVisible closed ctx k c (cl_pc k))"

subsection \<open>The system\<close>

text \<open>Publications that have moved the frontier and not yet loaded the number of waiters, those that have
  found some and not yet swapped the channel, and the channels swapped out and not yet closed.\<close>

record await_sys =
  aw_sys :: mvcc_sys
  aw_callers :: "caller list"
  aw_owed :: nat
  aw_swapping :: nat
  aw_closing :: "nat list"

abbreviation aw_clock :: "await_sys \<Rightarrow> Clock" where
  "aw_clock s \<equiv> sys_clock (aw_sys s)"

definition aw_with_clock :: "Clock \<Rightarrow> await_sys \<Rightarrow> await_sys" where
  "aw_with_clock c s = s\<lparr>aw_sys := (aw_sys s)\<lparr>sys_clock := c\<rparr>\<rparr>"

definition aw_closed :: "await_sys \<Rightarrow> nat \<Rightarrow> bool" where
  "aw_closed s g \<longleftrightarrow> g < clk_wait (aw_clock s) \<and> g \<notin> set (aw_closing s)"

definition aw_init :: await_sys where
  "aw_init = \<lparr>aw_sys = init_sys, aw_callers = [], aw_owed = 0, aw_swapping = 0, aw_closing = []\<rparr>"

text \<open>The owner of \<open>t\<close> may publish or abandon it, as in \<open>sys_step\<close>.\<close>

definition may_finish :: "mvcc_sys \<Rightarrow> nat \<Rightarrow> u64 \<Rightarrow> bool" where
  "may_finish s a t \<longleftrightarrow> a < length (clk_heap (sys_clock s)) \<and> t = ci_claim (clk_heap (sys_clock s) ! a) \<and> t \<noteq> 0 \<and>
     (ci_ts (clk_heap (sys_clock s) ! a) \<in> {t, 0} \<or>
      TxIDBase \<le> ci_ts (clk_heap (sys_clock s) ! a) \<and> \<not> ci_ready (clk_heap (sys_clock s) ! a))"

lemma may_finishD:
  assumes "may_finish s a t"
  shows "a < length (clk_heap (sys_clock s))" "t = ci_claim (clk_heap (sys_clock s) ! a)" "t \<noteq> 0"
  using assms by (auto simp: may_finish_def)

inductive aw_step :: "await_sys \<Rightarrow> await_sys \<Rightarrow> bool" where
  clock: "sys_step (aw_sys s) u \<Longrightarrow> aw_step s (s\<lparr>aw_sys := u\<rparr>)"
| finish: "may_finish (aw_sys s) a t \<Longrightarrow> own \<in> {None, Some a} \<Longrightarrow>
     finish_frontier t own (aw_clock s) = Some (c', moved) \<Longrightarrow>
     aw_step s (s\<lparr>aw_sys := \<lparr>sys_clock = c', sys_done = insert t (sys_done (aw_sys s))\<rparr>,
       aw_owed := aw_owed s + (if moved then 1 else 0)\<rparr>)"
| load_waiters: "0 < aw_owed s \<Longrightarrow>
     aw_step s (s\<lparr>aw_owed := aw_owed s - 1,
       aw_swapping := aw_swapping s + (if clk_waiters (aw_clock s) > 0 then 1 else 0)\<rparr>)"
| swap: "0 < aw_swapping s \<Longrightarrow>
     aw_step s ((aw_with_clock (wakeWaiters (aw_clock s)) s)
       \<lparr>aw_swapping := aw_swapping s - 1, aw_closing := gate (aw_clock s) # aw_closing s\<rparr>)"
| close: "g \<in> set (aw_closing s) \<Longrightarrow> aw_step s (s\<lparr>aw_closing := remove1 g (aw_closing s)\<rparr>)"
| call_visible: "floor_ts \<le> clk_commit (aw_clock s) \<Longrightarrow>
     aw_step s (s\<lparr>aw_callers := aw_callers s @ [\<lparr>cl_floor = floor_ts, cl_quiesce = False, cl_pc = AwCall\<rparr>]\<rparr>)"
| call_quiescent:
    "aw_step s (s\<lparr>aw_callers := aw_callers s @ [\<lparr>cl_floor = 0, cl_quiesce = True, cl_pc = AwQuiesce\<rparr>]\<rparr>)"
| turn: "i < length (aw_callers s) \<Longrightarrow> await_step (aw_closed s) ctx (aw_callers s ! i) (aw_clock s) = Some (k', c') \<Longrightarrow>
     aw_step s ((aw_with_clock c' s)\<lparr>aw_callers := (aw_callers s)[i := k']\<rparr>)"

definition aw_reachable :: "await_sys \<Rightarrow> bool" where
  "aw_reachable s \<longleftrightarrow> aw_step\<^sup>*\<^sup>* aw_init s"

text \<open>A caller run alone, its context not done.\<close>

definition caller_turn :: "nat \<Rightarrow> await_sys \<Rightarrow> await_sys" where
  "caller_turn i s =
     (case await_step (aw_closed s) False (aw_callers s ! i) (aw_clock s) of
        None \<Rightarrow> s
      | Some (k', c') \<Rightarrow> (aw_with_clock c' s)\<lparr>aw_callers := (aw_callers s)[i := k']\<rparr>)"

subsection \<open>The invariant\<close>

fun registered :: "await_pc \<Rightarrow> bool" where
  "registered AwGate = True"
| "registered (AwCheck g) = True"
| "registered (AwParked g) = True"
| "registered (AwLeave ok) = True"
| "registered _ = False"

text \<open>Some publication will still close generation \<open>g\<close>.\<close>

definition wake_owed :: "await_sys \<Rightarrow> nat \<Rightarrow> bool" where
  "wake_owed s g \<longleftrightarrow> g \<in> set (aw_closing s) \<or> 0 < aw_owed s \<or> 0 < aw_swapping s"

definition pc_ok :: "await_sys \<Rightarrow> u64 \<Rightarrow> await_pc \<Rightarrow> bool" where
  "pc_ok s f pc \<longleftrightarrow> (case pc of
     AwCheck g \<Rightarrow> g \<le> clk_wait (aw_clock s)
   | AwParked g \<Rightarrow> g \<le> clk_wait (aw_clock s) \<and> (f \<le> clk_visible (aw_clock s) \<longrightarrow> aw_closed s g \<or> wake_owed s g)
   | AwLeave ok \<Rightarrow> ok \<longrightarrow> f \<le> clk_visible (aw_clock s)
   | AwReturned ok \<Rightarrow> ok \<longrightarrow> f \<le> clk_visible (aw_clock s)
   | _ \<Rightarrow> True)"

text \<open>Only a caller of \<open>AwaitQuiescent\<close> is in its loop.\<close>

definition kind_ok :: "caller \<Rightarrow> bool" where
  "kind_ok k \<longleftrightarrow> (cl_pc k = AwQuiesce \<or> cl_pc k = AwQuiesceCheck \<longrightarrow> cl_quiesce k)"

definition caller_ok :: "await_sys \<Rightarrow> caller \<Rightarrow> bool" where
  "caller_ok s k \<longleftrightarrow> cl_floor k \<le> clk_commit (aw_clock s) \<and> kind_ok k \<and> pc_ok s (cl_floor k) (cl_pc k)"

definition aw_inv :: "await_sys \<Rightarrow> bool" where
  "aw_inv s \<longleftrightarrow> sys_inv (aw_sys s)
     \<and> clk_waiters (aw_clock s) = int (length (filter (\<lambda>k. registered (cl_pc k)) (aw_callers s)))
     \<and> (\<forall>g\<in>set (aw_closing s). g < clk_wait (aw_clock s))
     \<and> (\<forall>k\<in>set (aw_callers s). caller_ok s k)"

lemma sys_eta [simp]: "\<lparr>sys_clock = sys_clock u, sys_done = sys_done u\<rparr> = (u :: mvcc_sys)"
  by simp

text \<open>The invariant of the transactions does not see the channel and the number of waiters.\<close>

lemma sys_inv_channel:
  "sys_inv (u\<lparr>sys_clock := c\<lparr>clk_waiters := n\<rparr>\<rparr>) \<longleftrightarrow> sys_inv (u\<lparr>sys_clock := c\<rparr>)"
  "sys_inv (u\<lparr>sys_clock := c\<lparr>clk_wait := m\<rparr>\<rparr>) \<longleftrightarrow> sys_inv (u\<lparr>sys_clock := c\<rparr>)"
  by (simp_all add: sys_inv_def clock_inv_def settled_def recorded_def)

subsection \<open>Steps of the clock\<close>

text \<open>What a step of the transactions means to a caller: the frontier and the counter only grow, and a
  frontier that grows under a waiter brings a new channel, unless all that was allocated was visible
  already.\<close>

definition waits_kept :: "Clock \<Rightarrow> Clock \<Rightarrow> bool" where
  "waits_kept c c' \<longleftrightarrow> clk_waiters c' = clk_waiters c \<and> clk_wait c \<le> clk_wait c' \<and> clk_commit c \<le> clk_commit c' \<and>
     clk_visible c \<le> clk_visible c' \<and>
     (clk_visible c < clk_visible c' \<and> 0 < clk_waiters c \<longrightarrow> clk_wait c < clk_wait c' \<or> clk_visible c = clk_commit c)"

lemma waits_kept_same:
  "clk_waiters c' = clk_waiters c \<Longrightarrow> clk_wait c' = clk_wait c \<Longrightarrow> clk_commit c \<le> clk_commit c' \<Longrightarrow>
     clk_visible c' = clk_visible c \<Longrightarrow> waits_kept c c'"
  by (simp add: waits_kept_def)

lemma claim_waits:
  assumes "sys_inv u" "a < length (clk_heap (sys_clock u))" "ci_claim (clk_heap (sys_clock u) ! a) = 0"
    "clk_commit (sys_clock u) + 1 < TxIDBase" "reg_claim a (sys_clock u) = Some (c', t)"
  shows "waits_kept (sys_clock u) c'"
proof -
  note I = sys_invD [OF assms(1)]
  note C = reg_claim_spec [OF I(1,2) assms(2-4)]
  have c': "c' = claim_install a (clk_commit (sys_clock u) + 1) (sys_clock u)" using C(1) assms(5) by simp
  show ?thesis
    unfolding c' by (rule waits_kept_same) (use C less_Suc_ts [OF clock_invD(2) [OF I(1)]] in \<open>simp_all add: less_imp_le\<close>)
qed

lemma finish_waits:
  assumes inv: "sys_inv u" and a: "a < length (clk_heap (sys_clock u))" "t = ci_claim (clk_heap (sys_clock u) ! a)" "t \<noteq> 0"
    and own: "own \<in> {None, Some a}"
  shows "finishCommitTS t own (sys_clock u) = Some c' \<Longrightarrow> waits_kept (sys_clock u) c'"
    "finish_frontier t own (sys_clock u) = Some (c', m) \<Longrightarrow> frontier_move {t} (sys_clock u) c' \<and>
       clk_wait c' = clk_wait (sys_clock u) \<and> (clk_visible (sys_clock u) < clk_visible c' \<longrightarrow> m)"
proof -
  note I = sys_invD [OF inv]
  have tc: "t \<le> clk_commit (sys_clock u)" using clock_invD(5) [OF I(1) a(1)] a(2) by simp
  have v: "valid_own own (sys_clock u)" using own a(1) by (auto simp: valid_own_def)
  have t: "0 < t" using a(3) by (simp add: word_neq_0_conv)
  show "finishCommitTS t own (sys_clock u) = Some c' \<Longrightarrow> waits_kept (sys_clock u) c'"
    using finishCommitTS_spec [OF I(1,2) v t tc] by (auto simp: waits_kept_def frontier_move_def)
  show "finish_frontier t own (sys_clock u) = Some (c', m) \<Longrightarrow> frontier_move {t} (sys_clock u) c' \<and>
       clk_wait c' = clk_wait (sys_clock u) \<and> (clk_visible (sys_clock u) < clk_visible c' \<longrightarrow> m)"
    using finish_frontier_spec [OF I(1,2) v t tc] by auto
qed

lemma sys_step_waits:
  assumes inv: "sys_inv u" and step: "sys_step u u'"
  shows "waits_kept (sys_clock u) (sys_clock u')"
  using step
proof cases
  case (begin_tx k c1 i c2 a)
  then show ?thesis using next_id_spec [OF begin_tx(3,2)] by (auto simp: new_record_def intro!: waits_kept_same)
next
  case (allocate a rdy c' t)
  let ?c = "sys_clock u"
  define c0 where "c0 = (if rdy then upd_rec a MarkReady ?c else ?c)"
  have fresh: "ci_claim (clk_heap ?c ! a) = 0" and claim: "reg_claim a c0 = Some (c', t)"
    using allocate(5) by (auto simp: AllocateFor_def c0_def split: if_splits)
  have "sys_step u \<lparr>sys_clock = c0, sys_done = sys_done u\<rparr> \<or> c0 = ?c"
    using sys_step.mark_ready [OF allocate(2,3)] sys_invD(4) [OF inv, of 0] fresh by (auto simp: c0_def)
  then have "sys_inv \<lparr>sys_clock = c0, sys_done = sys_done u\<rparr>"
    using sys_step_keeps [OF inv] inv by auto
  moreover have "a < length (clk_heap c0)" "ci_claim (clk_heap c0 ! a) = 0" "clk_commit c0 = clk_commit ?c"
    using allocate(2) fresh by (auto simp: c0_def upd_rec_nth MarkReady_def)
  ultimately have "waits_kept c0 c'"
    using claim_waits [of "\<lparr>sys_clock = c0, sys_done = sys_done u\<rparr>" a c' t] claim allocate(4) by simp
  then show ?thesis using allocate(1) by (auto simp: c0_def waits_kept_def split: if_splits)
next
  case (allocate_anonymous c' t)
  let ?c = "sys_clock u"
  define c0 where "c0 = ?c\<lparr>clk_heap := clk_heap ?c @ [NewCommitInfo 0]\<rparr>"
  have claim: "reg_claim (length (clk_heap ?c)) c0 = Some (c', t)"
    using allocate_anonymous(3) by (auto simp: NextCommitTS_def AllocateFor_def new_record_def c0_def)
  have "sys_inv \<lparr>sys_clock = c0, sys_done = sys_done u\<rparr>"
    using step_new_record [OF inv, of 0 c0 "clk_txSeq ?c"] by (simp add: c0_def)
  then have "waits_kept c0 c'"
    using claim_waits [of "\<lparr>sys_clock = c0, sys_done = sys_done u\<rparr>" "length (clk_heap ?c)" c' t] claim allocate_anonymous(2)
    by (simp add: c0_def NewCommitInfo_def)
  then show ?thesis using allocate_anonymous(1) by (simp add: c0_def waits_kept_def)
next
  case (publish a t own c')
  then show ?thesis using finish_waits(1) [OF inv publish(2,3,4,6)] by (simp add: PublishCommit_def)
next
  case (abandon a t own c')
  then show ?thesis using finish_waits(1) [OF inv abandon(2,3,4,7)] by (simp add: AbandonCommit_def)
next
  case (recover f c' t)
  then show ?thesis by (auto simp: RatchetTo_def raiseVisible_def Let_def waits_kept_def split: if_splits)
qed (simp_all add: waits_kept_same)

lemma finish_frontier_inv:
  assumes inv: "sys_inv u" and may: "may_finish u a t" and own: "own \<in> {None, Some a}"
    and run: "finish_frontier t own (sys_clock u) = Some (c', m)"
  shows "sys_inv \<lparr>sys_clock = c', sys_done = insert t (sys_done u)\<rparr>"
proof -
  have "finishCommitTS t own (sys_clock u) = Some (if m then wake_if_waiting c' else c')"
    by (simp add: finishCommitTS_wakes run)
  from sys_inv_finish(1) [OF inv may_finishD(3,1,2) [OF may] own this] show ?thesis by (simp add: sys_inv_def recorded_def split: if_splits)
qed

subsection \<open>Steps of the callers\<close>

text \<open>A waiter of generation \<open>g\<close> is awake or will be woken.\<close>

definition will_wake :: "await_sys \<Rightarrow> nat \<Rightarrow> bool" where
  "will_wake s g \<longleftrightarrow> g < clk_wait (aw_clock s) \<or> g \<in> set (aw_closing s) \<or> 0 < aw_owed s \<or> 0 < aw_swapping s"

lemma will_wake_iff: "aw_closed s g \<or> wake_owed s g \<longleftrightarrow> will_wake s g"
  by (auto simp: aw_closed_def wake_owed_def will_wake_def)

lemma caller_ok_kept:
  assumes ok: "caller_ok s k"
    and mono: "clk_commit (aw_clock s) \<le> clk_commit (aw_clock s')" "clk_visible (aw_clock s) \<le> clk_visible (aw_clock s')"
      "clk_wait (aw_clock s) \<le> clk_wait (aw_clock s')"
    and wake: "\<And>g. cl_pc k = AwParked g \<Longrightarrow> g \<le> clk_wait (aw_clock s) \<Longrightarrow> cl_floor k \<le> clk_visible (aw_clock s') \<Longrightarrow>
      will_wake s g \<or> clk_visible (aw_clock s) < cl_floor k \<Longrightarrow> will_wake s' g"
  shows "caller_ok s' k"
proof -
  have "cl_floor k \<le> clk_commit (aw_clock s')" using ok mono(1) by (auto simp: caller_ok_def)
  moreover have "pc_ok s' (cl_floor k) (cl_pc k)"
    using ok mono(2,3) wake
    by (cases "cl_pc k") (auto simp: caller_ok_def pc_ok_def will_wake_iff not_less [symmetric] dest: order_trans)
  ultimately show ?thesis using ok by (simp add: caller_ok_def)
qed

lemma parked_waits:
  assumes "aw_inv s" "k \<in> set (aw_callers s)" "cl_pc k = AwParked g"
  shows "0 < clk_waiters (aw_clock s)"
proof -
  have "k \<in> set (filter (\<lambda>k. registered (cl_pc k)) (aw_callers s))" using assms(2,3) by simp
  then have "0 < length (filter (\<lambda>k. registered (cl_pc k)) (aw_callers s))" by (rule length_pos_if_in_set)
  then show ?thesis using assms(1) by (simp add: aw_inv_def)
qed

lemma filter_update:
  "i < length xs \<Longrightarrow> int (length (filter P (xs[i := x]))) =
     int (length (filter P xs)) - (if P (xs ! i) then 1 else 0) + (if P x then 1 else 0)"
proof (induction xs arbitrary: i)
  case (Cons y xs)
  show ?case
  proof (cases i)
    case (Suc j)
    then show ?thesis using Cons.IH [of j] Cons.prems by (cases "P (xs ! j)"; cases "P x") auto
  qed simp
qed simp

text \<open>One operation of a caller changes only the number of waiters, by what its own registration changes.\<close>

lemma await_step_effect:
  assumes "await_step closed ctx k c = Some (k', c')"
  shows "c' = c\<lparr>clk_waiters := clk_waiters c - (if registered (cl_pc k) then 1 else 0) + (if registered (cl_pc k') then 1 else 0)\<rparr>"
  using assms by (cases "cl_pc k") (auto simp: await_step_def await_return_def split: if_splits)

lemma await_step_ok:
  assumes "await_step (aw_closed s) ctx k (aw_clock s) = Some (k', c')" and "caller_ok s k"
  shows "caller_ok s k'"
  using assms
  by (cases "cl_pc k") (auto simp: await_step_def await_return_def caller_ok_def kind_ok_def pc_ok_def gate_def split: if_splits)

lemma turn_inv:
  assumes inv: "aw_inv s" and i: "i < length (aw_callers s)"
    and run: "await_step (aw_closed s) ctx (aw_callers s ! i) (aw_clock s) = Some (k', c')"
  shows "aw_inv ((aw_with_clock c' s)\<lparr>aw_callers := (aw_callers s)[i := k']\<rparr>)" (is "aw_inv ?s'")
proof -
  note c' = await_step_effect [OF run]
  have "caller_ok s (aw_callers s ! i)" using inv i by (simp add: aw_inv_def)
  then have ok: "caller_ok s k'" by (rule await_step_ok [OF run])
  have same: "caller_ok ?s' k = caller_ok s k" for k
    by (simp add: caller_ok_def pc_ok_def aw_closed_def wake_owed_def aw_with_clock_def c' split: await_pc.split)
  have "sys_inv (aw_sys ?s')"
    using inv sys_inv_channel(1) [where u = "aw_sys s" and c = "aw_clock s"] by (simp add: aw_inv_def aw_with_clock_def c')
  moreover have "\<forall>k\<in>set (aw_callers ?s'). caller_ok ?s' k"
    unfolding same using inv ok set_update_subset_insert [of "aw_callers s" i k'] by (auto simp: aw_inv_def)
  ultimately show ?thesis
    using inv i by (simp add: aw_inv_def aw_with_clock_def filter_update c')
qed

lemma aw_step_inv:
  assumes inv: "aw_inv s" and step: "aw_step s s'"
  shows "aw_inv s'"
  using step
proof cases
  case (clock u)
  have I: "sys_inv (aw_sys s)" using inv by (simp add: aw_inv_def)
  note W = sys_step_waits [OF I clock(2), unfolded waits_kept_def]
  have "caller_ok s' k" if k: "k \<in> set (aw_callers s)" for k
  proof (rule caller_ok_kept)
    show ok: "caller_ok s k" using inv k by (simp add: aw_inv_def)
    fix g
    assume g: "cl_pc k = AwParked g" "g \<le> clk_wait (aw_clock s)" "cl_floor k \<le> clk_visible (aw_clock s')"
      "will_wake s g \<or> clk_visible (aw_clock s) < cl_floor k"
    show "will_wake s' g"
      using g(4)
    proof
      assume "will_wake s g"
      then show ?thesis using W by (auto simp: will_wake_def clock)
    next
      assume low: "clk_visible (aw_clock s) < cl_floor k"
      then have "clk_visible (aw_clock s) < clk_visible (aw_clock s')" using g(3) by simp
      moreover have "clk_visible (aw_clock s) \<noteq> clk_commit (aw_clock s)" using ok low by (auto simp: caller_ok_def)
      ultimately have "clk_wait (aw_clock s) < clk_wait (aw_clock s')"
        using W parked_waits [OF inv k g(1)] by (simp add: clock)
      then show ?thesis using g(2) by (simp add: will_wake_def)
    qed
  qed (use W in \<open>simp_all add: clock\<close>)
  then show ?thesis using inv sys_step_keeps [OF I clock(2)] W by (auto simp: aw_inv_def clock)
next
  case (finish a t own c' moved)
  have I: "sys_inv (aw_sys s)" using inv by (simp add: aw_inv_def)
  have F: "frontier_move {t} (aw_clock s) c'" "clk_wait c' = clk_wait (aw_clock s)"
    "clk_visible (aw_clock s) < clk_visible c' \<longrightarrow> moved"
    using finish_waits(2) [OF I may_finishD [OF finish(2)] finish(3,4)] by simp_all
  have "caller_ok s' k" if "k \<in> set (aw_callers s)" for k
  proof (rule caller_ok_kept)
    show "caller_ok s k" using inv that by (simp add: aw_inv_def)
  qed (use F in \<open>auto simp: finish frontier_move_def will_wake_def\<close>)
  then show ?thesis
    using inv finish_frontier_inv [OF I finish(2,3,4)] F by (auto simp: aw_inv_def finish frontier_move_def)
next
  case load_waiters
  have "caller_ok s' k" if k: "k \<in> set (aw_callers s)" for k
  proof (rule caller_ok_kept)
    show "caller_ok s k" using inv k by (simp add: aw_inv_def)
  qed (use parked_waits [OF inv k] in \<open>auto simp: load_waiters will_wake_def not_less [symmetric]\<close>)
  then show ?thesis using inv by (simp add: aw_inv_def load_waiters)
next
  case swap
  have "caller_ok s' k" if "k \<in> set (aw_callers s)" for k
  proof (rule caller_ok_kept)
    show "caller_ok s k" using inv that by (simp add: aw_inv_def)
  qed (auto simp: swap will_wake_def aw_with_clock_def wakeWaiters_def)
  moreover have "sys_inv (aw_sys s')"
    using inv sys_inv_channel(2) [where u = "aw_sys s" and c = "aw_clock s"] by (simp add: aw_inv_def swap aw_with_clock_def wakeWaiters_def)
  ultimately show ?thesis
    using inv by (auto simp: aw_inv_def swap aw_with_clock_def wakeWaiters_def gate_def less_SucI)
next
  case (close g)
  have low: "\<forall>g\<in>set (aw_closing s). g < clk_wait (aw_clock s)" using inv by (simp add: aw_inv_def)
  have "caller_ok s' k" if "k \<in> set (aw_callers s)" for k
  proof (rule caller_ok_kept)
    show "caller_ok s k" using inv that by (simp add: aw_inv_def)
  qed (use low in \<open>auto simp: close will_wake_def not_less [symmetric]\<close>)
  then show ?thesis using inv by (auto simp: aw_inv_def close dest: notin_set_remove1)
next
  case (call_visible floor_ts)
  have "caller_ok s' k = caller_ok s k" for k
    by (simp add: call_visible caller_ok_def pc_ok_def aw_closed_def wake_owed_def split: await_pc.split)
  then show ?thesis using inv call_visible by (auto simp: aw_inv_def) (simp add: caller_ok_def kind_ok_def pc_ok_def)
next
  case call_quiescent
  have "caller_ok s' k = caller_ok s k" for k
    by (simp add: call_quiescent caller_ok_def pc_ok_def aw_closed_def wake_owed_def split: await_pc.split)
  then show ?thesis using inv by (auto simp: aw_inv_def call_quiescent) (simp add: caller_ok_def kind_ok_def pc_ok_def)
next
  case (turn i ctx k' c')
  then show ?thesis using turn_inv [OF inv turn(2,3)] by simp
qed

lemma aw_reachable_inv: "aw_reachable s \<Longrightarrow> aw_inv s"
  unfolding aw_reachable_def
proof (induction rule: rtranclp_induct)
  case base
  show ?case using init_inv by (simp add: aw_inv_def aw_init_def init_sys_def new_clock_def)
next
  case (step t u)
  then show ?case by (blast intro: aw_step_inv)
qed

subsection \<open>A caller whose instant is visible returns\<close>

text \<open>How many operations a caller is from its return once the frontier has reached what it waits for.\<close>

definition turns_left :: "caller \<Rightarrow> nat" where
  "turns_left k = (case cl_pc k of
     AwReturned _ \<Rightarrow> 0 | AwQuiesceCheck \<Rightarrow> 1 | AwQuiesce \<Rightarrow> 2
   | pc \<Rightarrow> (if cl_quiesce k then 2 else 0) +
       (case pc of AwCall \<Rightarrow> 1 | AwLeave _ \<Rightarrow> 1 | AwCheck _ \<Rightarrow> 2 | AwGate \<Rightarrow> 3 | _ \<Rightarrow> 4))"

definition reached :: "nat \<Rightarrow> await_sys \<Rightarrow> bool" where
  "reached i s \<longleftrightarrow> i < length (aw_callers s) \<and> kind_ok (aw_callers s ! i) \<and> cl_floor (aw_callers s ! i) \<le> clk_visible (aw_clock s) \<and>
     (cl_quiesce (aw_callers s ! i) \<longrightarrow> clk_commit (aw_clock s) \<le> clk_visible (aw_clock s)) \<and>
     (\<forall>g. cl_pc (aw_callers s ! i) = AwParked g \<longrightarrow> aw_closed s g)"

abbreviation cancelled :: "caller \<Rightarrow> bool" where
  "cancelled k \<equiv> cl_pc k = AwLeave False \<or> cl_pc k = AwReturned False"

lemma await_step_reached:
  assumes "cl_floor k \<le> clk_visible c" "cl_quiesce k \<longrightarrow> clk_commit c \<le> clk_visible c"
    "\<forall>g. cl_pc k = AwParked g \<longrightarrow> closed g" "kind_ok k"
  shows "await_step closed False k c = None \<Longrightarrow> turns_left k = 0"
    "await_step closed False k c = Some (k', c') \<Longrightarrow> turns_left k' < turns_left k \<and> cl_floor k' \<le> clk_visible c \<and>
       cl_quiesce k' = cl_quiesce k \<and> (\<forall>g. cl_pc k' \<noteq> AwParked g) \<and> (cancelled k' \<longrightarrow> cancelled k) \<and> kind_ok k'"
proof -
  show "await_step closed False k c = None \<Longrightarrow> turns_left k = 0"
    using assms by (cases "cl_pc k") (simp_all add: await_step_def turns_left_def split: if_splits)
  assume run: "await_step closed False k c = Some (k', c')"
  then show "turns_left k' < turns_left k \<and> cl_floor k' \<le> clk_visible c \<and> cl_quiesce k' = cl_quiesce k \<and>
      (\<forall>g. cl_pc k' \<noteq> AwParked g) \<and> (cancelled k' \<longrightarrow> cancelled k) \<and> kind_ok k'"
    using assms
    by (cases "cl_pc k") (auto simp: await_step_def await_return_def turns_left_def kind_ok_def split: if_splits)
qed

lemma reached_turn:
  assumes r: "reached i s"
  shows "reached i (caller_turn i s)" "turns_left (aw_callers (caller_turn i s) ! i) \<le> turns_left (aw_callers s ! i) - 1"
    "\<not> cancelled (aw_callers s ! i) \<Longrightarrow> \<not> cancelled (aw_callers (caller_turn i s) ! i)"
proof -
  let ?k = "aw_callers s ! i"
  have i: "i < length (aw_callers s)" and R: "cl_floor ?k \<le> clk_visible (aw_clock s)"
    "cl_quiesce ?k \<longrightarrow> clk_commit (aw_clock s) \<le> clk_visible (aw_clock s)" "\<forall>g. cl_pc ?k = AwParked g \<longrightarrow> aw_closed s g" "kind_ok ?k"
    using r by (simp_all add: reached_def)
  note S = await_step_reached [OF R]
  have all: "reached i (caller_turn i s) \<and> turns_left (aw_callers (caller_turn i s) ! i) \<le> turns_left ?k - 1 \<and>
      (\<not> cancelled ?k \<longrightarrow> \<not> cancelled (aw_callers (caller_turn i s) ! i))"
  proof (cases "await_step (aw_closed s) False ?k (aw_clock s)")
    case None
    then show ?thesis using S(1) r by (simp add: caller_turn_def)
  next
    case (Some p)
    obtain k' c' where p: "p = (k', c')" by fastforce
    have t: "caller_turn i s = (aw_with_clock c' s)\<lparr>aw_callers := (aw_callers s)[i := k']\<rparr>"
      using Some by (simp add: caller_turn_def p)
    have "clk_visible c' = clk_visible (aw_clock s)" "clk_commit c' = clk_commit (aw_clock s)"
      using await_step_effect [OF Some [unfolded p]] by simp_all
    then have "reached i (caller_turn i s)" using S(2) [OF Some [unfolded p]] i R by (simp add: t reached_def aw_with_clock_def)
    then show ?thesis using S(2) [OF Some [unfolded p]] i by (auto simp: t)
  qed
  show "reached i (caller_turn i s)" "turns_left (aw_callers (caller_turn i s) ! i) \<le> turns_left (aw_callers s ! i) - 1"
    "\<not> cancelled (aw_callers s ! i) \<Longrightarrow> \<not> cancelled (aw_callers (caller_turn i s) ! i)"
    using all by blast+
qed

lemma reached_returns:
  "reached i s \<Longrightarrow> turns_left (aw_callers s ! i) \<le> n \<Longrightarrow>
     \<exists>ok. cl_pc (aw_callers ((caller_turn i ^^ n) s) ! i) = AwReturned ok \<and> (ok \<or> cancelled (aw_callers s ! i))"
proof (induction n arbitrary: s)
  case 0
  then show ?case by (cases "cl_pc (aw_callers s ! i)") (auto simp: turns_left_def)
next
  case (Suc n)
  note T = reached_turn [OF Suc.prems(1)]
  have "turns_left (aw_callers (caller_turn i s) ! i) \<le> n" using T(2) Suc.prems(2) by linarith
  from Suc.IH [OF T(1) this] T(3) show ?case by (auto simp: funpow_Suc_right simp del: funpow.simps)
qed

lemma caller_turn_steps:
  assumes "i < length (aw_callers s)"
  shows "aw_step\<^sup>*\<^sup>* s ((caller_turn i ^^ n) s)"
proof -
  have one: "aw_step\<^sup>*\<^sup>* t (caller_turn i t) \<and> length (aw_callers (caller_turn i t)) = length (aw_callers t)"
    if "i < length (aw_callers t)" for t
  proof (cases "await_step (aw_closed t) False (aw_callers t ! i) (aw_clock t)")
    case (Some r)
    obtain k' c' where "r = (k', c')" by fastforce
    with Some aw_step.turn [OF that, of False k' c'] show ?thesis by (auto simp: caller_turn_def aw_with_clock_def)
  qed (simp add: caller_turn_def)
  have "aw_step\<^sup>*\<^sup>* s ((caller_turn i ^^ n) s) \<and> length (aw_callers ((caller_turn i ^^ n) s)) = length (aw_callers s)"
    by (induction n) (use one assms in \<open>auto intro: rtranclp_trans\<close>)
  then show ?thesis by simp
qed

lemma turns_left_bound: "turns_left k \<le> 6"
  by (auto simp: turns_left_def split: await_pc.split)

lemma finished_reached:
  assumes inv: "aw_inv s" and i: "i < length (aw_callers s)"
    and idle: "aw_owed s = 0" "aw_swapping s = 0" "aw_closing s = []"
    and fin: "\<And>t. clk_visible (aw_clock s) < t \<Longrightarrow>
      t \<le> (if cl_quiesce (aw_callers s ! i) then clk_commit (aw_clock s) else cl_floor (aw_callers s ! i)) \<Longrightarrow>
      t \<in> sys_done (aw_sys s)"
  shows "reached i s"
proof -
  let ?k = "aw_callers s ! i" and ?v = "clk_visible (aw_clock s)"
  have I: "sys_inv (aw_sys s)" and ok: "caller_ok s ?k" using inv i by (simp_all add: aw_inv_def)
  have bound: "(if cl_quiesce ?k then clk_commit (aw_clock s) else cl_floor ?k) \<le> ?v"
    using frontier_gap [OF I] fin by (metis not_le)
  then have "cl_floor ?k \<le> ?v" using ok by (auto simp: caller_ok_def split: if_splits)
  moreover have "aw_closed s g" if "cl_pc ?k = AwParked g" for g
    using ok that calculation idle by (auto simp: caller_ok_def pc_ok_def wake_owed_def)
  ultimately show ?thesis using bound i ok by (auto simp: reached_def caller_ok_def)
qed

subsection \<open>No wake-up is lost\<close>

text \<open>
  Property C16. Waiting for the frontier, with any number of callers of \<open>AwaitVisible\<close> and
  \<open>AwaitQuiescent\<close> interleaved operation by operation with the transactions and with the publications
  that wake them, where the instant a caller of \<open>AwaitVisible\<close> passes is one that was allocated and
  the other methods of the clock are one step each. \<open>AwaitingVisible\<close> is exactly the number of callers that are registered. No wake-up is
  lost: a caller blocked on a channel that is open, and that no publication is still going to close,
  waits for a commit that is unfinished: the frontier is below its instant, and so is a timestamp not
  yet published or abandoned. A caller that returns nil has its instant visible. And callers return:
  when every timestamp a caller waits for (up to its instant; for \<open>AwaitQuiescent\<close> all that are
  allocated) has been published or abandoned and the publications have done their wake-ups, the caller,
  run alone, returns within six of its own operations, with nil unless its context had ended it before.
\<close>

theorem mvcc_await_no_lost_wakeup:
  assumes "aw_reachable s" and "i < length (aw_callers s)" and "k = aw_callers s ! i"
  shows "AwaitingVisible (aw_clock s) = int (length (filter (\<lambda>k. registered (cl_pc k)) (aw_callers s))) \<and>
    (\<forall>g. cl_pc k = AwParked g \<and> \<not> aw_closed s g \<and> \<not> wake_owed s g \<longrightarrow>
       (\<exists>t. ReadTS (aw_clock s) < t \<and> t \<le> cl_floor k \<and> t \<notin> sys_done (aw_sys s))) \<and>
    (cl_pc k = AwReturned True \<longrightarrow> cl_floor k \<le> ReadTS (aw_clock s)) \<and>
    (aw_owed s = 0 \<and> aw_swapping s = 0 \<and> aw_closing s = [] \<and>
     (\<forall>t. ReadTS (aw_clock s) < t \<and> t \<le> (if cl_quiesce k then Allocated (aw_clock s) else cl_floor k) \<longrightarrow>
        t \<in> sys_done (aw_sys s)) \<longrightarrow>
       aw_step\<^sup>*\<^sup>* s ((caller_turn i ^^ 6) s) \<and>
       (\<exists>ok. cl_pc (aw_callers ((caller_turn i ^^ 6) s) ! i) = AwReturned ok \<and> (ok \<or> cancelled k)))"
proof -
  note inv = aw_reachable_inv [OF assms(1)]
  have I: "sys_inv (aw_sys s)" and ok: "caller_ok s k" using inv assms(2,3) by (simp_all add: aw_inv_def)
  have "\<exists>t. ReadTS (aw_clock s) < t \<and> t \<le> cl_floor k \<and> t \<notin> sys_done (aw_sys s)"
    if "cl_pc k = AwParked g \<and> \<not> aw_closed s g \<and> \<not> wake_owed s g" for g
    using frontier_gap [OF I, of "cl_floor k"] ok that by (auto simp: caller_ok_def pc_ok_def ReadTS_def not_le)
  moreover have "cl_floor k \<le> ReadTS (aw_clock s)" if "cl_pc k = AwReturned True"
    using ok that by (simp add: caller_ok_def pc_ok_def ReadTS_def)
  moreover have "\<exists>ok. cl_pc (aw_callers ((caller_turn i ^^ 6) s) ! i) = AwReturned ok \<and> (ok \<or> cancelled k)"
    if "aw_owed s = 0 \<and> aw_swapping s = 0 \<and> aw_closing s = [] \<and>
      (\<forall>t. ReadTS (aw_clock s) < t \<and> t \<le> (if cl_quiesce k then Allocated (aw_clock s) else cl_floor k) \<longrightarrow>
        t \<in> sys_done (aw_sys s))"
  proof -
    have "reached i s"
      by (rule finished_reached [OF inv assms(2)]) (use that [unfolded ReadTS_def Allocated_def assms(3)] in blast)+
    from reached_returns [OF this turns_left_bound] show ?thesis unfolding assms(3) .
  qed
  moreover have "AwaitingVisible (aw_clock s) = int (length (filter (\<lambda>k. registered (cl_pc k)) (aw_callers s)))"
    using inv by (simp add: aw_inv_def AwaitingVisible_def)
  ultimately show ?thesis using caller_turn_steps [OF assms(2)] by blast
qed

subsection \<open>A sample run\<close>

text \<open>A session waits for its commit before it is published, is parked, and is woken by the publication.\<close>

definition sample_wait :: "mvcc_sys \<Rightarrow> await_pc \<Rightarrow> int \<Rightarrow> nat \<Rightarrow> await_sys" where
  "sample_wait u pc n g = \<lparr>aw_sys = u\<lparr>sys_clock := (sys_clock u)\<lparr>clk_waiters := n, clk_wait := g\<rparr>\<rparr>,
     aw_callers = [\<lparr>cl_floor = 1, cl_quiesce = False, cl_pc = pc\<rparr>], aw_owed = 0, aw_swapping = 0, aw_closing = []\<rparr>"

lemmas sample_simps = sample_wait_def demo_stamped_def demo_def demo_rec_def aw_with_clock_def

lemma sample_turn:
  assumes "await_step (aw_closed (sample_wait u pc n g)) ctx \<lparr>cl_floor = 1, cl_quiesce = False, cl_pc = pc\<rparr>
      ((sys_clock u)\<lparr>clk_waiters := n, clk_wait := g\<rparr>)
    = Some (\<lparr>cl_floor = 1, cl_quiesce = False, cl_pc = pc'\<rparr>, (sys_clock u)\<lparr>clk_waiters := n', clk_wait := g\<rparr>)"
  shows "aw_step (sample_wait u pc n g) (sample_wait u pc' n' g)"
  using aw_step.turn [of 0 "sample_wait u pc n g"] assms by (simp add: sample_wait_def aw_with_clock_def)

lemma sample_parked: "aw_reachable (sample_wait demo_stamped (AwParked 0) 1 0)"
proof -
  have lift: "aw_step\<^sup>*\<^sup>* (s\<lparr>aw_sys := u\<rparr>) (s\<lparr>aw_sys := v\<rparr>)" if "sys_step\<^sup>*\<^sup>* u v" for s u v
    using that
  proof induction
    case (step v w)
    from aw_step.clock [of "s\<lparr>aw_sys := v\<rparr>" w] step show ?case by (simp add: rtranclp.rtrancl_into_rtrancl)
  qed simp
  have "aw_step\<^sup>*\<^sup>* aw_init (aw_init\<lparr>aw_sys := demo_stamped\<rparr>)"
    using lift [OF demo_stamped_reachable [unfolded reachable_def], of aw_init] by (simp add: aw_init_def)
  moreover have "aw_step (aw_init\<lparr>aw_sys := demo_stamped\<rparr>) (sample_wait demo_stamped AwCall 0 0)"
    using aw_step.call_visible [of 1 "aw_init\<lparr>aw_sys := demo_stamped\<rparr>"] by (simp add: aw_init_def sample_simps)
  moreover have "aw_step (sample_wait demo_stamped AwCall 0 0) (sample_wait demo_stamped AwRegister 0 0)"
    "aw_step (sample_wait demo_stamped AwRegister 0 0) (sample_wait demo_stamped AwGate 1 0)"
    "aw_step (sample_wait demo_stamped AwGate 1 0) (sample_wait demo_stamped (AwCheck 0) 1 0)"
    "aw_step (sample_wait demo_stamped (AwCheck 0) 1 0) (sample_wait demo_stamped (AwParked 0) 1 0)"
    by (rule sample_turn [where ctx = False], simp add: await_step_def gate_def demo_stamped_def demo_def)+
  ultimately show ?thesis unfolding aw_reachable_def by (meson rtranclp.rtrancl_into_rtrancl)
qed

lemma sample_woken: "aw_reachable (sample_wait demo (AwParked 0) 1 1)"
proof -
  let ?s = "sample_wait demo_stamped (AwParked 0) 1 0" and ?t = "sample_wait demo (AwParked 0) 1 0"
  have run: "finish_frontier 1 (Some 0) (aw_clock ?s) = Some (aw_clock ?t, True)"
    by (simp add: finish_frontier_def publish_in_order_def sample_simps)
  have "may_finish (aw_sys ?s) 0 1" by (simp add: may_finish_def sample_simps)
  from aw_step.finish [OF this _ run] have "aw_step ?s (?t\<lparr>aw_owed := 1\<rparr>)" by (simp add: sample_simps)
  moreover have "aw_step (?t\<lparr>aw_owed := 1\<rparr>) (?t\<lparr>aw_swapping := 1\<rparr>)"
    using aw_step.load_waiters [of "?t\<lparr>aw_owed := 1\<rparr>"] by (simp add: sample_simps)
  moreover have "aw_step (?t\<lparr>aw_swapping := 1\<rparr>) ((sample_wait demo (AwParked 0) 1 1)\<lparr>aw_closing := [0]\<rparr>)"
    using aw_step.swap [of "?t\<lparr>aw_swapping := 1\<rparr>"] by (simp add: sample_simps wakeWaiters_def gate_def)
  moreover have "aw_step ((sample_wait demo (AwParked 0) 1 1)\<lparr>aw_closing := [0]\<rparr>) (sample_wait demo (AwParked 0) 1 1)"
    using aw_step.close [of 0 "(sample_wait demo (AwParked 0) 1 1)\<lparr>aw_closing := [0]\<rparr>"] by (simp add: sample_simps)
  ultimately show ?thesis
    using sample_parked unfolding aw_reachable_def by (meson rtranclp.rtrancl_into_rtrancl)
qed

theorem mvcc_await_no_lost_wakeup_witness:
  "(\<exists>t. ReadTS (sys_clock demo_stamped) < t \<and> t \<le> 1 \<and> t \<notin> sys_done demo_stamped) \<and>
   cl_pc (aw_callers ((caller_turn 0 ^^ 6) (sample_wait demo (AwParked 0) 1 1)) ! 0) = AwReturned True"
proof -
  let ?s = "sample_wait demo_stamped (AwParked 0) 1 0" and ?t = "sample_wait demo (AwParked 0) 1 1"
    and ?k = "\<lparr>cl_floor = 1, cl_quiesce = False, cl_pc = AwParked 0\<rparr> :: caller"
  have k: "0 < length (aw_callers ?s)" "?k = aw_callers ?s ! 0" "0 < length (aw_callers ?t)" "?k = aw_callers ?t ! 0"
    by (simp_all add: sample_wait_def)
  note S = mvcc_await_no_lost_wakeup [OF sample_parked k(1,2)] and T = mvcc_await_no_lost_wakeup [OF sample_woken k(3,4)]
  have "cl_pc ?k = AwParked 0 \<and> \<not> aw_closed ?s 0 \<and> \<not> wake_owed ?s 0"
    by (simp add: aw_closed_def wake_owed_def sample_wait_def)
  from S [THEN conjunct2, THEN conjunct1, rule_format, OF this]
  have 1: "\<exists>t. ReadTS (sys_clock demo_stamped) < t \<and> t \<le> 1 \<and> t \<notin> sys_done demo_stamped"
    by (simp add: sample_wait_def ReadTS_def)
  have "aw_owed ?t = 0 \<and> aw_swapping ?t = 0 \<and> aw_closing ?t = [] \<and>
      (\<forall>t. ReadTS (aw_clock ?t) < t \<and> t \<le> (if cl_quiesce ?k then Allocated (aw_clock ?t) else cl_floor ?k) \<longrightarrow>
        t \<in> sys_done (aw_sys ?t))"
    by (auto simp: sample_wait_def demo_def ReadTS_def)
  from T [THEN conjunct2, THEN conjunct2, THEN conjunct2, THEN mp, OF this]
  have "\<exists>ok. cl_pc (aw_callers ((caller_turn 0 ^^ 6) ?t) ! 0) = AwReturned ok \<and> (ok \<or> cancelled ?k)" by (rule conjunct2)
  then have "cl_pc (aw_callers ((caller_turn 0 ^^ 6) ?t) ! 0) = AwReturned True" by (auto simp del: funpow.simps)
  with 1 show ?thesis by (rule conjI)
qed

end
