(* ===== verification/Mvcc_Stamp.thy ===== *)
theory Mvcc_Stamp
  imports Mvcc_Clock
begin

text \<open>
  How a write finds its transaction: the stamping state \<open>TxState\<close> and the store's \<open>WriteStamp\<close>
  (\<open>graph/mvcc/stamp.go\<close>), and the handle \<open>Tx\<close> a write carries (\<open>graph/mvcc/tx.go\<close>). A
  \<open>*TxState\<close> is an index into the list of states, a \<open>*CommitInfo\<close> an index into the clock's heap.
  The slice capacities the code keeps for reuse are not observable and are left out.
\<close>

subsection \<open>Transaction state\<close>

text \<open>The pointer \<open>TxState.info\<close>: nil, the sentinel \<open>armedPending\<close>, or a record.\<close>

datatype txinfo = Closed | ArmedPending | Opened nat

record SideWrite =
  sw_A :: u64
  sw_B :: u64
  sw_C :: u64
  sw_Store :: byte

record TxState =
  st_info :: txinfo
  st_count :: int
  st_txID :: u64
  st_adj :: "u64 list"
  st_side :: "SideWrite list"
  st_touched :: u32

definition new_TxState :: TxState where
  "new_TxState = \<lparr>st_info = Closed, st_count = 0, st_txID = 0, st_adj = [], st_side = [], st_touched = 0\<rparr>"

definition TouchedAmbient :: u32 where "TouchedAmbient = push_bit 31 1"

definition Touch :: "u32 \<Rightarrow> TxState \<Rightarrow> TxState" where
  "Touch bits st =
     (if st_touched st AND bits \<noteq> bits then st\<lparr>st_touched := st_touched st OR bits\<rparr> else st)"

definition NoteAdjacency :: "u64 \<Rightarrow> TxState \<Rightarrow> TxState" where
  "NoteAdjacency i st = st\<lparr>st_adj := st_adj st @ [i]\<rparr>"

definition NoteSide :: "SideWrite \<Rightarrow> TxState \<Rightarrow> TxState" where
  "NoteSide w st =
     (if st_side st \<noteq> [] \<and> last (st_side st) = w then st else st\<lparr>st_side := st_side st @ [w]\<rparr>)"

definition SideWrites :: "TxState \<Rightarrow> SideWrite list" where "SideWrites st = st_side st"
definition AdjacencyWrites :: "TxState \<Rightarrow> u64 list" where "AdjacencyWrites st = st_adj st"

definition Arm :: "u64 \<Rightarrow> TxState \<Rightarrow> TxState \<times> bool" where
  "Arm txID st =
     (if st_info st \<noteq> Closed then (st, False)
      else (\<lparr>st_info = ArmedPending, st_count = 0, st_txID = txID, st_adj = [], st_side = [],
             st_touched = 0\<rparr>, True))"

definition Reusable :: "TxState \<Rightarrow> bool" where "Reusable st \<longleftrightarrow> st_info st = Closed"

definition Retract :: "TxState \<Rightarrow> TxState \<times> nat option \<times> int" where
  "Retract st =
     (case st_info st of
        Opened a \<Rightarrow> (st\<lparr>st_info := Closed, st_count := 0\<rparr>, Some a, st_count st)
      | _ \<Rightarrow> (st\<lparr>st_info := Closed\<rparr>, None, 0))"

definition Ensure :: "TxState \<Rightarrow> Clock \<Rightarrow> TxState \<times> Clock \<times> nat option" where
  "Ensure st c =
     (case st_info st of
        Closed \<Rightarrow> (st, c, None)
      | ArmedPending \<Rightarrow>
          (case new_record (NewCommitInfo (st_txID st)) c of
             (c1, a) \<Rightarrow> (st\<lparr>st_info := Opened a, st_count := st_count st + 1\<rparr>, c1, Some a))
      | Opened a \<Rightarrow> (st\<lparr>st_count := st_count st + 1\<rparr>, c, Some a))"

definition OpenRecord :: "TxState \<Rightarrow> nat option" where
  "OpenRecord st = (case st_info st of Opened a \<Rightarrow> Some a | _ \<Rightarrow> None)"

subsection \<open>The store's stamp\<close>

record WriteStamp =
  ws_clock :: Clock
  ws_has_clock :: bool
  ws_states :: "TxState list"
  ws_cur :: "nat option"
  ws_untracked :: int
  ws_ambient :: int

definition upd_state :: "nat \<Rightarrow> TxState \<Rightarrow> WriteStamp \<Rightarrow> WriteStamp" where
  "upd_state i st w = w\<lparr>ws_states := (ws_states w)[i := st]\<rparr>"

definition Publish :: "nat option \<Rightarrow> WriteStamp \<Rightarrow> WriteStamp" where
  "Publish st w = w\<lparr>ws_cur := st\<rparr>"

definition End :: "WriteStamp \<Rightarrow> WriteStamp \<times> nat option \<times> int" where
  "End w =
     (case ws_cur w of
        None \<Rightarrow> (w, None, 0)
      | Some i \<Rightarrow>
          (case Retract (ws_states w ! i) of
             (st', info, n) \<Rightarrow> (upd_state i st' (w\<lparr>ws_cur := None\<rparr>), info, n)))"

definition EndFor :: "nat option \<Rightarrow> WriteStamp \<Rightarrow> WriteStamp \<times> nat option \<times> int" where
  "EndFor st w =
     (case st of
        None \<Rightarrow> (w, None, 0)
      | Some i \<Rightarrow>
          (case Retract (ws_states w ! i) of
             (st', info, n) \<Rightarrow>
               let w1 = upd_state i st' w
               in (if ws_cur w1 = Some i then w1\<lparr>ws_cur := None\<rparr> else w1, info, n)))"

definition UntransactedStamp :: "WriteStamp \<Rightarrow> (WriteStamp \<times> nat option \<times> u64) option" where
  "UntransactedStamp w =
     (if \<not> ws_has_clock w then Some (w, None, 0)
      else Option.bind (NextCommitTS (ws_clock w)) (\<lambda>r.
        case r of
          Inl _ \<Rightarrow> None
        | Inr (c1, t) \<Rightarrow>
            Option.bind (PublishCommitTS t c1) (\<lambda>c2.
              Some (w\<lparr>ws_untracked := ws_untracked w + 1, ws_clock := c2\<rparr>, None, t))))"

definition Stamp :: "WriteStamp \<Rightarrow> (WriteStamp \<times> nat option \<times> u64) option" where
  "Stamp w =
     (case ws_cur w of
        None \<Rightarrow> UntransactedStamp w
      | Some i \<Rightarrow>
          (case Ensure (ws_states w ! i) (ws_clock w) of
             (st1, c1, Some a) \<Rightarrow>
               Some (upd_state i (Touch TouchedAmbient st1)
                       (w\<lparr>ws_clock := c1, ws_ambient := ws_ambient w + 1\<rparr>), Some a, 0)
           | (st1, c1, None) \<Rightarrow> UntransactedStamp w))"

definition OpenInfo :: "WriteStamp \<Rightarrow> nat option" where
  "OpenInfo w = (case ws_cur w of None \<Rightarrow> None | Some i \<Rightarrow> OpenRecord (ws_states w ! i))"

definition OpenTxID :: "WriteStamp \<Rightarrow> u64" where
  "OpenTxID w = (case ws_cur w of None \<Rightarrow> 0 | Some i \<Rightarrow> st_txID (ws_states w ! i))"

definition Armed :: "WriteStamp \<Rightarrow> bool" where "Armed w \<longleftrightarrow> ws_cur w \<noteq> None"

definition TakeUntracked :: "WriteStamp \<Rightarrow> WriteStamp \<times> int" where
  "TakeUntracked w = (w\<lparr>ws_untracked := 0\<rparr>, ws_untracked w)"

definition TakeAmbient :: "WriteStamp \<Rightarrow> WriteStamp \<times> int" where
  "TakeAmbient w = (w\<lparr>ws_ambient := 0\<rparr>, ws_ambient w)"

definition Info :: "WriteStamp \<Rightarrow> WriteStamp \<times> nat option" where
  "Info w =
     (case ws_cur w of
        None \<Rightarrow> (w, None)
      | Some i \<Rightarrow>
          (case Ensure (ws_states w ! i) (ws_clock w) of
             (st1, c1, r) \<Rightarrow> (upd_state i st1 (w\<lparr>ws_clock := c1\<rparr>), r)))"

subsection \<open>The handle a write carries\<close>

type_synonym Tx = "nat option"

definition Tx_ID :: "Tx \<Rightarrow> WriteStamp \<Rightarrow> u64" where
  "Tx_ID tx w = (case tx of None \<Rightarrow> 0 | Some i \<Rightarrow> st_txID (ws_states w ! i))"

definition Tx_Implicit :: "Tx \<Rightarrow> WriteStamp \<Rightarrow> bool" where
  "Tx_Implicit tx w = IsImplicitTx (Tx_ID tx w)"

definition Tx_NoteAdjacency :: "Tx \<Rightarrow> u64 \<Rightarrow> WriteStamp \<Rightarrow> WriteStamp" where
  "Tx_NoteAdjacency tx i w =
     (case tx of None \<Rightarrow> w | Some k \<Rightarrow> upd_state k (NoteAdjacency i (ws_states w ! k)) w)"

definition Tx_Record :: "Tx \<Rightarrow> WriteStamp \<Rightarrow> WriteStamp \<times> nat option" where
  "Tx_Record tx w =
     (case tx of
        None \<Rightarrow> (w, None)
      | Some i \<Rightarrow>
          (case Ensure (ws_states w ! i) (ws_clock w) of
             (st1, c1, r) \<Rightarrow> (upd_state i st1 (w\<lparr>ws_clock := c1\<rparr>), r)))"

subsection \<open>Lemmas\<close>

text \<open>
  \<open>record_times n tx w\<close>: the transaction writes \<open>n\<close> versions, each asking for its record; the
  result lists what every call returned.
\<close>

fun record_times :: "nat \<Rightarrow> Tx \<Rightarrow> WriteStamp \<Rightarrow> WriteStamp \<times> nat option list" where
  "record_times 0 tx w = (w, [])"
| "record_times (Suc n) tx w =
     (case Tx_Record tx w of (w1, r) \<Rightarrow> (case record_times n tx w1 of (w2, rs) \<Rightarrow> (w2, r # rs)))"

lemma ws_states_upd [simp]:
  "ws_states (upd_state i st w) = (ws_states w)[i := st]" "ws_clock (upd_state i st w) = ws_clock w"
  "ws_cur (upd_state i st w) = ws_cur w"
  by (simp_all add: upd_state_def)

lemma record_times_opened:
  assumes "i < length (ws_states w)" and "st_info (ws_states w ! i) = Opened a"
  shows "record_times n (Some i) w =
    (upd_state i ((ws_states w ! i)\<lparr>st_count := st_count (ws_states w ! i) + int n\<rparr>) w, replicate n (Some a))"
  using assms
proof (induction n arbitrary: w)
  case 0
  then show ?case by (simp add: upd_state_def)
next
  case (Suc n)
  then show ?case
    by (simp add: Tx_Record_def Ensure_def upd_state_def algebra_simps)
qed

lemma record_times_armed:
  assumes "i < length (ws_states w)" and "st_info (ws_states w ! i) = ArmedPending" and "0 < n"
  shows "record_times n (Some i) w =
    (upd_state i ((ws_states w ! i)\<lparr>st_info := Opened (length (clk_heap (ws_clock w))),
        st_count := st_count (ws_states w ! i) + int n\<rparr>)
       (w\<lparr>ws_clock := fst (new_record (NewCommitInfo (st_txID (ws_states w ! i))) (ws_clock w))\<rparr>),
     replicate n (Some (length (clk_heap (ws_clock w)))))"
proof -
  obtain m where n: "n = Suc m" using assms(3) by (cases n) auto
  show ?thesis
    using assms(1,2)
    by (simp add: n Tx_Record_def Ensure_def new_record_def record_times_opened)
      (simp add: upd_state_def algebra_simps)
qed

lemma distinct_adj_NoteSide: "distinct_adj (st_side st) \<Longrightarrow> distinct_adj (st_side (NoteSide w st))"
  by (auto simp: NoteSide_def distinct_adj_append_iff)

subsection \<open>Properties\<close>

text \<open>
  Property C17. All the versions one transaction writes share one commit record: after its
  window is armed, the first of any number of writes allocates a record stamped with the
  transaction's id, every write gets that same record, and closing the window hands the record
  over with the exact number of versions, leaving the state reusable; a window with no write hands
  over nothing.
\<close>

theorem stamp_transaction_shares_one_record:
  assumes "i < length (ws_states w)" and "Reusable (ws_states w ! i)"
    and w1_def: "w1 = upd_state i (fst (Arm txID (ws_states w ! i))) w"
    and w2_def: "w2 = fst (record_times n (Some i) w1)"
  shows "snd (record_times n (Some i) w1) = replicate n (Some (length (clk_heap (ws_clock w)))) \<and>
    snd (EndFor (Some i) w2) = (if n = 0 then (None, 0) else (Some (length (clk_heap (ws_clock w))), int n)) \<and>
    Reusable (ws_states (fst (EndFor (Some i) w2)) ! i) \<and>
    (0 < n \<longrightarrow> clk_heap (ws_clock w2) = clk_heap (ws_clock w) @ [NewCommitInfo txID])"
proof (cases "n = 0")
  case True
  with assms(1,2) show ?thesis
    by (simp add: w1_def w2_def Arm_def Reusable_def EndFor_def Retract_def Let_def)
next
  case False
  then have n: "0 < n" by simp
  have w1: "i < length (ws_states w1)" "st_info (ws_states w1 ! i) = ArmedPending"
    "st_count (ws_states w1 ! i) = 0" "st_txID (ws_states w1 ! i) = txID" "ws_clock w1 = ws_clock w"
    using assms(1,2) by (simp_all add: w1_def Arm_def Reusable_def)
  show ?thesis
    using n w1(1) unfolding w2_def record_times_armed [OF w1(1,2) n]
    by (simp add: w1 EndFor_def Retract_def Reusable_def Let_def new_record_def)
qed

theorem stamp_transaction_shares_one_record_witness:
  "snd (record_times 3 (Some 0) (upd_state 0 (fst (Arm (TxIDBase + 1) new_TxState))
     \<lparr>ws_clock = new_clock, ws_has_clock = True, ws_states = [new_TxState], ws_cur = None,
      ws_untracked = 0, ws_ambient = 0\<rparr>)) = [Some 0, Some 0, Some 0]"
  using stamp_transaction_shares_one_record [OF _ _ refl refl, of 0 "\<lparr>ws_clock = new_clock,
      ws_has_clock = True, ws_states = [new_TxState], ws_cur = None, ws_untracked = 0, ws_ambient = 0\<rparr>"
      3 "TxIDBase + 1"]
  by (simp add: Reusable_def new_TxState_def new_clock_def numeral_3_eq_3)

text \<open>
  A transaction that ends never retracts another's: \<open>EndFor\<close> closes exactly the
  window it is given, leaves every other transaction's state as it was, and leaves the ambient
  publication in place unless it was its own. A handle kept past the end gets no record.
\<close>

theorem stamp_end_is_owner_aware:
  assumes "i < length (ws_states w)" and "EndFor (Some i) w = (w', info, n)"
  shows "ws_cur w' = (if ws_cur w = Some i then None else ws_cur w) \<and>
    (\<forall>j. j \<noteq> i \<longrightarrow> ws_states w' ! j = ws_states w ! j) \<and> info = OpenRecord (ws_states w ! i) \<and>
    snd (Tx_Record (Some i) w') = None"
  using assms
  by (auto simp: EndFor_def Retract_def OpenRecord_def Tx_Record_def Ensure_def Let_def upd_state_def
      split: txinfo.splits if_splits)

theorem stamp_end_is_owner_aware_witness:
  "EndFor (Some 0) \<lparr>ws_clock = new_clock, ws_has_clock = True,
      ws_states = [new_TxState, new_TxState], ws_cur = Some 1, ws_untracked = 0, ws_ambient = 0\<rparr> =
     (\<lparr>ws_clock = new_clock, ws_has_clock = True,
      ws_states = [new_TxState, new_TxState], ws_cur = Some 1, ws_untracked = 0, ws_ambient = 0\<rparr>, None, 0) \<and>
   None = OpenRecord new_TxState"
proof -
  let ?w = "\<lparr>ws_clock = new_clock, ws_has_clock = True,
      ws_states = [new_TxState, new_TxState], ws_cur = Some 1, ws_untracked = 0, ws_ambient = 0\<rparr>"
  have run: "EndFor (Some 0) ?w = (?w, None, 0)"
    by (simp add: EndFor_def Retract_def new_TxState_def Let_def upd_state_def)
  from stamp_end_is_owner_aware [OF _ run] run show ?thesis by simp
qed

end
