(* ===== verification/Mvcc_Horizon.thy ===== *)
theory Mvcc_Horizon
  imports Prelude
begin

text \<open>
  The horizon of active readers of \<open>graph/mvcc/horizon.go\<close>, which tells the reclaimer what it
  may free. The methods are functions on the horizon; \<open>Oldest\<close> is written as the iteration of
  its loop body \<open>scan_step\<close>, so that the last section can interleave that very body, load by
  load, with readers that arrive and leave during the scan.
\<close>

subsection \<open>State and bit scanning\<close>

definition horizonSlots :: nat where "horizonSlots = 1024"
definition horizonWords :: nat where "horizonWords = horizonSlots div 64"

record Horizon =
  hz_slots :: "u64 list"
  hz_occ :: "u64 list"
  hz_next :: u64
  hz_unreg :: int
  hz_staleLeave :: int

definition new_Horizon :: Horizon where
  "new_Horizon = \<lparr>hz_slots = replicate horizonSlots 0, hz_occ = replicate horizonWords 0, hz_next = 0,
     hz_unreg = 0, hz_staleLeave = 0\<rparr>"

text \<open>\<open>bits.TrailingZeros64\<close> and \<open>bits.OnesCount64\<close>.\<close>

definition TrailingZeros64 :: "u64 \<Rightarrow> nat" where
  "TrailingZeros64 w = length (takeWhile (\<lambda>i. \<not> bit w i) [0..<64])"

definition OnesCount64 :: "u64 \<Rightarrow> nat" where
  "OnesCount64 w = length (filter (bit w) [0..<64])"

definition unregistered :: int where "unregistered = -1"
definition holdEverything :: u64 where "holdEverything = 1"

definition slot_word :: "int \<Rightarrow> nat" where "slot_word slot = nat slot div 64"
definition slot_mask :: "int \<Rightarrow> u64" where "slot_mask slot = push_bit (nat slot mod 64) 1"

subsection \<open>Operations\<close>

text \<open>The probe of \<open>claim\<close> over the words from index \<open>start + i\<close> on, at most \<open>n\<close> of them.\<close>

fun claim_from :: "nat \<Rightarrow> nat \<Rightarrow> nat \<Rightarrow> Horizon \<Rightarrow> (Horizon \<times> int) option" where
  "claim_from start i 0 h = None"
| "claim_from start i (Suc n) h =
     (let w = (start + i) mod horizonWords; cur = hz_occ h ! w
      in if cur = NOT 0 then claim_from start (i + 1) n h
         else let b = TrailingZeros64 (NOT cur)
              in Some (h\<lparr>hz_occ := (hz_occ h)[w := cur OR push_bit b 1]\<rparr>, int (w * 64 + b)))"

definition hz_claim :: "Horizon \<Rightarrow> Horizon \<times> int" where
  "hz_claim h =
     (let h1 = h\<lparr>hz_next := hz_next h + 1\<rparr>;
          start = unat (hz_next h1 AND of_nat (horizonWords - 1))
      in case claim_from start 0 horizonWords h1 of
           Some r \<Rightarrow> r
         | None \<Rightarrow> (h1\<lparr>hz_unreg := hz_unreg h1 + 1\<rparr>, unregistered))"

definition store_slot :: "int \<Rightarrow> u64 \<Rightarrow> Horizon \<Rightarrow> Horizon" where
  "store_slot slot v h = h\<lparr>hz_slots := (hz_slots h)[nat slot := v]\<rparr>"

definition Enter :: "u64 \<Rightarrow> Horizon \<Rightarrow> Horizon \<times> int" where
  "Enter startTS h =
     (case hz_claim h of (h1, slot) \<Rightarrow>
        if slot = unregistered then (h1, unregistered) else (store_slot slot (startTS + 1) h1, slot))"

definition EnterHolding :: "Horizon \<Rightarrow> Horizon \<times> int" where
  "EnterHolding h =
     (case hz_claim h of (h1, slot) \<Rightarrow>
        if slot = unregistered then (h1, unregistered) else (store_slot slot holdEverything h1, slot))"

definition hz_Publish :: "int \<Rightarrow> u64 \<Rightarrow> Horizon \<Rightarrow> Horizon" where
  "hz_Publish slot startTS h = (if slot = unregistered then h else store_slot slot (startTS + 1) h)"

definition Leave :: "int \<Rightarrow> Horizon \<Rightarrow> Horizon" where
  "Leave slot h =
     (if slot = unregistered then h\<lparr>hz_unreg := hz_unreg h - 1\<rparr>
      else let h1 = store_slot slot 0 h;
               old = hz_occ h1 ! slot_word slot;
               h2 = h1\<lparr>hz_occ := (hz_occ h1)[slot_word slot := old AND NOT (slot_mask slot)]\<rparr>
           in if old AND slot_mask slot = 0 then h2\<lparr>hz_staleLeave := hz_staleLeave h2 + 1\<rparr> else h2)"

definition SlotState :: "int \<Rightarrow> Horizon \<Rightarrow> u64 \<times> bool" where
  "SlotState slot h =
     (if slot = unregistered \<or> slot < 0 \<or> slot \<ge> int horizonSlots then (0, False)
      else let occupied = (hz_occ h ! slot_word slot AND slot_mask slot \<noteq> 0); v = hz_slots h ! nat slot
           in if v = 0 then (0, occupied) else (v - 1, occupied))"

text \<open>
  The states of the scan in \<open>Oldest\<close>: about to load word \<open>w\<close>, about to look at the lowest set
  bit of the loaded word \<open>m\<close>, or returned.
\<close>

datatype scan = ScanWord nat u64 | ScanSlots nat u64 u64 | ScanDone u64

fun scan_step :: "Horizon \<Rightarrow> scan \<Rightarrow> scan" where
  "scan_step h (ScanWord w oldest) =
     (if w < horizonWords then ScanSlots w (hz_occ h ! w) oldest
      else if hz_unreg h \<noteq> 0 then ScanDone 0 else ScanDone oldest)"
| "scan_step h (ScanSlots w m oldest) =
     (if m = 0 then ScanWord (w + 1) oldest
      else let v = hz_slots h ! (w * 64 + TrailingZeros64 m)
           in if v = 0 then ScanDone 0
              else ScanSlots w (m AND (m - 1)) (if v - 1 < oldest then v - 1 else oldest))"
| "scan_step h (ScanDone r) = ScanDone r"

definition scan_start :: "u64 \<Rightarrow> Horizon \<Rightarrow> scan" where
  "scan_start fallback h = (if hz_unreg h \<noteq> 0 then ScanDone 0 else ScanWord 0 fallback)"

lemma and_pred_less: "m \<noteq> 0 \<Longrightarrow> unat (m AND (m - 1)) < unat (m :: u64)"
proof -
  assume "m \<noteq> 0"
  then have "unat (m - 1) < unat m"
    by (simp add: unat_minus_one word_neq_0_conv word_less_nat_alt)
  moreover have "unat (m AND (m - 1)) \<le> unat (m - 1)"
    by (metis word_and_le1 word_le_nat_alt)
  ultimately show ?thesis by simp
qed

function run_scan :: "Horizon \<Rightarrow> scan \<Rightarrow> u64" where
  "run_scan h (ScanDone r) = r"
| "run_scan h (ScanWord w oldest) = run_scan h (scan_step h (ScanWord w oldest))"
| "run_scan h (ScanSlots w m oldest) = run_scan h (scan_step h (ScanSlots w m oldest))"
  by pat_completeness auto
termination
  by (relation "measures [\<lambda>(h, s). case s of ScanWord w _ \<Rightarrow> 2 * (horizonWords - w) + 1
       | ScanSlots w _ _ \<Rightarrow> max 2 (2 * (horizonWords - w)) | ScanDone _ \<Rightarrow> 0,
       \<lambda>(h, s). case s of ScanSlots _ m _ \<Rightarrow> unat m | _ \<Rightarrow> 0]")
    (auto simp: Let_def and_pred_less)

definition Oldest :: "u64 \<Rightarrow> Horizon \<Rightarrow> u64" where
  "Oldest fallback h = run_scan h (scan_start fallback h)"

definition Active :: "Horizon \<Rightarrow> nat" where
  "Active h = sum_list (map OnesCount64 (hz_occ h))"

subsection \<open>Bit lemmas\<close>

lemma TrailingZeros64_bit:
  assumes "w \<noteq> 0"
  shows "TrailingZeros64 w < 64" "bit w (TrailingZeros64 w)"
    "\<And>i. i < TrailingZeros64 w \<Longrightarrow> \<not> bit w i"
proof -
  let ?l = "takeWhile (\<lambda>i. \<not> bit w i) [0..<64]"
  obtain j where "j < 64" "bit w j"
    using assms bit_imp_le_length by (fastforce simp: bit_eq_iff)
  then have "?l \<noteq> [0..<64]"
    by (metis (no_types, lifting) atLeastLessThan_iff set_upt set_takeWhileD zero_le)
  then have "length ?l < length [0..<64]"
    by (metis length_takeWhile_le nat_less_le takeWhile_eq_take take_all_iff)
  then show lt: "TrailingZeros64 w < 64" by (simp add: TrailingZeros64_def)
  have "\<not> (\<not> bit w ([0..<64] ! length ?l))"
    using \<open>length ?l < length [0..<64]\<close> by (rule nth_length_takeWhile)
  then show "bit w (TrailingZeros64 w)" using lt by (simp add: TrailingZeros64_def)
  show "\<not> bit w i" if "i < TrailingZeros64 w" for i
  proof -
    have "?l ! i = [0..<64] ! i" using that by (simp add: TrailingZeros64_def takeWhile_nth)
    moreover have "i < 64" using that lt by simp
    ultimately have "?l ! i = i" by simp
    moreover have "?l ! i \<in> set ?l" using that by (simp add: TrailingZeros64_def)
    ultimately show ?thesis using set_takeWhileD by fastforce
  qed
qed

text \<open>\<open>m &= m - 1\<close> clears exactly the lowest set bit.\<close>

lemma and_pred_bit:
  assumes "m \<noteq> (0 :: u64)"
  shows "bit (m AND (m - 1)) i \<longleftrightarrow> bit m i \<and> i \<noteq> TrailingZeros64 m"
proof -
  define b where "b = TrailingZeros64 m"
  note tz = TrailingZeros64_bit [OF assms, folded b_def]
  define q where "q = unset_bit b m"
  have m: "m = q + 2 ^ b"
    using tz(2) by (simp add: q_def unset_bit_eq)
  have bq: "bit q j \<longleftrightarrow> bit m j \<and> j \<noteq> b" for j
    by (auto simp: q_def bit_unset_bit_iff)
  have qm: "q AND mask b = 0"
  proof (rule bit_word_eqI)
    fix j show "bit (q AND mask b) j = bit (0 :: u64) j"
      using tz(3) [of j] by (auto simp: bit_and_iff bit_mask_iff bq)
  qed
  have "m - 1 = q + mask b" by (simp add: m mask_eq_exp_minus_1)
  also have "\<dots> = q OR mask b" using qm by (rule disjunctive_add_eq_or)
  finally have "m - 1 = q OR mask b" .
  then have "bit (m AND (m - 1)) i \<longleftrightarrow> bit m i \<and> (bit q i \<or> bit (mask b :: u64) i)"
    by (simp add: bit_and_iff bit_or_iff)
  also have "\<dots> \<longleftrightarrow> bit m i \<and> i \<noteq> b"
    using tz(3) [of i] by (auto simp: bq bit_mask_iff)
  finally show ?thesis by (simp only: b_def)
qed

subsection \<open>Occupied slots\<close>

definition hz_wf :: "Horizon \<Rightarrow> bool" where
  "hz_wf h \<longleftrightarrow> length (hz_slots h) = horizonSlots \<and> length (hz_occ h) = horizonWords"

definition occupied :: "Horizon \<Rightarrow> nat \<Rightarrow> bool" where
  "occupied h k \<longleftrightarrow> bit (hz_occ h ! (k div 64)) (k mod 64)"

lemma hz_consts [simp]: "horizonSlots = 1024" "horizonWords = 16"
  by (simp_all add: horizonSlots_def horizonWords_def)

lemma slot_index: "b < 64 \<Longrightarrow> (w * 64 + b) div 64 = w \<and> (w * 64 + b) mod 64 = (b :: nat)"
  by simp

text \<open>The bit \<open>claim\<close> takes in a word that is not full.\<close>

definition set_occ :: "nat \<Rightarrow> Horizon \<Rightarrow> Horizon" where
  "set_occ k h = h\<lparr>hz_occ := (hz_occ h)[k div 64 := hz_occ h ! (k div 64) OR push_bit (k mod 64) 1]\<rparr>"

definition clear_occ :: "nat \<Rightarrow> Horizon \<Rightarrow> Horizon" where
  "clear_occ k h = h\<lparr>hz_occ := (hz_occ h)[k div 64 := hz_occ h ! (k div 64) AND NOT (push_bit (k mod 64) 1)]\<rparr>"

lemma bit_push_one: "bit (push_bit b (1 :: u64)) i \<longleftrightarrow> b = i \<and> i < 64"
  unfolding bit_push_bit_iff bit_1_iff by auto

lemma bit_two_power: "bit ((2 :: u64) ^ b) i \<longleftrightarrow> b = i \<and> i < 64"
  by (auto simp: bit_simps)

lemma occupied_set_occ:
  assumes "hz_wf h" and "k < 1024" and "j < 1024"
  shows "occupied (set_occ k h) j \<longleftrightarrow> occupied h j \<or> j = k"
proof (cases "j div 64 = k div 64")
  case True
  have "j = k \<longleftrightarrow> j mod 64 = k mod 64" using True by (metis div_mod_decomp)
  with True assms show ?thesis
    by (simp add: occupied_def set_occ_def hz_wf_def bit_or_iff bit_two_power) auto
next
  case False
  then show ?thesis by (auto simp: occupied_def set_occ_def)
qed

lemma occupied_clear_occ:
  assumes "hz_wf h" and "k < 1024" and "j < 1024"
  shows "occupied (clear_occ k h) j \<longleftrightarrow> occupied h j \<and> j \<noteq> k"
proof (cases "j div 64 = k div 64")
  case True
  have "j = k \<longleftrightarrow> j mod 64 = k mod 64" using True by (metis div_mod_decomp)
  with True assms show ?thesis
    by (simp add: occupied_def clear_occ_def hz_wf_def bit_and_iff bit_not_iff bit_two_power) auto
next
  case False
  then show ?thesis by (auto simp: occupied_def clear_occ_def)
qed

lemma free_bit:
  assumes "hz_wf h" and "w < 16" and "hz_occ h ! w \<noteq> NOT 0"
  defines "k \<equiv> w * 64 + TrailingZeros64 (NOT (hz_occ h ! w))"
  shows "k < 1024" "\<not> occupied h k" "k div 64 = w" "k mod 64 = TrailingZeros64 (NOT (hz_occ h ! w))"
proof -
  have "NOT (hz_occ h ! w) \<noteq> 0" using assms(3) by (metis bit.double_compl)
  note tz = TrailingZeros64_bit [OF this]
  show k: "k div 64 = w" "k mod 64 = TrailingZeros64 (NOT (hz_occ h ! w))"
    using tz(1) by (simp_all add: k_def)
  show "k < 1024" using tz(1) assms(2) by (simp add: k_def)
  show "\<not> occupied h k" using tz(1,2) by (simp add: occupied_def k bit_not_iff)
qed

lemma claim_from_cases:
  assumes "hz_wf h"
  shows "(claim_from start i n h = None \<and> (\<forall>x<n. hz_occ h ! ((start + i + x) mod 16) = NOT 0)) \<or>
    (\<exists>k<1024. \<not> occupied h k \<and> claim_from start i n h = Some (set_occ k h, int k))"
proof (induction n arbitrary: i)
  case 0
  then show ?case by simp
next
  case (Suc n)
  let ?w = "(start + i) mod 16"
  show ?case
  proof (cases "hz_occ h ! ?w = NOT 0")
    case True
    then have next_word: "claim_from start i (Suc n) h = claim_from start (i + 1) n h" by simp
    from Suc [of "i + 1"] show ?thesis
    proof
      assume none: "claim_from start (i + 1) n h = None \<and> (\<forall>x<n. hz_occ h ! ((start + (i + 1) + x) mod 16) = NOT 0)"
      have "hz_occ h ! ((start + i + x) mod 16) = NOT 0" if "x < Suc n" for x
      proof (cases x)
        case 0
        with True show ?thesis by simp
      next
        case (Suc y)
        with none that show ?thesis by (auto dest: spec [of _ y])
      qed
      with none next_word show ?thesis by simp
    next
      assume "\<exists>k<1024. \<not> occupied h k \<and> claim_from start (i + 1) n h = Some (set_occ k h, int k)"
      then show ?thesis unfolding next_word by blast
    qed
  next
    case False
    have "?w < 16" by simp
    note free = free_bit [OF assms this False]
    have "claim_from start i (Suc n) h = Some (set_occ (?w * 64 + TrailingZeros64 (NOT (hz_occ h ! ?w))) h,
        int (?w * 64 + TrailingZeros64 (NOT (hz_occ h ! ?w))))"
      using False unfolding set_occ_def free(3,4) by (simp add: Let_def)
    with free(1,2) show ?thesis by blast
  qed
qed

lemma mod16_cover:
  assumes "\<forall>x<16. P ((s + x) mod 16)" and "w < (16 :: nat)"
  shows "P w"
proof -
  have r: "s mod 16 < 16" by simp
  have "(s + (w + 16 - s mod 16) mod 16) mod 16 = (s mod 16 + (w + 16 - s mod 16)) mod 16"
    by (simp only: mod_simps)
  also have "s mod 16 + (w + 16 - s mod 16) = w + 16" using r by simp
  finally have "(s + (w + 16 - s mod 16) mod 16) mod 16 = w" using assms(2) by simp
  moreover have "P ((s + (w + 16 - s mod 16) mod 16) mod 16)" using assms(1) by simp
  ultimately show ?thesis by simp
qed

lemma occupied_next [simp]: "occupied (h\<lparr>hz_next := n\<rparr>) k = occupied h k"
  "hz_wf (h\<lparr>hz_next := n\<rparr>) = hz_wf h" "occupied (h\<lparr>hz_unreg := u\<rparr>) k = occupied h k"
  "hz_wf (h\<lparr>hz_unreg := u\<rparr>) = hz_wf h"
  by (simp_all add: occupied_def hz_wf_def)

lemma hz_claim_cases:
  assumes "hz_wf h" and "hz_claim h = (h', slot)"
  shows "(slot = unregistered \<and> (\<forall>k<1024. occupied h k) \<and>
      h' = h\<lparr>hz_next := hz_next h + 1, hz_unreg := hz_unreg h + 1\<rparr>) \<or>
    (\<exists>k<1024. \<not> occupied h k \<and> slot = int k \<and> h' = set_occ k (h\<lparr>hz_next := hz_next h + 1\<rparr>))"
proof -
  let ?h = "h\<lparr>hz_next := hz_next h + 1\<rparr>"
  let ?s = "unat (hz_next ?h AND of_nat (horizonWords - 1))"
  have run: "hz_claim h = (case claim_from ?s 0 16 ?h of Some r \<Rightarrow> r
      | None \<Rightarrow> (?h\<lparr>hz_unreg := hz_unreg ?h + 1\<rparr>, unregistered))"
    by (simp add: hz_claim_def Let_def)
  have wf: "hz_wf ?h" using assms(1) by simp
  from claim_from_cases [OF wf, of ?s 0 16] show ?thesis
  proof
    assume none: "claim_from ?s 0 16 ?h = None \<and> (\<forall>x<16. hz_occ ?h ! ((?s + 0 + x) mod 16) = NOT 0)"
    then have "hz_occ ?h ! w = NOT 0" if "w < 16" for w
      using mod16_cover [of "\<lambda>w. hz_occ ?h ! w = NOT 0" ?s w] that by simp
    then have "occupied h k" if "k < 1024" for k
      using that by (simp add: occupied_def bit_simps less_mult_imp_div_less)
    with none run assms(2) show ?thesis by auto
  next
    assume "\<exists>k<1024. \<not> occupied ?h k \<and> claim_from ?s 0 16 ?h = Some (set_occ k ?h, int k)"
    with run assms(2) show ?thesis by (auto simp del: occupied_next(2))
  qed
qed

subsection \<open>What \<open>Oldest\<close> computes\<close>

fun pending_slot :: "Horizon \<Rightarrow> scan \<Rightarrow> nat \<Rightarrow> bool" where
  "pending_slot h (ScanWord w _) k \<longleftrightarrow> w \<le> k div 64 \<and> occupied h k"
| "pending_slot h (ScanSlots w m _) k \<longleftrightarrow>
     (k div 64 = w \<and> bit m (k mod 64)) \<or> (w < k div 64 \<and> occupied h k)"
| "pending_slot h (ScanDone _) k \<longleftrightarrow> False"

fun scan_oldest :: "scan \<Rightarrow> u64" where
  "scan_oldest (ScanWord _ x) = x"
| "scan_oldest (ScanSlots _ _ x) = x"
| "scan_oldest (ScanDone r) = r"

fun scan_ok :: "scan \<Rightarrow> bool" where
  "scan_ok (ScanSlots w _ _) \<longleftrightarrow> w < 16"
| "scan_ok _ \<longleftrightarrow> True"

definition scan_result_ok :: "Horizon \<Rightarrow> scan \<Rightarrow> u64 \<Rightarrow> bool" where
  "scan_result_ok h s r \<longleftrightarrow>
     r \<le> scan_oldest s
     \<and> (\<forall>k<1024. pending_slot h s k \<longrightarrow> (hz_slots h ! k = 0 \<longrightarrow> r = 0) \<and> r \<le> hz_slots h ! k - 1)
     \<and> (r = scan_oldest s
        \<or> (\<exists>k<1024. pending_slot h s k \<and> (hz_slots h ! k = 0 \<and> r = 0 \<or> hz_slots h ! k \<noteq> 0 \<and> r = hz_slots h ! k - 1)))"

lemma run_scan_result:
  assumes "hz_unreg h = 0" and "scan_ok s"
  shows "scan_result_ok h s (run_scan h s)"
  using assms
proof (induction h s rule: run_scan.induct)
  case (1 h r)
  then show ?case by (simp add: scan_result_ok_def)
next
  case (2 h w oldest)
  show ?case
  proof (cases "w < 16")
    case True
    then have step: "scan_step h (ScanWord w oldest) = ScanSlots w (hz_occ h ! w) oldest" by simp
    have pend: "pending_slot h (ScanSlots w (hz_occ h ! w) oldest) k = pending_slot h (ScanWord w oldest) k" for k
      by (auto simp: occupied_def)
    from 2 True have "scan_result_ok h (ScanSlots w (hz_occ h ! w) oldest)
        (run_scan h (ScanSlots w (hz_occ h ! w) oldest))"
      by (simp only: step scan_ok.simps)
    then show ?thesis
      unfolding scan_result_ok_def pend run_scan.simps step by simp
  next
    case False
    then have "\<not> w \<le> k div 64" if "k < 1024" for k
      using less_mult_imp_div_less [of k 16 64] that by simp
    with False 2(2) show ?thesis by (simp add: scan_result_ok_def)
  qed
next
  case (3 h w m oldest)
  show ?case
  proof (cases "m = 0")
    case True
    then have step: "scan_step h (ScanSlots w m oldest) = ScanWord (w + 1) oldest" by simp
    have pend: "pending_slot h (ScanWord (w + 1) oldest) k = pending_slot h (ScanSlots w m oldest) k" for k
      by (auto simp: True)
    from 3 show ?thesis
      unfolding scan_result_ok_def run_scan.simps step pend [symmetric] by simp
  next
    case False
    let ?k = "w * 64 + TrailingZeros64 m"
    note tz = TrailingZeros64_bit [OF False]
    have k: "?k < 1024" "?k div 64 = w" "?k mod 64 = TrailingZeros64 m"
      using tz(1) 3(3) by simp_all
    have here: "pending_slot h (ScanSlots w m oldest) ?k" using tz(1,2) by simp
    show ?thesis
    proof (cases "hz_slots h ! ?k = 0")
      case True
      then have "run_scan h (ScanSlots w m oldest) = 0" using False by simp
      with True here k(1) show ?thesis unfolding scan_result_ok_def by auto
    next
      case v: False
      define o' where "o' = (if hz_slots h ! ?k - 1 < oldest then hz_slots h ! ?k - 1 else oldest)"
      have step: "scan_step h (ScanSlots w m oldest) = ScanSlots w (m AND (m - 1)) o'"
        using False v by (simp add: o'_def Let_def)
      have pend: "pending_slot h (ScanSlots w m oldest) j \<longleftrightarrow>
          pending_slot h (ScanSlots w (m AND (m - 1)) o') j \<or> j = ?k" for j
      proof -
        have "j = ?k \<longleftrightarrow> j div 64 = w \<and> j mod 64 = TrailingZeros64 m"
          using k(2,3) by (metis div_mult_mod_eq)
        then show ?thesis using tz(2) by (auto simp: and_pred_bit [OF False])
      qed
      have IH: "scan_result_ok h (ScanSlots w (m AND (m - 1)) o') (run_scan h (ScanSlots w (m AND (m - 1)) o'))"
        using 3(1) 3(2,3) unfolding step by simp
      have o': "o' \<le> oldest" "o' \<le> hz_slots h ! ?k - 1" "o' = oldest \<or> o' = hz_slots h ! ?k - 1"
        by (auto simp: o'_def)
      define r where "r = run_scan h (ScanSlots w (m AND (m - 1)) o')"
      note IH' = IH [folded r_def, unfolded scan_result_ok_def scan_oldest.simps]
      have "r \<le> oldest" "r \<le> hz_slots h ! ?k - 1" using IH' o'(1,2) by auto
      moreover have "r = oldest \<or> (\<exists>j<1024. (pending_slot h (ScanSlots w (m AND (m - 1)) o') j \<or> j = ?k) \<and>
          (hz_slots h ! j = 0 \<and> r = 0 \<or> hz_slots h ! j \<noteq> 0 \<and> r = hz_slots h ! j - 1))"
        using IH' o'(3) v k(1) by blast
      ultimately show ?thesis
        using IH' v unfolding scan_result_ok_def run_scan.simps step pend scan_oldest.simps r_def by blast
    qed
  qed
qed

subsection \<open>Readers arriving and leaving during a scan\<close>

text \<open>
  Every reader runs \<open>EnterHolding\<close>, reads the clock, publishes its start and later leaves; each
  of its atomic operations is one step, as is each load of the scan, and the clock's published
  frontier only rises. A reader that found no slot is in \<open>hs_un\<close>, with the start it read. The
  scanner samples its fallback from the frontier before it starts.
\<close>

datatype reader = RFree | RClaimed | RHolding | RRead u64 | RActive u64 | RLeaving
datatype scanner = ScannerIdle | Sampled u64 | Scanning scan

record hz_sys =
  hs_h :: Horizon
  hs_rdr :: "nat \<Rightarrow> reader"
  hs_un :: "u64 option list"
  hs_frontier :: u64
  hs_scan :: scanner

definition hz_init :: hz_sys where
  "hz_init = \<lparr>hs_h = new_Horizon, hs_rdr = (\<lambda>_. RFree), hs_un = [], hs_frontier = 0, hs_scan = ScannerIdle\<rparr>"

inductive hz_step :: "hz_sys \<Rightarrow> hz_sys \<Rightarrow> bool" where
  rd_claim:
    "w < horizonWords \<Longrightarrow> hz_occ (hs_h s) ! w \<noteq> NOT 0 \<Longrightarrow>
     k = w * 64 + TrailingZeros64 (NOT (hz_occ (hs_h s) ! w)) \<Longrightarrow>
     hz_step s (s\<lparr>hs_h := set_occ k (hs_h s), hs_rdr := (hs_rdr s)(k := RClaimed)\<rparr>)"
| rd_hold:
    "k < horizonSlots \<Longrightarrow> hs_rdr s k = RClaimed \<Longrightarrow>
     hz_step s (s\<lparr>hs_h := store_slot (int k) holdEverything (hs_h s), hs_rdr := (hs_rdr s)(k := RHolding)\<rparr>)"
| rd_read_clock:
    "k < horizonSlots \<Longrightarrow> hs_rdr s k = RHolding \<Longrightarrow>
     hz_step s (s\<lparr>hs_rdr := (hs_rdr s)(k := RRead (hs_frontier s))\<rparr>)"
| rd_publish:
    "k < horizonSlots \<Longrightarrow> hs_rdr s k = RRead f \<Longrightarrow>
     hz_step s (s\<lparr>hs_h := hz_Publish (int k) f (hs_h s), hs_rdr := (hs_rdr s)(k := RActive f)\<rparr>)"
| rd_invalidate:
    "k < horizonSlots \<Longrightarrow> hs_rdr s k = RActive f \<Longrightarrow>
     hz_step s (s\<lparr>hs_h := store_slot (int k) 0 (hs_h s), hs_rdr := (hs_rdr s)(k := RLeaving)\<rparr>)"
| rd_release:
    "k < horizonSlots \<Longrightarrow> hs_rdr s k = RLeaving \<Longrightarrow>
     hz_step s (s\<lparr>hs_h := clear_occ k (hs_h s), hs_rdr := (hs_rdr s)(k := RFree)\<rparr>)"
| un_enter:
    "hz_step s (s\<lparr>hs_h := (hs_h s)\<lparr>hz_unreg := hz_unreg (hs_h s) + 1\<rparr>, hs_un := None # hs_un s\<rparr>)"
| un_read_clock:
    "i < length (hs_un s) \<Longrightarrow> hs_un s ! i = None \<Longrightarrow>
     hz_step s (s\<lparr>hs_un := (hs_un s)[i := Some (hs_frontier s)]\<rparr>)"
| un_leave:
    "hs_un s = us @ [u] @ vs \<Longrightarrow>
     hz_step s (s\<lparr>hs_h := Leave unregistered (hs_h s), hs_un := us @ vs\<rparr>)"
| frontier_rises:
    "hs_frontier s \<le> f \<Longrightarrow> f + 1 \<noteq> 0 \<Longrightarrow> hz_step s (s\<lparr>hs_frontier := f\<rparr>)"
| sc_sample:
    "hz_step s (s\<lparr>hs_scan := Sampled (hs_frontier s)\<rparr>)"
| sc_start:
    "hs_scan s = Sampled f \<Longrightarrow> hz_step s (s\<lparr>hs_scan := Scanning (scan_start f (hs_h s))\<rparr>)"
| sc_step:
    "hs_scan s = Scanning sc \<Longrightarrow> hz_step s (s\<lparr>hs_scan := Scanning (scan_step (hs_h s) sc)\<rparr>)"

text \<open>The start a reader has read, and whether the scan still has the reader's slot ahead of it.\<close>

fun reader_start :: "reader \<Rightarrow> u64 option" where
  "reader_start (RRead f) = Some f"
| "reader_start (RActive f) = Some f"
| "reader_start _ = None"

fun slot_ahead :: "scan \<Rightarrow> nat \<Rightarrow> bool" where
  "slot_ahead (ScanWord w _) k \<longleftrightarrow> w \<le> k div 64"
| "slot_ahead (ScanSlots w m _) k \<longleftrightarrow> (k div 64 = w \<and> bit m (k mod 64)) \<or> w < k div 64"
| "slot_ahead (ScanDone _) k \<longleftrightarrow> False"

fun slot_content :: "reader \<Rightarrow> bool \<times> u64" where
  "slot_content RFree = (False, 0)"
| "slot_content RClaimed = (True, 0)"
| "slot_content RHolding = (True, holdEverything)"
| "slot_content (RRead _) = (True, holdEverything)"
| "slot_content (RActive f) = (True, f + 1)"
| "slot_content RLeaving = (True, 0)"

definition readers_inv :: "hz_sys \<Rightarrow> bool" where
  "readers_inv s \<longleftrightarrow>
     hz_wf (hs_h s) \<and> hz_unreg (hs_h s) = int (length (hs_un s)) \<and> hs_frontier s + 1 \<noteq> 0
     \<and> (\<forall>k<1024. (occupied (hs_h s) k, hz_slots (hs_h s) ! k) = slot_content (hs_rdr s k))
     \<and> (\<forall>k f. reader_start (hs_rdr s k) = Some f \<longrightarrow> f \<le> hs_frontier s)"

definition scan_inv :: "hz_sys \<Rightarrow> bool" where
  "scan_inv s \<longleftrightarrow>
     (case hs_scan s of
        ScannerIdle \<Rightarrow> True
      | Sampled f \<Rightarrow> f \<le> hs_frontier s
      | Scanning sc \<Rightarrow> scan_ok sc \<and> scan_oldest sc \<le> hs_frontier s
          \<and> (\<forall>k<1024. \<forall>f. reader_start (hs_rdr s k) = Some f \<longrightarrow> scan_oldest sc \<le> f \<or> slot_ahead sc k)
          \<and> (\<forall>f. Some f \<in> set (hs_un s) \<longrightarrow> scan_oldest sc \<le> f))"

lemma occupied_store [simp]: "occupied (store_slot k v h) j = occupied h j" "hz_wf (store_slot k v h) = hz_wf h"
  "hz_unreg (store_slot k v h) = hz_unreg h"
  by (simp_all add: store_slot_def occupied_def hz_wf_def)

lemma store_slot_nth:
  "hz_wf h \<Longrightarrow> k < 1024 \<Longrightarrow> hz_slots (store_slot (int k) v h) ! j = (if j = k then v else hz_slots h ! j)"
  by (simp add: store_slot_def hz_wf_def nth_list_update)

lemma set_occ_fields [simp]:
  "hz_slots (set_occ k h) = hz_slots h" "hz_unreg (set_occ k h) = hz_unreg h" "hz_wf (set_occ k h) = hz_wf h"
  "hz_slots (clear_occ k h) = hz_slots h" "hz_unreg (clear_occ k h) = hz_unreg h" "hz_wf (clear_occ k h) = hz_wf h"
  by (simp_all add: set_occ_def clear_occ_def hz_wf_def)

lemma readers_step:
  assumes "readers_inv s" and "hz_step s s'"
  shows "readers_inv s'"
  using assms(2,1)
proof (induction rule: hz_step.induct)
  case (rd_claim w s k)
  then have wf: "hz_wf (hs_h s)" by (simp add: readers_inv_def)
  have w: "w < 16" using rd_claim(1) by simp
  note free = free_bit [OF wf w rd_claim(2), folded rd_claim(3)]
  have "hs_rdr s k = RFree \<and> hz_slots (hs_h s) ! k = 0"
    using rd_claim(4) free(1,2) by (cases "hs_rdr s k") (auto simp: readers_inv_def)
  with rd_claim(4) free(1) show ?case
    by (auto simp: readers_inv_def occupied_set_occ)
next
  case (rd_publish k s f)
  moreover from this have "f \<le> hs_frontier s"
    unfolding readers_inv_def by (metis reader_start.simps(1))
  ultimately show ?case
    by (auto simp: readers_inv_def hz_Publish_def unregistered_def store_slot_nth)
next
  case (un_leave s us u vs)
  then show ?case
    by (auto simp: readers_inv_def Leave_def hz_wf_def occupied_def)
next
  case (frontier_rises s f)
  then show ?case by (auto simp: readers_inv_def intro: order_trans)
qed (auto simp: readers_inv_def store_slot_nth occupied_clear_occ)

text \<open>One load of the scan: a slot it passes holds nothing older than what it keeps.\<close>

lemma scan_step_ahead:
  assumes inv: "readers_inv s" and ok: "scan_ok sc" and k: "k < 1024" "reader_start (hs_rdr s k) = Some f"
    and sound: "scan_oldest sc \<le> f \<or> slot_ahead sc k"
  shows "scan_oldest (scan_step (hs_h s) sc) \<le> f \<or> slot_ahead (scan_step (hs_h s) sc) k"
proof (cases sc)
  case (ScanWord w x)
  have "k div 64 < 16" using k(1) by (simp add: less_mult_imp_div_less)
  moreover have "occupied (hs_h s) k"
    using inv k by (cases "hs_rdr s k") (auto simp: readers_inv_def)
  ultimately show ?thesis
    using sound by (auto simp: ScanWord occupied_def)
next
  case (ScanSlots w m x)
  show ?thesis
  proof (cases "m = 0")
    case True
    then show ?thesis using sound by (auto simp: ScanSlots)
  next
    case False
    let ?j = "w * 64 + TrailingZeros64 m"
    note tz = TrailingZeros64_bit [OF False]
    have j: "?j div 64 = w" "?j mod 64 = TrailingZeros64 m" using tz(1) by simp_all
    show ?thesis
    proof (cases "hz_slots (hs_h s) ! ?j = 0")
      case True
      then show ?thesis using False by (simp add: ScanSlots)
    next
      case v: False
      have step: "scan_step (hs_h s) sc = ScanSlots w (m AND (m - 1))
          (if hz_slots (hs_h s) ! ?j - 1 < x then hz_slots (hs_h s) ! ?j - 1 else x)"
        using False v by (simp add: ScanSlots Let_def)
      have "hz_slots (hs_h s) ! k - 1 \<le> f"
        using inv k by (cases "hs_rdr s k") (auto simp: readers_inv_def holdEverything_def)
      then have here: "hz_slots (hs_h s) ! ?j - 1 \<le> f" if "k = ?j"
        using that by simp
      have "k = ?j \<longleftrightarrow> k div 64 = w \<and> k mod 64 = TrailingZeros64 m"
        using j by (metis div_mult_mod_eq)
      then show ?thesis
        using sound here unfolding step
        by (auto simp: ScanSlots and_pred_bit [OF False] not_less intro: order_trans)
    qed
  qed
next
  case (ScanDone r)
  then show ?thesis using sound by simp
qed

lemma scan_step_le: "scan_oldest (scan_step h sc) \<le> scan_oldest sc"
  by (cases sc) (auto simp: Let_def)

lemma scan_step_ok: "scan_ok sc \<Longrightarrow> scan_ok (scan_step h sc)"
  by (cases sc) (auto simp: Let_def)

lemma scan_inv_step:
  assumes "readers_inv s" and "hz_step s s'" and "scan_inv s"
  shows "scan_inv s'"
  using assms(2,1,3)
proof (induction rule: hz_step.induct)
  case (rd_claim w s k)
  then show ?case by (auto simp: scan_inv_def split: scanner.splits)
next
  case (frontier_rises s f)
  then show ?case by (auto simp: scan_inv_def split: scanner.splits intro: order_trans)
next
  case (rd_publish k s f)
  then show ?case by (auto simp: scan_inv_def split: scanner.splits)
next
  case (sc_start s f)
  then show ?case by (auto simp: scan_inv_def scan_start_def readers_inv_def)
next
  case (sc_step s sc)
  then have old: "scan_ok sc" "scan_oldest sc \<le> hs_frontier s"
    "\<forall>k<1024. \<forall>f. reader_start (hs_rdr s k) = Some f \<longrightarrow> scan_oldest sc \<le> f \<or> slot_ahead sc k"
    "\<forall>f. Some f \<in> set (hs_un s) \<longrightarrow> scan_oldest sc \<le> f"
    by (auto simp: scan_inv_def)
  show ?case
    using scan_step_ok [OF old(1)] order_trans [OF scan_step_le] old(2,4)
      scan_step_ahead [OF sc_step(2) old(1)] old(3)
    by (simp add: scan_inv_def)
next
  case (un_read_clock i s)
  then show ?case
    by (auto simp: scan_inv_def split: scanner.splits dest!: set_update_subset_insert [THEN subsetD])
qed (auto simp: scan_inv_def split: scanner.splits)

lemma hz_reachable_inv: "hz_step\<^sup>*\<^sup>* hz_init s \<Longrightarrow> readers_inv s \<and> scan_inv s"
proof (induction rule: rtranclp_induct)
  case base
  show ?case
    by (auto simp: readers_inv_def scan_inv_def hz_init_def new_Horizon_def hz_wf_def occupied_def
        less_mult_imp_div_less)
next
  case (step s s')
  then show ?case using readers_step scan_inv_step by blast
qed

subsection \<open>Properties\<close>

text \<open>
  Property C18. The watermark never passes a reader, even one that arrives during the scan:
  when readers and the scan interleave in any order, the value \<open>Oldest\<close> returned is at or below
  the start of every reader active then or at any later moment, registered or not, and at or
  below the published frontier.
\<close>

theorem horizon_watermark_sound:
  assumes "hz_step\<^sup>*\<^sup>* hz_init s" and "hs_scan s = Scanning (ScanDone r)"
  shows "r \<le> hs_frontier s \<and>
    (\<forall>k<horizonSlots. \<forall>f. hs_rdr s k = RActive f \<or> hs_rdr s k = RRead f \<longrightarrow> r \<le> f) \<and>
    (\<forall>f. Some f \<in> set (hs_un s) \<longrightarrow> r \<le> f)"
proof -
  have inv: "scan_inv s" using hz_reachable_inv [OF assms(1)] by simp
  have "r \<le> f" if "k < 1024" "hs_rdr s k = RActive f \<or> hs_rdr s k = RRead f" for k f
  proof -
    have "reader_start (hs_rdr s k) = Some f" using that(2) by auto
    with inv that(1) assms(2) show ?thesis by (auto simp: scan_inv_def)
  qed
  with inv assms(2) show ?thesis by (auto simp: scan_inv_def)
qed

theorem horizon_watermark_sound_witness:
  "\<exists>s :: hz_sys. hs_scan s = Scanning (ScanDone 0) \<and> Some 0 \<in> set (hs_un s) \<and> 0 \<le> hs_frontier s"
proof -
  define s1 where "s1 = hz_init\<lparr>hs_h := (hs_h hz_init)\<lparr>hz_unreg := hz_unreg (hs_h hz_init) + 1\<rparr>, hs_un := None # hs_un hz_init\<rparr>"
  define s2 where "s2 = s1\<lparr>hs_un := (hs_un s1)[0 := Some (hs_frontier s1)]\<rparr>"
  define s3 where "s3 = s2\<lparr>hs_scan := Sampled (hs_frontier s2)\<rparr>"
  define s4 where "s4 = s3\<lparr>hs_scan := Scanning (scan_start 0 (hs_h s3))\<rparr>"
  have "hz_step hz_init s1" unfolding s1_def by (rule hz_step.un_enter)
  moreover have "hz_step s1 s2" unfolding s2_def
    by (rule hz_step.un_read_clock) (simp_all add: s1_def hz_init_def)
  moreover have "hz_step s2 s3" unfolding s3_def by (rule hz_step.sc_sample)
  moreover have "hz_step s3 s4" unfolding s4_def
    by (rule hz_step.sc_start) (simp add: s3_def s2_def s1_def hz_init_def)
  ultimately have run: "hz_step\<^sup>*\<^sup>* hz_init s4"
    by (meson rtranclp.rtrancl_into_rtrancl rtranclp.rtrancl_refl)
  have fin: "hs_scan s4 = Scanning (ScanDone 0)" "Some 0 \<in> set (hs_un s4)"
    by (simp_all add: s4_def s3_def s2_def s1_def scan_start_def hz_init_def new_Horizon_def)
  show ?thesis
    by (rule exI [of _ s4], intro conjI, rule fin(1), rule fin(2),
        rule conjunct1 [OF horizon_watermark_sound [OF run fin(1)]])
qed

text \<open>
  Property C19. With no reader unregistered, \<open>Oldest\<close> is exact: zero when an occupied slot is not
  yet stamped, and otherwise the minimum of the fallback and the starts of the occupied slots;
  while any reader is unregistered it is zero.
\<close>

theorem horizon_oldest_exact:
  assumes "r = Oldest fallback h"
  shows "if hz_unreg h \<noteq> 0 then r = 0
    else r \<le> fallback
      \<and> (\<forall>k<horizonSlots. occupied h k \<longrightarrow> r \<le> fst (SlotState (int k) h))
      \<and> (r = fallback \<or> (\<exists>k<horizonSlots. occupied h k \<and> r = fst (SlotState (int k) h)))"
proof (cases "hz_unreg h = 0")
  case True
  have state: "fst (SlotState (int k) h) = (if hz_slots h ! k = 0 then 0 else hz_slots h ! k - 1)"
    if "k < 1024" for k
    using that by (simp add: SlotState_def unregistered_def Let_def)
  have "scan_result_ok h (ScanWord 0 fallback) r"
    using run_scan_result [OF True, of "ScanWord 0 fallback"] True
    unfolding assms Oldest_def scan_start_def by (simp del: run_scan.simps)
  with True state show ?thesis unfolding scan_result_ok_def by (auto simp del: word_le_0_iff)
next
  case False
  then show ?thesis by (simp add: assms Oldest_def scan_start_def)
qed

theorem horizon_oldest_exact_witness: "Oldest 7 (fst (Enter 5 new_Horizon)) \<le> 7"
  using horizon_oldest_exact [where fallback = 7 and h = "fst (Enter 5 new_Horizon)", OF refl]
  by (simp split: if_splits)

text \<open>
  A slot is never shared: \<open>Enter\<close> takes a slot nobody holds, announces exactly the
  given start there and touches no other slot, and \<open>Leave\<close> frees that slot and only that one;
  a reader goes unregistered only when every slot is held.
\<close>

theorem horizon_enter_exclusive:
  assumes "hz_wf h" and "startTS + 1 \<noteq> 0" and "Enter startTS h = (h', slot)"
  shows "if slot = unregistered
    then (\<forall>k<horizonSlots. occupied h k) \<and> hz_unreg h' = hz_unreg h + 1
    else \<exists>k<horizonSlots. slot = int k \<and> \<not> occupied h k \<and> SlotState slot h' = (startTS, True)
      \<and> (\<forall>j<horizonSlots. j \<noteq> k \<longrightarrow> SlotState (int j) h' = SlotState (int j) h)
      \<and> (\<forall>j<horizonSlots. occupied (Leave slot h') j = occupied h j)
      \<and> hz_staleLeave (Leave slot h') = hz_staleLeave h"
proof -
  obtain h1 where claim: "hz_claim h = (h1, slot)"
    using assms(3) by (auto simp: Enter_def split: prod.splits if_splits)
  have state: "SlotState (int k) g = (if hz_slots g ! k = 0 then 0 else hz_slots g ! k - 1, occupied g k)"
    if "k < 1024" for k g
    using that unfolding SlotState_def Let_def occupied_def slot_word_def slot_mask_def
    by (simp add: unregistered_def bit_iff_and_push_bit_not_eq_0)
  from hz_claim_cases [OF assms(1) claim] show ?thesis
  proof
    assume "slot = unregistered \<and> (\<forall>k<1024. occupied h k) \<and>
      h1 = h\<lparr>hz_next := hz_next h + 1, hz_unreg := hz_unreg h + 1\<rparr>"
    with claim assms(3) show ?thesis by (auto simp: Enter_def)
  next
    assume "\<exists>k<1024. \<not> occupied h k \<and> slot = int k \<and> h1 = set_occ k (h\<lparr>hz_next := hz_next h + 1\<rparr>)"
    then obtain k where k: "k < 1024" "\<not> occupied h k" "slot = int k"
      and h1: "h1 = set_occ k (h\<lparr>hz_next := hz_next h + 1\<rparr>)" by blast
    have reg: "slot \<noteq> unregistered" by (simp add: k(3) unregistered_def)
    have h': "h' = store_slot (int k) (startTS + 1) h1"
      using claim assms(3) reg by (auto simp: Enter_def k(3))
    have wf: "hz_wf (h\<lparr>hz_next := hz_next h + 1\<rparr>)" "hz_wf h1" using assms(1) by (simp_all add: h1)
    have occ: "occupied h' j = (occupied h j \<or> j = k)" if "j < 1024" for j
      using occupied_set_occ [OF wf(1) k(1) that] by (simp add: h' h1)
    have val: "hz_slots h' ! j = (if j = k then startTS + 1 else hz_slots h ! j)" for j
      using store_slot_nth [OF wf(2) k(1), of "startTS + 1" j] by (simp add: h' h1)
    have here: "hz_occ h' ! (k div 64) AND push_bit (k mod 64) 1 \<noteq> 0"
      using occ [OF k(1)] by (simp add: occupied_def bit_iff_and_push_bit_not_eq_0)
    have leave: "Leave slot h' = clear_occ k (store_slot (int k) 0 h')"
      using here reg by (simp add: Leave_def Let_def slot_word_def slot_mask_def k(3) clear_occ_def store_slot_def)
    have "occupied (Leave slot h') j = occupied h j" if "j < 1024" for j
      unfolding leave using occupied_clear_occ [of "store_slot (int k) 0 h'" k j] wf(2) k(1,2) that occ [OF that]
      by (auto simp: h')
    moreover have "hz_staleLeave (Leave slot h') = hz_staleLeave h"
      unfolding leave by (simp add: clear_occ_def store_slot_def h' h1 set_occ_def)
    ultimately show ?thesis
      using reg k assms(2) by (auto simp: state occ val)
  qed
qed

theorem horizon_enter_exclusive_witness:
  "\<exists>k<horizonSlots. snd (Enter 5 new_Horizon) = int k \<and> SlotState (int k) (fst (Enter 5 new_Horizon)) = (5, True)"
proof -
  have wf: "hz_wf new_Horizon" by (simp add: hz_wf_def new_Horizon_def)
  have free: "\<not> occupied new_Horizon 0" by (simp add: occupied_def new_Horizon_def)
  from horizon_enter_exclusive [OF wf, of 5 "fst (Enter 5 new_Horizon)" "snd (Enter 5 new_Horizon)"] free
  show ?thesis by (auto split: if_splits)
qed

end
