(* ===== verification/Mvcc_Gate.thy ===== *)
theory Mvcc_Gate
  imports Prelude
begin

text \<open>
  The weak/strong gate of \<open>graph/mvcc/gate.go\<close>: many weak holders on striped counters, one strong
  holder. Each atomic access outside the gate's mutex and each critical section under it is a
  function on the gate; \<open>gate_step\<close> interleaves them over any number of goroutines, following
  the order in which \<open>WeakLock\<close>, \<open>weakSlow\<close>, \<open>TryWeakLock\<close>, \<open>WeakUnlock\<close>, \<open>strongLock\<close> and
  \<open>releaseStrong\<close> perform them. A parked goroutine may wake at any time (the code re-checks its
  condition after every wake), so the wake channel itself carries no state. The
  counters, \<open>atomic.Int32\<close> in the code, are unbounded here: they would wrap only with \<open>2 ^ 31\<close> holders
  of one slot.
\<close>

subsection \<open>State and critical sections\<close>

definition gateSlots :: nat where "gateSlots = 64"

record Gate =
  g_slots :: "int list"
  g_strong :: bool
  g_owned :: bool
  g_slowHolders :: int
  g_weakParked :: int
  g_queue :: "u64 list"
  g_nextTicket :: u64

definition new_Gate :: Gate where
  "new_Gate = \<lparr>g_slots = replicate gateSlots 0, g_strong = False, g_owned = False, g_slowHolders = 0,
     g_weakParked = 0, g_queue = [], g_nextTicket = 0\<rparr>"

datatype gate_panic = WeakUnlockNotHeld | StrongUnlockNotHeld

definition gate_slot :: "u64 \<Rightarrow> nat" where
  "gate_slot hint = unat (hint AND of_nat (gateSlots - 1))"

text \<open>\<open>g.slots[slot].n.Add(d)\<close>.\<close>

definition slot_add :: "nat \<Rightarrow> int \<Rightarrow> Gate \<Rightarrow> Gate" where
  "slot_add i d g = g\<lparr>g_slots := (g_slots g)[i := g_slots g ! i + d]\<rparr>"

text \<open>
  \<open>weakSlow\<close> from taking the mutex, or from waking with it, to parking or returning: the
  goroutine that was parked leaves the parked count first.
\<close>

definition weak_slow :: "bool \<Rightarrow> Gate \<Rightarrow> Gate \<times> bool" where
  "weak_slow parked g =
     (let g1 = (if parked then g\<lparr>g_weakParked := g_weakParked g - 1\<rparr> else g)
      in if g_owned g1 then (g1\<lparr>g_weakParked := g_weakParked g1 + 1\<rparr>, False)
         else (g1\<lparr>g_slowHolders := g_slowHolders g1 + 1\<rparr>, True))"

definition weak_slow_cancel :: "Gate \<Rightarrow> Gate" where
  "weak_slow_cancel g = g\<lparr>g_weakParked := g_weakParked g - 1\<rparr>"

text \<open>\<open>WeakUnlock\<close>: a slot holder passes its slot, a slow holder \<open>gateSlow\<close> (here \<open>None\<close>).\<close>

definition WeakUnlock :: "nat option \<Rightarrow> Gate \<Rightarrow> (gate_panic, Gate) result" where
  "WeakUnlock slot g =
     (case slot of
        None \<Rightarrow> if g_slowHolders g = 0 then Inl WeakUnlockNotHeld
                else Inr (g\<lparr>g_slowHolders := g_slowHolders g - 1\<rparr>)
      | Some i \<Rightarrow> Inr (slot_add i (-1) g))"

definition strong_enqueue :: "Gate \<Rightarrow> Gate \<times> u64" where
  "strong_enqueue g =
     (g\<lparr>g_nextTicket := g_nextTicket g + 1, g_queue := g_queue g @ [g_nextTicket g]\<rparr>, g_nextTicket g)"

text \<open>The turn test of \<open>strongLock\<close> and, when it passes, taking ownership.\<close>

definition strong_turn :: "u64 \<Rightarrow> Gate \<Rightarrow> bool" where
  "strong_turn t g \<longleftrightarrow> \<not> (g_owned g \<or> hd (g_queue g) \<noteq> t \<or> g_weakParked g \<noteq> 0)"

definition strong_own :: "Gate \<Rightarrow> Gate" where
  "strong_own g = g\<lparr>g_queue := tl (g_queue g), g_owned := True, g_strong := True\<rparr>"

definition strong_cancel :: "u64 \<Rightarrow> Gate \<Rightarrow> Gate" where
  "strong_cancel t g = g\<lparr>g_queue := remove1 t (g_queue g)\<rparr>"

definition releaseStrong :: "Gate \<Rightarrow> (gate_panic, Gate) result" where
  "releaseStrong g =
     (if \<not> g_owned g then Inl StrongUnlockNotHeld
      else Inr (g\<lparr>g_owned := False, g_strong := False\<rparr>))"

definition WeakHolders :: "Gate \<Rightarrow> int" where
  "WeakHolders g = sum_list (filter (\<lambda>v. v > 0) (g_slots g))"

subsection \<open>Goroutines\<close>

text \<open>Where a goroutine stands inside the gate's methods.\<close>

datatype pc =
    Out
  | WAdded nat bool
  | WBackingOff nat bool
  | WHeld nat
  | WSlow
  | WParked
  | WHeldSlow
  | SWaiting u64
  | SScanning nat
  | SDraining
  | SHeld

type_synonym gate_state = "Gate \<times> (nat \<Rightarrow> pc)"

inductive gate_step :: "gate_state \<Rightarrow> gate_state \<Rightarrow> bool" where
  weak_add:
    "p x = Out \<Longrightarrow> i = gate_slot hint \<Longrightarrow> gate_step (g, p) (slot_add i 1 g, p(x := WAdded i once))"
| weak_fast:
    "p x = WAdded i once \<Longrightarrow> \<not> g_strong g \<Longrightarrow> gate_step (g, p) (g, p(x := WHeld i))"
| weak_contended:
    "p x = WAdded i once \<Longrightarrow> g_strong g \<Longrightarrow> gate_step (g, p) (g, p(x := WBackingOff i once))"
| weak_back_off:
    "p x = WBackingOff i once \<Longrightarrow>
     gate_step (g, p) (slot_add i (-1) g, p(x := if once then Out else WSlow))"
| weak_slow_lock:
    "p x = WSlow \<or> p x = WParked \<Longrightarrow> weak_slow (p x = WParked) g = (g', ok) \<Longrightarrow>
     gate_step (g, p) (g', p(x := if ok then WHeldSlow else WParked))"
| weak_cancel:
    "p x = WParked \<Longrightarrow> gate_step (g, p) (weak_slow_cancel g, p(x := Out))"
| weak_unlock:
    "p x = WHeld i \<Longrightarrow> WeakUnlock (Some i) g = Inr g' \<Longrightarrow> gate_step (g, p) (g', p(x := Out))"
| weak_unlock_slow:
    "p x = WHeldSlow \<Longrightarrow> WeakUnlock None g = Inr g' \<Longrightarrow> gate_step (g, p) (g', p(x := Out))"
| strong_enter:
    "p x = Out \<Longrightarrow> strong_enqueue g = (g', t) \<Longrightarrow> gate_step (g, p) (g', p(x := SWaiting t))"
| strong_acquire:
    "p x = SWaiting t \<Longrightarrow> strong_turn t g \<Longrightarrow> gate_step (g, p) (strong_own g, p(x := SScanning 0))"
| strong_give_up:
    "p x = SWaiting t \<Longrightarrow> gate_step (g, p) (strong_cancel t g, p(x := Out))"
| strong_scan:
    "p x = SScanning i \<Longrightarrow> i < gateSlots \<Longrightarrow> g_slots g ! i = 0 \<Longrightarrow>
     gate_step (g, p) (g, p(x := SScanning (i + 1)))"
| strong_scanned:
    "p x = SScanning gateSlots \<Longrightarrow> gate_step (g, p) (g, p(x := SDraining))"
| strong_drained:
    "p x = SDraining \<Longrightarrow> g_slowHolders g = 0 \<Longrightarrow> gate_step (g, p) (g, p(x := SHeld))"
| strong_release:
    "p x = SHeld \<or> p x = SDraining \<or> p x = SScanning i \<Longrightarrow> releaseStrong g = Inr g' \<Longrightarrow>
     gate_step (g, p) (g', p(x := Out))"

definition gate_init :: gate_state where "gate_init = (new_Gate, \<lambda>_. Out)"

subsection \<open>The invariant\<close>

fun at_slot :: "nat \<Rightarrow> pc \<Rightarrow> bool" where
  "at_slot j (WAdded i _) \<longleftrightarrow> i = j"
| "at_slot j (WBackingOff i _) \<longleftrightarrow> i = j"
| "at_slot j (WHeld i) \<longleftrightarrow> i = j"
| "at_slot _ _ \<longleftrightarrow> False"

fun owns :: "pc \<Rightarrow> bool" where
  "owns (SScanning _) \<longleftrightarrow> True"
| "owns SDraining \<longleftrightarrow> True"
| "owns SHeld \<longleftrightarrow> True"
| "owns _ \<longleftrightarrow> False"

text \<open>The slots a strong owner has already found empty.\<close>

fun scanned :: "pc \<Rightarrow> nat \<Rightarrow> bool" where
  "scanned (SScanning i) j \<longleftrightarrow> j < i"
| "scanned SDraining _ \<longleftrightarrow> True"
| "scanned SHeld _ \<longleftrightarrow> True"
| "scanned _ _ \<longleftrightarrow> False"

definition count_at :: "(pc \<Rightarrow> bool) \<Rightarrow> (nat \<Rightarrow> pc) \<Rightarrow> int" where
  "count_at Q p = int (card {x. Q (p x)})"

definition gate_counts :: "gate_state \<Rightarrow> bool" where
  "gate_counts s \<longleftrightarrow> (case s of (g, p) \<Rightarrow>
     finite {x. p x \<noteq> Out} \<and> length (g_slots g) = gateSlots
     \<and> (\<forall>x j. at_slot j (p x) \<longrightarrow> j < gateSlots)
     \<and> (\<forall>j<gateSlots. g_slots g ! j = count_at (at_slot j) p)
     \<and> g_slowHolders g = count_at (\<lambda>c. c = WHeldSlow) p
     \<and> g_weakParked g = count_at (\<lambda>c. c = WParked) p)"

definition gate_owner :: "gate_state \<Rightarrow> bool" where
  "gate_owner s \<longleftrightarrow> (case s of (g, p) \<Rightarrow>
     g_strong g = g_owned g \<and> (g_owned g \<longleftrightarrow> (\<exists>x. owns (p x)))
     \<and> (\<forall>x y. owns (p x) \<and> owns (p y) \<longrightarrow> x = y))"

definition gate_excl :: "gate_state \<Rightarrow> bool" where
  "gate_excl s \<longleftrightarrow> (case s of (g, p) \<Rightarrow>
     (\<forall>x y j. scanned (p x) j \<longrightarrow> p y \<noteq> WHeld j)
     \<and> (\<forall>x y. p x = SHeld \<longrightarrow> p y \<noteq> WHeldSlow))"

definition gate_inv :: "gate_state \<Rightarrow> bool" where
  "gate_inv s \<longleftrightarrow> gate_counts s \<and> gate_owner s \<and> gate_excl s"

lemma gateSlots_eq [simp]: "gateSlots = 64"
  by (simp add: gateSlots_def)

lemma gate_slot_less [simp]: "gate_slot hint < 64"
proof -
  have "hint AND 63 \<le> 63" by (rule word_and_le1)
  then have "unat (hint AND 63) \<le> unat (63 :: u64)" by (simp only: word_le_nat_alt)
  then show ?thesis by (simp add: gate_slot_def)
qed

lemma count_at_upd:
  assumes "finite {x. p x \<noteq> Out}" and "\<not> Q Out"
  shows "count_at Q (p(x := c)) = count_at Q p - (if Q (p x) then 1 else 0) + (if Q c then 1 else 0)"
proof -
  let ?S = "{y. Q (p y)}"
  have fin: "finite ?S"
    using assms(2) by (intro finite_subset [OF _ assms(1)]) auto
  have new: "{y. Q ((p(x := c)) y)} = (if Q c then insert x (?S - {x}) else ?S - {x})" by auto
  have "int (card (?S - {x})) = int (card ?S) - (if Q (p x) then 1 else 0)"
  proof (cases "Q (p x)")
    case True
    then have "card ?S = Suc (card (?S - {x}))" using fin by (intro card.remove) auto
    with True show ?thesis by simp
  next
    case False
    then show ?thesis by (simp add: Diff_insert0)
  qed
  moreover have "int (card (insert x (?S - {x}))) = int (card (?S - {x})) + 1"
    using fin by (simp add: card.insert_remove)
  ultimately show ?thesis unfolding count_at_def new by simp
qed

lemma finite_at:
  assumes "finite {x. p x \<noteq> Out}" and "\<not> Q Out"
  shows "finite {x. Q (p x)}"
  using assms(2) by (intro finite_subset [OF _ assms(1)]) auto

lemma count_at_0:
  assumes "finite {x. p x \<noteq> Out}" and "\<not> Q Out" and "count_at Q p = 0"
  shows "\<not> Q (p x)"
  using finite_at [of p Q, OF assms(1,2)] assms(3) by (auto simp: count_at_def)

lemma finite_upd: "finite {x. p x \<noteq> Out} \<Longrightarrow> finite {y. (p(x := c)) y \<noteq> Out}"
  by (rule finite_subset [of _ "insert x {x. p x \<noteq> Out}"]) auto

text \<open>Moving one goroutine changes the counters by its own contribution.\<close>

lemma gate_counts_upd:
  assumes "gate_counts (g, p)" and "length (g_slots g') = 64"
    and "\<And>j. at_slot j c \<Longrightarrow> j < 64"
    and "\<And>j. j < 64 \<Longrightarrow> g_slots g' ! j = g_slots g ! j - (if at_slot j (p x) then 1 else 0) + (if at_slot j c then 1 else 0)"
    and "g_slowHolders g' = g_slowHolders g - (if p x = WHeldSlow then 1 else 0) + (if c = WHeldSlow then 1 else 0)"
    and "g_weakParked g' = g_weakParked g - (if p x = WParked then 1 else 0) + (if c = WParked then 1 else 0)"
  shows "gate_counts (g', p(x := c))"
proof -
  have fin: "finite {x. p x \<noteq> Out}" using assms(1) by (simp add: gate_counts_def)
  have "\<forall>y j. at_slot j ((p(x := c)) y) \<longrightarrow> j < 64"
    using assms(1,3) by (auto simp: gate_counts_def)
  with assms(1,2,4-6) finite_upd [OF fin, of x c] show ?thesis
    unfolding gate_counts_def by (simp add: count_at_upd [OF fin] del: fun_upd_apply)
qed

lemma gate_counts_step:
  assumes "gate_step s s'" and "gate_counts s"
  shows "gate_counts s'"
  using assms
proof (induction rule: gate_step.induct)
  case (weak_add p x i hint g once)
  then show ?case
    by (intro gate_counts_upd [OF weak_add(3)]) (auto simp: slot_add_def gate_counts_def nth_list_update)
next
  case (weak_back_off p x i once g)
  then have "i < 64" unfolding gate_counts_def by (auto dest: spec [of _ x])
  with weak_back_off show ?case
    by (intro gate_counts_upd [OF weak_back_off(2)]) (auto simp: slot_add_def gate_counts_def nth_list_update split: if_splits)
next
  case (weak_slow_lock p x g g' ok)
  then show ?case
    by (intro gate_counts_upd [OF weak_slow_lock(3)])
      (auto simp: weak_slow_def gate_counts_def Let_def split: if_splits)
next
  case (weak_unlock p x i g g')
  then have "i < 64" unfolding gate_counts_def by (auto dest: spec [of _ x])
  with weak_unlock show ?case
    by (intro gate_counts_upd [OF weak_unlock(3)])
      (auto simp: WeakUnlock_def slot_add_def gate_counts_def nth_list_update)
next
  case (weak_fast p x i once g)
  then have "i < 64" unfolding gate_counts_def by (auto dest: spec [of _ x])
  with weak_fast show ?case
    by (intro gate_counts_upd [OF weak_fast(3)]) (auto simp: gate_counts_def)
next
  case (weak_contended p x i once g)
  then have "i < 64" unfolding gate_counts_def by (auto dest: spec [of _ x])
  with weak_contended show ?case
    by (intro gate_counts_upd [OF weak_contended(3)]) (auto simp: gate_counts_def)
next
  case (weak_cancel p x g)
  then show ?case
    by (intro gate_counts_upd [OF weak_cancel(2)]) (auto simp: gate_counts_def weak_slow_cancel_def)
next
  case (weak_unlock_slow p x g g')
  then show ?case
    by (intro gate_counts_upd [OF weak_unlock_slow(3)]) (auto simp: gate_counts_def WeakUnlock_def split: if_splits)
next
  case (strong_enter p x g g' t)
  then show ?case
    by (intro gate_counts_upd [OF strong_enter(3)]) (auto simp: gate_counts_def strong_enqueue_def)
next
  case (strong_acquire p x t g)
  then show ?case
    by (intro gate_counts_upd [OF strong_acquire(3)]) (auto simp: gate_counts_def strong_own_def)
next
  case (strong_give_up p x t g)
  then show ?case
    by (intro gate_counts_upd [OF strong_give_up(2)]) (auto simp: gate_counts_def strong_cancel_def)
next
  case (strong_scan p x i g)
  then show ?case by (intro gate_counts_upd [OF strong_scan(4)]) (auto simp: gate_counts_def)
next
  case (strong_scanned p x g)
  then show ?case by (intro gate_counts_upd [OF strong_scanned(2)]) (auto simp: gate_counts_def)
next
  case (strong_drained p x g)
  then show ?case by (intro gate_counts_upd [OF strong_drained(3)]) (auto simp: gate_counts_def)
next
  case (strong_release p x i g g')
  then show ?case
    by (intro gate_counts_upd [OF strong_release(3)]) (auto simp: gate_counts_def releaseStrong_def split: if_splits)
qed

lemma scanned_owns: "scanned c j \<Longrightarrow> owns c"
  by (cases c) auto

lemma gate_owner_upd:
  assumes "gate_owner (g, p)" and "g_strong g' = g_strong g" "g_owned g' = g_owned g"
    and "owns c = owns (p x)"
  shows "gate_owner (g', p(x := c))"
  using assms by (auto simp: gate_owner_def)

lemma gate_owner_step:
  assumes "gate_step s s'" and "gate_owner s"
  shows "gate_owner s'"
  using assms
proof (induction rule: gate_step.induct)
  case (strong_acquire p x t g)
  then have none: "\<not> owns (p y)" for y by (auto simp: gate_owner_def strong_turn_def)
  then show ?case by (auto simp: gate_owner_def strong_own_def)
next
  case (strong_release p x i g g')
  then have "owns (p x)" by auto
  with strong_release(3) have "\<not> owns (p y)" if "y \<noteq> x" for y
    using that by (auto simp: gate_owner_def)
  with strong_release(2) show ?case by (auto simp: gate_owner_def releaseStrong_def split: if_splits)
next
  case (weak_slow_lock p x g g' ok)
  then show ?case
    by (intro gate_owner_upd [OF weak_slow_lock(3)]) (auto simp: weak_slow_def Let_def split: if_splits)
qed (auto intro!: gate_owner_upd simp: slot_add_def weak_slow_cancel_def WeakUnlock_def strong_enqueue_def strong_cancel_def
      split: if_splits)

lemma gate_exclD:
  assumes "gate_excl (g, p)"
  shows "scanned (p x) j \<Longrightarrow> p y \<noteq> WHeld j" "p x = SHeld \<Longrightarrow> p y \<noteq> WHeldSlow"
  using assms by (auto simp: gate_excl_def)

lemma gate_exclI:
  assumes "\<And>x y j. scanned (p x) j \<Longrightarrow> p y \<noteq> WHeld j" "\<And>x y. p x = SHeld \<Longrightarrow> p y \<noteq> WHeldSlow"
  shows "gate_excl (g, p)"
  using assms by (auto simp: gate_excl_def)

lemma gate_excl_upd:
  assumes old: "gate_excl (g, p)" and c: "\<And>j. scanned c j \<Longrightarrow> scanned (p x) j" "\<And>j. c \<noteq> WHeld j"
    "c \<noteq> SHeld" "c \<noteq> WHeldSlow"
  shows "gate_excl (g', p(x := c))"
proof (rule gate_exclI)
  fix a b j
  show "(p(x := c)) b \<noteq> WHeld j" if "scanned ((p(x := c)) a) j"
  proof -
    have "\<exists>a'. scanned (p a') j" using that c(1) by (cases "a = x") auto
    with gate_exclD(1) [OF old] c(2) show ?thesis by auto
  qed
  show "(p(x := c)) b \<noteq> WHeldSlow" if "(p(x := c)) a = SHeld"
    using that gate_exclD(2) [OF old, of a b] c(3,4) by (auto split: if_splits)
qed

lemma no_owner:
  assumes "gate_owner (g, p)" and "\<not> g_owned g"
  shows "\<not> scanned (p y) j" "p y \<noteq> SHeld"
proof -
  have "\<not> owns (p y)" using assms by (auto simp: gate_owner_def)
  then show "\<not> scanned (p y) j" "p y \<noteq> SHeld" using scanned_owns by auto
qed

lemma at_slot_bound: "gate_counts (g, p) \<Longrightarrow> at_slot j (p y) \<Longrightarrow> j < 64"
  by (simp add: gate_counts_def)

lemma gate_excl_step:
  assumes "gate_step s s'" and "gate_counts s" "gate_owner s" "gate_excl s"
  shows "gate_excl s'"
  using assms
proof (induction rule: gate_step.induct)
  case (weak_fast p x i once g)
  then have "\<not> g_owned g" by (auto simp: gate_owner_def)
  note free = no_owner [OF weak_fast(4) this]
  show ?case by (rule gate_exclI) (use free in \<open>auto split: if_splits\<close>)
next
  case (weak_slow_lock p x g g' ok)
  show ?case
  proof (cases ok)
    case True
    with weak_slow_lock(2) have "\<not> g_owned g" by (auto simp: weak_slow_def Let_def split: if_splits)
    note free = no_owner [OF weak_slow_lock(4) this]
    show ?thesis by (rule gate_exclI) (use free True in \<open>auto split: if_splits\<close>)
  next
    case False
    then show ?thesis by (intro gate_excl_upd [OF weak_slow_lock(5)]) auto
  qed
next
  case (strong_scan p x i g)
  have fin: "finite {x. p x \<noteq> Out}" and zero: "count_at (at_slot i) p = 0"
    using strong_scan(2-4) by (auto simp: gate_counts_def)
  have "\<not> at_slot i (p y)" for y
    by (rule count_at_0 [where Q = "at_slot i", OF fin _ zero]) simp
  then have "p y \<noteq> WHeld i" for y by (metis at_slot.simps(3))
  moreover have "p y \<noteq> WHeld j" if "j < i" for y j
    using gate_exclD(1) [OF strong_scan(6), of x j y] strong_scan(1) that by simp
  ultimately have low: "p y \<noteq> WHeld j" if "j < i + 1" for y j
    using that by (cases "j = i") auto
  show ?case
    by (rule gate_exclI)
      (use low gate_exclD [OF strong_scan(6)] in \<open>auto split: if_splits\<close>)
next
  case (strong_scanned p x g)
  have all: "p y \<noteq> WHeld j" for y j
  proof
    assume h: "p y = WHeld j"
    then have "j < 64" using at_slot_bound [OF strong_scanned(2), of j y] by simp
    with gate_exclD(1) [OF strong_scanned(4), of x j y] strong_scanned(1) h show False by simp
  qed
  show ?case
    by (rule gate_exclI) (use all gate_exclD(2) [OF strong_scanned(4)] in \<open>auto split: if_splits\<close>)
next
  case (strong_drained p x g)
  have fin: "finite {x. p x \<noteq> Out}" and zero: "count_at (\<lambda>c. c = WHeldSlow) p = 0"
    using strong_drained(2,3) by (auto simp: gate_counts_def)
  have slow: "p y \<noteq> WHeldSlow" for y
    by (rule count_at_0 [where Q = "\<lambda>c. c = WHeldSlow", OF fin _ zero]) simp
  have all: "p y \<noteq> WHeld j" for y j
    using gate_exclD(1) [OF strong_drained(5), of x j y] strong_drained(1) by simp
  show ?case by (rule gate_exclI) (use slow all in \<open>auto split: if_splits\<close>)
qed (auto intro!: gate_excl_upd split: if_splits)

lemma gate_reachable_inv: "gate_step\<^sup>*\<^sup>* gate_init s \<Longrightarrow> gate_inv s"
proof (induction rule: rtranclp_induct)
  case base
  show ?case
    by (auto simp: gate_init_def gate_inv_def gate_counts_def gate_owner_def gate_excl_def new_Gate_def
        count_at_def)
next
  case (step s s')
  then show ?case
    using gate_counts_step [of s s'] gate_owner_step [of s s'] gate_excl_step [of s s']
    by (simp add: gate_inv_def)
qed

subsection \<open>Properties\<close>

text \<open>
  Property C20. Mutual exclusion: however the goroutines interleave, while one of them holds the
  gate strongly no other holds it, weakly (on a slot or by the slow path) or strongly.
\<close>

theorem gate_mutual_exclusion:
  assumes "gate_step\<^sup>*\<^sup>* gate_init (g, p)" and "p x = SHeld"
  shows "p y \<noteq> WHeld i \<and> p y \<noteq> WHeldSlow \<and> (owns (p y) \<longrightarrow> y = x)"
proof -
  have inv: "gate_inv (g, p)" using gate_reachable_inv [OF assms(1)] .
  then have "owns (p y) \<longrightarrow> y = x" using assms(2) by (auto simp: gate_inv_def gate_owner_def)
  moreover have excl: "gate_excl (g, p)" using inv by (simp add: gate_inv_def)
  ultimately show ?thesis
    using gate_exclD(1) [OF excl, of x i y] gate_exclD(2) [OF excl, of x y] assms(2) by simp
qed

text \<open>A run of one goroutine to the strong hold, for the witnesses.\<close>

lemma scan_run:
  assumes "p x = SScanning 0" and "g_slots g = replicate 64 0"
  shows "n \<le> 64 \<Longrightarrow> gate_step\<^sup>*\<^sup>* (g, p) (g, p(x := SScanning n))"
proof (induction n)
  case 0
  then show ?case using assms(1) by (metis fun_upd_triv rtranclp.rtrancl_refl)
next
  case (Suc n)
  have "gate_step (g, p(x := SScanning n)) (g, (p(x := SScanning n))(x := SScanning (n + 1)))"
    by (rule gate_step.strong_scan) (use Suc.prems assms(2) in simp_all)
  then have step: "gate_step (g, p(x := SScanning n)) (g, p(x := SScanning (Suc n)))" by simp
  have "gate_step\<^sup>*\<^sup>* (g, p) (g, p(x := SScanning n))" using Suc.IH Suc.prems by linarith
  then show ?case using step by (rule rtranclp.rtrancl_into_rtrancl)
qed

definition gate_demo :: gate_state where
  "gate_demo = (new_Gate\<lparr>g_nextTicket := 1, g_owned := True, g_strong := True\<rparr>, (\<lambda>_. Out)(0 := SHeld))"

lemma gate_demo_reachable: "gate_step\<^sup>*\<^sup>* gate_init gate_demo"
proof -
  let ?g1 = "new_Gate\<lparr>g_nextTicket := 1, g_queue := [0]\<rparr>"
  let ?g2 = "new_Gate\<lparr>g_nextTicket := 1, g_owned := True, g_strong := True\<rparr>"
  let ?p = "\<lambda>c. (\<lambda>_. Out)(0 := c)"
  have "gate_step gate_init (?g1, ?p (SWaiting 0))"
    unfolding gate_init_def by (rule gate_step.strong_enter) (simp_all add: strong_enqueue_def new_Gate_def)
  moreover have "gate_step (?g1, ?p (SWaiting 0)) (?g2, ?p (SScanning 0))"
    using gate_step.strong_acquire [of "?p (SWaiting 0)" 0 0 ?g1]
    by (simp add: strong_turn_def strong_own_def new_Gate_def)
  moreover have "gate_step\<^sup>*\<^sup>* (?g2, ?p (SScanning 0)) (?g2, ?p (SScanning 64))"
    using scan_run [of "?p (SScanning 0)" 0 ?g2 64] by (simp add: new_Gate_def)
  moreover have "gate_step (?g2, ?p (SScanning 64)) (?g2, ?p SDraining)"
    using gate_step.strong_scanned [of "?p (SScanning 64)" 0 ?g2] by simp
  moreover have "gate_step (?g2, ?p SDraining) gate_demo"
    using gate_step.strong_drained [of "?p SDraining" 0 ?g2] by (simp add: gate_demo_def new_Gate_def)
  ultimately show ?thesis
    by (meson rtranclp.rtrancl_into_rtrancl rtranclp.rtrancl_refl rtranclp_trans)
qed

theorem gate_mutual_exclusion_witness: "snd gate_demo 1 \<noteq> WHeld 0 \<and> snd gate_demo 1 \<noteq> WHeldSlow"
  using gate_mutual_exclusion [of "fst gate_demo" "snd gate_demo" 0 1 0] gate_demo_reachable
  by (auto simp: gate_demo_def)

text \<open>
  A goroutine that releases what it holds never panics and never underflows a
  counter: a slow holder finds \<open>slowHolders\<close> positive, a slot holder finds its slot's counter
  positive, and a strong owner (also one that gives up half way) finds the gate owned.
\<close>

theorem gate_release_never_panics:
  assumes "gate_step\<^sup>*\<^sup>* gate_init (g, p)"
  shows "(p x = WHeldSlow \<longrightarrow> 0 < g_slowHolders g \<and> WeakUnlock None g = Inr (g\<lparr>g_slowHolders := g_slowHolders g - 1\<rparr>)) \<and>
    (p x = WHeld i \<longrightarrow> i < gateSlots \<and> 0 < g_slots g ! i) \<and>
    (owns (p x) \<longrightarrow> releaseStrong g = Inr (g\<lparr>g_owned := False, g_strong := False\<rparr>))"
proof -
  have inv: "gate_counts (g, p)" "gate_owner (g, p)"
    using gate_reachable_inv [OF assms] by (simp_all add: gate_inv_def)
  have fin: "finite {x. p x \<noteq> Out}" using inv(1) by (simp add: gate_counts_def)
  have pos: "0 < count_at Q p" if "Q (p x)" "\<not> Q Out" for Q
    using count_at_0 [of p Q x, OF fin that(2)] that(1) by (cases "count_at Q p = 0") (auto simp: count_at_def)
  have "0 < g_slowHolders g" if "p x = WHeldSlow"
    using pos [of "\<lambda>c. c = WHeldSlow"] that inv(1) by (simp add: gate_counts_def)
  moreover have "i < 64 \<and> 0 < g_slots g ! i" if "p x = WHeld i"
    using pos [of "at_slot i"] at_slot_bound [OF inv(1), of i x] that inv(1) by (simp add: gate_counts_def)
  moreover have "g_owned g" if "owns (p x)" using that inv(2) by (auto simp: gate_owner_def)
  ultimately show ?thesis by (auto simp: WeakUnlock_def releaseStrong_def)
qed

theorem gate_release_never_panics_witness:
  "\<exists>g. releaseStrong (fst gate_demo) = Inr g"
  using gate_release_never_panics [of "fst gate_demo" "snd gate_demo" 0] gate_demo_reachable
  by (auto simp: gate_demo_def)

end
