(* ===== verification/Spec2Isabelle.thy ===== *)
theory Spec2Isabelle
  imports Wal_Log Txn_Mutators Bolt_System Search_Bellman_Ford Search_WCC Search_Topo Search_Traverse Mvcc_Await Mvcc_Stamp Mvcc_Horizon Mvcc_Gate
begin

text \<open>
  A verification library for GoGraph, a graph database written in Go: an in-memory labelled property
  graph under multi-version concurrency control, made durable by a write-ahead log, queried in Cypher
  and served over the Bolt protocol.

  \<^bold>\<open>The parts and how they interact.\<close> A client speaks Bolt (\<open>bolt/proto\<close>, \<open>bolt/packstream\<close>,
  \<open>bolt/server\<close>): the handshake picks a version, messages travel in chunks, their values in PackStream,
  and one session per connection runs them against the engine. The engine (\<open>cypher\<close>) reads and writes the
  graph under transactions whose timestamps, commit records, visibility, conflict detection and
  reclamation live in \<open>graph/mvcc\<close>. A committed transaction is a run of frames of the write-ahead log
  (\<open>store/wal\<close>), one per op and a commit marker, whose records are encoded by \<open>store/txn\<close>;
  \<open>store/recovery\<close> reads the log back and replays the committed transactions into the graph. Graph algorithms
  (\<open>search\<close>, over the structures of \<open>ds\<close>) run on an immutable snapshot of the graph (\<open>graph/csr\<close>).

  \<^bold>\<open>The theories.\<close>
  \<^item> \<open>Prelude\<close>: results, little- and big-endian integers, list lemmas. \<open>Crc32c\<close> and \<open>Varint\<close>: the checksum
    and the variable-length integers the formats share.
  \<^item> \<open>Wal_Format\<close> (\<open>store/wal/format.go\<close>): the two frame layouts, \<open>Encode\<close>, \<open>Decode\<close>, the discrimination of a
    torn tail from a frame that swallowed data. \<open>Wal_Reader\<close> (\<open>reader.go\<close>): \<open>Frames\<close> and \<open>Replay\<close>.
    \<open>Wal_Control\<close> (\<open>control.go\<close>): the control file, segment headers and control records. \<open>Wal_Log\<close> (\<open>log.go\<close>):
    the log made of segments, its frame check and its reader. The lemmas show that what was written is
    read back, that every damaged byte is refused, that a crash keeps exactly the complete frames, and that
    a damaged or missing segment is an error and never a shorter log.
  \<^item> \<open>Txn_Codec\<close> (\<open>store/txn/codec.go\<close>, \<open>weight_codec.go\<close>): the codecs of keys and weights, each an interpretation
    of the locale \<open>codec\<close>. \<open>Txn_Values\<close> (\<open>txn.go\<close>, \<open>store/recovery/recovery.go\<close>): property values, from the encoder's
    checks to recovery's decoder: exactly which accepted values come back, and what the log loses. \<open>Txn_Ops\<close> (\<open>txn.go\<close>): the ops, the mutators of a
    transaction, the op records and the run of frames a commit appends.
  \<^item> \<open>Recovery_Apply\<close> (\<open>store/recovery/recovery.go\<close>): decoding a record and applying it to the graph, which is a
    record of the methods recovery calls; every logged op replays as its typed effect. \<open>Commit_Annex\<close>
    (\<open>store/txn/annex.go\<close>, \<open>store/recovery/annex.go\<close>): the node ids a commit marker carries, written and placed back.
    \<open>Recovery_Replay\<close> (\<open>replayWALInto\<close>, \<open>ReplayWAL\<close>, \<open>idreplay.go\<close>): the replay as a state machine over frames, its
    buffer bound, its maxima, the redo position and why it stops. \<open>Recovery_Log\<close>: the log a store writes, as runs of
    frames; its replay after a cut at any byte is the reference \<open>recovered\<close> on the runs before the cut.
    \<open>Txn_Mutators\<close>: the transitions of a transaction; what its mutators check of an op, what its commit checks,
    and under which conditions, checked by neither, the op is replayed as its effect.
  \<^item> \<open>Mvcc_Core\<close> (\<open>graph/mvcc/mvcc.go\<close>, \<open>conflict.go\<close>): timestamps, \<open>Visible\<close>, commit records, \<open>Conflicts\<close>.
    \<open>Mvcc_Clock\<close> (the clock with its registry of commits in flight, \<open>commitlog.go\<close>) and
    \<open>Mvcc_System\<close>: transactions that interleave over one clock; the frontier passes no commit in flight,
    snapshots are stable, the loops end. \<open>Mvcc_Await\<close> (\<open>await.go\<close>): the callers that wait for the frontier
    and the publications that wake them; no wake-up is lost, and a caller whose commits are finished returns. \<open>Mvcc_Stamp\<close> (\<open>stamp.go\<close>, \<open>tx.go\<close>): the stamping of writes.
    \<open>Mvcc_Horizon\<close> (\<open>horizon.go\<close>): the slots of active readers and the reclamation watermark.
    \<open>Mvcc_Gate\<close> (\<open>gate.go\<close>): the weak/strong gate, as a state machine of atomic operations.
  \<^item> \<open>Packstream\<close> (\<open>bolt/packstream\<close>): the value codec with its limits and the shared inbound budget.
    \<open>Bolt_Framing\<close> (\<open>bolt/proto/chunking.go\<close>, \<open>handshake.go\<close>): chunking and version negotiation, with the
    locale \<open>message_transport\<close> that \<open>Bolt_Messages\<close> (\<open>messages.go\<close>) uses to deliver requests and responses.
  \<^item> \<open>Bolt_State\<close> (\<open>bolt/server/state.go\<close>), \<open>Bolt_Session\<close> (\<open>session.go\<close>, \<open>tx.go\<close>, \<open>txquota.go\<close>,
    \<open>txregistry.go\<close>, \<open>auth.go\<close> and the serve loop's steps): the session with every handler. \<open>Bolt_Session_Inv\<close>:
    its invariant, kept by every handler. \<open>Bolt_Auth\<close>: statements, BEGIN and COMMIT reach the engine only for an
    authenticated client, and rollbacks and closed cursors only follow such calls.
    \<open>Bolt_Protocol\<close>: the abstract protocol, refined by the session. \<open>Bolt_Server\<close> and \<open>Bolt_System\<close>: the sessions
    of one server in any interleaving, and the exact accounting of quota slots and open transactions.
  \<^item> \<open>Go_Arrays\<close>: checked array accesses and loops that may fail or not return, shared by what follows.
    \<open>Graph_CSR\<close> (\<open>graph/csr/csr.go\<close>): snapshots, their validation and their live nodes. \<open>Union_Find\<close>
    (\<open>ds/unionfind.go\<close>): both disjoint-set forests, each an interpretation of the locale \<open>forest_store\<close>, which gives
    the contract \<open>partition\<close> their clients use. \<open>Search_WCC\<close> (\<open>search/wcc.go\<close>): connected components, exact.
    \<open>Search_Topo\<close> (\<open>search/topo.go\<close>): topological orders, with a cycle reported exactly when there is one.
    \<open>Search_Traverse\<close> (\<open>search/search.go\<close>): breadth-first search visits by distance, depth-first search makes the
    calls of the recursive search, for every callback. \<open>Search_Deque\<close> and \<open>Search_Bellman_Ford\<close>
    (\<open>search/bellman_ford.go\<close>): the circular buffer of the search, and shortest distances with negative weights; the search always returns, its distances are exact, and a
    negative cycle is always reported, also, in some acyclic graphs, where there is none.

  \<^bold>\<open>How state and operations correspond.\<close> A struct is a record with the fields of the source, a method a
  function from the state to the result and the new state, an error a value of a datatype that has the
  source's sentinel errors. Machine words keep their width (\<open>u8\<close> to \<open>u64\<close>) where overflow matters.
  A lock-protected method is one step. Of the lock-free code, the scan of the horizon, the gate and the
  callers that wait for the frontier take one atomic operation per step, and a publication is split where
  it meets those callers; every other method of the clock is one step (its compare-and-swap loops are
  linearised at their last iteration), so the theorems on the clock cover the interleaving of whole methods
  and not of the loads and swaps inside two of them. What the code
  calls outside these files (the engine, authentication, the clock, sockets, the live graph recovery fills)
  is an argument.

  \<^bold>\<open>Bounds.\<close> The theorems on the clock hold for commit timestamps below \<open>2 ^ 63\<close> and transaction sequence
  numbers below \<open>2 ^ 61\<close>, those on the log for positions below \<open>2 ^ 63\<close>: the ranges the formats reserve, which
  the hypotheses state. Loops are total functions with a termination proof; where the source's loop may
  run without end the theorem says when it ends.

  \<^bold>\<open>Not modelled.\<close> The Cypher language (parser, planner, executor), the mutable graph store and its
  indexes, the graph algorithms besides those above, opening a store directory, snapshot files and checkpoints, the
  replay of a legacy store of undirected or simple graphs, the locks and queues of the commit protocol, file
  handling and group commit of the WAL writer, sockets, TLS, logging and metrics. The components of the
  manifest name each with its reason.
\<close>

end
